(* ===== verification/GoBase.thy ===== *)
theory GoBase
  imports Main "HOL-Library.AList" "HOL-Library.List_Lexorder" "HOL-Library.Char_ord"
    "HOL-Library.Product_Lexorder" "HOL-Library.Multiset" "HOL-Library.Code_Target_Nat"
begin

text \<open>
  The Go vocabulary the components share: instants and durations, maps, sorting, rotation,
  the remainder of signed integers, and folds over locked queries.

  An instant (\<open>time.Time\<close>) is an integer number of nanoseconds since the Unix epoch; the zero
  instant of Go (\<open>IsZero\<close>) is 1 January of the year 1. All instants of one process are
  taken on one clock here, as Go does while both carry a monotonic reading; the watchdog, which
  reads two clocks, has a type of its own (theory Watchdog). \<open>Sub\<close> saturates at the range of
  an \<open>int64\<close>, as Go's does: an instant minus the zero instant is the largest duration.

  A Go map that is only looked up and written is an association list with \<open>AList.update\<close> and
  \<open>AList.delete\<close>; its order stands for the unspecified order of Go's \<open>range\<close>.
\<close>

named_theorems go_consts "the constants of the source, unfolded to numerals"
named_theorems go_state "unfolding rules of operations on a component's state"

section \<open>Instants and durations\<close>

type_synonym gtime = int
type_synonym duration = int

definition zero_time :: gtime where
  "zero_time = - 62135596800000000000"

abbreviation is_zero :: "gtime \<Rightarrow> bool" where
  "is_zero t \<equiv> t = zero_time"

definition tsub :: "gtime \<Rightarrow> gtime \<Rightarrow> duration" where
  "tsub a b = max (- 9223372036854775808) (min 9223372036854775807 (a - b))"

definition second :: duration where "second = 1000000000"
definition millisecond :: duration where "millisecond = 1000000"
definition minute :: duration where "minute = 60000000000"
definition hour :: duration where "hour = 3600000000000"

declare second_def [go_consts] millisecond_def [go_consts] minute_def [go_consts] hour_def [go_consts]

lemma tsub_less [simp]:
  "\<lbrakk>- 9223372036854775808 < d; d \<le> 9223372036854775807\<rbrakk> \<Longrightarrow> tsub a b < d \<longleftrightarrow> a - b < d"
  by (auto simp: tsub_def)

lemma tsub_le [simp]:
  "\<lbrakk>- 9223372036854775808 \<le> d; d < 9223372036854775807\<rbrakk> \<Longrightarrow> tsub a b \<le> d \<longleftrightarrow> a - b \<le> d"
  by (auto simp: tsub_def)

lemma less_tsub [simp]:
  "\<lbrakk>- 9223372036854775808 \<le> d; d < 9223372036854775807\<rbrakk> \<Longrightarrow> d < tsub a b \<longleftrightarrow> d < a - b"
  by (auto simp: tsub_def)

lemma le_tsub [simp]:
  "\<lbrakk>- 9223372036854775808 < d; d \<le> 9223372036854775807\<rbrakk> \<Longrightarrow> d \<le> tsub a b \<longleftrightarrow> d \<le> a - b"
  by (auto simp: tsub_def)

lemma tsub_exact:
  "\<lbrakk>- 9223372036854775808 \<le> a - b; a - b \<le> 9223372036854775807\<rbrakk> \<Longrightarrow> tsub a b = a - b"
  by (simp add: tsub_def)

lemma tsub_self [simp]: "tsub t t = 0"
  by (simp add: tsub_def)

section \<open>Signed remainder\<close>

text \<open>Go's \<open>%\<close> truncates towards zero: the remainder has the sign of the dividend.\<close>

definition go_rem :: "int \<Rightarrow> int \<Rightarrow> int" where
  "go_rem a b = sgn a * (\<bar>a\<bar> mod \<bar>b\<bar>)"

lemma go_rem_nonneg: "0 \<le> a \<Longrightarrow> 0 < b \<Longrightarrow> go_rem a b = a mod b"
  by (cases "a = 0") (auto simp: go_rem_def)

lemma go_rem_shift:
  assumes "0 < n"
  shows "(if go_rem i n < 0 then go_rem i n + n else go_rem i n) = i mod n"
proof (cases "0 \<le> i")
  case True
  with assms show ?thesis by (simp add: go_rem_nonneg pos_mod_sign not_less)
next
  case False
  then have r: "go_rem i n = - ((- i) mod n)" using assms by (simp add: go_rem_def)
  show ?thesis
  proof (cases "(- i) mod n = 0")
    case True
    then have "i mod n = 0" by (metis dvd_eq_mod_eq_0 dvd_minus_iff)
    with r True show ?thesis by simp
  next
    case F: False
    have "i mod n = n - (- i) mod n"
      using F by (metis add.inverse_inverse zmod_zminus1_eq_if)
    moreover have "0 < (- i) mod n" using F pos_mod_sign [OF assms, of "- i"] by simp
    ultimately show ?thesis using r by simp
  qed
qed

section \<open>Maps\<close>

abbreviation mput :: "'k \<Rightarrow> 'v \<Rightarrow> ('k \<times> 'v) list \<Rightarrow> ('k \<times> 'v) list" where
  "mput \<equiv> AList.update"

abbreviation mdel :: "'k \<Rightarrow> ('k \<times> 'v) list \<Rightarrow> ('k \<times> 'v) list" where
  "mdel \<equiv> AList.delete"

lemma map_of_mput [simp]: "map_of (mput k v m) = (map_of m)(k \<mapsto> v)"
  by (rule AList.update_conv')

lemma map_of_mdel [simp]: "map_of (mdel k m) = (map_of m)(k := None)"
  by (rule AList.delete_conv')

text \<open>A missing key of a map to integers reads as zero.\<close>

definition mcount :: "('k \<times> int) list \<Rightarrow> 'k \<Rightarrow> int" where
  "mcount m k = (case map_of m k of None \<Rightarrow> 0 | Some n \<Rightarrow> n)"

definition mmember :: "('k \<times> bool) list \<Rightarrow> 'k \<Rightarrow> bool" where
  "mmember m k = (map_of m k = Some True)"

lemma mcount_mput [simp]: "mcount (mput k v m) k' = (if k' = k then v else mcount m k')"
  by (simp add: mcount_def)

lemma mcount_mdel [simp]: "mcount (mdel k m) k' = (if k' = k then 0 else mcount m k')"
  by (simp add: mcount_def)

lemma mcount_Nil [simp]: "mcount [] k = 0"
  by (simp add: mcount_def)

section \<open>Sorting and rotation\<close>

text \<open>\<open>slices.SortStableFunc\<close> with a three-way comparison, as a stable insertion sort.\<close>

fun insertFunc :: "('a \<Rightarrow> 'a \<Rightarrow> int) \<Rightarrow> 'a \<Rightarrow> 'a list \<Rightarrow> 'a list" where
  "insertFunc cmp x [] = [x]"
| "insertFunc cmp x (y # ys) = (if cmp x y \<le> 0 then x # y # ys else y # insertFunc cmp x ys)"

fun sortStableFunc :: "('a \<Rightarrow> 'a \<Rightarrow> int) \<Rightarrow> 'a list \<Rightarrow> 'a list" where
  "sortStableFunc cmp [] = []"
| "sortStableFunc cmp (x # xs) = insertFunc cmp x (sortStableFunc cmp xs)"

lemma mset_insertFunc [simp]: "mset (insertFunc cmp x xs) = add_mset x (mset xs)"
  by (induction xs) auto

lemma mset_sortStableFunc [simp]: "mset (sortStableFunc cmp xs) = mset xs"
  by (induction xs) auto

lemma set_sortStableFunc [simp]: "set (sortStableFunc cmp xs) = set xs"
  by (metis mset_sortStableFunc set_mset_mset)

lemma length_sortStableFunc [simp]: "length (sortStableFunc cmp xs) = length xs"
  by (metis mset_sortStableFunc size_mset)

lemma distinct_sortStableFunc [simp]: "distinct (sortStableFunc cmp xs) = distinct xs"
  by (rule mset_eq_imp_distinct_iff) simp

lemma set_insertFunc [simp]: "set (insertFunc cmp x xs) = insert x (set xs)"
  by (induction xs) auto

lemma insertFunc_insort_key:
  assumes "\<And>x y. cmp x y \<le> 0 \<longleftrightarrow> f x \<le> f y"
  shows "insertFunc cmp x xs = insort_key f x xs"
  by (induction xs) (auto simp: assms)

text \<open>With a comparison that ranks by a key, the sort is the library's stable one.\<close>

lemma sortStableFunc_sort_key:
  assumes "\<And>x y. cmp x y \<le> 0 \<longleftrightarrow> f x \<le> f y"
  shows "sortStableFunc cmp xs = sort_key f xs"
  by (induction xs) (auto simp: insertFunc_insort_key [OF assms] sort_key_def)

text \<open>\<open>time.Time.Compare\<close>.\<close>

definition tcompare :: "gtime \<Rightarrow> gtime \<Rightarrow> int" where
  "tcompare a b = (if a < b then - 1 else if b < a then 1 else 0)"

lemma tcompare_le_0 [simp]: "tcompare a b \<le> 0 \<longleftrightarrow> a \<le> b"
  by (auto simp: tcompare_def)

text \<open>\<open>sort.Strings\<close> followed by \<open>slices.Compact\<close>: strings compare byte by byte.\<close>

definition sortCompact :: "string list \<Rightarrow> string list" where
  "sortCompact xs = remdups_adj (sort xs)"

lemma set_sortCompact [simp]: "set (sortCompact xs) = set xs"
  by (simp add: sortCompact_def)

lemma sorted_sortCompact [simp]: "sorted (sortCompact xs)"
  by (simp add: sortCompact_def)

lemma distinct_sortCompact [simp]: "distinct (sortCompact xs)"
proof -
  have "sorted ys \<Longrightarrow> distinct (remdups_adj ys)" for ys :: "string list"
    by (induction ys rule: remdups_adj.induct) (auto simp: less_le)
  then show ?thesis by (simp add: sortCompact_def)
qed

lemma sortCompact_eq_iff: "sortCompact xs = sortCompact ys \<longleftrightarrow> set xs = set ys"
  by (metis distinct_sortCompact set_sortCompact sorted_distinct_set_unique sorted_sortCompact)

lemma sortCompact_Nil_iff [simp]: "sortCompact xs = [] \<longleftrightarrow> xs = []"
  by (metis set_empty set_sortCompact)

section \<open>Verdicts that run out\<close>

text \<open>
  The interface between the components that hold a verdict against a relay for a while (a
  penalty, a rest, a mark of ghosts) and the code that picks relays by it. Such a verdict is
  read lazily: the read itself sweeps what has run out, so reading is an operation on the state,
  and a worker that filters a list of relays threads the state through every read. What the
  pickers rely on is that a read never changes what a later read answers; it is stated as the
  locale \<open>lazy_verdict\<close>, and the loops over relays are proved in it once.
\<close>

text \<open>The loop \<open>for _, a := range xs { if ask(a) { out = append(out, a) } }\<close>.\<close>

fun filter_read :: "('s \<Rightarrow> 'k \<Rightarrow> bool \<times> 's) \<Rightarrow> 's \<Rightarrow> 'k list \<Rightarrow> 'k list \<times> 's" where
  "filter_read ask s [] = ([], s)"
| "filter_read ask s (x # xs) =
    (let (b, s) = ask s x; (out, s) = filter_read ask s xs
     in (if b then x # out else out, s))"

text \<open>The loop \<open>for _, a := range xs { if a != skip && ask(a) { return true } }; return false\<close>.\<close>

fun exists_read :: "('s \<Rightarrow> 'k \<Rightarrow> bool \<times> 's) \<Rightarrow> 's \<Rightarrow> 'k \<Rightarrow> 'k list \<Rightarrow> bool \<times> 's" where
  "exists_read ask s skip [] = (False, s)"
| "exists_read ask s skip (x # xs) =
    (if x = skip then exists_read ask s skip xs
     else let (b, s) = ask s x in if b then (True, s) else exists_read ask s skip xs)"

locale lazy_verdict =
  fixes ask :: "'s \<Rightarrow> 'k \<Rightarrow> gtime \<Rightarrow> bool \<times> 's"
  assumes later: "now \<le> now' \<Longrightarrow> fst (ask (snd (ask s k now)) k' now') = fst (ask s k' now')"
begin

definition swept :: "gtime \<Rightarrow> 's \<Rightarrow> 's \<Rightarrow> bool" where
  "swept now s s' \<longleftrightarrow> (\<forall>k now'. now \<le> now' \<longrightarrow> fst (ask s' k now') = fst (ask s k now'))"

lemma swept_refl: "swept now s s"
  by (simp add: swept_def)

lemma swept_read: "swept now s s' \<Longrightarrow> swept now s (snd (ask s' k now))"
  by (simp add: swept_def later)

lemma swept_fst: "swept now s s' \<Longrightarrow> fst (ask s' k now) = fst (ask s k now)"
  by (simp add: swept_def)

lemma filter_read_from:
  "swept now s s' \<Longrightarrow>
   fst (filter_read (\<lambda>s k. ask s k now) s' xs) = filter (\<lambda>k. fst (ask s k now)) xs \<and>
   swept now s (snd (filter_read (\<lambda>s k. ask s k now) s' xs))"
proof (induction xs arbitrary: s')
  case Nil
  then show ?case by simp
next
  case (Cons x xs)
  have sw: "swept now s (snd (ask s' x now))"
    using Cons.prems by (rule swept_read)
  show ?case
    using Cons.IH [OF sw] swept_fst [OF Cons.prems, of x]
    by (simp add: split_beta)
qed

lemma filter_read_eq:
  "fst (filter_read (\<lambda>s k. ask s k now) s xs) = filter (\<lambda>k. fst (ask s k now)) xs"
  using filter_read_from [OF swept_refl] by blast

lemma filter_read_swept: "swept now s (snd (filter_read (\<lambda>s k. ask s k now) s xs))"
  using filter_read_from [OF swept_refl] by blast

lemma exists_read_from:
  "swept now s s' \<Longrightarrow>
   (fst (exists_read (\<lambda>s k. ask s k now) s' skip xs) \<longleftrightarrow>
      (\<exists>k \<in> set xs. k \<noteq> skip \<and> fst (ask s k now))) \<and>
   swept now s (snd (exists_read (\<lambda>s k. ask s k now) s' skip xs))"
proof (induction xs arbitrary: s')
  case Nil
  then show ?case by simp
next
  case (Cons x xs)
  have sw: "swept now s (snd (ask s' x now))"
    using Cons.prems by (rule swept_read)
  show ?case
    using Cons.IH [OF sw] Cons.IH [OF Cons.prems] swept_fst [OF Cons.prems, of x] sw
    by (auto simp: split_beta)
qed

lemma exists_read_iff:
  "fst (exists_read (\<lambda>s k. ask s k now) s skip xs) \<longleftrightarrow>
     (\<exists>k \<in> set xs. k \<noteq> skip \<and> fst (ask s k now))"
  using exists_read_from [OF swept_refl] by blast

lemma exists_read_swept: "swept now s (snd (exists_read (\<lambda>s k. ask s k now) s skip xs))"
  using exists_read_from [OF swept_refl] by blast

end

end
