(* ===== verification/ServerHealth.thy ===== *)
theory ServerHealth
  imports GoBase
begin

text \<open>
  Per-server failure accounting: \<open>pkg/proxy/turn_server_health.go\<close> and the demotion stamps of
  \<open>turn_server_demotion.go\<close>. The state is \<open>serverHealthState.byAddr\<close>, a map from a server's
  address to its record; every operation runs under one mutex and is one function from map to
  map here. \<open>noteServerFailure\<close> and its siblings without \<open>At\<close> only read the clock. Reading a
  penalty is a mutation: an expired window is cleared on the read (\<open>penalizedLocked\<close>).
  Logging is left out.
\<close>

definition serverFailThreshold :: int where "serverFailThreshold = 3"
definition serverFailCoalesce :: duration where "serverFailCoalesce = 10 * second"
definition serverStreakDecay :: duration where "serverStreakDecay = 5 * minute"
definition serverPenaltyWindow :: duration where "serverPenaltyWindow = 5 * minute"

declare serverFailThreshold_def [go_consts] serverFailCoalesce_def [go_consts]
  serverStreakDecay_def [go_consts] serverPenaltyWindow_def [go_consts]

record serverHealth =
  failures :: int
  lastStrike :: gtime
  penalizedTil :: gtime
  lastGood :: gtime
  demotedAt :: gtime

definition newServerHealth :: serverHealth where
  "newServerHealth = \<lparr>failures = 0, lastStrike = zero_time, penalizedTil = zero_time,
     lastGood = zero_time, demotedAt = zero_time\<rparr>"

type_synonym health = "(string \<times> serverHealth) list"

definition resetServerHealth :: "health \<Rightarrow> health" where
  "resetServerHealth m = []"

definition healthEntryLocked :: "health \<Rightarrow> string \<Rightarrow> serverHealth \<times> health" where
  "healthEntryLocked m addr = (case map_of m addr of
     None \<Rightarrow> (newServerHealth, mput addr newServerHealth m)
   | Some h \<Rightarrow> (h, m))"

definition noteServerFailureAt :: "health \<Rightarrow> string \<Rightarrow> gtime \<Rightarrow> health" where
  "noteServerFailureAt m addr now =
    (if addr = [] then m
     else let (h, m) = healthEntryLocked m addr;
              since = tsub now (lastStrike h)
       in if \<not> is_zero (lastStrike h) \<and> since < serverFailCoalesce then m
          else let h = (if \<not> is_zero (lastStrike h) \<and> since > serverStreakDecay
                        then h\<lparr>failures := 0\<rparr> else h);
                   h = h\<lparr>lastStrike := now, failures := failures h + 1\<rparr>
            in if failures h < serverFailThreshold then mput addr h m
               else mput addr (h\<lparr>penalizedTil := now + serverPenaltyWindow\<rparr>) m)"

definition noteServerSuccess :: "health \<Rightarrow> string \<Rightarrow> health" where
  "noteServerSuccess m addr =
    (if addr = [] then m
     else case map_of m addr of
       None \<Rightarrow> m
     | Some h \<Rightarrow>
         if failures h = 0 \<and> is_zero (penalizedTil h) then m
         else mput addr (h\<lparr>failures := 0, lastStrike := zero_time, penalizedTil := zero_time\<rparr>) m)"

definition noteServerHandshakeOKAt :: "health \<Rightarrow> string \<Rightarrow> gtime \<Rightarrow> health" where
  "noteServerHandshakeOKAt m addr now =
    (if addr = [] then m
     else let (h, m) = healthEntryLocked m addr in mput addr (h\<lparr>lastGood := now\<rparr>) m)"

text \<open>\<open>demotedLocked\<close> and \<open>lastGoodLocked\<close> take the entry a server may not have yet.\<close>

definition demotedLocked :: "serverHealth option \<Rightarrow> bool" where
  "demotedLocked h = (case h of None \<Rightarrow> False | Some h \<Rightarrow> lastGood h < demotedAt h)"

definition lastGoodLocked :: "serverHealth option \<Rightarrow> gtime" where
  "lastGoodLocked h = (case h of None \<Rightarrow> zero_time | Some h \<Rightarrow> lastGood h)"

definition noteServerDemotedAt :: "health \<Rightarrow> string \<Rightarrow> gtime \<Rightarrow> health" where
  "noteServerDemotedAt m addr now =
    (if addr = [] then m
     else let (h, m) = healthEntryLocked m addr in mput addr (h\<lparr>demotedAt := now\<rparr>) m)"

definition serverDemoted :: "health \<Rightarrow> string \<Rightarrow> bool" where
  "serverDemoted m addr = demotedLocked (map_of m addr)"

definition siblingProvedAnotherServer :: "health \<Rightarrow> string \<Rightarrow> gtime \<Rightarrow> gtime \<Rightarrow> bool" where
  "siblingProvedAnotherServer m addr attemptStart now =
    list_ex (\<lambda>(other, h). \<not> (other = addr \<or> is_zero (lastGood h)) \<and>
      lastGood h > attemptStart \<and> \<not> lastGood h > now) m"

definition noteServerHandshakeFailureAt :: "health \<Rightarrow> string \<Rightarrow> gtime \<Rightarrow> gtime \<Rightarrow> health" where
  "noteServerHandshakeFailureAt m addr attemptStart now =
    (if addr = [] then m
     else let m = noteServerDemotedAt m addr now
       in if \<not> siblingProvedAnotherServer m addr attemptStart now then noteServerFailureAt m addr now
          else let (h, m) = healthEntryLocked m addr
            in mput addr (h\<lparr>lastStrike := now, failures := failures h + 1,
                 penalizedTil := now + serverPenaltyWindow\<rparr>) m)"

definition penalizedLocked :: "serverHealth option \<Rightarrow> gtime \<Rightarrow> bool \<times> serverHealth option" where
  "penalizedLocked h now = (case h of
     None \<Rightarrow> (False, None)
   | Some h \<Rightarrow>
       if is_zero (penalizedTil h) then (False, Some h)
       else if now < penalizedTil h then (True, Some h)
       else (False, Some (h\<lparr>failures := 0, lastStrike := zero_time, penalizedTil := zero_time\<rparr>)))"

definition serverPenalized :: "health \<Rightarrow> string \<Rightarrow> gtime \<Rightarrow> bool \<times> health" where
  "serverPenalized m addr now =
    (case penalizedLocked (map_of m addr) now of
       (p, None) \<Rightarrow> (p, m)
     | (p, Some h) \<Rightarrow> (p, mput addr h m))"

section \<open>What one record reads as\<close>

text \<open>The server's record, zero for a server without one: what every operation reads.\<close>

definition healthOf :: "health \<Rightarrow> string \<Rightarrow> serverHealth" where
  "healthOf m addr = (case map_of m addr of None \<Rightarrow> newServerHealth | Some h \<Rightarrow> h)"

lemma newServerHealth_sel [simp]:
  "failures newServerHealth = 0" "lastStrike newServerHealth = zero_time"
  "penalizedTil newServerHealth = zero_time" "lastGood newServerHealth = zero_time"
  "demotedAt newServerHealth = zero_time"
  by (simp_all add: newServerHealth_def)

lemma healthOf_mput [simp]: "healthOf (mput a h m) b = (if b = a then h else healthOf m b)"
  by (simp add: healthOf_def)

lemma healthEntryLocked_fst [simp]: "fst (healthEntryLocked m a) = healthOf m a"
  by (simp add: healthEntryLocked_def healthOf_def split: option.split)

lemma healthOf_entry [simp]: "healthOf (snd (healthEntryLocked m a)) b = healthOf m b"
  by (auto simp: healthEntryLocked_def healthOf_def split: option.split)

lemma entryE:
  obtains m' where "healthEntryLocked m a = (healthOf m a, m')" "\<And>b. healthOf m' b = healthOf m b"
proof
  show "healthEntryLocked m a = (healthOf m a, snd (healthEntryLocked m a))"
    by (simp add: prod_eq_iff)
  show "healthOf (snd (healthEntryLocked m a)) b = healthOf m b" for b by simp
qed

definition struck :: "serverHealth \<Rightarrow> gtime \<Rightarrow> serverHealth" where
  "struck h now =
    (if \<not> is_zero (lastStrike h) \<and> now - lastStrike h < serverFailCoalesce then h
     else let n = (if \<not> is_zero (lastStrike h) \<and> serverStreakDecay < now - lastStrike h then 1
                   else failures h + 1)
       in h\<lparr>lastStrike := now, failures := n,
            penalizedTil := (if n < serverFailThreshold then penalizedTil h
                             else now + serverPenaltyWindow)\<rparr>)"

lemma healthOf_noteServerFailureAt [go_state]:
  "healthOf (noteServerFailureAt m a now) b =
    (if b = a \<and> a \<noteq> [] then struck (healthOf m a) now else healthOf m b)"
  by (rule entryE [of m a]) (auto simp: noteServerFailureAt_def struck_def Let_def go_consts)

lemma healthOf_noteServerDemotedAt [go_state]:
  "healthOf (noteServerDemotedAt m a now) b =
    (if b = a \<and> a \<noteq> [] then (healthOf m a)\<lparr>demotedAt := now\<rparr> else healthOf m b)"
  by (rule entryE [of m a]) (auto simp: noteServerDemotedAt_def)

lemma healthOf_noteServerHandshakeOKAt [go_state]:
  "healthOf (noteServerHandshakeOKAt m a now) b =
    (if b = a \<and> a \<noteq> [] then (healthOf m a)\<lparr>lastGood := now\<rparr> else healthOf m b)"
  by (rule entryE [of m a]) (auto simp: noteServerHandshakeOKAt_def)

lemma healthOf_noteServerSuccess [go_state]:
  "healthOf (noteServerSuccess m a) b =
    (if b = a \<and> a \<noteq> [] \<and> (failures (healthOf m a) \<noteq> 0 \<or> penalizedTil (healthOf m a) \<noteq> zero_time)
     then (healthOf m a)\<lparr>failures := 0, lastStrike := zero_time, penalizedTil := zero_time\<rparr>
     else healthOf m b)"
  by (auto simp: noteServerSuccess_def healthOf_def split: option.splits)

definition penaltyRead :: "serverHealth \<Rightarrow> gtime \<Rightarrow> serverHealth" where
  "penaltyRead h now =
    (if \<not> is_zero (penalizedTil h) \<and> penalizedTil h \<le> now
     then h\<lparr>failures := 0, lastStrike := zero_time, penalizedTil := zero_time\<rparr> else h)"

lemma healthOf_serverPenalized [go_state]:
  "healthOf (snd (serverPenalized m a now)) b =
    (if b = a then penaltyRead (healthOf m a) now else healthOf m b)"
  by (auto simp: serverPenalized_def penalizedLocked_def penaltyRead_def healthOf_def
      split: option.splits if_splits)

lemma fst_serverPenalized [go_state]:
  "fst (serverPenalized m a now) \<longleftrightarrow>
     \<not> is_zero (penalizedTil (healthOf m a)) \<and> now < penalizedTil (healthOf m a)"
  by (auto simp: serverPenalized_def penalizedLocked_def healthOf_def split: option.splits if_splits)

lemma serverDemoted_healthOf [go_state]:
  "serverDemoted m a \<longleftrightarrow> lastGood (healthOf m a) < demotedAt (healthOf m a)"
  by (auto simp: serverDemoted_def demotedLocked_def healthOf_def split: option.splits)

lemma lastGoodLocked_healthOf: "lastGoodLocked (map_of m a) = lastGood (healthOf m a)"
  by (auto simp: lastGoodLocked_def healthOf_def split: option.splits)

text \<open>A penalty is a verdict read lazily: the read clears a window that has run out.\<close>

interpretation penalty: lazy_verdict serverPenalized
  by unfold_locales (auto simp: go_state penaltyRead_def)

section \<open>Runs of the accounting\<close>

text \<open>The reports the rest of the program makes, and the accounting over a sequence of them.\<close>

datatype healthEvent =
    Failure string gtime
  | Success string
  | HandshakeOK string gtime
  | HandshakeFailure string gtime gtime  \<comment> \<open>server, start of the attempt, now\<close>
  | ReadPenalty string gtime

fun healthStep :: "health \<Rightarrow> healthEvent \<Rightarrow> health" where
  "healthStep m (Failure a t) = noteServerFailureAt m a t"
| "healthStep m (Success a) = noteServerSuccess m a"
| "healthStep m (HandshakeOK a t) = noteServerHandshakeOKAt m a t"
| "healthStep m (HandshakeFailure a s t) = noteServerHandshakeFailureAt m a s t"
| "healthStep m (ReadPenalty a t) = snd (serverPenalized m a t)"

fun healthRun :: "health \<Rightarrow> healthEvent list \<Rightarrow> health" where
  "healthRun m [] = m"
| "healthRun m (e # es) = healthRun (healthStep m e) es"

text \<open>When a server was reported failing: by a failed attempt or a failed handshake.\<close>

fun reportsOf :: "string \<Rightarrow> healthEvent \<Rightarrow> gtime set" where
  "reportsOf a (Failure b t) = (if b = a then {t} else {})"
| "reportsOf a (HandshakeFailure b s t) = (if b = a then {t} else {})"
| "reportsOf a _ = {}"

text \<open>Whether an event is a handshake failure that a sibling's proof lets stand the server down
  at once.\<close>

fun alibi :: "health \<Rightarrow> string \<Rightarrow> healthEvent \<Rightarrow> bool" where
  "alibi m a (HandshakeFailure b s t) = (b = a \<and> siblingProvedAnotherServer m a s t)"
| "alibi m a _ = False"

fun alibiRun :: "health \<Rightarrow> string \<Rightarrow> healthEvent list \<Rightarrow> bool" where
  "alibiRun m a [] = False"
| "alibiRun m a (e # es) = (alibi m a e \<or> alibiRun (healthStep m e) a es)"

lemma sibling_demoted [simp]:
  "siblingProvedAnotherServer (noteServerDemotedAt m a now) a s t = siblingProvedAnotherServer m a s t"
proof -
  have upd: "list_ex (\<lambda>(b, h). b \<noteq> a \<and> P h) (mput a h m) = list_ex (\<lambda>(b, h). b \<noteq> a \<and> P h) m"
    for h P and m :: health
    by (induction m) auto
  show ?thesis
    by (simp add: siblingProvedAnotherServer_def noteServerDemotedAt_def healthEntryLocked_def
        upd split: option.split)
qed

lemma healthOf_noteServerHandshakeFailureAt [go_state]:
  "healthOf (noteServerHandshakeFailureAt m a s now) b =
    (if b = a \<and> a \<noteq> [] then
       (let h = (healthOf m a)\<lparr>demotedAt := now\<rparr>
        in if siblingProvedAnotherServer m a s now
           then h\<lparr>lastStrike := now, failures := failures h + 1, penalizedTil := now + serverPenaltyWindow\<rparr>
           else struck h now)
     else healthOf m b)"
  by (rule entryE [of "noteServerDemotedAt m a now" a])
    (auto simp: noteServerHandshakeFailureAt_def healthOf_noteServerDemotedAt
        healthOf_noteServerFailureAt Let_def)

section \<open>Strikes in a row\<close>

text \<open>A chain of strikes, newest first: neighbours at least the coalescing window and at most the
  decay apart.\<close>

definition strikeGap :: "duration \<Rightarrow> bool" where
  "strikeGap d \<longleftrightarrow> serverFailCoalesce \<le> d \<and> d \<le> serverStreakDecay"

fun spaced :: "gtime list \<Rightarrow> bool" where
  "spaced (t # u # ts) = (strikeGap (t - u) \<and> spaced (u # ts))"
| "spaced _ = True"

definition chain :: "gtime set \<Rightarrow> gtime list \<Rightarrow> bool" where
  "chain T ts \<longleftrightarrow> ts \<noteq> [] \<and> set ts \<subseteq> T \<and> spaced ts"

lemma chain_single: "t \<in> T \<Longrightarrow> chain T [t]"
  by (simp add: chain_def)

lemma chain_Cons: "\<lbrakk>chain T ts; t \<in> T; strikeGap (t - hd ts)\<rbrakk> \<Longrightarrow> chain T (t # ts)"
  by (cases ts) (auto simp: chain_def)

lemma chain_mono: "chain T ts \<Longrightarrow> T \<subseteq> U \<Longrightarrow> chain U ts"
  by (auto simp: chain_def)

lemma chain_three:
  assumes "chain T ts" and "3 \<le> length ts"
  shows "\<exists>t1 t2. t1 \<in> T \<and> t2 \<in> T \<and> hd ts \<in> T \<and> strikeGap (t2 - t1) \<and> strikeGap (hd ts - t2)"
proof -
  from assms(2) obtain t3 t2 t1 us where "ts = t3 # t2 # t1 # us"
    by (auto simp: numeral_3_eq_3 Suc_le_length_iff)
  with assms(1) show ?thesis by (auto simp: chain_def)
qed

definition streakInv :: "gtime set \<Rightarrow> serverHealth \<Rightarrow> bool" where
  "streakInv T h \<longleftrightarrow>
     0 \<le> failures h \<and> (is_zero (lastStrike h) \<longrightarrow> failures h = 0) \<and>
     (0 < failures h \<longrightarrow> (\<exists>ts. chain T ts \<and> int (length ts) = failures h \<and> hd ts = lastStrike h)) \<and>
     (\<not> is_zero (penalizedTil h) \<longrightarrow>
        (\<exists>ts. chain T ts \<and> 3 \<le> length ts \<and> penalizedTil h = hd ts + serverPenaltyWindow))"

lemma streakInv_new: "streakInv T newServerHealth"
  by (simp add: streakInv_def)

lemma streakInv_mono: "streakInv T h \<Longrightarrow> T \<subseteq> U \<Longrightarrow> streakInv U h"
  unfolding streakInv_def by (meson chain_mono)

lemma streakInv_cleared:
  "streakInv T h \<Longrightarrow> streakInv T (h\<lparr>failures := 0, lastStrike := zero_time, penalizedTil := zero_time\<rparr>)"
  by (simp add: streakInv_def)

lemma streakInv_penaltyRead: "streakInv T h \<Longrightarrow> streakInv T (penaltyRead h now)"
  by (simp add: penaltyRead_def streakInv_cleared)

lemma streakInv_stamps [simp]:
  "streakInv T (h\<lparr>lastGood := t\<rparr>) = streakInv T h"
  "streakInv T (h\<lparr>demotedAt := t\<rparr>) = streakInv T h"
  by (simp_all add: streakInv_def)

lemma streakInv_struck:
  assumes inv: "streakInv T h" and now: "zero_time < now" "now \<in> T"
  shows "streakInv T (struck h now)"
proof (cases "\<not> is_zero (lastStrike h) \<and> now - lastStrike h < serverFailCoalesce")
  case True
  with inv show ?thesis by (simp add: struck_def)
next
  case nc: False
  define n where "n = (if \<not> is_zero (lastStrike h) \<and> serverStreakDecay < now - lastStrike h then 1
                   else failures h + 1)"
  have s: "struck h now = h\<lparr>lastStrike := now, failures := n,
      penalizedTil := (if n < serverFailThreshold then penalizedTil h else now + serverPenaltyWindow)\<rparr>"
    using nc by (auto simp: struck_def n_def Let_def)
  have "\<exists>ts. chain T ts \<and> int (length ts) = n \<and> hd ts = now"
  proof (cases "0 < failures h \<and> n = failures h + 1")
    case True
    then obtain ts where ts: "chain T ts" "int (length ts) = failures h" "hd ts = lastStrike h"
      using inv by (auto simp: streakInv_def)
    have "lastStrike h \<noteq> zero_time" using True inv by (auto simp: streakInv_def)
    with True nc have "strikeGap (now - lastStrike h)"
      by (auto simp: strikeGap_def n_def split: if_splits)
    then have "chain T (now # ts)" using ts now(2) by (simp add: chain_Cons)
    with ts True show ?thesis by (intro exI [of _ "now # ts"]) simp
  next
    case False
    then have "n = 1" using inv by (auto simp: n_def streakInv_def split: if_splits)
    then show ?thesis using chain_single [OF now(2)] by (intro exI [of _ "[now]"]) simp
  qed
  then obtain ts where ts: "chain T ts" "int (length ts) = n" "hd ts = now" by blast
  have "1 \<le> n" using inv by (auto simp: n_def streakInv_def)
  moreover have "\<not> n < serverFailThreshold \<Longrightarrow> 3 \<le> length ts"
    using ts(2) by (simp add: go_consts)
  ultimately show ?thesis
    using inv ts now(1) unfolding s streakInv_def by auto
qed

lemma streakInv_step:
  assumes "streakInv T (healthOf m a)" and "\<not> alibi m a e"
    and "\<forall>t \<in> reportsOf a e. zero_time < t" and "reportsOf a e \<subseteq> T"
  shows "streakInv T (healthOf (healthStep m e) a)"
  using assms
  by (cases e) (auto simp: go_state Let_def streakInv_penaltyRead
      streakInv_cleared streakInv_struck split: if_splits)

lemma streakInv_run:
  assumes "streakInv T (healthOf m a)" and "\<not> alibiRun m a es"
    and "\<forall>e \<in> set es. \<forall>t \<in> reportsOf a e. zero_time < t"
    and "\<forall>e \<in> set es. reportsOf a e \<subseteq> T"
  shows "streakInv T (healthOf (healthRun m es) a)"
  using assms
proof (induction es arbitrary: m)
  case Nil
  then show ?case by simp
next
  case (Cons e es)
  then have "streakInv T (healthOf (healthStep m e) a)"
    by (intro streakInv_step) auto
  with Cons show ?case by simp
qed

text \<open>A burst: reports within the window of a counted strike change nothing.\<close>

lemma struck_again:
  assumes "lastStrike h = t0" "\<not> is_zero t0" "t - t0 < serverFailCoalesce"
  shows "struck h t = h"
  using assms by (simp add: struck_def)

lemma burst_counts_once:
  assumes "lastStrike (healthOf m a) = t0" "\<not> is_zero t0"
    and "\<forall>t \<in> set ts. t - t0 < serverFailCoalesce"
  shows "healthOf (healthRun m (map (Failure a) ts)) a = healthOf m a"
  using assms
proof (induction ts arbitrary: m)
  case Nil
  then show ?case by simp
next
  case (Cons t ts)
  have "healthOf (noteServerFailureAt m a t) a = healthOf m a"
    using Cons.prems by (auto simp: go_state struck_again)
  with Cons show ?case by simp
qed

end
