(* ===== verification/ServerHealthProps.thy ===== *)
theory ServerHealthProps
  imports ServerHealth
begin

text \<open>
  What the health book promises of a TURN server: when it may be stood down, that an outage of the
  client's own link stands down nobody, and what a relay owes to leave the demoted ones.
\<close>

text \<open>
  C1. A server is stood down only after three failures in a row. If every handshake failure of it
  came without a sibling's proof, then whenever it reads as penalised at \<open>now\<close> there were three
  reports of its failure, neighbours at least ten seconds and at most five minutes apart, and the
  penalty window of five minutes from the last of them has not run out.
\<close>

theorem stand_down_needs_three_spaced_failures:
  assumes "\<not> alibiRun [] a es" "\<forall>e \<in> set es. \<forall>t \<in> reportsOf a e. zero_time < t"
    and "fst (serverPenalized (healthRun [] es) a now)"
  shows "\<exists>t1 t2 t3. {t1, t2, t3} \<subseteq> (\<Union>e \<in> set es. reportsOf a e) \<and>
     strikeGap (t2 - t1) \<and> strikeGap (t3 - t2) \<and> now < t3 + serverPenaltyWindow"
proof -
  let ?T = "\<Union>e \<in> set es. reportsOf a e"
  have "streakInv ?T (healthOf (healthRun [] es) a)"
    by (rule streakInv_run) (use assms(1,2) streakInv_new in \<open>auto simp: healthOf_def\<close>)
  moreover have "\<not> is_zero (penalizedTil (healthOf (healthRun [] es) a))"
    and n: "now < penalizedTil (healthOf (healthRun [] es) a)"
    using assms(3) by (simp_all add: fst_serverPenalized)
  ultimately obtain ts where ts: "chain ?T ts" "3 \<le> length ts"
      "penalizedTil (healthOf (healthRun [] es) a) = hd ts + serverPenaltyWindow"
    by (auto simp: streakInv_def)
  from chain_three [OF ts(1,2)] ts(3) n show ?thesis by (metis empty_subsetI insert_subset)
qed

theorem stand_down_needs_three_spaced_failures_witness:
  "\<exists>t1 t2 t3. {t1, t2, t3} \<subseteq> (\<Union>e \<in> set (map (Failure ''s'') [minute, 2 * minute, 3 * minute]). reportsOf ''s'' e) \<and>
     strikeGap (t2 - t1) \<and> strikeGap (t3 - t2) \<and> 7 * minute < t3 + serverPenaltyWindow"
proof (rule stand_down_needs_three_spaced_failures)
  show "\<not> alibiRun [] ''s'' (map (Failure ''s'') [minute, 2 * minute, 3 * minute])" by simp
  show "\<forall>e \<in> set (map (Failure ''s'') [minute, 2 * minute, 3 * minute]). \<forall>t \<in> reportsOf ''s'' e. zero_time < t"
    by (simp add: go_consts zero_time_def)
  show "fst (serverPenalized (healthRun [] (map (Failure ''s'') [minute, 2 * minute, 3 * minute])) ''s'' (7 * minute))"
    by code_simp
qed

text \<open>
  A burst of failures counts once: whatever failures of a server are reported within ten
  seconds of a failure that was counted, its record and every other server's are left as they were.
\<close>

theorem burst_of_failures_counts_once:
  assumes "zero_time < t0" "\<forall>t \<in> set ts. t < t0 + serverFailCoalesce"
    and "lastStrike (healthOf (noteServerFailureAt m a t0) a) = t0"
  shows "healthOf (healthRun (noteServerFailureAt m a t0) (map (Failure a) ts)) b =
    healthOf (noteServerFailureAt m a t0) b"
proof (cases "b = a")
  case True
  have "\<not> is_zero t0" "\<forall>t \<in> set ts. t - t0 < serverFailCoalesce" using assms(1,2) by auto
  from burst_counts_once [OF assms(3) this] True show ?thesis by simp
next
  case False
  then have "healthOf (healthRun m (map (Failure a) ts)) b = healthOf m b" for m
    by (induction ts arbitrary: m) (auto simp: go_state)
  then show ?thesis .
qed

theorem burst_of_failures_counts_once_witness:
  "healthOf (healthRun (noteServerFailureAt [] ''s'' minute) (map (Failure ''s'') [minute + second, minute + 9 * second])) ''s'' =
    healthOf (noteServerFailureAt [] ''s'' minute) ''s''"
proof (rule burst_of_failures_counts_once)
  show "lastStrike (healthOf (noteServerFailureAt [] ''s'' minute) ''s'') = minute" by code_simp
qed (auto simp: go_consts zero_time_def)

section \<open>Handshakes\<close>

definition provedDuring :: "health \<Rightarrow> string \<Rightarrow> gtime \<Rightarrow> gtime \<Rightarrow> bool" where
  "provedDuring m a start now \<longleftrightarrow>
     (\<exists>b. b \<noteq> a \<and> lastGood (healthOf m b) \<noteq> zero_time \<and>
        start < lastGood (healthOf m b) \<and> lastGood (healthOf m b) \<le> now)"

lemma sibling_iff:
  assumes "distinct (map fst m)"
  shows "siblingProvedAnotherServer m a start now \<longleftrightarrow> provedDuring m a start now"
proof
  assume "siblingProvedAnotherServer m a start now"
  then obtain b h where "(b, h) \<in> set m" "b \<noteq> a" "\<not> is_zero (lastGood h)" "start < lastGood h" "\<not> now < lastGood h"
    by (auto simp: siblingProvedAnotherServer_def list_ex_iff)
  with assms show "provedDuring m a start now"
    unfolding provedDuring_def by (intro exI [of _ b]) (auto simp: healthOf_def)
next
  assume "provedDuring m a start now"
  then obtain b h where "map_of m b = Some h" "b \<noteq> a" "lastGood h \<noteq> zero_time" "start < lastGood h" "lastGood h \<le> now"
    unfolding provedDuring_def healthOf_def by (auto split: option.splits)
  then show "siblingProvedAnotherServer m a start now"
    unfolding siblingProvedAnotherServer_def list_ex_iff
    by (intro bexI [of _ "(b, h)"]) (auto dest: map_of_SomeD)
qed

lemma distinct_healthEntry: "distinct (map fst m) \<Longrightarrow> distinct (map fst (snd (healthEntryLocked m a)))"
  by (auto simp: healthEntryLocked_def distinct_update split: option.split)

lemma distinct_step:
  assumes "distinct (map fst m)"
  shows "distinct (map fst (healthStep m e))"
proof -
  have d: "distinct (map fst (mput a h m))" if "distinct (map fst m)" for a h and m :: health
    using that by (rule distinct_update)
  have en: "distinct (map fst m')" if "healthEntryLocked m a = (h, m')" "distinct (map fst m)" for m a h m'
    using distinct_healthEntry [OF that(2), of a] that(1) by simp
  have de: "distinct (map fst (noteServerDemotedAt m a t))" if "distinct (map fst m)" for m a t
    using that by (auto simp: noteServerDemotedAt_def split: prod.split intro!: d dest: en)
  have fa: "distinct (map fst (noteServerFailureAt m a t))" if "distinct (map fst m)" for m a t
    using that by (auto simp: noteServerFailureAt_def Let_def split: prod.split intro!: d dest: en)
  have "distinct (map fst (noteServerHandshakeFailureAt m a s t))" for a s t
    using assms by (auto simp: noteServerHandshakeFailureAt_def Let_def split: prod.split intro!: d fa de dest: en [OF _ de])
  moreover have "distinct (map fst (noteServerHandshakeOKAt m a t))" for a t
    using assms by (auto simp: noteServerHandshakeOKAt_def split: prod.split intro!: d dest: en)
  moreover have "distinct (map fst (noteServerSuccess m a))" for a
    using assms by (auto simp: noteServerSuccess_def split: option.split intro!: d)
  moreover have "distinct (map fst (snd (serverPenalized m a t)))" for a t
    using assms by (auto simp: serverPenalized_def split: prod.split option.split intro!: d)
  ultimately show ?thesis using fa [OF assms] by (cases e) auto
qed

lemma distinct_run: "distinct (map fst m) \<Longrightarrow> distinct (map fst (healthRun m es))"
  by (induction es arbitrary: m) (auto simp: distinct_step)

text \<open>
  A failed handshake stands its server down at once exactly when the path proved itself
  meanwhile: after it, the server reads as penalised at the same instant, if it was not before and
  this is not the third strike in a row, just when a handshake on another server came through
  after the attempt started. Without such a proof (the client's own uplink is the likely cause) it
  is one strike like any other; either way the server is demoted from then on and no other server's
  record changes.
\<close>

theorem handshake_failure_verdict:
  assumes "a \<noteq> []" "m = healthRun [] es" "zero_time < now" "lastGood (healthOf m a) < now"
    and "failures (healthOf m a) + 1 < serverFailThreshold" "is_zero (penalizedTil (healthOf m a))"
  shows "(fst (serverPenalized (noteServerHandshakeFailureAt m a start now) a now) \<longleftrightarrow>
      provedDuring m a start now) \<and>
    serverDemoted (noteServerHandshakeFailureAt m a start now) a \<and>
    healthOf (noteServerHandshakeFailureAt m a start now) =
      (healthOf m)(a := healthOf (noteServerHandshakeFailureAt m a start now) a)"
proof -
  have "distinct (map fst m)" unfolding assms(2) by (rule distinct_run) simp
  then have s: "siblingProvedAnotherServer m a start now \<longleftrightarrow> provedDuring m a start now"
    by (rule sibling_iff)
  have "lastGood (struck h t) = lastGood h" "demotedAt (struck h t) = demotedAt h" for h t
    by (simp_all add: struck_def Let_def)
  moreover have "is_zero (penalizedTil (struck ((healthOf m a)\<lparr>demotedAt := now\<rparr>) now))"
    using assms(5,6) by (auto simp: struck_def Let_def go_consts)
  ultimately show ?thesis
    using assms(1,3,4) by (auto simp: go_state s Let_def go_consts zero_time_def fun_eq_iff)
qed

theorem handshake_failure_verdict_witness:
  "fst (serverPenalized (noteServerHandshakeFailureAt (healthRun [] [HandshakeOK ''b'' (5 * second)]) ''a''
      (4 * second) (9 * second)) ''a'' (9 * second)) \<longleftrightarrow>
    provedDuring (healthRun [] [HandshakeOK ''b'' (5 * second)]) ''a'' (4 * second) (9 * second)"
proof -
  have "failures (healthOf (healthRun [] [HandshakeOK ''b'' (5 * second)]) ''a'') + 1 < serverFailThreshold"
    "lastGood (healthOf (healthRun [] [HandshakeOK ''b'' (5 * second)]) ''a'') < 9 * second"
    "is_zero (penalizedTil (healthOf (healthRun [] [HandshakeOK ''b'' (5 * second)]) ''a''))"
    by code_simp+
  then show ?thesis
    by (intro conjunct1 [OF handshake_failure_verdict [OF _ refl]]) (auto simp: go_consts zero_time_def)
qed

end
