(* ===== verification/GoBytes.thy ===== *)
theory GoBytes
  imports GoBase "HOL-Library.Word"
begin

text \<open>
  Bytes and \<open>encoding/binary\<close>: little- and big-endian numbers read from and written to byte
  lists, with their round trips and bounds; and \<open>encoding/hex\<close>.
\<close>

type_synonym byte = "8 word"

definition leNat :: "byte list \<Rightarrow> nat" where
  "leNat bs = foldr (\<lambda>b n. unat b + 256 * n) bs 0"

definition beNat :: "byte list \<Rightarrow> nat" where
  "beNat bs = leNat (rev bs)"

fun putLE :: "nat \<Rightarrow> nat \<Rightarrow> byte list" where
  "putLE 0 n = []"
| "putLE (Suc k) n = of_nat n # putLE k (n div 256)"

definition putBE :: "nat \<Rightarrow> nat \<Rightarrow> byte list" where
  "putBE k n = rev (putLE k n)"

text \<open>The slice \<open>b[i:j]\<close> of bytes known to be there.\<close>

definition slice :: "nat \<Rightarrow> nat \<Rightarrow> 'a list \<Rightarrow> 'a list" where
  "slice i j xs = take (j - i) (drop i xs)"

lemma leNat_Nil [simp]: "leNat [] = 0" and leNat_Cons [simp]: "leNat (b # bs) = unat b + 256 * leNat bs"
  by (simp_all add: leNat_def)

lemma leNat_append: "leNat (xs @ ys) = leNat xs + 256 ^ length xs * leNat ys"
  by (induction xs) (simp_all add: algebra_simps)

lemma unat_byte_lt: "unat (b :: byte) < 256"
  by (rule order.strict_trans2 [OF unsigned_less]) simp

lemma leNat_bound: "leNat bs < 256 ^ length bs"
proof (induction bs)
  case (Cons b bs)
  have "unat b < 256" by (rule unat_byte_lt)
  moreover have "leNat bs \<le> 256 ^ length bs - 1" using Cons by simp
  ultimately have "unat b + 256 * leNat bs < 256 + 256 * (256 ^ length bs - 1)" by linarith
  also have "\<dots> = 256 ^ length (b # bs)" by (simp add: diff_mult_distrib2)
  finally show ?case by simp
qed simp

lemma beNat_bound: "beNat bs < 256 ^ length bs"
  using leNat_bound [of "rev bs"] by (simp add: beNat_def)

lemma length_putLE [simp]: "length (putLE k n) = k"
  by (induction k arbitrary: n) auto

lemma length_putBE [simp]: "length (putBE k n) = k"
  by (simp add: putBE_def)

lemma unat_of_nat_byte: "unat (of_nat n :: byte) = n mod 256"
  by (simp add: unat_of_nat)

lemma leNat_putLE: "leNat (putLE k n) = n mod 256 ^ k"
proof (induction k arbitrary: n)
  case (Suc k)
  have "n mod 256 + 256 * (n div 256 mod 256 ^ k) = n mod (256 * 256 ^ k)"
    by (simp add: mod_mult2_eq)
  with Suc show ?case by (simp add: unat_of_nat_byte)
qed simp

lemma beNat_putBE: "beNat (putBE k n) = n mod 256 ^ k"
  by (simp add: beNat_def putBE_def leNat_putLE)

lemma putLE_leNat: "length bs = k \<Longrightarrow> putLE k (leNat bs) = bs"
proof (induction bs arbitrary: k)
  case (Cons b bs)
  have "(of_nat (unat b + 256 * leNat bs) :: byte) = b"
    unfolding word_unat_eq_iff unat_of_nat_byte using unat_byte_lt [of b] by simp
  moreover have "(unat b + 256 * leNat bs) div 256 = leNat bs"
    using unat_byte_lt [of b] by simp
  ultimately show ?case using Cons by (cases k) auto
qed simp

lemma putBE_beNat: "length bs = k \<Longrightarrow> putBE k (beNat bs) = bs"
  using putLE_leNat [of "rev bs" k] by (simp add: putBE_def beNat_def)

lemma length_slice: "j \<le> length xs \<Longrightarrow> length (slice i j xs) = j - i"
  by (simp add: slice_def)

lemma slice_append1: "j \<le> length xs \<Longrightarrow> slice i j (xs @ ys) = slice i j xs"
  by (simp add: slice_def)

lemma slice_append2: "length xs = i \<Longrightarrow> slice i (i + length ys) (xs @ ys @ zs) = ys"
  by (simp add: slice_def)

section \<open>Hexadecimal\<close>

text \<open>\<open>encoding/hex\<close>.\<close>

definition hexDigit :: "nat \<Rightarrow> char" where
  "hexDigit n = (if n < 10 then char_of (48 + n) else char_of (87 + n))"

definition hexValue :: "char \<Rightarrow> nat option" where
  "hexValue c = (let n = of_char c :: nat
     in if 48 \<le> n \<and> n \<le> 57 then Some (n - 48)
        else if 97 \<le> n \<and> n \<le> 102 then Some (n - 87)
        else if 65 \<le> n \<and> n \<le> 70 then Some (n - 55) else None)"

fun hexEncode :: "byte list \<Rightarrow> string" where
  "hexEncode [] = []"
| "hexEncode (b # bs) = hexDigit (unat b div 16) # hexDigit (unat b mod 16) # hexEncode bs"

fun hexDecode :: "string \<Rightarrow> byte list option" where
  "hexDecode [] = Some []"
| "hexDecode [_] = None"
| "hexDecode (a # b # cs) = (case (hexValue a, hexValue b, hexDecode cs) of
     (Some m, Some n, Some bs) \<Rightarrow> Some (of_nat (16 * m + n) # bs) | _ \<Rightarrow> None)"

lemma hexValue_digit: "n < 16 \<Longrightarrow> hexValue (hexDigit n) = Some n"
  by (auto simp: hexValue_def hexDigit_def Let_def)

lemma hexDecode_encode: "hexDecode (hexEncode bs) = Some bs"
proof (induction bs)
  case (Cons b bs)
  have "unat b < 256" by (rule unat_byte_lt)
  then have h: "hexValue (hexDigit (unat b div 16)) = Some (unat b div 16)" "hexValue (hexDigit (unat b mod 16)) = Some (unat b mod 16)"
    by (simp_all add: hexValue_digit)
  have "(of_nat (16 * (unat b div 16) + unat b mod 16) :: byte) = b"
    unfolding word_unat_eq_iff unat_of_nat_byte using unat_byte_lt [of b] by simp
  with Cons h show ?case by (simp del: of_nat_add of_nat_mult)
qed simp

section \<open>Strings\<close>

text \<open>
  The functions of Go's \<open>strings\<close> package that the program uses, on byte strings. A Go string is
  a byte sequence; so is HOL's \<open>string\<close>.
\<close>

definition hasPrefix :: "string \<Rightarrow> string \<Rightarrow> bool" where
  "hasPrefix s p \<longleftrightarrow> take (length p) s = p"

definition hasSuffix :: "string \<Rightarrow> string \<Rightarrow> bool" where
  "hasSuffix s p \<longleftrightarrow> length p \<le> length s \<and> drop (length s - length p) s = p"

fun strIndex :: "string \<Rightarrow> string \<Rightarrow> nat option" where
  "strIndex [] sep = (if sep = [] then Some 0 else None)"
| "strIndex (c # s) sep =
    (if hasPrefix (c # s) sep then Some 0 else map_option Suc (strIndex s sep))"

definition strContains :: "string \<Rightarrow> string \<Rightarrow> bool" where
  "strContains s sub \<longleftrightarrow> strIndex s sub \<noteq> None"

definition strCut :: "string \<Rightarrow> string \<Rightarrow> string \<times> string \<times> bool" where
  "strCut s sep = (case strIndex s sep of
     Some i \<Rightarrow> (take i s, drop (i + length sep) s, True)
   | None \<Rightarrow> (s, [], False))"

definition cutSuffix :: "string \<Rightarrow> string \<Rightarrow> string \<times> bool" where
  "cutSuffix s suf = (if hasSuffix s suf then (take (length s - length suf) s, True) else (s, False))"

text \<open>The lower case of the ASCII letters, and the decimal digits of a number.\<close>

definition asciiLower :: "char \<Rightarrow> char" where
  "asciiLower c = (if 65 \<le> (of_char c :: nat) \<and> (of_char c :: nat) \<le> 90 then char_of ((of_char c :: nat) + 32) else c)"

definition toLower :: "string \<Rightarrow> string" where
  "toLower s = map asciiLower s"

fun showNat :: "nat \<Rightarrow> string" where
  "showNat n = (if n < 10 then [char_of (48 + n)] else showNat (n div 10) @ [char_of (48 + n mod 10)])"

declare showNat.simps [simp del]

text \<open>A split at a one-byte separator, and the trimming of a suffix and of a prefix.\<close>

fun splitOn :: "char \<Rightarrow> string \<Rightarrow> string list" where
  "splitOn c [] = [[]]"
| "splitOn c (x # xs) = (if x = c then [] # splitOn c xs else (case splitOn c xs of [] \<Rightarrow> [[x]] | p # ps \<Rightarrow> (x # p) # ps))"

lemma splitOn_not_Nil [simp]: "splitOn c s \<noteq> []"
  by (cases s) (auto split: list.splits)

definition trimSuffix :: "string \<Rightarrow> string \<Rightarrow> string" where
  "trimSuffix s suf = fst (cutSuffix s suf)"

definition trimPrefix :: "string \<Rightarrow> string \<Rightarrow> string" where
  "trimPrefix s p = (if hasPrefix s p then drop (length p) s else s)"

lemma hasPrefix_append [simp]: "hasPrefix (p @ s) p"
  by (simp add: hasPrefix_def)

lemma hasPrefix_Cons_neq: "p \<noteq> [] \<Longrightarrow> c \<noteq> hd p \<Longrightarrow> \<not> hasPrefix (c # s) p"
  by (cases p) (auto simp: hasPrefix_def)

text \<open>A separator whose first byte does not occur before it is found where it was put.\<close>

lemma strIndex_first:
  assumes "sep \<noteq> []" and "hd sep \<notin> set a"
  shows "strIndex (a @ sep @ b) sep = Some (length a)"
  using assms(2)
proof (induction a)
  case Nil
  have "hasPrefix (sep @ b) sep" by simp
  with assms(1) show ?case by (cases "sep @ b") auto
next
  case (Cons c a)
  then show ?case using hasPrefix_Cons_neq [OF assms(1), of c] by auto
qed

lemma strCut_first:
  assumes "sep \<noteq> []" and "hd sep \<notin> set a"
  shows "strCut (a @ sep @ b) sep = (a, b, True)"
  by (simp add: strCut_def strIndex_first [OF assms])

lemma hasSuffix_append [simp]: "hasSuffix (s @ p) p"
  by (simp add: hasSuffix_def)

lemma cutSuffix_append [simp]: "cutSuffix (s @ p) p = (s, True)"
  by (simp add: cutSuffix_def)

text \<open>A successful cut splits the string at an occurrence of the separator.\<close>

lemma hasPrefix_split: "hasPrefix s p \<Longrightarrow> s = p @ drop (length p) s"
  by (metis append_take_drop_id hasPrefix_def)

lemma strIndex_split: "strIndex s sep = Some i \<Longrightarrow> s = take i s @ sep @ drop (i + length sep) s"
proof (induction s arbitrary: i)
  case Nil
  then show ?case by (simp split: if_splits)
next
  case (Cons c s)
  show ?case
  proof (cases "hasPrefix (c # s) sep")
    case True
    with Cons.prems show ?thesis using hasPrefix_split [OF True] by simp
  next
    case False
    with Cons.prems obtain j where "strIndex s sep = Some j" "i = Suc j" by auto
    with Cons.IH [of j] show ?thesis by simp
  qed
qed

lemma strCut_split: "strCut s sep = (a, b, True) \<Longrightarrow> s = a @ sep @ b"
  by (auto simp: strCut_def split: option.splits dest: strIndex_split)

end
