(* ===== verification/RelayRest.thy ===== *)
theory RelayRest
  imports GoBase GoBytes
begin

text \<open>
  Resting a relay whose downlink has gone bad (\<open>pkg/proxy/relay_rest.go\<close>), and the rest marks
  on disk (\<open>relay_rest_store.go\<close>). The state is \<open>relayRest\<close>: the current server \<open>peer\<close>
  and the marks keyed by relay, an arrow and the server. With it goes the file the marks are kept
  in: whether a state directory is set, whether a write of it succeeds, and what it holds. Its
  JSON text is not modelled: a file either holds the decoded struct or does not parse.
\<close>

definition relayRestFor :: duration where "relayRestFor = 30 * minute"
definition relayRestMax :: duration where "relayRestMax = 4 * hour"
definition relayRestRelapse :: duration where "relayRestRelapse = 2 * hour"

declare relayRestFor_def [go_consts] relayRestMax_def [go_consts] relayRestRelapse_def [go_consts]

record relayRestMark =
  until :: gtime
  rest :: duration
  returned :: bool

record relayRestFileMark =
  Relay :: string
  Server :: string
  UntilMs :: int
  RestMs :: int
  Returned :: bool

record relayRestFile =
  Version :: int
  Marks :: "relayRestFileMark list"

definition relayRestFileVersion :: int where "relayRestFileVersion = 1"

text \<open>What is at the path of the file: nothing, something that cannot be read (an I/O error or a
  file over \<open>relayRestFileMax\<close>), text that is not JSON of the struct, or the struct.\<close>

datatype diskFile = NotExist | Unreadable | NotJSON | Holds relayRestFile

datatype storeError = ReadError | JSONError | VersionError int

type_synonym restMarks = "(string \<times> relayRestMark) list"

record restState =
  peer :: string
  marks :: restMarks
  stateDir :: bool     \<comment> \<open>\<open>relayRestPath() != ""\<close>\<close>
  diskWritable :: bool \<comment> \<open>whether \<open>replaceFile\<close> succeeds\<close>
  disk :: diskFile

definition arrow :: string where "arrow = [CHR 0xE2, CHR 0x86, CHR 0x92]"

definition restKey :: "string \<Rightarrow> string \<Rightarrow> string" where
  "restKey relay server = relay @ arrow @ server"

definition setRelayRestPeer :: "restState \<Rightarrow> string \<Rightarrow> restState" where
  "setRelayRestPeer s p = s\<lparr>peer := p\<rparr>"

definition relayRestKeyLocked :: "restState \<Rightarrow> string \<Rightarrow> string" where
  "relayRestKeyLocked s addr = restKey addr (peer s)"

section \<open>The file\<close>

definition fileMark :: "string \<Rightarrow> string \<Rightarrow> relayRestMark \<Rightarrow> relayRestFileMark" where
  "fileMark relay server m = \<lparr>Relay = relay, Server = server,
     UntilMs = until m div 1000000, RestMs = sgn (rest m) * (\<bar>rest m\<bar> div 1000000),
     Returned = returned m\<rparr>"

definition encodeRelayRest :: "restMarks \<Rightarrow> gtime \<Rightarrow> relayRestFile" where
  "encodeRelayRest ms now = \<lparr>Version = relayRestFileVersion,
     Marks = sort_key (\<lambda>m. (Relay m, Server m))
       (List.map_filter (\<lambda>(key, m). case strCut key arrow of (relay, server, ok) \<Rightarrow>
          if \<not> ok \<or> tsub now (until m) \<ge> relayRestRelapse then None
          else Some (fileMark relay server m)) ms)\<rparr>"

definition markOfFile :: "relayRestFileMark \<Rightarrow> gtime \<Rightarrow> relayRestMark option" where
  "markOfFile e now =
    (if Relay e = [] \<or> Server e = [] \<or> RestMs e \<le> 0 \<or> RestMs e > relayRestMax div 1000000 then None
     else let rest = RestMs e * millisecond; until = UntilMs e * millisecond
       in if tsub now until \<ge> relayRestRelapse then None
          else let until = (if Returned e \<and> until > now then now
                            else if tsub until now > rest then now + rest else until);
                   until = now + tsub until now
            in Some \<lparr>until = until, rest = rest, returned = Returned e\<rparr>)"

definition decodeRelayRest :: "diskFile \<Rightarrow> gtime \<Rightarrow> storeError + restMarks" where
  "decodeRelayRest f now = (case f of
     Holds f \<Rightarrow>
       if Version f \<noteq> relayRestFileVersion then Inl (VersionError (Version f))
       else Inr (fold (\<lambda>e ms. case markOfFile e now of
              None \<Rightarrow> ms | Some m \<Rightarrow> mput (restKey (Relay e) (Server e)) m ms) (Marks f) [])
   | _ \<Rightarrow> Inl JSONError)"

definition readRelayRest :: "diskFile \<Rightarrow> gtime \<Rightarrow> storeError + restMarks" where
  "readRelayRest f now = (case f of
     NotExist \<Rightarrow> Inr []
   | Unreadable \<Rightarrow> Inl ReadError
   | _ \<Rightarrow> decodeRelayRest f now)"

definition saveRelayRest :: "restState \<Rightarrow> gtime \<Rightarrow> restState" where
  "saveRelayRest s now =
    (if \<not> stateDir s then s
     else let data = encodeRelayRest (marks s) now
       in if diskWritable s then s\<lparr>disk := Holds data\<rparr> else s)"

definition loadRelayRest :: "restState \<Rightarrow> gtime \<Rightarrow> restState" where
  "loadRelayRest s now =
    (let read = (if stateDir s
                 then (case readRelayRest (disk s) now of Inl _ \<Rightarrow> [] | Inr ms \<Rightarrow> ms) else [])
     in s\<lparr>marks := fold (\<lambda>(key, m) ms. if map_of ms key = None then mput key m ms else ms)
            read (marks s)\<rparr>)"

section \<open>Resting\<close>

definition relayResting :: "restState \<Rightarrow> string \<Rightarrow> gtime \<Rightarrow> bool \<times> restState" where
  "relayResting s addr now =
    (let key = relayRestKeyLocked s addr
     in case map_of (marks s) key of
          None \<Rightarrow> (False, s)
        | Some m \<Rightarrow>
            if now < until m then (True, s)
            else if \<not> returned m
            then (False, saveRelayRest (s\<lparr>marks := mput key (m\<lparr>returned := True\<rparr>) (marks s)\<rparr>) now)
            else if tsub now (until m) \<ge> relayRestRelapse then (False, s\<lparr>marks := mdel key (marks s)\<rparr>)
            else (False, s))"

definition noteRelayRestingFor ::
    "restState \<Rightarrow> bool \<Rightarrow> string \<Rightarrow> gtime \<Rightarrow> duration \<times> bool \<times> restState" where
  "noteRelayRestingFor s ctxDone addr now =
    (if ctxDone then (0, False, s)
     else let key = relayRestKeyLocked s addr;
              rest = (case map_of (marks s) key of
                  Some m \<Rightarrow> if tsub now (until m) < relayRestRelapse
                            then min (2 * rest m) relayRestMax else relayRestFor
                | None \<Rightarrow> relayRestFor);
              s = s\<lparr>marks := mput key \<lparr>until = now + rest, rest = rest, returned = False\<rparr> (marks s)\<rparr>
       in (rest, True, saveRelayRest s now))"

definition noteRelayResting :: "restState \<Rightarrow> string \<Rightarrow> gtime \<Rightarrow> duration \<times> restState" where
  "noteRelayResting s addr now =
    (case noteRelayRestingFor s False addr now of (d, _, s') \<Rightarrow> (d, s'))"

section \<open>Invariant\<close>

text \<open>Every mark rests between the base and the limit, ends no further off than its own length
  from now, and has come back only if it has ended.\<close>

definition markInv :: "gtime \<Rightarrow> relayRestMark \<Rightarrow> bool" where
  "markInv now m \<longleftrightarrow> relayRestFor \<le> rest m \<and> rest m \<le> relayRestMax \<and> rest m mod millisecond = 0 \<and>
     until m \<le> now + rest m \<and> (returned m \<longrightarrow> until m \<le> now)"

definition restInv :: "gtime \<Rightarrow> restMarks \<Rightarrow> bool" where
  "restInv now ms \<longleftrightarrow> (\<forall>m \<in> ran (map_of ms). markInv now m)"

lemma markInv_later: "markInv now m \<Longrightarrow> now \<le> now' \<Longrightarrow> markInv now' m"
  by (auto simp: markInv_def)

lemma restInv_later: "restInv now ms \<Longrightarrow> now \<le> now' \<Longrightarrow> restInv now' ms"
  unfolding restInv_def by (meson markInv_later)

lemma restInv_Nil [simp]: "restInv now []"
  by (simp add: restInv_def)

lemma restInv_get: "restInv now ms \<Longrightarrow> map_of ms k = Some m \<Longrightarrow> markInv now m"
  by (auto simp: restInv_def ran_def)

lemma restInv_mput: "restInv now ms \<Longrightarrow> markInv now m \<Longrightarrow> restInv now (mput k m ms)"
  by (auto simp: restInv_def ran_def split: if_splits)

lemma restInv_mdel: "restInv now ms \<Longrightarrow> restInv now (mdel k ms)"
  by (auto simp: restInv_def ran_def split: if_splits)

lemma marks_saveRelayRest [simp]:
  "marks (saveRelayRest s now) = marks s" "peer (saveRelayRest s now) = peer s"
  "stateDir (saveRelayRest s now) = stateDir s" "diskWritable (saveRelayRest s now) = diskWritable s"
  by (simp_all add: saveRelayRest_def Let_def)

lemma peer_relayResting [simp]: "peer (snd (relayResting s a now)) = peer s"
  by (simp add: relayResting_def Let_def split: option.split)

lemma restInv_relayResting:
  assumes "restInv now (marks s)"
  shows "restInv now (marks (snd (relayResting s a now)))"
proof -
  have "markInv now (m\<lparr>returned := True\<rparr>)"
    if "map_of (marks s) (relayRestKeyLocked s a) = Some m" "\<not> now < until m" for m
    using restInv_get [OF assms that(1)] that(2) by (simp add: markInv_def)
  then show ?thesis using assms
    by (auto simp: relayResting_def Let_def restInv_mput restInv_mdel split: option.split)
qed

lemma restInv_noteRelayRestingFor:
  assumes "restInv now (marks s)"
  shows "restInv now (marks (snd (snd (noteRelayRestingFor s c a now))))"
proof -
  have "relayRestFor \<le> min (2 * rest m) relayRestMax \<and> min (2 * rest m) relayRestMax \<le> relayRestMax
      \<and> min (2 * rest m) relayRestMax mod millisecond = 0"
    if "map_of (marks s) (relayRestKeyLocked s a) = Some m" for m
    using restInv_get [OF assms that] by (auto simp: markInv_def go_consts min_def)
  then show ?thesis using assms
    by (auto simp: noteRelayRestingFor_def Let_def markInv_def go_consts intro!: restInv_mput
        split: option.split)
qed

section \<open>What a read answers\<close>

lemma relayResting_iff:
  "fst (relayResting s a now) \<longleftrightarrow>
     (\<exists>m. map_of (marks s) (relayRestKeyLocked s a) = Some m \<and> now < until m)"
  by (auto simp: relayResting_def Let_def split: option.split)

lemma relayRestKeyLocked_eq [simp]:
  "relayRestKeyLocked s a = relayRestKeyLocked s b \<longleftrightarrow> a = b"
  by (simp add: relayRestKeyLocked_def restKey_def)

lemma key_relayResting [simp]:
  "relayRestKeyLocked (snd (relayResting s a now)) b = relayRestKeyLocked s b"
  by (simp add: relayRestKeyLocked_def)

interpretation resting: lazy_verdict relayResting
proof unfold_locales
  fix now now' :: gtime and s k k'
  assume "now \<le> now'"
  then show "fst (relayResting (snd (relayResting s k now)) k' now') = fst (relayResting s k' now')"
    unfolding relayResting_iff key_relayResting
    by (auto simp: relayResting_def Let_def split: option.splits)
qed

text \<open>A relay just rested rests for the length returned, in a proxy that still runs.\<close>

lemma note_then_resting:
  assumes "noteRelayRestingFor s False a now = (d, ok, s')"
  shows "fst (relayResting s' b t) \<longleftrightarrow>
     (if b = a then t < now + d else fst (relayResting s b t))"
  using assms
  by (auto simp: noteRelayRestingFor_def Let_def relayResting_iff relayRestKeyLocked_def restKey_def
      split: option.splits)

section \<open>The ladder of rests\<close>

text \<open>Verdicts against one relay and reads of its rest, in time order.\<close>

datatype restEvent = Verdict gtime | Asked gtime

fun eventTime :: "restEvent \<Rightarrow> gtime" where
  "eventTime (Verdict t) = t"
| "eventTime (Asked t) = t"

fun restRun :: "restState \<Rightarrow> string \<Rightarrow> restEvent list \<Rightarrow> duration list" where
  "restRun s a [] = []"
| "restRun s a (Verdict t # es) = (case noteRelayResting s a t of (d, s') \<Rightarrow> d # restRun s' a es)"
| "restRun s a (Asked t # es) = restRun (snd (relayResting s a t)) a es"

text \<open>The rule the comments state, without the map, the sweeping reads and the file: a verdict
  within the relapse window of the last rest's end doubles it up to the limit, any other one starts
  over.\<close>

definition nextRest :: "(gtime \<times> duration) option \<Rightarrow> gtime \<Rightarrow> duration" where
  "nextRest l t = (case l of
     Some (u, d) \<Rightarrow> if t - u < relayRestRelapse then min (2 * d) relayRestMax else relayRestFor
   | None \<Rightarrow> relayRestFor)"

fun ladder :: "(gtime \<times> duration) option \<Rightarrow> restEvent list \<Rightarrow> duration list" where
  "ladder l [] = []"
| "ladder l (Verdict t # es) = nextRest l t # ladder (Some (t + nextRest l t, nextRest l t)) es"
| "ladder l (Asked t # es) = ladder l es"

text \<open>A swept mark reads as one whose relapse window has passed.\<close>

definition ladderRel :: "gtime \<Rightarrow> relayRestMark option \<Rightarrow> (gtime \<times> duration) option \<Rightarrow> bool" where
  "ladderRel now m l \<longleftrightarrow>
     (case m of Some m \<Rightarrow> l = Some (until m, rest m)
      | None \<Rightarrow> (case l of None \<Rightarrow> True | Some (u, d) \<Rightarrow> relayRestRelapse \<le> now - u))"

lemma ladderRel_later: "ladderRel now m l \<Longrightarrow> now \<le> now' \<Longrightarrow> ladderRel now' m l"
  by (auto simp: ladderRel_def split: option.splits)

lemma ladderRel_next:
  "ladderRel t (map_of (marks s) (relayRestKeyLocked s a)) l \<Longrightarrow>
   noteRelayResting s a t = (nextRest l t, snd (noteRelayResting s a t))"
  by (auto simp: ladderRel_def nextRest_def noteRelayResting_def noteRelayRestingFor_def Let_def
      go_consts split: option.splits)

lemma note_mark:
  "map_of (marks (snd (noteRelayResting s a t))) (relayRestKeyLocked s a) =
     (let d = fst (noteRelayResting s a t) in Some \<lparr>until = t + d, rest = d, returned = False\<rparr>)"
  "relayRestKeyLocked (snd (noteRelayResting s a t)) b = relayRestKeyLocked s b"
  by (simp_all add: noteRelayResting_def noteRelayRestingFor_def Let_def relayRestKeyLocked_def)

lemma ladderRel_read:
  assumes "ladderRel t (map_of (marks s) (relayRestKeyLocked s a)) l"
  shows "ladderRel t (map_of (marks (snd (relayResting s a t))) (relayRestKeyLocked s a)) l"
  using assms
  by (auto simp: ladderRel_def relayResting_def Let_def go_consts split: option.splits)

lemma restRun_ladder:
  assumes "ladderRel t0 (map_of (marks s) (relayRestKeyLocked s a)) l"
    and "sorted (t0 # map eventTime es)"
  shows "restRun s a es = ladder l es"
  using assms
proof (induction es arbitrary: s l t0)
  case Nil
  then show ?case by simp
next
  case (Cons e es)
  have rel: "ladderRel (eventTime e) (map_of (marks s) (relayRestKeyLocked s a)) l"
    using Cons.prems by (auto intro: ladderRel_later)
  have srt: "sorted (eventTime e # map eventTime es)" using Cons.prems(2) by simp
  show ?case
  proof (cases e)
    case (Verdict t)
    let ?s = "snd (noteRelayResting s a t)"
    have fst: "fst (noteRelayResting s a t) = nextRest l t"
      using ladderRel_next rel Verdict by (metis eventTime.simps(1) fst_conv)
    have "ladderRel t (map_of (marks ?s) (relayRestKeyLocked ?s a))
        (Some (t + nextRest l t, nextRest l t))"
      by (simp add: note_mark fst Let_def ladderRel_def)
    from Cons.IH [OF this] srt Verdict fst show ?thesis by (simp add: split_beta)
  next
    case (Asked t)
    have "ladderRel t (map_of (marks (snd (relayResting s a t)))
        (relayRestKeyLocked (snd (relayResting s a t)) a)) l"
      using ladderRel_read rel Asked by simp
    from Cons.IH [OF this] srt Asked show ?thesis by simp
  qed
qed

text \<open>Closed form: the rests double from the base up to the limit.\<close>

fun relapsing :: "gtime \<times> duration \<Rightarrow> gtime list \<Rightarrow> bool" where
  "relapsing (u, d) [] = True"
| "relapsing (u, d) (t # ts) =
     (t - u < relayRestRelapse \<and> relapsing (t + min (2 * d) relayRestMax, min (2 * d) relayRestMax) ts)"

lemma ladder_doubles:
  assumes "relapsing (u, d) ts" and "d = min (2 ^ k * relayRestFor) relayRestMax"
  shows "ladder (Some (u, d)) (map Verdict ts) =
    map (\<lambda>i. min (2 ^ (Suc i + k) * relayRestFor) relayRestMax) [0 ..< length ts]"
  using assms
proof (induction ts arbitrary: u d k)
  case Nil
  then show ?case by simp
next
  case (Cons t ts)
  have d: "min (2 * d) relayRestMax = min (2 ^ Suc k * relayRestFor) relayRestMax"
    unfolding Cons.prems(2) by (simp add: go_consts min_def)
  have n: "nextRest (Some (u, d)) t = min (2 * d) relayRestMax"
    using Cons.prems(1) by (simp add: nextRest_def)
  have "relapsing (t + min (2 * d) relayRestMax, min (2 * d) relayRestMax) ts"
    using Cons.prems(1) by simp
  from Cons.IH [OF this d] show ?case
    by (simp add: n d upt_conv_Cons map_Suc_upt [symmetric] del: upt_Suc)
qed

end
