(* ===== verification/RelayRestStore.thy ===== *)
theory RelayRestStore
  imports RelayRest
begin

text \<open>
  What the rest marks survive on disk (\<open>pkg/proxy/relay_rest_store.go\<close>): the facts about
  encoding, decoding and loading the file that theory RelayRest defines.
\<close>

section \<open>Keys\<close>

lemma strCut_restKey: "CHR 0xE2 \<notin> set a \<Longrightarrow> strCut (restKey a srv) arrow = (a, srv, True)"
  unfolding restKey_def by (rule strCut_first) (simp_all add: arrow_def)

lemma strCut_arrow: "strCut key arrow = (a, srv, True) \<Longrightarrow> key = restKey a srv"
  unfolding restKey_def by (rule strCut_split)

section \<open>One mark\<close>

text \<open>The instant a mark's end reads back as: milliseconds, rounded down.\<close>

definition floorMs :: "gtime \<Rightarrow> gtime" where
  "floorMs t = t div 1000000 * 1000000"

lemma floorMs_bounds: "floorMs t \<le> t" "t < floorMs t + 1000000"
  unfolding floorMs_def
  using pos_mod_sign [of 1000000 t] pos_mod_bound [of 1000000 t] div_mult_mod_eq [of t 1000000]
  by linarith+

lemma markOfFile_fileMark:
  assumes inv: "markInv now m" and le: "now \<le> now'" and live: "now' - floorMs (until m) < relayRestRelapse"
    and ne: "a \<noteq> []" "srv \<noteq> []"
  shows "markOfFile (fileMark a srv m) now' = Some (m\<lparr>until := floorMs (until m)\<rparr>)"
proof -
  have r: "0 < rest m" "rest m \<le> relayRestMax" "rest m mod 1000000 = 0"
    using inv by (auto simp: markInv_def go_consts)
  have rms: "RestMs (fileMark a srv m) = rest m div 1000000" "rest m div 1000000 * 1000000 = rest m"
    using r(1,3) div_mult_mod_eq [of "rest m" 1000000] by (simp_all add: fileMark_def)
  have rpos: "0 < rest m div 1000000" "rest m div 1000000 \<le> relayRestMax div 1000000"
    using r(1,2) rms(2) by (simp_all add: go_consts)
  have end_le: "floorMs (until m) \<le> now' + rest m"
    using inv le floorMs_bounds(1) [of "until m"] by (simp add: markInv_def)
  have ret: "returned m \<Longrightarrow> floorMs (until m) \<le> now'"
    using inv le floorMs_bounds(1) [of "until m"] by (simp add: markInv_def)
  have sub: "tsub (floorMs (until m)) now' = floorMs (until m) - now'"
    using live end_le r(2) by (intro tsub_exact) (auto simp: go_consts)
  have live': "\<not> relayRestRelapse \<le> tsub now' (floorMs (until m))"
    using live by (simp add: go_consts)
  have ms: "(until m div 1000000) * millisecond = floorMs (until m)" "rest m div 1000000 * millisecond = rest m"
    using rms(2) by (simp_all add: floorMs_def go_consts)
  have neg: "\<not> (\<not> (returned m \<and> now' < floorMs (until m)) \<and> tsub (floorMs (until m)) now' > rest m)"
    "\<not> (returned m \<and> now' < floorMs (until m))"
    using end_le ret sub by auto
  have sel: "Relay (fileMark a srv m) = a" "Server (fileMark a srv m) = srv"
    "UntilMs (fileMark a srv m) = until m div 1000000" "Returned (fileMark a srv m) = returned m"
    by (simp_all add: fileMark_def)
  show ?thesis
    unfolding markOfFile_def sel rms(1) Let_def ms
    using ne rpos live' neg sub by (cases m) auto
qed

text \<open>Whatever the file says, a mark read from it rests no longer than its own length from now,
  that length is within the limit, and one that had come back stays back.\<close>

lemma markOfFile_bounded:
  assumes "markOfFile e now = Some m"
  shows "0 < rest m" "rest m \<le> relayRestMax" "until m \<le> now + rest m" "returned m \<Longrightarrow> until m \<le> now"
proof -
  let ?r = "RestMs e * millisecond" and ?u = "UntilMs e * millisecond"
  let ?v = "if Returned e \<and> ?u > now then now else if tsub ?u now > ?r then now + ?r else ?u"
  have b: "0 < RestMs e" "RestMs e \<le> relayRestMax div 1000000"
    and m: "m = \<lparr>until = now + tsub ?v now, rest = ?r, returned = Returned e\<rparr>"
    using assms by (auto simp: markOfFile_def Let_def split: if_splits)
  show "0 < rest m" "rest m \<le> relayRestMax" using b m by (auto simp: go_consts)
  then have r: "0 < ?r" "?r \<le> relayRestMax" using m by auto
  have "tsub ?v now \<le> ?r"
    using r by (auto simp: go_consts tsub_def)
  then show "until m \<le> now + rest m" using m by simp
  show "returned m \<Longrightarrow> until m \<le> now"
    using m by (auto simp: tsub_def split: if_splits)
qed

section \<open>The fold that fills the map\<close>

definition fillMarks :: "gtime \<Rightarrow> relayRestFileMark list \<Rightarrow> restMarks \<Rightarrow> restMarks" where
  "fillMarks now = fold (\<lambda>e ms. case markOfFile e now of
     None \<Rightarrow> ms | Some m \<Rightarrow> mput (restKey (Relay e) (Server e)) m ms)"

definition fileKey :: "relayRestFileMark \<Rightarrow> string" where
  "fileKey e = restKey (Relay e) (Server e)"

lemma fillMarks_other: "k \<notin> fileKey ` set es \<Longrightarrow> map_of (fillMarks now es ms) k = map_of ms k"
  by (induction es arbitrary: ms) (auto simp: fillMarks_def fileKey_def split: option.splits)

lemma fillMarks_get:
  assumes "e \<in> set es" "distinct (map fileKey es)"
  shows "map_of (fillMarks now es ms) (fileKey e) =
    (case markOfFile e now of Some m \<Rightarrow> Some m | None \<Rightarrow> map_of ms (fileKey e))"
  using assms
proof (induction es arbitrary: ms)
  case Nil
  then show ?case by simp
next
  case (Cons d es)
  let ?ms = "case markOfFile d now of None \<Rightarrow> ms | Some m \<Rightarrow> mput (fileKey d) m ms"
  have step: "fillMarks now (d # es) ms = fillMarks now es ?ms"
    by (cases "markOfFile d now") (simp_all add: fillMarks_def fileKey_def)
  show ?case
  proof (cases "e = d")
    case True
    with Cons.prems have "fileKey e \<notin> fileKey ` set es" by simp
    then show ?thesis using True by (simp add: step fillMarks_other split: option.split)
  next
    case False
    with Cons.prems have "e \<in> set es" "fileKey e \<noteq> fileKey d" by (auto simp: image_iff)
    then show ?thesis using Cons by (auto simp: step split: option.splits)
  qed
qed

lemma fillMarks_ran:
  "\<lbrakk>map_of (fillMarks now es ms) k = Some m; \<And>m. map_of ms k = Some m \<Longrightarrow> P m;
    \<And>e m. markOfFile e now = Some m \<Longrightarrow> P m\<rbrakk> \<Longrightarrow> P m"
proof (induction es arbitrary: ms)
  case Nil
  then show ?case by (simp add: fillMarks_def)
next
  case (Cons d es)
  show ?case
    by (rule Cons.IH [of "case markOfFile d now of None \<Rightarrow> ms | Some m \<Rightarrow> mput (fileKey d) m ms"])
      (use Cons.prems in \<open>auto simp: fillMarks_def fileKey_def split: option.splits if_splits\<close>)
qed

section \<open>The encoded list\<close>

definition encodedMarks :: "restMarks \<Rightarrow> gtime \<Rightarrow> relayRestFileMark list" where
  "encodedMarks ms now = List.map_filter (\<lambda>(key, m). case strCut key arrow of (a, srv, ok) \<Rightarrow>
     if \<not> ok \<or> tsub now (until m) \<ge> relayRestRelapse then None else Some (fileMark a srv m)) ms"

lemma encodedMarks_Nil [simp]: "encodedMarks [] now = []"
  by (simp add: encodedMarks_def List.map_filter_def)

lemma encodedMarks_Cons [simp]:
  "encodedMarks ((key, m) # ms) now =
    (case strCut key arrow of (a, srv, ok) \<Rightarrow>
       (if \<not> ok \<or> relayRestRelapse \<le> now - until m then encodedMarks ms now
        else fileMark a srv m # encodedMarks ms now))"
  by (auto simp: encodedMarks_def List.map_filter_def go_consts split: prod.split)

lemma fileKey_fileMark [simp]: "fileKey (fileMark a srv m) = restKey a srv"
  by (simp add: fileKey_def fileMark_def)

lemma fileKey_encodedMarks: "fileKey ` set (encodedMarks ms now) \<subseteq> fst ` set ms"
proof (induction ms)
  case Nil
  then show ?case by simp
next
  case (Cons p ms)
  obtain key m a srv ok where p: "p = (key, m)" "strCut key arrow = (a, srv, ok)"
    by (cases p) (metis prod_cases3)
  then have "ok \<Longrightarrow> key = restKey a srv" by (auto dest: strCut_arrow)
  with p Cons.IH show ?case by auto
qed

lemma distinct_encodedMarks: "distinct (map fst ms) \<Longrightarrow> distinct (map fileKey (encodedMarks ms now))"
proof (induction ms)
  case Nil
  then show ?case by simp
next
  case (Cons p ms)
  obtain key m a srv ok where p: "p = (key, m)" "strCut key arrow = (a, srv, ok)"
    by (cases p) (metis prod_cases3)
  have "key \<notin> fileKey ` set (encodedMarks ms now)"
    using Cons.prems fileKey_encodedMarks [of ms now] p by auto
  moreover have "ok \<Longrightarrow> key = restKey a srv" using p by (auto dest: strCut_arrow)
  ultimately show ?case using Cons p by auto
qed

lemma encodedMarks_get:
  assumes "map_of ms (restKey a srv) = Some m" "CHR 0xE2 \<notin> set a" "now - until m < relayRestRelapse"
  shows "fileMark a srv m \<in> set (encodedMarks ms now)"
  using assms(1)
proof (induction ms)
  case Nil
  then show ?case by simp
next
  case (Cons p ms)
  obtain key m' b srv' ok where p: "p = (key, m')" "strCut key arrow = (b, srv', ok)"
    by (cases p) (metis prod_cases3)
  show ?case
  proof (cases "key = restKey a srv")
    case True
    with p Cons.prems assms(2,3) show ?thesis by (auto simp: strCut_restKey)
  next
    case False
    with p Cons show ?thesis by (auto split: if_splits)
  qed
qed

lemma encodedMarks_key:
  assumes "e \<in> set (encodedMarks ms now)" "distinct (map fst ms)"
  shows "\<exists>m. map_of ms (fileKey e) = Some m \<and> e = fileMark (Relay e) (Server e) m"
  using assms
proof (induction ms)
  case Nil
  then show ?case by simp
next
  case (Cons p ms)
  obtain key m a srv ok where p: "p = (key, m)" "strCut key arrow = (a, srv, ok)"
    by (cases p) (metis prod_cases3)
  show ?case
  proof (cases "e \<in> set (encodedMarks ms now)")
    case True
    with Cons obtain m' where m': "map_of ms (fileKey e) = Some m'" "e = fileMark (Relay e) (Server e) m'"
      by auto
    have "fileKey e \<in> fst ` set ms" using True fileKey_encodedMarks by blast
    then have "fileKey e \<noteq> key" using Cons.prems p by auto
    with m' p show ?thesis by auto
  next
    case False
    with Cons.prems p have "ok" "e = fileMark a srv m" by (auto split: if_splits)
    moreover from this p have "key = restKey a srv" by (auto dest: strCut_arrow)
    ultimately show ?thesis using p by (auto simp: fileMark_def fileKey_def)
  qed
qed

section \<open>Writing and loading\<close>

lemma Marks_encode: "Marks (encodeRelayRest ms now) = sort_key (\<lambda>m. (Relay m, Server m)) (encodedMarks ms now)"
  by (simp add: encodeRelayRest_def encodedMarks_def)

lemma decode_encode:
  "decodeRelayRest (Holds (encodeRelayRest ms now)) now' =
     Inr (fillMarks now' (sort_key (\<lambda>m. (Relay m, Server m)) (encodedMarks ms now)) [])"
  by (simp add: decodeRelayRest_def Marks_encode fillMarks_def) (simp add: encodeRelayRest_def)

lemma decode_encode_get:
  assumes inv: "restInv now ms" and d: "distinct (map fst ms)" and le: "now \<le> now'"
    and a: "CHR 0xE2 \<notin> set a" "a \<noteq> []" "srv \<noteq> []"
  shows "map_of (fillMarks now' (sort_key (\<lambda>m. (Relay m, Server m)) (encodedMarks ms now)) []) (restKey a srv) =
    (case map_of ms (restKey a srv) of
       Some m \<Rightarrow> if now - until m < relayRestRelapse \<and> now' - floorMs (until m) < relayRestRelapse
                 then Some (m\<lparr>until := floorMs (until m)\<rparr>) else None
     | None \<Rightarrow> None)"
    (is "map_of (fillMarks now' ?es []) ?k = _")
proof (cases "?k \<in> fileKey ` set ?es")
  case False
  then have "map_of (fillMarks now' ?es []) ?k = None" by (simp add: fillMarks_other)
  moreover have "\<not> now - until m < relayRestRelapse" if "map_of ms ?k = Some m" for m
    using encodedMarks_get [OF that a(1)] False by (force simp: image_iff)
  ultimately show ?thesis by (auto split: option.split)
next
  case True
  then obtain e where e: "e \<in> set (encodedMarks ms now)" "fileKey e = ?k" by auto
  from encodedMarks_key [OF e(1) d] obtain m where
    m: "map_of ms ?k = Some m" "e = fileMark (Relay e) (Server e) m" using e(2) by auto
  have "strCut (fileKey e) arrow = (a, srv, True)" using e(2) a(1) strCut_restKey by simp
  have ek: "Relay e = a \<and> Server e = srv \<and> now - until m < relayRestRelapse"
    using e m d a(1)
  proof (induction ms)
    case Nil
    then show ?case by simp
  next
    case (Cons p ms)
    obtain key m' b srv' ok where p: "p = (key, m')" "strCut key arrow = (b, srv', ok)"
      by (cases p) (metis prod_cases3)
    show ?case
    proof (cases "key = ?k")
      case True
      then have "?k \<notin> fileKey ` set (encodedMarks ms now)"
        using Cons.prems(5) p fileKey_encodedMarks [of ms now] by auto
      with Cons.prems(2) have "e \<notin> set (encodedMarks ms now)" by (metis imageI)
      with Cons.prems p True show ?thesis
        by (auto simp: strCut_restKey fileMark_def split: if_splits)
    next
      case False
      have "e \<in> set (encodedMarks ms now)"
        using Cons.prems(1,2) p False by (auto split: if_splits dest: strCut_arrow)
      with Cons False p show ?thesis by auto
    qed
  qed
  have "distinct (map fileKey ?es)"
    using distinct_encodedMarks [OF d, of now] by (simp add: distinct_map)
  then have get: "map_of (fillMarks now' ?es []) ?k = markOfFile e now'"
    using fillMarks_get [of e ?es now' "[]"] e by (simp split: option.split)
  have e': "e = fileMark a srv m" using m(2) ek by simp
  show ?thesis
  proof (cases "now' - floorMs (until m) < relayRestRelapse")
    case True
    then show ?thesis
      using get e' m ek markOfFile_fileMark [OF restInv_get [OF inv m(1)] le True a(2,3)] by simp
  next
    case False
    then have "relayRestRelapse \<le> tsub now' (UntilMs e * millisecond)"
      using e' by (simp add: fileMark_def floorMs_def go_consts)
    then have "markOfFile e now' = None" by (simp add: markOfFile_def Let_def)
    with False get m show ?thesis by simp
  qed
qed

text \<open>A process starts with no marks of its own and takes in the file.\<close>

lemma loadRelayRest_fresh:
  assumes "stateDir s" "marks s = []" "disk s = Holds f" "decodeRelayRest (Holds f) now = Inr ms"
    "distinct (map fst ms)"
  shows "map_of (marks (loadRelayRest s now)) = map_of ms"
proof -
  have "map_of (fold (\<lambda>(key, m) ms. if map_of ms key = None then mput key m ms else ms) xs acc) k =
      (case map_of acc k of None \<Rightarrow> map_of xs k | Some m \<Rightarrow> Some m)"
    if "distinct (map fst xs)" for xs k and acc :: restMarks
    using that
  proof (induction xs arbitrary: acc)
    case Nil
    then show ?case by (simp split: option.split)
  next
    case (Cons x xs)
    have "map_of xs (fst x) = None" using Cons.prems by (simp add: map_of_eq_None_iff)
    with Cons show ?case by (auto split: option.splits prod.splits)
  qed
  with assms show ?thesis
    by (simp add: loadRelayRest_def readRelayRest_def fun_eq_iff)
qed

lemma distinct_fillMarks: "distinct (map fst ms) \<Longrightarrow> distinct (map fst (fillMarks now es ms))"
  by (induction es arbitrary: ms)
    (auto simp: fillMarks_def distinct_update split: option.splits)

text \<open>
  A restart keeps the rests. Take a process with a writable state directory whose marks satisfy
  the invariant, let it save them, and let a new process with no marks, the same server and that
  file load them at a later time. Then the new process finds a relay resting at \<open>t\<close> exactly when the old
  one's mark ends after \<open>t\<close>, its end rounded down to the millisecond the file keeps.
\<close>

theorem restart_keeps_rests:
  assumes "restInv now (marks s)" "distinct (map fst (marks s))" "stateDir s" "diskWritable s"
    and "now \<le> now'" "now' \<le> t" and "CHR 0xE2 \<notin> set a" "a \<noteq> []" "peer s \<noteq> []"
    and new: "s' = loadRelayRest (\<lparr>peer = peer s, marks = [], stateDir = True, diskWritable = w,
      disk = disk (saveRelayRest s now)\<rparr>) now'"
  shows "fst (relayResting s' a t) \<longleftrightarrow>
    (\<exists>m. map_of (marks s) (restKey a (peer s)) = Some m \<and> t < floorMs (until m))"
proof -
  let ?f = "encodeRelayRest (marks s) now"
  let ?es = "sort_key (\<lambda>m. (Relay m, Server m)) (encodedMarks (marks s) now)"
  have dk: "disk (saveRelayRest s now) = Holds ?f"
    using assms(3,4) by (simp add: saveRelayRest_def Let_def)
  have "map_of (marks s') = map_of (fillMarks now' ?es [])"
    unfolding new dk
    by (rule loadRelayRest_fresh [OF _ _ _ decode_encode]) (simp_all add: distinct_fillMarks)
  moreover have "peer s' = peer s" by (simp add: new loadRelayRest_def Let_def)
  moreover have "now - until m < relayRestRelapse \<and> now' - floorMs (until m) < relayRestRelapse"
    if "t < floorMs (until m)" for m :: relayRestMark
    using that assms(5,6) floorMs_bounds(1) [of "until m"] by (simp add: go_consts)
  ultimately show ?thesis
    using decode_encode_get [OF assms(1,2,5,7,8,9)]
    by (auto simp: relayResting_iff relayRestKeyLocked_def split: option.splits if_splits)
qed

end
