(* ===== verification/RelayRestProps.thy ===== *)
theory RelayRestProps
  imports RelayRestStore
begin

text \<open>
  What the rest of a relay promises: how long it is, and what a file of rest marks can do.
\<close>

text \<open>
  C13. However reads of the rest are mixed with verdicts against the relay, and whatever the sweep
  they make and the file do, the rests a process hands out to a relay are those of the ladder: a
  verdict within two hours of the last rest's end doubles it up to four hours, any other one
  starts over at thirty minutes.
\<close>

theorem rests_follow_the_ladder:
  assumes "marks s = []" "sorted (map eventTime es)"
  shows "restRun s a es = ladder None es"
proof (cases es)
  case (Cons e es')
  then have "sorted (eventTime e # map eventTime es)" using assms(2) by simp
  moreover have "ladderRel (eventTime e) (map_of (marks s) (relayRestKeyLocked s a)) None"
    using assms(1) by (simp add: ladderRel_def)
  ultimately show ?thesis by (rule restRun_ladder [rotated])
qed simp

definition restStart :: restState where
  "restStart = \<lparr>peer = ''p'', marks = [], stateDir = True, diskWritable = True, disk = NotExist\<rparr>"

theorem rests_follow_the_ladder_witness:
  "restRun restStart ''r'' [Verdict 0, Asked (45 * minute), Verdict (60 * minute)] =
     ladder None [Verdict 0, Asked (45 * minute), Verdict (60 * minute)]"
  by (rule rests_follow_the_ladder) (simp_all add: restStart_def go_consts)

text \<open>
  A relay that relapses every time within two hours of its rest rests 30 minutes, then 60,
  then 120, then four hours each time: the \<open>i\<close>-th rest is \<open>min (2 ^ i * 30 minutes) 4 hours\<close>.
\<close>

theorem relapses_double_the_rest:
  assumes "marks s = []" "sorted (t # ts)" "relapsing (t + relayRestFor, relayRestFor) ts"
  shows "restRun s a (map Verdict (t # ts)) =
    map (\<lambda>i. min (2 ^ i * relayRestFor) relayRestMax) [0 ..< Suc (length ts)]"
proof -
  have "map eventTime (map Verdict (t # ts)) = t # ts" by (simp add: comp_def)
  then have "sorted (t # map eventTime (map Verdict (t # ts)))" using assms(2) by simp
  moreover have "ladderRel t (map_of (marks s) (relayRestKeyLocked s a)) None"
    using assms(1) by (simp add: ladderRel_def)
  ultimately have "restRun s a (map Verdict (t # ts)) = ladder None (map Verdict (t # ts))"
    by (rule restRun_ladder [rotated])
  also have "\<dots> = relayRestFor # map (\<lambda>i. min (2 ^ Suc i * relayRestFor) relayRestMax) [0 ..< length ts]"
    using ladder_doubles [OF assms(3), of 0] by (simp add: nextRest_def go_consts)
  also have "\<dots> = map (\<lambda>i. min (2 ^ i * relayRestFor) relayRestMax) [0 ..< Suc (length ts)]"
    by (simp add: upt_conv_Cons map_Suc_upt [symmetric] go_consts del: upt_Suc)
  finally show ?thesis .
qed

theorem relapses_double_the_rest_witness:
  "restRun restStart ''r'' (map Verdict [0, 60 * minute, 180 * minute]) =
    map (\<lambda>i. min (2 ^ i * relayRestFor) relayRestMax) [0 ..< 3]"
proof -
  have "relapsing (0 + relayRestFor, relayRestFor) [60 * minute, 180 * minute]"
    by (simp add: go_consts)
  from relapses_double_the_rest [OF _ _ this, of restStart "''r''"]
  show ?thesis by (simp add: restStart_def go_consts numeral_3_eq_3)
qed

section \<open>Any file\<close>

lemma loaded_mark:
  assumes "marks s = []" "map_of (marks (loadRelayRest s now)) k = Some m"
  shows "\<exists>e. markOfFile e now = Some m"
proof (cases "stateDir s")
  case True
  show ?thesis
  proof (cases "disk s")
    case (Holds f)
    with True assms have ok: "Version f = relayRestFileVersion"
      by (simp add: loadRelayRest_def readRelayRest_def decodeRelayRest_def split: if_splits)
    then have dec: "decodeRelayRest (Holds f) now = Inr (fillMarks now (Marks f) [])"
      by (simp add: decodeRelayRest_def fillMarks_def)
    have "map_of (marks (loadRelayRest s now)) = map_of (fillMarks now (Marks f) [])"
      by (rule loadRelayRest_fresh [OF True assms(1) Holds dec]) (simp add: distinct_fillMarks)
    then have "map_of (fillMarks now (Marks f) []) k = Some m" using assms(2) by simp
    then show ?thesis by (rule fillMarks_ran) auto
  qed (use True assms in \<open>auto simp: loadRelayRest_def readRelayRest_def decodeRelayRest_def\<close>)
next
  case False
  with assms show ?thesis by (simp add: loadRelayRest_def)
qed

text \<open>
  Whatever the file of rest marks holds (edited by hand, written under another clock, cut
  short or of a later version), a process that starts from it rests no relay longer than four
  hours from its own now.
\<close>

theorem no_file_rests_a_relay_over_the_limit:
  assumes "marks s = []" "fst (relayResting (loadRelayRest s now) a t)"
  shows "t < now + relayRestMax"
proof -
  obtain m where m: "map_of (marks (loadRelayRest s now)) (relayRestKeyLocked (loadRelayRest s now) a) = Some m"
    "t < until m"
    using assms(2) by (auto simp: relayResting_iff)
  obtain e where "markOfFile e now = Some m" using loaded_mark [OF assms(1) m(1)] by blast
  with markOfFile_bounded m(2) show ?thesis by fastforce
qed

definition farFuture :: restState where
  "farFuture = restStart\<lparr>disk := Holds \<lparr>Version = 1, Marks = [\<lparr>Relay = ''r'', Server = ''p'',
     UntilMs = 10 ^ 12, RestMs = 1800000, Returned = False\<rparr>]\<rparr>\<rparr>"

theorem no_file_rests_a_relay_over_the_limit_witness:
  "29 * minute < 0 + relayRestMax"
proof -
  have "fst (relayResting (loadRelayRest farFuture 0) ''r'' (29 * minute))" by code_simp
  moreover have "marks farFuture = []" by (simp add: farFuture_def restStart_def)
  ultimately show ?thesis using no_file_rests_a_relay_over_the_limit by blast
qed

text \<open>The witness of the restart: a process with one rest in force.\<close>

definition restedOnce :: restState where
  "restedOnce = snd (noteRelayResting restStart ''r'' 0)"

lemma restedOnce_fields:
  "marks restedOnce = [(restKey ''r'' ''p'', \<lparr>until = relayRestFor, rest = relayRestFor, returned = False\<rparr>)]"
  "peer restedOnce = ''p''" "stateDir restedOnce" "diskWritable restedOnce"
  by (simp_all add: restedOnce_def noteRelayResting_def noteRelayRestingFor_def restStart_def
      Let_def relayRestKeyLocked_def)

lemma restInv_restedOnce: "restInv 0 (marks restedOnce)"
  unfolding restedOnce_fields by (simp add: restInv_def ran_def markInv_def go_consts)

theorem restart_keeps_rests_witness:
  "fst (relayResting (loadRelayRest (\<lparr>peer = ''p'', marks = [], stateDir = True, diskWritable = True,
      disk = disk (saveRelayRest restedOnce 0)\<rparr>) minute) ''r'' (29 * minute))"
proof -
  have "0 \<le> minute" "minute \<le> 29 * minute" by (simp_all add: go_consts)
  note restart_keeps_rests [OF restInv_restedOnce _ _ _ this, of "''r''", OF _ _ _ _ _ _ refl]
  then show ?thesis
    by (simp add: restedOnce_fields floorMs_def go_consts)
qed

end
