(* ===== verification/Orphans.thy ===== *)
theory Orphans
  imports GoBase
begin

text \<open>
  The book of TURN allocations and of the ghosts a lost network leaves on a relay
  (\<open>pkg/proxy/orphaned_allocations.go\<close>), and the count of a credential's allocations on a relay
  that \<open>relay_move.go\<close> takes from it (\<open>credsHeldOn\<close>). The state is \<open>allocationBook\<close>; the
  \<open>trackedRelay\<close> objects it points to live in a store keyed by an identifier, so that the mark an
  allocation was counted under is shared the way the pointer is. Log lines are left out, and so
  is the count that only they read.
\<close>

definition orphanedAllocationLifetime :: duration where "orphanedAllocationLifetime = 600 * second"
definition releaseSettleWindow :: duration where "releaseSettleWindow = 10 * second"
definition orphanSteerAt :: int where "orphanSteerAt = 5"

declare orphanedAllocationLifetime_def [go_consts] releaseSettleWindow_def [go_consts]
  orphanSteerAt_def [go_consts]

text \<open>\<open>releaseSettleRetry\<close>, with the random draw of \<open>rand.Intn(1001)\<close> as its argument.\<close>

definition releaseSettleRetry :: "int \<Rightarrow> duration" where
  "releaseSettleRetry rnd = 1500 * millisecond + rnd * millisecond"

datatype relayIdentity = RelayIdentity (user: string) (relay: string)

record trackedRelay =
  key :: relayIdentity
  closed :: bool
  ghostOf :: int

type_synonym alloc = nat

record allocationBook =
  allocs :: "(alloc \<times> trackedRelay) list"  \<comment> \<open>the objects\<close>
  nextAlloc :: alloc                        \<comment> \<open>the identifier of the next object\<close>
  live :: "(relayIdentity \<times> int) list"
  tracked :: "alloc list"
  orphanedTill :: "(relayIdentity \<times> gtime) list"
  orphans :: "(relayIdentity \<times> int) list"
  markOf :: "(relayIdentity \<times> int) list"
  lastMark :: int
  announced :: "(relayIdentity \<times> bool) list"
  releasedAt :: "(relayIdentity \<times> gtime) list"
  succeeded :: "(string \<times> bool) list"

definition newBook :: allocationBook where
  "newBook = \<lparr>allocs = [], nextAlloc = 0, live = [], tracked = [], orphanedTill = [], orphans = [],
     markOf = [], lastMark = 0, announced = [], releasedAt = [], succeeded = []\<rparr>"

definition allocOf :: "allocationBook \<Rightarrow> alloc \<Rightarrow> trackedRelay" where
  "allocOf b r = (case map_of (allocs b) r of
     Some t \<Rightarrow> t | None \<Rightarrow> \<lparr>key = RelayIdentity [] [], closed = False, ghostOf = 0\<rparr>)"

definition setGhost :: "allocationBook \<Rightarrow> alloc \<Rightarrow> int \<Rightarrow> allocationBook" where
  "setGhost b r n = b\<lparr>allocs := mput r ((allocOf b r)\<lparr>ghostOf := n\<rparr>) (allocs b)\<rparr>"

definition trackAllocation :: "allocationBook \<Rightarrow> string \<Rightarrow> string \<Rightarrow> alloc \<times> allocationBook" where
  "trackAllocation b u addr =
    (let k = RelayIdentity u addr; r = nextAlloc b
     in (r, b\<lparr>allocs := mput r \<lparr>key = k, closed = False, ghostOf = 0\<rparr> (allocs b),
              nextAlloc := Suc r,
              live := mput k (mcount (live b) k + 1) (live b),
              tracked := r # tracked b,
              succeeded := mput u True (succeeded b)\<rparr>))"

section \<open>Marks\<close>

definition countedLocked :: "allocationBook \<Rightarrow> relayIdentity \<Rightarrow> alloc \<Rightarrow> gtime \<Rightarrow> bool" where
  "countedLocked b k r now = (case map_of (orphanedTill b) k of
     None \<Rightarrow> False
   | Some till \<Rightarrow> now < till \<and> ghostOf (allocOf b r) \<noteq> 0 \<and> ghostOf (allocOf b r) = mcount (markOf b) k)"

definition orphanLocked ::
    "allocationBook \<Rightarrow> relayIdentity \<Rightarrow> gtime \<Rightarrow> int \<Rightarrow> bool \<times> allocationBook" where
  "orphanLocked b k now n =
    (let till = map_of (orphanedTill b) k;
         fresh = (case till of None \<Rightarrow> True | Some t \<Rightarrow> \<not> now < t);
         b = (if fresh
              then b\<lparr>lastMark := lastMark b + 1, markOf := mput k (lastMark b + 1) (markOf b),
                     orphans := mput k 0 (orphans b), announced := mdel k (announced b)\<rparr>
              else b);
         b = b\<lparr>orphans := mput k (mcount (orphans b) k + n) (orphans b)\<rparr>;
         t = now + orphanedAllocationLifetime
     in (fresh,
         if fresh \<or> (case till of None \<Rightarrow> True | Some u \<Rightarrow> u < t)
         then b\<lparr>orphanedTill := mput k t (orphanedTill b)\<rparr> else b))"

definition countGhostLocked ::
    "allocationBook \<Rightarrow> relayIdentity \<Rightarrow> alloc option \<Rightarrow> gtime \<Rightarrow> bool \<times> allocationBook" where
  "countGhostLocked b k r now =
    (if (case r of Some r \<Rightarrow> countedLocked b k r now | None \<Rightarrow> False)
     then (False, snd (orphanLocked b k now 0))
     else let (fresh, b) = orphanLocked b k now 1
       in (fresh, case r of Some r \<Rightarrow> setGhost b r (mcount (markOf b) k) | None \<Rightarrow> b))"

text \<open>\<open>unreleased\<close>: the \<open>Refresh(0)\<close> write failed.\<close>

definition releaseAllocation ::
    "allocationBook \<Rightarrow> relayIdentity \<Rightarrow> bool \<Rightarrow> gtime \<Rightarrow> alloc option \<Rightarrow> allocationBook" where
  "releaseAllocation b k unreleased now r =
    (let n = mcount (live b) k - 1;
         b = b\<lparr>live := (if n \<le> 0 then mdel k (live b) else mput k n (live b)),
               tracked := (case r of Some r \<Rightarrow> removeAll r (tracked b) | None \<Rightarrow> tracked b)\<rparr>
     in if \<not> unreleased then b\<lparr>releasedAt := mput k now (releasedAt b)\<rparr>
        else snd (countGhostLocked b k r now))"

text \<open>\<open>trackedRelay.Close\<close>: \<open>unreleased\<close> is the outcome of the underlying close.\<close>

definition closeRelay :: "allocationBook \<Rightarrow> alloc \<Rightarrow> bool \<Rightarrow> gtime \<Rightarrow> allocationBook" where
  "closeRelay b r unreleased now =
    (if closed (allocOf b r) then b
     else let b = b\<lparr>allocs := mput r ((allocOf b r)\<lparr>closed := True\<rparr>) (allocs b)\<rparr>
       in releaseAllocation b (key (allocOf b r)) unreleased now (Some r))"

definition noteOutOfReach ::
    "allocationBook \<Rightarrow> string \<Rightarrow> string \<Rightarrow> alloc option \<Rightarrow> gtime \<Rightarrow> allocationBook" where
  "noteOutOfReach b u addr r now = snd (countGhostLocked b (RelayIdentity u addr) r now)"

text \<open>Per key, the allocations live there: the loop body of \<open>orphanLiveAllocations\<close>.\<close>

definition orphanKey :: "gtime \<Rightarrow> relayIdentity \<Rightarrow> allocationBook \<Rightarrow> allocationBook" where
  "orphanKey now k b =
    (let rs = filter (\<lambda>r. key (allocOf b r) = k) (tracked b);
         uncounted = filter (\<lambda>r. \<not> countedLocked b k r now) rs;
         b = snd (orphanLocked b k now (int (length uncounted)))
     in fold (\<lambda>r b. setGhost b r (mcount (markOf b) k)) rs b)"

definition orphanLiveAllocations :: "allocationBook \<Rightarrow> gtime \<Rightarrow> allocationBook" where
  "orphanLiveAllocations b now =
    fold (orphanKey now) (remdups (map (\<lambda>r. key (allocOf b r)) (tracked b))) b"

section \<open>Readers\<close>

fun crowdedRelays ::
    "allocationBook \<Rightarrow> string \<Rightarrow> string list \<Rightarrow> gtime \<Rightarrow> string list \<times> allocationBook" where
  "crowdedRelays b u [] now = ([], b)"
| "crowdedRelays b u (addr # addrs) now =
    (let k = RelayIdentity u addr
     in case map_of (orphanedTill b) k of
          Some till \<Rightarrow>
            if \<not> now < till
            then crowdedRelays (b\<lparr>orphanedTill := mdel k (orphanedTill b),
                   announced := mdel k (announced b), orphans := mdel k (orphans b),
                   markOf := mdel k (markOf b)\<rparr>) u addrs now
            else (let (c, b') = crowdedRelays b u addrs now
                  in (if mcount (orphans b) k \<ge> orphanSteerAt then addr # c else c, b'))
        | None \<Rightarrow> crowdedRelays b u addrs now)"

text \<open>The steering lines of \<open>announceCrowded\<close> are its result: the relays named, once per mark.\<close>

definition announceCrowded ::
    "allocationBook \<Rightarrow> string \<Rightarrow> string list \<Rightarrow> string list \<Rightarrow> gtime \<Rightarrow> string list \<times> allocationBook" where
  "announceCrowded b u crowded order now =
    (if crowded = [] \<or> order = [] \<or> hd order \<in> set crowded then ([], b)
     else foldl (\<lambda>(steered, b) addr. let k = RelayIdentity u addr in
            if addr \<notin> set crowded \<or> mmember (announced b) k
              \<or> (case map_of (orphanedTill b) k of None \<Rightarrow> True | Some till \<Rightarrow> \<not> now < till)
              \<or> mcount (orphans b) k < orphanSteerAt
            then (steered, b)
            else (steered @ [addr], b\<lparr>announced := mput k True (announced b)\<rparr>)) ([], b) order)"

text \<open>\<open>settlingQuotaError\<close> for an error that is a 486; the relays that answered it and when
  (\<open>quotaAnsweredBy\<close>, the zero instant when not known) are arguments.\<close>

fun settlingQuota ::
    "allocationBook \<Rightarrow> string \<Rightarrow> (string \<times> gtime) list \<Rightarrow> gtime \<Rightarrow> (string \<times> duration) option \<times> allocationBook" where
  "settlingQuota b u [] now = (None, b)"
| "settlingQuota b u ((addr, answeredAt) # answers) now =
    (let k = RelayIdentity u addr
     in case map_of (releasedAt b) k of
          None \<Rightarrow> settlingQuota b u answers now
        | Some at \<Rightarrow>
            if tsub now at \<ge> orphanedAllocationLifetime
            then settlingQuota (b\<lparr>releasedAt := mdel k (releasedAt b)\<rparr>) u answers now
            else let heard = (if is_zero answeredAt then now else answeredAt);
                     age = max (tsub heard at) 0
              in if age \<ge> releaseSettleWindow then settlingQuota b u answers now
                 else case map_of (orphanedTill b) k of
                        Some till \<Rightarrow> if now < till then settlingQuota b u answers now
                                     else (Some (addr, age), b)
                      | None \<Rightarrow> (Some (addr, age), b))"

definition credsHeldOn :: "allocationBook \<Rightarrow> string \<Rightarrow> string list \<Rightarrow> gtime \<Rightarrow> (string \<times> int) list" where
  "credsHeldOn b u relays now =
    (let held = fold (\<lambda>addr held. let k = RelayIdentity u addr;
              n = mcount (live b) k + (case map_of (orphanedTill b) k of
                    Some till \<Rightarrow> if now < till then mcount (orphans b) k else 0 | None \<Rightarrow> 0)
            in mput addr n held) relays []
     in fold (\<lambda>r held. let k = key (allocOf b r) in
          case map_of held (relay k) of
            Some n \<Rightarrow> if user k = u \<and> countedLocked b k r now then mput (relay k) (n - 1) held else held
          | None \<Rightarrow> held) (tracked b) held)"

end
