(* ===== verification/OrphansInv.thy ===== *)
theory OrphansInv
  imports Orphans
begin

text \<open>
  The invariant of the allocation book of theory Orphans and that every operation keeps it: the
  marks have numbers of their own, the ghosts counted under a mark are exactly the allocations
  stamped with its number, and the live count of a key is the number of its allocations not yet
  closed.
\<close>

definition ghosts :: "allocationBook \<Rightarrow> int \<Rightarrow> alloc set" where
  "ghosts b n = {r. \<exists>t. map_of (allocs b) r = Some t \<and> ghostOf t = n}"

definition marksInv :: "allocationBook \<Rightarrow> bool" where
  "marksInv b \<longleftrightarrow>
     0 \<le> lastMark b \<and>
     (\<forall>r t. map_of (allocs b) r = Some t \<longrightarrow> r < nextAlloc b \<and> 0 \<le> ghostOf t \<and> ghostOf t \<le> lastMark b) \<and>
     (\<forall>k n. map_of (markOf b) k = Some n \<longrightarrow> 0 < n \<and> n \<le> lastMark b \<and>
        mcount (orphans b) k = int (card (ghosts b n)) \<and>
        (\<forall>r t. map_of (allocs b) r = Some t \<longrightarrow> ghostOf t = n \<longrightarrow> key t = k)) \<and>
     (\<forall>k k' n. map_of (markOf b) k = Some n \<longrightarrow> map_of (markOf b) k' = Some n \<longrightarrow> k = k') \<and>
     dom (map_of (orphanedTill b)) = dom (map_of (markOf b))"

definition liveInv :: "allocationBook \<Rightarrow> bool" where
  "liveInv b \<longleftrightarrow> distinct (tracked b) \<and>
     set (tracked b) = {r. \<exists>t. map_of (allocs b) r = Some t \<and> \<not> closed t} \<and>
     (\<forall>k. mcount (live b) k = int (length (filter (\<lambda>r. key (allocOf b r) = k) (tracked b))))"

lemma finite_ghosts [simp]: "finite (ghosts b n)"
  by (rule finite_subset [OF _ finite_dom_map_of [of "allocs b"]]) (auto simp: ghosts_def)

lemma allocOf_Some [simp]: "map_of (allocs b) r = Some t \<Longrightarrow> allocOf b r = t"
  by (simp add: allocOf_def)

lemma marksInv_allocs:
  "marksInv b \<Longrightarrow> map_of (allocs b') = map_of (allocs b) \<Longrightarrow> nextAlloc b' = nextAlloc b \<Longrightarrow>
   map_of (markOf b') = map_of (markOf b) \<Longrightarrow> lastMark b' = lastMark b \<Longrightarrow>
   mcount (orphans b') = mcount (orphans b) \<Longrightarrow>
   dom (map_of (orphanedTill b')) = dom (map_of (orphanedTill b)) \<Longrightarrow> marksInv b'"
  unfolding marksInv_def ghosts_def by simp

lemma marksInvI:
  assumes "0 \<le> lastMark b"
    "\<And>r t. map_of (allocs b) r = Some t \<Longrightarrow> r < nextAlloc b \<and> 0 \<le> ghostOf t \<and> ghostOf t \<le> lastMark b"
    "\<And>k n. map_of (markOf b) k = Some n \<Longrightarrow> 0 < n \<and> n \<le> lastMark b"
    "\<And>k n. map_of (markOf b) k = Some n \<Longrightarrow> mcount (orphans b) k = int (card (ghosts b n))"
    "\<And>k n r t. map_of (markOf b) k = Some n \<Longrightarrow> map_of (allocs b) r = Some t \<Longrightarrow> ghostOf t = n \<Longrightarrow> key t = k"
    "\<And>k k' n. map_of (markOf b) k = Some n \<Longrightarrow> map_of (markOf b) k' = Some n \<Longrightarrow> k = k'"
    "dom (map_of (orphanedTill b)) = dom (map_of (markOf b))"
  shows "marksInv b"
  unfolding marksInv_def using assms by blast

lemma marksInv_orphans:
  "marksInv b \<Longrightarrow> map_of (markOf b) k = Some n \<Longrightarrow> mcount (orphans b) k = int (card (ghosts b n))"
  unfolding marksInv_def by blast

lemma marksInv_key:
  "marksInv b \<Longrightarrow> map_of (markOf b) k = Some n \<Longrightarrow> map_of (allocs b) r = Some t \<Longrightarrow> ghostOf t = n \<Longrightarrow> key t = k"
  unfolding marksInv_def by blast

lemma marksInv_inj:
  "marksInv b \<Longrightarrow> map_of (markOf b) k = Some n \<Longrightarrow> map_of (markOf b) k' = Some n \<Longrightarrow> k = k'"
  unfolding marksInv_def by blast

lemma marksInv_le: "marksInv b \<Longrightarrow> map_of (markOf b) k = Some n \<Longrightarrow> 0 < n \<and> n \<le> lastMark b"
  unfolding marksInv_def by blast

lemma ghosts_disjoint:
  assumes "marksInv b" "map_of (markOf b) k' = Some n'" "k' \<noteq> k"
    "\<forall>r \<in> set rs. \<exists>t. map_of (allocs b) r = Some t \<and> key t = k"
  shows "set rs \<inter> ghosts b n' = {}"
  using assms(3,4) marksInv_key [OF assms(1,2)] by (force simp: ghosts_def)

section \<open>Stamping allocations with a mark\<close>

abbreviation stampAll :: "relayIdentity \<Rightarrow> alloc list \<Rightarrow> allocationBook \<Rightarrow> allocationBook" where
  "stampAll k rs b \<equiv> fold (\<lambda>r b. setGhost b r (mcount (markOf b) k)) rs b"

lemma setGhost_fields [simp]:
  "nextAlloc (setGhost b r n) = nextAlloc b" "live (setGhost b r n) = live b"
  "tracked (setGhost b r n) = tracked b" "orphanedTill (setGhost b r n) = orphanedTill b"
  "orphans (setGhost b r n) = orphans b" "markOf (setGhost b r n) = markOf b"
  "lastMark (setGhost b r n) = lastMark b" "announced (setGhost b r n) = announced b"
  by (simp_all add: setGhost_def)

lemma stampAll_fields [simp]:
  "nextAlloc (stampAll k rs b) = nextAlloc b" "live (stampAll k rs b) = live b"
  "tracked (stampAll k rs b) = tracked b" "orphanedTill (stampAll k rs b) = orphanedTill b"
  "orphans (stampAll k rs b) = orphans b" "markOf (stampAll k rs b) = markOf b"
  "lastMark (stampAll k rs b) = lastMark b" "announced (stampAll k rs b) = announced b"
  by (induction rs arbitrary: b) simp_all

lemma map_of_setGhost:
  "map_of (allocs (setGhost b r n)) =
     (map_of (allocs b))(r \<mapsto> (allocOf b r)\<lparr>ghostOf := n\<rparr>)"
  by (simp add: setGhost_def)

lemma allocOf_setGhost:
  "allocOf (setGhost b r n) r' = (if r' = r then (allocOf b r)\<lparr>ghostOf := n\<rparr> else allocOf b r')"
  by (simp add: allocOf_def map_of_setGhost)

lemma map_of_stampAll:
  "map_of (allocs (stampAll k rs b)) r =
     (if r \<in> set rs then Some ((allocOf b r)\<lparr>ghostOf := mcount (markOf b) k\<rparr>) else map_of (allocs b) r)"
  by (induction rs arbitrary: b) (auto simp: map_of_setGhost allocOf_setGhost)

lemma allocOf_stampAll:
  "allocOf (stampAll k rs b) r =
     (if r \<in> set rs then (allocOf b r)\<lparr>ghostOf := mcount (markOf b) k\<rparr> else allocOf b r)"
  by (simp add: allocOf_def [of "stampAll k rs b"] map_of_stampAll) (simp add: allocOf_def)

section \<open>Marking\<close>

definition inForce :: "allocationBook \<Rightarrow> relayIdentity \<Rightarrow> gtime \<Rightarrow> bool" where
  "inForce b k now \<longleftrightarrow> (\<exists>till. map_of (orphanedTill b) k = Some till \<and> now < till)"

lemma countedLocked_iff:
  "countedLocked b k r now \<longleftrightarrow> inForce b k now \<and> ghostOf (allocOf b r) \<noteq> 0 \<and>
     ghostOf (allocOf b r) = mcount (markOf b) k"
  by (auto simp: countedLocked_def inForce_def split: option.splits)

lemma orphanLocked_fields [simp]:
  "allocs (snd (orphanLocked b k now n)) = allocs b"
  "nextAlloc (snd (orphanLocked b k now n)) = nextAlloc b"
  "live (snd (orphanLocked b k now n)) = live b"
  "tracked (snd (orphanLocked b k now n)) = tracked b"
  by (simp_all add: orphanLocked_def Let_def split: option.split)

lemma allocOf_orphanLocked [simp]: "allocOf (snd (orphanLocked b k now n)) r = allocOf b r"
  by (simp add: allocOf_def)

lemma orphanLocked_inForce:
  assumes "inForce b k now"
  shows "markOf (snd (orphanLocked b k now n)) = markOf b"
    "lastMark (snd (orphanLocked b k now n)) = lastMark b"
    "mcount (orphans (snd (orphanLocked b k now n))) =
       (mcount (orphans b))(k := mcount (orphans b) k + n)"
    "dom (map_of (orphanedTill (snd (orphanLocked b k now n)))) = dom (map_of (orphanedTill b))"
  using assms by (auto simp: orphanLocked_def Let_def inForce_def fun_eq_iff split: option.split)

lemma orphanLocked_fresh:
  assumes "\<not> inForce b k now"
  shows "map_of (markOf (snd (orphanLocked b k now n))) = (map_of (markOf b))(k \<mapsto> lastMark b + 1)"
    "lastMark (snd (orphanLocked b k now n)) = lastMark b + 1"
    "mcount (orphans (snd (orphanLocked b k now n))) = (mcount (orphans b))(k := n)"
    "dom (map_of (orphanedTill (snd (orphanLocked b k now n)))) = insert k (dom (map_of (orphanedTill b)))"
  using assms by (auto simp: orphanLocked_def Let_def inForce_def fun_eq_iff split: option.split)

lemma mcount_markOf: "map_of m k = Some n \<Longrightarrow> mcount m k = n"
  by (simp add: mcount_def)

lemma card_insert_list:
  assumes "finite A" "distinct rs"
  shows "card (A \<union> set rs) = card A + length (filter (\<lambda>r. r \<notin> A) rs)"
proof -
  have "A \<union> set rs = A \<union> set (filter (\<lambda>r. r \<notin> A) rs)" by auto
  moreover have "card (A \<union> set (filter (\<lambda>r. r \<notin> A) rs)) = card A + card (set (filter (\<lambda>r. r \<notin> A) rs))"
    using assms(1) by (intro card_Un_disjoint) auto
  moreover have "card (set (filter (\<lambda>r. r \<notin> A) rs)) = length (filter (\<lambda>r. r \<notin> A) rs)"
    using assms(2) by (intro distinct_card) simp
  ultimately show ?thesis by simp
qed

lemma inForce_mark: "marksInv b \<Longrightarrow> inForce b k now \<Longrightarrow> \<exists>m. map_of (markOf b) k = Some m"
  unfolding marksInv_def inForce_def by (metis domD domI)

text \<open>Marking a key with some of its allocations, each not yet counted adding one.\<close>

lemma marksInv_stamp:
  assumes inv: "marksInv b" and rs: "distinct rs"
    and ks: "\<forall>r \<in> set rs. \<exists>t. map_of (allocs b) r = Some t \<and> key t = k"
    and n: "n = int (length (filter (\<lambda>r. \<not> countedLocked b k r now) rs))"
  shows "marksInv (stampAll k rs (snd (orphanLocked b k now n)))" (is "marksInv ?b'")
proof (cases "inForce b k now")
  case True
  note o = orphanLocked_inForce [OF True]
  obtain m where m: "map_of (markOf b) k = Some m"
    using inForce_mark [OF inv True] by blast
  have mc: "mcount (markOf b) k = m" using m by (simp add: mcount_markOf)
  have pos: "0 < m" "m \<le> lastMark b" using inv m by (auto simp: marksInv_def)
  have cnt: "countedLocked b k r now \<longleftrightarrow> r \<in> ghosts b m" if "r \<in> set rs" for r
    using that ks True mc pos by (force simp: countedLocked_iff ghosts_def)
  have gm: "ghosts ?b' m = ghosts b m \<union> set rs"
    by (auto simp: ghosts_def map_of_stampAll mc o)
  have go: "ghosts ?b' n' = ghosts b n'" if "map_of (markOf b) k' = Some n'" "k' \<noteq> k" for k' n'
  proof -
    have "n' \<noteq> m" using that m marksInv_inj [OF inv] by blast
    moreover have "set rs \<inter> ghosts b n' = {}"
      using ghosts_disjoint [OF inv that ks] .
    ultimately show ?thesis by (auto simp: ghosts_def map_of_stampAll mc o)
  qed
  have "n = int (length (filter (\<lambda>r. r \<notin> ghosts b m) rs))"
    unfolding n using cnt by (metis (mono_tags, lifting) filter_cong)
  then have new: "mcount (orphans b) k + n = int (card (ghosts ?b' m))"
    unfolding gm card_insert_list [OF finite_ghosts rs] using marksInv_orphans [OF inv m] by simp
  have "((mcount (orphans b))(k := mcount (orphans b) k + n)) k' = int (card (ghosts ?b' n'))"
    if "map_of (markOf b) k' = Some n'" for k' n'
    using that go new m marksInv_orphans [OF inv that] by (cases "k' = k") simp_all
  moreover have "\<forall>r t. map_of (allocs ?b') r = Some t \<longrightarrow> r < nextAlloc b \<and> 0 \<le> ghostOf t \<and> ghostOf t \<le> lastMark b"
    using inv ks pos by (auto simp: marksInv_def map_of_stampAll o mc split: if_splits)
  moreover have "key t = k'" if "map_of (markOf b) k' = Some n'"
      "map_of (allocs ?b') r = Some t" "ghostOf t = n'" for k' n' r t
  proof (cases "r \<in> set rs")
    case True
    then have "n' = m" "key t = k" using that ks by (auto simp: map_of_stampAll o mc)
    with marksInv_inj [OF inv m] that(1) show ?thesis by simp
  next
    case False
    then have "map_of (allocs b) r = Some t" using that(2) by (simp add: map_of_stampAll)
    from marksInv_key [OF inv that(1) this that(3)] show ?thesis .
  qed
  ultimately show ?thesis using inv by (simp add: marksInv_def o)
next
  case False
  note o = orphanLocked_fresh [OF False]
  let ?m = "lastMark b + 1"
  have mc: "mcount (markOf (snd (orphanLocked b k now n))) k = ?m"
    by (simp add: mcount_def o)
  have old: "ghostOf t \<noteq> ?m" if "map_of (allocs b) r = Some t" for r t
    using that inv by (force simp: marksInv_def)
  have gm: "ghosts ?b' ?m = set rs"
    using old by (auto simp: ghosts_def map_of_stampAll mc)
  have go: "ghosts ?b' n' = ghosts b n'" if "map_of (markOf b) k' = Some n'" "k' \<noteq> k" for k' n'
  proof -
    have "n' \<noteq> ?m" using marksInv_le [OF inv that(1)] by simp
    moreover have "set rs \<inter> ghosts b n' = {}"
      using ghosts_disjoint [OF inv that ks] .
    ultimately show ?thesis by (auto simp: ghosts_def map_of_stampAll mc)
  qed
  have "n = int (length rs)"
    unfolding n using False by (simp add: countedLocked_iff)
  then have "int (card (ghosts ?b' ?m)) = n" using gm rs by (simp add: distinct_card)
  then have 1: "\<forall>k' n'. ((map_of (markOf b))(k \<mapsto> ?m)) k' = Some n' \<longrightarrow>
      ((mcount (orphans b))(k := n)) k' = int (card (ghosts ?b' n'))"
    using go marksInv_orphans [OF inv] by simp
  have 2: "\<forall>r t. map_of (allocs ?b') r = Some t \<longrightarrow> r < nextAlloc b \<and> 0 \<le> ghostOf t \<and> ghostOf t \<le> ?m"
    using inv ks by (fastforce simp: marksInv_def map_of_stampAll mc split: if_splits)
  have 3: "\<forall>k' n'. ((map_of (markOf b))(k \<mapsto> ?m)) k' = Some n' \<longrightarrow>
      (\<forall>r t. map_of (allocs ?b') r = Some t \<longrightarrow> ghostOf t = n' \<longrightarrow> key t = k')"
  proof (intro allI impI)
    fix k' n' r t
    assume k': "((map_of (markOf b))(k \<mapsto> ?m)) k' = Some n'"
      and t: "map_of (allocs ?b') r = Some t" "ghostOf t = n'"
    show "key t = k'"
    proof (cases "r \<in> set rs")
      case True
      then have "n' = ?m" "key t = k" using t ks by (auto simp: map_of_stampAll mc)
      moreover have "k' = k" if "map_of (markOf b) k' = Some ?m"
        using marksInv_le [OF inv that] by simp
      ultimately show ?thesis using k' by (auto split: if_splits)
    next
      case False
      then have "map_of (allocs b) r = Some t" using t(1) by (simp add: map_of_stampAll)
      with old t(2) k' marksInv_key [OF inv] show ?thesis by (auto split: if_splits)
    qed
  qed
  have 4: "\<forall>k' n'. ((map_of (markOf b))(k \<mapsto> ?m)) k' = Some n' \<longrightarrow> 0 < n' \<and> n' \<le> ?m"
  proof (intro allI impI)
    fix k' n'
    assume "((map_of (markOf b))(k \<mapsto> ?m)) k' = Some n'"
    moreover have "0 \<le> lastMark b" using inv by (simp add: marksInv_def)
    ultimately show "0 < n' \<and> n' \<le> ?m" using marksInv_le [OF inv, of k' n'] by (auto split: if_splits)
  qed
  have 5: "k' = k''" if "((map_of (markOf b))(k \<mapsto> ?m)) k' = Some n'"
      "((map_of (markOf b))(k \<mapsto> ?m)) k'' = Some n'" for k' k'' n'
  proof -
    have "map_of (markOf b) l \<noteq> Some ?m" for l using marksInv_le [OF inv, of l ?m] by auto
    with that marksInv_inj [OF inv, of k' n' k''] show ?thesis by (auto split: if_splits)
  qed
  have 6: "0 \<le> ?m" "dom (map_of (orphanedTill b)) = dom (map_of (markOf b))"
    using inv by (simp_all add: marksInv_def)
  show ?thesis
  proof (rule marksInvI, unfold stampAll_fields orphanLocked_fields o)
    show "insert k (dom (map_of (orphanedTill b))) = dom ((map_of (markOf b))(k \<mapsto> ?m))" using 6 by simp
  qed (use 1 2 3 4 5 6 in blast)+
qed

section \<open>Every operation keeps the invariant\<close>

lemma marksInv_trackAllocation:
  assumes "marksInv b"
  shows "marksInv (snd (trackAllocation b u a))"
proof -
  let ?b' = "snd (trackAllocation b u a)"
  have al: "map_of (allocs ?b') = (map_of (allocs b))(nextAlloc b \<mapsto> \<lparr>key = RelayIdentity u a, closed = False, ghostOf = 0\<rparr>)"
    by (simp add: trackAllocation_def Let_def)
  have no: "map_of (allocs b) (nextAlloc b) = None"
    using assms by (cases "map_of (allocs b) (nextAlloc b)") (auto simp: marksInv_def)
  have "ghosts ?b' n = ghosts b n" if "0 < n" for n
    using that no by (auto simp: ghosts_def al)
  moreover have "markOf ?b' = markOf b" "orphans ?b' = orphans b" "lastMark ?b' = lastMark b"
    "orphanedTill ?b' = orphanedTill b" "nextAlloc ?b' = Suc (nextAlloc b)"
    by (simp_all add: trackAllocation_def Let_def)
  ultimately show ?thesis
    using assms unfolding marksInv_def al by (auto simp: less_Suc_eq)
qed

lemma marksInv_countGhostLocked:
  assumes inv: "marksInv b" and r: "map_of (allocs b) r = Some t" "key t = k"
  shows "marksInv (snd (countGhostLocked b k (Some r) now))"
proof (cases "countedLocked b k r now")
  case True
  then show ?thesis
    using marksInv_stamp [OF inv, of "[]" k 0 now] by (simp add: countGhostLocked_def)
next
  case False
  then show ?thesis
    using marksInv_stamp [OF inv, of "[r]" k 1 now] r by (simp add: countGhostLocked_def split_beta)
qed

lemma marksInv_close_flag:
  assumes inv: "marksInv b" and r: "map_of (allocs b) r = Some t"
  shows "marksInv (b\<lparr>allocs := mput r (t\<lparr>closed := True\<rparr>) (allocs b)\<rparr>)" (is "marksInv ?b'")
proof -
  have "ghosts ?b' n = ghosts b n" for n using r by (auto simp: ghosts_def)
  then show ?thesis using inv r unfolding marksInv_def by auto
qed

lemma marksInv_releaseAllocation:
  assumes inv: "marksInv b" and r: "map_of (allocs b) r = Some t" "key t = k"
  shows "marksInv (releaseAllocation b k e now (Some r))"
proof -
  have "marksInv (b\<lparr>live := l, tracked := tr\<rparr>)" for l tr
    using inv by (rule marksInv_allocs) simp_all
  moreover have "marksInv (b\<lparr>live := l, tracked := tr, releasedAt := ra\<rparr>)" for l tr ra
    using inv by (rule marksInv_allocs) simp_all
  ultimately show ?thesis
    using r by (simp add: releaseAllocation_def Let_def marksInv_countGhostLocked)
qed

lemma marksInv_closeRelay:
  assumes inv: "marksInv b" and r: "map_of (allocs b) r = Some t"
  shows "marksInv (closeRelay b r e now)"
  using marksInv_releaseAllocation [OF marksInv_close_flag [OF inv r], of r "t\<lparr>closed := True\<rparr>"] inv r
  by (simp add: closeRelay_def Let_def allocOf_def)

lemma marksInv_noteOutOfReach:
  assumes "marksInv b" "map_of (allocs b) r = Some t" "key t = RelayIdentity u a"
  shows "marksInv (noteOutOfReach b u a (Some r) now)"
  using marksInv_countGhostLocked [OF assms] by (simp add: noteOutOfReach_def)

lemma orphanKey_stamp:
  "orphanKey now k b = stampAll k (filter (\<lambda>r. key (allocOf b r) = k) (tracked b))
     (snd (orphanLocked b k now (int (length (filter (\<lambda>r. \<not> countedLocked b k r now)
       (filter (\<lambda>r. key (allocOf b r) = k) (tracked b)))))))"
  by (simp add: orphanKey_def Let_def)

lemma key_orphanKey [simp]: "key (allocOf (orphanKey now k b) r) = key (allocOf b r)"
  by (simp add: orphanKey_stamp allocOf_stampAll)

lemma tracked_orphanKey [simp]: "tracked (orphanKey now k b) = tracked b" "live (orphanKey now k b) = live b"
  by (simp_all add: orphanKey_stamp)

lemma map_of_orphanKey:
  assumes "map_of (allocs b) r = Some t"
  shows "\<exists>g. map_of (allocs (orphanKey now k b)) r = Some (t\<lparr>ghostOf := g\<rparr>)"
proof (cases "r \<in> set (filter (\<lambda>r. key (allocOf b r) = k) (tracked b))")
  case True
  with assms show ?thesis by (auto simp: orphanKey_stamp map_of_stampAll)
next
  case False
  with assms have "map_of (allocs (orphanKey now k b)) r = Some t"
    by (auto simp: orphanKey_stamp map_of_stampAll)
  then show ?thesis by (intro exI [of _ "ghostOf t"]) simp
qed

lemma liveInv_orphanKey:
  assumes "liveInv b"
  shows "liveInv (orphanKey now k b)"
proof -
  have "(\<exists>t. map_of (allocs (orphanKey now k b)) r = Some t \<and> \<not> closed t) \<longleftrightarrow>
      (\<exists>t. map_of (allocs b) r = Some t \<and> \<not> closed t)" for r
  proof (cases "map_of (allocs b) r")
    case None
    then have "r \<notin> set (tracked b)" using assms by (auto simp: liveInv_def)
    with None show ?thesis by (simp add: orphanKey_stamp map_of_stampAll)
  next
    case (Some t)
    then show ?thesis using map_of_orphanKey [OF Some, of now k] by auto
  qed
  with assms show ?thesis by (simp add: liveInv_def)
qed

lemma marksInv_orphanKey:
  assumes "marksInv b" "liveInv b"
  shows "marksInv (orphanKey now k b)"
  unfolding orphanKey_stamp using assms
  by (intro marksInv_stamp) (auto simp: liveInv_def)

lemma inv_fold_orphanKey:
  "marksInv b \<Longrightarrow> liveInv b \<Longrightarrow> marksInv (fold (orphanKey now) ks b) \<and> liveInv (fold (orphanKey now) ks b)"
  by (induction ks arbitrary: b) (auto intro: marksInv_orphanKey liveInv_orphanKey)

lemma inv_orphanLiveAllocations:
  "marksInv b \<Longrightarrow> liveInv b \<Longrightarrow> marksInv (orphanLiveAllocations b now) \<and> liveInv (orphanLiveAllocations b now)"
  by (simp add: orphanLiveAllocations_def inv_fold_orphanKey)

end
