(* ===== verification/OrphansReach.thy ===== *)
theory OrphansReach
  imports OrphansInv
begin

text \<open>
  The books the program can reach (theory Orphans), and what they promise to the readers: a ghost
  is counted once however often it is reported, a crowded relay really holds five ghosts of the
  credential, and \<open>credsHeldOn\<close> is the number of the credential's allocations a relay holds,
  live or as ghosts, each once.
\<close>

section \<open>The live count\<close>

lemma liveInv_trackAllocation:
  assumes "liveInv b" "marksInv b"
  shows "liveInv (snd (trackAllocation b u a))"
proof -
  have no: "map_of (allocs b) (nextAlloc b) = None"
    using assms(2) by (cases "map_of (allocs b) (nextAlloc b)") (auto simp: marksInv_def)
  then have nt: "nextAlloc b \<notin> set (tracked b)" using assms(1) by (auto simp: liveInv_def)
  have fl: "filter (\<lambda>r. key (allocOf (snd (trackAllocation b u a)) r) = k) (tracked b) =
      filter (\<lambda>r. key (allocOf b r) = k) (tracked b)" for k
    using nt by (intro filter_cong) (auto simp: trackAllocation_def Let_def allocOf_def)
  have tr: "tracked (snd (trackAllocation b u a)) = nextAlloc b # tracked b"
    "key (allocOf (snd (trackAllocation b u a)) (nextAlloc b)) = RelayIdentity u a"
    "mcount (live (snd (trackAllocation b u a))) k =
       mcount (live b) k + (if k = RelayIdentity u a then 1 else 0)" for k
    by (auto simp: trackAllocation_def Let_def allocOf_def)
  have "set (tracked (snd (trackAllocation b u a))) =
      {r. \<exists>t. map_of (allocs (snd (trackAllocation b u a))) r = Some t \<and> \<not> closed t}"
    using assms(1) no by (auto simp: liveInv_def trackAllocation_def Let_def)
  with assms(1) nt show ?thesis by (simp add: liveInv_def tr fl)
qed

lemma allocOf_live_irrelevant [simp]:
  "allocOf (b\<lparr>live := l\<rparr>) = allocOf b" "allocOf (b\<lparr>tracked := tr\<rparr>) = allocOf b"
  "allocOf (b\<lparr>releasedAt := ra\<rparr>) = allocOf b"
  by (simp_all add: allocOf_def fun_eq_iff)

lemma countGhostLocked_live [simp]:
  "live (snd (countGhostLocked b k r now)) = live b"
  "tracked (snd (countGhostLocked b k r now)) = tracked b"
  by (simp_all add: countGhostLocked_def split_beta split: option.split)

lemma countGhostLocked_alloc:
  "map_of (allocs b) r' = Some t \<Longrightarrow> \<exists>g. map_of (allocs (snd (countGhostLocked b k r now))) r' = Some (t\<lparr>ghostOf := g\<rparr>)"
  by (cases t) (auto simp: countGhostLocked_def split_beta map_of_setGhost split: option.split)

lemma countGhostLocked_none:
  "map_of (allocs b) r' = None \<Longrightarrow> r \<noteq> Some r' \<Longrightarrow> map_of (allocs (snd (countGhostLocked b k r now))) r' = None"
  by (auto simp: countGhostLocked_def split_beta map_of_setGhost split: option.split)

lemma liveInv_ghosts:
  assumes "liveInv b" "live b' = live b" "tracked b' = tracked b"
    "\<And>r t. map_of (allocs b) r = Some t \<Longrightarrow> \<exists>g. map_of (allocs b') r = Some (t\<lparr>ghostOf := g\<rparr>)"
    "\<And>r. map_of (allocs b) r = None \<Longrightarrow> map_of (allocs b') r = None"
  shows "liveInv b'"
proof -
  have st: "(\<exists>t. map_of (allocs b') r = Some t \<and> \<not> closed t) \<longleftrightarrow> (\<exists>t. map_of (allocs b) r = Some t \<and> \<not> closed t)" for r
    using assms(4,5) [of r] by (cases "map_of (allocs b) r") auto
  have ky: "key (allocOf b' r) = key (allocOf b r)" for r
    using assms(4,5) [of r] by (cases "map_of (allocs b) r") (auto simp: allocOf_def)
  show ?thesis using assms(1) by (simp add: liveInv_def assms(2,3) st ky)
qed

lemma liveInv_countGhostLocked:
  "liveInv b \<Longrightarrow> r = Some x \<Longrightarrow> map_of (allocs b) x = Some t \<Longrightarrow> liveInv (snd (countGhostLocked b k r now))"
  by (erule liveInv_ghosts) (auto intro: countGhostLocked_alloc countGhostLocked_none)

lemma length_filter_removeAll:
  "distinct xs \<Longrightarrow> x \<in> set xs \<Longrightarrow>
   int (length (filter P (removeAll x xs))) = int (length (filter P xs)) - (if P x then 1 else 0)"
  by (induction xs) (auto simp: removeAll_id)

text \<open>The close of an allocation that was open takes it out of the count of its key.\<close>

lemma liveInv_closed:
  assumes b: "liveInv b" and r: "map_of (allocs b) r = Some t" "\<not> closed t"
  shows "liveInv (b\<lparr>allocs := mput r (t\<lparr>closed := True\<rparr>) (allocs b),
      live := (if mcount (live b) (key t) - 1 \<le> 0 then mdel (key t) (live b)
               else mput (key t) (mcount (live b) (key t) - 1) (live b)),
      tracked := removeAll r (tracked b)\<rparr>)" (is "liveInv ?b'")
proof -
  have rt: "r \<in> set (tracked b)" and d: "distinct (tracked b)" using b r by (auto simp: liveInv_def)
  have ky: "key (allocOf ?b' x) = key (allocOf b x)" for x
    using r by (simp add: allocOf_def)
  have n: "mcount (live b) k = int (length (filter (\<lambda>r. key (allocOf b r) = k) (tracked b)))" for k
    using b by (simp add: liveInv_def)
  have c: "mcount (live ?b') k = mcount (live b) k - (if key t = k then 1 else 0)" for k
  proof -
    have "mcount (live b) (key t) > 0"
      using rt r by (simp add: n) (metis (mono_tags, lifting) allocOf_Some filter_empty_conv)
    then show ?thesis by auto
  qed
  have st: "set (tracked ?b') = {r. \<exists>t. map_of (allocs ?b') r = Some t \<and> \<not> closed t}"
    using b by (auto simp: liveInv_def)
  obtain b' where b': "b' = ?b'" by simp
  have "tracked b' = removeAll r (tracked b)" by (simp add: b')
  moreover have "mcount (live b') k = int (length (filter (\<lambda>x. key (allocOf b x) = k) (removeAll r (tracked b))))" for k
    using c [of k, folded b'] n [of k] r length_filter_removeAll [OF d rt, of "\<lambda>x. key (allocOf b x) = k"]
    by simp
  ultimately show ?thesis
    using st d ky unfolding b' [symmetric] liveInv_def by (simp add: distinct_removeAll)
qed

lemma liveInv_same:
  "liveInv b \<Longrightarrow> allocs b' = allocs b \<Longrightarrow> live b' = live b \<Longrightarrow> tracked b' = tracked b \<Longrightarrow> liveInv b'"
  by (simp add: liveInv_def allocOf_def)

lemma liveInv_closeRelay:
  assumes b: "liveInv b" and r: "map_of (allocs b) r = Some t"
  shows "liveInv (closeRelay b r e now)"
proof (cases "closed t")
  case True
  with b r show ?thesis by (simp add: closeRelay_def)
next
  case False
  note l = liveInv_closed [OF b r False]
  let ?b = "b\<lparr>allocs := mput r (t\<lparr>closed := True\<rparr>) (allocs b),
      live := (if mcount (live b) (key t) - 1 \<le> 0 then mdel (key t) (live b)
               else mput (key t) (mcount (live b) (key t) - 1) (live b)),
      tracked := removeAll r (tracked b)\<rparr>"
  have "closeRelay b r e now = (if \<not> e then ?b\<lparr>releasedAt := mput (key t) now (releasedAt b)\<rparr>
      else snd (countGhostLocked ?b (key t) (Some r) now))"
    using r False by (simp add: closeRelay_def releaseAllocation_def Let_def allocOf_def)
  moreover have "liveInv (?b\<lparr>releasedAt := mput (key t) now (releasedAt b)\<rparr>)"
    using l by (rule liveInv_same) simp_all
  moreover have "liveInv (snd (countGhostLocked ?b (key t) (Some r) now))"
    by (rule liveInv_countGhostLocked [OF l refl]) simp
  ultimately show ?thesis by simp
qed

section \<open>Crowded relays are read off the book\<close>

lemma forget_expired:
  assumes "marksInv b"
  shows "marksInv (b\<lparr>orphanedTill := mdel k (orphanedTill b), announced := an,
    orphans := mdel k (orphans b), markOf := mdel k (markOf b)\<rparr>)" (is "marksInv ?b'")
proof (rule marksInvI)
  have g: "ghosts ?b' n = ghosts b n" for n by (simp add: ghosts_def)
  show "mcount (orphans ?b') k' = int (card (ghosts ?b' n))" if "map_of (markOf ?b') k' = Some n" for k' n
    using that marksInv_orphans [OF assms, of k' n] by (simp add: g split: if_splits)
  show "key t = k'" if "map_of (markOf ?b') k' = Some n" "map_of (allocs ?b') r = Some t" "ghostOf t = n" for k' n r t
    using that marksInv_key [OF assms, of k' n r t] by (simp split: if_splits)
  show "k' = k''" if "map_of (markOf ?b') k' = Some n" "map_of (markOf ?b') k'' = Some n" for k' k'' n
    using that marksInv_inj [OF assms, of k' n k''] by (simp split: if_splits)
  show "0 < n \<and> n \<le> lastMark ?b'" if "map_of (markOf ?b') k' = Some n" for k' n
    using that marksInv_le [OF assms, of k' n] by (simp split: if_splits)
qed (use assms in \<open>auto simp: marksInv_def\<close>)

lemma crowdedRelays_inv:
  "marksInv b \<Longrightarrow> liveInv b \<Longrightarrow>
   marksInv (snd (crowdedRelays b u addrs now)) \<and> liveInv (snd (crowdedRelays b u addrs now))"
proof (induction addrs arbitrary: b)
  case (Cons a as)
  have "liveInv (b\<lparr>orphanedTill := ot, announced := an, orphans := os, markOf := m\<rparr>)" for ot an os m
    using Cons.prems(2) by (rule liveInv_same) simp_all
  with Cons show ?case
    by (auto simp: Let_def split_beta forget_expired split: option.split)
qed simp

text \<open>A relay told crowded is under a mark in force that counts at least \<open>orphanSteerAt\<close> ghosts
  (counted in the book as it was: forgetting other relays' expired marks leaves them alone).\<close>

lemma crowdedRelays_sound:
  "addr \<in> set (fst (crowdedRelays b u addrs now)) \<Longrightarrow>
   inForce b (RelayIdentity u addr) now \<and> orphanSteerAt \<le> mcount (orphans b) (RelayIdentity u addr)"
proof (induction addrs arbitrary: b)
  case (Cons a as)
  show ?case
  proof (cases "map_of (orphanedTill b) (RelayIdentity u a)")
    case None
    with Cons show ?thesis by (simp add: Let_def)
  next
    case (Some till)
    show ?thesis
    proof (cases "now < till")
      case True
      with Cons Some show ?thesis by (auto simp: Let_def split_beta inForce_def split: if_splits)
    next
      case False
      let ?k = "RelayIdentity u a"
      let ?b = "b\<lparr>orphanedTill := mdel ?k (orphanedTill b), announced := mdel ?k (announced b),
        orphans := mdel ?k (orphans b), markOf := mdel ?k (markOf b)\<rparr>"
      have "addr \<in> set (fst (crowdedRelays ?b u as now))" using Cons.prems Some False by (simp add: Let_def)
      from Cons.IH [OF this] show ?thesis by (auto simp: inForce_def orphanSteerAt_def split: if_splits)
    qed
  qed
qed simp

lemma crowdedRelays_subset: "set (fst (crowdedRelays b u addrs now)) \<subseteq> set addrs"
  by (induction addrs arbitrary: b) (auto simp: Let_def split_beta split: option.splits if_splits)

section \<open>Reachable books\<close>

inductive reachableBook :: "allocationBook \<Rightarrow> bool" where
  start: "reachableBook newBook"
| accepted: "reachableBook b \<Longrightarrow> reachableBook (snd (trackAllocation b u a))"
| released: "reachableBook b \<Longrightarrow> map_of (allocs b) r = Some t \<Longrightarrow> reachableBook (closeRelay b r e now)"
| unreachable: "reachableBook b \<Longrightarrow> map_of (allocs b) r = Some t \<Longrightarrow> key t = RelayIdentity u a \<Longrightarrow>
    reachableBook (noteOutOfReach b u a (Some r) now)"
| networkLost: "reachableBook b \<Longrightarrow> reachableBook (orphanLiveAllocations b now)"
| asked: "reachableBook b \<Longrightarrow> reachableBook (snd (crowdedRelays b u addrs now))"

inductive_cases reachableBook_cases: "reachableBook b"

lemma reachable_inv: "reachableBook b \<Longrightarrow> marksInv b \<and> liveInv b"
proof (induction rule: reachableBook.induct)
  case start
  show ?case by (simp add: marksInv_def liveInv_def newBook_def ghosts_def)
next
  case (unreachable b r t u a now)
  then show ?case
    by (simp add: marksInv_noteOutOfReach noteOutOfReach_def liveInv_countGhostLocked)
      (metis marksInv_noteOutOfReach noteOutOfReach_def)
qed (auto simp: marksInv_trackAllocation liveInv_trackAllocation marksInv_closeRelay
    liveInv_closeRelay inv_orphanLiveAllocations crowdedRelays_inv)

end
