(* ===== verification/OrphansProps.thy ===== *)
theory OrphansProps
  imports OrphansReach
begin

text \<open>
  What the allocation book promises its readers, on every book the program can reach.
\<close>

lemma counted_ghosts:
  assumes "marksInv b" "inForce b k now"
  obtains n where "map_of (markOf b) k = Some n" "{r. countedLocked b k r now} = ghosts b n"
proof -
  obtain n where n: "map_of (markOf b) k = Some n" using inForce_mark [OF assms] by blast
  then have "0 < n" using marksInv_le [OF assms(1)] by blast
  then have "{r. countedLocked b k r now} = ghosts b n"
    using n assms(2) by (force simp: countedLocked_iff ghosts_def mcount_markOf allocOf_def split: option.splits)
  with n that show thesis by blast
qed

lemma counted_key:
  assumes "marksInv b" "countedLocked b k r now"
  shows "key (allocOf b r) = k"
proof -
  have f: "inForce b k now" using assms(2) by (simp add: countedLocked_iff)
  obtain n where n: "map_of (markOf b) k = Some n" "{r. countedLocked b k r now} = ghosts b n"
    using counted_ghosts [OF assms(1) f] .
  then have "r \<in> ghosts b n" using assms(2) by blast
  then show ?thesis using marksInv_key [OF assms(1) n(1)] by (auto simp: ghosts_def)
qed

lemma counted_card:
  assumes "marksInv b" "inForce b k now"
  shows "finite {r. countedLocked b k r now}"
    "mcount (orphans b) k = int (card {r. countedLocked b k r now})"
  using counted_ghosts [OF assms] marksInv_orphans [OF assms(1)] by (metis finite_ghosts)+

lemma not_counted: "\<not> inForce b k now \<Longrightarrow> {r. countedLocked b k r now} = {}"
  by (simp add: countedLocked_iff)

text \<open>A book of five allocations of one credential on one relay, before and after the loss.\<close>

definition fiveHeld :: allocationBook where
  "fiveHeld = fold (\<lambda>_ b. snd (trackAllocation b ''u'' ''a'')) [1..<6] newBook"

definition fiveGhosts :: allocationBook where
  "fiveGhosts = orphanLiveAllocations fiveHeld 0"

lemma reachable_fiveHeld: "reachableBook fiveHeld"
proof -
  have "reachableBook (fold (\<lambda>_ b. snd (trackAllocation b ''u'' ''a'')) (ns :: nat list) b)" if "reachableBook b" for ns b
    using that by (induction ns arbitrary: b) (auto intro: reachableBook.accepted)
  then show ?thesis unfolding fiveHeld_def by (simp add: reachableBook.start)
qed

lemma reachable_fiveGhosts: "reachableBook fiveGhosts"
  unfolding fiveGhosts_def by (intro reachableBook.networkLost reachable_fiveHeld)

lemma fiveHeld_open: "map_of (allocs fiveHeld) 0 = Some \<lparr>key = RelayIdentity ''u'' ''a'', closed = False, ghostOf = 0\<rparr>"
  by code_simp

lemma fiveGhosts_inForce: "inForce fiveGhosts (RelayIdentity ''u'' ''a'') 1"
proof -
  have "map_of (orphanedTill fiveGhosts) (RelayIdentity ''u'' ''a'') = Some (600 * 1000000000)" by code_simp
  then show ?thesis by (simp add: inForce_def)
qed

text \<open>
  C2. The ghosts counted under a mark in force are exactly as many as the allocations stamped with
  it, each of them ours on that credential and relay: however an allocation came to be reported
  (its network lost, its release failing after that, its relay out of reach) and however often,
  it is counted once.
\<close>

theorem ghost_counted_once:
  assumes "reachableBook b" "inForce b k now"
  shows "mcount (orphans b) k = int (card {r. countedLocked b k r now}) \<and>
    {r. countedLocked b k r now} \<subseteq> {r. key (allocOf b r) = k}"
  using assms reachable_inv counted_card(2) counted_key by blast

theorem ghost_counted_once_witness:
  "mcount (orphans fiveGhosts) (RelayIdentity ''u'' ''a'') =
     int (card {r. countedLocked fiveGhosts (RelayIdentity ''u'' ''a'') r 1})"
  using ghost_counted_once [OF reachable_fiveGhosts fiveGhosts_inForce] by blast

text \<open>
  A relay is tried last as crowded only when at least five different allocations of the
  credential are held there as ghosts at that moment.
\<close>

theorem crowded_relay_holds_five:
  assumes "reachableBook b" "addr \<in> set (fst (crowdedRelays b u addrs now))"
  shows "addr \<in> set addrs \<and>
    5 \<le> card {r. countedLocked b (RelayIdentity u addr) r now \<and> key (allocOf b r) = RelayIdentity u addr}"
proof -
  let ?k = "RelayIdentity u addr"
  have inv: "marksInv b" using reachable_inv [OF assms(1)] by simp
  have f: "inForce b ?k now" "orphanSteerAt \<le> mcount (orphans b) ?k"
    using crowdedRelays_sound [OF assms(2)] by auto
  have "{r. countedLocked b ?k r now \<and> key (allocOf b r) = ?k} = {r. countedLocked b ?k r now}"
    using counted_key [OF inv] by blast
  then have "5 \<le> card {r. countedLocked b ?k r now \<and> key (allocOf b r) = ?k}"
    using f counted_card(2) [OF inv f(1)] by (simp add: go_consts)
  moreover have "addr \<in> set addrs" using crowdedRelays_subset assms(2) by blast
  ultimately show ?thesis by blast
qed

theorem crowded_relay_holds_five_witness:
  "5 \<le> card {r. countedLocked fiveGhosts (RelayIdentity ''u'' ''a'') r 1 \<and>
     key (allocOf fiveGhosts r) = RelayIdentity ''u'' ''a''}"
proof -
  have "''a'' \<in> set (fst (crowdedRelays fiveGhosts ''u'' [''b'', ''a''] 1))" by code_simp
  from crowded_relay_holds_five [OF reachable_fiveGhosts this] show ?thesis by blast
qed

section \<open>A lost network\<close>

lemma orphanLocked_till:
  "\<exists>till. map_of (orphanedTill (snd (orphanLocked b k now n))) k = Some till \<and>
     now + orphanedAllocationLifetime \<le> till"
  by (auto simp: orphanLocked_def Let_def split: option.split)

lemma orphanLocked_other:
  assumes "k' \<noteq> k"
  shows "map_of (orphanedTill (snd (orphanLocked b k now n))) k' = map_of (orphanedTill b) k'"
    "mcount (markOf (snd (orphanLocked b k now n))) k' = mcount (markOf b) k'"
  using assms by (auto simp: orphanLocked_def Let_def split: option.split)

lemma orphanKey_counts:
  assumes "marksInv b" "liveInv b" "r \<in> set (tracked b)" "key (allocOf b r) = k"
    "t < now + orphanedAllocationLifetime"
  shows "countedLocked (orphanKey now k b) k r t"
proof -
  let ?b = "orphanKey now k b"
  have "inForce ?b k t"
    using orphanLocked_till assms(5) unfolding inForce_def orphanKey_stamp by force
  moreover have "ghostOf (allocOf ?b r) = mcount (markOf ?b) k"
    using assms(3,4) by (simp add: orphanKey_stamp allocOf_stampAll)
  moreover have "mcount (markOf ?b) k \<noteq> 0"
  proof -
    have inv: "marksInv ?b" using marksInv_orphanKey assms(1,2) .
    obtain n where "map_of (markOf ?b) k = Some n" using inForce_mark [OF inv \<open>inForce ?b k t\<close>] by blast
    with marksInv_le [OF inv this] show ?thesis by (simp add: mcount_markOf)
  qed
  ultimately show ?thesis by (simp add: countedLocked_iff)
qed

lemma orphanKey_other:
  assumes "k' \<noteq> k" "key (allocOf b r) = k'"
  shows "countedLocked (orphanKey now k b) k' r t \<longleftrightarrow> countedLocked b k' r t"
  using assms
  by (auto simp: countedLocked_iff inForce_def orphanKey_stamp allocOf_stampAll orphanLocked_other)

lemma fold_orphanKey_keeps:
  "k \<notin> set ks \<Longrightarrow> key (allocOf b r) = k \<Longrightarrow>
   countedLocked (fold (orphanKey now) ks b) k r t \<longleftrightarrow> countedLocked b k r t"
  by (induction ks arbitrary: b) (auto simp: orphanKey_other)

lemma fold_orphanKey_counts:
  "distinct ks \<Longrightarrow> k \<in> set ks \<Longrightarrow> marksInv b \<Longrightarrow> liveInv b \<Longrightarrow> r \<in> set (tracked b) \<Longrightarrow>
   key (allocOf b r) = k \<Longrightarrow> t < now + orphanedAllocationLifetime \<Longrightarrow>
   countedLocked (fold (orphanKey now) ks b) k r t"
proof (induction ks arbitrary: b)
  case (Cons k' ks)
  show ?case
  proof (cases "k' = k")
    case True
    with Cons.prems show ?thesis by (simp add: fold_orphanKey_keeps orphanKey_counts)
  next
    case False
    with Cons show ?thesis by (auto simp: marksInv_orphanKey liveInv_orphanKey)
  qed
qed simp

text \<open>
  When the network is lost every allocation still open is held as a ghost, and stays one for
  the whole lifetime VK keeps it (600 seconds); a release of it that fails within that time does
  not count it a second time.
\<close>

theorem lost_network_counts_every_open_allocation:
  assumes "reachableBook b" "map_of (allocs b) r = Some t" "\<not> closed t"
    "at < now + orphanedAllocationLifetime"
  shows "countedLocked (orphanLiveAllocations b now) (key t) r at \<and>
    mcount (orphans (closeRelay (orphanLiveAllocations b now) r True at)) (key t)
         = mcount (orphans (orphanLiveAllocations b now)) (key t)"
proof -
  let ?b = "orphanLiveAllocations b now"
  have inv: "marksInv b" "liveInv b" using reachable_inv [OF assms(1)] by auto
  have rt: "r \<in> set (tracked b)" "key (allocOf b r) = key t" using inv(2) assms(2,3) by (auto simp: liveInv_def)
  then have c: "countedLocked ?b (key t) r at"
    unfolding orphanLiveAllocations_def using inv assms(4)
    by (intro fold_orphanKey_counts) (auto simp: image_iff intro: bexI [of _ r])
  have inv': "marksInv ?b" "liveInv ?b" using inv_orphanLiveAllocations [OF inv] by auto
  have kt: "key (allocOf ?b r) = key t" using counted_key [OF inv'(1) c] .
  have c': "countedLocked (?b\<lparr>allocs := al, live := l, tracked := tr\<rparr>) (key t) r at"
    if "map_of al r = Some ((allocOf ?b r)\<lparr>closed := True\<rparr>)" for al l tr
    using c that by (simp add: countedLocked_def allocOf_def [of "?b\<lparr>allocs := al, live := l, tracked := tr\<rparr>"] split: option.splits)
  have "inForce ?b (key t) at" using c by (simp add: countedLocked_iff)
  then have f: "inForce (?b\<lparr>allocs := al, live := l, tracked := tr\<rparr>) (key t) at" for al l tr
    by (simp add: inForce_def)
  have "mcount (orphans (closeRelay ?b r True at)) (key t) = mcount (orphans ?b) (key t)"
    using c' kt orphanLocked_inForce(3) [OF f, of _ _ _ 0]
    by (simp add: closeRelay_def Let_def releaseAllocation_def allocOf_def [of "?b\<lparr>allocs := _\<rparr>"] countGhostLocked_def)
  with c show ?thesis by blast
qed

theorem lost_network_counts_every_open_allocation_witness:
  "countedLocked (orphanLiveAllocations fiveHeld 0) (RelayIdentity ''u'' ''a'') 0 (500 * second)"
  using lost_network_counts_every_open_allocation
      [OF reachable_fiveHeld fiveHeld_open, of "500 * second" 0] by (simp add: go_consts)

section \<open>The allocations a relay holds\<close>

lemma map_of_fold_mput:
  "map_of (fold (\<lambda>a m. mput a (f a) m) as m) a = (if a \<in> set as then Some (f a) else map_of m a)"
  by (induction as arbitrary: m) auto

lemma map_of_fold_less:
  "map_of (fold (\<lambda>r held. case map_of held (at r) of
       Some n \<Rightarrow> if P r then mput (at r) (n - 1 :: int) held else held | None \<Rightarrow> held) rs m) a =
   (case map_of m a of None \<Rightarrow> None
    | Some n \<Rightarrow> Some (n - int (length (filter (\<lambda>r. at r = a \<and> P r) rs))))"
  by (induction rs arbitrary: m) (auto split: option.split)

text \<open>
  \<open>credsHeldOn\<close>, the count a credential's relays are balanced by, is the number of different
  allocations of the credential the relay holds: those open there and those it still holds as
  ghosts, an open allocation already counted as a ghost taken once.
\<close>

theorem credsHeldOn_counts_allocations:
  assumes "reachableBook b" "addr \<in> set relays"
  shows "map_of (credsHeldOn b u relays now) addr =
     Some (int (card ({r \<in> set (tracked b). key (allocOf b r) = RelayIdentity u addr}
                      \<union> {r. countedLocked b (RelayIdentity u addr) r now})))"
proof -
  let ?k = "RelayIdentity u addr"
  let ?L = "{r \<in> set (tracked b). key (allocOf b r) = ?k}"
  let ?G = "{r. countedLocked b ?k r now}"
  have inv: "marksInv b" and lv: "liveInv b" using reachable_inv [OF assms(1)] by auto
  have cardf: "card {r \<in> set (tracked b). P r} = length (filter P (tracked b))" for P
    using lv distinct_card [of "filter P (tracked b)"] by (simp add: liveInv_def)
  have L: "mcount (live b) ?k = int (card ?L)"
    using lv unfolding cardf by (simp add: liveInv_def)
  have G: "(case map_of (orphanedTill b) ?k of
       Some till \<Rightarrow> if now < till then mcount (orphans b) ?k else 0 | None \<Rightarrow> 0) = int (card ?G)" and fG: "finite ?G"
    using counted_card [OF inv, of ?k now] not_counted [of b ?k now]
    by (cases "inForce b ?k now"; auto simp: inForce_def split: option.splits)+
  have "filter (\<lambda>r. relay (key (allocOf b r)) = addr \<and>
          user (key (allocOf b r)) = u \<and> countedLocked b (key (allocOf b r)) r now) (tracked b) =
        filter (\<lambda>r. key (allocOf b r) = ?k \<and> countedLocked b ?k r now) (tracked b)"
    by (intro filter_cong refl) (metis relayIdentity.collapse relayIdentity.sel)
  then have I: "length (filter (\<lambda>r. relay (key (allocOf b r)) = addr \<and>
          user (key (allocOf b r)) = u \<and> countedLocked b (key (allocOf b r)) r now) (tracked b)) = card (?L \<inter> ?G)"
    using cardf [of "\<lambda>r. key (allocOf b r) = ?k \<and> countedLocked b ?k r now"]
    by (simp add: Int_def conj_ac)
  have U: "int (card (?L \<union> ?G)) = int (card ?L) + int (card ?G) - int (card (?L \<inter> ?G))"
    using card_Un_Int [of ?L ?G] fG by simp
  show ?thesis
    unfolding credsHeldOn_def Let_def
      map_of_fold_less [where at = "\<lambda>r. relay (key (allocOf b r))"] map_of_fold_mput
    using assms(2) by (simp add: L G I U)
qed

theorem credsHeldOn_counts_allocations_witness:
  "map_of (credsHeldOn fiveGhosts ''u'' [''a''] 1) ''a'' =
     Some (int (card ({r \<in> set (tracked fiveGhosts). key (allocOf fiveGhosts r) = RelayIdentity ''u'' ''a''}
                      \<union> {r. countedLocked fiveGhosts (RelayIdentity ''u'' ''a'') r 1})))"
  by (rule credsHeldOn_counts_allocations [OF reachable_fiveGhosts]) simp

end
