(* ===== verification/WorkerCreds.thy ===== *)
theory WorkerCreds
  imports ServerHealth RelayRest Orphans
begin

text \<open>
  The order a stream tries its TURN servers in (\<open>pkg/proxy/worker_creds.go\<close>, \<open>outageOrder\<close> of
  \<open>turn_server_demotion.go\<close>, \<open>headFirst\<close> of \<open>relay_move.go\<close>). The state is the three books the
  order is read from: the health of the servers, the rests and the allocations. Reading a verdict
  sweeps it, so every reader returns the books too; the calls short-circuit as the code's do.
  Sets of relays (\<open>map[string]bool\<close>) are lists.
\<close>

record proxyBooks =
  healthBook :: health
  restBook :: restState
  ghostBook :: allocationBook

record relayMove =
  moveLossy :: "string list"
  headTo :: string
  movedAt :: gtime

definition streamSlot :: "int \<Rightarrow> int \<Rightarrow> int" where
  "streamSlot streamID n = (let idx = go_rem streamID n in if idx < 0 then idx + n else idx)"

definition rotateServers :: "string list \<Rightarrow> int \<Rightarrow> string list" where
  "rotateServers list idx = drop (nat idx) list @ take (nat idx) list"

definition relayLast :: "string list \<Rightarrow> string \<Rightarrow> string list" where
  "relayLast order addr =
    (if addr \<notin> set order \<or> length order < 2 then order
     else takeWhile (\<lambda>r. r \<noteq> addr) order @ tl (dropWhile (\<lambda>r. r \<noteq> addr) order) @ [addr])"

definition relayUsable :: "proxyBooks \<Rightarrow> string \<Rightarrow> gtime \<Rightarrow> bool \<times> proxyBooks" where
  "relayUsable s addr now =
    (if serverDemoted (healthBook s) addr then (False, s)
     else let (penalized, h) = serverPenalized (healthBook s) addr now;
              s = s\<lparr>healthBook := h\<rparr>
       in if penalized then (False, s)
          else let (resting, r) = relayResting (restBook s) addr now
            in (\<not> resting, s\<lparr>restBook := r\<rparr>))"

definition hasOtherUsableRelay ::
    "proxyBooks \<Rightarrow> string list \<Rightarrow> string \<Rightarrow> gtime \<Rightarrow> bool \<times> proxyBooks" where
  "hasOtherUsableRelay s relays addr now = exists_read (\<lambda>s r. relayUsable s r now) s addr relays"

section \<open>The order of an outage\<close>

definition outageCompare :: "health \<Rightarrow> string \<Rightarrow> string \<Rightarrow> int" where
  "outageCompare h a b =
    (let da = demotedLocked (map_of h a); db = demotedLocked (map_of h b)
     in if da \<noteq> db then (if da then 1 else - 1)
        else tcompare (lastGoodLocked (map_of h b)) (lastGoodLocked (map_of h a)))"

definition outageOrder :: "health \<Rightarrow> string list \<Rightarrow> int \<Rightarrow> string list \<Rightarrow> string list" where
  "outageOrder h servers streamID crowded =
    (let out = sortStableFunc (outageCompare h) servers;
         proven = length (takeWhile (\<lambda>addr. \<not> (is_zero (lastGoodLocked (map_of h addr)) \<or>
                    demotedLocked (map_of h addr))) out)
     in if proven < 2 then out
        else let full = filter (\<lambda>addr. addr \<in> set crowded) (take proven out);
                 clean = filter (\<lambda>addr. addr \<notin> set crowded) (take proven out)
          in if clean = [] \<or> full = []
             then rotateServers (take proven out) (streamSlot streamID (int proven)) @ drop proven out
             else rotateServers clean (streamSlot streamID (int (length clean)))
                  @ rotateServers full (streamSlot streamID (int (length full))) @ drop proven out)"

section \<open>The order of an attempt\<close>

definition assignRelaysAround ::
    "proxyBooks \<Rightarrow> string list \<Rightarrow> int \<Rightarrow> gtime \<Rightarrow> string list \<Rightarrow> string list \<Rightarrow> string list \<times> proxyBooks" where
  "assignRelaysAround s addrs streamID now crowded lossy =
    (let servers = sortCompact addrs
     in if length servers < 2 then (servers, s)
        else let (live, s) = filter_read (\<lambda>s addr. relayUsable s addr now) s servers
          in if live = [] then (outageOrder (healthBook s) servers streamID crowded, s)
             else let full = filter (\<lambda>addr. addr \<in> set crowded) live;
                      losing = filter (\<lambda>addr. addr \<notin> set crowded \<and> addr \<in> set lossy) live;
                      clean = filter (\<lambda>addr. addr \<notin> set crowded \<and> addr \<notin> set lossy) live
               in (concat (map (\<lambda>tier. if tier \<noteq> []
                     then rotateServers tier (streamSlot streamID (int (length tier))) else [])
                     [clean, losing, full]), s))"

definition assignRelays :: "proxyBooks \<Rightarrow> string list \<Rightarrow> int \<Rightarrow> gtime \<Rightarrow> string list \<times> proxyBooks" where
  "assignRelays s addrs streamID now = assignRelaysAround s addrs streamID now [] []"

definition headFirst ::
    "proxyBooks \<Rightarrow> string list \<Rightarrow> string \<Rightarrow> string list \<Rightarrow> string list \<Rightarrow> gtime \<Rightarrow> string list \<times> proxyBooks" where
  "headFirst s order head crowded lossy now =
    (if head = [] \<or> order = [] then (order, s)
     else let (usable, s) = relayUsable s head now
       in if \<not> usable \<or> (head \<in> set crowded) \<noteq> (hd order \<in> set crowded)
             \<or> (head \<in> set lossy) \<noteq> (hd order \<in> set lossy)
          then (order, s)
          else if head \<notin> set order then (order, s)
          else (head # takeWhile (\<lambda>r. r \<noteq> head) order @ tl (dropWhile (\<lambda>r. r \<noteq> head) order), s))"

definition streamAttemptOrderAround ::
    "proxyBooks \<Rightarrow> string \<Rightarrow> string list \<Rightarrow> int \<Rightarrow> gtime \<Rightarrow> relayMove option \<Rightarrow> string list \<times> proxyBooks" where
  "streamAttemptOrderAround s u addrs streamID now move =
    (let lossyNow = (case move of None \<Rightarrow> [] | Some m \<Rightarrow> moveLossy m);
         (crowded, b) = crowdedRelays (ghostBook s) u addrs now;
         (order, s) = assignRelaysAround (s\<lparr>ghostBook := b\<rparr>) addrs streamID now crowded lossyNow;
         (order, s) = (case move of None \<Rightarrow> (order, s)
                         | Some m \<Rightarrow> headFirst s order (headTo m) crowded lossyNow now);
         (_, b) = announceCrowded (ghostBook s) u crowded order now
     in (order, s\<lparr>ghostBook := b\<rparr>))"

definition streamAttemptOrder ::
    "proxyBooks \<Rightarrow> string \<Rightarrow> string list \<Rightarrow> int \<Rightarrow> gtime \<Rightarrow> string list \<times> proxyBooks" where
  "streamAttemptOrder s u addrs streamID now = streamAttemptOrderAround s u addrs streamID now None"

text \<open>\<open>groupStreamCounts\<close>.\<close>

fun fullGroups :: "int \<Rightarrow> nat \<Rightarrow> int \<Rightarrow> int list" where
  "fullGroups perCred 0 requested = []"
| "fullGroups perCred (Suc i) requested =
    (let c = min perCred requested in c # fullGroups perCred i (requested - c))"

definition groupStreamCounts :: "int \<Rightarrow> int \<Rightarrow> int \<Rightarrow> int list" where
  "groupStreamCounts links perCred requested =
    (let links = max links 1; perCred = max perCred 1
     in if requested \<le> 0 \<or> requested = links * perCred then replicate (nat links) perCred
        else if requested < links * perCred
        then let requested = max requested links
          in map (\<lambda>i. requested div links + (if int i < requested mod links then 1 else 0)) [0 ..< nat links]
        else fullGroups perCred (nat ((requested - 1) div perCred + 1)) requested)"

section \<open>Usable relays\<close>

lemma relayUsable_iff:
  "fst (relayUsable s a now) \<longleftrightarrow>
     \<not> serverDemoted (healthBook s) a \<and> \<not> fst (serverPenalized (healthBook s) a now)
     \<and> \<not> fst (relayResting (restBook s) a now)"
  by (simp add: relayUsable_def split_beta Let_def)

lemma serverDemoted_swept: "serverDemoted (snd (serverPenalized m k now)) a = serverDemoted m a"
  by (simp add: go_state penaltyRead_def)

lemma relayUsable_books:
  "serverDemoted (healthBook (snd (relayUsable s k now))) a = serverDemoted (healthBook s) a"
  "now \<le> now' \<Longrightarrow> fst (serverPenalized (healthBook (snd (relayUsable s k now))) a now') =
     fst (serverPenalized (healthBook s) a now')"
  "now \<le> now' \<Longrightarrow> fst (relayResting (restBook (snd (relayUsable s k now))) a now') =
     fst (relayResting (restBook s) a now')"
  "ghostBook (snd (relayUsable s k now)) = ghostBook s"
  by (simp_all add: relayUsable_def split_beta Let_def serverDemoted_swept penalty.later resting.later)

interpretation usable: lazy_verdict relayUsable
  by unfold_locales (simp add: relayUsable_iff relayUsable_books)

lemma usable_filter_books:
  "ghostBook (snd (filter_read (\<lambda>s a. relayUsable s a now) s xs)) = ghostBook s"
  "serverDemoted (healthBook (snd (filter_read (\<lambda>s a. relayUsable s a now) s xs))) a = serverDemoted (healthBook s) a"
  by (induction xs arbitrary: s) (simp_all add: split_beta relayUsable_books)

end
