(* ===== verification/WorkerCredsProps.thy ===== *)
theory WorkerCredsProps
  imports WorkerCreds
begin

text \<open>
  What the order of an attempt promises: which relays it holds, how the tiers follow one another,
  that the streams' heads spread over the first tier, and how an outage is ordered.
\<close>

section \<open>Rotation\<close>

lemma mset_rotateServers [simp]: "mset (rotateServers xs i) = mset xs"
  by (simp add: rotateServers_def) (metis append_take_drop_id mset_append union_commute)

lemma set_rotateServers [simp]: "set (rotateServers xs i) = set xs"
  by (metis mset_rotateServers set_mset_mset)

lemma length_rotateServers [simp]: "length (rotateServers xs i) = length xs"
  by (metis mset_rotateServers size_mset)

lemma rotateServers_Nil_iff [simp]: "rotateServers xs i = [] \<longleftrightarrow> xs = []"
  by (metis length_0_conv length_rotateServers)

lemma streamSlot_mod: "0 < n \<Longrightarrow> streamSlot i n = i mod n"
  using go_rem_shift [of n i] by (simp add: streamSlot_def Let_def)

lemma hd_rotateServers:
  "xs \<noteq> [] \<Longrightarrow> hd (rotateServers xs (streamSlot i (int (length xs)))) = xs ! nat (i mod int (length xs))"
proof -
  assume ne: "xs \<noteq> []"
  then have "nat (i mod int (length xs)) < length xs" by (simp add: nat_less_iff)
  with ne show ?thesis by (simp add: streamSlot_mod rotateServers_def hd_append hd_drop_conv_nth)
qed

lemma mset_move_front:
  "x \<in> set xs \<Longrightarrow> mset (x # takeWhile (\<lambda>r. r \<noteq> x) xs @ tl (dropWhile (\<lambda>r. r \<noteq> x) xs)) = mset xs"
  by (induction xs) auto

section \<open>Which relays an attempt dials\<close>

abbreviation usableServers :: "proxyBooks \<Rightarrow> string list \<Rightarrow> gtime \<Rightarrow> string list" where
  "usableServers s addrs now \<equiv> filter (\<lambda>a. fst (relayUsable s a now)) (sortCompact addrs)"

lemma mset_outageOrder [simp]: "mset (outageOrder h xs i crowded) = mset xs"
proof -
  have f: "mset (filter (\<lambda>a. a \<notin> A) xs) + mset (filter (\<lambda>a. a \<in> A) xs) = mset xs" for A and xs :: "string list"
    by (induction xs) auto
  have t: "mset (take n xs) + mset (drop n xs) = mset xs" for n and xs :: "string list"
    by (metis append_take_drop_id mset_append)
  have g: "mset (if c then out else if c' then rotateServers (take p out) j @ drop p out
      else rotateServers (filter (\<lambda>a. a \<notin> A) (take p out)) k
        @ rotateServers (filter (\<lambda>a. a \<in> A) (take p out)) l @ drop p out) = mset out"
    for c c' p j k l A and out :: "string list"
    by (simp add: t f del: mset_filter flip: add.assoc)
  show ?thesis unfolding outageOrder_def Let_def g by simp
qed


lemma assign_relays_dialed:
  "mset (fst (assignRelaysAround s addrs i now crowded ls)) =
     mset (if length (sortCompact addrs) < 2 \<or> usableServers s addrs now = []
           then sortCompact addrs else usableServers s addrs now)"
proof -
  let ?u = "usableServers s addrs now"
  have l: "fst (filter_read (\<lambda>s a. relayUsable s a now) s (sortCompact addrs)) = ?u"
    by (rule usable.filter_read_eq)
  have t: "mset (filter (\<lambda>a. a \<notin> A \<and> a \<notin> B) xs) + (mset (filter (\<lambda>a. a \<notin> A \<and> a \<in> B) xs) +
      mset (filter (\<lambda>a. a \<in> A) xs)) = mset xs" for A B and xs :: "string list"
    by (induction xs) auto
  have r: "mset (if xs \<noteq> [] then rotateServers xs j else []) = mset xs" for xs j by simp
  show ?thesis
    by (simp add: assignRelaysAround_def Let_def split_beta l r t del: mset_filter filter_filter)
qed

lemma headFirst_same: "mset (fst (headFirst s order head crowded ls now)) = mset order"
  using mset_move_front [of head order] by (simp add: headFirst_def split_beta Let_def)

text \<open>
  An attempt dials every usable relay of its link, once each, and no other one; when the link
  has a single relay, or a verdict stands against every one of them, it dials them all. What
  is crowded, what is losing and where a move sends the stream change the order only.
\<close>

theorem attempt_dials_the_usable_relays:
  "mset (fst (streamAttemptOrderAround s u addrs i now move)) =
     mset (if length (sortCompact addrs) < 2 \<or> usableServers s addrs now = []
           then sortCompact addrs else usableServers s addrs now)"
proof -
  have g: "fst (relayUsable (s\<lparr>ghostBook := b\<rparr>) a now) = fst (relayUsable s a now)" for b a
    by (simp add: relayUsable_iff)
  show ?thesis
    by (cases move) (simp_all add: streamAttemptOrderAround_def Let_def split_beta headFirst_same
        assign_relays_dialed g)
qed

section \<open>Tiers\<close>

definition tierOf :: "string list \<Rightarrow> string list \<Rightarrow> string \<Rightarrow> nat" where
  "tierOf crowded ls a = (if a \<in> set crowded then 2 else if a \<in> set ls then 1 else 0)"

definition firstTier :: "string list \<Rightarrow> string list \<Rightarrow> string list \<Rightarrow> string list" where
  "firstTier crowded ls rs = filter (\<lambda>a. tierOf crowded ls a = Min (tierOf crowded ls ` set rs)) rs"

lemma tiers_of_order:
  assumes "2 \<le> length (sortCompact addrs)" "usableServers s addrs now \<noteq> []"
  shows "fst (assignRelaysAround s addrs i now crowded ls) =
    concat (map (\<lambda>t. let tier = filter (\<lambda>a. tierOf crowded ls a = t) (usableServers s addrs now)
      in if tier \<noteq> [] then rotateServers tier (streamSlot i (int (length tier))) else []) [0, 1, 2])"
proof -
  let ?u = "usableServers s addrs now"
  have l: "fst (filter_read (\<lambda>s a. relayUsable s a now) s (sortCompact addrs)) = ?u"
    by (rule usable.filter_read_eq)
  have "filter (\<lambda>a. tierOf crowded ls a = 0) xs = filter (\<lambda>a. a \<notin> set crowded \<and> a \<notin> set ls) xs"
    "filter (\<lambda>a. tierOf crowded ls a = 1) xs = filter (\<lambda>a. a \<notin> set crowded \<and> a \<in> set ls) xs"
    "filter (\<lambda>a. tierOf crowded ls a = 2) xs = filter (\<lambda>a. a \<in> set crowded) xs" for xs
    by (intro filter_cong; simp add: tierOf_def)+
  with assms l show ?thesis
    by (simp add: assignRelaysAround_def Let_def split_beta del: filter_filter)
qed

text \<open>
  While some relay is usable, the ones an attempt dials are in order of tier: first those
  neither crowded nor losing, then the losing ones, then the crowded ones.
\<close>

theorem attempt_order_by_tier:
  assumes "2 \<le> length (sortCompact addrs)" "usableServers s addrs now \<noteq> []"
  shows "sorted (map (tierOf crowded ls) (fst (assignRelaysAround s addrs i now crowded ls)))"
proof -
  have c: "map (tierOf crowded ls) (rotateServers (filter (\<lambda>a. tierOf crowded ls a = t) xs) j) =
      replicate (length (filter (\<lambda>a. tierOf crowded ls a = t) xs)) t" for t xs j
  proof -
    have "set (rotateServers (filter (\<lambda>a. tierOf crowded ls a = t) xs) j) \<subseteq> {a. tierOf crowded ls a = t}" by auto
    then have "map (tierOf crowded ls) (rotateServers (filter (\<lambda>a. tierOf crowded ls a = t) xs) j) =
        map (\<lambda>_. t) (rotateServers (filter (\<lambda>a. tierOf crowded ls a = t) xs) j)"
      by (intro map_cong refl) auto
    then show ?thesis by (simp add: map_replicate_const)
  qed
  show ?thesis
    unfolding tiers_of_order [OF assms] by (simp add: Let_def c sorted_append del: filter_filter)
qed


text \<open>Three relays, one of them crowded and one losing.\<close>

definition threeBooks :: proxyBooks where
  "threeBooks = \<lparr>healthBook = [], restBook = \<lparr>peer = ''p'', marks = [], stateDir = False,
     diskWritable = False, disk = NotExist\<rparr>, ghostBook = newBook\<rparr>"

lemma threeBooks_usable: "usableServers threeBooks [''c'', ''a'', ''b'', ''a''] 0 = [''a'', ''b'', ''c'']"
  "sortCompact [''c'', ''a'', ''b'', ''a''] = [''a'', ''b'', ''c'']"
  by code_simp+

theorem attempt_order_by_tier_witness:
  "sorted (map (tierOf [''a''] [''b'']) (fst (assignRelaysAround threeBooks [''c'', ''a'', ''b'', ''a''] 0 0 [''a''] [''b''])))"
proof (rule attempt_order_by_tier)
  show "usableServers threeBooks [''c'', ''a'', ''b'', ''a''] 0 \<noteq> []" unfolding threeBooks_usable(1) by simp
qed (simp add: threeBooks_usable(2))

section \<open>The spread\<close>

lemma firstTier_nonempty: "rs \<noteq> [] \<Longrightarrow> firstTier crowded ls rs \<noteq> []"
proof -
  assume "rs \<noteq> []"
  then have "Min (tierOf crowded ls ` set rs) \<in> tierOf crowded ls ` set rs" by (intro Min_in) auto
  then show ?thesis by (auto simp: firstTier_def filter_empty_conv)
qed

lemma hd_assign:
  assumes "2 \<le> length (sortCompact addrs)" "usableServers s addrs now \<noteq> []"
    and T: "T = firstTier crowded ls (usableServers s addrs now)"
  shows "hd (fst (assignRelaysAround s addrs i now crowded ls)) = T ! nat (i mod int (length T))"
proof -
  let ?u = "usableServers s addrs now"
  let ?m = "Min (tierOf crowded ls ` set ?u)"
  let ?f = "\<lambda>t. filter (\<lambda>a. tierOf crowded ls a = t) ?u"
  let ?g = "\<lambda>t. if ?f t \<noteq> [] then rotateServers (?f t) (streamSlot i (int (length (?f t)))) else []"
  have o: "fst (assignRelaysAround s addrs i now crowded ls) = ?g 0 @ ?g 1 @ ?g 2"
    unfolding tiers_of_order [OF assms(1,2)] Let_def by simp
  have ne: "?f ?m \<noteq> []" using firstTier_nonempty [OF assms(2)] by (simp add: firstTier_def del: filter_filter)
  have lt: "?f t = []" if "t < ?m" for t
  proof -
    have "tierOf crowded ls a \<noteq> t" if "a \<in> set ?u" for a
      using that \<open>t < ?m\<close> Min_le [of "tierOf crowded ls ` set ?u" "tierOf crowded ls a"] by fastforce
    then show ?thesis by (simp add: filter_empty_conv)
  qed
  have "?m \<in> tierOf crowded ls ` set ?u" using assms(2) by (intro Min_in) (simp_all only: finite_imageI finite_set image_is_empty set_empty, simp_all)
  then have "?m \<in> {0, 1, 2}" by (auto simp: tierOf_def split: if_splits)
  then have "hd (?g 0 @ ?g 1 @ ?g 2) = hd (rotateServers (?f ?m) (streamSlot i (int (length (?f ?m)))))"
  proof (elim insertE emptyE)
    assume "?m = 0"
    with ne show ?thesis by (simp add: hd_append del: filter_filter)
  next
    assume m: "?m = 1"
    then have "?f 0 = []" by (intro lt) simp
    with m ne show ?thesis by (simp add: hd_append del: filter_filter)
  next
    assume m: "?m = 2"
    then have "?f 0 = []" "?f 1 = []" by (intro lt, simp)+
    with m ne show ?thesis by (simp add: hd_append del: filter_filter)
  qed
  then show ?thesis unfolding o T firstTier_def hd_rotateServers [OF ne] .
qed

lemma window_mod_inj: "0 < n \<Longrightarrow> inj_on (\<lambda>i. i mod n) {j ..< j + n :: int}"
proof (rule inj_onI)
  fix a b assume n: "0 < n" and ab: "a \<in> {j ..< j + n}" "b \<in> {j ..< j + n}" and m: "a mod n = b mod n"
  have "n dvd a - b" using m by (simp add: mod_eq_dvd_iff)
  moreover have "\<bar>a - b\<bar> < n" using ab by auto
  ultimately show "a = b" using n zdvd_not_zless [of "\<bar>a - b\<bar>" n] by auto
qed

text \<open>
  The streams are spread evenly: over any run of as many consecutive streams as the first tier
  has relays, every relay of that tier is tried first by exactly one of them.
\<close>

theorem heads_spread_over_the_first_tier:
  assumes "2 \<le> length (sortCompact addrs)" "usableServers s addrs now \<noteq> []"
  shows "bij_betw (\<lambda>i. hd (fst (assignRelaysAround s addrs i now crowded ls)))
    {j ..< j + int (length (firstTier crowded ls (usableServers s addrs now)))}
    (set (firstTier crowded ls (usableServers s addrs now)))"
proof -
  obtain T where T: "T = firstTier crowded ls (usableServers s addrs now)" by simp
  let ?n = "int (length T)"
  have n: "0 < ?n" using firstTier_nonempty [OF assms(2)] by (simp add: T)
  have d: "distinct T" by (simp add: T firstTier_def)
  have r: "nat (i mod ?n) < length T" for i using n by (simp add: nat_less_iff)
  have inj: "inj_on (\<lambda>i. T ! nat (i mod ?n)) {j ..< j + ?n}"
  proof (rule inj_onI)
    fix a b assume ab: "a \<in> {j ..< j + ?n}" "b \<in> {j ..< j + ?n}" "T ! nat (a mod ?n) = T ! nat (b mod ?n)"
    then have "nat (a mod ?n) = nat (b mod ?n)" using d r by (simp add: nth_eq_iff_index_eq)
    then have "a mod ?n = b mod ?n" using n by (simp add: eq_nat_nat_iff)
    then show "a = b" using inj_onD [OF window_mod_inj [OF n, of j]] ab by blast
  qed
  have "(\<lambda>i. T ! nat (i mod ?n)) ` {j ..< j + ?n} = set T"
  proof (rule card_subset_eq)
    show "(\<lambda>i. T ! nat (i mod ?n)) ` {j ..< j + ?n} \<subseteq> set T" using r by auto
    show "card ((\<lambda>i. T ! nat (i mod ?n)) ` {j ..< j + ?n}) = card (set T)"
      using card_image [OF inj] d by (simp add: distinct_card)
  qed simp
  then show ?thesis
    using inj unfolding bij_betw_def T [symmetric] hd_assign [OF assms T] by blast
qed

theorem heads_spread_over_the_first_tier_witness:
  "bij_betw (\<lambda>i. hd (fst (assignRelaysAround threeBooks [''c'', ''a'', ''b'', ''a''] i 0 [''a''] [])))
    {7 ..< 9} {''b'', ''c''}"
proof -
  have u: "firstTier [''a''] [] [''a'', ''b'', ''c''] = [''b'', ''c'']" by code_simp
  have "2 \<le> length (sortCompact [''c'', ''a'', ''b'', ''a''])"
    by (simp add: threeBooks_usable(2))
  moreover have "usableServers threeBooks [''c'', ''a'', ''b'', ''a''] 0 \<noteq> []"
    unfolding threeBooks_usable(1) by simp
  ultimately have b: "bij_betw (\<lambda>i. hd (fst (assignRelaysAround threeBooks [''c'', ''a'', ''b'', ''a''] i 0 [''a''] [])))
    {7 ..< 7 + int (length (firstTier [''a''] [] (usableServers threeBooks [''c'', ''a'', ''b'', ''a''] 0)))}
    (set (firstTier [''a''] [] (usableServers threeBooks [''c'', ''a'', ''b'', ''a''] 0)))"
    by (rule heads_spread_over_the_first_tier)
  have "7 + int (length [''b'', ''c'']) = 9" by simp
  with b show ?thesis unfolding threeBooks_usable(1) u by (simp only: set_simps)
qed

section \<open>An outage\<close>

text \<open>Proven (carried, and not demoted since), not yet proven, demoted.\<close>

definition outageRank :: "health \<Rightarrow> string \<Rightarrow> nat" where
  "outageRank h a = (if serverDemoted h a then 2 else if lastGood (healthOf h a) = zero_time then 1 else 0)"

abbreviation outageKey :: "health \<Rightarrow> string \<Rightarrow> bool \<times> int" where
  "outageKey h a \<equiv> (serverDemoted h a, - lastGood (healthOf h a))"

lemma outageCompare_key: "outageCompare h a b \<le> 0 \<longleftrightarrow> outageKey h a \<le> outageKey h b"
  by (auto simp: outageCompare_def Let_def serverDemoted_def [symmetric] lastGoodLocked_healthOf less_eq_prod_def
      split: if_splits)

lemma sorted_rank:
  assumes "\<forall>a. zero_time \<le> lastGood (healthOf h a)"
  shows "sorted (map (outageRank h) (sortStableFunc (outageCompare h) xs))"
proof -
  have m: "outageRank h a \<le> outageRank h b" if "outageKey h a \<le> outageKey h b" for a b
    using that assms by (auto simp: outageRank_def less_eq_prod_def antisym)
  have "sorted (map (outageKey h) (sort_key (outageKey h) xs))" by simp
  then have "sorted_wrt (\<lambda>a b. outageKey h a \<le> outageKey h b) (sort_key (outageKey h) xs)"
    by (simp add: sorted_map)
  then have "sorted_wrt (\<lambda>a b. outageRank h a \<le> outageRank h b) (sort_key (outageKey h) xs)"
    by (rule sorted_wrt_mono_rel [rotated]) (use m in blast)
  then show ?thesis
    unfolding sortStableFunc_sort_key [of "outageCompare h" "outageKey h", OF outageCompare_key] by (simp add: sorted_map)
qed

text \<open>
  With a verdict against every relay an attempt still does not lead with one that eats the data
  plane: in the order of an outage the relays that carried come first, whoever of them is crowded,
  then those that have not carried yet, and the demoted ones last.
\<close>

theorem outage_never_leads_with_demoted:
  assumes "\<forall>a. zero_time \<le> lastGood (healthOf h a)"
  shows "sorted (map (outageRank h) (outageOrder h servers i crowded))"
proof -
  let ?o = "sortStableFunc (outageCompare h) servers"
  let ?P = "\<lambda>addr. \<not> (is_zero (lastGoodLocked (map_of h addr)) \<or> demotedLocked (map_of h addr))"
  let ?p = "length (takeWhile ?P ?o)"
  have so: "sorted (map (outageRank h) ?o)" using assms by (rule sorted_rank)
  have tk: "take ?p ?o = takeWhile ?P ?o" by (rule takeWhile_eq_take [symmetric])
  have z: "outageRank h a = 0" if "a \<in> set (takeWhile ?P ?o)" for a
    using set_takeWhileD [OF that] by (auto simp: outageRank_def serverDemoted_def lastGoodLocked_healthOf)
  have key: "sorted (map (outageRank h) (xs @ drop ?p ?o))" if "set xs \<subseteq> set (takeWhile ?P ?o)" for xs
  proof -
    have "map (outageRank h) xs = replicate (length xs) 0"
      using that z by (intro replicate_eqI) auto
    moreover have "sorted (map (outageRank h) (drop ?p ?o))"
      using so by (simp add: drop_map sorted_wrt_drop flip: drop_map)
    ultimately show ?thesis by (simp add: sorted_append)
  qed
  have sub: "set (rotateServers (filter (\<lambda>addr. addr \<notin> set crowded) (takeWhile ?P ?o)) j
      @ rotateServers (filter (\<lambda>addr. addr \<in> set crowded) (takeWhile ?P ?o)) k) \<subseteq> set (takeWhile ?P ?o)" for j k
    by auto
  have rot: "set (rotateServers (takeWhile ?P ?o) j) \<subseteq> set (takeWhile ?P ?o)" for j by simp
  have g: "sorted (map f (if c then out else if c' then x @ d else y @ z @ d))"
    if "sorted (map f out)" "sorted (map f (x @ d))" "sorted (map f ((y @ z) @ d))"
    for c c' and out x y z d :: "string list" and f :: "string \<Rightarrow> nat"
    using that by (cases c; cases c'; simp)
  show ?thesis
    unfolding outageOrder_def Let_def tk by (rule g [OF so key [OF rot] key [OF sub]])
qed

theorem outage_never_leads_with_demoted_witness:
  "sorted (map (outageRank (healthRun [] [HandshakeOK ''b'' 5, HandshakeOK ''a'' 7, HandshakeFailure ''a'' 6 9]))
     (outageOrder (healthRun [] [HandshakeOK ''b'' 5, HandshakeOK ''a'' 7, HandshakeFailure ''a'' 6 9])
        [''a'', ''b'', ''c''] 3 []))"
proof (rule outage_never_leads_with_demoted, rule allI)
  fix a
  have "healthOf [] b = newServerHealth" for b by (simp add: healthOf_def)
  then show "zero_time \<le> lastGood (healthOf (healthRun [] [HandshakeOK ''b'' 5, HandshakeOK ''a'' 7, HandshakeFailure ''a'' 6 9]) a)"
    by (simp add: go_state Let_def struck_def zero_time_def)
qed

section \<open>Streams per group\<close>

lemma fullGroups_props:
  assumes "0 < p" "int n * p - p < r" "r \<le> int n * p"
  shows "sum_list (fullGroups p n r) = (if n = 0 then 0 else r) \<and> set (fullGroups p n r) \<subseteq> {1 .. p} \<and> length (fullGroups p n r) = n"
  using assms
proof (induction n arbitrary: r)
  case (Suc n)
  show ?case
  proof (cases "n = 0")
    case True
    with Suc.prems show ?thesis by (simp add: Let_def min_def)
  next
    case False
    then have "p \<le> int n * p" using Suc.prems(1) by simp
    then have m: "min p r = p" using Suc.prems(2) by (simp add: algebra_simps)
    have "int n * p - p < r - p" "r - p \<le> int n * p" using Suc.prems by (simp_all add: algebra_simps)
    from Suc.IH [OF Suc.prems(1) this] show ?thesis using m Suc.prems(1) False by (simp add: Let_def)
  qed
qed simp

lemma even_split_sum:
  assumes "0 < n"
  shows "sum_list (map (\<lambda>i. r div int n + (if int i < r mod int n then 1 else 0)) [0 ..< n]) = r"
proof -
  have "sum_list (map (\<lambda>i. r div int n + (if int i < r mod int n then 1 else 0)) [0 ..< n]) =
      int n * (r div int n) + (\<Sum>i = 0 ..< n. if int i < r mod int n then 1 else 0)"
    by (simp add: sum_list_addf sum_list_triv interv_sum_list_conv_sum_set_nat)
  also have "(\<Sum>i = 0 ..< n. if int i < r mod int n then (1::int) else 0) = int (card {i \<in> {0 ..< n}. int i < r mod int n})"
    by (simp add: sum.If_cases Int_def)
  also have "{i \<in> {0 ..< n}. int i < r mod int n} = {0 ..< nat (r mod int n)}"
  proof -
    have "i < n" if "i < nat (r mod int n)" for i
      using that assms pos_mod_bound [of "int n" r] by linarith
    then show ?thesis by (auto simp: zless_nat_eq_int_zless)
  qed
  also have "int n * (r div int n) + int (card {0 ..< nat (r mod int n)}) = r"
    using assms by simp
  finally show ?thesis .
qed

text \<open>Fewer streams than there is room for are shared out evenly; for more there are as many full groups as it takes.\<close>

lemma even_groups:
  assumes "0 < l" "l \<le> r" "r \<le> l * p" "0 < p"
  shows "sum_list (map (\<lambda>i. r div l + (if int i < r mod l then 1 else 0)) [0 ..< nat l]) = r \<and>
    set (map (\<lambda>i. r div l + (if int i < r mod l then 1 else 0)) [0 ..< nat l]) \<subseteq> {1 .. p}"
proof -
  have one: "1 \<le> r div l" using assms(1,2) zdiv_mono1 [of l r l] by simp
  have le: "r div l + (if int i < r mod l then 1 else 0) \<le> p" for i
  proof (cases "r = l * p")
    case True
    then show ?thesis using assms(1) by simp
  next
    case False
    have "l * (r div l) \<le> r" using mult_div_mod_eq [of l r] pos_mod_sign [OF assms(1), of r] by linarith
    then have "l * (r div l) < l * p" using assms(3) False by linarith
    then have "r div l < p" using assms(1) mult_less_cancel_left_pos by blast
    then show ?thesis by simp
  qed
  have "sum_list (map (\<lambda>i. r div l + (if int i < r mod l then 1 else 0)) [0 ..< nat l]) = r"
    using even_split_sum [of "nat l" r] assms(1) by simp
  then show ?thesis using one le by auto
qed

lemma full_groups:
  assumes "0 < l" "0 < p" "l * p < r"
  shows "sum_list (fullGroups p (nat ((r - 1) div p + 1)) r) = r \<and>
    set (fullGroups p (nat ((r - 1) div p + 1)) r) \<subseteq> {1 .. p} \<and>
    l \<le> int (length (fullGroups p (nat ((r - 1) div p + 1)) r)) \<and> 0 < r \<and> l \<le> r"
proof -
  let ?n = "nat ((r - 1) div p + 1)"
  have r: "0 < r" using assms by (smt (verit) mult_pos_pos)
  have n: "int ?n = (r - 1) div p + 1" using r assms(2) by (simp add: pos_imp_zdiv_nonneg_iff)
  have q: "(r - 1) div p * p \<le> r - 1" "r - 1 < (r - 1) div p * p + p"
    using assms(2) div_mult_mod_eq [of "r - 1" p] pos_mod_sign [of p] pos_mod_bound [of p] by (smt (verit))+
  have "int ?n * p - p < r" "r \<le> int ?n * p" unfolding n using q by (simp_all add: algebra_simps)
  note f = fullGroups_props [OF assms(2) this]
  have "l \<le> (r - 1) div p" using assms(2,3) zdiv_mono1 [of "l * p" "r - 1" p] by simp
  then have "l \<le> int ?n" "?n \<noteq> 0" using n assms(1) by linarith+
  moreover have "l \<le> r" using assms by (smt (verit) mult_le_cancel_left1)
  ultimately show ?thesis using f r by simp
qed

text \<open>
  The streams asked for are shared out exactly: every group has between one and a credential's
  full capacity, no link goes without a group, and together they have the number asked for (at
  least one per link; a credential's capacity per link when nothing was asked for).
\<close>

theorem groups_share_out_the_streams:
  "sum_list (groupStreamCounts links perCred requested) =
     (if requested \<le> 0 then max links 1 * max perCred 1 else max requested (max links 1)) \<and>
   set (groupStreamCounts links perCred requested) \<subseteq> {1 .. max perCred 1} \<and>
   max links 1 \<le> int (length (groupStreamCounts links perCred requested))"
proof -
  obtain l p where l: "l = max links 1" "0 < l" and p: "p = max perCred 1" "0 < p" by fastforce
  consider (exact) "requested \<le> 0 \<or> requested = l * p" | (less) "0 < requested" "requested < l * p"
    | (more) "l * p < requested" by linarith
  then have "sum_list (groupStreamCounts links perCred requested) = (if requested \<le> 0 then l * p else max requested l) \<and>
      set (groupStreamCounts links perCred requested) \<subseteq> {1 .. p} \<and> l \<le> int (length (groupStreamCounts links perCred requested))"
  proof cases
    case exact
    moreover have "l \<le> l * p" "0 < l * p" using l(2) p(2) by simp_all
    moreover have "groupStreamCounts links perCred requested = replicate (nat l) p"
      using exact by (simp add: groupStreamCounts_def Let_def flip: l(1) p(1))
    ultimately show ?thesis using l(2) p(2) by (auto simp: sum_list_replicate)
  next
    case less
    then have "groupStreamCounts links perCred requested =
        map (\<lambda>i. max requested l div l + (if int i < max requested l mod l then 1 else 0)) [0 ..< nat l]"
      by (simp add: groupStreamCounts_def Let_def flip: l(1) p(1))
    moreover have "max requested l \<le> l * p" using less l(2) p(2) by simp
    ultimately show ?thesis using even_groups [OF l(2) _ _ p(2), of "max requested l"] less l(2) by simp
  next
    case more
    have "0 < requested" using more l p by (smt (verit) mult_pos_pos)
    then have "groupStreamCounts links perCred requested = fullGroups p (nat ((requested - 1) div p + 1)) requested"
      using more by (simp add: groupStreamCounts_def Let_def flip: l(1) p(1))
    then show ?thesis using full_groups [OF l(2) p(2) more] more l p by (auto simp: max_def)
  qed
  then show ?thesis by (simp add: l p)
qed

end
