(* ===== verification/RelayLoss.thy ===== *)
theory RelayLoss
  imports Complex_Main GoBytes
begin

text \<open>
  The downlink loss per relay (\<open>pkg/proxy/relay_loss.go\<close>). The state is \<open>relayLoss\<close>: the
  ring of counters seen, one entry per counter modulo its size, and per relay the packets
  delivered and lost in the window. The ring's arrays are functions from the slot. Counters are
  natural numbers; theory RelayLossProps shows they stay far enough from the top of \<open>uint64\<close> that
  no sum of the code wraps. \<open>float64\<close> rates are exact rationals.
\<close>

definition relayLossRing :: nat where "relayLossRing = 4096"
definition relayLossHorizon :: nat where "relayLossHorizon = 1024"
definition relayLossIdleFlush :: duration where "relayLossIdleFlush = 500 * millisecond"
definition relayLossNewKeypair :: nat where "relayLossNewKeypair = 256"
definition relayLossChunk :: nat where "relayLossChunk = 8"

text \<open>\<open>device.RejectAfterMessages\<close> of wireguard-go.\<close>

definition RejectAfterMessages :: nat where "RejectAfterMessages = 2 ^ 64 - 2 ^ 13 - 1"

declare relayLossRing_def [go_consts] relayLossHorizon_def [go_consts] relayLossIdleFlush_def [go_consts]
  relayLossNewKeypair_def [go_consts] relayLossChunk_def [go_consts]

record relayLossSample =
  sRelay :: string
  sRx :: nat
  sLost :: nat
  sActive :: nat

definition rate :: "relayLossSample \<Rightarrow> rat" where
  "rate s = (if sRx s + sLost s = 0 then 0 else of_nat (sLost s) / of_nat (sRx s + sLost s))"

record relayLoss =
  receiver :: nat
  haveKeypair :: bool
  leftKeypair :: nat
  hasLeft :: bool
  lossBase :: nat
  lossTop :: nat
  seenAt :: "nat \<Rightarrow> nat"
  relayOf :: "nat \<Rightarrow> nat"
  lastRelay :: nat
  lastOK :: bool
  openGap :: nat
  unplacedLost :: nat
  lastAt :: gtime
  relayNames :: "string list"
  relayIndex :: "(string \<times> nat) list"
  rxCount :: "nat list"
  lostCount :: "nat list"
  activeCount :: "nat list"
  lastSec :: "int list"

definition newRelayLoss :: relayLoss where
  "newRelayLoss = \<lparr>receiver = 0, haveKeypair = False, leftKeypair = 0, hasLeft = False, lossBase = 0, lossTop = 0,
     seenAt = (\<lambda>_. 0), relayOf = (\<lambda>_. 0), lastRelay = 0, lastOK = False, openGap = 0, unplacedLost = 0,
     lastAt = zero_time, relayNames = [], relayIndex = [], rxCount = [], lostCount = [], activeCount = [], lastSec = []\<rparr>"

text \<open>\<open>relayOf\<close> is the one field a reset leaves as it was: \<open>seenAt\<close> guards every read of it.\<close>

definition resetRelayLoss :: "relayLoss \<Rightarrow> relayLoss" where
  "resetRelayLoss t = newRelayLoss\<lparr>relayOf := relayOf t\<rparr>"

definition relayIndexLocked :: "relayLoss \<Rightarrow> string \<Rightarrow> nat \<times> relayLoss" where
  "relayIndexLocked t addr = (case map_of (relayIndex t) addr of
     Some i \<Rightarrow> (i, t)
   | None \<Rightarrow>
       let i = length (relayNames t)
       in (i, t\<lparr>relayIndex := mput addr i (relayIndex t), relayNames := relayNames t @ [addr], rxCount := rxCount t @ [0],
                lostCount := lostCount t @ [0], activeCount := activeCount t @ [0], lastSec := lastSec t @ [0]\<rparr>))"

definition placeGapLocked :: "relayLoss \<Rightarrow> nat \<Rightarrow> relayLoss" where
  "placeGapLocked t next =
    (let t = (if openGap t = 0 then t
              else if lastOK t \<and> lastRelay t = next \<and> openGap t < relayLossChunk
              then t\<lparr>lostCount := (lostCount t)[next := lostCount t ! next + openGap t]\<rparr>
              else t\<lparr>unplacedLost := unplacedLost t + openGap t\<rparr>)
     in t\<lparr>openGap := 0\<rparr>)"

text \<open>One turn of the loop of \<open>finalizeLocked\<close>, and the loop: it runs \<open>upTo - lossBase\<close> times.\<close>

definition settleOne :: "relayLoss \<Rightarrow> relayLoss" where
  "settleOne t =
    (let slot = lossBase t mod relayLossRing
     in if seenAt t slot = lossBase t + 1
        then let n = relayOf t slot;
                 t = placeGapLocked t n;
                 t = t\<lparr>lastRelay := n, lastOK := True\<rparr>
          in t\<lparr>rxCount := (rxCount t)[n := rxCount t ! n + 1], seenAt := (seenAt t)(slot := 0), lossBase := lossBase t + 1\<rparr>
        else t\<lparr>openGap := openGap t + 1, lossBase := lossBase t + 1\<rparr>)"

definition finalizeLocked :: "relayLoss \<Rightarrow> nat \<Rightarrow> relayLoss" where
  "finalizeLocked t upTo = (settleOne ^^ (upTo - lossBase t)) t"

text \<open>\<open>observe\<close>, in the code's order: what is no transport packet or no counter of a peer, the
  switch of keypairs, the counters out of the ring, and the booking.\<close>

definition switchKeypair :: "relayLoss \<Rightarrow> nat \<Rightarrow> relayLoss" where
  "switchKeypair t rcv =
    (let t = finalizeLocked t (lossTop t);
         t = (if haveKeypair t then t\<lparr>leftKeypair := receiver t, hasLeft := True\<rparr> else t)
     in t\<lparr>receiver := rcv, haveKeypair := True, lossBase := 0, lossTop := 0, seenAt := (\<lambda>_. 0)\<rparr>)"

definition bookCounter :: "relayLoss \<Rightarrow> nat \<Rightarrow> string \<Rightarrow> gtime \<Rightarrow> relayLoss" where
  "bookCounter t ctr addr now =
    (if ctr < lossBase t then t
     else let t = (if ctr \<ge> lossBase t + relayLossRing
                   then let b = ctr + 1 - relayLossHorizon
                     in t\<lparr>lossBase := b, seenAt := (\<lambda>_. 0), lossTop := max (lossTop t) b\<rparr>
                   else t);
              slot = ctr mod relayLossRing;
              (idx, t) = relayIndexLocked t addr;
              sec = now div second;
              t = (if lastSec t ! idx \<noteq> sec
                   then t\<lparr>lastSec := (lastSec t)[idx := sec], activeCount := (activeCount t)[idx := activeCount t ! idx + 1]\<rparr>
                   else t);
              t = t\<lparr>seenAt := (seenAt t)(slot := ctr + 1), relayOf := (relayOf t)(slot := idx),
                    lossTop := max (lossTop t) (ctr + 1)\<rparr>
       in if lossTop t > relayLossHorizon then finalizeLocked t (lossTop t - relayLossHorizon) else t)"

definition observe :: "relayLoss \<Rightarrow> byte list \<Rightarrow> string \<Rightarrow> gtime \<Rightarrow> relayLoss" where
  "observe t pkt addr now =
    (if length pkt < 16 \<or> pkt ! 0 \<noteq> 4 \<or> addr = [] then t
     else let rcv = leNat (slice 4 8 pkt); ctr = leNat (slice 8 16 pkt)
       in if ctr \<ge> RejectAfterMessages then t
          else let t = t\<lparr>lastAt := now\<rparr>
            in if \<not> haveKeypair t \<or> rcv \<noteq> receiver t
               then if haveKeypair t \<and> (ctr \<ge> relayLossNewKeypair \<or> (hasLeft t \<and> rcv = leftKeypair t)) then t
                    else bookCounter (switchKeypair t rcv) ctr addr now
               else bookCounter t ctr addr now)"

definition takeLoss :: "relayLoss \<Rightarrow> gtime \<Rightarrow> relayLossSample list \<times> nat \<times> relayLoss" where
  "takeLoss t now =
    (let t = (if haveKeypair t \<and> tsub now (lastAt t) \<ge> relayLossIdleFlush then finalizeLocked t (lossTop t) else t);
         out = map (\<lambda>i. \<lparr>sRelay = relayNames t ! i, sRx = rxCount t ! i, sLost = lostCount t ! i, sActive = activeCount t ! i\<rparr>)
                 (filter (\<lambda>i. rxCount t ! i + lostCount t ! i > 0) [0 ..< length (relayNames t)]);
         zero = map (\<lambda>_. 0) (relayNames t)
     in (out, unplacedLost t, t\<lparr>unplacedLost := 0, rxCount := zero, lostCount := zero, activeCount := zero\<rparr>))"

end
