(* ===== verification/RelayLossProps.thy ===== *)
theory RelayLossProps
  imports RelayLoss
begin

text \<open>
  What the loss book promises: the counters stay where no sum of the code wraps, every settled
  counter is accounted for once, and no relay is charged with more than a chunk allows.
\<close>

definition tableInv :: "relayLoss \<Rightarrow> bool" where
  "tableInv t \<longleftrightarrow>
     length (rxCount t) = length (relayNames t) \<and> length (lostCount t) = length (relayNames t) \<and>
     length (activeCount t) = length (relayNames t) \<and> length (lastSec t) = length (relayNames t) \<and>
     (\<forall>a i. map_of (relayIndex t) a = Some i \<longrightarrow> i < length (relayNames t) \<and> relayNames t ! i = a) \<and>
     (\<forall>s. seenAt t s \<noteq> 0 \<longrightarrow> relayOf t s < length (relayNames t)) \<and>
     (\<forall>i < length (relayNames t). lostCount t ! i \<le> 7 * rxCount t ! i)"

definition rangeInv :: "relayLoss \<Rightarrow> bool" where
  "rangeInv t \<longleftrightarrow> lossBase t \<le> lossTop t \<and> lossTop t \<le> lossBase t + relayLossHorizon \<and>
     lossTop t \<le> RejectAfterMessages"

text \<open>The counters settled and counted on some relay or on none, and the gap still open.\<close>

definition counted :: "relayLoss \<Rightarrow> nat" where
  "counted t = sum_list (rxCount t) + sum_list (lostCount t) + unplacedLost t + openGap t"

lemma sum_list_upd: "i < length xs \<Longrightarrow> sum_list (xs[i := xs ! i + n]) = sum_list xs + (n :: nat)"
  by (induction xs arbitrary: i) (auto split: nat.split)

section \<open>Settling\<close>

lemma settleOne_fields [simp]:
  "lossBase (settleOne t) = lossBase t + 1" "lossTop (settleOne t) = lossTop t"
  "haveKeypair (settleOne t) = haveKeypair t" "receiver (settleOne t) = receiver t"
  "relayNames (settleOne t) = relayNames t" "lastAt (settleOne t) = lastAt t"
  by (simp_all add: settleOne_def placeGapLocked_def Let_def)

lemma settleOne_counted:
  assumes "tableInv t"
  shows "counted (settleOne t) = counted t + 1"
proof (cases "seenAt t (lossBase t mod relayLossRing) = lossBase t + 1")
  case True
  then have n: "relayOf t (lossBase t mod relayLossRing) < length (relayNames t)"
    using assms by (simp add: tableInv_def)
  with True assms show ?thesis
    by (simp add: settleOne_def placeGapLocked_def Let_def counted_def tableInv_def sum_list_upd
        sum_list_upd [where n = 1, simplified])
next
  case False
  then show ?thesis by (simp add: settleOne_def Let_def counted_def)
qed

lemma settleOne_inv:
  assumes "tableInv t"
  shows "tableInv (settleOne t)"
proof (cases "seenAt t (lossBase t mod relayLossRing) = lossBase t + 1")
  case True
  let ?n = "relayOf t (lossBase t mod relayLossRing)"
  have n: "?n < length (relayNames t)" using True assms by (simp add: tableInv_def)
  then have l: "lostCount t ! ?n \<le> 7 * rxCount t ! ?n"
    using assms by (simp add: tableInv_def)
  then have l1: "lostCount t ! ?n \<le> 7 + 7 * rxCount t ! ?n"
    and l2: "openGap t < 8 \<Longrightarrow> lostCount t ! ?n + openGap t \<le> 7 + 7 * rxCount t ! ?n" by linarith+
  show ?thesis using n True assms
    by (auto simp: l1 l2 settleOne_def placeGapLocked_def Let_def tableInv_def nth_list_update relayLossChunk_def)
next
  case False
  with assms show ?thesis by (simp add: settleOne_def Let_def tableInv_def)
qed

lemma settle_many:
  assumes "tableInv t"
  shows "tableInv ((settleOne ^^ n) t) \<and> counted ((settleOne ^^ n) t) = counted t + n \<and>
    lossBase ((settleOne ^^ n) t) = lossBase t + n \<and> lossTop ((settleOne ^^ n) t) = lossTop t \<and>
    haveKeypair ((settleOne ^^ n) t) = haveKeypair t \<and> receiver ((settleOne ^^ n) t) = receiver t \<and>
    relayNames ((settleOne ^^ n) t) = relayNames t \<and> lastAt ((settleOne ^^ n) t) = lastAt t"
  by (induction n) (use assms in \<open>auto simp: settleOne_inv settleOne_counted\<close>)

lemma finalize:
  assumes "tableInv t"
  shows "tableInv (finalizeLocked t u)" "counted (finalizeLocked t u) = counted t + (u - lossBase t)"
    "lossBase (finalizeLocked t u) = max (lossBase t) u" "lossTop (finalizeLocked t u) = lossTop t"
    "haveKeypair (finalizeLocked t u) = haveKeypair t" "receiver (finalizeLocked t u) = receiver t"
    "relayNames (finalizeLocked t u) = relayNames t" "lastAt (finalizeLocked t u) = lastAt t"
  using settle_many [OF assms, of "u - lossBase t"] by (auto simp: finalizeLocked_def)

section \<open>Booking\<close>

lemma relayIndex_inv:
  assumes "tableInv t" "relayIndexLocked t a = (i, t')"
  shows "tableInv t'" "i < length (relayNames t')" "counted t' = counted t" "lossBase t' = lossBase t"
    "lossTop t' = lossTop t" "haveKeypair t' = haveKeypair t" "receiver t' = receiver t"
    "seenAt t' = seenAt t" "relayOf t' = relayOf t"
proof -
  show "tableInv t'" "i < length (relayNames t')"
    using assms
    by (auto simp: relayIndexLocked_def Let_def tableInv_def nth_append less_Suc_eq
        split: option.splits if_splits)
qed (use assms in \<open>auto simp: relayIndexLocked_def Let_def counted_def split: option.splits\<close>)

definition jumps :: "relayLoss \<Rightarrow> nat \<Rightarrow> bool" where
  "jumps t ctr \<longleftrightarrow> lossBase t + relayLossRing \<le> ctr"

lemma book:
  assumes "tableInv t" "rangeInv t" "ctr < RejectAfterMessages"
  shows "tableInv (bookCounter t ctr a now) \<and> rangeInv (bookCounter t ctr a now) \<and>
    haveKeypair (bookCounter t ctr a now) = haveKeypair t \<and> receiver (bookCounter t ctr a now) = receiver t \<and>
    (\<not> jumps t ctr \<longrightarrow> counted (bookCounter t ctr a now) + lossBase t = counted t + lossBase (bookCounter t ctr a now))"
proof (cases "ctr < lossBase t")
  case True
  with assms show ?thesis by (simp add: bookCounter_def)
next
  case False
  obtain t1 where t1: "t1 = (if ctr \<ge> lossBase t + relayLossRing
      then t\<lparr>lossBase := ctr + 1 - relayLossHorizon, seenAt := (\<lambda>_. 0), lossTop := max (lossTop t) (ctr + 1 - relayLossHorizon)\<rparr>
      else t)" by simp
  have i1: "tableInv t1" using assms(1) by (auto simp: t1 tableInv_def)
  have r1: "lossBase t1 \<le> lossTop t1" "lossTop t1 \<le> lossBase t1 + relayLossHorizon" "lossTop t1 \<le> RejectAfterMessages"
    "lossBase t1 \<le> ctr" "ctr < lossBase t1 + relayLossRing"
    using assms(2,3) False by (auto simp: t1 rangeInv_def go_consts)
  have k1: "haveKeypair t1 = haveKeypair t" "receiver t1 = receiver t" by (simp_all add: t1)
  have j1: "\<not> jumps t ctr \<Longrightarrow> t1 = t" by (simp add: t1 jumps_def)
  obtain i t2 where t2: "relayIndexLocked t1 a = (i, t2)" by (cases "relayIndexLocked t1 a")
  note x = relayIndex_inv [OF i1 t2]
  obtain t3 where t3: "t3 = (if lastSec t2 ! i \<noteq> now div second
      then t2\<lparr>lastSec := (lastSec t2)[i := now div second], activeCount := (activeCount t2)[i := activeCount t2 ! i + 1]\<rparr>
      else t2)" by simp
  obtain t4 where t4: "t4 = t3\<lparr>seenAt := (seenAt t3)(ctr mod relayLossRing := ctr + 1),
      relayOf := (relayOf t3)(ctr mod relayLossRing := i), lossTop := max (lossTop t3) (ctr + 1)\<rparr>" by simp
  have i4: "tableInv t4" using x(1,2) by (auto simp: t4 t3 tableInv_def)
  have f4: "counted t4 = counted t1" "lossBase t4 = lossBase t1" "lossTop t4 = max (lossTop t1) (ctr + 1)"
    "haveKeypair t4 = haveKeypair t" "receiver t4 = receiver t"
    using x k1 by (auto simp: t4 t3 counted_def)
  have b: "bookCounter t ctr a now =
      (if lossTop t4 > relayLossHorizon then finalizeLocked t4 (lossTop t4 - relayLossHorizon) else t4)"
    unfolding bookCounter_def Let_def t1 [symmetric] t2 prod.case t3 [symmetric] t4 [symmetric]
    using False by simp
  obtain t5 where t5: "t5 = bookCounter t ctr a now" by simp
  have i5: "tableInv t5" "haveKeypair t5 = haveKeypair t" "receiver t5 = receiver t" "lossTop t5 = lossTop t4"
    "lossBase t5 = max (lossBase t1) (lossTop t4 - relayLossHorizon)"
    "counted t5 = counted t1 + (lossTop t4 - relayLossHorizon - lossBase t1)"
  proof -
    note f = finalize [OF i4, of "lossTop t4 - relayLossHorizon"]
    have t5': "t5 = (if lossTop t4 > relayLossHorizon then finalizeLocked t4 (lossTop t4 - relayLossHorizon) else t4)"
      unfolding t5 by (rule b)
    show "tableInv t5" unfolding t5' using f(1) i4 by (cases "lossTop t4 > relayLossHorizon") simp_all
    show "haveKeypair t5 = haveKeypair t" unfolding t5' f4(4) [symmetric] using f(5) by (cases "lossTop t4 > relayLossHorizon") simp_all
    show "receiver t5 = receiver t" unfolding t5' f4(5) [symmetric] using f(6) by (cases "lossTop t4 > relayLossHorizon") simp_all
    show "lossTop t5 = lossTop t4" unfolding t5' using f(4) by (cases "lossTop t4 > relayLossHorizon") simp_all
    show "lossBase t5 = max (lossBase t1) (lossTop t4 - relayLossHorizon)"
      unfolding t5' f4(2) [symmetric] using f(3) by (cases "lossTop t4 > relayLossHorizon") simp_all
    show "counted t5 = counted t1 + (lossTop t4 - relayLossHorizon - lossBase t1)"
      unfolding t5' f4(1,2) [symmetric] using f(2) by (cases "lossTop t4 > relayLossHorizon") simp_all
  qed
  have "lossTop t4 \<le> RejectAfterMessages" using f4(3) r1(3) assms(3) by simp
  then have "rangeInv t5"
    unfolding rangeInv_def i5 using f4(3) r1 by (intro conjI; linarith)
  moreover have "counted t5 + lossBase t1 = counted t1 + lossBase t5"
    unfolding i5 by linarith
  ultimately show ?thesis using i5(1-3) j1 unfolding t5 [symmetric] by blast
qed

lemma switch_inv:
  assumes "tableInv t"
  shows "tableInv (switchKeypair t r)" "rangeInv (switchKeypair t r)" "receiver (switchKeypair t r) = r" "haveKeypair (switchKeypair t r)"
    "lossBase (switchKeypair t r) = 0" "counted (switchKeypair t r) = counted t + (lossTop t - lossBase t)"
  using finalize [OF assms, of "lossTop t"]
  by (auto simp: switchKeypair_def Let_def tableInv_def rangeInv_def counted_def)

lemma observe_inv:
  assumes "tableInv t" "rangeInv t"
  shows "tableInv (observe t pkt a now) \<and> rangeInv (observe t pkt a now)"
proof -
  have a: "tableInv (t\<lparr>lastAt := now\<rparr>)" "rangeInv (t\<lparr>lastAt := now\<rparr>)"
    using assms by (simp_all add: tableInv_def rangeInv_def)
  show ?thesis
    using assms a book [OF a] book [OF switch_inv(1,2) [OF a(1)]]
    by (auto simp: observe_def Let_def)
qed

lemma take_inv:
  assumes "tableInv t" "rangeInv t"
  shows "tableInv (snd (snd (takeLoss t now)))" "rangeInv (snd (snd (takeLoss t now)))"
  using assms finalize [OF assms(1), of "lossTop t"]
  by (auto simp: takeLoss_def Let_def tableInv_def rangeInv_def go_consts)


section \<open>Runs\<close>

datatype lossEvent = Packet "byte list" string gtime | Window gtime

text \<open>A run of the book: what its windows reported, delivered, lost and unplaced together, and
  the book it ends with.\<close>

fun lossRun :: "relayLoss \<Rightarrow> lossEvent list \<Rightarrow> nat \<times> relayLoss" where
  "lossRun t [] = (0, t)"
| "lossRun t (Packet p a now # es) = lossRun (observe t p a now) es"
| "lossRun t (Window now # es) =
    (let (out, un, t') = takeLoss t now; (n, t'') = lossRun t' es
     in (sum_list (map (\<lambda>s. sRx s + sLost s) out) + un + n, t''))"

lemma lossRun_inv: "tableInv t \<Longrightarrow> rangeInv t \<Longrightarrow> tableInv (snd (lossRun t es)) \<and> rangeInv (snd (lossRun t es))"
proof (induction t es rule: lossRun.induct)
  case (3 t now es)
  obtain out un t' where t': "takeLoss t now = (out, un, t')" by (metis prod_cases3)
  with take_inv [OF 3(2,3), of now] have "tableInv t'" "rangeInv t'" by simp_all
  from 3(1) [OF t'[symmetric] refl refl this] show ?case by (simp add: t' split_beta)
qed (simp_all add: observe_inv)

lemma new_inv: "tableInv newRelayLoss" "rangeInv newRelayLoss"
  by (simp_all add: newRelayLoss_def tableInv_def rangeInv_def)

text \<open>
  Whatever packets arrive on whatever relay, the book never charges a relay with more than
  seven lost packets for each one it delivered, so no relay reads as losing more than seven of
  eight; and its counters stay so far below \<open>2 ^ 64\<close> that no sum or difference of the code wraps.
\<close>

theorem loss_book_bounds:
  assumes "snd (lossRun newRelayLoss es) = t" "(out, un, t') = takeLoss t now" "s \<in> set out"
  shows "sLost s \<le> 7 * sRx s \<and> rate s \<le> 7 / 8 \<and>
    lossBase t \<le> lossTop t \<and> lossTop t - lossBase t \<le> relayLossHorizon \<and>
    lossTop t + relayLossRing + 1 < 2 ^ 64"
proof -
  have inv: "tableInv t" "rangeInv t" using lossRun_inv [OF new_inv, of es] assms(1) by simp_all
  let ?t = "if haveKeypair t \<and> tsub now (lastAt t) \<ge> relayLossIdleFlush then finalizeLocked t (lossTop t) else t"
  have "tableInv ?t" using inv(1) finalize(1) [OF inv(1)] by simp
  then have "\<forall>i < length (relayNames ?t). lostCount ?t ! i \<le> 7 * rxCount ?t ! i" by (simp add: tableInv_def)
  moreover have "out = map (\<lambda>i. \<lparr>sRelay = relayNames ?t ! i, sRx = rxCount ?t ! i, sLost = lostCount ?t ! i,
      sActive = activeCount ?t ! i\<rparr>) (filter (\<lambda>i. rxCount ?t ! i + lostCount ?t ! i > 0) [0 ..< length (relayNames ?t)])"
    using assms(2) by (simp add: takeLoss_def Let_def)
  ultimately have l: "sLost s \<le> 7 * sRx s" using assms(3) by auto
  have "rate s \<le> 7 / 8"
  proof (cases "sRx s + sLost s = 0")
    case False
    have "(of_nat (sLost s) :: rat) \<le> of_nat (7 * sRx s)" using l by (simp only: of_nat_le_iff)
    then have "8 * of_nat (sLost s) \<le> 7 * (of_nat (sRx s) + of_nat (sLost s) :: rat)" by simp
    moreover have "0 < (of_nat (sRx s) + of_nat (sLost s) :: rat)"
      using False by (simp flip: of_nat_add)
    ultimately show ?thesis using False by (simp add: rate_def divide_le_eq)
  qed (simp add: rate_def)
  with l inv(2) show ?thesis by (auto simp: rangeInv_def go_consts RejectAfterMessages_def)
qed


section \<open>Conservation\<close>

lemma sum_list_nth: "sum_list (map (\<lambda>i. xs ! i) [0 ..< length xs]) = sum_list (xs :: nat list)"
  by (simp add: map_nth)

lemma sum_filter_pos: "sum_list (map f (filter (\<lambda>i. 0 < f i) is)) = sum_list (map (f :: nat \<Rightarrow> nat) is)"
  by (induction "is") auto

lemma take_counted:
  assumes "tableInv t" "rangeInv t" "takeLoss t now = (out, un, t')"
  shows "sum_list (map (\<lambda>s. sRx s + sLost s) out) + un + counted t' + lossBase t = counted t + lossBase t'"
    "haveKeypair t' = haveKeypair t" "receiver t' = receiver t" "\<not> haveKeypair t \<Longrightarrow> lossTop t' = lossTop t"
proof -
  let ?t = "if haveKeypair t \<and> tsub now (lastAt t) \<ge> relayLossIdleFlush then finalizeLocked t (lossTop t) else t"
  have i: "tableInv ?t" "counted ?t + lossBase t = counted t + lossBase ?t" "haveKeypair ?t = haveKeypair t"
    "receiver ?t = receiver t" "\<not> haveKeypair t \<Longrightarrow> lossTop ?t = lossTop t"
    using assms(1,2) finalize [OF assms(1), of "lossTop t"] by (auto simp: rangeInv_def)
  obtain u where u: "u = ?t" by simp
  let ?f = "\<lambda>i. rxCount u ! i + lostCount u ! i"
  have o: "out = map (\<lambda>i. \<lparr>sRelay = relayNames u ! i, sRx = rxCount u ! i, sLost = lostCount u ! i,
      sActive = activeCount u ! i\<rparr>) (filter (\<lambda>i. 0 < ?f i) [0 ..< length (relayNames u)])"
    and un: "un = unplacedLost u" and t': "t' = u\<lparr>unplacedLost := 0, rxCount := map (\<lambda>_. 0) (relayNames u),
       lostCount := map (\<lambda>_. 0) (relayNames u), activeCount := map (\<lambda>_. 0) (relayNames u)\<rparr>"
    using assms(3) unfolding u by (simp_all add: takeLoss_def Let_def)
  have l: "length (rxCount u) = length (relayNames u)" "length (lostCount u) = length (relayNames u)"
    using i(1) unfolding u by (simp_all add: tableInv_def)
  have "sum_list (map (\<lambda>s. sRx s + sLost s) out) = sum_list (map ?f (filter (\<lambda>i. 0 < ?f i) [0 ..< length (relayNames u)]))"
    unfolding o by (simp add: comp_def)
  also have "\<dots> = sum_list (map ?f [0 ..< length (relayNames u)])" by (rule sum_filter_pos)
  also have "\<dots> = sum_list (rxCount u) + sum_list (lostCount u)"
    unfolding sum_list_addf using sum_list_nth [of "rxCount u"] sum_list_nth [of "lostCount u"] l by simp
  finally have s: "sum_list (map (\<lambda>s. sRx s + sLost s) out) = sum_list (rxCount u) + sum_list (lostCount u)" .
  have "counted t' = openGap u" by (simp add: t' counted_def map_replicate_const)
  then show "sum_list (map (\<lambda>s. sRx s + sLost s) out) + un + counted t' + lossBase t = counted t + lossBase t'"
    using i(2) unfolding s un u [symmetric] by (simp add: counted_def [of u] t')
  show "haveKeypair t' = haveKeypair t" "receiver t' = receiver t" "\<not> haveKeypair t \<Longrightarrow> lossTop t' = lossTop t"
    using i(3-5) unfolding u [symmetric] by (simp_all add: t')
qed

text \<open>A run of one keypair whose counters never jump past the ring.\<close>

fun steady :: "nat \<Rightarrow> relayLoss \<Rightarrow> lossEvent list \<Rightarrow> bool" where
  "steady r t [] = True"
| "steady r t (Packet p a now # es) =
    (leNat (slice 4 8 p) = r \<and> \<not> jumps t (leNat (slice 8 16 p)) \<and> steady r (observe t p a now) es)"
| "steady r t (Window now # es) = steady r (snd (snd (takeLoss t now))) es"

definition oneKeypair :: "nat \<Rightarrow> relayLoss \<Rightarrow> bool" where
  "oneKeypair r t \<longleftrightarrow> tableInv t \<and> rangeInv t \<and>
     (if haveKeypair t then receiver t = r else counted t = 0 \<and> lossBase t = 0 \<and> lossTop t = 0)"

lemma oneKeypair_observe:
  assumes k: "oneKeypair r t" and r: "leNat (slice 4 8 p) = r" and j: "\<not> jumps t (leNat (slice 8 16 p))"
  shows "oneKeypair r (observe t p a now) \<and>
    counted (observe t p a now) + lossBase t = counted t + lossBase (observe t p a now)"
proof -
  have a: "tableInv (t\<lparr>lastAt := now\<rparr>)" "rangeInv (t\<lparr>lastAt := now\<rparr>)" "counted (t\<lparr>lastAt := now\<rparr>) = counted t"
    using k by (simp_all add: oneKeypair_def tableInv_def rangeInv_def counted_def)
  obtain c where c: "c = leNat (slice 8 16 p)" by simp
  have o: "observe t p a now = (if length p < 16 \<or> p ! 0 \<noteq> 4 \<or> a = [] \<or> RejectAfterMessages \<le> c then t
      else if haveKeypair t then bookCounter (t\<lparr>lastAt := now\<rparr>) c a now
      else bookCounter (switchKeypair (t\<lparr>lastAt := now\<rparr>) r) c a now)"
    unfolding observe_def Let_def r c [symmetric] using k by (simp add: oneKeypair_def)
  consider (skip) "observe t p a now = t"
    | (same) "c < RejectAfterMessages" "haveKeypair t" "observe t p a now = bookCounter (t\<lparr>lastAt := now\<rparr>) c a now"
    | (fresh) "c < RejectAfterMessages" "\<not> haveKeypair t"
        "observe t p a now = bookCounter (switchKeypair (t\<lparr>lastAt := now\<rparr>) r) c a now"
    unfolding o by (metis not_less)
  then show ?thesis
  proof cases
    case skip
    with k show ?thesis by simp
  next
    case same
    have "\<not> jumps (t\<lparr>lastAt := now\<rparr>) c" using j by (simp add: jumps_def c)
    with book [OF a(1,2) same(1), of a now] same(2,3) k a(3) show ?thesis by (simp add: oneKeypair_def)
  next
    case fresh
    let ?s = "switchKeypair (t\<lparr>lastAt := now\<rparr>) r"
    note s = switch_inv [OF a(1), of r]
    have "\<not> jumps ?s c" using j k fresh(2) s(5) by (simp add: jumps_def c oneKeypair_def)
    with book [OF s(1,2) fresh(1), of a now] fresh(2,3) k s(3-6) a(3) show ?thesis
      by (simp add: oneKeypair_def)
  qed
qed

lemma steady_counts:
  "oneKeypair r t \<Longrightarrow> steady r t es \<Longrightarrow> lossRun t es = (n, t') \<Longrightarrow>
   oneKeypair r t' \<and> n + counted t' + lossBase t = counted t + lossBase t'"
proof (induction t es arbitrary: n t' rule: lossRun.induct)
  case (2 t p a now es)
  have s: "leNat (slice 4 8 p) = r" "\<not> jumps t (leNat (slice 8 16 p))" "steady r (observe t p a now) es"
    using 2(3) by simp_all
  note o = oneKeypair_observe [OF 2(2) s(1,2), of a now]
  have "oneKeypair r t' \<and> n + counted t' + lossBase (observe t p a now) = counted (observe t p a now) + lossBase t'"
    using 2(1) [OF conjunct1 [OF o] s(3)] 2(4) by simp
  with o show ?case by linarith
next
  case (3 t now es)
  obtain out un u where u: "takeLoss t now = (out, un, u)" by (metis prod_cases3)
  obtain m t2 where m: "lossRun u es = (m, t2)" by fastforce
  have inv: "tableInv t" "rangeInv t" using 3(2) by (simp_all add: oneKeypair_def)
  note c = take_counted [OF inv u]
  have "oneKeypair r u"
    using 3(2) c take_inv [OF inv, of now] by (auto simp: oneKeypair_def u rangeInv_def)
  with 3(1) [OF u [symmetric] refl refl _ _ m] 3(3) u have "oneKeypair r t2 \<and> m + counted t2 + lossBase u = counted u + lossBase t2"
    by simp
  moreover have "t' = t2" "n = sum_list (map (\<lambda>s. sRx s + sLost s) out) + un + m" using 3(4) u m by simp_all
  ultimately show ?case using c(1) by simp
qed simp

text \<open>
  No counter is lost from the account and none is counted twice: over any run of one keypair
  whose counters do not jump past the ring, with duplicates and in any order, what the windows
  reported (delivered, lost on a relay, lost on none) and what the current window holds, with the gap
  still open, add up to the counters settled, and all but at most the horizon of those seen are settled.
\<close>

theorem every_settled_counter_counts_once:
  assumes "steady r newRelayLoss es" "lossRun newRelayLoss es = (reported, t)"
  shows "reported + counted t = lossBase t \<and> lossTop t - lossBase t \<le> relayLossHorizon"
proof -
  have "oneKeypair r newRelayLoss" using new_inv by (simp add: oneKeypair_def newRelayLoss_def counted_def)
  from steady_counts [OF this assms] show ?thesis
    by (auto simp: oneKeypair_def rangeInv_def newRelayLoss_def counted_def)
qed

definition wgPacket :: "nat \<Rightarrow> nat \<Rightarrow> byte list" where
  "wgPacket r c = [4, 0, 0, 0] @ putLE 4 r @ putLE 8 c"

definition fewPackets :: "lossEvent list" where
  "fewPackets = [Packet (wgPacket 7 0) ''a'' 0, Packet (wgPacket 7 2) ''a'' 0, Window (1 * second)]"

theorem every_settled_counter_counts_once_witness:
  "fst (lossRun newRelayLoss fewPackets) + counted (snd (lossRun newRelayLoss fewPackets)) = 3"
proof -
  have "steady 7 newRelayLoss fewPackets" by code_simp
  from every_settled_counter_counts_once [OF this, of "fst (lossRun newRelayLoss fewPackets)"
      "snd (lossRun newRelayLoss fewPackets)"]
  have "fst (lossRun newRelayLoss fewPackets) + counted (snd (lossRun newRelayLoss fewPackets)) =
      lossBase (snd (lossRun newRelayLoss fewPackets))" by simp
  also have "\<dots> = 3" by code_simp
  finally show ?thesis .
qed

theorem loss_book_bounds_witness:
  "sLost (fst (takeLoss (snd (lossRun newRelayLoss (take 2 fewPackets))) (1 * second)) ! 0) \<le>
    7 * sRx (fst (takeLoss (snd (lossRun newRelayLoss (take 2 fewPackets))) (1 * second)) ! 0)"
proof -
  let ?t = "snd (lossRun newRelayLoss (take 2 fewPackets))"
  let ?o = "fst (takeLoss ?t (1 * second))"
  have "length ?o = 1" by code_simp
  then have s: "?o ! 0 \<in> set ?o" by simp
  have "(?o, fst (snd (takeLoss ?t (1 * second))), snd (snd (takeLoss ?t (1 * second)))) = takeLoss ?t (1 * second)"
    by simp
  from loss_book_bounds [OF refl this s] show ?thesis by blast
qed

end
