(* ===== verification/RelayJudge.thy ===== *)
theory RelayJudge
  imports RelayLoss
begin

text \<open>
  The judges of the loss windows: which relay's downlink has gone bad against the others
  (\<open>pkg/proxy/relay_judge.go\<close>), which one collapsed (\<open>relay_collapse.go\<close>), which ones are losing
  in a window (\<open>lossyRelays\<close> of \<open>relay_move.go\<close>), and the small readers of a window in
  \<open>relay_rest.go\<close>. A judge keeps strikes per relay from window to window; what both promise of them
  is the locale \<open>strike_judge\<close>. The \<open>float64\<close> thresholds are the decimals written in the code.
\<close>

definition relayJudgeMinPackets :: nat where "relayJudgeMinPackets = 200"
definition relayJudgeMinLost :: nat where "relayJudgeMinLost = 10"
definition relayJudgeRatio :: rat where "relayJudgeRatio = 3"
definition relayJudgeMargin :: rat where "relayJudgeMargin = 2 / 100"
definition relayJudgeStrikes :: int where "relayJudgeStrikes = 2"
definition relayCollapseMaxRate :: rat where "relayCollapseMaxRate = 50"
definition relayCollapseMinLoss :: rat where "relayCollapseMinLoss = 3 / 100"
definition relayCollapseMinPackets :: nat where "relayCollapseMinPackets = 200"
definition relayCollapseMinActive :: nat where "relayCollapseMinActive = 8"
definition relayCollapseStrikes :: int where "relayCollapseStrikes = 2"
definition relayMoveLossyMargin :: rat where "relayMoveLossyMargin = 5 / 1000"
definition relayJudgeEvery :: duration where "relayJudgeEvery = 10 * second"

declare relayJudgeMinPackets_def [go_consts] relayJudgeMinLost_def [go_consts] relayJudgeRatio_def [go_consts]
  relayJudgeMargin_def [go_consts] relayJudgeStrikes_def [go_consts] relayCollapseMaxRate_def [go_consts]
  relayCollapseMinLoss_def [go_consts] relayCollapseMinPackets_def [go_consts]
  relayCollapseMinActive_def [go_consts] relayCollapseStrikes_def [go_consts]
  relayMoveLossyMargin_def [go_consts] relayJudgeEvery_def [go_consts]

type_synonym strikes = "(string \<times> int) list"

record relayVerdict =
  vRelay :: string
  vRate :: rat
  vBest :: rat

definition weighed :: "relayLossSample list \<Rightarrow> relayLossSample list" where
  "weighed samples = filter (\<lambda>s. sRx s + sLost s \<ge> relayJudgeMinPackets) samples"

definition bestRate :: "relayLossSample list \<Rightarrow> rat" where
  "bestRate cs = foldl (\<lambda>best s. min best (rate s)) (rate (hd cs)) (tl cs)"

fun judgeLoop :: "rat \<Rightarrow> relayLossSample list \<Rightarrow> strikes \<Rightarrow> relayVerdict list \<times> strikes" where
  "judgeLoop best [] k = ([], k)"
| "judgeLoop best (s # ss) k =
    (let r = rate s
     in if sLost s < relayJudgeMinLost \<or> r < relayJudgeRatio * best \<or> r - best < relayJudgeMargin
        then judgeLoop best ss (mdel (sRelay s) k)
        else let n = mcount k (sRelay s) + 1
          in if n \<ge> relayJudgeStrikes
             then (let (out, k) = judgeLoop best ss (mdel (sRelay s) k)
                   in (\<lparr>vRelay = sRelay s, vRate = r, vBest = best\<rparr> # out, k))
             else judgeLoop best ss (mput (sRelay s) n k))"

definition judgeStep :: "strikes \<Rightarrow> relayLossSample list \<Rightarrow> relayVerdict list \<times> strikes" where
  "judgeStep k samples =
    (let cs = weighed samples
     in if length cs < 2 then ([], if length cs = 1 then [] else k)
        else judgeLoop (bestRate cs) cs k)"

definition lossyRelays :: "relayLossSample list \<Rightarrow> string list" where
  "lossyRelays samples =
    (let cs = weighed samples
     in if length cs < 2 then []
        else map sRelay (filter (\<lambda>s. \<not> (sLost s = 0 \<or> rate s < relayJudgeRatio * bestRate cs
               \<or> rate s - bestRate cs < relayMoveLossyMargin)) cs))"

section \<open>Collapse\<close>

definition perStream :: "relayLossSample \<Rightarrow> duration \<Rightarrow> int \<Rightarrow> rat" where
  "perStream s window n = of_nat (sRx s) / (of_int window / 1000000000) / of_int n"

fun collapseLoop ::
    "relayLossSample list \<Rightarrow> (string \<times> int) list \<Rightarrow> duration \<Rightarrow> strikes \<Rightarrow> string list \<times> strikes" where
  "collapseLoop [] streams window k = ([], k)"
| "collapseLoop (s # ss) streams window k =
    (let n = mcount streams (sRelay s)
     in if n \<le> 0 \<or> sRx s + sLost s < relayCollapseMinPackets then collapseLoop ss streams window k
        else if sActive s < relayCollapseMinActive then collapseLoop ss streams window (mdel (sRelay s) k)
        else if perStream s window n \<ge> relayCollapseMaxRate \<or> rate s < relayCollapseMinLoss
        then collapseLoop ss streams window (mdel (sRelay s) k)
        else let m = mcount k (sRelay s) + 1
          in if m \<ge> relayCollapseStrikes
             then (let (out, k) = collapseLoop ss streams window (mdel (sRelay s) k) in (sRelay s # out, k))
             else collapseLoop ss streams window (mput (sRelay s) m k))"

definition collapseStep ::
    "strikes \<Rightarrow> relayLossSample list \<Rightarrow> (string \<times> int) list \<Rightarrow> duration \<Rightarrow> string list \<times> strikes" where
  "collapseStep k samples streams window =
    (if length (filter (\<lambda>s. sRx s + sLost s \<ge> relayJudgeMinPackets) samples) > 1 then ([], [])
     else let (out, k) = collapseLoop samples streams window k
       in (out, filter (\<lambda>(r, _). r \<in> sRelay ` set samples) k))"

section \<open>Readers\<close>

definition sampleFor :: "relayLossSample list \<Rightarrow> string \<Rightarrow> relayLossSample" where
  "sampleFor samples addr = (case find (\<lambda>s. sRelay s = addr) samples of
     Some s \<Rightarrow> s | None \<Rightarrow> \<lparr>sRelay = addr, sRx = 0, sLost = 0, sActive = 0\<rparr>)"

definition perStreamRate :: "relayLossSample \<Rightarrow> int \<Rightarrow> rat" where
  "perStreamRate s streams =
    (if streams \<le> 0 then 0 else of_nat (sRx s) / (of_int relayJudgeEvery / 1000000000) / of_int streams)"

definition anyRelayLossAbove :: "relayLossSample list \<Rightarrow> rat \<Rightarrow> bool" where
  "anyRelayLossAbove samples limit =
    list_ex (\<lambda>s. sRx s + sLost s \<ge> relayJudgeMinPackets \<and> rate s > limit) samples"

section \<open>The contract of a judge\<close>

text \<open>A judge weighs a window and returns the relays it speaks against. A window may strike a relay,
  clear its strikes, or say nothing of it.\<close>

locale strike_judge =
  fixes judge :: "strikes \<Rightarrow> 'w \<Rightarrow> string list \<times> strikes"
    and wf :: "'w \<Rightarrow> bool"
    and strikesIn :: "'w \<Rightarrow> string \<Rightarrow> bool"
    and clears :: "'w \<Rightarrow> string \<Rightarrow> bool"
  assumes spoken: "wf w \<Longrightarrow> a \<in> set (fst (judge k w)) \<Longrightarrow> strikesIn w a \<and> 1 \<le> mcount k a"
    and kept: "wf w \<Longrightarrow> mcount k a \<le> 0 \<Longrightarrow> 1 \<le> mcount (snd (judge k w)) a \<Longrightarrow> strikesIn w a"
    and cleared: "wf w \<Longrightarrow> clears w a \<Longrightarrow> mcount (snd (judge k w)) a \<le> 0"
begin

fun judged :: "strikes \<Rightarrow> 'w list \<Rightarrow> strikes" where
  "judged k [] = k"
| "judged k (w # ws) = judged (snd (judge k w)) ws"

lemma judged_append: "judged k (us @ ws) = judged (judged k us) ws"
  by (induction us arbitrary: k) auto

lemma strike_before:
  "\<forall>w \<in> set ws. wf w \<Longrightarrow> 1 \<le> mcount (judged [] ws) a \<Longrightarrow>
   \<exists>us w vs. ws = us @ w # vs \<and> strikesIn w a \<and> (\<forall>v \<in> set vs. \<not> clears v a)"
proof (induction ws rule: rev_induct)
  case (snoc w ws)
  have w: "wf w" and n: "1 \<le> mcount (snd (judge (judged [] ws) w)) a"
    using snoc.prems by (simp_all add: judged_append)
  then have nc: "\<not> clears w a" using cleared [OF w, of a "judged [] ws"] by auto
  show ?case
  proof (cases "1 \<le> mcount (judged [] ws) a")
    case True
    then obtain us w' vs where "ws = us @ w' # vs" "strikesIn w' a" "\<forall>v \<in> set vs. \<not> clears v a"
      using snoc by auto
    with nc show ?thesis by (intro exI [of _ us] exI [of _ w'] exI [of _ "vs @ [w]"]) auto
  next
    case False
    then have "strikesIn w a" using kept [OF w _ n] by simp
    then show ?thesis by (intro exI [of _ ws] exI [of _ w] exI [of _ "[]"]) simp
  qed
qed simp

lemma two_strikes:
  assumes "\<forall>w \<in> set (ws @ [w]). wf w" "a \<in> set (fst (judge (judged [] ws) w))"
  shows "strikesIn w a \<and> (\<exists>us w' vs. ws = us @ w' # vs \<and> strikesIn w' a \<and> (\<forall>v \<in> set vs. \<not> clears v a))"
  using spoken [of w a] strike_before [of ws a] assms by auto

end

section \<open>The judge of loss\<close>

definition worse :: "rat \<Rightarrow> relayLossSample \<Rightarrow> bool" where
  "worse best s \<longleftrightarrow> relayJudgeMinLost \<le> sLost s \<and> relayJudgeRatio * best \<le> rate s \<and> relayJudgeMargin \<le> rate s - best"

definition clearlyWorse :: "relayLossSample list \<Rightarrow> string \<Rightarrow> bool" where
  "clearlyWorse w a \<longleftrightarrow> 2 \<le> length (weighed w) \<and> (\<exists>s \<in> set (weighed w). sRelay s = a \<and> worse (bestRate (weighed w)) s)"

definition acquitted :: "relayLossSample list \<Rightarrow> string \<Rightarrow> bool" where
  "acquitted w a \<longleftrightarrow> length (weighed w) = 1 \<or>
     (2 \<le> length (weighed w) \<and> (\<exists>s \<in> set (weighed w). sRelay s = a \<and> \<not> worse (bestRate (weighed w)) s))"

abbreviation samplesOK :: "relayLossSample list \<Rightarrow> bool" where
  "samplesOK w \<equiv> distinct (map sRelay w)"

section \<open>The loop both judges run\<close>

text \<open>Per relay of the window: stand, clear or strike, and speak at the second strike.\<close>

fun strikeLoop ::
    "(relayLossSample \<Rightarrow> bool) \<Rightarrow> (relayLossSample \<Rightarrow> bool) \<Rightarrow> relayLossSample list \<Rightarrow> strikes \<Rightarrow> string list \<times> strikes" where
  "strikeLoop strike stand [] k = ([], k)"
| "strikeLoop strike stand (s # ss) k =
    (if stand s then strikeLoop strike stand ss k
     else if \<not> strike s then strikeLoop strike stand ss (mdel (sRelay s) k)
     else if mcount k (sRelay s) + 1 \<ge> 2
     then (sRelay s # fst (strikeLoop strike stand ss (mdel (sRelay s) k)),
           snd (strikeLoop strike stand ss (mdel (sRelay s) k)))
     else strikeLoop strike stand ss (mput (sRelay s) (mcount k (sRelay s) + 1) k))"

lemma judgeLoop_strikes:
  "(map vRelay (fst (judgeLoop best ss k)), snd (judgeLoop best ss k)) = strikeLoop (worse best) (\<lambda>_. False) ss k"
  by (induction ss arbitrary: k)
    (auto simp: worse_def Let_def split_beta relayJudgeStrikes_def not_le not_less prod_eq_iff)

lemma strikeLoop_other: "a \<notin> sRelay ` set ss \<Longrightarrow> mcount (snd (strikeLoop P Q ss k)) a = mcount k a"
  by (induction ss arbitrary: k) auto

lemma strikeLoop_mem:
  "samplesOK ss \<Longrightarrow> a \<in> set (fst (strikeLoop P Q ss k)) \<Longrightarrow>
   \<exists>s \<in> set ss. sRelay s = a \<and> P s \<and> \<not> Q s \<and> 1 \<le> mcount k a"
proof (induction ss arbitrary: k)
  case (Cons x ss)
  have d: "sRelay x \<notin> sRelay ` set ss" "samplesOK ss" using Cons.prems(1) by auto
  have tail: ?case if t: "a \<in> set (fst (strikeLoop P Q ss k'))" and k': "\<And>b. b \<noteq> sRelay x \<Longrightarrow> mcount k' b = mcount k b" for k'
  proof -
    obtain s where s: "s \<in> set ss" "sRelay s = a" "P s" "\<not> Q s" "1 \<le> mcount k' a"
      using Cons.IH [OF d(2) t] by blast
    then have "a \<noteq> sRelay x" using d(1) by (metis image_eqI)
    then have "mcount k' a = mcount k a" by (rule k')
    with s show ?thesis by (intro bexI [of _ s]) simp_all
  qed
  show ?case
  proof (cases "a = sRelay x \<and> P x \<and> \<not> Q x \<and> 1 \<le> mcount k a")
    case True
    then show ?thesis by auto
  next
    case False
    then have "a \<in> set (fst (strikeLoop P Q ss k)) \<or> a \<in> set (fst (strikeLoop P Q ss (mdel (sRelay x) k))) \<or>
        a \<in> set (fst (strikeLoop P Q ss (mput (sRelay x) (mcount k (sRelay x) + 1) k)))"
      using Cons.prems(2) by (auto split: if_splits)
    then show ?thesis by (elim disjE) (erule tail, simp)+
  qed
qed simp

lemma strikeLoop_count:
  "samplesOK ss \<Longrightarrow> s \<in> set ss \<Longrightarrow> mcount (snd (strikeLoop P Q ss k)) (sRelay s) =
     (if Q s then mcount k (sRelay s)
      else if P s \<and> mcount k (sRelay s) + 1 < 2 then mcount k (sRelay s) + 1 else 0)"
  by (induction ss arbitrary: k) (auto simp: strikeLoop_other image_iff)

lemma strikeLoop_kept:
  assumes "samplesOK ss" "mcount k a \<le> 0" "1 \<le> mcount (snd (strikeLoop P Q ss k)) a"
  shows "\<exists>s \<in> set ss. sRelay s = a \<and> P s \<and> \<not> Q s"
proof -
  have "a \<in> sRelay ` set ss" using assms(2,3) strikeLoop_other [of a ss P Q k] by fastforce
  then obtain s where s: "s \<in> set ss" "sRelay s = a" by blast
  with strikeLoop_count [OF assms(1) s(1), of P Q k] assms(2,3) show ?thesis
    by (intro bexI [of _ s]) (auto split: if_splits)
qed

lemma samplesOK_weighed: "samplesOK w \<Longrightarrow> samplesOK (weighed w)"
  by (simp add: weighed_def distinct_map inj_on_def)

definition judgeNames :: "strikes \<Rightarrow> relayLossSample list \<Rightarrow> string list \<times> strikes" where
  "judgeNames k w = (map vRelay (fst (judgeStep k w)), snd (judgeStep k w))"

lemma judgeNames_strikes:
  "2 \<le> length (weighed w) \<Longrightarrow>
   judgeNames k w = strikeLoop (worse (bestRate (weighed w))) (\<lambda>_. False) (weighed w) k"
  "length (weighed w) = 1 \<Longrightarrow> judgeNames k w = ([], [])"
  "length (weighed w) = 0 \<Longrightarrow> judgeNames k w = ([], k)"
  by (simp_all add: judgeNames_def judgeStep_def Let_def judgeLoop_strikes)

interpretation lossJudge: strike_judge judgeNames samplesOK clearlyWorse acquitted
proof unfold_locales
  fix w a k assume w: "samplesOK w"
  note ok = samplesOK_weighed [OF w]
  consider (two) "2 \<le> length (weighed w)" | (one) "length (weighed w) = 1" | (none) "length (weighed w) = 0" by linarith
  note js = this
  show "clearlyWorse w a \<and> 1 \<le> mcount k a" if "a \<in> set (fst (judgeNames k w))"
    using js that
    by cases (auto simp: judgeNames_strikes clearlyWorse_def dest: strikeLoop_mem [OF ok])
  show "clearlyWorse w a" if "mcount k a \<le> 0" "1 \<le> mcount (snd (judgeNames k w)) a"
    using js that
    by cases (auto simp: judgeNames_strikes clearlyWorse_def dest: strikeLoop_kept [OF ok])
  show "mcount (snd (judgeNames k w)) a \<le> 0" if "acquitted w a"
    using js that strikeLoop_count [OF ok]
    by cases (auto simp: judgeNames_strikes acquitted_def)
qed

section \<open>The judge of collapse\<close>

type_synonym collapseWindow = "relayLossSample list \<times> (string \<times> int) list \<times> duration"

text \<open>A window weighs a relay that carries streams and packets enough; the relay has collapsed in
  it when traffic that was sustained came slowly and with loss.\<close>

definition weighs :: "collapseWindow \<Rightarrow> relayLossSample \<Rightarrow> bool" where
  "weighs w s \<longleftrightarrow> (case w of (samples, streams, window) \<Rightarrow>
     0 < mcount streams (sRelay s) \<and> relayCollapseMinPackets \<le> sRx s + sLost s)"

definition collapsed :: "collapseWindow \<Rightarrow> relayLossSample \<Rightarrow> bool" where
  "collapsed w s \<longleftrightarrow> (case w of (samples, streams, window) \<Rightarrow>
     relayCollapseMinActive \<le> sActive s \<and> perStream s window (mcount streams (sRelay s)) < relayCollapseMaxRate \<and>
     relayCollapseMinLoss \<le> rate s)"

definition collapsedIn :: "collapseWindow \<Rightarrow> string \<Rightarrow> bool" where
  "collapsedIn w a \<longleftrightarrow> length (weighed (fst w)) \<le> 1 \<and>
     (\<exists>s \<in> set (fst w). sRelay s = a \<and> weighs w s \<and> collapsed w s)"

definition collapseCleared :: "collapseWindow \<Rightarrow> string \<Rightarrow> bool" where
  "collapseCleared w a \<longleftrightarrow> 1 < length (weighed (fst w)) \<or> a \<notin> sRelay ` set (fst w) \<or>
     (\<exists>s \<in> set (fst w). sRelay s = a \<and> weighs w s \<and> \<not> collapsed w s)"

definition collapseNames :: "strikes \<Rightarrow> collapseWindow \<Rightarrow> string list \<times> strikes" where
  "collapseNames k w = (case w of (samples, streams, window) \<Rightarrow> collapseStep k samples streams window)"

lemma collapseLoop_strikes:
  "collapseLoop ss streams window k =
     strikeLoop (collapsed (w, streams, window)) (\<lambda>s. \<not> weighs (w, streams, window) s) ss k"
  by (induction ss arbitrary: k)
    (auto simp: collapsed_def weighs_def Let_def split_beta relayCollapseStrikes_def not_le not_less prod_eq_iff)

lemma map_of_filter_key: "map_of (filter (\<lambda>(r, _). P r) k) a = (if P a then map_of k a else None)"
  by (induction k) auto

lemma collapseNames_strikes:
  "1 < length (weighed (fst w)) \<Longrightarrow> collapseNames k w = ([], [])"
  "\<not> 1 < length (weighed (fst w)) \<Longrightarrow>
    fst (collapseNames k w) = fst (strikeLoop (collapsed w) (\<lambda>s. \<not> weighs w s) (fst w) k)"
  "\<not> 1 < length (weighed (fst w)) \<Longrightarrow>
    mcount (snd (collapseNames k w)) a = (if a \<in> sRelay ` set (fst w)
      then mcount (snd (strikeLoop (collapsed w) (\<lambda>s. \<not> weighs w s) (fst w) k)) a else 0)"
  by (cases w; simp add: collapseNames_def collapseStep_def weighed_def split_beta mcount_def
      collapseLoop_strikes [of _ _ _ _ "fst w"] map_of_filter_key)+

interpretation collapse: strike_judge collapseNames "\<lambda>w. samplesOK (fst w)" collapsedIn collapseCleared
proof unfold_locales
  fix w :: collapseWindow and a k assume ok: "samplesOK (fst w)"
  show "collapsedIn w a \<and> 1 \<le> mcount k a" if "a \<in> set (fst (collapseNames k w))"
    using that
    by (cases "1 < length (weighed (fst w))")
      (auto simp: collapseNames_strikes collapsedIn_def not_less dest!: strikeLoop_mem [OF ok])
  show "collapsedIn w a" if "mcount k a \<le> 0" "1 \<le> mcount (snd (collapseNames k w)) a"
    using that
    by (cases "1 < length (weighed (fst w))")
      (auto simp: collapseNames_strikes collapsedIn_def not_less dest!: strikeLoop_kept [OF ok] split: if_splits)
  show "mcount (snd (collapseNames k w)) a \<le> 0" if "collapseCleared w a"
  proof (cases "1 < length (weighed (fst w)) \<or> a \<notin> sRelay ` set (fst w)")
    case True
    then show ?thesis by (cases "1 < length (weighed (fst w))") (simp_all add: collapseNames_strikes)
  next
    case False
    with that obtain s where s: "s \<in> set (fst w)" "sRelay s = a" "weighs w s" "\<not> collapsed w s"
      by (auto simp: collapseCleared_def)
    with False strikeLoop_count [OF ok s(1), of "collapsed w" "\<lambda>s. \<not> weighs w s" k] show ?thesis
      by (simp add: collapseNames_strikes)
  qed
qed

end
