(* ===== verification/RelayJudgeProps.thy ===== *)
theory RelayJudgeProps
  imports RelayJudge RelayLossProps
begin

text \<open>
  What the judges promise: a verdict takes two bad windows with no good one between them, the best
  relay of a window is never judged, and the windows the book hands out are those the judges expect.
\<close>

section \<open>The windows of the book name each relay once\<close>

definition nameInv :: "relayLoss \<Rightarrow> bool" where
  "nameInv t \<longleftrightarrow> (\<forall>i < length (relayNames t). map_of (relayIndex t) (relayNames t ! i) = Some i)"

lemma nameInv_distinct: "nameInv t \<Longrightarrow> distinct (relayNames t)"
  unfolding nameInv_def distinct_conv_nth by (metis option.inject)

lemma settle_names [simp]:
  "relayIndex (settleOne t) = relayIndex t"
  "relayNames ((settleOne ^^ n) t) = relayNames t" "relayIndex ((settleOne ^^ n) t) = relayIndex t"
proof -
  show s: "relayIndex (settleOne t) = relayIndex t" for t
    by (simp add: settleOne_def placeGapLocked_def Let_def)
  show "relayNames ((settleOne ^^ n) t) = relayNames t" by (induction n) simp_all
  show "relayIndex ((settleOne ^^ n) t) = relayIndex t" by (induction n) (simp_all add: s)
qed

lemma nameInv_finalize [simp]: "nameInv (finalizeLocked t u) = nameInv t"
  by (simp add: nameInv_def finalizeLocked_def)

lemma nameInv_index: "tableInv t \<Longrightarrow> nameInv t \<Longrightarrow> nameInv (snd (relayIndexLocked t a))"
  unfolding relayIndexLocked_def nameInv_def tableInv_def Let_def
  by (auto split: option.split simp: nth_append less_Suc_eq)

lemma nameInv_same: "nameInv t \<Longrightarrow> relayNames t' = relayNames t \<Longrightarrow> relayIndex t' = relayIndex t \<Longrightarrow> nameInv t'"
  by (simp add: nameInv_def)

lemma nameInv_book:
  assumes "tableInv t" "nameInv t"
  shows "nameInv (bookCounter t ctr a now)"
proof (cases "ctr < lossBase t")
  case True
  with assms show ?thesis by (simp add: bookCounter_def)
next
  case False
  let ?t = "if ctr \<ge> lossBase t + relayLossRing
      then t\<lparr>lossBase := ctr + 1 - relayLossHorizon, seenAt := (\<lambda>_. 0), lossTop := max (lossTop t) (ctr + 1 - relayLossHorizon)\<rparr>
      else t"
  have "tableInv ?t" "nameInv ?t" using assms by (auto simp: tableInv_def nameInv_def)
  then have n: "nameInv (snd (relayIndexLocked ?t a))" by (rule nameInv_index)
  have m: "nameInv (t3\<lparr>seenAt := x, relayOf := y, lossTop := z\<rparr>)"
    if "t3 = (if c then t2\<lparr>lastSec := u, activeCount := v\<rparr> else t2)" "nameInv t2" for c t2 t3 u v x y z
    using that(2) by (rule nameInv_same) (simp_all add: that(1))
  show ?thesis
    unfolding bookCounter_def Let_def split_beta using False n
    by (simp only: if_False if_split nameInv_finalize) (intro conjI impI m [OF refl], simp_all only:)
qed

lemma nameInv_observe:
  assumes "tableInv t" "nameInv t"
  shows "nameInv (observe t p a now)"
proof -
  have t: "tableInv (t\<lparr>lastAt := now\<rparr>)" "nameInv (t\<lparr>lastAt := now\<rparr>)"
    using assms by (simp_all add: tableInv_def nameInv_def)
  have "nameInv (finalizeLocked t u)" if "nameInv t" for t u using that by simp
  then have "nameInv (switchKeypair (t\<lparr>lastAt := now\<rparr>) r)" for r
    unfolding switchKeypair_def Let_def
    by (rule nameInv_same [of "finalizeLocked (t\<lparr>lastAt := now\<rparr>) (lossTop (t\<lparr>lastAt := now\<rparr>))"]) (use t in simp_all)
  then show ?thesis
    using assms t nameInv_book [OF t] nameInv_book [OF switch_inv(1) [OF t(1)]]
    by (simp add: observe_def Let_def)
qed

lemma take_names:
  "relayNames (snd (snd (takeLoss t now))) = relayNames t" "relayIndex (snd (snd (takeLoss t now))) = relayIndex t"
  "set (map sRelay (fst (takeLoss t now))) \<subseteq> set (relayNames t)"
  "nameInv t \<Longrightarrow> distinct (map sRelay (fst (takeLoss t now)))"
proof -
  have f: "relayNames (finalizeLocked t u) = relayNames t" "relayIndex (finalizeLocked t u) = relayIndex t" for u
    by (simp_all add: finalizeLocked_def)
  show "relayNames (snd (snd (takeLoss t now))) = relayNames t" "relayIndex (snd (snd (takeLoss t now))) = relayIndex t"
    "set (map sRelay (fst (takeLoss t now))) \<subseteq> set (relayNames t)"
    by (auto simp: takeLoss_def Let_def f)
  show "distinct (map sRelay (fst (takeLoss t now)))" if "nameInv t"
    using nameInv_distinct [OF that]
    by (auto simp: takeLoss_def Let_def comp_def f distinct_map inj_on_def nth_eq_iff_index_eq)
qed

lemma lossRun_names:
  "tableInv t \<Longrightarrow> rangeInv t \<Longrightarrow> nameInv t \<Longrightarrow> nameInv (snd (lossRun t es))"
proof (induction t es rule: lossRun.induct)
  case (3 t now es)
  obtain out un t' where t': "takeLoss t now = (out, un, t')" by (metis prod_cases3)
  with take_inv [OF 3(2,3), of now] have "tableInv t'" "rangeInv t'" by simp_all
  moreover have "nameInv t'" using nameInv_same [OF 3(4)] take_names(1,2) [of t now] t' by simp
  ultimately show ?case using 3(1) [OF t'[symmetric] refl refl] by (simp add: t' split_beta)
qed (simp_all add: observe_inv nameInv_observe)

text \<open>
  The windows the loss book hands to the judges name every relay at most once, which is what
  their counts of strikes rest on.
\<close>

theorem windows_name_relays_once:
  "samplesOK (fst (takeLoss (snd (lossRun newRelayLoss es)) now))"
proof -
  have "nameInv newRelayLoss" by (simp add: nameInv_def newRelayLoss_def)
  from lossRun_names [OF new_inv this] show ?thesis by (rule take_names(4))
qed

section \<open>Verdicts\<close>

definition judgeRun :: "relayLossSample list list \<Rightarrow> strikes" where
  "judgeRun ws = fold (\<lambda>w k. snd (judgeStep k w)) ws []"

lemma judgeRun_judged: "judgeRun ws = lossJudge.judged [] ws"
proof -
  have "fold (\<lambda>w k. snd (judgeStep k w)) ws k = lossJudge.judged k ws" for k
    by (induction ws arbitrary: k) (auto simp: judgeNames_def)
  then show ?thesis by (simp add: judgeRun_def)
qed

text \<open>
  A relay is judged bad only for two windows: it was clearly worse than the best relay of the
  window just weighed (ten packets lost, three times the best rate, two points above it, with another
  relay weighed beside it), it was so in an earlier window too, and no window between the two
  weighed it and found it otherwise or left it without a relay to compare with.
\<close>

theorem loss_verdict_needs_two_windows:
  assumes "\<forall>w \<in> set (ws @ [w]). samplesOK w" "v \<in> set (fst (judgeStep (judgeRun ws) w))"
  shows "clearlyWorse w (vRelay v) \<and>
    (\<exists>us w' vs. ws = us @ w' # vs \<and> clearlyWorse w' (vRelay v) \<and> (\<forall>x \<in> set vs. \<not> acquitted x (vRelay v)))"
  using lossJudge.two_strikes [OF assms(1), of "vRelay v"] assms(2)
  by (auto simp: judgeRun_judged judgeNames_def)

definition badWindow :: "relayLossSample list" where
  "badWindow = [\<lparr>sRelay = ''a'', sRx = 900, sLost = 100, sActive = 10\<rparr>,
     \<lparr>sRelay = ''b'', sRx = 990, sLost = 10, sActive = 10\<rparr>]"

theorem loss_verdict_needs_two_windows_witness:
  "clearlyWorse badWindow ''a'' \<and> (\<exists>us w' vs. [badWindow] = us @ w' # vs \<and> clearlyWorse w' ''a'')"
proof -
  have v: "\<lparr>vRelay = ''a'', vRate = 1 / 10, vBest = 1 / 100\<rparr> \<in> set (fst (judgeStep (judgeRun [badWindow]) badWindow))"
    by (simp add: judgeRun_def judgeStep_def weighed_def badWindow_def go_consts bestRate_def rate_def Let_def mcount_def)
  have ok: "\<forall>w \<in> set ([badWindow] @ [badWindow]). samplesOK w" by (simp add: badWindow_def)
  from loss_verdict_needs_two_windows [OF ok v] show ?thesis unfolding relayVerdict.simps by blast
qed

lemma bestRate_Min: "cs \<noteq> [] \<Longrightarrow> bestRate cs = Min (rate ` set cs)"
proof -
  have "foldl (\<lambda>b s. min b (rate s)) b ss = Min (insert b (rate ` set ss))" for b ss
  proof (induction ss arbitrary: b)
    case (Cons s ss)
    have "insert b (insert (rate s) (rate ` set ss)) = insert b (insert (rate s) (rate ` set ss))" by simp
    then show ?case
      using Cons [of "min b (rate s)"]
      by (cases "ss = []") (simp_all add: min.assoc Min_insert)
  qed simp
  then show "cs \<noteq> [] \<Longrightarrow> bestRate cs = Min (rate ` set cs)"
    by (cases cs) (simp_all add: bestRate_def)
qed

text \<open>
  The judge never speaks against the relay that lost least in the window: whatever it rests, a
  relay at least as good as every other one weighed is left.
\<close>

theorem judge_spares_the_best_relay:
  assumes "samplesOK w" "fst (judgeStep k w) \<noteq> []"
  shows "\<exists>s \<in> set (weighed w). sRelay s \<notin> vRelay ` set (fst (judgeStep k w)) \<and>
    rate s = Min (rate ` set (weighed w))"
proof -
  have two: "2 \<le> length (weighed w)" using assms(2) by (auto simp: judgeStep_def Let_def split: if_splits)
  then have ne: "weighed w \<noteq> []" by auto
  then have "Min (rate ` set (weighed w)) \<in> rate ` set (weighed w)" by (intro Min_in) auto
  then obtain s where s: "s \<in> set (weighed w)" "rate s = Min (rate ` set (weighed w))" by auto
  have "sRelay s \<notin> set (fst (judgeNames k w))"
  proof
    assume "sRelay s \<in> set (fst (judgeNames k w))"
    then obtain s' where s': "s' \<in> set (weighed w)" "sRelay s' = sRelay s" "worse (bestRate (weighed w)) s'"
      using lossJudge.spoken [OF assms(1)] unfolding clearlyWorse_def by blast
    have "s' = s" using s(1) s'(1,2) samplesOK_weighed [OF assms(1)] by (auto simp: distinct_map dest: inj_onD)
    with s' s(2) bestRate_Min [OF ne] show False by (simp add: worse_def go_consts)
  qed
  with s show ?thesis by (intro bexI [of _ s]) (auto simp: judgeNames_def)
qed

theorem judge_spares_the_best_relay_witness:
  "\<exists>s \<in> set (weighed badWindow). sRelay s \<notin> vRelay ` set (fst (judgeStep [(''a'', 1)] badWindow)) \<and>
    rate s = Min (rate ` set (weighed badWindow))"
proof (rule judge_spares_the_best_relay)
  show "fst (judgeStep [(''a'', 1)] badWindow) \<noteq> []"
    by (simp add: judgeStep_def weighed_def badWindow_def go_consts bestRate_def rate_def Let_def mcount_def)
qed (simp add: badWindow_def)

definition collapseRun :: "collapseWindow list \<Rightarrow> strikes" where
  "collapseRun ws = fold (\<lambda>(samples, streams, window) k. snd (collapseStep k samples streams window)) ws []"

lemma collapseRun_judged: "collapseRun ws = collapse.judged [] ws"
proof -
  have "fold (\<lambda>(samples, streams, window) k. snd (collapseStep k samples streams window)) ws k = collapse.judged k ws" for k
    by (induction ws arbitrary: k) (auto simp: collapseNames_def)
  then show ?thesis by (simp add: collapseRun_def)
qed

text \<open>
  A relay is told collapsed only for two windows of sustained, slow and lossy traffic while no
  two relays carry the session, with no window between them that cleared it (by a second relay
  carrying, by no traffic through it, or by traffic that was no collapse).
\<close>

theorem collapse_needs_two_windows:
  assumes "\<forall>w \<in> set (ws @ [(samples, streams, window)]). samplesOK (fst w)"
    and "a \<in> set (fst (collapseStep (collapseRun ws) samples streams window))"
  shows "collapsedIn (samples, streams, window) a \<and>
    (\<exists>us w' vs. ws = us @ w' # vs \<and> collapsedIn w' a \<and> (\<forall>x \<in> set vs. \<not> collapseCleared x a))"
  using collapse.two_strikes [OF assms(1), of a] assms(2)
  by (simp add: collapseRun_judged collapseNames_def)

definition slowWindow :: collapseWindow where
  "slowWindow = ([\<lparr>sRelay = ''a'', sRx = 270, sLost = 30, sActive = 10\<rparr>], [(''a'', 1)], 10 * second)"

theorem collapse_needs_two_windows_witness:
  "collapsedIn slowWindow ''a'' \<and> (\<exists>us w' vs. [slowWindow] = us @ w' # vs \<and> collapsedIn w' ''a'')"
proof -
  have v: "''a'' \<in> set (fst (collapseStep (collapseRun [slowWindow]) (fst slowWindow) (fst (snd slowWindow)) (snd (snd slowWindow))))"
    by (simp add: collapseRun_def collapseStep_def slowWindow_def go_consts rate_def perStream_def Let_def mcount_def)
  have ok: "\<forall>w \<in> set ([slowWindow] @ [(fst slowWindow, fst (snd slowWindow), snd (snd slowWindow))]). samplesOK (fst w)"
    by (simp add: slowWindow_def)
  from collapse_needs_two_windows [OF ok v] show ?thesis unfolding prod.collapse by blast
qed

end
