(* ===== verification/RelayMove.thy ===== *)
theory RelayMove
  imports WorkerCreds RelayJudge
begin

text \<open>
  Moving the sessions off a rested relay: the sessions running on each relay
  (\<open>pkg/proxy/relay_sessions.go\<close>), what a move weighs and picks (\<open>relay_move.go\<close>), and the judge's
  turn that rests and moves (\<open>restJudgedRelays\<close> and \<open>recycleRelaySessions\<close> of \<open>relay_rest.go\<close>). Streams
  are known by their id and live in a store, since the book of sessions points to them. The
  goroutine that ends the attempts one by one is their list, in its order; log lines are left out.
\<close>

definition relayMoveQuota :: int where "relayMoveQuota = 2 * orphanSteerAt"
definition relayMoveLossyFresh :: duration where "relayMoveLossyFresh = 2 * relayJudgeEvery"

declare relayMoveQuota_def [go_consts] relayMoveLossyFresh_def [go_consts]

record streamCell =
  attempt :: "bool option"  \<comment> \<open>the attempt running, with its \<open>moved\<close> flag\<close>
  dialing :: "string list option"
  credUser :: string
  pendingMove :: "relayMove option"
  streamReady :: bool
  heardAt :: "gtime option"
  flowFails :: "(string \<times> nat) option"

type_synonym streams = "(nat \<times> streamCell) list"
type_synonym liveSessions = "(string \<times> nat list) list"

section \<open>Sessions\<close>

definition trackLiveSession :: "liveSessions \<Rightarrow> string \<Rightarrow> nat \<Rightarrow> liveSessions" where
  "trackLiveSession l addr s =
    (let xs = (case map_of l addr of None \<Rightarrow> [] | Some xs \<Rightarrow> xs) in mput addr (List.insert s xs) l)"

text \<open>The function \<open>trackLiveSession\<close> returns.\<close>

definition untrackLiveSession :: "liveSessions \<Rightarrow> string \<Rightarrow> nat \<Rightarrow> liveSessions" where
  "untrackLiveSession l addr s = (case map_of l addr of
     None \<Rightarrow> l
   | Some xs \<Rightarrow> if removeAll s xs = [] then mdel addr l else mput addr (removeAll s xs) l)"

definition liveSessionCounts :: "liveSessions \<Rightarrow> (string \<times> int) list" where
  "liveSessionCounts l = map (\<lambda>(addr, xs). (addr, int (length xs))) l"

definition beginRelayAttempt :: "streamCell \<Rightarrow> streamCell" where
  "beginRelayAttempt c = c\<lparr>attempt := Some False\<rparr>"

definition recycleAttempt :: "streamCell \<Rightarrow> streamCell" where
  "recycleAttempt c = (case attempt c of None \<Rightarrow> c | Some _ \<Rightarrow> c\<lparr>attempt := Some True\<rparr>)"

definition endAttempt :: "streamCell \<Rightarrow> bool" where
  "endAttempt c = (attempt c = Some True)"

section \<open>Flow failures\<close>

definition flowFailsBeforeAvoid :: nat where "flowFailsBeforeAvoid = 2"

definition noteFlowFailure :: "streamCell \<Rightarrow> string \<Rightarrow> nat \<times> streamCell" where
  "noteFlowFailure c addr =
    (let n = (case flowFails c of Some (r, n) \<Rightarrow> if r = addr then n + 1 else 1 | None \<Rightarrow> 1)
     in (n, c\<lparr>flowFails := Some (addr, n)\<rparr>))"

definition avoidedRelay :: "streamCell \<Rightarrow> string" where
  "avoidedRelay c = (case flowFails c of
     Some (r, n) \<Rightarrow> if n \<ge> flowFailsBeforeAvoid then r else [] | None \<Rightarrow> [])"

text \<open>\<open>dispatchStaleAfter\<close> is the dispatcher's measure; the age is that of the last packet heard.\<close>

definition relayHeardByOthers ::
    "duration \<Rightarrow> liveSessions \<Rightarrow> streams \<Rightarrow> string \<Rightarrow> nat \<Rightarrow> gtime \<Rightarrow> bool" where
  "relayHeardByOthers staleAfter l st addr except now =
    list_ex (\<lambda>s. case map_of st s of
        None \<Rightarrow> False
      | Some c \<Rightarrow> s \<noteq> except \<and> streamReady c \<and>
          (case heardAt c of None \<Rightarrow> False | Some t \<Rightarrow> tsub now t \<le> staleAfter))
      (case map_of l addr of None \<Rightarrow> [] | Some xs \<Rightarrow> xs)"

section \<open>What a move weighs\<close>

record lossyNow =
  lossyAt :: gtime
  lossySet :: "string list"  \<comment> \<open>empty for nil\<close>

definition noteLossyRelays :: "string list \<Rightarrow> gtime \<Rightarrow> lossyNow" where
  "noteLossyRelays ls now = \<lparr>lossyAt = now, lossySet = ls\<rparr>"

definition lossyRelaysAt :: "lossyNow \<Rightarrow> gtime \<Rightarrow> string list" where
  "lossyRelaysAt l now =
    (if lossySet l = [] \<or> tsub now (lossyAt l) > relayMoveLossyFresh then [] else lossySet l)"

definition takeMove :: "streamCell \<Rightarrow> gtime \<Rightarrow> relayMove option \<times> streamCell" where
  "takeMove c now =
    ((case pendingMove c of
        None \<Rightarrow> None
      | Some m \<Rightarrow> if tsub now (movedAt m) > relayMoveLossyFresh then None else Some m),
     c\<lparr>pendingMove := None\<rparr>)"

record relayLoad =
  loadSessions :: "(string \<times> int) list"
  loadPicked :: "(relayIdentity \<times> int) list"

definition liveRelayLoad :: "liveSessions \<Rightarrow> relayLoad" where
  "liveRelayLoad l = \<lparr>loadSessions = liveSessionCounts l, loadPicked = []\<rparr>"

definition firstNonEmpty :: "string list list \<Rightarrow> string list" where
  "firstNonEmpty ts = (case filter (\<lambda>t. t \<noteq> []) ts of [] \<Rightarrow> [] | t # _ \<Rightarrow> t)"

definition leastLoaded :: "(string \<times> int) list \<Rightarrow> string list \<Rightarrow> string list" where
  "leastLoaded sessions tier =
    (let least = foldl (\<lambda>m r. min m (mcount sessions r)) (mcount sessions (hd tier)) (tl tier)
     in filter (\<lambda>r. mcount sessions r = least) tier)"

definition moveHead ::
    "proxyBooks \<Rightarrow> string list \<Rightarrow> string \<Rightarrow> nat \<Rightarrow> string \<Rightarrow> string list \<Rightarrow> relayLoad \<Rightarrow> gtime
      \<Rightarrow> string \<times> relayLoad \<times> proxyBooks" where
  "moveHead s rs left i u ls load now =
    (let servers = sortCompact rs;
         (crowded, b) = crowdedRelays (ghostBook s) u servers now;
         s = s\<lparr>ghostBook := b\<rparr>;
         held = credsHeldOn (ghostBook s) u servers now;
         (candidates, s) = filter_read (\<lambda>s r. relayUsable s r now) s (filter (\<lambda>r. r \<noteq> left) servers);
         isFull = (\<lambda>r. r \<in> set crowded \<or>
             mcount held r + mcount (loadPicked load) (RelayIdentity u r) \<ge> relayMoveQuota);
         full = filter isFull candidates;
         losing = filter (\<lambda>r. \<not> isFull r \<and> r \<in> set ls) candidates;
         clean = filter (\<lambda>r. \<not> isFull r \<and> r \<notin> set ls) candidates;
         tier = firstNonEmpty [clean, losing, full]
     in if tier = [] then ([], load, s)
        else let ties = leastLoaded (loadSessions load) tier;
                 head = ties ! (i mod length ties);
                 k = RelayIdentity u head
          in (head,
              \<lparr>loadSessions = mput head (mcount (loadSessions load) head + 1) (loadSessions load),
               loadPicked = mput k (mcount (loadPicked load) k + 1) (loadPicked load)\<rparr>, s))"

definition dialedLast :: "proxyBooks \<Rightarrow> string list \<Rightarrow> string \<Rightarrow> gtime \<Rightarrow> string list \<times> proxyBooks" where
  "dialedLast s ls left now =
    (let (out, s) = filter_read (\<lambda>s r. relayUsable s r now) s (filter (\<lambda>r. r \<noteq> left) ls) in (sort out, s))"

section \<open>A turn of the judge\<close>

record relayMoveOut =
  moved :: "(nat \<times> string) list"  \<comment> \<open>the streams moved and their heads (\<open>heads\<close>); its length is \<open>moved\<close>\<close>
  stayed :: nat
  lastDialed :: "string list"

record proxyWorld =
  books :: proxyBooks
  liveBook :: liveSessions
  cells :: streams
  lossyBook :: lossyNow

text \<open>The loop over the sessions of one relay, in stream order.\<close>

fun moveSessions ::
    "proxyWorld \<Rightarrow> string \<Rightarrow> gtime \<Rightarrow> string list \<Rightarrow> relayLoad \<Rightarrow> nat list \<Rightarrow> (nat \<times> string) list \<times> nat \<times> relayLoad \<times> proxyWorld" where
  "moveSessions w addr now ls load [] = ([], 0, load, w)"
| "moveSessions w addr now ls load (i # is) =
    (case map_of (cells w) i of
       None \<Rightarrow> moveSessions w addr now ls load is
     | Some c \<Rightarrow>
         let (other, b) = (case dialing c of
               None \<Rightarrow> (False, books w) | Some rs \<Rightarrow> hasOtherUsableRelay (books w) rs addr now);
             w = w\<lparr>books := b\<rparr>
         in if other
            then let (head, load, b) = moveHead (books w) (the (dialing c)) addr i (credUser c) ls load now;
                     w = w\<lparr>books := b,
                           cells := mput i (c\<lparr>pendingMove := Some \<lparr>moveLossy = ls, headTo = head, movedAt = now\<rparr>\<rparr>) (cells w)\<rparr>;
                     (mv, n, load, w) = moveSessions w addr now ls load is
              in ((i, head) # mv, n, load, w)
            else let (mv, n, load, w) = moveSessions w addr now ls load is in (mv, n + 1, load, w))"

definition recycleRelaySessions ::
    "proxyWorld \<Rightarrow> bool \<Rightarrow> string \<Rightarrow> gtime \<Rightarrow> relayLoad option \<Rightarrow> relayMoveOut \<times> relayLoad \<times> proxyWorld" where
  "recycleRelaySessions w ctxDone addr now load =
    (let load = (case load of Some l \<Rightarrow> l | None \<Rightarrow> liveRelayLoad (liveBook w))
     in if ctxDone then (\<lparr>moved = [], stayed = 0, lastDialed = []\<rparr>, load, w)
        else let running = filter (\<lambda>i. case map_of (cells w) i of None \<Rightarrow> False | Some c \<Rightarrow> attempt c \<noteq> None)
                   (case map_of (liveBook w) addr of None \<Rightarrow> [] | Some xs \<Rightarrow> xs);
                 ls = lossyRelaysAt (lossyBook w) now;
                 (mv, n, load, w) = moveSessions w addr now ls load (sort running);
                 (last, b) = dialedLast (books w) ls addr now
          in (\<lparr>moved = mv, stayed = n, lastDialed = last\<rparr>, load, w\<lparr>books := b\<rparr>))"

text \<open>The attempts of the moved sessions are ended one by one (\<open>recycleAttempt\<close> in the goroutine).\<close>

definition endMoved :: "proxyWorld \<Rightarrow> (nat \<times> string) list \<Rightarrow> proxyWorld" where
  "endMoved w mv = fold (\<lambda>(i, _) w. case map_of (cells w) i of
     None \<Rightarrow> w | Some c \<Rightarrow> w\<lparr>cells := mput i (recycleAttempt c) (cells w)\<rparr>) mv w"

text \<open>First every relay judged is rested, then the sessions move, all charged to one load.\<close>

fun restVerdicts :: "restState \<Rightarrow> relayVerdict list \<Rightarrow> gtime \<Rightarrow> (string \<times> duration) list \<times> restState" where
  "restVerdicts s [] now = ([], s)"
| "restVerdicts s (v # vs) now =
    (let (resting, s) = relayResting s (vRelay v) now
     in if resting then restVerdicts s vs now
        else let (d, ok, s) = noteRelayRestingFor s False (vRelay v) now;
                 (out, s) = restVerdicts s vs now
          in ((vRelay v, d) # out, s))"

fun moveOffRested ::
    "proxyWorld \<Rightarrow> (string \<times> duration) list \<Rightarrow> gtime \<Rightarrow> relayLoad \<Rightarrow> (string \<times> relayMoveOut) list \<times> proxyWorld" where
  "moveOffRested w [] now load = ([], w)"
| "moveOffRested w ((addr, d) # rs) now load =
    (let (out, load, w) = recycleRelaySessions w False addr now (Some load);
         (outs, w) = moveOffRested w rs now load
     in ((addr, out) # outs, w))"

definition restJudgedRelays ::
    "proxyWorld \<Rightarrow> bool \<Rightarrow> relayVerdict list \<Rightarrow> gtime \<Rightarrow> (string \<times> relayMoveOut) list \<times> proxyWorld" where
  "restJudgedRelays w ctxDone verdicts now =
    (if ctxDone then ([], w)
     else let (rested, r) = restVerdicts (restBook (books w)) verdicts now;
              w = w\<lparr>books := (books w)\<lparr>restBook := r\<rparr>\<rparr>
       in moveOffRested w rested now (liveRelayLoad (liveBook w)))"

end
