(* ===== verification/RelayMoveProps.thy ===== *)
theory RelayMoveProps
  imports RelayMove WorkerCredsProps
begin

text \<open>
  What a move promises: the head it picks is the best place left, and in a turn that rests several
  relays no session is sent to one of them.
\<close>

section \<open>The pick\<close>

lemma relayUsable_ghost [simp]: "fst (relayUsable (s\<lparr>ghostBook := b\<rparr>) a now) = fst (relayUsable s a now)"
  by (simp add: relayUsable_iff)

text \<open>\<open>usable.swept now B s\<close>: reads between the books \<open>B\<close> and \<open>s\<close> have changed no answer.\<close>

lemma swept_ghost: "usable.swept now B s \<Longrightarrow> usable.swept now B (s\<lparr>ghostBook := b\<rparr>)"
  by (simp add: usable.swept_def)

lemma swept_trans: "usable.swept now B s \<Longrightarrow> usable.swept now s s' \<Longrightarrow> usable.swept now B s'"
  by (simp add: usable.swept_def)

definition moveFull :: "proxyBooks \<Rightarrow> string \<Rightarrow> string list \<Rightarrow> relayLoad \<Rightarrow> gtime \<Rightarrow> string \<Rightarrow> bool" where
  "moveFull s u servers load now r =
    (let (crowded, b) = crowdedRelays (ghostBook s) u servers now
     in r \<in> set crowded \<or>
        mcount (credsHeldOn b u servers now) r + mcount (loadPicked load) (RelayIdentity u r) \<ge> relayMoveQuota)"

definition moveTier :: "proxyBooks \<Rightarrow> string \<Rightarrow> string list \<Rightarrow> string list \<Rightarrow> relayLoad \<Rightarrow> gtime \<Rightarrow> string \<Rightarrow> nat" where
  "moveTier s u servers ls load now r =
    (if moveFull s u servers load now r then 2 else if r \<in> set ls then 1 else 0)"

definition moveCandidates :: "proxyBooks \<Rightarrow> string list \<Rightarrow> string \<Rightarrow> gtime \<Rightarrow> string list" where
  "moveCandidates s rs left now =
    filter (\<lambda>r. fst (relayUsable s r now)) (filter (\<lambda>r. r \<noteq> left) (sortCompact rs))"

lemma foldl_min: "foldl (\<lambda>m r. min m (f r)) (f (hd xs)) (tl xs) = Min (f ` set xs)" if "xs \<noteq> []" for f :: "'a \<Rightarrow> int"
proof -
  have "foldl (\<lambda>m r. min m (f r)) b ys = Min (insert b (f ` set ys))" for b ys
  proof (induction ys arbitrary: b)
    case (Cons y ys)
    then show ?case by (cases "ys = []") (simp_all add: min.assoc)
  qed simp
  with that show ?thesis by (cases xs) simp_all
qed

lemma leastLoaded_mem:
  assumes "tier \<noteq> []"
  shows "leastLoaded ss tier \<noteq> []" "r \<in> set (leastLoaded ss tier) \<Longrightarrow> r \<in> set tier \<and> (\<forall>x \<in> set tier. mcount ss r \<le> mcount ss x)"
proof -
  have l: "leastLoaded ss tier = filter (\<lambda>r. mcount ss r = Min (mcount ss ` set tier)) tier"
    by (simp add: leastLoaded_def foldl_min [OF assms])
  have "Min (mcount ss ` set tier) \<in> mcount ss ` set tier" using assms by (intro Min_in) auto
  then show "leastLoaded ss tier \<noteq> []" by (auto simp: l filter_empty_conv)
  show "r \<in> set tier \<and> (\<forall>x \<in> set tier. mcount ss r \<le> mcount ss x)" if "r \<in> set (leastLoaded ss tier)"
    using that by (auto simp: l)
qed

lemma firstNonEmpty_tiers:
  assumes "cs \<noteq> []" "T = firstNonEmpty [filter (\<lambda>r. \<not> F r \<and> r \<notin> set ls) cs, filter (\<lambda>r. \<not> F r \<and> r \<in> set ls) cs, filter F cs]"
  shows "T \<noteq> []" "r \<in> set T \<Longrightarrow> r \<in> set cs"
    "r \<in> set T \<Longrightarrow> x \<in> set cs \<Longrightarrow> (if F r then 2 else if r \<in> set ls then 1 else (0::nat)) \<le> (if F x then 2 else if x \<in> set ls then 1 else 0)"
    "r \<in> set T \<Longrightarrow> x \<in> set cs \<Longrightarrow> (if F r then 2 else if r \<in> set ls then 1 else (0::nat)) = (if F x then 2 else if x \<in> set ls then 1 else 0) \<Longrightarrow> x \<in> set T"
proof -
  let ?c = "filter (\<lambda>r. \<not> F r \<and> r \<notin> set ls) cs" and ?l = "filter (\<lambda>r. \<not> F r \<and> r \<in> set ls) cs" and ?f = "filter F cs"
  have T: "T = (if ?c \<noteq> [] then ?c else if ?l \<noteq> [] then ?l else ?f)"
    using assms(2) by (simp add: firstNonEmpty_def)
  obtain y where y: "y \<in> set cs" using assms(1) by (cases cs) auto
  show "T \<noteq> []" using y unfolding T by (auto simp: filter_empty_conv)
  show "r \<in> set T \<Longrightarrow> r \<in> set cs" unfolding T by (auto split: if_splits)
  show "r \<in> set T \<Longrightarrow> x \<in> set cs \<Longrightarrow> (if F r then 2 else if r \<in> set ls then 1 else (0::nat)) \<le> (if F x then 2 else if x \<in> set ls then 1 else 0)"
    unfolding T by (auto simp: filter_empty_conv split: if_splits)
  show "r \<in> set T \<Longrightarrow> x \<in> set cs \<Longrightarrow> (if F r then 2 else if r \<in> set ls then 1 else (0::nat)) = (if F x then 2 else if x \<in> set ls then 1 else 0) \<Longrightarrow> x \<in> set T"
    unfolding T by (auto simp: filter_empty_conv split: if_splits)
qed

lemma moveHead_unfold:
  assumes "moveHead s rs left i u ls load now = (head, load', s')"
  defines "T \<equiv> firstNonEmpty [filter (\<lambda>r. \<not> moveFull s u (sortCompact rs) load now r \<and> r \<notin> set ls) (moveCandidates s rs left now),
      filter (\<lambda>r. \<not> moveFull s u (sortCompact rs) load now r \<and> r \<in> set ls) (moveCandidates s rs left now),
      filter (moveFull s u (sortCompact rs) load now) (moveCandidates s rs left now)]"
  shows "usable.swept now s s'" "T = [] \<Longrightarrow> head = []"
    "T \<noteq> [] \<Longrightarrow> head = leastLoaded (loadSessions load) T ! (i mod length (leastLoaded (loadSessions load) T))"
    "T \<noteq> [] \<Longrightarrow> mcount (loadSessions load') = (mcount (loadSessions load))(head := mcount (loadSessions load) head + 1)"
proof -
  obtain crowded b where c: "crowdedRelays (ghostBook s) u (sortCompact rs) now = (crowded, b)" by fastforce
  obtain cand s2 where f: "filter_read (\<lambda>s r. relayUsable s r now) (s\<lparr>ghostBook := b\<rparr>) (filter (\<lambda>r. r \<noteq> left) (sortCompact rs)) = (cand, s2)"
    by fastforce
  have cand: "cand = moveCandidates s rs left now"
    using usable.filter_read_eq [of now "s\<lparr>ghostBook := b\<rparr>" "filter (\<lambda>r. r \<noteq> left) (sortCompact rs)"]
    by (simp add: f moveCandidates_def)
  have F: "(\<lambda>r. r \<in> set crowded \<or> mcount (credsHeldOn b u (sortCompact rs) now) r +
      mcount (loadPicked load) (RelayIdentity u r) \<ge> relayMoveQuota) = moveFull s u (sortCompact rs) load now"
    by (simp add: moveFull_def c fun_eq_iff)
  have sw: "usable.swept now s s2"
    using swept_trans [OF swept_ghost [OF usable.swept_refl] usable.filter_read_swept] f by (metis snd_conv)
  have d: "moveHead s rs left i u ls load now = (if T = [] then ([], load, s2)
      else let ties = leastLoaded (loadSessions load) T; head = ties ! (i mod length ties); k = RelayIdentity u head
        in (head, \<lparr>loadSessions = mput head (mcount (loadSessions load) head + 1) (loadSessions load),
               loadPicked = mput k (mcount (loadPicked load) k + 1) (loadPicked load)\<rparr>, s2))"
    unfolding moveHead_def T_def cand [symmetric] F [symmetric] by (simp add: c f Let_def)
  show "usable.swept now s s'" using assms(1) sw unfolding d by (auto simp: Let_def split: if_splits)
  show "T = [] \<Longrightarrow> head = []"
    "T \<noteq> [] \<Longrightarrow> head = leastLoaded (loadSessions load) T ! (i mod length (leastLoaded (loadSessions load) T))"
    "T \<noteq> [] \<Longrightarrow> mcount (loadSessions load') = (mcount (loadSessions load))(head := mcount (loadSessions load) head + 1)"
    using assms(1) unfolding d by (auto simp: Let_def fun_eq_iff)
qed

text \<open>
  A moved session is sent to the best relay left to it: one of its link's usable relays other
  than the one it leaves, and no other such relay is in a better tier (full for the credential, or
  losing in the window, is worse) or, in the same tier, runs fewer sessions; the pick is charged
  to the load the next session is weighed by. It goes nowhere only when there is no such relay.
\<close>

theorem move_picks_the_best_relay:
  assumes "moveHead s rs left i u ls load now = (head, load', s')" "moveCandidates s rs left now \<noteq> []"
  shows "head \<in> set (moveCandidates s rs left now) \<and>
    (\<forall>r \<in> set (moveCandidates s rs left now).
       (moveTier s u (sortCompact rs) ls load now head, mcount (loadSessions load) head) \<le>
       (moveTier s u (sortCompact rs) ls load now r, mcount (loadSessions load) r)) \<and>
    mcount (loadSessions load') = (mcount (loadSessions load))(head := mcount (loadSessions load) head + 1)"
proof -
  let ?C = "moveCandidates s rs left now" and ?F = "moveFull s u (sortCompact rs) load now"
  obtain T where T: "T = firstNonEmpty [filter (\<lambda>r. \<not> ?F r \<and> r \<notin> set ls) ?C, filter (\<lambda>r. \<not> ?F r \<and> r \<in> set ls) ?C, filter ?F ?C]" by simp
  note t = firstNonEmpty_tiers [OF assms(2) T]
  note m = moveHead_unfold [OF assms(1), folded T]
  let ?L = "leastLoaded (loadSessions load) T"
  have "head \<in> set ?L" unfolding m(3) [OF t(1)] using leastLoaded_mem(1) [OF t(1)] by (intro nth_mem) simp
  then have h: "head \<in> set T" "\<forall>x \<in> set T. mcount (loadSessions load) head \<le> mcount (loadSessions load) x"
    using leastLoaded_mem(2) [OF t(1)] by blast+
  have "(moveTier s u (sortCompact rs) ls load now head, mcount (loadSessions load) head) \<le>
       (moveTier s u (sortCompact rs) ls load now r, mcount (loadSessions load) r)" if r: "r \<in> set ?C" for r
  proof (cases "moveTier s u (sortCompact rs) ls load now head = moveTier s u (sortCompact rs) ls load now r")
    case True
    then have "r \<in> set T" unfolding moveTier_def by (rule t(4) [OF h(1) r])
    with True h(2) show ?thesis by (simp add: less_eq_prod_def)
  next
    case False
    have "moveTier s u (sortCompact rs) ls load now head \<le> moveTier s u (sortCompact rs) ls load now r"
      unfolding moveTier_def by (rule t(3) [OF h(1) r])
    with False show ?thesis by (simp add: less_eq_prod_def)
  qed
  with t(2) [OF h(1)] m(4) [OF t(1)] show ?thesis by blast
qed

theorem move_picks_the_best_relay_witness:
  "fst (moveHead threeBooks [''a'', ''b'', ''c''] ''a'' 4 ''u'' [''b''] \<lparr>loadSessions = [(''c'', 3)], loadPicked = []\<rparr> 0)
     \<in> {''b'', ''c''}"
proof -
  have c: "moveCandidates threeBooks [''a'', ''b'', ''c''] ''a'' 0 = [''b'', ''c'']" by code_simp
  then have ne: "moveCandidates threeBooks [''a'', ''b'', ''c''] ''a'' 0 \<noteq> []" by simp
  obtain head load' s' where h: "moveHead threeBooks [''a'', ''b'', ''c''] ''a'' 4 ''u'' [''b'']
      \<lparr>loadSessions = [(''c'', 3)], loadPicked = []\<rparr> 0 = (head, load', s')" by (metis prod_cases3)
  from move_picks_the_best_relay [OF h ne] show ?thesis unfolding c h by simp
qed


section \<open>A turn of the judge\<close>

lemma hasOther_swept:
  "usable.swept now s (snd (hasOtherUsableRelay s rs a now))"
  "fst (hasOtherUsableRelay s rs a now) \<longleftrightarrow> (\<exists>r \<in> set rs. r \<noteq> a \<and> fst (relayUsable s r now))"
  unfolding hasOtherUsableRelay_def by (rule usable.exists_read_swept, rule usable.exists_read_iff)

lemma swept_usable: "usable.swept now B s \<Longrightarrow> fst (relayUsable s r now) = fst (relayUsable B r now)"
  by (rule usable.swept_fst)

text \<open>Where the streams of a list of moves go, by the verdicts of the books \<open>B\<close>.\<close>

definition goodMoves :: "proxyBooks \<Rightarrow> streams \<Rightarrow> string \<Rightarrow> gtime \<Rightarrow> (nat \<times> string) list \<Rightarrow> bool" where
  "goodMoves B st addr now mv \<longleftrightarrow>
     (\<forall>(i, head) \<in> set mv. head \<noteq> addr \<and> fst (relayUsable B head now) \<and>
        (\<exists>c rs. map_of st i = Some c \<and> dialing c = Some rs \<and> head \<in> set rs))"

definition sameDialing :: "streams \<Rightarrow> streams \<Rightarrow> bool" where
  "sameDialing st st' \<longleftrightarrow> (\<forall>i. map_option dialing (map_of st' i) = map_option dialing (map_of st i))"

lemma sameDialing_trans: "sameDialing a b \<Longrightarrow> sameDialing b c \<Longrightarrow> sameDialing a c"
  by (simp add: sameDialing_def)

lemma sameDialing_get: "sameDialing st st' \<Longrightarrow> map_of st' i = Some c' \<Longrightarrow> \<exists>c. map_of st i = Some c \<and> dialing c = dialing c'"
  unfolding sameDialing_def by (metis (no_types) map_option_eq_Some)

lemma goodMoves_same: "sameDialing st st' \<Longrightarrow> goodMoves B st' a now mv \<Longrightarrow> goodMoves B st a now mv"
  unfolding goodMoves_def using sameDialing_get by fastforce

lemma goodMoves_Cons:
  "goodMoves B st a now ((i, h) # mv) \<longleftrightarrow> h \<noteq> a \<and> fst (relayUsable B h now) \<and>
     (\<exists>c rs. map_of st i = Some c \<and> dialing c = Some rs \<and> h \<in> set rs) \<and> goodMoves B st a now mv"
  by (simp add: goodMoves_def)

lemma moveSessions_good:
  "usable.swept now B (books w) \<Longrightarrow> moveSessions w a now ls load is = (mv, n, load', w') \<Longrightarrow>
   goodMoves B (cells w) a now mv \<and> usable.swept now B (books w') \<and> sameDialing (cells w) (cells w') \<and>
   liveBook w' = liveBook w \<and> lossyBook w' = lossyBook w"
proof (induction w a now ls load "is" arbitrary: mv n load' w' rule: moveSessions.induct)
  case (1 w addr now ls load)
  then show ?case by (simp add: goodMoves_def sameDialing_def)
next
  case (2 w a now ls load i "is")
  show ?case
  proof (cases "map_of (cells w) i")
    case None
    with 2 show ?thesis by simp
  next
    case (Some c)
    obtain other b where ob: "(case dialing c of None \<Rightarrow> (False, books w) | Some rs \<Rightarrow> hasOtherUsableRelay (books w) rs a now) = (other, b)"
      by fastforce
    have swb: "usable.swept now B b"
    proof (cases "dialing c")
      case None
      with ob 2(4) show ?thesis by simp
    next
      case (Some rs)
      with ob have "b = snd (hasOtherUsableRelay (books w) rs a now)" by simp
      with swept_trans [OF 2(4) hasOther_swept(1)] show ?thesis by simp
    qed
    show ?thesis
    proof (cases other)
      case False
      obtain mv1 n1 l1 w1 where r: "moveSessions (w\<lparr>books := b\<rparr>) a now ls load is = (mv1, n1, l1, w1)" by (metis prod_cases4)
      have "mv = mv1" "w' = w1" using 2(5) Some ob False r by simp_all
      moreover have "goodMoves B (cells (w\<lparr>books := b\<rparr>)) a now mv1 \<and> usable.swept now B (books w1) \<and>
          sameDialing (cells (w\<lparr>books := b\<rparr>)) (cells w1) \<and> liveBook w1 = liveBook w \<and> lossyBook w1 = lossyBook w"
        using 2(3) [OF Some ob [symmetric] refl refl False _ r] swb by simp
      ultimately show ?thesis by simp
    next
      case True
      obtain head l1 b1 where h: "moveHead b (the (dialing c)) a i (credUser c) ls load now = (head, l1, b1)"
        by (metis prod_cases3)
      let ?w = "w\<lparr>books := b1, cells := mput i (c\<lparr>pendingMove := Some \<lparr>moveLossy = ls, headTo = head, movedAt = now\<rparr>\<rparr>) (cells w)\<rparr>"
      obtain mv1 n1 l2 w1 where r: "moveSessions ?w a now ls l1 is = (mv1, n1, l2, w1)" by (metis prod_cases4)
      obtain rs where rs: "dialing c = Some rs" "hasOtherUsableRelay (books w) rs a now = (True, b)"
        using ob True by (cases "dialing c") auto
      have "\<exists>r \<in> set rs. r \<noteq> a \<and> fst (relayUsable b r now)"
        using hasOther_swept [where s = "books w" and rs = rs and a = a and now = now] rs(2) swept_usable [of now "books w" b] by auto
      then have ne: "moveCandidates b rs a now \<noteq> []" by (auto simp: moveCandidates_def filter_empty_conv)
      have "head \<in> set (moveCandidates b rs a now)"
        using move_picks_the_best_relay [OF h [unfolded rs(1) option.sel] ne] by blast
      then have hd: "head \<noteq> a" "head \<in> set rs" "fst (relayUsable B head now)"
        using swept_usable [OF swb] by (auto simp: moveCandidates_def)
      have swb1: "usable.swept now B (books ?w)" using swept_trans [OF swb moveHead_unfold(1) [OF h]] by simp
      have sd: "sameDialing (cells w) (cells ?w)" using Some by (simp add: sameDialing_def)
      have "mv = (i, head) # mv1" "w' = w1" using 2(5) Some ob True h r by (simp_all add: Let_def)
      moreover have "goodMoves B (cells ?w) a now mv1 \<and> usable.swept now B (books w1) \<and>
          sameDialing (cells ?w) (cells w1) \<and> liveBook w1 = liveBook ?w \<and> lossyBook w1 = lossyBook ?w"
        using 2(2) [OF Some ob [symmetric] refl refl True _ _ _ _ swb1 r] h by simp
      ultimately show ?thesis
        using hd Some rs(1) sd goodMoves_same [OF sd] sameDialing_trans [OF sd] by (simp add: goodMoves_Cons)
    qed
  qed
qed


lemma recycle_good:
  assumes "usable.swept now B (books w)" "recycleRelaySessions w False a now (Some load) = (out, load', w')"
  shows "goodMoves B (cells w) a now (moved out)" "usable.swept now B (books w')" "sameDialing (cells w) (cells w')"
proof -
  let ?run = "filter (\<lambda>i. case map_of (cells w) i of None \<Rightarrow> False | Some c \<Rightarrow> attempt c \<noteq> None)
                   (case map_of (liveBook w) a of None \<Rightarrow> [] | Some xs \<Rightarrow> xs)"
  obtain mv n l w1 where r: "moveSessions w a now (lossyRelaysAt (lossyBook w) now) load (sort ?run) = (mv, n, l, w1)"
    by (metis prod_cases4)
  obtain last b where d: "dialedLast (books w1) (lossyRelaysAt (lossyBook w) now) a now = (last, b)" by fastforce
  note g = moveSessions_good [OF assms(1) r]
  have "usable.swept now (books w1) b"
    using d usable.filter_read_swept [of now "books w1"] by (auto simp: dialedLast_def split_beta Let_def)
  moreover have "out = \<lparr>moved = mv, stayed = n, lastDialed = last\<rparr>" "w' = w1\<lparr>books := b\<rparr>"
    using assms(2) by (simp_all add: recycleRelaySessions_def Let_def r d)
  ultimately show "goodMoves B (cells w) a now (moved out)" "usable.swept now B (books w')" "sameDialing (cells w) (cells w')"
    using g swept_trans [of now B "books w1" b] by auto
qed

lemma moveOffRested_good:
  "usable.swept now B (books w) \<Longrightarrow> moveOffRested w rs now load = (outs, w') \<Longrightarrow>
   map fst outs = map fst rs \<and> (\<forall>(a, out) \<in> set outs. goodMoves B (cells w) a now (moved out)) \<and>
   usable.swept now B (books w')"
proof (induction w rs now load arbitrary: outs w' rule: moveOffRested.induct)
  case (2 w a d rs now load)
  obtain out l w1 where r: "recycleRelaySessions w False a now (Some load) = (out, l, w1)" by (metis prod_cases3)
  obtain os w2 where o: "moveOffRested w1 rs now l = (os, w2)" by fastforce
  note g = recycle_good [OF 2(2) r]
  have "outs = (a, out) # os" "w' = w2" using 2(3) by (simp_all add: r o)
  moreover have "map fst os = map fst rs \<and> (\<forall>(a, out) \<in> set os. goodMoves B (cells w1) a now (moved out)) \<and>
      usable.swept now B (books w2)"
    using 2(1) [OF r [symmetric] refl refl g(2) o] .
  ultimately show ?case using g goodMoves_same [OF g(3)] by auto
qed simp

lemma restVerdicts_rest:
  "restInv now (marks s) \<Longrightarrow> restVerdicts s vs now = (out, s') \<Longrightarrow>
   (\<forall>(a, d) \<in> set out. fst (relayResting s' a now)) \<and>
   (\<forall>a. fst (relayResting s a now) \<longrightarrow> fst (relayResting s' a now)) \<and> set (map fst out) \<subseteq> vRelay ` set vs"
proof (induction vs arbitrary: s out s')
  case (Cons v vs)
  obtain b s1 where r: "relayResting s (vRelay v) now = (b, s1)" by fastforce
  have s1: "fst (relayResting s1 a now) = fst (relayResting s a now)" for a
    using resting.later [of now now s "vRelay v" a] r by simp
  have i1: "restInv now (marks s1)" using restInv_relayResting [OF Cons.prems(1), of "vRelay v"] r by simp
  show ?case
  proof (cases b)
    case True
    with Cons.prems(2) r have "restVerdicts s1 vs now = (out, s')" by simp
    from Cons.IH [OF i1 this] s1 show ?thesis by auto
  next
    case False
    obtain d ok s2 where n: "noteRelayRestingFor s1 False (vRelay v) now = (d, ok, s2)" by (metis prod_cases3)
    have i2: "restInv now (marks s2)" using restInv_noteRelayRestingFor [OF i1, of False "vRelay v"] n by simp
    obtain o' where o: "restVerdicts s2 vs now = (o', s')" "out = (vRelay v, d) # o'"
      using Cons.prems(2) r False n by (auto split: prod.splits)
    have "0 < d"
    proof -
      have "0 < min (2 * rest m) relayRestMax" if "map_of (marks s1) k = Some m" for k m
        using restInv_get [OF i1 that] by (auto simp: markInv_def go_consts)
      then show ?thesis using n by (auto simp: noteRelayRestingFor_def Let_def go_consts split: option.splits if_splits)
    qed
    then have "fst (relayResting s2 a now) \<longleftrightarrow> a = vRelay v \<or> fst (relayResting s1 a now)" for a
      using note_then_resting [OF n, of a now] by simp
    with Cons.IH [OF i2 o(1)] s1 o(2) show ?thesis by auto
  qed
qed simp

text \<open>
  C38. In a turn of the judge no session is moved from one bad relay onto another: every session moved
  goes first to a relay of its own link that has no verdict against it, so to none of the relays rested in
  this very turn, however many are rested together, and not back to the one it leaves.
\<close>

theorem no_session_moves_onto_a_rested_relay:
  assumes "restInv now (marks (restBook (books w)))" "restJudgedRelays w False verdicts now = (outs, w')"
    and "(a, out) \<in> set outs" "(i, head) \<in> set (moved out)"
  shows "head \<notin> fst ` set outs \<and> head \<noteq> a \<and> fst (relayUsable (books w') head now) \<and>
    (\<exists>c rs. map_of (cells w) i = Some c \<and> dialing c = Some rs \<and> head \<in> set rs)"
proof -
  obtain rested r where rv: "restVerdicts (restBook (books w)) verdicts now = (rested, r)" by fastforce
  let ?B = "(books w)\<lparr>restBook := r\<rparr>"
  have m: "moveOffRested (w\<lparr>books := ?B\<rparr>) rested now (liveRelayLoad (liveBook w)) = (outs, w')"
    using assms(2) by (simp add: restJudgedRelays_def rv)
  have g: "map fst outs = map fst rested" "goodMoves ?B (cells w) a now (moved out)" "usable.swept now ?B (books w')"
    using moveOffRested_good [OF _ m, of ?B] assms(3) usable.swept_refl by auto
  have gm: "head \<noteq> a" "fst (relayUsable ?B head now)"
    "\<exists>c rs. map_of (cells w) i = Some c \<and> dialing c = Some rs \<and> head \<in> set rs"
    using g(2) assms(4) by (auto simp: goodMoves_def)
  have "head \<notin> fst ` set rested"
    using restVerdicts_rest [OF assms(1) rv] gm(2) by (auto simp: relayUsable_iff)
  moreover have "fst ` set outs = fst ` set rested" using g(1) by (metis set_map)
  ultimately show ?thesis using gm swept_usable [OF g(3)] by blast
qed

definition twoBadRelays :: proxyWorld where
  "twoBadRelays = \<lparr>books = threeBooks, liveBook = [(''a'', [4]), (''b'', [5])],
     cells = map (\<lambda>i. (i, \<lparr>attempt = Some False, dialing = Some [''a'', ''b'', ''c''], credUser = ''u'',
       pendingMove = None, streamReady = True, heardAt = None, flowFails = None\<rparr>)) [4, 5],
     lossyBook = \<lparr>lossyAt = 0, lossySet = []\<rparr>\<rparr>"

theorem no_session_moves_onto_a_rested_relay_witness:
  "\<exists>head. head \<notin> {''a'', ''b''} \<and> (4, head) \<in> set (moved (snd (hd (fst (restJudgedRelays twoBadRelays False
     [\<lparr>vRelay = ''a'', vRate = 1, vBest = 0\<rparr>, \<lparr>vRelay = ''b'', vRate = 1, vBest = 0\<rparr>] 0)))))"
proof -
  let ?r = "restJudgedRelays twoBadRelays False [\<lparr>vRelay = ''a'', vRate = 1, vBest = 0\<rparr>, \<lparr>vRelay = ''b'', vRate = 1, vBest = 0\<rparr>] 0"
  have o: "map fst (fst ?r) = [''a'', ''b'']" by code_simp
  have m: "moved (snd (hd (fst ?r))) = [(4, ''c'')]" by code_simp
  have i: "restInv 0 (marks (restBook (books twoBadRelays)))" by (simp add: twoBadRelays_def threeBooks_def)
  have "fst ?r \<noteq> []" using o by auto
  then have "(fst (hd (fst ?r)), snd (hd (fst ?r))) \<in> set (fst ?r)" by simp
  from no_session_moves_onto_a_rested_relay [OF i prod.collapse [symmetric] this, of 4 "''c''"] m
  have "''c'' \<notin> fst ` set (fst ?r)" by simp
  moreover have "fst ` set (fst ?r) = {''a'', ''b''}" using o by (metis list.set(1) list.set(2) set_map)
  ultimately show ?thesis unfolding m by (intro exI [of _ "''c''"]) simp
qed

end
