(* ===== verification/Wrap.thy ===== *)
theory Wrap
  imports GoBytes
begin

text \<open>
  The WRAP layer of \<open>pkg/proxy/wrap.go\<close>: the packed state a stream draws its SSRC and counter from,
  the RTP-like header, the two keystreams, the keys, and the packets sent and read. ChaCha20 is code
  of another module: \<open>chacha key nonce n\<close>, the first \<open>n\<close> bytes of its keystream, is a parameter, and
  so is the hash \<open>sha256\<close> of the legacy keystream. Random draws (\<open>crypto/rand\<close>) are arguments. The
  connection wrapper of the end of the file is not modelled: it only calls these.
\<close>

unbundle bit_operations_syntax

definition wrapKeyLen :: nat where "wrapKeyLen = 32"
definition wrapHdrLen :: nat where "wrapHdrLen = 12"
definition wrapMaxPad :: nat where "wrapMaxPad = 32"
definition wrapPadLen :: nat where "wrapPadLen = 2"
definition wrapCoverMark :: nat where "wrapCoverMark = 65535"
definition wrapCounterMod :: nat where "wrapCounterMod = 4000000"
definition wgTransportOverhead :: int where "wgTransportOverhead = 32"
definition wrapDefaultMaxBody :: int where "wrapDefaultMaxBody = 1280 + wgTransportOverhead"
definition wrapMaxOverhead :: nat where "wrapMaxOverhead = wrapHdrLen + wrapMaxPad + wrapPadLen"

declare wrapKeyLen_def [go_consts] wrapHdrLen_def [go_consts] wrapMaxPad_def [go_consts]
  wrapPadLen_def [go_consts] wrapCoverMark_def [go_consts] wrapCounterMod_def [go_consts]
  wgTransportOverhead_def [go_consts] wrapDefaultMaxBody_def [go_consts] wrapMaxOverhead_def [go_consts]

datatype wrapCipher = cipherSHA | cipherChaCha

definition clientCipher :: wrapCipher where "clientCipher = cipherChaCha"

definition wrapXBit :: byte where "wrapXBit = 0x10"
definition wrapDirClient :: byte where "wrapDirClient = 0"
definition wrapDirServer :: byte where "wrapDirServer = 1"
definition wrapTxDir :: byte where "wrapTxDir = wrapDirClient"
definition wrapRxDir :: byte where "wrapRxDir = wrapDirServer"

datatype wrapError = KeyMissing | KeyHex | KeySize | DstSmall | ShortPacket | BadPadding

section \<open>The SSRC and the counter\<close>

definition nextGlobalWrapCounter :: "64 word \<Rightarrow> nat \<times> 64 word" where
  "nextGlobalWrapCounter g = (unat g mod wrapCounterMod, g + 1)"

definition newWrapTxState :: "32 word \<Rightarrow> 64 word" where
  "newWrapTxState rnd = push_bit 32 (ucast rnd)"

definition txSsrc :: "64 word \<Rightarrow> 32 word" where
  "txSsrc state = ucast (drop_bit 32 state)"

text \<open>The step that succeeds of the compare-and-swap loop of \<open>next\<close>; \<open>rnd\<close> is the SSRC drawn if the
  counter wraps. The legacy keystream takes its counter from the process.\<close>

definition txNext :: "wrapCipher \<Rightarrow> 32 word \<Rightarrow> 64 word \<times> 64 word \<Rightarrow> (32 word \<times> nat) \<times> 64 word \<times> 64 word" where
  "txNext cipher rnd s = (case s of (state, global) \<Rightarrow>
     if cipher \<noteq> cipherChaCha
     then let (c, global) = nextGlobalWrapCounter global in ((txSsrc state, c), state, global)
     else let ssrc = ucast (drop_bit 32 state);
              counter = state AND 0xFFFFFFFF;
              next = (if unat (counter + 1) \<ge> wrapCounterMod then push_bit 32 (ucast rnd) else state + 1)
       in ((ssrc, unat counter), next, global))"

definition SetWrapMTU :: "int \<Rightarrow> int \<Rightarrow> int" where
  "SetWrapMTU maxBody mtu = (if mtu \<le> 0 then maxBody else mtu + wgTransportOverhead)"

section \<open>Header\<close>

definition cipherFromHeader :: "byte list \<Rightarrow> wrapCipher" where
  "cipherFromHeader buf = (if buf ! 0 AND wrapXBit \<noteq> 0 then cipherChaCha else cipherSHA)"

definition putHeader :: "nat \<Rightarrow> wrapCipher \<Rightarrow> 32 word \<Rightarrow> byte list" where
  "putHeader counter cipher ssrc =
    (let b0 = (if cipher = cipherChaCha then 0x80 OR wrapXBit else 0x80);
         marker = (if counter = 0 then 0x80 else 0);
         b1 = (if counter mod 50 = 0 then marker OR 0x60 else marker OR 0x6F)
     in [b0, b1] @ putBE 2 (counter mod 65536) @ putBE 4 (counter * 960) @ putBE 4 (unat ssrc))"

definition readHeader :: "byte list \<Rightarrow> nat" where
  "readHeader buf = beNat (slice 4 8 buf) div 960"

section \<open>Keystreams\<close>

definition xorBytes :: "byte list \<Rightarrow> byte list \<Rightarrow> byte list" where
  "xorBytes xs ks = map2 (XOR) xs ks"

function xorBlocks :: "(byte list \<Rightarrow> byte list) \<Rightarrow> byte list \<Rightarrow> byte list \<Rightarrow> byte list" where
  "xorBlocks sha256 state data =
    (if length data \<le> 32 then xorBytes data state
     else xorBytes (take 32 data) state @ xorBlocks sha256 (sha256 state) (drop 32 data))"
  by pat_completeness auto
termination by (relation "measure (\<lambda>(_, _, data). length data)") auto

declare xorBlocks.simps [simp del]

definition xorInPlace :: "(byte list \<Rightarrow> byte list) \<Rightarrow> byte list \<Rightarrow> nat \<Rightarrow> byte list \<Rightarrow> byte list" where
  "xorInPlace sha256 k counter data =
    (if data = [] then []
     else xorBlocks sha256 (sha256 (k @ putBE 8 (counter mod 2 ^ 32))) data)"

definition wrapChaChaNonce :: "32 word \<Rightarrow> byte \<Rightarrow> nat \<Rightarrow> byte list" where
  "wrapChaChaNonce ssrc dir counter = putBE 4 (unat ssrc) @ [dir, 0, 0, 0] @ putBE 4 counter"

type_synonym chacha = "byte list \<Rightarrow> byte list \<Rightarrow> nat \<Rightarrow> byte list"

definition xorChaCha :: "chacha \<Rightarrow> byte list \<Rightarrow> nat \<Rightarrow> 32 word \<Rightarrow> byte \<Rightarrow> byte list \<Rightarrow> byte list" where
  "xorChaCha chacha k counter ssrc dir data =
    (if data = [] then []
     else if length k \<noteq> wrapKeyLen then data
     else xorBytes data (chacha k (wrapChaChaNonce ssrc dir counter) (length data)))"

definition xorKeystream ::
    "(byte list \<Rightarrow> byte list) \<Rightarrow> chacha \<Rightarrow> wrapCipher \<Rightarrow> byte list \<Rightarrow> nat \<Rightarrow> 32 word \<Rightarrow> byte \<Rightarrow> byte list \<Rightarrow> byte list" where
  "xorKeystream sha256 chacha cipher k counter ssrc dir data =
    (if cipher = cipherChaCha then xorChaCha chacha k counter ssrc dir data
     else xorInPlace sha256 k counter data)"

section \<open>Keys\<close>

definition genWrapKeyHex :: "byte list \<Rightarrow> string" where
  "genWrapKeyHex rnd = hexEncode rnd"

definition decodeWrapKey :: "bool \<Rightarrow> string \<Rightarrow> wrapError + byte list" where
  "decodeWrapKey enabled raw =
    (if \<not> enabled then Inr []
     else if raw = [] then Inl KeyMissing
     else case hexDecode raw of
         None \<Rightarrow> Inl KeyHex
       | Some k \<Rightarrow> if length k \<noteq> wrapKeyLen then Inl KeySize else Inr k)"

section \<open>Packets\<close>

definition randPadLen :: "byte \<Rightarrow> nat" where
  "randPadLen b = unat b mod (wrapMaxPad + 1)"

text \<open>\<open>wrapPacketInto\<close> for a \<open>dst\<close> of \<open>room\<close> bytes: the claim of the counter has been made when the
  destination proves too small. \<open>pad n\<close> is the \<open>n\<close>-th random byte of the padding.\<close>

definition padFor :: "int \<Rightarrow> nat \<Rightarrow> nat \<Rightarrow> nat" where
  "padFor maxBody payloadLen padLen =
    (let room = maxBody - int payloadLen
     in if int padLen > room then (if room < 0 then 0 else nat room) else padLen)"

definition wrapPacketDir ::
    "(byte list \<Rightarrow> byte list) \<Rightarrow> chacha \<Rightarrow> byte \<Rightarrow> wrapCipher \<Rightarrow> int \<Rightarrow> nat \<Rightarrow> byte list \<Rightarrow> byte list
      \<Rightarrow> byte \<Rightarrow> (nat \<Rightarrow> byte) \<Rightarrow> 32 word \<Rightarrow> 64 word \<times> 64 word \<Rightarrow> (wrapError + byte list) \<times> 64 word \<times> 64 word" where
  "wrapPacketDir sha256 chacha dir cipher maxBody room k payload padDraw pad rnd tx =
    (if length k \<noteq> wrapKeyLen then (Inl KeySize, tx)
     else let ((ssrc, counter), tx) = txNext cipher rnd tx;
              padLen = padFor maxBody (length payload) (randPadLen padDraw);
              plaintext = payload @ map pad [0 ..< padLen] @ putBE 2 padLen;
              total = wrapHdrLen + length plaintext
       in if room < total then (Inl DstSmall, tx)
          else (Inr (putHeader counter cipher ssrc @ xorKeystream sha256 chacha cipher k counter ssrc dir plaintext), tx))"

definition wrapPacketInto where
  "wrapPacketInto sha256 chacha = wrapPacketDir sha256 chacha wrapTxDir clientCipher"

definition wrapPacket where
  "wrapPacket sha256 chacha maxBody k payload =
    wrapPacketInto sha256 chacha maxBody (length payload + wrapMaxOverhead) k payload"

definition coverPacketDir ::
    "(byte list \<Rightarrow> byte list) \<Rightarrow> chacha \<Rightarrow> byte \<Rightarrow> wrapCipher \<Rightarrow> byte list
      \<Rightarrow> byte \<Rightarrow> (nat \<Rightarrow> byte) \<Rightarrow> 32 word \<Rightarrow> 64 word \<times> 64 word \<Rightarrow> (wrapError + byte list) \<times> 64 word \<times> 64 word" where
  "coverPacketDir sha256 chacha dir cipher k padDraw pad rnd tx =
    (if length k \<noteq> wrapKeyLen then (Inl KeySize, tx)
     else let ((ssrc, counter), tx) = txNext cipher rnd tx;
              bodyLen = 30 + randPadLen padDraw * 4;
              plaintext = map pad [0 ..< bodyLen] @ putBE 2 wrapCoverMark
       in (Inr (putHeader counter cipher ssrc @ xorKeystream sha256 chacha cipher k counter ssrc dir plaintext), tx))"

definition wrapCoverPacket where
  "wrapCoverPacket sha256 chacha = coverPacketDir sha256 chacha wrapTxDir clientCipher"

text \<open>\<open>unwrapPacket\<close> into a \<open>dst\<close> of \<open>room\<close> bytes; the result is the payload \<open>dst[:n]\<close>, empty for a
  cover packet. \<open>dir\<close> is the direction the reader decrypts, \<open>wrapRxDir\<close> in this client.\<close>

definition unwrapPacketDir ::
    "(byte list \<Rightarrow> byte list) \<Rightarrow> chacha \<Rightarrow> byte \<Rightarrow> byte list \<Rightarrow> byte list \<Rightarrow> nat \<Rightarrow> wrapError + byte list" where
  "unwrapPacketDir sha256 chacha dir k wire room =
    (if length k \<noteq> wrapKeyLen then Inl KeySize
     else if length wire < wrapHdrLen + wrapPadLen then Inl ShortPacket
     else let counter = readHeader (take wrapHdrLen wire);
              cipher = cipherFromHeader (take wrapHdrLen wire);
              ssrc = of_nat (beNat (slice 8 12 wire));
              ciphertext = drop wrapHdrLen wire
       in if length ciphertext < wrapPadLen then Inl ShortPacket
          else if length ciphertext > room then Inl DstSmall
          else let plaintext = xorKeystream sha256 chacha cipher k counter ssrc dir ciphertext;
                   padLen = beNat (drop (length plaintext - wrapPadLen) plaintext)
            in if padLen = wrapCoverMark then Inr []
               else if padLen > wrapMaxPad \<or> wrapPadLen + padLen > length plaintext then Inl BadPadding
               else Inr (take (length plaintext - wrapPadLen - padLen) plaintext))"

definition unwrapPacket where
  "unwrapPacket sha256 chacha = unwrapPacketDir sha256 chacha wrapRxDir"

definition randInterval :: "byte \<Rightarrow> int \<Rightarrow> int \<Rightarrow> duration" where
  "randInterval b minSec maxSec = (minSec + int (unat b) mod (maxSec - minSec + 1)) * second"

end
