(* ===== verification/WrapProps.thy ===== *)
theory WrapProps
  imports Wrap
begin

text \<open>
  What the WRAP layer promises: what is wrapped reads back, no nonce repeats, and the padding never
  lifts a packet over the tuned size.
\<close>

unbundle bit_operations_syntax

section \<open>Keystreams undo themselves\<close>

definition keystreams :: "(byte list \<Rightarrow> byte list) \<Rightarrow> chacha \<Rightarrow> bool" where
  "keystreams sha256 chacha \<longleftrightarrow> (\<forall>x. length (sha256 x) = 32) \<and> (\<forall>k n l. length (chacha k n l) = l)"

lemma length_xorBytes [simp]: "length (xorBytes xs ks) = min (length xs) (length ks)"
  by (simp add: xorBytes_def)

lemma xorBytes_twice: "length xs \<le> length ks \<Longrightarrow> xorBytes (xorBytes xs ks) ks = xs"
proof (induction xs arbitrary: ks)
  case (Cons x xs)
  then obtain k ks' where ks: "ks = k # ks'" "length xs \<le> length ks'" by (cases ks) auto
  have "(x XOR k) XOR k = x" by (simp add: xor.assoc)
  with Cons.IH [OF ks(2)] show ?case by (simp add: ks xorBytes_def)
qed (simp add: xorBytes_def)

lemma xorBlocks_short: "length data \<le> 32 \<Longrightarrow> xorBlocks sha256 state data = xorBytes data state"
  by (subst xorBlocks.simps) simp

lemma xorBlocks_long: "\<not> length data \<le> 32 \<Longrightarrow> xorBlocks sha256 state data =
    xorBytes (take 32 data) state @ xorBlocks sha256 (sha256 state) (drop 32 data)"
  by (subst xorBlocks.simps) simp

lemma xorBlocks_props:
  "\<forall>x. length (sha256 x) = 32 \<Longrightarrow> length state = 32 \<Longrightarrow>
   length (xorBlocks sha256 state data) = length data \<and>
   xorBlocks sha256 state (xorBlocks sha256 state data) = data"
proof (induction sha256 state data rule: xorBlocks.induct)
  case (1 sha256 state data)
  show ?case
  proof (cases "length data \<le> 32")
    case True
    with 1(3) show ?thesis by (simp add: xorBlocks_short xorBytes_twice)
  next
    case False
    obtain a b where ab: "data = a @ b" "length a = 32" "b \<noteq> []"
      using False by (intro that [of "take 32 data" "drop 32 data"]) auto
    have ih: "length (xorBlocks sha256 (sha256 state) b) = length b"
      "xorBlocks sha256 (sha256 state) (xorBlocks sha256 (sha256 state) b) = b"
      using 1(1) [OF False 1(2)] 1(2) ab by auto
    have e: "xorBlocks sha256 state data = xorBytes a state @ xorBlocks sha256 (sha256 state) b"
      using xorBlocks_long [OF False, of sha256 state] ab by simp
    have nl: "\<not> length (xorBytes a state @ xorBlocks sha256 (sha256 state) b) \<le> 32"
      using ab ih 1(3) by (cases b) auto
    have "xorBlocks sha256 state (xorBytes a state @ xorBlocks sha256 (sha256 state) b) =
        xorBytes (xorBytes a state) state @ b"
      using xorBlocks_long [OF nl, of sha256 state] ab(2) 1(3) ih(2) by simp
    with e ab ih 1(3) show ?thesis by (simp add: xorBytes_twice)
  qed
qed

lemma xorKeystream_props:
  assumes "keystreams sha256 chacha"
  shows "length (xorKeystream sha256 chacha ci k c ssrc d data) = length data"
    "xorKeystream sha256 chacha ci k c ssrc d (xorKeystream sha256 chacha ci k c ssrc d data) = data"
proof -
  have sha: "\<forall>x. length (sha256 x) = 32" and cha: "\<And>k n l. length (chacha k n l) = l"
    using assms by (auto simp: keystreams_def)
  have b: "length (xorBlocks sha256 (sha256 s) data) = length data \<and>
      xorBlocks sha256 (sha256 s) (xorBlocks sha256 (sha256 s) data) = data" for s data
    using xorBlocks_props [OF sha, of "sha256 s" data] sha by blast
  have ne: "xorBlocks sha256 (sha256 s) data \<noteq> []" if "data \<noteq> []" for s
    using b [of s data] that by (metis length_0_conv)
  have nx: "xorBytes data (chacha k n (length data)) = [] \<longleftrightarrow> data = []" for n
    by (metis cha length_0_conv length_xorBytes min.idem)
  show "length (xorKeystream sha256 chacha ci k c ssrc d data) = length data"
    by (simp add: xorKeystream_def xorChaCha_def xorInPlace_def b cha)
  show "xorKeystream sha256 chacha ci k c ssrc d (xorKeystream sha256 chacha ci k c ssrc d data) = data"
    by (simp add: xorKeystream_def xorChaCha_def xorInPlace_def b cha ne nx xorBytes_twice)
qed

section \<open>The header\<close>

lemma length_putHeader [simp]: "length (putHeader c ci s) = 12"
  by (simp add: putHeader_def Let_def)

lemma header_parts:
  "slice 4 8 (putHeader c ci s) = putBE 4 (c * 960)" "slice 8 12 (putHeader c ci s) = putBE 4 (unat s)"
  "cipherFromHeader (putHeader c ci s) = ci"
proof -
  have "(0x80 OR 0x10 :: byte) AND 0x10 \<noteq> 0" "(0x80 :: byte) AND 0x10 = 0" by simp_all
  then show "cipherFromHeader (putHeader c ci s) = ci"
    by (cases ci) (simp_all add: putHeader_def Let_def cipherFromHeader_def wrapXBit_def)
qed (simp_all add: putHeader_def Let_def slice_def)

lemma readHeader_putHeader:
  assumes "c < wrapCounterMod"
  shows "readHeader (putHeader c ci s) = c"
proof -
  have "c * 960 < 256 ^ 4" using assms by (simp add: go_consts)
  then show ?thesis by (simp add: readHeader_def header_parts beNat_putBE)
qed

lemma ssrc_roundtrip: "of_nat (beNat (putBE 4 (unat (s :: 32 word)))) = s"
proof -
  have "unat s < 2 ^ 32" by (rule order.strict_trans2 [OF unsigned_less]) simp
  then show ?thesis by (simp add: beNat_putBE)
qed

section \<open>Reading back\<close>

text \<open>What a reader makes of a deciphered body.\<close>

definition bodyOf :: "byte list \<Rightarrow> wrapError + byte list" where
  "bodyOf plaintext =
    (let padLen = beNat (drop (length plaintext - wrapPadLen) plaintext)
     in if padLen = wrapCoverMark then Inr []
        else if padLen > wrapMaxPad \<or> wrapPadLen + padLen > length plaintext then Inl BadPadding
        else Inr (take (length plaintext - wrapPadLen - padLen) plaintext))"

lemma unwrap_wire:
  assumes ks: "keystreams sha256 chacha" and k: "length k = wrapKeyLen" and c: "c < wrapCounterMod"
    and p: "2 \<le> length plaintext" "length plaintext \<le> room"
  shows "unwrapPacketDir sha256 chacha d k (putHeader c ci s @ xorKeystream sha256 chacha ci k c s d plaintext) room = bodyOf plaintext"
proof -
  let ?h = "putHeader c ci s" and ?x = "xorKeystream sha256 chacha ci k c s d plaintext"
  have t: "take wrapHdrLen (?h @ ?x) = ?h" "drop wrapHdrLen (?h @ ?x) = ?x"
    by (simp_all add: wrapHdrLen_def)
  have s8: "slice 8 12 (?h @ ?x) = putBE 4 (unat s)"
    by (simp add: slice_append1 header_parts)
  have l: "length ?x = length plaintext" by (rule xorKeystream_props(1) [OF ks])
  have "\<not> length (?h @ ?x) < wrapHdrLen + wrapPadLen" "\<not> length ?x < wrapPadLen" "\<not> length ?x > room"
    using p l by (simp_all add: wrapHdrLen_def wrapPadLen_def)
  with k show ?thesis
    by (simp only: unwrapPacketDir_def Let_def t s8 header_parts readHeader_putHeader [OF c] ssrc_roundtrip
        xorKeystream_props(2) [OF ks] bodyOf_def if_False not_True_eq_False not_False_eq_True simp_thms)
qed

lemma bodyOf_payload:
  assumes "n \<le> wrapMaxPad" "length pad = n"
  shows "bodyOf (payload @ pad @ putBE 2 n) = Inr payload"
proof -
  have "beNat (putBE 2 n) = n" using assms(1) by (simp add: beNat_putBE go_consts)
  with assms show ?thesis by (simp add: bodyOf_def Let_def go_consts)
qed

lemma bodyOf_cover: "bodyOf (pad @ putBE 2 wrapCoverMark) = Inr []"
  by (simp add: bodyOf_def Let_def beNat_putBE go_consts)

section \<open>The state of a sender\<close>

text \<open>\<open>packed ssrc c state\<close>: the word holds this SSRC and this counter, in range.\<close>

definition packed :: "32 word \<Rightarrow> nat \<Rightarrow> 64 word \<Rightarrow> bool" where
  "packed ssrc c state \<longleftrightarrow> unat state = unat ssrc * 2 ^ 32 + c \<and> c < wrapCounterMod"

lemma unat_low: "unat (state AND 0xFFFFFFFF :: 64 word) = unat state mod 2 ^ 32"
proof -
  have "(0xFFFFFFFF :: 64 word) = mask 32" by (simp add: mask_eq_exp_minus_1)
  then have "state AND 0xFFFFFFFF = take_bit 32 state" by (simp add: take_bit_eq_mask)
  then have "unat (state AND 0xFFFFFFFF) = take_bit 32 (unat state)" by (simp add: unsigned_take_bit_eq)
  then show ?thesis by (simp add: take_bit_eq_mod)
qed

lemma unat32: "unat (s :: 32 word) < 2 ^ 32"
  by (rule order.strict_trans2 [OF unsigned_less]) simp

lemma unat_high: "unat (ucast (drop_bit 32 (state :: 64 word)) :: 32 word) = unat state div 2 ^ 32"
proof -
  have "unat state < 2 ^ 64" by (rule order.strict_trans2 [OF unsigned_less]) simp
  then have "unat state div 2 ^ 32 < 2 ^ 32" by (simp add: less_mult_imp_div_less)
  then show ?thesis
    by (simp add: unsigned_ucast_eq drop_bit_eq_div take_bit_eq_mod unat_div_distrib)
qed

lemma unat_shifted: "unat (push_bit 32 (ucast (s :: 32 word)) :: 64 word) = unat s * 2 ^ 32"
proof -
  have "unat s * 2 ^ 32 < 2 ^ 64" using unat32 [of s] by simp
  moreover have "unat (ucast s :: 64 word) = unat s"
    using unat32 [of s] by (simp add: unsigned_ucast_eq take_bit_eq_mod)
  ultimately show ?thesis
    by (simp add: push_bit_eq_mult unat_word_ariths)
qed

lemma packed_parts:
  assumes "packed ssrc c state"
  shows "ucast (drop_bit 32 state) = ssrc" "unat (state AND 0xFFFFFFFF) = c" "c < wrapCounterMod"
proof -
  show cm: "c < wrapCounterMod" using assms by (simp add: packed_def)
  then have c32: "c < 2 ^ 32" by (simp add: go_consts)
  have "unat (ucast (drop_bit 32 state) :: 32 word) = unat ssrc"
    using assms c32 by (simp add: unat_high packed_def)
  then show "ucast (drop_bit 32 state) = ssrc" by (simp add: word_unat_eq_iff)
  show "unat (state AND 0xFFFFFFFF) = c" using assms c32 by (simp add: unat_low packed_def)
qed

lemma packed_new: "packed rnd 0 (push_bit 32 (ucast rnd))"
  by (simp add: packed_def unat_shifted wrapCounterMod_def)

lemma txNext_packed:
  assumes "packed ssrc c state"
  shows "fst (txNext cipherChaCha rnd (state, g)) = (ssrc, c)"
    "if c + 1 < wrapCounterMod then packed ssrc (c + 1) (fst (snd (txNext cipherChaCha rnd (state, g))))
     else packed rnd 0 (fst (snd (txNext cipherChaCha rnd (state, g))))"
proof -
  note p = packed_parts [OF assms]
  have c1: "unat ((state AND 0xFFFFFFFF) + 1) = c + 1"
    using p(2,3) by (simp add: unat_word_ariths go_consts)
  have "unat state + 1 < 2 ^ 64"
    using assms unat32 [of ssrc] by (simp add: packed_def go_consts)
  then have s1: "unat (state + 1) = unat state + 1" by (simp add: unat_word_ariths)
  show "fst (txNext cipherChaCha rnd (state, g)) = (ssrc, c)"
    by (simp add: txNext_def Let_def p)
  have n: "fst (snd (txNext cipherChaCha rnd (state, g))) =
      (if c + 1 \<ge> wrapCounterMod then push_bit 32 (ucast rnd) else state + 1)"
    by (simp add: txNext_def Let_def c1)
  show "if c + 1 < wrapCounterMod then packed ssrc (c + 1) (fst (snd (txNext cipherChaCha rnd (state, g))))
     else packed rnd 0 (fst (snd (txNext cipherChaCha rnd (state, g))))"
    using assms packed_new unfolding n by (auto simp: packed_def s1)
qed

section \<open>Round trips\<close>

lemma padFor_le: "padFor maxBody n p \<le> p"
  by (auto simp: padFor_def Let_def)

lemma randPadLen_le: "randPadLen b \<le> wrapMaxPad"
  by (simp add: randPadLen_def less_Suc_eq_le [symmetric])

lemma txNext_counter:
  assumes "packed ssrc c (fst tx)" "txNext ci rnd tx = ((s, n), tx')"
  shows "n < wrapCounterMod"
proof (cases ci)
  case cipherSHA
  with assms(2) show ?thesis
    by (auto simp: txNext_def nextGlobalWrapCounter_def wrapCounterMod_def split: prod.splits)
next
  case cipherChaCha
  with assms txNext_packed(1) [of ssrc c "fst tx" rnd "snd tx"] packed_parts(3) [OF assms(1)]
  show ?thesis by simp
qed

text \<open>
  C7. What a sender wraps, its reader unwraps: for either keystream, any payload, padding and counter
  in range, a reader with the same key and direction that has room for the body gets the payload
  back. (A server that mirrors this code sends in the direction \<open>wrapRxDir\<close> this client reads.)
\<close>

theorem wrapped_packet_reads_back:
  assumes "keystreams sha256 chacha" "packed ssrc c (fst tx)"
    and w: "wrapPacketDir sha256 chacha wrapRxDir ci maxBody room k payload draw pad rnd tx = (Inr wire, tx')"
    and room: "length wire \<le> room' + wrapHdrLen"
  shows "unwrapPacket sha256 chacha k wire room' = Inr payload"
proof -
  obtain s n tx1 where t: "txNext ci rnd tx = ((s, n), tx1)" by (metis prod.exhaust)
  let ?n = "padFor maxBody (length payload) (randPadLen draw)"
  let ?p = "payload @ map pad [0 ..< ?n] @ putBE 2 ?n"
  have k: "length k = wrapKeyLen" and wire: "wire = putHeader n ci s @ xorKeystream sha256 chacha ci k n s wrapRxDir ?p"
    using w by (auto simp: wrapPacketDir_def t Let_def split: if_splits)
  have "length ?p \<le> room'"
    using room xorKeystream_props(1) [OF assms(1), of ci k n s wrapRxDir ?p]
    unfolding wire by (simp add: wrapHdrLen_def)
  then have "unwrapPacketDir sha256 chacha wrapRxDir k wire room' = bodyOf ?p"
    unfolding wire by (intro unwrap_wire assms(1) k txNext_counter [OF assms(2) t]) simp_all
  moreover have "bodyOf ?p = Inr payload"
    by (rule bodyOf_payload) (use padFor_le randPadLen_le le_trans in blast, simp)
  ultimately show ?thesis by (simp add: unwrapPacket_def)
qed

text \<open>
  A cover packet reads as no payload at all, never as data for the tunnel.
\<close>

theorem cover_packet_reads_empty:
  assumes "keystreams sha256 chacha" "packed ssrc c (fst tx)"
    and w: "coverPacketDir sha256 chacha wrapRxDir ci k draw pad rnd tx = (Inr wire, tx')"
    and room: "length wire \<le> room' + wrapHdrLen"
  shows "unwrapPacket sha256 chacha k wire room' = Inr []"
proof -
  obtain s n tx1 where t: "txNext ci rnd tx = ((s, n), tx1)" by (metis prod.exhaust)
  let ?p = "map pad [0 ..< 30 + randPadLen draw * 4] @ putBE 2 wrapCoverMark"
  have k: "length k = wrapKeyLen" and wire: "wire = putHeader n ci s @ xorKeystream sha256 chacha ci k n s wrapRxDir ?p"
    using w by (auto simp: coverPacketDir_def t Let_def split: if_splits)
  have "length ?p \<le> room'"
    using room xorKeystream_props(1) [OF assms(1), of ci k n s wrapRxDir ?p]
    unfolding wire by (simp add: wrapHdrLen_def)
  then have "unwrapPacketDir sha256 chacha wrapRxDir k wire room' = bodyOf ?p"
    unfolding wire by (intro unwrap_wire assms(1) k txNext_counter [OF assms(2) t]) simp_all
  then show ?thesis by (simp only: unwrapPacket_def bodyOf_cover)
qed

text \<open>Trivial keystreams: the laws hold of them, so they can be met.\<close>

definition zeroSha :: "byte list \<Rightarrow> byte list" where "zeroSha x = replicate 32 0"
definition countChacha :: chacha where "countChacha k n l = map (\<lambda>i. of_nat (length k + i)) [0 ..< l]"

lemma keystreams_example: "keystreams zeroSha countChacha"
  by (simp add: keystreams_def zeroSha_def countChacha_def)

abbreviation exampleKey :: "byte list" where "exampleKey \<equiv> replicate 32 7"

lemma packed_example: "packed 5 0 (fst (newWrapTxState 5, 0))"
  using packed_new [of 5] by (simp add: newWrapTxState_def)

theorem wrapped_packet_reads_back_witness:
  "\<exists>wire tx'. wrapPacketDir zeroSha countChacha wrapRxDir cipherChaCha 1312 100 exampleKey [1, 2, 3] 40 (\<lambda>_. 9) 6
      (newWrapTxState 5, 0) = (Inr wire, tx') \<and>
    unwrapPacket zeroSha countChacha exampleKey wire 1500 = Inr [1, 2, 3]"
proof -
  obtain s n tx1 where t: "txNext cipherChaCha 6 (newWrapTxState 5, 0) = ((s, n), tx1)" by (metis prod.exhaust)
  obtain wire tx' where w: "wrapPacketDir zeroSha countChacha wrapRxDir cipherChaCha 1312 100 exampleKey [1, 2, 3] 40 (\<lambda>_. 9) 6
      (newWrapTxState 5, 0) = (Inr wire, tx')"
    by (simp add: wrapPacketDir_def t Let_def padFor_def randPadLen_def go_consts)
  then have "length wire \<le> 1500 + wrapHdrLen"
    by (auto simp: wrapPacketDir_def t Let_def padFor_def randPadLen_def go_consts
        xorKeystream_props(1) [OF keystreams_example])
  with w show ?thesis
    using wrapped_packet_reads_back [OF keystreams_example packed_example w] by blast
qed

theorem cover_packet_reads_empty_witness:
  "\<exists>wire tx'. coverPacketDir zeroSha countChacha wrapRxDir cipherChaCha exampleKey 40 (\<lambda>_. 9) 6
      (newWrapTxState 5, 0) = (Inr wire, tx') \<and>
    unwrapPacket zeroSha countChacha exampleKey wire 1500 = Inr []"
proof -
  obtain s n tx1 where t: "txNext cipherChaCha 6 (newWrapTxState 5, 0) = ((s, n), tx1)" by (metis prod.exhaust)
  obtain wire tx' where w: "coverPacketDir zeroSha countChacha wrapRxDir cipherChaCha exampleKey 40 (\<lambda>_. 9) 6
      (newWrapTxState 5, 0) = (Inr wire, tx')"
    by (simp add: coverPacketDir_def t Let_def go_consts)
  then have "length wire \<le> 1500 + wrapHdrLen"
    by (auto simp: coverPacketDir_def t Let_def randPadLen_def go_consts
        xorKeystream_props(1) [OF keystreams_example])
  with w show ?thesis
    using cover_packet_reads_empty [OF keystreams_example packed_example w] by blast
qed

section \<open>Nonces\<close>

text \<open>The pairs \<open>n\<close> sends claim in a row; \<open>draw q\<close> is the SSRC the \<open>q\<close>-th identity gets.\<close>

fun claims :: "(nat \<Rightarrow> 32 word) \<Rightarrow> nat \<Rightarrow> 64 word \<times> 64 word \<Rightarrow> nat \<Rightarrow> (32 word \<times> nat) list" where
  "claims draw q tx 0 = []"
| "claims draw q tx (Suc n) =
    (let (p, tx') = txNext clientCipher (draw (q + 1)) tx
     in p # claims draw (if snd p + 1 < wrapCounterMod then q else q + 1) tx' n)"

lemma claims_eq:
  "packed (draw q) c state \<Longrightarrow>
   claims draw q (state, g) n = map (\<lambda>m. (draw (m div wrapCounterMod), m mod wrapCounterMod))
     [q * wrapCounterMod + c ..< q * wrapCounterMod + c + n]"
proof (induction n arbitrary: q c state g)
  case (Suc n)
  obtain state' g' where t: "txNext cipherChaCha (draw (q + 1)) (state, g) = ((draw q, c), state', g')"
    using txNext_packed(1) [OF Suc.prems, of "draw (q + 1)" g] by (metis prod.collapse)
  note p = txNext_packed(2) [OF Suc.prems, of "draw (q + 1)" g]
  have cm: "c < wrapCounterMod" using Suc.prems by (simp add: packed_def)
  then have h: "(q * wrapCounterMod + c) div wrapCounterMod = q" "(q * wrapCounterMod + c) mod wrapCounterMod = c"
    by simp_all
  have "claims draw (if c + 1 < wrapCounterMod then q else q + 1) (state', g') n =
      map (\<lambda>m. (draw (m div wrapCounterMod), m mod wrapCounterMod))
        [q * wrapCounterMod + c + 1 ..< q * wrapCounterMod + c + 1 + n]"
  proof (cases "c + 1 < wrapCounterMod")
    case True
    then have "packed (draw q) (c + 1) state'" using p t by simp
    from Suc.IH [OF this, of g'] True show ?thesis by simp
  next
    case False
    then have "packed (draw (q + 1)) 0 state'" using p t by simp
    from Suc.IH [OF this, of g']
    have i: "claims draw (q + 1) (state', g') n = map (\<lambda>m. (draw (m div wrapCounterMod), m mod wrapCounterMod))
        [(q + 1) * wrapCounterMod + 0 ..< (q + 1) * wrapCounterMod + 0 + n]" .
    have "(q + 1) * wrapCounterMod + 0 = q * wrapCounterMod + c + 1" using False cm by simp
    with i False show ?thesis by (simp only: if_False)
  qed
  moreover have "[q * wrapCounterMod + c ..< q * wrapCounterMod + c + Suc n] =
      (q * wrapCounterMod + c) # [q * wrapCounterMod + c + 1 ..< q * wrapCounterMod + c + 1 + n]"
    by (simp add: upt_conv_Cons del: upt_Suc)
  ultimately show ?case
    by (simp only: claims.simps clientCipher_def t Let_def prod.case snd_conv list.map h)
qed simp

lemma nonce_inj:
  assumes "wrapChaChaNonce s d c = wrapChaChaNonce s' d c'" "c < wrapCounterMod" "c' < wrapCounterMod"
  shows "s = s' \<and> c = c'"
proof -
  have "putBE 4 (unat s) = putBE 4 (unat s')" "putBE 4 c = putBE 4 c'"
    using assms(1) by (simp_all add: wrapChaChaNonce_def)
  then have "unat s mod 256 ^ 4 = unat s' mod 256 ^ 4" "c mod 256 ^ 4 = c' mod 256 ^ 4"
    by (metis beNat_putBE)+
  with assms(2,3) unat32 [of s] unat32 [of s'] show ?thesis by (simp add: go_consts word_unat_eq_iff)
qed

text \<open>
  C8. No keystream is used twice: as long as the SSRCs a stream draws differ, the nonces of all the packets
  it sends differ, however many they are; the counter is never at the limit the reader cannot
  recover, and a new SSRC is taken up every \<open>wrapCounterMod\<close> packets.
\<close>

theorem nonces_never_repeat:
  assumes "inj_on draw {.. n div wrapCounterMod}"
  shows "distinct (map (\<lambda>(s, c). wrapChaChaNonce s wrapTxDir c) (claims draw 0 (newWrapTxState (draw 0), g) n)) \<and>
    claims draw 0 (newWrapTxState (draw 0), g) n =
      map (\<lambda>m. (draw (m div wrapCounterMod), m mod wrapCounterMod)) [0 ..< n]"
proof -
  have e: "claims draw 0 (newWrapTxState (draw 0), g) n =
      map (\<lambda>m. (draw (m div wrapCounterMod), m mod wrapCounterMod)) [0 ..< n]"
    using claims_eq [OF packed_new, of draw 0 g n] by (simp add: newWrapTxState_def)
  have M: "0 < wrapCounterMod" by (simp add: wrapCounterMod_def)
  have "inj_on (\<lambda>m. wrapChaChaNonce (draw (m div wrapCounterMod)) wrapTxDir (m mod wrapCounterMod)) {0 ..< n}"
  proof (rule inj_onI)
    fix a b assume ab: "a \<in> {0 ..< n}" "b \<in> {0 ..< n}"
      "wrapChaChaNonce (draw (a div wrapCounterMod)) wrapTxDir (a mod wrapCounterMod) =
       wrapChaChaNonce (draw (b div wrapCounterMod)) wrapTxDir (b mod wrapCounterMod)"
    then have "draw (a div wrapCounterMod) = draw (b div wrapCounterMod)" "a mod wrapCounterMod = b mod wrapCounterMod"
      using nonce_inj [OF ab(3)] M by simp_all
    moreover have "a div wrapCounterMod \<le> n div wrapCounterMod" "b div wrapCounterMod \<le> n div wrapCounterMod"
      using ab by (simp_all add: div_le_mono)
    ultimately show "a = b" using inj_onD [OF assms] by (metis atMost_iff div_mult_mod_eq)
  qed
  then show ?thesis unfolding e by (simp add: distinct_map comp_def split_beta)
qed

theorem nonces_never_repeat_witness:
  "distinct (map (\<lambda>(s, c). wrapChaChaNonce s wrapTxDir c) (claims of_nat 0 (newWrapTxState (of_nat 0), 0) 9000000))"
proof -
  have "inj_on (of_nat :: nat \<Rightarrow> 32 word) {.. 9000000 div wrapCounterMod}"
    by (rule inj_onI) (simp add: wrapCounterMod_def word_unat_eq_iff unat_of_nat)
  from nonces_never_repeat [OF this] show ?thesis by blast
qed

section \<open>Sizes and keys\<close>

text \<open>
  The padding keeps to the tuned size: a packet is at most the header, the pad length and the larger of its
  payload and the ceiling, so a payload that fits ships within it, and one that does not ships unpadded;
  and the buffer \<open>wrapPacket\<close> makes for itself always suffices.
\<close>

theorem wrapped_size_keeps_to_the_ceiling:
  assumes "keystreams sha256 chacha" "length k = wrapKeyLen"
  shows "\<exists>wire tx'. wrapPacket sha256 chacha maxBody k payload draw pad rnd tx = (Inr wire, tx') \<and>
    int (length wire) \<le> int (wrapHdrLen + wrapPadLen) + max maxBody (int (length payload)) \<and>
    length wire \<le> length payload + wrapMaxOverhead"
proof -
  obtain s n tx1 where t: "txNext clientCipher rnd tx = ((s, n), tx1)" by (metis prod.exhaust)
  let ?n = "padFor maxBody (length payload) (randPadLen draw)"
  have n: "?n \<le> wrapMaxPad" using padFor_le randPadLen_le le_trans by blast
  have m: "int (length payload) + int ?n \<le> max maxBody (int (length payload))"
    by (auto simp: padFor_def Let_def)
  show ?thesis
    using n m assms(2) by (simp add: wrapPacket_def wrapPacketInto_def wrapPacketDir_def t Let_def go_consts
        xorKeystream_props(1) [OF assms(1)])
qed

theorem wrapped_size_keeps_to_the_ceiling_witness:
  "\<exists>wire tx'. wrapPacket zeroSha countChacha 1312 exampleKey (replicate 1300 0) 40 (\<lambda>_. 9) 6 (newWrapTxState 5, 0) =
      (Inr wire, tx') \<and> length wire \<le> 1326"
  using wrapped_size_keeps_to_the_ceiling [OF keystreams_example, of exampleKey 1312 "replicate 1300 0" 40 "\<lambda>_. 9" 6 "(newWrapTxState 5, 0)"]
  by (auto simp: go_consts)

text \<open>
  A generated key is accepted as it is, and nothing else than 32 bytes of hexadecimal is ever accepted as a
  key.
\<close>

theorem wrap_keys_round_trip:
  "(length rnd = 32 \<longrightarrow> decodeWrapKey True (genWrapKeyHex rnd) = Inr rnd) \<and>
   (decodeWrapKey True raw = Inr k \<longrightarrow> length k = 32 \<and> hexDecode raw = Some k)"
proof -
  have "hexEncode rnd \<noteq> []" if "length rnd = 32" using that by (cases rnd) auto
  then show ?thesis
    by (auto simp: decodeWrapKey_def genWrapKeyHex_def hexDecode_encode go_consts split: if_splits option.splits)
qed

theorem wrap_keys_round_trip_witness:
  "decodeWrapKey True (genWrapKeyHex exampleKey) = Inr exampleKey"
  using wrap_keys_round_trip [of exampleKey] by simp

end
