(* ===== verification/Watchdog.thy ===== *)
theory Watchdog
  imports GoBase "HOL-Library.Word"
begin

text \<open>
  The watchdog of the tunnel (\<open>pkg/watchdog\<close>, \<open>Manager.StartWatchdog\<close> of
  \<open>winbridge/tunnel.go\<close>): from the WireGuard handshakes it judges whether the tunnel is dead
  (\<open>handshake\<close>), takes the course of restarts (\<open>course\<close>), and the loop of the manager acts on it
  (\<open>watchTick\<close>). A tick of the loop takes what it reads of the rest of the program (the statistics,
  the state of the network, the outcome of a restart) as a record of inputs.

  An instant of Go carries the reading of the wall clock and, when \<open>time.Now\<close> took it, that of the
  monotonic clock; the watchdog reads both, because the monotonic one may stand still in sleep.
\<close>

section \<open>Instants on two clocks\<close>

datatype instant = Instant (wallAt: int) (monoAt: "int option")

definition zeroInstant :: instant where
  "zeroInstant = Instant zero_time None"

definition isZeroInstant :: "instant \<Rightarrow> bool" where
  "isZeroInstant t \<longleftrightarrow> wallAt t = zero_time"

text \<open>\<open>Round(0)\<close> strips the monotonic reading; \<open>time.Unix\<close> has none.\<close>

definition stripMono :: "instant \<Rightarrow> instant" where
  "stripMono t = Instant (wallAt t) None"

definition isub :: "instant \<Rightarrow> instant \<Rightarrow> duration" where
  "isub a b = (case (monoAt a, monoAt b) of
     (Some x, Some y) \<Rightarrow> tsub x y
   | _ \<Rightarrow> tsub (wallAt a) (wallAt b))"

definition ibefore :: "instant \<Rightarrow> instant \<Rightarrow> bool" where
  "ibefore a b = (case (monoAt a, monoAt b) of
     (Some x, Some y) \<Rightarrow> x < y
   | _ \<Rightarrow> wallAt a < wallAt b)"

definition iadd :: "instant \<Rightarrow> duration \<Rightarrow> instant" where
  "iadd t d = Instant (wallAt t + d) (map_option (\<lambda>m. m + d) (monoAt t))"

section \<open>Handshakes\<close>

definition PollInterval :: duration where "PollInterval = 30 * second"
definition StaleAfter :: duration where "StaleAfter = 3 * minute"
definition NeverAfter :: duration where "NeverAfter = 150 * second"
definition DeadChecksMax :: nat where "DeadChecksMax = 2"
definition ResumeGap :: duration where "ResumeGap = 2 * PollInterval"
definition RebuiltGrace :: duration where "RebuiltGrace = 90 * second"
definition Rebuilds :: nat where "Rebuilds = 2"
definition SilentHold :: duration where "SilentHold = 5 * minute"

lemmas watchdog_consts [go_consts] = PollInterval_def StaleAfter_def NeverAfter_def DeadChecksMax_def
  ResumeGap_def RebuiltGrace_def Rebuilds_def SilentHold_def

datatype event = Alive | Resumed | Dead

record handshake =
  upSince :: instant
  graceUntil :: instant
  lastPoll :: instant
  prevTx :: "64 word"
  prevTxSet :: bool
  deadChecks :: nat
  never :: duration

definition newHandshake :: "instant \<Rightarrow> handshake" where
  "newHandshake now = \<lparr>upSince = now, graceUntil = zeroInstant, lastPoll = now, prevTx = 0,
     prevTxSet = False, deadChecks = 0, never = NeverAfter\<rparr>"

definition holdHandshake :: "instant \<Rightarrow> handshake \<Rightarrow> handshake" where
  "holdHandshake now h = h\<lparr>upSince := now, lastPoll := now, prevTxSet := False, deadChecks := 0\<rparr>"

definition offlineHandshake :: "instant \<Rightarrow> handshake \<Rightarrow> handshake" where
  "offlineHandshake now h = (holdHandshake now h)\<lparr>graceUntil := iadd now NeverAfter\<rparr>"

definition looksDead :: "handshake \<Rightarrow> instant \<Rightarrow> instant \<Rightarrow> 64 word \<Rightarrow> bool" where
  "looksDead h now lastHandshake tx =
    (if isZeroInstant lastHandshake then isub now (upSince h) > never h
     else isub now lastHandshake > StaleAfter \<and> prevTxSet h \<and> prevTx h < tx)"

definition pollHandshake :: "handshake \<Rightarrow> instant \<Rightarrow> instant \<Rightarrow> 64 word \<Rightarrow> event \<times> handshake" where
  "pollHandshake h now lastHandshake tx =
    (let gap = isub now (lastPoll h); wallGap = isub (stripMono now) (stripMono (lastPoll h)) in
     if gap > ResumeGap \<or> wallGap > ResumeGap then (Resumed, offlineHandshake now h)
     else
       let h = h\<lparr>lastPoll := now\<rparr>;
           isDead = looksDead h now lastHandshake tx;
           h = h\<lparr>prevTx := tx, prevTxSet := True\<rparr> in
       if \<not> isDead \<or> ibefore now (graceUntil h) then (Alive, h\<lparr>deadChecks := 0\<rparr>)
       else
         let h = h\<lparr>deadChecks := deadChecks h + 1\<rparr> in
         (if deadChecks h \<ge> DeadChecksMax then Dead else Alive, h))"

section \<open>The course of restarts\<close>

datatype step = StepNone | StepResumed | StepRecovered | StepRebuild | StepRebuildNewCreds | StepHold | StepTearDown

text \<open>The steps are numbered (\<open>iota\<close>), the less drastic first; up to \<open>StepRecovered\<close> nothing is done.\<close>

primrec stepNumber :: "step \<Rightarrow> nat" where
  "stepNumber StepNone = 0"
| "stepNumber StepResumed = 1"
| "stepNumber StepRecovered = 2"
| "stepNumber StepRebuild = 3"
| "stepNumber StepRebuildNewCreds = 4"
| "stepNumber StepHold = 5"
| "stepNumber StepTearDown = 6"

lemma stepNumber_inj: "stepNumber a = stepNumber b \<Longrightarrow> a = b"
  by (cases a; cases b) simp_all

instantiation step :: linorder
begin
definition less_eq_step :: "step \<Rightarrow> step \<Rightarrow> bool" where
  "less_eq_step a b \<longleftrightarrow> stepNumber a \<le> stepNumber b"
definition less_step :: "step \<Rightarrow> step \<Rightarrow> bool" where
  "less_step a b \<longleftrightarrow> stepNumber a < stepNumber b"
instance by standard (auto simp: less_eq_step_def less_step_def dest: stepNumber_inj)
end

record course =
  hs :: handshake
  since :: instant
  rebuilds :: nat
  heldSince :: instant

definition NewCourse :: "instant \<Rightarrow> course" where
  "NewCourse now = \<lparr>hs = newHandshake now, since = now, rebuilds = 0, heldSince = zeroInstant\<rparr>"

definition holdCourse :: "instant \<Rightarrow> course \<Rightarrow> course" where
  "holdCourse now c = c\<lparr>hs := holdHandshake now (hs c)\<rparr>"

definition offlineCourse :: "instant \<Rightarrow> course \<Rightarrow> course" where
  "offlineCourse now c = c\<lparr>hs := offlineHandshake now (hs c), heldSince := zeroInstant\<rparr>"

definition rebuilt :: "instant \<Rightarrow> course \<Rightarrow> course" where
  "rebuilt t c = c\<lparr>since := t, hs := (holdHandshake t (hs c))\<lparr>never := RebuiltGrace\<rparr>\<rparr>"

text \<open>The verdict of a dead tunnel whose relays answer: the next step of the course.\<close>

definition nextStep :: "course \<Rightarrow> step \<times> course" where
  "nextStep c = (let c = c\<lparr>heldSince := zeroInstant\<rparr> in
     if rebuilds c \<ge> Rebuilds then (StepTearDown, c)
     else if rebuilds c = 0 then (StepRebuild, c\<lparr>rebuilds := rebuilds c + 1\<rparr>)
     else (StepRebuildNewCreds, c\<lparr>rebuilds := rebuilds c + 1\<rparr>))"

text \<open>A handshake older than the transport does not count; one that counts ends the course, and a hold.\<close>

definition seenHandshake :: "course \<Rightarrow> instant \<Rightarrow> instant" where
  "seenHandshake c l = (if ibefore l (since c) then zeroInstant else l)"

definition recovered :: "course \<Rightarrow> instant \<Rightarrow> bool" where
  "recovered c l \<longleftrightarrow> \<not> isZeroInstant (seenHandshake c l) \<and> rebuilds c > 0"

definition noteHandshake :: "course \<Rightarrow> instant \<Rightarrow> course" where
  "noteHandshake c l = c\<lparr>
     rebuilds := (if recovered c l then 0 else rebuilds c),
     heldSince := (if \<not> isZeroInstant (heldSince c) \<and> \<not> ibefore l (heldSince c) then zeroInstant else heldSince c)\<rparr>"

definition pollCourse ::
  "course \<Rightarrow> instant \<Rightarrow> instant \<Rightarrow> 64 word \<Rightarrow> bool \<Rightarrow> step \<times> course" where
  "pollCourse c now lastHandshake tx pathSilent =
    (let back = recovered c lastHandshake;
         (ev, h) = pollHandshake (hs c) now (seenHandshake c lastHandshake) tx;
         c = (noteHandshake c lastHandshake)\<lparr>hs := h\<rparr>
     in if ev = Resumed then (StepResumed, c\<lparr>heldSince := zeroInstant\<rparr>)
        else if \<not> isZeroInstant (heldSince c) \<and> pathSilent then
          (if isub now (heldSince c) \<ge> SilentHold then StepTearDown else StepNone,
           c\<lparr>hs := h\<lparr>deadChecks := 0\<rparr>\<rparr>)
        else if ev = Dead then
          (if pathSilent then (StepHold, c\<lparr>heldSince := now, hs := h\<lparr>deadChecks := 0\<rparr>\<rparr>)
           else nextStep c)
        else (if back then StepRecovered else StepNone, c))"

section \<open>The loop of the manager\<close>

text \<open>
  What one tick of the loop reads: whether the tunnel is connected, the refusal all workers gave up on
  (empty: none), when the transport was last switched from the tray, the time, the page of a waiting
  captcha, whether the network is lost, the statistics, and how a restart of the transport ends.
\<close>

datatype rebuildResult = RebuildOk | RebuildCancelled | RebuildTerminal string | RebuildNotStarted

record tick =
  tConnected :: bool
  tFatal :: string
  tSwitched :: "instant option"
  tNow :: instant
  tCaptcha :: string
  tNetLost :: bool
  tLastHandshake :: instant
  tTx :: "64 word"
  tPathSilent :: duration
  tRebuild :: rebuildResult
  tRebuiltAt :: instant

datatype watchCall = CallRebuild bool | CallFatal string | CallDead

record watch =
  watched :: course
  seenSwitch :: instant

definition startWatch :: "instant \<Rightarrow> instant option \<Rightarrow> watch" where
  "startWatch now switched = \<lparr>watched = NewCourse now,
     seenSwitch = (case switched of None \<Rightarrow> zeroInstant | Some t \<Rightarrow> t)\<rparr>"

text \<open>A tick answers the calls it makes, whether the loop goes on, and its state.\<close>

definition rebuildOn :: "tick \<Rightarrow> bool \<Rightarrow> watch \<Rightarrow> watchCall list \<times> bool \<times> watch" where
  "rebuildOn i newCreds w =
    (let w' = w\<lparr>watched := rebuilt (tRebuiltAt i) (watched w)\<rparr> in
     case tRebuild i of
       RebuildOk \<Rightarrow> ([CallRebuild newCreds], True, w')
     | RebuildCancelled \<Rightarrow> ([CallRebuild newCreds], False, w)
     | RebuildTerminal err \<Rightarrow> ([CallRebuild newCreds, CallFatal err], False, w)
     | RebuildNotStarted \<Rightarrow> ([CallRebuild newCreds], True, w'))"

definition actOn :: "tick \<Rightarrow> step \<Rightarrow> watch \<Rightarrow> watchCall list \<times> bool \<times> watch" where
  "actOn i st w = (case st of
     StepRebuild \<Rightarrow> rebuildOn i False w
   | StepRebuildNewCreds \<Rightarrow> rebuildOn i True w
   | StepTearDown \<Rightarrow> ([CallDead], False, w)
   | _ \<Rightarrow> ([], True, w))"

definition noteSwitch :: "tick \<Rightarrow> watch \<Rightarrow> watch" where
  "noteSwitch i w = (case tSwitched i of
     None \<Rightarrow> w
   | Some t \<Rightarrow> if t \<noteq> seenSwitch w then w\<lparr>seenSwitch := t, watched := rebuilt t (watched w)\<rparr> else w)"

definition watchTick :: "tick \<Rightarrow> watch \<Rightarrow> watchCall list \<times> bool \<times> watch" where
  "watchTick i w =
    (if \<not> tConnected i then ([], False, w)
     else if tFatal i \<noteq> [] then ([CallFatal (tFatal i)], False, w)
     else
       let w = noteSwitch i w in
       if tCaptcha i \<noteq> [] then ([], True, w\<lparr>watched := holdCourse (tNow i) (watched w)\<rparr>)
       else if tNetLost i then ([], True, w\<lparr>watched := offlineCourse (tNow i) (watched w)\<rparr>)
       else
         let (st, c) = pollCourse (watched w) (tNow i) (tLastHandshake i) (tTx i) (tPathSilent i > 0)
         in actOn i st (w\<lparr>watched := c\<rparr>))"

fun watchRun :: "tick list \<Rightarrow> watch \<Rightarrow> watchCall list \<times> bool \<times> watch" where
  "watchRun [] w = ([], True, w)"
| "watchRun (i # is) w =
    (let (calls, on, w) = watchTick i w in
     if on then (let (more, on, w) = watchRun is w in (calls @ more, on, w)) else (calls, False, w))"

end
