(* ===== verification/WatchdogProps.thy ===== *)
theory WatchdogProps
  imports Watchdog "HOL-Library.Sublist"
begin

text \<open>
  What the watchdog promises: it leaves a tunnel with a fresh handshake alone, it restarts the
  transport only on the second dead verdict in a row and over a path that answers, it restarts it at
  most twice between handshakes, and it gives the tunnel up within a bounded time.
\<close>

section \<open>Restarts\<close>

lemma isZero_zeroInstant [simp]: "isZeroInstant zeroInstant"
  by (simp add: isZeroInstant_def zeroInstant_def)

text \<open>A poll says \<open>Dead\<close> only for a tunnel that looks dead, at the second such poll at the least.\<close>

lemma poll_Dead:
  assumes "pollHandshake h now seen tx = (Dead, h')"
  shows "looksDead h now seen tx \<and> 1 \<le> deadChecks h"
proof -
  have "looksDead (h\<lparr>lastPoll := now\<rparr>) now seen tx = looksDead h now seen tx" by (simp add: looksDead_def)
  then show ?thesis
    using assms by (simp add: pollHandshake_def Let_def DeadChecksMax_def split: if_splits)
qed

lemma nextStep_cases:
  obtains "2 \<le> rebuilds c" "nextStep c = (StepTearDown, c\<lparr>heldSince := zeroInstant\<rparr>)"
  | "rebuilds c = 0" "nextStep c = (StepRebuild, c\<lparr>heldSince := zeroInstant, rebuilds := 1\<rparr>)"
  | "rebuilds c = 1" "nextStep c = (StepRebuildNewCreds, c\<lparr>heldSince := zeroInstant, rebuilds := 2\<rparr>)"
proof -
  consider "2 \<le> rebuilds c" | "rebuilds c = 0" | "rebuilds c = 1" by linarith
  then show ?thesis
    by cases (simp_all add: that nextStep_def Let_def Rebuilds_def)
qed

text \<open>The course after the handshakes were noted, the verdict of the poll in it.\<close>

definition polled :: "course \<Rightarrow> instant \<Rightarrow> handshake \<Rightarrow> course" where
  "polled c l h = (noteHandshake c l)\<lparr>hs := h\<rparr>"

lemma polled_simps [simp]:
  "hs (polled c l h) = h" "since (polled c l h) = since c"
  "rebuilds (polled c l h) = (if recovered c l then 0 else rebuilds c)"
  "\<not> ibefore l (heldSince c) \<Longrightarrow> isZeroInstant (heldSince (polled c l h))"
  "ibefore l (heldSince c) \<Longrightarrow> heldSince (polled c l h) = heldSince c"
  by (auto simp: polled_def noteHandshake_def)

lemma pollCourse_eq:
  assumes "pollHandshake (hs c) now (seenHandshake c l) tx = (ev, h)"
  shows "pollCourse c now l tx silent =
    (if ev = Resumed then (StepResumed, (polled c l h)\<lparr>heldSince := zeroInstant\<rparr>)
     else if \<not> isZeroInstant (heldSince (polled c l h)) \<and> silent then
       (if isub now (heldSince (polled c l h)) \<ge> SilentHold then StepTearDown else StepNone,
        (polled c l h)\<lparr>hs := h\<lparr>deadChecks := 0\<rparr>\<rparr>)
     else if ev = Dead then
       (if silent then (StepHold, (polled c l h)\<lparr>heldSince := now, hs := h\<lparr>deadChecks := 0\<rparr>\<rparr>)
        else nextStep (polled c l h))
     else (if recovered c l then StepRecovered else StepNone, polled c l h))"
  by (simp only: pollCourse_def Let_def assms prod.case polled_def)

text \<open>A tick of the manager's loop that calls anything but for a fatal refusal polled the course.\<close>

lemma rebuildOn_calls:
  assumes "rebuildOn i b w = (calls, on, w')"
  shows "\<exists>fatal. calls = CallRebuild b # fatal \<and> CallDead \<notin> set fatal \<and> (\<forall>x. CallRebuild x \<notin> set fatal)"
    and "on \<Longrightarrow> calls = [CallRebuild b] \<and> w' = w\<lparr>watched := rebuilt (tRebuiltAt i) (watched w)\<rparr>"
  using assms by (auto simp: rebuildOn_def Let_def split: rebuildResult.splits)

lemma actOn_rebuild:
  assumes "actOn i st w = (calls, on, w')" "CallRebuild b \<in> set calls"
  shows "st = (if b then StepRebuildNewCreds else StepRebuild) \<and> rebuildOn i b w = (calls, on, w')"
  using assms rebuildOn_calls(1) [of i b w] rebuildOn_calls(1) [of i "\<not> b" w]
  by (cases st; cases b) (fastforce simp: actOn_def)+

text \<open>
  The transport is restarted only for the second dead verdict in a row, over a network that is there
  and relays that answer, while no captcha waits for the user and nothing refused for good; and while the relays are silent
  a verdict never restarts it, whatever the polls show.
\<close>

theorem restart_needs_two_dead_polls:
  assumes "watchTick i w = (calls, on, w')" "CallRebuild newCreds \<in> set calls"
  shows "1 \<le> deadChecks (hs (watched (noteSwitch i w))) \<and>
    looksDead (hs (watched (noteSwitch i w))) (tNow i)
      (seenHandshake (watched (noteSwitch i w)) (tLastHandshake i)) (tTx i) \<and>
    tPathSilent i \<le> 0 \<and> \<not> tNetLost i \<and> tCaptcha i = [] \<and> tFatal i = [] \<and> tConnected i"
proof -
  let ?w = "noteSwitch i w" and ?c = "watched (noteSwitch i w)"
  have g: "\<not> tNetLost i" "tCaptcha i = []" "tFatal i = []" "tConnected i"
    using assms by (auto simp: watchTick_def Let_def split: if_splits)
  obtain st c where p: "pollCourse ?c (tNow i) (tLastHandshake i) (tTx i) (tPathSilent i > 0) = (st, c)" by fastforce
  have a: "actOn i st (?w\<lparr>watched := c\<rparr>) = (calls, on, w')"
    using assms(1) g p by (simp add: watchTick_def Let_def)
  from actOn_rebuild [OF this assms(2)] have st: "st = StepRebuild \<or> st = StepRebuildNewCreds" by auto
  obtain ev h where q: "pollHandshake (hs ?c) (tNow i) (seenHandshake ?c (tLastHandshake i)) (tTx i) = (ev, h)" by fastforce
  have "ev = Dead \<and> \<not> tPathSilent i > 0"
    using p st unfolding pollCourse_eq [OF q] by (auto split: if_splits)
  then show ?thesis using g poll_Dead [of "hs ?c"] q by auto
qed

section \<open>The ladder of restarts\<close>

fun restarts :: "watchCall list \<Rightarrow> bool list" where
  "restarts [] = []"
| "restarts (CallRebuild b # cs) = b # restarts cs"
| "restarts (_ # cs) = restarts cs"

lemma restarts_append [simp]: "restarts (xs @ ys) = restarts xs @ restarts ys"
  by (induction xs rule: restarts.induct) auto

lemma restarts_Nil_iff: "restarts cs = [] \<longleftrightarrow> (\<forall>b. CallRebuild b \<notin> set cs)"
  by (induction cs rule: restarts.induct) auto

text \<open>No handshake since the instant \<open>s\<close>, and what restarts the transport happens after it.\<close>

definition quiet :: "int \<Rightarrow> tick \<Rightarrow> bool" where
  "quiet s i \<longleftrightarrow> monoAt (tLastHandshake i) = None \<and> wallAt (tLastHandshake i) < s \<and>
    s \<le> wallAt (tRebuiltAt i) \<and> (case tSwitched i of None \<Rightarrow> True | Some t \<Rightarrow> s \<le> wallAt t)"

lemma quiet_seen:
  assumes "quiet s i" "s \<le> wallAt (since c)"
  shows "seenHandshake c (tLastHandshake i) = zeroInstant" "\<not> recovered c (tLastHandshake i)"
proof -
  have "ibefore (tLastHandshake i) (since c)" using assms by (simp add: quiet_def ibefore_def)
  then show "seenHandshake c (tLastHandshake i) = zeroInstant" by (simp add: seenHandshake_def)
  then show "\<not> recovered c (tLastHandshake i)" by (simp add: recovered_def)
qed

text \<open>What one poll does to the count of restarts, where no handshake came since the transport's start.\<close>

lemma poll_ladder:
  assumes "pollCourse c now l tx silent = (st, c')" "\<not> recovered c l" "rebuilds c \<le> 2"
  shows "since c' = since c" "rebuilds c' \<le> 2"
    "st = StepRebuild \<Longrightarrow> rebuilds c = 0 \<and> rebuilds c' = 1"
    "st = StepRebuildNewCreds \<Longrightarrow> rebuilds c = 1 \<and> rebuilds c' = 2"
    "st \<noteq> StepRebuild \<Longrightarrow> st \<noteq> StepRebuildNewCreds \<Longrightarrow> rebuilds c' = rebuilds c"
    "\<not> silent \<Longrightarrow> st = StepTearDown \<Longrightarrow> rebuilds c = 2"
proof -
  obtain ev h where q: "pollHandshake (hs c) now (seenHandshake c l) tx = (ev, h)" by fastforce
  note p = assms(1) [unfolded pollCourse_eq [OF q]]
  show "since c' = since c" "rebuilds c' \<le> 2"
    "st = StepRebuild \<Longrightarrow> rebuilds c = 0 \<and> rebuilds c' = 1"
    "st = StepRebuildNewCreds \<Longrightarrow> rebuilds c = 1 \<and> rebuilds c' = 2"
    "st \<noteq> StepRebuild \<Longrightarrow> st \<noteq> StepRebuildNewCreds \<Longrightarrow> rebuilds c' = rebuilds c"
    "\<not> silent \<Longrightarrow> st = StepTearDown \<Longrightarrow> rebuilds c = 2"
    using p assms(2,3) by (cases rule: nextStep_cases [of "polled c l h"]; auto split: if_splits)+
qed

lemma noteSwitch_ladder:
  assumes "quiet s i" "s \<le> wallAt (since (watched w))"
  shows "rebuilds (watched (noteSwitch i w)) = rebuilds (watched w)" "s \<le> wallAt (since (watched (noteSwitch i w)))"
  using assms by (auto simp: noteSwitch_def rebuilt_def quiet_def split: option.splits)

lemma tick_ladder:
  assumes "watchTick i w = (calls, on, w')" "quiet s i" "s \<le> wallAt (since (watched w))" "rebuilds (watched w) \<le> 2"
  shows "on \<Longrightarrow> s \<le> wallAt (since (watched w')) \<and> rebuilds (watched w') \<le> 2"
    and "on \<Longrightarrow> restarts calls = [] \<Longrightarrow> rebuilds (watched w') = rebuilds (watched w)"
    and "restarts calls \<noteq> [] \<Longrightarrow> restarts calls = [rebuilds (watched w) = 1] \<and> rebuilds (watched w) < 2"
    and "on \<Longrightarrow> restarts calls \<noteq> [] \<Longrightarrow> rebuilds (watched w') = rebuilds (watched w) + 1"
    and "tPathSilent i \<le> 0 \<Longrightarrow> CallDead \<in> set calls \<Longrightarrow> rebuilds (watched w) = 2 \<and> calls = [CallDead]"
    and "CallDead \<in> set calls \<Longrightarrow> \<not> on"
proof -
  let ?w = "noteSwitch i w" and ?c = "watched (noteSwitch i w)"
  note n = noteSwitch_ladder [OF assms(2,3)]
  obtain st c where p: "pollCourse ?c (tNow i) (tLastHandshake i) (tTx i) (tPathSilent i > 0) = (st, c)" by fastforce
  have "rebuilds ?c \<le> 2" using n(1) assms(4) by simp
  note l = poll_ladder [OF p quiet_seen(2) [OF assms(2) n(2)] this]
  have q: "s \<le> wallAt (tRebuiltAt i)" using assms(2) by (simp add: quiet_def)
  consider (early) "calls = [] \<or> (\<exists>x. calls = [CallFatal x])" "on \<Longrightarrow> since (watched w') = since ?c \<and> rebuilds (watched w') = rebuilds ?c"
    | (polled) "actOn i st (?w\<lparr>watched := c\<rparr>) = (calls, on, w')"
    using assms(1) p by (fastforce simp: watchTick_def Let_def holdCourse_def offlineCourse_def split: if_splits)
  note cs = this
  show "on \<Longrightarrow> s \<le> wallAt (since (watched w')) \<and> rebuilds (watched w') \<le> 2"
    and "on \<Longrightarrow> restarts calls = [] \<Longrightarrow> rebuilds (watched w') = rebuilds (watched w)"
    and "restarts calls \<noteq> [] \<Longrightarrow> restarts calls = [rebuilds (watched w) = 1] \<and> rebuilds (watched w) < 2"
    and "on \<Longrightarrow> restarts calls \<noteq> [] \<Longrightarrow> rebuilds (watched w') = rebuilds (watched w) + 1"
    and "tPathSilent i \<le> 0 \<Longrightarrow> CallDead \<in> set calls \<Longrightarrow> rebuilds (watched w) = 2 \<and> calls = [CallDead]"
    and "CallDead \<in> set calls \<Longrightarrow> \<not> on"
    by (cases rule: cs; cases st; use l n q assms(4) in
      \<open>auto simp: actOn_def rebuildOn_def Let_def rebuilt_def split: rebuildResult.splits\<close>)+
qed

text \<open>
  Between handshakes the transport is restarted at most twice, the first time on the credentials at hand and the
  second on new ones; and while relays answer, the tunnel is given up only when both restarts are used up.
\<close>

theorem two_restarts_between_handshakes:
  assumes "\<forall>i \<in> set is. quiet s i" "s \<le> wallAt (since (watched w))" "rebuilds (watched w) \<le> 2"
  shows "prefix (restarts (fst (watchRun is w))) (drop (rebuilds (watched w)) [False, True]) \<and>
    ((\<forall>i \<in> set is. tPathSilent i \<le> 0) \<longrightarrow> CallDead \<in> set (fst (watchRun is w)) \<longrightarrow>
      restarts (fst (watchRun is w)) = drop (rebuilds (watched w)) [False, True])"
  using assms
proof (induction "is" arbitrary: w)
  case Nil
  then show ?case by simp
next
  case (Cons i "is")
  obtain calls on w' where t: "watchTick i w = (calls, on, w')" by (metis prod_cases3)
  obtain more on' w'' where r: "watchRun is w' = (more, on', w'')" by (metis prod_cases3)
  have q: "quiet s i" using Cons.prems(1) by simp
  note l = tick_ladder [OF t q Cons.prems(2,3)]
  have run: "fst (watchRun (i # is) w) = calls @ (if on then more else [])" by (simp add: t r)
  have IH: "prefix (restarts more) (drop (rebuilds (watched w')) [False, True])"
      "(\<forall>i \<in> set is. tPathSilent i \<le> 0) \<Longrightarrow> CallDead \<in> set more \<Longrightarrow>
        restarts more = drop (rebuilds (watched w')) [False, True]" if "on"
    using Cons.IH [of w'] l(1) [OF that] Cons.prems(1) r by auto
  have n: "rebuilds (watched w) = 0 \<or> rebuilds (watched w) = 1 \<or> rebuilds (watched w) = 2" using Cons.prems(3) by auto
  show ?case unfolding run using IH l n by (cases on; cases "restarts calls = []") auto
qed

section \<open>A live tunnel\<close>

text \<open>An instant taken while the two clocks are \<open>off\<close> apart.\<close>

definition clocked :: "int \<Rightarrow> instant \<Rightarrow> bool" where
  "clocked off t \<longleftrightarrow> monoAt t = Some (wallAt t - off)"

lemma isub_clocked: "clocked off a \<Longrightarrow> clocked off b \<Longrightarrow> isub a b = tsub (wallAt a) (wallAt b)"
  by (simp add: clocked_def isub_def tsub_def)

text \<open>
  A tunnel whose handshake is no older than three minutes, and came since the transport was last
  started, is left alone: no poll restarts anything, holds a verdict or gives the tunnel up.
\<close>

theorem fresh_handshake_is_left_alone:
  assumes "monoAt l = None" "\<not> isZeroInstant l" "\<not> ibefore l (since c)" "clocked off now"
    and "isZeroInstant (heldSince c) \<or> clocked off (heldSince c)"
    and "wallAt now - wallAt l \<le> StaleAfter"
  shows "fst (pollCourse c now l tx silent) \<le> StepRecovered"
proof -
  obtain ev h where q: "pollHandshake (hs c) now (seenHandshake c l) tx = (ev, h)" by fastforce
  have seen: "seenHandshake c l = l" using assms(3) by (simp add: seenHandshake_def)
  have "ev \<noteq> Dead"
  proof
    assume "ev = Dead"
    with poll_Dead q have "looksDead (hs c) now l tx" unfolding seen by blast
    then show False using assms by (simp add: looksDead_def isub_def StaleAfter_def minute_def split: option.splits)
  qed
  moreover have "\<not> isub now (heldSince (polled c l h)) \<ge> SilentHold" if "\<not> isZeroInstant (heldSince (polled c l h))"
  proof -
    have b: "ibefore l (heldSince c)" using that polled_simps(4) by blast
    with that assms(5) have "clocked off (heldSince c)" by auto
    moreover have "wallAt l < wallAt (heldSince c)" using b assms(1) by (simp add: ibefore_def)
    ultimately show ?thesis
      using assms(4,6) by (simp add: polled_simps(5) [OF b] isub_clocked go_consts)
  qed
  ultimately show ?thesis
    unfolding pollCourse_eq [OF q] by (auto simp: less_eq_step_def)
qed

section \<open>A dead tunnel\<close>

text \<open>
  A tick of the loop with nothing to read but a tunnel without a handshake since \<open>s\<close>; the path may look
  silent or not. A tick comes between the end of the tick before, with the restart it may have made, and a
  minute after its start.
\<close>

definition deadTick :: "int \<Rightarrow> int \<Rightarrow> tick \<Rightarrow> bool" where
  "deadTick off s i \<longleftrightarrow> quiet s i \<and> tConnected i \<and> tFatal i = [] \<and> tSwitched i = None \<and> tCaptcha i = [] \<and>
    \<not> tNetLost i \<and> (tRebuild i = RebuildOk \<or> tRebuild i = RebuildNotStarted) \<and>
    clocked off (tNow i) \<and> clocked off (tRebuiltAt i) \<and> wallAt (tNow i) \<le> wallAt (tRebuiltAt i) \<and>
    wallAt (tRebuiltAt i) \<le> wallAt (tNow i) + minute"

fun deadTicks :: "int \<Rightarrow> int \<Rightarrow> int \<Rightarrow> int \<Rightarrow> tick list \<Rightarrow> bool" where
  "deadTicks off s lo hi [] = True"
| "deadTicks off s lo hi (i # is) \<longleftrightarrow> deadTick off s i \<and> lo \<le> wallAt (tNow i) \<and> wallAt (tNow i) \<le> hi \<and>
     deadTicks off s (wallAt (tRebuiltAt i)) (wallAt (tNow i) + minute) is"

text \<open>
  Where the watchdog of a dead tunnel stands at \<open>p\<close>: the transport started at \<open>upSince\<close> has until \<open>d\<close> for
  its handshake; from then on the checks count, a verdict may be held, and after at most nine minutes
  the next step is taken.
\<close>

definition waitingFor :: "int \<Rightarrow> int \<Rightarrow> int \<Rightarrow> handshake \<Rightarrow> bool" where
  "waitingFor off s d h \<longleftrightarrow> clocked off (lastPoll h) \<and> graceUntil h = zeroInstant \<and> clocked off (upSince h) \<and>
    wallAt (upSince h) + never h = d \<and> s \<le> wallAt (upSince h) \<and> wallAt (upSince h) \<le> wallAt (lastPoll h) \<and>
    (never h = NeverAfter \<or> never h = RebuiltGrace)"

definition freeAt :: "int \<Rightarrow> int \<Rightarrow> nat \<Rightarrow> bool" where
  "freeAt d p n \<longleftrightarrow> (n = 0 \<and> p \<le> d) \<or> (n = 1 \<and> d < p \<and> p \<le> d + minute)"

definition heldAt :: "int \<Rightarrow> int \<Rightarrow> int \<Rightarrow> nat \<Rightarrow> bool" where
  "heldAt d held p n \<longleftrightarrow> d < held \<and> held \<le> d + 2 * minute \<and> held \<le> p \<and>
    ((n = 0 \<and> p < held + 5 * minute) \<or> (n = 1 \<and> p < held + 6 * minute))"

definition standing :: "int \<Rightarrow> int \<Rightarrow> int \<Rightarrow> course \<Rightarrow> bool" where
  "standing off s d c \<longleftrightarrow> waitingFor off s d (hs c) \<and>
    (if heldSince c = zeroInstant then freeAt d (wallAt (lastPoll (hs c))) (deadChecks (hs c))
     else clocked off (heldSince c) \<and>
       heldAt d (wallAt (heldSince c)) (wallAt (lastPoll (hs c))) (deadChecks (hs c)))"

lemma poll_waiting:
  assumes "waitingFor off s d h" "clocked off now" "0 < s"
    and "wallAt (lastPoll h) \<le> wallAt now" "wallAt now \<le> wallAt (lastPoll h) + minute"
  shows "pollHandshake h now zeroInstant tx =
     (if d < wallAt now \<and> 1 \<le> deadChecks h then Dead else Alive,
      h\<lparr>lastPoll := now, prevTx := tx, prevTxSet := True,
        deadChecks := (if d < wallAt now then deadChecks h + 1 else 0)\<rparr>)"
proof -
  have w: "clocked off (lastPoll h)" "graceUntil h = zeroInstant" "clocked off (upSince h)"
      "wallAt (upSince h) + never h = d" "s \<le> wallAt (upSince h)" "wallAt (upSince h) \<le> wallAt (lastPoll h)"
      "never h = NeverAfter \<or> never h = RebuiltGrace"
    using assms(1) by (simp_all add: waitingFor_def)
  have g1: "\<not> isub now (lastPoll h) > ResumeGap"
    using assms(5) by (simp add: isub_clocked [OF assms(2) w(1)] go_consts)
  have g2: "\<not> isub (stripMono now) (stripMono (lastPoll h)) > ResumeGap"
    using assms(5) by (simp add: isub_def stripMono_def go_consts)
  have b: "\<not> ibefore now zeroInstant"
    using w(5,6) assms(3,4) by (simp add: ibefore_def zeroInstant_def zero_time_def split: option.splits)
  have "isub now (upSince h) > never h \<longleftrightarrow> d < wallAt now"
    using w(4,7) by (auto simp: isub_clocked [OF assms(2) w(3)] go_consts)
  then have l: "looksDead (h\<lparr>lastPoll := now\<rparr>) now zeroInstant tx \<longleftrightarrow> d < wallAt now"
    by (simp add: looksDead_def)
  show ?thesis
    using g1 g2 b by (simp add: pollHandshake_def Let_def l w(2) DeadChecksMax_def)
qed

lemma waitingFor_poll:
  assumes "waitingFor off s d h" "clocked off now" "wallAt (lastPoll h) \<le> wallAt now"
  shows "waitingFor off s d (h\<lparr>lastPoll := now, prevTx := tx, prevTxSet := b, deadChecks := n\<rparr>)"
  using assms by (simp add: waitingFor_def)

text \<open>One poll of a dead tunnel: it stands, or the next step is taken in time.\<close>

lemma poll_standing:
  assumes st: "standing off s d c" and now: "clocked off now" and s: "0 < s"
    and lo: "wallAt (lastPoll (hs c)) \<le> wallAt now" and hi: "wallAt now \<le> wallAt (lastPoll (hs c)) + minute"
    and l: "seenHandshake c l = zeroInstant" "monoAt l = None" "wallAt l < s"
    and poll: "pollCourse c now l tx silent = (x, c')"
  shows "((x = StepNone \<or> x = StepHold) \<and> standing off s d c' \<and> lastPoll (hs c') = now) \<or> x = StepTearDown \<or>
    ((x = StepRebuild \<or> x = StepRebuildNewCreds) \<and> wallAt now < d + 9 * minute \<and>
      graceUntil (hs c') = zeroInstant \<and> heldSince c' = zeroInstant)"
proof -
  have w: "waitingFor off s d (hs c)" using st by (simp add: standing_def)
  obtain p n where p: "p = wallAt (lastPoll (hs c))" and n: "n = deadChecks (hs c)" by simp
  obtain h where h: "h = (hs c)\<lparr>lastPoll := now, prevTx := tx, prevTxSet := True,
      deadChecks := (if d < wallAt now then n + 1 else 0)\<rparr>" by simp
  have q: "pollHandshake (hs c) now (seenHandshake c l) tx = (if d < wallAt now \<and> 1 \<le> n then Dead else Alive, h)"
    unfolding l(1) h n by (rule poll_waiting [OF w now s lo hi])
  have rec: "\<not> recovered c l" by (simp add: recovered_def l(1))
  have wh: "waitingFor off s d h" "lastPoll h = now" "deadChecks h = (if d < wallAt now then n + 1 else 0)"
      "graceUntil h = zeroInstant"
    using waitingFor_poll [OF w now lo] w by (simp_all add: h waitingFor_def)
  have wh0: "waitingFor off s d (h\<lparr>deadChecks := 0\<rparr>)" using wh(1) by (simp add: waitingFor_def)
  have dc: "s \<le> p" using w by (simp add: waitingFor_def p)
  have nz: "\<not> isZeroInstant now" "now \<noteq> zeroInstant"
    using dc s lo by (auto simp: isZeroInstant_def zero_time_def zeroInstant_def p)
  show ?thesis
  proof (cases "heldSince c = zeroInstant")
    case True
    have held: "heldSince (polled c l h) = zeroInstant"
      using True by (auto simp: polled_def noteHandshake_def)
    have f: "freeAt d p n" using st True by (simp add: standing_def p n)
    have r: "pollCourse c now l tx silent = (if d < wallAt now \<and> 1 \<le> n then
        (if silent then (StepHold, (polled c l h)\<lparr>heldSince := now, hs := h\<lparr>deadChecks := 0\<rparr>\<rparr>)
         else nextStep (polled c l h)) else (StepNone, polled c l h))"
      unfolding pollCourse_eq [OF q] by (simp add: held rec)
    show ?thesis
    proof (cases "d < wallAt now \<and> 1 \<le> n")
      case True
      then have b: "wallAt now \<le> d + 2 * minute" using f hi by (simp add: freeAt_def p)
      have "heldAt d (wallAt now) (wallAt now) 0" using True b by (simp add: heldAt_def minute_def)
      then have "standing off s d ((polled c l h)\<lparr>heldSince := now, hs := h\<lparr>deadChecks := 0\<rparr>\<rparr>)"
        using nz wh0 now wh(2) by (simp add: standing_def)
      moreover have "wallAt now < d + 9 * minute" using b by (simp add: minute_def)
      ultimately show ?thesis
        using poll True wh(2,4) unfolding r
        by (cases rule: nextStep_cases [of "polled c l h"]) (auto split: if_splits)
    next
      case False
      then have "freeAt d (wallAt now) (deadChecks h)"
        using f hi by (auto simp: freeAt_def wh(3) p)
      then have "standing off s d (polled c l h)"
        using wh held by (simp add: standing_def)
      then show ?thesis using poll False wh(2) unfolding r by auto
    qed
  next
    case False
    have k: "clocked off (heldSince c)" "heldAt d (wallAt (heldSince c)) p n"
      using st False by (simp_all add: standing_def p n)
    obtain held where e: "held = heldSince c" by simp
    have "s \<le> d" using w by (auto simp: waitingFor_def go_consts)
    then have b: "ibefore l held" and z: "\<not> isZeroInstant held" "held \<noteq> zeroInstant"
      using l k s by (auto simp: e ibefore_def heldAt_def isZeroInstant_def zeroInstant_def zero_time_def)
    have hp: "heldSince (polled c l h) = held" using b by (simp add: e)
    have d: "d < wallAt now" using k(2) lo by (simp add: heldAt_def p)
    have sub: "isub now held = tsub (wallAt now) (wallAt held)" using now k(1) by (simp add: e isub_clocked)
    have r: "pollCourse c now l tx silent =
      (if silent then (if isub now held \<ge> SilentHold then StepTearDown else StepNone, (polled c l h)\<lparr>hs := h\<lparr>deadChecks := 0\<rparr>\<rparr>)
       else if 1 \<le> n then nextStep (polled c l h) else (StepNone, polled c l h))"
      unfolding pollCourse_eq [OF q] by (simp add: hp z rec d)
    have t: "wallAt now < d + 9 * minute" using k(2) hi by (auto simp: heldAt_def p minute_def)
    show ?thesis
    proof (cases silent)
      case True
      have "standing off s d ((polled c l h)\<lparr>hs := h\<lparr>deadChecks := 0\<rparr>\<rparr>)" if "\<not> isub now held \<ge> SilentHold"
      proof -
        have "wallAt now < wallAt held + 5 * minute" using that unfolding sub by (simp add: go_consts)
        then have "heldAt d (wallAt held) (wallAt now) 0"
          using k(2) lo by (auto simp: e heldAt_def p)
        then show ?thesis using wh0 wh(2) k(1) z by (simp add: standing_def hp flip: e)
      qed
      then show ?thesis using poll True wh(2) unfolding r by (auto split: if_splits)
    next
      case F: False
      show ?thesis
      proof (cases "1 \<le> n")
        case True
        then show ?thesis using poll F t wh(4) unfolding r
          by (cases rule: nextStep_cases [of "polled c l h"]) auto
      next
        case False
        then have n0: "n = 0" by simp
        then have "heldAt d (wallAt held) (wallAt now) 1"
          using k(2) lo hi by (auto simp: e heldAt_def p go_consts)
        then have "standing off s d (polled c l h)"
          using wh n0 d k(1) z by (simp add: standing_def hp flip: e)
        then show ?thesis using poll F False wh(2) unfolding r by auto
      qed
    qed
  qed
qed


section \<open>Giving up\<close>

text \<open>
  The deadline of the transport after \<open>n\<close> restarts: two and a half minutes for the first, ten minutes at
  most for a step to be taken and carried out, a minute and a half for every later transport.
\<close>

definition deadline :: "int \<Rightarrow> nat \<Rightarrow> int" where
  "deadline s n = s + 150 * second + int n * (690 * second)"

lemma tick_standing:
  assumes st: "standing off s d (watched w)" "rebuilds (watched w) \<le> 2" "d \<le> deadline s (rebuilds (watched w))"
    and sw: "s \<le> wallAt (since (watched w))" "0 < s"
    and t: "deadTick off s i" "watchTick i w = (calls, on, w')"
    and lo: "wallAt (lastPoll (hs (watched w))) \<le> wallAt (tNow i)"
    and hi: "wallAt (tNow i) \<le> wallAt (lastPoll (hs (watched w))) + minute"
  shows "CallDead \<in> set calls \<or> (on \<and> rebuilds (watched w') \<le> 2 \<and> s \<le> wallAt (since (watched w')) \<and>
    (\<exists>d'. standing off s d' (watched w') \<and> d' \<le> deadline s (rebuilds (watched w'))) \<and>
    (lastPoll (hs (watched w')) = tNow i \<or> lastPoll (hs (watched w')) = tRebuiltAt i))"
proof -
  have q: "quiet s i" using t(1) by (simp add: deadTick_def)
  have n: "noteSwitch i w = w" using t(1) by (simp add: deadTick_def noteSwitch_def)
  obtain x c where p: "pollCourse (watched w) (tNow i) (tLastHandshake i) (tTx i) (tPathSilent i > 0) = (x, c)" by fastforce
  have a: "actOn i x (w\<lparr>watched := c\<rparr>) = (calls, on, w')"
    using t n p by (simp add: watchTick_def Let_def deadTick_def)
  note l = poll_ladder [OF p quiet_seen(2) [OF q sw(1)] st(2)]
  have k: "clocked off (tNow i)" "monoAt (tLastHandshake i) = None" "wallAt (tLastHandshake i) < s"
      "clocked off (tRebuiltAt i)" "s \<le> wallAt (tRebuiltAt i)" "tRebuild i = RebuildOk \<or> tRebuild i = RebuildNotStarted"
    using t(1) q by (simp_all add: deadTick_def quiet_def)
  note ps = poll_standing [OF st(1) k(1) sw(2) lo hi quiet_seen(1) [OF q sw(1)] k(2,3) p]
  consider (stay) "x = StepNone \<or> x = StepHold" "standing off s d c" "lastPoll (hs c) = tNow i"
    | (gone) "x = StepTearDown"
    | (act) "x = StepRebuild \<or> x = StepRebuildNewCreds" "wallAt (tNow i) < d + 9 * minute"
        "graceUntil (hs c) = zeroInstant" "heldSince c = zeroInstant"
    using ps by blast
  then show ?thesis
  proof cases
    case stay
    then have "calls = [] \<and> on \<and> w' = w\<lparr>watched := c\<rparr>" using a by (auto simp: actOn_def)
    then show ?thesis using stay l(1,2,5) sw(1) st(3) by auto
  next
    case gone
    then show ?thesis using a by (auto simp: actOn_def)
  next
    case act
    then have w': "on" "watched w' = rebuilt (tRebuiltAt i) c"
      using a k(6) by (auto simp: actOn_def rebuildOn_def Let_def)
    have r: "wallAt (tRebuiltAt i) \<le> wallAt (tNow i) + minute" using t(1) by (simp add: deadTick_def)
    have rb: "rebuilds c = rebuilds (watched w) + 1" "rebuilds c \<le> 2" using act(1) l(2,3,4) by auto
    let ?d = "wallAt (tRebuiltAt i) + RebuiltGrace"
    have "standing off s ?d (rebuilt (tRebuiltAt i) c)"
      using k act(3,4) by (simp add: standing_def waitingFor_def rebuilt_def holdHandshake_def freeAt_def go_consts)
    moreover have "?d \<le> deadline s (rebuilds c)"
      using r act(2) st(3) unfolding rb(1) by (simp add: deadline_def go_consts algebra_simps)
    ultimately show ?thesis using w' rb k(5) by (auto simp: rebuilt_def holdHandshake_def)
  qed
qed


lemma dead_run:
  assumes "standing off s d (watched w)" "rebuilds (watched w) \<le> 2" "d \<le> deadline s (rebuilds (watched w))"
    and "s \<le> wallAt (since (watched w))" "0 < s"
    and "deadTicks off s lo hi is" "wallAt (lastPoll (hs (watched w))) \<le> lo"
      "hi \<le> wallAt (lastPoll (hs (watched w))) + minute"
    and "is \<noteq> []" "CallDead \<notin> set (fst (watchRun is w))"
  shows "wallAt (tNow (last is)) < deadline s 2 + 9 * minute"
  using assms
proof (induction "is" arbitrary: w d lo hi)
  case Nil
  then show ?case by simp
next
  case (Cons i "is")
  obtain calls on w' where t: "watchTick i w = (calls, on, w')" by (metis prod_cases3)
  have dt: "deadTick off s i" "lo \<le> wallAt (tNow i)" "wallAt (tNow i) \<le> hi"
      "deadTicks off s (wallAt (tRebuiltAt i)) (wallAt (tNow i) + minute) is"
    using Cons.prems(6) by simp_all
  have nd: "CallDead \<notin> set calls" using Cons.prems(10) t by (auto simp: split_beta split: if_splits)
  have lo: "wallAt (lastPoll (hs (watched w))) \<le> wallAt (tNow i)" and
    hi: "wallAt (tNow i) \<le> wallAt (lastPoll (hs (watched w))) + minute"
    using dt Cons.prems(7,8) by simp_all
  from tick_standing [OF Cons.prems(1-5) dt(1) t lo hi] nd
  obtain d' where w': "on" "rebuilds (watched w') \<le> 2" "s \<le> wallAt (since (watched w'))"
      "standing off s d' (watched w')" "d' \<le> deadline s (rebuilds (watched w'))"
      "lastPoll (hs (watched w')) = tNow i \<or> lastPoll (hs (watched w')) = tRebuiltAt i" by blast
  have le: "wallAt (tNow i) \<le> wallAt (tRebuiltAt i)" using dt(1) by (simp add: deadTick_def)
  show ?case
  proof (cases "is = []")
    case True
    have "wallAt (tNow i) \<le> wallAt (lastPoll (hs (watched w')))" using w'(6) le by auto
    also have "\<dots> < d' + 9 * minute"
      using w'(4) by (auto simp: standing_def freeAt_def heldAt_def go_consts split: if_splits)
    also have "\<dots> \<le> deadline s 2 + 9 * minute"
      using w'(2,5) by (auto simp: deadline_def go_consts)
    finally show ?thesis by (simp add: True)
  next
    case False
    have "wallAt (lastPoll (hs (watched w'))) \<le> wallAt (tRebuiltAt i)"
      and "wallAt (tNow i) + minute \<le> wallAt (lastPoll (hs (watched w'))) + minute"
      using w'(6) le by auto
    moreover have "CallDead \<notin> set (fst (watchRun is w'))"
      using Cons.prems(10) t w'(1) by (simp add: split_beta)
    ultimately show ?thesis
      using Cons.IH [OF w'(4,2,5,3) Cons.prems(5) dt(4) _ _ False] False by simp
  qed
qed


section \<open>Examples\<close>

definition clockAt :: "int \<Rightarrow> instant" where
  "clockAt n = Instant (n * second) (Some (n * second))"

definition deadTickAt :: "int \<Rightarrow> duration \<Rightarrow> tick" where
  "deadTickAt n silent = \<lparr>tConnected = True, tFatal = [], tSwitched = None, tNow = clockAt n, tCaptcha = [],
     tNetLost = False, tLastHandshake = zeroInstant, tTx = word_of_int n, tPathSilent = silent,
     tRebuild = RebuildOk, tRebuiltAt = clockAt n\<rparr>"

definition deadDay :: "duration \<Rightarrow> tick list" where
  "deadDay silent = map (\<lambda>k. deadTickAt (1000 + 30 * k) silent) [1 .. 80]"

lemmas example_defs = clockAt_def deadTickAt_def deadDay_def clocked_def zeroInstant_def zero_time_def go_consts



theorem two_restarts_between_handshakes_witness:
  "restarts (fst (watchRun (deadDay 0) (startWatch (clockAt 1000) None))) = [False, True]"
proof -
  let ?w = "startWatch (clockAt 1000) None" and ?s = "wallAt (clockAt 1000)"
  have q: "\<forall>i \<in> set (deadDay 0). quiet ?s i \<and> tPathSilent i \<le> 0"
    by (auto simp: quiet_def example_defs)
  have "?s \<le> wallAt (since (watched ?w))" "rebuilds (watched ?w) = 0"
    by (simp_all add: startWatch_def NewCourse_def)
  moreover have "CallDead \<in> set (fst (watchRun (deadDay 0) ?w))" by code_simp
  ultimately show ?thesis
    using two_restarts_between_handshakes [of "deadDay 0" ?s ?w] q by simp
qed

definition thirdPoll :: watch where
  "thirdPoll = snd (snd (watchRun (take 6 (deadDay 0)) (startWatch (clockAt 1000) None)))"

theorem restart_needs_two_dead_polls_witness:
  "1 \<le> deadChecks (hs (watched (noteSwitch (deadTickAt 1210 0) thirdPoll)))"
proof -
  obtain calls on w' where t: "watchTick (deadTickAt 1210 0) thirdPoll = (calls, on, w')" by (metis prod_cases3)
  have "CallRebuild False \<in> set (fst (watchTick (deadTickAt 1210 0) thirdPoll))" by code_simp
  then show ?thesis using restart_needs_two_dead_polls [OF t] t by simp
qed

theorem fresh_handshake_is_left_alone_witness:
  "fst (pollCourse (NewCourse (clockAt 1000)) (clockAt 1030) (Instant (1010 * second) None) 7 True) \<le> StepRecovered"
  by (rule fresh_handshake_is_left_alone [of _ _ 0])
    (simp_all add: NewCourse_def isZeroInstant_def ibefore_def example_defs)

end
