(* ===== verification/Keepalive.thy ===== *)
theory Keepalive
  imports GoBase "HOL-Library.Word"
begin

text \<open>
  The keepalives of the streams and the clocks of their liveness (\<open>pkg/proxy/keepalive_policy.go\<close>): the
  shared grid and the phase of a stream in it, \<open>streamActivity\<close>, the next deadline of the
  keepalive loop, and WireGuard's own keepalive on the grid. The atomic cells hold nanoseconds since the
  Unix epoch; each function is one step on the record.
\<close>

definition keepaliveInterval :: duration where "keepaliveInterval = 25 * second"
definition keepaliveSpread :: duration where "keepaliveSpread = 2 * second"
definition deadStreamTimeout :: duration where "deadStreamTimeout = 90 * second"
definition dispatchStaleAfter :: duration where "dispatchStaleAfter = 35 * second"

lemmas keepalive_consts [go_consts] = keepaliveInterval_def keepaliveSpread_def deadStreamTimeout_def
  dispatchStaleAfter_def

text \<open>\<open>Truncate\<close> counts its multiples from the zero instant.\<close>

definition truncateTime :: "gtime \<Rightarrow> duration \<Rightarrow> gtime" where
  "truncateTime t d = t - (t - zero_time) mod d"

definition keepalivePhase :: "int \<Rightarrow> int \<Rightarrow> duration" where
  "keepalivePhase streamID totalStreams =
    (if totalStreams \<le> 1 \<or> streamID \<le> 0 then 0
     else
       let slot = go_rem streamID totalStreams;
           slot = (if slot < 0 then slot + totalStreams else slot)
       in keepaliveSpread * slot div totalStreams)"

definition nextKeepaliveGrid :: "gtime \<Rightarrow> duration \<Rightarrow> gtime" where
  "nextKeepaliveGrid now phase =
    (let nxt = truncateTime now keepaliveInterval + phase
     in if \<not> now < nxt then nxt + keepaliveInterval else nxt)"

section \<open>The activity of a stream\<close>

record streamActivity =
  lastRx :: int
  actPhase :: duration
  lastHeard :: int
  lastPong :: "64 word"
  probeSent :: "64 word"
  actStart :: gtime
  rxCount :: "64 word"
  silentMark :: int

definition newStreamActivity :: "gtime \<Rightarrow> duration \<Rightarrow> streamActivity" where
  "newStreamActivity now phase = \<lparr>lastRx = now, actPhase = phase, lastHeard = now, lastPong = 0, probeSent = 0,
     actStart = now, rxCount = 0, silentMark = 0\<rparr>"

definition noteRx :: "gtime \<Rightarrow> streamActivity \<Rightarrow> streamActivity" where
  "noteRx now a = a\<lparr>lastHeard := now, lastRx := now, rxCount := rxCount a + 1\<rparr>"

definition markSilentUnderLoad :: "int \<Rightarrow> streamActivity \<Rightarrow> streamActivity" where
  "markSilentUnderLoad heard a = a\<lparr>silentMark := heard\<rparr>"

definition foundSilentUnderLoad :: "streamActivity \<Rightarrow> bool" where
  "foundSilentUnderLoad a \<longleftrightarrow> silentMark a = lastHeard a"

definition stale :: "streamActivity \<Rightarrow> gtime \<Rightarrow> bool" where
  "stale a now \<longleftrightarrow> tsub now (lastHeard a) > dispatchStaleAfter \<or> silentMark a = lastHeard a"

definition frozeSinceHeard :: "streamActivity \<Rightarrow> bool" where
  "frozeSinceHeard a \<longleftrightarrow> lastHeard a < lastRx a"

definition notePong :: "64 word \<Rightarrow> streamActivity \<Rightarrow> streamActivity" where
  "notePong sq a = (if probeSent a < sq then a else if sq \<le> lastPong a then a else a\<lparr>lastPong := sq\<rparr>)"

definition heardAge :: "streamActivity \<Rightarrow> gtime \<Rightarrow> duration" where
  "heardAge a now = (let age = tsub now (lastHeard a) in if age < 0 then 0 else age)"

definition resetLiveness :: "gtime \<Rightarrow> streamActivity \<Rightarrow> streamActivity" where
  "resetLiveness now a = a\<lparr>lastRx := now\<rparr>"

definition echoMissed :: "streamActivity \<Rightarrow> gtime \<Rightarrow> bool" where
  "echoMissed a sentAt \<longleftrightarrow> lastHeard a < sentAt"

definition rxAge :: "streamActivity \<Rightarrow> gtime \<Rightarrow> duration" where
  "rxAge a now = (let age = tsub now (lastRx a) in if age < 0 then 0 else age)"

datatype keepaliveWakeReason = GridWake | RetryWake | DeadCheckWake | EchoRetryWake

definition nextDeadline :: "streamActivity \<Rightarrow> gtime \<Rightarrow> gtime \<Rightarrow> gtime \<Rightarrow> gtime \<times> keepaliveWakeReason" where
  "nextDeadline a now retryAt echoAt =
    (let (nxt, why) = (nextKeepaliveGrid now (actPhase a), GridWake);
         (nxt, why) = (if \<not> is_zero retryAt \<and> retryAt < nxt then (retryAt, RetryWake) else (nxt, why));
         (nxt, why) = (if \<not> is_zero echoAt \<and> echoAt < nxt then (echoAt, EchoRetryWake) else (nxt, why));
         deadDeadline = lastRx a + deadStreamTimeout
     in if deadDeadline < nxt then (deadDeadline, DeadCheckWake) else (nxt, why))"

section \<open>WireGuard's keepalive\<close>

record keepaliveSender =
  canSend :: bool
  lastGrid :: int

definition sendOnSharedGrid :: "gtime \<Rightarrow> keepaliveSender option \<Rightarrow> bool \<times> keepaliveSender option" where
  "sendOnSharedGrid now sender = (case sender of
     None \<Rightarrow> (False, None)
   | Some s \<Rightarrow>
       let grid = truncateTime now keepaliveInterval
       in if \<not> canSend s \<or> lastGrid s = grid then (False, Some s)
          else (True, Some (s\<lparr>lastGrid := grid\<rparr>)))"

section \<open>Laws\<close>

lemma truncateTime_bounds: "0 < d \<Longrightarrow> truncateTime t d \<le> t \<and> t < truncateTime t d + d"
  using pos_mod_bound [of d "t - zero_time"] pos_mod_sign [of d "t - zero_time"] by (auto simp: truncateTime_def)

lemma keepalivePhase_eq:
  assumes "1 < n" "0 < i"
  shows "keepalivePhase i n = keepaliveSpread * (i mod n) div n"
proof -
  have "\<not> i mod n < 0" using assms(1) by (simp add: not_less)
  then show ?thesis using assms by (simp add: keepalivePhase_def Let_def go_rem_nonneg)
qed

lemma div_less_of_less_mult: "0 < n \<Longrightarrow> a < s * n \<Longrightarrow> a div n < s" for a s n :: int
proof (rule ccontr)
  assume n: "0 < n" "a < s * n" and c: "\<not> a div n < s"
  have "s * n \<le> (a div n) * n" using c n(1) by (intro mult_right_mono) simp_all
  also have "\<dots> \<le> a" using div_mult_mod_eq [of a n] pos_mod_sign [OF n(1), of a] by linarith
  finally show False using n(2) by simp
qed

lemma keepalivePhase_bounds: "0 \<le> keepalivePhase i n \<and> keepalivePhase i n < keepaliveSpread"
proof (cases "n \<le> 1 \<or> i \<le> 0")
  case True
  then show ?thesis by (auto simp: keepalivePhase_def go_consts)
next
  case False
  then have n: "0 < n" "0 \<le> i mod n" "i mod n < n" by auto
  have s: "0 < keepaliveSpread" by (simp add: go_consts)
  have "0 \<le> keepaliveSpread * (i mod n) div n" using n s by (simp add: pos_imp_zdiv_nonneg_iff)
  moreover have "keepaliveSpread * (i mod n) < keepaliveSpread * n" using n(3) s by simp
  ultimately show ?thesis using False div_less_of_less_mult [OF n(1)] by (simp add: keepalivePhase_eq)
qed

end
