(* ===== verification/DarkPath.thy ===== *)
theory DarkPath
  imports Keepalive
begin

text \<open>
  The dark path and the worker that scouts it (\<open>pkg/proxy/dark_scout.go\<close>), the clock of relays
  heard it is measured by (\<open>relay_silence.go\<close>), and the pacing of the workers woken when the path is
  back (\<open>path_revival.go\<close>). Every function that holds the lock of \<open>darkPaths\<close> is one operation on the
  state \<open>pathState\<close>; the streams are numbers. The process's other readings (the streams that are up, the
  clock of the reporter by which a sleep of the host is told) are arguments.
\<close>

section \<open>Relays heard\<close>

definition wholePathGap :: duration where "wholePathGap = dispatchStaleAfter"

text \<open>
  The count, and on the monotonic clock since \<open>relayHeardBase\<close> the time a relay was last heard and the end
  of the last silence of the whole path (0: none). The reader's clock may be behind the stored one.
\<close>

record relayHeard =
  heardCount :: "64 word"
  relayHeardAt :: int
  relayGapEndAt :: int

definition advanceGapEnd :: "int \<Rightarrow> int \<Rightarrow> int" where
  "advanceGapEnd cur t = (if t \<le> cur then cur else t)"

definition noteRelayHeard :: "int \<Rightarrow> relayHeard \<Rightarrow> relayHeard" where
  "noteRelayHeard now h =
    (let h = h\<lparr>heardCount := heardCount h + 1\<rparr>; prev = relayHeardAt h in
     if now \<le> prev then h
     else h\<lparr>relayHeardAt := now,
            relayGapEndAt := (if prev \<noteq> 0 \<and> now - prev > wholePathGap then advanceGapEnd (relayGapEndAt h) now
                              else relayGapEndAt h)\<rparr>)"

definition resetRelayHeardClocks :: "relayHeard \<Rightarrow> relayHeard" where
  "resetRelayHeardClocks h = h\<lparr>relayHeardAt := 0, relayGapEndAt := 0\<rparr>"

definition pathGapEndedSince :: "gtime \<Rightarrow> relayHeard \<Rightarrow> gtime \<Rightarrow> bool" where
  "pathGapEndedSince base h t \<longleftrightarrow> relayGapEndAt h \<noteq> 0 \<and> t < base + relayGapEndAt h"

definition sinceRelayHeard :: "gtime \<Rightarrow> relayHeard \<Rightarrow> gtime \<Rightarrow> duration" where
  "sinceRelayHeard base h now = (if relayHeardAt h = 0 then 0 else tsub now base - relayHeardAt h)"

section \<open>A sleep of the host\<close>

definition silentUnderLoadFreeze :: duration where "silentUnderLoadFreeze = second"

text \<open>
  The clock the reporter of the feedback turns every second, for those with no tick of their own to tell a freeze by:
  the start it runs from, its latest turn, its latest late turn with the turn before it.
\<close>

record reporterClock =
  clockGen :: "64 word"
  turn :: gtime
  froze :: gtime
  gapBefore :: gtime

definition hostFrozeSince :: "reporterClock option \<Rightarrow> gtime \<Rightarrow> gtime \<Rightarrow> bool" where
  "hostFrozeSince clock t now = (case clock of
     None \<Rightarrow> False
   | Some c \<Rightarrow> t < froze c \<or> tsub now (turn c) > second + silentUnderLoadFreeze)"

section \<open>The dark\<close>

definition allocateSilenceTimeout :: duration where "allocateSilenceTimeout = 2 * second"
definition darkScoutGap :: duration where "darkScoutGap = 500 * millisecond"
definition darkScoutPeriod :: duration where "darkScoutPeriod = 6 * second"
definition darkScoutLease :: duration where "darkScoutLease = 20 * second"
definition darkEvidenceMin :: duration where "darkEvidenceMin = allocateSilenceTimeout"
definition darkUpQuiet :: duration where "darkUpQuiet = 30 * second"
definition pathDarkQuiet :: duration where "pathDarkQuiet = 2 * second"
definition pathDarkParkMax :: duration where "pathDarkParkMax = 60 * second"

lemmas dark_consts [go_consts] = wholePathGap_def silentUnderLoadFreeze_def
  allocateSilenceTimeout_def darkScoutGap_def darkScoutPeriod_def darkScoutLease_def darkEvidenceMin_def
  darkUpQuiet_def pathDarkQuiet_def pathDarkParkMax_def

type_synonym strm = nat

record darkPath =
  found :: bool
  darkSince :: gtime
  mark :: "64 word"
  scout :: "strm option"
  dialing :: bool
  lastScout :: "strm option"
  leaseTill :: gtime
  nextScout :: gtime
  waiting :: "strm list"

definition noDark :: darkPath where
  "noDark = \<lparr>found = False, darkSince = zero_time, mark = 0, scout = None, dialing = False, lastScout = None,
     leaseTill = zero_time, nextScout = zero_time, waiting = []\<rparr>"

record pathState =
  dark :: darkPath
  epoch :: "64 word"
  heard :: relayHeard

definition newPath :: pathState where
  "newPath = \<lparr>dark = noDark, epoch = 0, heard = \<lparr>heardCount = 0, relayHeardAt = 0, relayGapEndAt = 0\<rparr>\<rparr>"

abbreviation relayHeardMark :: "pathState \<Rightarrow> 64 word" where
  "relayHeardMark p \<equiv> heardCount (heard p)"

definition scoutNext :: "gtime \<Rightarrow> gtime \<Rightarrow> gtime" where
  "scoutNext started ended =
    (let nxt = ended + darkScoutGap; p = started + darkScoutPeriod in if nxt < p then p else nxt)"

text \<open>Does the dark hold? Asking ends it once a relay was heard since it was found.\<close>

definition holdsLocked :: "pathState \<Rightarrow> bool \<times> pathState" where
  "holdsLocked p =
    (if \<not> found (dark p) then (False, p)
     else if relayHeardMark p = mark (dark p) then (True, p)
     else (False, p\<lparr>dark := (dark p)\<lparr>found := False\<rparr>\<rparr>))"

definition liveScoutLocked :: "darkPath \<Rightarrow> gtime \<Rightarrow> bool" where
  "liveScoutLocked d now \<longleftrightarrow> scout d \<noteq> None \<and> (dialing d \<or> now < leaseTill d)"

definition putOffScout :: "gtime \<Rightarrow> gtime \<Rightarrow> darkPath \<Rightarrow> darkPath" where
  "putOffScout started now d =
    (if nextScout d < scoutNext started now then d\<lparr>nextScout := scoutNext started now\<rparr> else d)"

definition noteLocked :: "reporterClock option \<Rightarrow> 64 word \<Rightarrow> gtime \<Rightarrow> gtime \<Rightarrow> pathState \<Rightarrow> pathState" where
  "noteLocked clock m attemptStart now p =
    (let (holds, p) = holdsLocked p in
     if holds \<or> relayHeardMark p \<noteq> m \<or> hostFrozeSince clock attemptStart now then p
     else p\<lparr>dark := putOffScout attemptStart now ((dark p)\<lparr>found := True, darkSince := now, mark := m\<rparr>)\<rparr>)"

definition noteDarkPath ::
  "reporterClock option \<Rightarrow> 64 word \<Rightarrow> 64 word \<Rightarrow> gtime \<Rightarrow> gtime \<Rightarrow> pathState \<Rightarrow> bool \<times> pathState" where
  "noteDarkPath clock m e attemptStart now p =
    (if e \<noteq> epoch p then (False, p)
     else let p = noteLocked clock m attemptStart now p in (found (dark p), p))"

definition pathStillDark :: "pathState \<Rightarrow> bool \<times> pathState" where
  "pathStillDark p = holdsLocked p"

definition darkReleases :: "gtime \<Rightarrow> pathState \<Rightarrow> bool \<times> pathState" where
  "darkReleases now p = (let (holds, p) = holdsLocked p in (\<not> holds \<and> \<not> liveScoutLocked (dark p) now, p))"

definition litPath :: "pathState \<Rightarrow> pathState" where
  "litPath p = p\<lparr>dark := (dark p)\<lparr>found := False, scout := None, dialing := False\<rparr>\<rparr>"

definition resetDarkPaths :: "pathState \<Rightarrow> pathState" where
  "resetDarkPaths p = p\<lparr>dark := noDark, epoch := epoch p + 1\<rparr>"

text \<open>The starts so far, and the clock; a turn is published over the clock it was read as, unless that has been started anew.\<close>

definition startReporterClock :: "gtime \<Rightarrow> 64 word \<Rightarrow> 64 word \<times> reporterClock option" where
  "startReporterClock now starts =
    (let gen = starts + 1 in (gen, Some \<lparr>clockGen = gen, turn = now, froze = zero_time, gapBefore = zero_time\<rparr>))"

definition reporterTurn ::
  "reporterClock option \<Rightarrow> gtime \<Rightarrow> reporterClock option \<Rightarrow> bool \<times> reporterClock option" where
  "reporterTurn c now current =
    (let nxt = (case c of
           None \<Rightarrow> \<lparr>clockGen = 0, turn = now, froze = zero_time, gapBefore = zero_time\<rparr>
         | Some r \<Rightarrow>
             if tsub now (turn r) > second + silentUnderLoadFreeze
             then r\<lparr>turn := now, froze := now, gapBefore := turn r\<rparr> else r\<lparr>turn := now\<rparr>)
     in if current = c then (True, Some nxt) else (False, current))"

definition noteReporterTurn ::
  "64 word \<Rightarrow> gtime \<Rightarrow> reporterClock option \<times> pathState \<Rightarrow> reporterClock option \<times> pathState" where
  "noteReporterTurn gen now = (\<lambda>(c, p). case c of
     None \<Rightarrow> (c, p)
   | Some r \<Rightarrow>
       if clockGen r \<noteq> gen then (c, p)
       else let (done, c') = reporterTurn c now c
         in (c', if done \<and> tsub now (turn r) > second + silentUnderLoadFreeze then resetDarkPaths p else p))"

section \<open>Turns\<close>

definition waitInTheDark :: "strm \<Rightarrow> pathState \<Rightarrow> pathState" where
  "waitInTheDark s p =
    (if s \<in> set (waiting (dark p)) then p else p\<lparr>dark := (dark p)\<lparr>waiting := waiting (dark p) @ [s]\<rparr>\<rparr>)"

definition stopWaitingInTheDark :: "strm \<Rightarrow> pathState \<Rightarrow> pathState" where
  "stopWaitingInTheDark s p = p\<lparr>dark := (dark p)\<lparr>waiting := filter (\<lambda>w. w \<noteq> s) (waiting (dark p))\<rparr>\<rparr>"

definition leaveTheDark :: "strm \<Rightarrow> pathState \<Rightarrow> pathState" where
  "leaveTheDark s p =
    (let d = (dark p)\<lparr>waiting := filter (\<lambda>w. w \<noteq> s) (waiting (dark p))\<rparr>
     in p\<lparr>dark := (if scout d = Some s then d\<lparr>scout := None, dialing := False\<rparr> else d)\<rparr>)"

definition takeDarkScout :: "strm \<Rightarrow> gtime \<Rightarrow> pathState \<Rightarrow> (bool \<times> bool) \<times> pathState" where
  "takeDarkScout s now p =
    (let (holds, p) = holdsLocked p; d = dark p in
     if \<not> holds \<or> now < nextScout d \<or> waiting d = [] \<or> hd (waiting d) \<noteq> s then ((False, False), p)
     else if liveScoutLocked d now then ((False, False), p)
     else ((True, lastScout d \<noteq> Some s),
       p\<lparr>dark := d\<lparr>waiting := tl (waiting d), scout := Some s, dialing := False, lastScout := Some s,
                    leaseTill := now + darkScoutLease\<rparr>\<rparr>))"

definition darkScoutDials :: "strm \<Rightarrow> gtime \<Rightarrow> pathState \<Rightarrow> bool \<times> pathState" where
  "darkScoutDials s now p =
    (let d = dark p in
     if scout d = Some s \<and> (dialing d \<or> now < leaseTill d) then (True, p\<lparr>dark := d\<lparr>dialing := True\<rparr>\<rparr>)
     else let (holds, p) = holdsLocked p in (\<not> holds \<and> \<not> liveScoutLocked (dark p) now, p))"

definition darkScoutDone ::
  "reporterClock option \<Rightarrow> strm \<Rightarrow> gtime \<Rightarrow> gtime \<Rightarrow> bool \<Rightarrow> pathState \<Rightarrow> pathState" where
  "darkScoutDone clock s started now isDark p =
    (if scout (dark p) \<noteq> Some s \<or> \<not> dialing (dark p) then p
     else
       let p = (if isDark then noteLocked clock (relayHeardMark p) started now p else p)
       in p\<lparr>dark := putOffScout started now ((dark p)\<lparr>scout := None, dialing := False\<rparr>)\<rparr>)"

definition darkScouted :: "strm \<Rightarrow> gtime \<Rightarrow> pathState \<Rightarrow> bool" where
  "darkScouted s now p \<longleftrightarrow> scout (dark p) \<noteq> Some s \<and> liveScoutLocked (dark p) now"

section \<open>What the streams say\<close>

text \<open>A stream: is it up, how long ago it heard its relay (if it published a clock), over TCP, its socket stalled.\<close>

record streamView =
  vReady :: bool
  vHeardAge :: "duration option"
  vOverTCP :: bool
  vStalled :: bool

definition heardWithin :: "streamView list \<Rightarrow> duration \<Rightarrow> bool" where
  "heardWithin streams quiet \<longleftrightarrow>
    list_ex (\<lambda>s. vReady s \<and> (case vHeardAge s of None \<Rightarrow> False | Some age \<Rightarrow> age < quiet)) streams"

fun pathLooksDark' :: "bool \<Rightarrow> streamView list \<Rightarrow> bool" where
  "pathLooksDark' stalled [] = stalled"
| "pathLooksDark' stalled (s # streams) =
    (if \<not> vReady s then pathLooksDark' stalled streams
     else if (case vHeardAge s of None \<Rightarrow> False | Some age \<Rightarrow> age < pathDarkQuiet) then False
     else pathLooksDark' (stalled \<or> (vOverTCP s \<and> vStalled s)) streams)"

definition pathLooksDark :: "streamView list \<Rightarrow> bool" where
  "pathLooksDark streams = pathLooksDark' False streams"

text \<open>
  What a worker whose attempt failed the dark's way finds: why the path is dark, if it is. \<open>localErr\<close>:
  the machine's own network refused the attempt.
\<close>

datatype darkWhy = SocketStalled | NothingHeard | StillDark

definition findsTheDark ::
  "reporterClock option \<Rightarrow> streamView list \<Rightarrow> bool \<Rightarrow> 64 word \<Rightarrow> 64 word \<Rightarrow> gtime \<Rightarrow> bool \<Rightarrow> gtime \<Rightarrow>
    pathState \<Rightarrow> darkWhy option \<times> pathState" where
  "findsTheDark clock streams overTCP m e started localErr now p =
    (if heardWithin streams pathDarkQuiet then (None, litPath p)
     else if overTCP \<and> pathLooksDark streams then
       let (b, p) = noteDarkPath clock (relayHeardMark p) e started now p
       in (if b then Some SocketStalled else None, p)
     else if relayHeardMark p = m \<and> tsub now started \<ge> darkEvidenceMin \<and> \<not> localErr \<and>
         \<not> heardWithin streams darkUpQuiet then
       let (b, p) = noteDarkPath clock m e started now p in (if b then Some NothingHeard else None, p)
     else let (b, p) = pathStillDark p in (if b then Some StillDark else None, p))"

definition pathSilence :: "gtime \<Rightarrow> streamView list \<Rightarrow> bool \<Rightarrow> gtime \<Rightarrow> pathState \<Rightarrow> duration \<times> pathState" where
  "pathSilence base streams overTCP now p =
    (let (holds, p) = holdsLocked p; age = sinceRelayHeard base (heard p) now in
     (if \<not> holds \<and> \<not> (overTCP \<and> pathLooksDark streams) then 0
      else if age > 0 then age
      else if holds then max (tsub now (darkSince (dark p))) 0
      else 0, p))"

section \<open>A parked worker\<close>

text \<open>
  One look of a parked worker (\<open>parkInTheDark\<close>), at its poll: it goes because the path is back, or to
  scout, or waits on; and at the limit of the park.
\<close>

datatype parkLook = ParkOn | ParkScout | ParkHeard | ParkLit | ParkOver

definition parkPoll :: "streamView list \<Rightarrow> strm \<Rightarrow> gtime \<Rightarrow> pathState \<Rightarrow> parkLook \<times> pathState" where
  "parkPoll streams s now p =
    (if heardWithin streams pathDarkQuiet then (ParkHeard, litPath p)
     else
       let (b, p) = darkReleases now p in
       if b then (ParkLit, p)
       else
         let ((taken, _), p) = takeDarkScout s now (waitInTheDark s p)
         in (if taken then ParkScout else ParkOn, p))"

definition parkLimit :: "strm \<Rightarrow> gtime \<Rightarrow> pathState \<Rightarrow> parkLook \<times> pathState" where
  "parkLimit s now p =
    (let (b, p) = pathStillDark p in (if b \<or> darkScouted s now p then ParkOn else ParkOver, p))"

section \<open>Woken workers\<close>

text \<open>
  \<open>awaitRevivalSlot\<close>: a woken worker looks at the slots until it goes. A look is made at an instant of its
  own, with the context's end and the gap drawn there; it takes a slot, goes at its deadline, stops, or
  sleeps until the instant answered.
\<close>

datatype slotLook = SlotTaken | SlotDeadline | SlotStopped | SlotWait gtime

definition revivalLook :: "bool \<Rightarrow> gtime \<Rightarrow> gtime \<Rightarrow> duration \<Rightarrow> gtime \<Rightarrow> slotLook \<times> gtime" where
  "revivalLook done deadline now gap nxt =
    (if done then (SlotStopped, nxt)
     else if \<not> now < nxt then (SlotTaken, now + gap)
     else if \<not> now < deadline then (SlotDeadline, nxt)
     else (SlotWait (if deadline < nxt then deadline else nxt), nxt))"

definition workerStagger :: duration where "workerStagger = 500 * millisecond"
declare workerStagger_def [go_consts]

definition revivalGap :: "int \<Rightarrow> duration" where
  "revivalGap rnd = workerStagger + rnd * millisecond"

end
