(* ===== verification/Traces.thy ===== *)
theory Traces
  imports Main
begin

text \<open>
  Calls in any order: the trace of a component's operations, each with its answer, and the rule by which what
  every operation keeps is kept by a run of them.
\<close>

fun traceRun :: "('c \<Rightarrow> 's \<Rightarrow> 'o \<times> 's) \<Rightarrow> 'c list \<Rightarrow> 's \<Rightarrow> ('c \<times> 'o) list \<times> 's" where
  "traceRun step [] s = ([], s)"
| "traceRun step (c # cs) s =
    (let (answer, s) = step c s; (tr, s) = traceRun step cs s in ((c, answer) # tr, s))"

lemma traceRun_Cons:
  assumes "traceRun step (c # cs) s = (tr, s')"
  obtains answer s1 tr1 where "step c s = (answer, s1)" "traceRun step cs s1 = (tr1, s')" "tr = (c, answer) # tr1"
  using assms by (auto simp: Let_def split: prod.splits)

lemma traceRun_calls: "traceRun step cs s = (tr, s') \<Longrightarrow> map fst tr = cs"
  by (induction cs arbitrary: s tr) (auto elim!: traceRun_Cons simp del: traceRun.simps(2))

lemma traceRun_append:
  "traceRun step (cs @ ds) s =
    (let (tr, s) = traceRun step cs s; (us, s) = traceRun step ds s in (tr @ us, s))"
  by (induction cs arbitrary: s) (simp_all add: Let_def split_beta)

text \<open>
  A property of the trace so far and the state that holds over, call by call, as long as the calls are
  of the kind it allows.
\<close>

locale traced =
  fixes step :: "'c \<Rightarrow> 's \<Rightarrow> 'o \<times> 's"
    and holds :: "('c \<times> 'o) list \<Rightarrow> 's \<Rightarrow> bool"
    and allowed :: "'c \<Rightarrow> bool"
  assumes step_keeps: "\<lbrakk>holds tr s; allowed c; step c s = (answer, s')\<rbrakk> \<Longrightarrow> holds (tr @ [(c, answer)]) s'"
begin

lemma run_keeps:
  assumes "traceRun step cs s = (us, s')" "holds tr s" "\<forall>c \<in> set cs. allowed c"
  shows "holds (tr @ us) s'"
  using assms
proof (induction cs arbitrary: tr s us)
  case (Cons c cs)
  obtain answer s1 us1 where st: "step c s = (answer, s1)" "traceRun step cs s1 = (us1, s')" "us = (c, answer) # us1"
    using Cons.prems(1) by (rule traceRun_Cons)
  have "holds (tr @ [(c, answer)]) s1" using step_keeps [OF Cons.prems(2) _ st(1)] Cons.prems(3) by simp
  from Cons.IH [OF st(2) this] show ?case using Cons.prems(3) st(3) by simp
qed simp

lemma run_establishes:
  "\<lbrakk>traceRun step cs s = (us, s'); holds [] s; \<forall>c \<in> set cs. allowed c\<rbrakk> \<Longrightarrow> holds us s'"
  using run_keeps [of cs s us s' "[]"] by simp

end

section \<open>Races\<close>

text \<open>
  A race of queries, each given a head start over the next: what its loop selects from. The loop of
  \<open>resolveWithOrderedServers\<close> (\<open>dns.go\<close>) and that of \<open>dialFirstReachable\<close> (\<open>vk_dial.go\<close>) are such races;
  what both promise of their runs is proved here once.
\<close>

text \<open>
  The context has ended; the timer of the next one fires; the query known by the key answers. With an answer
  goes whether the context has ended by the time it is looked at.
\<close>

datatype ('k, 'a) raceEvent = Ended | Timer | Answered 'k 'a bool

text \<open>The loop until it returns: a left is what it returns, a right the state it is still in.\<close>

fun raceRun :: "('s \<Rightarrow> ('k, 'a) raceEvent \<Rightarrow> 'r + 's) \<Rightarrow> 's \<Rightarrow> ('k, 'a) raceEvent list \<Rightarrow> 'r + 's" where
  "raceRun step s [] = Inr s"
| "raceRun step s (e # es) = (case step s e of Inl r \<Rightarrow> Inl r | Inr s' \<Rightarrow> raceRun step s' es)"

text \<open>A run in which every event can happen when it does.\<close>

fun possible :: "('s \<Rightarrow> ('k, 'a) raceEvent \<Rightarrow> 'r + 's) \<Rightarrow> ('s \<Rightarrow> ('k, 'a) raceEvent \<Rightarrow> bool) \<Rightarrow> 's
    \<Rightarrow> ('k, 'a) raceEvent list \<Rightarrow> bool" where
  "possible step enabled s [] \<longleftrightarrow> True"
| "possible step enabled s (e # es) \<longleftrightarrow>
    enabled s e \<and> (case step s e of Inl r \<Rightarrow> True | Inr s' \<Rightarrow> possible step enabled s' es)"

locale hedged_race =
  fixes step :: "'s \<Rightarrow> ('k, 'a) raceEvent \<Rightarrow> 'r + 's"
    and enabled :: "'s \<Rightarrow> ('k, 'a) raceEvent \<Rightarrow> bool"
    and left :: "'s \<Rightarrow> nat"
    and holds :: "('k, 'a) raceEvent list \<Rightarrow> 's \<Rightarrow> bool"
  assumes progress: "\<lbrakk>holds h s; enabled s e; step s e = Inr s'\<rbrakk> \<Longrightarrow> left s' < left s"
    and keeps: "\<lbrakk>holds h s; enabled s e; step s e = Inr s'\<rbrakk> \<Longrightarrow> holds (h @ [e]) s'"
begin

text \<open>The race ends: it returns within as many events as it has left.\<close>

lemma returns:
  "\<lbrakk>holds h s; possible step enabled s es; left s < length es\<rbrakk> \<Longrightarrow> \<exists>r. raceRun step s es = Inl r"
proof (induction es arbitrary: h s)
  case (Cons e es)
  show ?case
  proof (cases "step s e")
    case (Inr s')
    then have "holds (h @ [e]) s'" "left s' < left s" using Cons.prems keeps progress by auto
    with Cons.IH [of "h @ [e]" s'] Cons.prems Inr show ?thesis by auto
  qed simp
qed simp

text \<open>What it returns, it returns in a state that holds of the events before.\<close>

lemma returned:
  "\<lbrakk>holds h s; possible step enabled s es; raceRun step s es = Inl r\<rbrakk> \<Longrightarrow>
   \<exists>before e after s'. es = before @ e # after \<and> holds (h @ before) s' \<and> enabled s' e \<and> step s' e = Inl r"
proof (induction es arbitrary: h s)
  case (Cons e es)
  show ?case
  proof (cases "step s e")
    case (Inl r')
    then show ?thesis using Cons.prems by (intro exI [of _ "[]"] exI [of _ e] exI [of _ es] exI [of _ s]) simp
  next
    case (Inr s')
    then have "holds (h @ [e]) s'" using Cons.prems keeps by auto
    with Cons.IH [of "h @ [e]" s'] Cons.prems Inr
    obtain before e' after s2 where "es = before @ e' # after" "holds ((h @ [e]) @ before) s2" "enabled s2 e'" "step s2 e' = Inl r"
      by auto
    then show ?thesis by (intro exI [of _ "e # before"] exI [of _ e'] exI [of _ after] exI [of _ s2]) simp
  qed
qed simp

end

end
