(* ===== verification/DarkPathProps.thy ===== *)
theory DarkPathProps
  imports DarkPath Traces "HOL-Library.Sublist"
begin

text \<open>
  What the scouting of a dark path promises, over any interleaving of the locked operations: a scout that
  dials is alone, the turns pass through the line in order, and they are spaced.
\<close>

section \<open>Runs\<close>

datatype darkOp =
    OpHeard int
  | OpFinds "reporterClock option" "streamView list" bool "64 word" "64 word" gtime bool gtime
  | OpStill
  | OpReleases gtime
  | OpLit
  | OpReset
  | OpWait strm
  | OpStop strm
  | OpLeave strm
  | OpTake strm gtime
  | OpDials strm gtime
  | OpDone "reporterClock option" strm gtime gtime bool

primrec darkStep :: "darkOp \<Rightarrow> pathState \<Rightarrow> bool \<times> pathState" where
  "darkStep (OpHeard now) p = (True, p\<lparr>heard := noteRelayHeard now (heard p)\<rparr>)"
| "darkStep (OpFinds clock streams tcp m e started localErr now) p =
     (fst (findsTheDark clock streams tcp m e started localErr now p) \<noteq> None,
      snd (findsTheDark clock streams tcp m e started localErr now p))"
| "darkStep OpStill p = (fst (pathStillDark p), snd (pathStillDark p))"
| "darkStep (OpReleases now) p = darkReleases now p"
| "darkStep OpLit p = (True, litPath p)"
| "darkStep OpReset p = (True, resetDarkPaths p)"
| "darkStep (OpWait s) p = (True, waitInTheDark s p)"
| "darkStep (OpStop s) p = (True, stopWaitingInTheDark s p)"
| "darkStep (OpLeave s) p = (True, leaveTheDark s p)"
| "darkStep (OpTake s now) p = (fst (fst (takeDarkScout s now p)), snd (takeDarkScout s now p))"
| "darkStep (OpDials s now) p = darkScoutDials s now p"
| "darkStep (OpDone clock s started now isDark) p = (True, darkScoutDone clock s started now isDark p)"

abbreviation darkRun :: "darkOp list \<Rightarrow> pathState \<Rightarrow> (darkOp \<times> bool) list \<times> pathState" where
  "darkRun \<equiv> traceRun darkStep"

section \<open>What the operations leave alone\<close>

definition unfound :: "pathState \<Rightarrow> pathState" where
  "unfound p = p\<lparr>dark := (dark p)\<lparr>found := False\<rparr>\<rparr>"

lemma holdsLocked_state: "snd (holdsLocked p) = p \<or> snd (holdsLocked p) = unfound p"
  by (simp add: holdsLocked_def unfound_def)

lemma unfound_simps [simp]:
  "scout (dark (unfound p)) = scout (dark p)" "dialing (dark (unfound p)) = dialing (dark p)"
  "waiting (dark (unfound p)) = waiting (dark p)" "nextScout (dark (unfound p)) = nextScout (dark p)"
  "leaseTill (dark (unfound p)) = leaseTill (dark p)" "lastScout (dark (unfound p)) = lastScout (dark p)"
  by (simp_all add: unfound_def)

lemma holdsLocked_simps [simp]:
  "scout (dark (snd (holdsLocked p))) = scout (dark p)" "dialing (dark (snd (holdsLocked p))) = dialing (dark p)"
  "waiting (dark (snd (holdsLocked p))) = waiting (dark p)" "nextScout (dark (snd (holdsLocked p))) = nextScout (dark p)"
  "leaseTill (dark (snd (holdsLocked p))) = leaseTill (dark p)" "lastScout (dark (snd (holdsLocked p))) = lastScout (dark p)"
  using holdsLocked_state [of p] by auto

lemma putOffScout_simps [simp]:
  "scout (putOffScout a b d) = scout d" "dialing (putOffScout a b d) = dialing d"
  "waiting (putOffScout a b d) = waiting d" "leaseTill (putOffScout a b d) = leaseTill d"
  "nextScout (putOffScout a b d) = max (nextScout d) (scoutNext a b)"
  by (auto simp: putOffScout_def)

lemma noteLocked_simps [simp]:
  "scout (dark (noteLocked c m s now p)) = scout (dark p)" "dialing (dark (noteLocked c m s now p)) = dialing (dark p)"
  "waiting (dark (noteLocked c m s now p)) = waiting (dark p)"
  by (auto simp: noteLocked_def split_beta Let_def)

lemma noteLocked_next: "nextScout (dark p) \<le> nextScout (dark (noteLocked c m s now p))"
  by (auto simp: noteLocked_def split_beta Let_def)

lemma noteDarkPath_simps [simp]:
  "scout (dark (snd (noteDarkPath c m e s now p))) = scout (dark p)"
  "dialing (dark (snd (noteDarkPath c m e s now p))) = dialing (dark p)"
  "waiting (dark (snd (noteDarkPath c m e s now p))) = waiting (dark p)"
  by (simp_all add: noteDarkPath_def Let_def)

lemma noteDarkPath_next: "nextScout (dark p) \<le> nextScout (dark (snd (noteDarkPath c m e s now p)))"
  using noteLocked_next by (simp add: noteDarkPath_def Let_def)

lemma litPath_simps [simp]:
  "waiting (dark (litPath p)) = waiting (dark p)" "nextScout (dark (litPath p)) = nextScout (dark p)"
  by (simp_all add: litPath_def)

text \<open>The four ways a failed attempt can look at the path.\<close>

lemma findsTheDark_state:
  "snd (findsTheDark c streams tcp m e s localErr now p) \<in>
     {litPath p, snd (noteDarkPath c (relayHeardMark p) e s now p), snd (noteDarkPath c m e s now p), snd (holdsLocked p)}"
  by (simp add: findsTheDark_def pathStillDark_def split_beta)

lemma finds_waiting: "waiting (dark (snd (findsTheDark c streams tcp m e s localErr now p))) = waiting (dark p)"
  using findsTheDark_state [of c streams tcp m e s localErr now p] by auto

lemma finds_next: "nextScout (dark p) \<le> nextScout (dark (snd (findsTheDark c streams tcp m e s localErr now p)))"
  using findsTheDark_state [of c streams tcp m e s localErr now p] by (auto simp: noteDarkPath_next)

lemma takeDarkScout_simps:
  "fst (fst (takeDarkScout s now p)) \<Longrightarrow>
     waiting (dark p) = s # waiting (dark (snd (takeDarkScout s now p))) \<and> nextScout (dark p) \<le> now \<and>
     \<not> liveScoutLocked (dark p) now"
  "\<not> fst (fst (takeDarkScout s now p)) \<Longrightarrow> snd (takeDarkScout s now p) = snd (holdsLocked p)"
  "nextScout (dark (snd (takeDarkScout s now p))) = nextScout (dark p)"
proof -
  let ?q = "snd (holdsLocked p)"
  have live: "liveScoutLocked (dark ?q) now = liveScoutLocked (dark p) now" by (simp add: liveScoutLocked_def)
  show "fst (fst (takeDarkScout s now p)) \<Longrightarrow>
     waiting (dark p) = s # waiting (dark (snd (takeDarkScout s now p))) \<and> nextScout (dark p) \<le> now \<and>
     \<not> liveScoutLocked (dark p) now"
    "\<not> fst (fst (takeDarkScout s now p)) \<Longrightarrow> snd (takeDarkScout s now p) = ?q"
    "nextScout (dark (snd (takeDarkScout s now p))) = nextScout (dark p)"
    by (cases "waiting (dark p)"; auto simp: takeDarkScout_def split_beta Let_def live split: if_splits)+
qed


section \<open>The scout is alone\<close>

text \<open>What may end the turn of a scout that dials: a light, a reset, its own leaving, its own verdict.\<close>

primrec endsTurn :: "strm \<Rightarrow> darkOp \<Rightarrow> bool" where
  "endsTurn s (OpHeard now) = False"
| "endsTurn s (OpFinds clock streams tcp m e started localErr now) = heardWithin streams pathDarkQuiet"
| "endsTurn s OpStill = False"
| "endsTurn s (OpReleases now) = False"
| "endsTurn s OpLit = True"
| "endsTurn s OpReset = True"
| "endsTurn s (OpWait w) = False"
| "endsTurn s (OpStop w) = False"
| "endsTurn s (OpLeave w) = (w = s)"
| "endsTurn s (OpTake w now) = False"
| "endsTurn s (OpDials w now) = False"
| "endsTurn s (OpDone clock w started now isDark) = (w = s)"

text \<open>The answers that would have another worker dial, or scout.\<close>

definition otherDials :: "strm \<Rightarrow> darkOp \<Rightarrow> bool" where
  "otherDials s x \<longleftrightarrow> (\<exists>w now. x = OpTake w now \<or> (x = OpDials w now \<and> w \<noteq> s))"

definition scouting :: "strm \<Rightarrow> pathState \<Rightarrow> bool" where
  "scouting s p \<longleftrightarrow> scout (dark p) = Some s \<and> dialing (dark p)"

lemma scouting_live: "scouting s p \<Longrightarrow> liveScoutLocked (dark p) now"
  by (simp add: scouting_def liveScoutLocked_def)

lemma scouting_holds [simp]: "scouting s (snd (holdsLocked p)) = scouting s p"
  by (simp add: scouting_def)

lemma scouting_finds:
  assumes "scouting s p" "\<not> heardWithin streams pathDarkQuiet"
  shows "scouting s (snd (findsTheDark c streams tcp m e st localErr now p))"
proof -
  have "snd (findsTheDark c streams tcp m e st localErr now p) \<in>
      {snd (noteDarkPath c (relayHeardMark p) e st now p), snd (noteDarkPath c m e st now p), snd (holdsLocked p)}"
    using assms(2) by (simp add: findsTheDark_def pathStillDark_def split_beta)
  with assms(1) show ?thesis by (auto simp: scouting_def)
qed

lemma scouting_step:
  assumes "scouting s p" "\<not> endsTurn s x" "darkStep x p = (b, p')"
  shows "scouting s p' \<and> (otherDials s x \<longrightarrow> \<not> b)"
proof -
  have sc: "scout (dark p) = Some s" "dialing (dark p)" using assms(1) by (simp_all add: scouting_def)
  have sc': "scout (dark (snd (holdsLocked p))) = Some s" "dialing (dark (snd (holdsLocked p)))" using sc by simp_all
  show ?thesis
  proof (cases x)
    case (OpFinds c streams tcp m e st localErr now)
    then have "\<not> heardWithin streams pathDarkQuiet" using assms(2) by simp
    from scouting_finds [OF assms(1) this, of c tcp m e st localErr now]
    show ?thesis using assms(3) OpFinds by (auto simp: otherDials_def)
  next
    case (OpTake w now)
    then have "b = fst (fst (takeDarkScout w now p))" "p' = snd (takeDarkScout w now p)" using assms(3) by auto
    with takeDarkScout_simps(1,2) [of w now p] scouting_live [OF assms(1)] assms(1) show ?thesis by auto
  next
    case (OpDials w now)
    show ?thesis
    proof (cases "w = s")
      case True
      then show ?thesis using assms(3) OpDials sc by (auto simp: darkScoutDials_def scouting_def otherDials_def)
    next
      case False
      then have "(b, p') = (\<not> fst (holdsLocked p) \<and> \<not> liveScoutLocked (dark (snd (holdsLocked p))) now, snd (holdsLocked p))"
        using assms(3) OpDials sc by (auto simp: darkScoutDials_def split_beta Let_def)
      then show ?thesis using assms(1) scouting_live [of s "snd (holdsLocked p)" now] by auto
    qed
  next
    case OpStill
    have "p' = snd (darkStep OpStill p)" using assms(3) OpStill by simp
    then have "p' = snd (holdsLocked p)" by (simp add: pathStillDark_def)
    then show ?thesis using sc OpStill by (simp add: scouting_def otherDials_def)
  qed (use assms sc in \<open>auto simp: scouting_def otherDials_def pathStillDark_def darkReleases_def waitInTheDark_def
      stopWaitingInTheDark_def leaveTheDark_def darkScoutDone_def split_beta Let_def split: if_splits\<close>)
qed

definition aloneSoFar :: "strm \<Rightarrow> (darkOp \<times> bool) list \<Rightarrow> pathState \<Rightarrow> bool" where
  "aloneSoFar s tr p \<longleftrightarrow> scouting s p \<and> (\<forall>(x, b) \<in> set tr. otherDials s x \<longrightarrow> \<not> b)"

interpretation scoutAlone: traced darkStep "aloneSoFar s" "\<lambda>x. \<not> endsTurn s x" for s
  by unfold_locales (auto simp: aloneSoFar_def dest: scouting_step)


section \<open>The turns\<close>

text \<open>The workers given a turn in a run, in the order they took them.\<close>

fun takers :: "(darkOp \<times> bool) list \<Rightarrow> strm list" where
  "takers [] = []"
| "takers ((OpTake s now, b) # tr) = (if b then s # takers tr else takers tr)"
| "takers (_ # tr) = takers tr"

text \<open>A worker leaves the line otherwise than by its turn, or the line is forgotten.\<close>

definition leavesLine :: "darkOp \<Rightarrow> bool" where
  "leavesLine x \<longleftrightarrow> x = OpReset \<or> (\<exists>s. x = OpStop s \<or> x = OpLeave s)"

lemma waiting_step:
  assumes "\<not> leavesLine x" "darkStep x p = (b, p')"
  shows "prefix (waiting (dark p)) (takers [(x, b)] @ waiting (dark p')) \<and>
    (distinct (waiting (dark p)) \<longrightarrow> distinct (waiting (dark p')))"
proof (cases x)
  case (OpTake s now)
  have b: "b = fst (fst (takeDarkScout s now p))" "p' = snd (takeDarkScout s now p)" using assms(2) OpTake by auto
  show ?thesis
  proof (cases b)
    case True
    then have "waiting (dark p) = s # waiting (dark p')" using takeDarkScout_simps(1) b by blast
    then show ?thesis using True OpTake by auto
  next
    case False
    then have "waiting (dark p') = waiting (dark p)" using takeDarkScout_simps(2) [of s now p] b by simp
    then show ?thesis using False OpTake by auto
  qed
next
  case (OpDials s now)
  then have "waiting (dark p') = waiting (dark p)"
    using assms(2) by (auto simp: darkScoutDials_def split_beta Let_def split: if_splits)
  then show ?thesis using OpDials by auto
next
  case (OpDone c s st now isDark)
  then have "waiting (dark p') = waiting (dark p)" using assms(2) by (auto simp: darkScoutDone_def Let_def split: if_splits)
  then show ?thesis using OpDone by auto
next
  case OpStill
  have "p' = snd (darkStep OpStill p)" using assms(2) OpStill by simp
  then have "p' = snd (holdsLocked p)" by (simp add: pathStillDark_def)
  then show ?thesis using OpStill by simp
qed (use assms in \<open>auto simp: leavesLine_def finds_waiting pathStillDark_def darkReleases_def waitInTheDark_def
    split_beta Let_def\<close>)

lemma takers_Cons: "takers (xb # tr) = takers [xb] @ takers tr"
  by (cases xb; cases "fst xb") auto

lemma takers_append: "takers (tr @ us) = takers tr @ takers us"
  by (induction tr) (simp, metis append_Cons append_assoc takers_Cons)

text \<open>The line \<open>ws\<close> that stood there at first: those given their turns since come before those still in line.\<close>

definition lineSoFar :: "strm list \<Rightarrow> (darkOp \<times> bool) list \<Rightarrow> pathState \<Rightarrow> bool" where
  "lineSoFar ws tr p \<longleftrightarrow> prefix ws (takers tr @ waiting (dark p)) \<and> (distinct ws \<longrightarrow> distinct (waiting (dark p)))"

lemma lineSoFar_step:
  assumes "lineSoFar ws tr p" "\<not> leavesLine x" "darkStep x p = (b, p')"
  shows "lineSoFar ws (tr @ [(x, b)]) p'"
proof -
  note w = waiting_step [OF assms(2,3)]
  have "prefix (takers tr @ waiting (dark p)) (takers tr @ takers [(x, b)] @ waiting (dark p'))"
    using w by (simp only: same_prefix_prefix)
  then show ?thesis using assms(1) w prefix_order.trans by (fastforce simp: lineSoFar_def takers_append [of tr])
qed

interpretation inLine: traced darkStep "lineSoFar ws" "\<lambda>x. \<not> leavesLine x" for ws
  by unfold_locales (rule lineSoFar_step)

text \<open>
  The turns pass through the line: as long as no worker gives up waiting and the path is not reset, the workers in
  line are given their turns in the order they stand in it, none skipped and none overtaken by a worker that
  joins or comes back from its turn, whatever else happens to the path meanwhile.
\<close>

theorem turns_pass_through_the_line:
  assumes "\<forall>x \<in> set ops. \<not> leavesLine x" "darkRun ops p = (tr, p')"
  shows "prefix (waiting (dark p)) (takers tr @ waiting (dark p')) \<and>
    (distinct (waiting (dark p)) \<longrightarrow> distinct (waiting (dark p')))"
  using inLine.run_establishes [OF assms(2), of "waiting (dark p)"] assms(1) by (simp add: lineSoFar_def)

section \<open>The spacing of the turns\<close>

lemma next_step:
  assumes "x \<noteq> OpReset" "darkStep x p = (b, p')"
  shows "nextScout (dark p) \<le> nextScout (dark p') \<and> (\<forall>s now. x = OpTake s now \<longrightarrow> b \<longrightarrow> nextScout (dark p) \<le> now)"
proof (cases x)
  case (OpTake s now)
  then show ?thesis using assms(2) takeDarkScout_simps(1,3) [of s now p] by auto
next
  case (OpDone c s st now isDark)
  have n: "nextScout (dark p) \<le> max (nextScout (dark (if isDark then noteLocked c (relayHeardMark p) st now p else p))) k" for k
    using noteLocked_next [of p c "relayHeardMark p" st now] by auto
  show ?thesis using assms(2) OpDone n by (auto simp: darkScoutDone_def Let_def split: if_splits)
next
  case (OpDials s now)
  then show ?thesis using assms(2) by (auto simp: darkScoutDials_def split_beta Let_def split: if_splits)
next
  case OpStill
  have "p' = snd (darkStep OpStill p)" using assms(2) OpStill by simp
  then have "p' = snd (holdsLocked p)" by (simp add: pathStillDark_def)
  then show ?thesis using OpStill by simp
qed (use assms finds_next in \<open>auto simp: pathStillDark_def darkReleases_def waitInTheDark_def stopWaitingInTheDark_def
    leaveTheDark_def split_beta Let_def\<close>)

definition spacedSoFar :: "gtime \<Rightarrow> (darkOp \<times> bool) list \<Rightarrow> pathState \<Rightarrow> bool" where
  "spacedSoFar t tr p \<longleftrightarrow> t \<le> nextScout (dark p) \<and> (\<forall>s now. (OpTake s now, True) \<in> set tr \<longrightarrow> t \<le> now)"

interpretation spacedTurns: traced darkStep "spacedSoFar t" "\<lambda>x. x \<noteq> OpReset" for t
  by unfold_locales (fastforce simp: spacedSoFar_def dest: next_step)

text \<open>
  The dark is dialed sparingly: after a scout's attempt that began at \<open>started\<close> and ended at \<open>ended\<close> no worker is
  given a turn before six seconds from its start and half a second from its end have passed, whatever happens in
  between, lights and darks found again included, unless the path is reset.
\<close>

theorem scouts_are_spaced:
  assumes "scout (dark p) = Some s" "dialing (dark p)" "OpReset \<notin> set ops"
    and "darkRun ops (darkScoutDone clock s started ended isDark p) = (tr, p')" "(OpTake w now, True) \<in> set tr"
  shows "started + 6 * second \<le> now \<and> ended + 500 * millisecond \<le> now"
proof -
  have ops: "\<forall>x \<in> set ops. x \<noteq> OpReset" using assms(3) by blast
  let ?q = "darkScoutDone clock s started ended isDark p"
  have "spacedSoFar (nextScout (dark ?q)) [] ?q" by (simp add: spacedSoFar_def)
  from spacedTurns.run_establishes [OF assms(4) this ops]
  have run: "nextScout (dark ?q) \<le> now" using assms(5) by (auto simp: spacedSoFar_def)
  have "scoutNext started ended \<le> nextScout (dark (darkScoutDone clock s started ended isDark p))"
    using assms(1,2) by (simp add: darkScoutDone_def Let_def)
  also have "\<dots> \<le> now" by (rule run)
  finally show ?thesis by (simp add: scoutNext_def Let_def darkScoutGap_def darkScoutPeriod_def split: if_splits)
qed


section \<open>An example\<close>

text \<open>Two workers parked in a dark found by the first; the first scouts it in vain, then the second.\<close>

definition exampleOps :: "darkOp list" where
  "exampleOps = [OpFinds None [] False 0 0 (100 * second) False (103 * second), OpWait 1, OpWait 2,
     OpTake 1 (107 * second), OpDials 1 (108 * second)]"

definition exampleScouted :: pathState where
  "exampleScouted = snd (darkRun exampleOps newPath)"

definition laterOps :: "darkOp list" where
  "laterOps = [OpDone None 1 (107 * second) (110 * second) True, OpWait 1, OpTake 2 (114 * second)]"


theorem turns_pass_through_the_line_witness:
  "prefix [2] (takers (fst (darkRun laterOps exampleScouted)) @ waiting (dark (snd (darkRun laterOps exampleScouted))))"
proof -
  obtain tr p' where r: "darkRun laterOps exampleScouted = (tr, p')" by fastforce
  have "waiting (dark exampleScouted) = [2]" by code_simp
  moreover have "\<forall>x \<in> set laterOps. \<not> leavesLine x" by (simp add: laterOps_def leavesLine_def)
  ultimately show ?thesis using turns_pass_through_the_line [OF _ r] r by simp
qed

theorem scouts_are_spaced_witness:
  "107 * second + 6 * second \<le> 114 * second \<and> 110 * second + 500 * millisecond \<le> 114 * second"
proof -
  let ?p = "darkScoutDone None 1 (107 * second) (110 * second) True exampleScouted"
  let ?ops = "[OpWait 1, OpTake 2 (114 * second)]"
  obtain tr p' where r: "darkRun ?ops ?p = (tr, p')" by fastforce
  have "scout (dark exampleScouted) = Some 1" "dialing (dark exampleScouted)" by code_simp+
  moreover have "list_ex (\<lambda>(x, b). b \<and> (case x of OpTake w now \<Rightarrow> w = 2 \<and> now = 114 * second | _ \<Rightarrow> False)) (fst (darkRun ?ops ?p))"
    by code_simp
  then have "(OpTake 2 (114 * second), True) \<in> set tr"
    unfolding r by (auto simp: list_ex_iff split: darkOp.splits)
  ultimately show ?thesis using scouts_are_spaced [of exampleScouted 1 ?ops, OF _ _ _ r] by simp
qed

end
