(* ===== verification/Errors.thy ===== *)
theory Errors
  imports GoBytes
begin

text \<open>
  Errors and what the program reads of them: whether a failed attempt calls for new credentials
  (\<open>classifyCredError\<close>, \<open>isQuotaError\<close> of \<open>worker_group.go\<close>), through which relay an attempt that
  raced several speaks (\<open>raceError\<close> of \<open>stream_run_with_creds.go\<close>), whether the failure was the whole
  path's (\<open>path_revival.go\<close>), only silence (\<open>relay_silence.go\<close>), the machine's own network
  (\<open>local_network_failure.go\<close>), or one flow's (\<open>relay_heard_by_others.go\<close>), and the verdict a finished
  session is graded by (\<open>sessionOutcome\<close>).

  A Go error is a chain of wrapped errors. The program asks a chain for a TURN error code
  (\<open>errors.As\<close> to \<open>*stun.TurnError\<close>), for system error numbers, for a \<open>net.Error\<close> and whether that is a
  timeout, for a \<open>*net.OpError\<close>, for a \<open>*deadStreamError\<close>, for its own sentinels, for the text of its
  innermost error and for its whole text: the record \<open>errFacts\<close>. Of a \<open>*deadStreamError\<close> the silence and whether it
  is the verdict of the probe after a wake are read. The one error whose chain is code of the program is \<open>raceError\<close>, a constructor of its own. Texts are compared in ASCII lower case.
\<close>

datatype sentinel = ErrRelayNeverAnswered | ErrAllocateSilent | ErrRelayFlowTimedOut
  | ErrDataPlaneHandshake | ErrEOF | ErrUnexpectedEOF | ErrNetClosed

record errFacts =
  turnCode :: "int option"
  errnos :: "int list"
  netError :: "bool option"
  opError :: bool
  deadStream :: "(duration \<times> bool) option"
  sentinels :: "sentinel list"
  rootText :: string
  errText :: string

datatype goError = Plain errFacts | Race "attempt list" nat
  and attempt = Attempt (attemptAddr: string) (attemptErr: goError) (attemptAt: gtime)

definition noFacts :: errFacts where
  "noFacts = \<lparr>turnCode = None, errnos = [], netError = None, opError = False, deadStream = None,
     sentinels = [], rootText = [], errText = []\<rparr>"

lemma size_attemptErr [termination_simp]: "a \<in> set as \<Longrightarrow> size (attemptErr a) < Suc (size_list size as)"
proof -
  assume "a \<in> set as"
  then have "size a \<le> size_list size as" by (rule size_list_estimation') simp
  moreover have "size (attemptErr a) < size a" by (cases a) simp
  ultimately show ?thesis by simp
qed

section \<open>The chain of a race\<close>

text \<open>\<open>raceError.Unwrap\<close> leads to the spokesman's error; its text is a sentence over the spokesman's.\<close>

function facts :: "goError \<Rightarrow> errFacts" where
  "facts (Plain f) = f"
| "facts (Race as k) = (if k < length as then facts (attemptErr (as ! k)) else noFacts)"
  by pat_completeness auto
termination by (relation "measure size") (auto intro: size_attemptErr)

function errorText :: "goError \<Rightarrow> string" where
  "errorText (Plain f) = errText f"
| "errorText (Race as k) = ''TURN allocate: all '' @ showNat (length as) @ '' servers failed: '' @
     (if k < length as then errorText (attemptErr (as ! k)) else [])"
  by pat_completeness auto
termination by (relation "measure size") (auto intro: size_attemptErr)

definition turnErrorCode :: "goError \<Rightarrow> int option" where
  "turnErrorCode e = turnCode (facts e)"

definition errnoIn :: "goError \<Rightarrow> int list \<Rightarrow> bool" where
  "errnoIn e ns \<longleftrightarrow> list_ex (\<lambda>n. n \<in> set (errnos (facts e))) ns"

definition errorIs :: "goError \<Rightarrow> sentinel \<Rightarrow> bool" where
  "errorIs e s \<longleftrightarrow> s \<in> set (sentinels (facts e))"

definition localNetworkErrnos :: "int list" where
  "localNetworkErrnos = [10053, 10051, 10050, 10049, 1231, 1236]"
definition relayRefusedErrnos :: "int list" where "relayRefusedErrnos = [10061, 1225]"
definition relayResetErrnos :: "int list" where "relayResetErrnos = [10054, 109]"
definition relayTimedOutErrnos :: "int list" where "relayTimedOutErrnos = [10060, 1460]"

definition localNetworkError :: "goError \<Rightarrow> bool" where
  "localNetworkError e \<longleftrightarrow> errnoIn e localNetworkErrnos"

section \<open>Credentials\<close>

definition isTransportError :: "goError \<Rightarrow> bool" where
  "isTransportError e \<longleftrightarrow> opError (facts e) \<or> netError (facts e) \<noteq> None \<or> errnos (facts e) \<noteq> []"

definition codeAllocMismatch :: int where "codeAllocMismatch = 437"
definition codeAllocQuotaReached :: int where "codeAllocQuotaReached = 486"

definition isAllocateMismatch :: "goError \<Rightarrow> bool" where
  "isAllocateMismatch e \<longleftrightarrow> turnErrorCode e = Some codeAllocMismatch"

definition isQuotaError :: "goError \<Rightarrow> bool" where
  "isQuotaError e = (case turnErrorCode e of
     Some code \<Rightarrow> code = codeAllocQuotaReached
   | None \<Rightarrow> if isTransportError e then False else strContains (toLower (errorText e)) ''quota'')"

definition credCodes :: "int list" where
  "credCodes = [401, 438, 441, codeAllocQuotaReached, 508]"

definition credTexts :: "string list" where
  "credTexts = [''quota'', ''error 486'', ''allocation quota reached'', ''error 401'', ''unauthorized'',
     ''stale nonce'', ''attribute not found'', ''error 508'', ''error 29'']"

definition classifyCredError :: "goError \<Rightarrow> bool" where
  "classifyCredError e = (case turnErrorCode e of
     Some code \<Rightarrow> code \<in> set credCodes
   | None \<Rightarrow> if isTransportError e then False
             else list_ex (strContains (toLower (errorText e))) credTexts)"

section \<open>Races\<close>

fun firstIndex :: "('a \<Rightarrow> bool) \<Rightarrow> 'a list \<Rightarrow> nat option" where
  "firstIndex P [] = None"
| "firstIndex P (x # xs) = (if P x then Some 0 else map_option Suc (firstIndex P xs))"

definition newRaceError :: "attempt list \<Rightarrow> goError" where
  "newRaceError as = Race as (case firstIndex (\<lambda>a. classifyCredError (attemptErr a)) as of
     Some i \<Rightarrow> i | None \<Rightarrow> length as - 1)"

fun spokesman :: "goError \<Rightarrow> attempt option" where
  "spokesman (Race as k) = (if k < length as then Some (as ! k) else None)"
| "spokesman (Plain f) = None"

fun overrulesLast :: "goError \<Rightarrow> bool" where
  "overrulesLast (Race as k) \<longleftrightarrow> k \<noteq> length as - 1 \<and> \<not> classifyCredError (attemptErr (last as))"
| "overrulesLast (Plain f) = False"

definition quotaAnsweredBy :: "goError \<Rightarrow> string list \<Rightarrow> (string \<times> gtime) list" where
  "quotaAnsweredBy e addrs = (case e of
     Plain _ \<Rightarrow> map (\<lambda>a. (a, zero_time)) addrs
   | Race as k \<Rightarrow> map (\<lambda>a. (attemptAddr a, attemptAt a))
       (filter (\<lambda>a. isQuotaError (attemptErr a) \<and> attemptAddr a \<in> set addrs) as))"

definition quotaBesideSilence :: "goError \<Rightarrow> (string \<times> string) option" where
  "quotaBesideSilence e = (case e of
     Plain _ \<Rightarrow> None
   | Race as k \<Rightarrow>
       if \<not> isQuotaError e then None
       else case find (\<lambda>a. turnErrorCode (attemptErr a) = None) as of
              None \<Rightarrow> None
            | Some a \<Rightarrow> map_option (\<lambda>s. (attemptAddr s, attemptAddr a)) (spokesman e))"

definition quotaGraceApplies :: "goError \<Rightarrow> string \<Rightarrow> string \<Rightarrow> bool \<Rightarrow> (string \<times> string) option" where
  "quotaGraceApplies e u used replaced = (if u = used \<or> replaced then None else quotaBesideSilence e)"

section \<open>Silence\<close>

definition pionTransactionLost :: "goError \<Rightarrow> bool" where
  "pionTransactionLost e \<longleftrightarrow> rootText (facts e) = ''all retransmissions failed for'' \<or>
    rootText (facts e) = ''turn: failed to retransmit transaction''"

definition silentFailure :: "goError option \<Rightarrow> bool" where
  "silentFailure oe = (case oe of None \<Rightarrow> False | Some e \<Rightarrow>
     if turnErrorCode e \<noteq> None \<or> errnoIn e relayRefusedErrnos then False
     else if errorIs e ErrRelayFlowTimedOut then True
     else if errnoIn e relayResetErrnos then False
     else errnoIn e relayTimedOutErrnos \<or> errorIs e ErrRelayNeverAnswered \<or> errorIs e ErrAllocateSilent \<or>
       netError (facts e) = Some True \<or> pionTransactionLost e)"

definition plainPathWide :: "goError \<Rightarrow> bool" where
  "plainPathWide e \<longleftrightarrow>
    (if turnErrorCode e \<noteq> None \<or> errnoIn e relayRefusedErrnos then False
     else localNetworkError e \<or> errnoIn e relayResetErrnos \<or> errnoIn e relayTimedOutErrnos \<or>
       deadStream (facts e) \<noteq> None \<or> errorIs e ErrRelayNeverAnswered \<or> errorIs e ErrAllocateSilent \<or>
       errorIs e ErrRelayFlowTimedOut \<or> netError (facts e) = Some True \<or> pionTransactionLost e)"

function pathWideError :: "goError \<Rightarrow> bool" where
  "pathWideError (Plain f) = plainPathWide (Plain f)"
| "pathWideError (Race as k) \<longleftrightarrow> (\<forall>a \<in> set as. pathWideError (attemptErr a)) \<and> as \<noteq> []"
  by pat_completeness auto
termination by (relation "measure size") (auto intro: size_attemptErr)

definition pathWideFailure :: "goError option \<Rightarrow> bool" where
  "pathWideFailure oe = (case oe of None \<Rightarrow> False | Some e \<Rightarrow> pathWideError e)"

function parksInTheDark :: "goError \<Rightarrow> bool" where
  "parksInTheDark (Plain f) \<longleftrightarrow> pathWideError (Plain f) \<and>
     (errorIs (Plain f) ErrRelayFlowTimedOut \<or> \<not> errnoIn (Plain f) relayResetErrnos)"
| "parksInTheDark (Race as k) \<longleftrightarrow> pathWideError (Race as k) \<and> (\<forall>a \<in> set as. parksInTheDark (attemptErr a)) \<and> as \<noteq> []"
  by pat_completeness auto
termination by (relation "measure size") (auto intro: size_attemptErr)

section \<open>One flow's failure\<close>

definition tcpAttemptFailureIsIsolated :: "bool \<Rightarrow> goError option \<Rightarrow> bool" where
  "tcpAttemptFailureIsIsolated heardByOthers oe = (case oe of None \<Rightarrow> False | Some e \<Rightarrow>
     turnErrorCode e = None \<and>
     (isTransportError e \<or> errorIs e ErrEOF \<or> errorIs e ErrUnexpectedEOF \<or> errorIs e ErrNetClosed \<or>
      errorIs e ErrAllocateSilent \<or> pionTransactionLost e) \<and> heardByOthers)"

end
