(* ===== verification/SessionVerdict.thy ===== *)
theory SessionVerdict
  imports Errors ServerHealth
begin

text \<open>
  How a finished session, a dial and a start of the proxy are graded: \<open>sessionOutcome\<close> and the
  end of \<open>runSession\<close>, the blame of a failed dial (\<open>stream_run_with_creds.go\<close>), the seat an allocation out
  of reach leaves (\<open>orphaned_allocations.go\<close>), the code of a start out of time (\<open>start_outcome.go\<close>).
  What the rest of the process knows at that moment (the network left, the host slept, another stream hears
  the relay) is the record \<open>excuses\<close>.
\<close>

section \<open>The verdict of a session\<close>

definition healthySessionDuration :: duration where "healthySessionDuration = 60 * second"
declare healthySessionDuration_def [go_consts]

datatype sessionVerdict = VerdictNone | VerdictSuccess | VerdictFailure | VerdictHandshakeFailure
datatype blackholeKind = NoBlackhole | BlackholeRelay | BlackholeOutOfReach

definition sessionBlackhole :: "bool \<Rightarrow> bool \<Rightarrow> blackholeKind" where
  "sessionBlackhole fired unreachable =
    (if \<not> fired then NoBlackhole else if unreachable then BlackholeOutOfReach else BlackholeRelay)"

definition errDead :: "goError option \<Rightarrow> (duration \<times> bool) option" where
  "errDead oe = (case oe of None \<Rightarrow> None | Some e \<Rightarrow> deadStream (facts e))"

definition sessionOutcome ::
  "bool \<Rightarrow> blackholeKind \<Rightarrow> duration \<Rightarrow> duration \<Rightarrow> goError option \<Rightarrow> sessionVerdict" where
  "sessionOutcome cancelled hole dur silent err =
    (let deaf = errDead err \<noteq> None;
         dur = (case errDead err of None \<Rightarrow> dur | Some (quiet, _) \<Rightarrow> dur - quiet) in
     if cancelled then VerdictNone
     else if hole = BlackholeOutOfReach then
       (if (if deaf then dur else dur - silent) \<ge> healthySessionDuration then VerdictSuccess else VerdictNone)
     else if hole = BlackholeRelay then VerdictFailure
     else if dur \<ge> healthySessionDuration then VerdictSuccess
     else if (case err of None \<Rightarrow> False | Some e \<Rightarrow> errorIs e ErrDataPlaneHandshake) then VerdictHandshakeFailure
     else if deaf then VerdictNone
     else if err \<noteq> None then VerdictFailure
     else VerdictNone)"

text \<open>The age of what the stream heard last, if it published a clock.\<close>

definition sessionSilence :: "duration option \<Rightarrow> gtime \<Rightarrow> gtime \<Rightarrow> duration" where
  "sessionSilence heardAge started now = (case heardAge of None \<Rightarrow> tsub now started | Some age \<Rightarrow> age)"

definition sessionOutOfReach :: "blackholeKind \<Rightarrow> goError option \<Rightarrow> bool" where
  "sessionOutOfReach hole err \<longleftrightarrow> hole = BlackholeOutOfReach \<or>
    (case errDead err of None \<Rightarrow> False | Some (_, probe) \<Rightarrow> probe)"

definition outOfReachSeated :: "blackholeKind \<Rightarrow> bool \<Rightarrow> goError option \<Rightarrow> bool" where
  "outOfReachSeated hole overTCP err \<longleftrightarrow>
    (if \<not> sessionOutOfReach hole err then False else \<not> overTCP \<or> hole \<noteq> BlackholeOutOfReach)"

section \<open>Grading a session\<close>

record excuses =
  xNetworkLeft :: bool
  xFroze :: bool
  xHeardByOthers :: bool

definition relayNotToBlame :: "excuses \<Rightarrow> goError option \<Rightarrow> bool" where
  "relayNotToBlame x err \<longleftrightarrow> (case err of None \<Rightarrow> False | Some e \<Rightarrow> localNetworkError e) \<or> xNetworkLeft x"

record finished =
  fAddr :: string
  fCancelled :: bool
  fHole :: blackholeKind
  fStarted :: gtime
  fEnded :: gtime
  fSilent :: duration
  fFlowEnded :: bool
  fErr :: "goError option"

text \<open>
  The verdict after the excuses, in the order of the code; a handshake that failed while another stream hears
  the relay is booked on the flow instead (the second result).
\<close>

definition excusedVerdict :: "excuses \<Rightarrow> finished \<Rightarrow> sessionVerdict \<times> bool" where
  "excusedVerdict x f =
    (let v = sessionOutcome (fCancelled f) (fHole f) (tsub (fEnded f) (fStarted f)) (fSilent f) (fErr f);
         v = (if fFlowEnded f \<and> v = VerdictFailure then VerdictNone else v);
         v = (if (v = VerdictFailure \<or> v = VerdictHandshakeFailure) \<and> relayNotToBlame x (fErr f) then VerdictNone else v);
         v = (if (v = VerdictFailure \<or> v = VerdictHandshakeFailure) \<and> xFroze x then VerdictNone else v)
     in if v = VerdictHandshakeFailure \<and> xHeardByOthers x then (VerdictNone, True) else (v, False))"

definition bookVerdict :: "finished \<Rightarrow> sessionVerdict \<Rightarrow> gtime \<Rightarrow> health \<Rightarrow> health" where
  "bookVerdict f v now m = (case v of
     VerdictSuccess \<Rightarrow> noteServerSuccess m (fAddr f)
   | VerdictHandshakeFailure \<Rightarrow> noteServerHandshakeFailureAt m (fAddr f) (fStarted f) now
   | VerdictFailure \<Rightarrow> noteServerFailureAt m (fAddr f) now
   | VerdictNone \<Rightarrow> m)"

definition gradeSession :: "excuses \<Rightarrow> finished \<Rightarrow> gtime \<Rightarrow> health \<Rightarrow> bool \<times> health" where
  "gradeSession x f now m = (let (v, flow) = excusedVerdict x f in (flow, bookVerdict f v now m))"

section \<open>The error a session ends in\<close>

text \<open>
  What the worker is told (the end of \<open>runSession\<close>): a blackhole is restated with the watchdog's words, its
  cause flattened to text; a flow the system gave up and a reader that stopped keep the cause in the chain.
\<close>

definition flattened :: "string \<Rightarrow> goError" where
  "flattened t = Plain (noFacts\<lparr>rootText := t, errText := t\<rparr>)"

definition restateBlackhole :: "string \<Rightarrow> goError option \<Rightarrow> goError" where
  "restateBlackhole why err = flattened (''TURN blackhole: '' @ why @
     (case err of None \<Rightarrow> [] | Some e \<Rightarrow> '' ('' @ errorText e @ '')''))"

definition flowTimedOutText :: string where
  "flowTimedOutText = ''TCP flow to the relay timed out''"

text \<open>\<open>fmt.Errorf\<close> with two wrapped errors: asked for either, but with no single error beneath it.\<close>

definition flowTimedOutError :: "goError option \<Rightarrow> goError" where
  "flowTimedOutError err = Plain (case err of
     None \<Rightarrow> noFacts\<lparr>sentinels := [ErrRelayFlowTimedOut], rootText := flowTimedOutText,
       errText := flowTimedOutText @ '': no progress for 30s''\<rparr>
   | Some e \<Rightarrow>
       let t = flowTimedOutText @ '': no progress for 30s: '' @ errorText e
       in (facts e)\<lparr>sentinels := ErrRelayFlowTimedOut # sentinels (facts e), rootText := t, errText := t\<rparr>)"

definition readerStoppedError :: "goError \<Rightarrow> goError" where
  "readerStoppedError e = Plain ((facts e)\<lparr>errText := ''the relay connection is no longer read: '' @ errorText e\<rparr>)"

definition sessionError :: "string option \<Rightarrow> bool \<Rightarrow> goError option \<Rightarrow> goError option \<Rightarrow> goError option" where
  "sessionError blackholeWhy flowTimedOut readerErr err =
    (case blackholeWhy of
       Some why \<Rightarrow> Some (restateBlackhole why err)
     | None \<Rightarrow>
         if flowTimedOut then Some (flowTimedOutError err)
         else (case readerErr of Some e \<Rightarrow> Some (readerStoppedError e) | None \<Rightarrow> err))"

section \<open>A failed dial\<close>

text \<open>
  Does a failed connect over TCP, or a failed Allocate, count against the relay? \<open>cancelled\<close>: our own race
  or teardown ended it; \<open>unbroken\<close>: no relay was heard while it lasted (\<open>silenceNotToBlame\<close>).
\<close>

definition silenceNotToBlame :: "bool \<Rightarrow> goError \<Rightarrow> bool" where
  "silenceNotToBlame unbroken e \<longleftrightarrow> silentFailure (Some e) \<and> unbroken"

definition connectBlamed :: "excuses \<Rightarrow> bool \<Rightarrow> bool \<Rightarrow> goError \<Rightarrow> bool" where
  "connectBlamed x cancelled unbroken e \<longleftrightarrow>
    \<not> cancelled \<and> \<not> relayNotToBlame x (Some e) \<and> \<not> xFroze x \<and>
    \<not> tcpAttemptFailureIsIsolated (xHeardByOthers x) (Some e) \<and> \<not> silenceNotToBlame unbroken e"

definition allocateBlamed :: "excuses \<Rightarrow> bool \<Rightarrow> bool \<Rightarrow> bool \<Rightarrow> goError \<Rightarrow> bool" where
  "allocateBlamed x overTCP cancelled unbroken e \<longleftrightarrow>
    \<not> cancelled \<and> \<not> isQuotaError e \<and> \<not> isAllocateMismatch e \<and> \<not> relayNotToBlame x (Some e) \<and> \<not> xFroze x \<and>
    (\<not> overTCP \<or> \<not> tcpAttemptFailureIsIsolated (xHeardByOthers x) (Some e)) \<and> \<not> silenceNotToBlame unbroken e"

section \<open>A start out of time\<close>

definition startVKUnreachable :: int where "startVKUnreachable = - 5"
definition startRelaysCarryNothing :: int where "startRelaysCarryNothing = - 6"

definition relaysCarriedNothing :: "bool \<Rightarrow> bool \<Rightarrow> bool \<Rightarrow> bool" where
  "relaysCarriedNothing allocated captcha froze \<longleftrightarrow> allocated \<and> \<not> captcha \<and> \<not> froze"

definition startTimeoutCode :: "bool \<Rightarrow> bool \<Rightarrow> bool \<Rightarrow> int" where
  "startTimeoutCode credsObtained vkHeard carriedNothing =
    (if \<not> credsObtained \<and> \<not> vkHeard then startVKUnreachable
     else if credsObtained \<and> carriedNothing then startRelaysCarryNothing
     else - 1)"

end
