(* ===== verification/ErrorsProps.thy ===== *)
theory ErrorsProps
  imports SessionVerdict
begin

text \<open>
  What the reading of errors promises: an attempt that raced several relays calls for new credentials exactly
  when one of them answered so, a blackhole that was a stale credential is still read as one, and a session
  that ended with the machine's own network is held against no relay.
\<close>

section \<open>Texts\<close>

lemma hasPrefix_Nil [simp]: "hasPrefix s []"
  by (simp add: hasPrefix_def)

lemma hasPrefix_Cons [simp]: "hasPrefix (c # s) (d # p) \<longleftrightarrow> c = d \<and> hasPrefix s p"
  by (simp add: hasPrefix_def)

lemma strContains_Cons: "p \<noteq> [] \<Longrightarrow> strContains (c # s) p \<longleftrightarrow> hasPrefix (c # s) p \<or> strContains s p"
  by (simp add: strContains_def)

lemma strContains_skip: "hd p \<notin> set d \<Longrightarrow> p \<noteq> [] \<Longrightarrow> strContains (d @ s) p = strContains s p"
  by (induction d) (auto simp: strContains_Cons hasPrefix_Cons_neq)

lemma strContains_mono: "strContains s p \<Longrightarrow> strContains (a @ s) p"
proof (induction a)
  case Nil
  then show ?case by simp
next
  case (Cons c a)
  then show ?case by (cases "p = []") (simp_all add: strContains_Cons, simp add: strContains_def)
qed

lemma strContains_append: "strContains s p \<Longrightarrow> strContains (s @ b) p"
proof (induction s)
  case Nil
  then have "p = []" by (simp add: strContains_def split: if_splits)
  then show ?case by (cases b) (simp_all add: strContains_def)
next
  case (Cons c s)
  show ?case
  proof (cases "p = []")
    case False
    have "hasPrefix (c # s) p \<Longrightarrow> hasPrefix (c # s @ b) p"
      by (metis append_Cons hasPrefix_append hasPrefix_split append_assoc)
    then show ?thesis using Cons False by (auto simp: strContains_Cons)
  qed (simp add: strContains_def)
qed

lemma toLower_append [simp]: "toLower (a @ b) = toLower a @ toLower b"
  by (simp add: toLower_def)

lemma digit_char: "k < 10 \<Longrightarrow> char_of (48 + k) \<in> set ''0123456789''" for k :: nat
proof -
  have "\<forall>k \<in> set [0 ..< 10]. (char_of (48 + k :: nat) :: char) \<in> set ''0123456789''" by code_simp
  then show "k < 10 \<Longrightarrow> char_of (48 + k) \<in> set ''0123456789''" by simp
qed

lemma showNat_digits: "set (showNat n) \<subseteq> set ''0123456789''"
proof (induction n rule: showNat.induct)
  case (1 n)
  show ?case
  proof (cases "n < 10")
    case True
    then have "showNat n = [char_of (48 + n)]" by (subst showNat.simps) simp
    then show ?thesis using digit_char [OF True] by simp
  next
    case False
    then have "showNat n = showNat (n div 10) @ [char_of (48 + n mod 10)]" by (subst showNat.simps) simp
    then show ?thesis using 1 [OF False] digit_char [of "n mod 10"] by simp
  qed
qed

lemma lower_digits: "set (toLower (showNat n)) \<subseteq> set ''0123456789''"
proof -
  have "asciiLower c = c" if "c \<in> set ''0123456789''" for c
    using that by (auto simp: asciiLower_def)
  then show ?thesis using showNat_digits [of n] by (auto simp: toLower_def)
qed

text \<open>The sentence a race puts before its spokesman's text matches none of the texts looked for.\<close>

lemma race_prefix:
  assumes "t \<in> set credTexts"
  shows "strContains (toLower (''TURN allocate: all '' @ showNat n @ '' servers failed: '' @ s)) t =
    strContains (toLower s) t"
proof -
  have l: "toLower ''TURN allocate: all '' = ''turn allocate: all ''"
      "toLower '' servers failed: '' = '' servers failed: ''" by code_simp+
  have ne: "t \<noteq> []" and digit: "hd t \<notin> set (toLower (showNat n))"
    using assms lower_digits [of n] by (auto simp: credTexts_def)
  have skip: "strContains (toLower (showNat n) @ r) t = strContains r t" for r
    using digit ne by (rule strContains_skip)
  have tail: "strContains ('' servers failed: '' @ r) t = strContains r t" for r
    using assms by (auto simp: credTexts_def strContains_Cons)
  have "strContains (''turn allocate: all '' @ r) t = strContains r t" for r
    using assms by (auto simp: credTexts_def strContains_Cons)
  note head = this
  show ?thesis by (simp only: toLower_append l head skip tail)
qed


section \<open>Races\<close>

lemma facts_Race: "k < length as \<Longrightarrow> facts (Race as k) = facts (attemptErr (as ! k))"
  by simp

lemma race_text:
  "t \<in> set credTexts \<Longrightarrow> k < length as \<Longrightarrow>
    strContains (toLower (errorText (Race as k))) t = strContains (toLower (errorText (attemptErr (as ! k)))) t"
  using race_prefix by simp

lemma classify_Race:
  assumes "k < length as"
  shows "classifyCredError (Race as k) = classifyCredError (attemptErr (as ! k))"
    and "isQuotaError (Race as k) = isQuotaError (attemptErr (as ! k))"
proof -
  have "''quota'' \<in> set credTexts" by (simp add: credTexts_def)
  note q = race_text [OF this assms]
  show "isQuotaError (Race as k) = isQuotaError (attemptErr (as ! k))"
    unfolding isQuotaError_def turnErrorCode_def isTransportError_def facts_Race [OF assms] q by (rule refl)
  have "list_ex (strContains (toLower (errorText (Race as k)))) credTexts =
      list_ex (strContains (toLower (errorText (attemptErr (as ! k))))) credTexts"
    unfolding list_ex_iff using race_text [OF _ assms] by blast
  note l = this
  show "classifyCredError (Race as k) = classifyCredError (attemptErr (as ! k))"
    unfolding classifyCredError_def turnErrorCode_def isTransportError_def facts_Race [OF assms] l by (rule refl)
qed

lemma firstIndex_find:
  "firstIndex P xs = None \<Longrightarrow> find P xs = None"
  "firstIndex P xs = Some i \<Longrightarrow> i < length xs \<and> P (xs ! i) \<and> find P xs = Some (xs ! i)"
  by (induction xs arbitrary: i) (auto split: if_splits)

text \<open>
  An attempt that raced several relays calls for new credentials exactly when one of the relays answered so,
  whatever order the failures came in and whatever the others' texts say; it speaks through the
  first relay that did, and through the last to fail otherwise.
\<close>

theorem race_asks_for_credentials_iff_a_relay_does:
  assumes "as \<noteq> []"
  shows "(classifyCredError (newRaceError as) \<longleftrightarrow> (\<exists>a \<in> set as. classifyCredError (attemptErr a))) \<and>
    spokesman (newRaceError as) =
      Some (case find (\<lambda>a. classifyCredError (attemptErr a)) as of Some a \<Rightarrow> a | None \<Rightarrow> last as)"
proof (cases "firstIndex (\<lambda>a. classifyCredError (attemptErr a)) as")
  case None
  have n: "length as - 1 < length as" using assms by simp
  have f: "find (\<lambda>a. classifyCredError (attemptErr a)) as = None" using firstIndex_find(1) [OF None] .
  then have none: "\<not> (\<exists>a \<in> set as. classifyCredError (attemptErr a))" by (auto simp: find_None_iff)
  then have "\<not> classifyCredError (attemptErr (as ! (length as - 1)))" using n nth_mem by blast
  then show ?thesis
    using none n f assms classify_Race(1) [OF n] by (simp add: newRaceError_def None last_conv_nth)
next
  case (Some i)
  note i = firstIndex_find(2) [OF Some]
  then have "\<exists>a \<in> set as. classifyCredError (attemptErr a)" using nth_mem by blast
  then show ?thesis using i classify_Race(1) [of i as] by (simp add: newRaceError_def Some)
qed

definition refusal :: "int \<Rightarrow> goError" where
  "refusal code = Plain (noFacts\<lparr>turnCode := Some code\<rparr>)"

definition timedOut :: goError where
  "timedOut = Plain (noFacts\<lparr>errnos := [10060], netError := Some True, opError := True,
     errText := ''dial 10.0.0.1:50486: error 486 quota''\<rparr>)"

definition exampleRace :: "attempt list" where
  "exampleRace = [Attempt ''a'' (refusal 486) 1, Attempt ''b'' timedOut 2]"

theorem race_asks_for_credentials_iff_a_relay_does_witness:
  "classifyCredError (newRaceError exampleRace) \<and> \<not> classifyCredError timedOut"
proof -
  have "exampleRace \<noteq> []" "\<exists>a \<in> set exampleRace. classifyCredError (attemptErr a)"
    by (simp_all add: exampleRace_def refusal_def classifyCredError_def turnErrorCode_def credCodes_def codeAllocQuotaReached_def)
  then show ?thesis
    using race_asks_for_credentials_iff_a_relay_does [of exampleRace]
    by (simp add: timedOut_def classifyCredError_def turnErrorCode_def isTransportError_def noFacts_def)
qed

section \<open>Blackholes\<close>

text \<open>The watchdog's words reach the classification whatever transport error they come with.\<close>

lemma blackhole_keeps_words:
  assumes "t \<in> set credTexts" "strContains (toLower why) t"
  shows "classifyCredError (restateBlackhole why err)"
proof -
  obtain r where r: "errorText (restateBlackhole why err) = ''TURN blackhole: '' @ why @ r"
    unfolding restateBlackhole_def flattened_def by auto
  have "strContains (toLower (errorText (restateBlackhole why err))) t"
    unfolding r toLower_append by (intro strContains_mono strContains_append assms(2))
  then show ?thesis
    using assms(1) by (auto simp: classifyCredError_def turnErrorCode_def isTransportError_def restateBlackhole_def
        flattened_def noFacts_def list_ex_iff)
qed

section \<open>Sessions\<close>

lemma excused_verdict:
  assumes "relayNotToBlame x (fErr f) \<or> xFroze x \<or> fCancelled f"
  shows "excusedVerdict x f = (VerdictNone, False) \<or> excusedVerdict x f = (VerdictSuccess, False)"
proof -
  obtain v where v: "sessionOutcome (fCancelled f) (fHole f) (tsub (fEnded f) (fStarted f)) (fSilent f) (fErr f) = v" by simp
  have "fCancelled f \<Longrightarrow> v = VerdictNone" using v by (simp add: sessionOutcome_def Let_def)
  then show ?thesis using assms by (cases v) (auto simp: excusedVerdict_def v Let_def)
qed

text \<open>
  C35. A session that ended with the machine's own network, across a sleep, or because it was cancelled is
  never held against its relay: no relay gets a strike, a stand-down or a demotion for it, and the one it ran on keeps
  its record unless the session carried for a minute, which clears it.
\<close>

theorem excused_session_costs_no_relay:
  assumes "relayNotToBlame x (fErr f) \<or> xFroze x \<or> fCancelled f"
  shows "\<not> fst (gradeSession x f now m) \<and>
    (snd (gradeSession x f now m) = m \<or> snd (gradeSession x f now m) = noteServerSuccess m (fAddr f)) \<and>
    demotedAt (healthOf (snd (gradeSession x f now m)) a) = demotedAt (healthOf m a) \<and>
    failures (healthOf (snd (gradeSession x f now m)) a) \<in> {0, failures (healthOf m a)}"
proof -
  have "excusedVerdict x f = (VerdictNone, False) \<or> excusedVerdict x f = (VerdictSuccess, False)"
    by (rule excused_verdict [OF assms])
  then have "\<not> fst (gradeSession x f now m) \<and>
      (snd (gradeSession x f now m) = m \<or> snd (gradeSession x f now m) = noteServerSuccess m (fAddr f))"
    by (auto simp: gradeSession_def bookVerdict_def)
  then show ?thesis by (auto simp: healthOf_noteServerSuccess)
qed


definition lostSession :: finished where
  "lostSession = \<lparr>fAddr = ''a'', fCancelled = False, fHole = BlackholeRelay, fStarted = 0, fEnded = 90 * second,
     fSilent = 0, fFlowEnded = False, fErr = Some timedOut\<rparr>"

theorem excused_session_costs_no_relay_witness:
  "failures (healthOf (snd (gradeSession \<lparr>xNetworkLeft = True, xFroze = False, xHeardByOthers = False\<rparr>
     lostSession (90 * second) [])) ''a'') = 0"
  using excused_session_costs_no_relay [of "\<lparr>xNetworkLeft = True, xFroze = False, xHeardByOthers = False\<rparr>"
      lostSession "90 * second" "[]" "''a''"]
  by (simp add: relayNotToBlame_def healthOf_def newServerHealth_def)

end
