(* ===== verification/Credentials.thy ===== *)
theory Credentials
  imports Errors Orphans
begin

text \<open>
  The cache of TURN credentials (\<open>pkg/proxy/credentials.go\<close>) and the breaker that pauses minting new ones
  (\<open>quota_breaker.go\<close>). A slot of the cache serves a group of streams; its lock is held across a whole
  fetch, so an operation on it is one step, with the instants it reads, the end of its context and
  the answer of the fetch as arguments. Lines of the log are left out.
\<close>

section \<open>Integers of the machine\<close>

definition wrap64 :: "int \<Rightarrow> int" where
  "wrap64 x = (x + 9223372036854775808) mod 18446744073709551616 - 9223372036854775808"

lemma wrap64_id: "- 9223372036854775808 \<le> x \<Longrightarrow> x \<le> 9223372036854775807 \<Longrightarrow> wrap64 x = x"
  by (simp add: wrap64_def)

text \<open>Division truncates towards zero.\<close>

definition go_quot :: "int \<Rightarrow> int \<Rightarrow> int" where
  "go_quot a b = sgn a * sgn b * (\<bar>a\<bar> div \<bar>b\<bar>)"

text \<open>\<open>strconv.ParseInt(s, 10, 64)\<close>: an optional sign, decimal digits, and the range of an \<open>int64\<close>.\<close>

definition digitOf :: "char \<Rightarrow> int option" where
  "digitOf c = (let n = of_char c :: int in if 48 \<le> n \<and> n \<le> 57 then Some (n - 48) else None)"

fun readDigits :: "int \<Rightarrow> string \<Rightarrow> int option" where
  "readDigits n [] = Some n"
| "readDigits n (c # s) = (case digitOf c of None \<Rightarrow> None | Some d \<Rightarrow> readDigits (10 * n + d) s)"

definition inInt64 :: "int \<Rightarrow> bool" where
  "inInt64 n \<longleftrightarrow> - 9223372036854775808 \<le> n \<and> n \<le> 9223372036854775807"

definition parseInt64 :: "string \<Rightarrow> int option" where
  "parseInt64 s =
    (let (neg, digits) = (case s of [] \<Rightarrow> (False, []) | c # r \<Rightarrow>
           if c = CHR ''-'' then (True, r) else if c = CHR ''+'' then (False, r) else (False, s))
     in if digits = [] then None
        else case readDigits 0 digits of None \<Rightarrow> None | Some n \<Rightarrow>
          let m = (if neg then - n else n) in if inInt64 m then Some m else None)"

section \<open>The cache\<close>

definition credentialLifetime :: duration where "credentialLifetime = 60 * minute"
definition cacheSafetyMargin :: duration where "cacheSafetyMargin = 60 * second"
definition credentialExpiryBuffer :: duration where "credentialExpiryBuffer = 15 * minute"
definition credRefreshThrottle :: duration where "credRefreshThrottle = 15 * second"
definition defaultCycleSecs :: int where "defaultCycleSecs = 36000"
definition MaxStreamsPerCredential :: int where "MaxStreamsPerCredential = 10"

lemmas cred_consts [go_consts] = credentialLifetime_def cacheSafetyMargin_def credentialExpiryBuffer_def
  credRefreshThrottle_def defaultCycleSecs_def MaxStreamsPerCredential_def

record turnCredentials =
  Username :: string
  Password :: string
  ServerAddrs :: "string list"
  ExpiresAt :: gtime
  FetchedAt :: gtime
  Link :: string

record credCache =
  creds :: turnCredentials
  lastRefresh :: gtime

definition emptyCache :: credCache where
  "emptyCache = \<lparr>creds = \<lparr>Username = [], Password = [], ServerAddrs = [], ExpiresAt = zero_time,
     FetchedAt = zero_time, Link = []\<rparr>, lastRefresh = zero_time\<rparr>"

record credStore =
  streamsPerCred :: int
  caches :: "(int \<times> credCache) list"

definition clampStreamsPerCred :: "int \<Rightarrow> int" where
  "clampStreamsPerCred n = min (max n 1) MaxStreamsPerCredential"

definition setStreamsPerCred :: "int \<Rightarrow> credStore \<Rightarrow> credStore" where
  "setStreamsPerCred n s = s\<lparr>streamsPerCred := (if n < 1 then 1 else n)\<rparr>"

definition getCacheID :: "credStore \<Rightarrow> int \<Rightarrow> int" where
  "getCacheID s streamID = go_quot streamID (streamsPerCred s)"

definition cacheAt :: "credStore \<Rightarrow> int \<Rightarrow> credCache" where
  "cacheAt s i = (case map_of (caches s) i of None \<Rightarrow> emptyCache | Some c \<Rightarrow> c)"

definition putCache :: "int \<Rightarrow> credCache \<Rightarrow> credStore \<Rightarrow> credStore" where
  "putCache i c s = s\<lparr>caches := mput i c (caches s)\<rparr>"

text \<open>The slot of a stream; asking for it makes it.\<close>

definition getStreamCache :: "int \<Rightarrow> credStore \<Rightarrow> int \<times> credStore" where
  "getStreamCache streamID s =
    (let i = getCacheID s streamID in
     (i, case map_of (caches s) i of Some _ \<Rightarrow> s | None \<Rightarrow> putCache i emptyCache s))"

definition groupCache :: "int \<Rightarrow> credStore \<Rightarrow> int \<times> credStore" where
  "groupCache groupID s = getStreamCache (groupID * streamsPerCred s) s"

definition invalidateAllCaches :: "credStore \<Rightarrow> credStore" where
  "invalidateAllCaches s = s\<lparr>caches := []\<rparr>"

definition ActiveTURNAddrs :: "credStore \<Rightarrow> string list" where
  "ActiveTURNAddrs s = fold (\<lambda>a out. if a \<noteq> [] \<and> a \<notin> set out then out @ [a] else out)
     (concat (map (\<lambda>(_, c). ServerAddrs (creds c)) (caches s))) []"

definition expireCredsLocked :: "gtime \<Rightarrow> credCache \<Rightarrow> credCache" where
  "expireCredsLocked now c = c\<lparr>creds := (creds c)\<lparr>ExpiresAt := now - second\<rparr>\<rparr>"

text \<open>The relay refused the credential \<open>u\<close>: does the slot expire for it?\<close>

definition refreshGroupCreds :: "int \<Rightarrow> string \<Rightarrow> gtime \<Rightarrow> credStore \<Rightarrow> bool \<times> credStore" where
  "refreshGroupCreds groupID u now s =
    (let (i, s) = groupCache groupID s; c = cacheAt s i in
     if Username (creds c) \<noteq> u then (False, s)
     else if \<not> is_zero (lastRefresh c) \<and> tsub now (lastRefresh c) < credRefreshThrottle then (False, s)
     else (True, putCache i (expireCredsLocked now (c\<lparr>lastRefresh := now\<rparr>)) s))"

definition credsReplaced :: "int \<Rightarrow> string \<Rightarrow> bool \<Rightarrow> gtime \<Rightarrow> credStore \<Rightarrow> bool \<times> credStore" where
  "credsReplaced groupID u locked now s =
    (let (i, s) = groupCache groupID s; c = creds (cacheAt s i) in
     (if locked then True else Username c \<noteq> u \<or> \<not> now < ExpiresAt c, s))"

section \<open>Fetching\<close>

text \<open>\<open>"<unix seconds>:<key id>"\<close>.\<close>

definition credentialExpiryFromUsername :: "string \<Rightarrow> gtime option" where
  "credentialExpiryFromUsername u =
    (let (stamp, _, hit) = strCut u '':'' in
     if \<not> hit \<or> stamp = [] then None
     else case parseInt64 stamp of
            None \<Rightarrow> None
          | Some secs \<Rightarrow> if secs \<le> 0 then None else Some (secs * second))"

definition credentialCacheExpiry :: "gtime \<Rightarrow> gtime \<Rightarrow> gtime" where
  "credentialCacheExpiry till now =
    (let e = till - credentialExpiryBuffer; most = now + defaultCycleSecs * second;
         e = (if most < e then most else e)
     in if \<not> now < e then now + (credentialLifetime - cacheSafetyMargin) else e)"

text \<open>
  The deadline of a credential fetched at \<open>now\<close> with the lifetime the API reports, in the arithmetic of
  \<open>time.Duration\<close>.
\<close>

definition fetchedExpiry :: "string \<Rightarrow> int \<Rightarrow> gtime \<Rightarrow> gtime" where
  "fetchedExpiry u lifetimeSecs now =
    (if lifetimeSecs > 60 then
       let d = wrap64 (wrap64 (lifetimeSecs * second) - cacheSafetyMargin);
           d = (if d > defaultCycleSecs * second then defaultCycleSecs * second else d)
       in now + d
     else case credentialExpiryFromUsername u of
            Some till \<Rightarrow> credentialCacheExpiry till now
          | None \<Rightarrow> now + (credentialLifetime - cacheSafetyMargin))"

text \<open>
  What a lookup meets: the time, whether its context has ended before the fetch or while it waits for a token, what
  the fetch answers (an error, or a credential with its lifetime) and when.
\<close>

type_synonym credential = "string \<times> string \<times> string list"

record lookup =
  kNow :: gtime
  kCancelled :: bool
  kNoToken :: bool
  kFetch :: "string + (credential \<times> int)"
  kDone :: gtime

text \<open>The answer (an error, or the credential), whether VK was asked, and the store.\<close>

definition getCredsCached :: "string \<Rightarrow> int \<Rightarrow> lookup \<Rightarrow> credStore \<Rightarrow> ((string + credential) \<times> bool) \<times> credStore" where
  "getCredsCached lnk streamID k s =
    (let (i, s) = getStreamCache streamID s; c = cacheAt s i; cr = creds c in
     if Link cr = lnk \<and> kNow k < ExpiresAt cr then ((Inr (Username cr, Password cr, ServerAddrs cr), False), s)
     else if kCancelled k \<or> kNoToken k then ((Inl ''context canceled'', False), s)
     else case kFetch k of
            Inl err \<Rightarrow> ((Inl err, True), s)
          | Inr ((u, p, addrs), lifetimeSecs) \<Rightarrow>
              ((Inr (u, p, addrs), True),
               putCache i (c\<lparr>creds := \<lparr>Username = u, Password = p, ServerAddrs = addrs,
                 ExpiresAt = fetchedExpiry u lifetimeSecs (kDone k), FetchedAt = kDone k, Link = lnk\<rparr>\<rparr>) s))"

section \<open>The breaker\<close>

definition quotaFreshCredWindow :: duration where "quotaFreshCredWindow = 60 * second"
definition quotaRefusalWindow :: duration where "quotaRefusalWindow = 60 * second"
definition quotaRefusalTrip :: nat where "quotaRefusalTrip = 2"
definition quotaLadderWindow :: duration where "quotaLadderWindow = 10 * minute"
definition quotaPauseBase :: duration where "quotaPauseBase = 30 * second"
definition quotaPauseMax :: duration where "quotaPauseMax = 5 * minute"

lemmas quota_consts [go_consts] = quotaFreshCredWindow_def quotaRefusalWindow_def quotaRefusalTrip_def
  quotaLadderWindow_def quotaPauseBase_def quotaPauseMax_def

record freshRefusal =
  refusedUser :: string
  refusedAt :: gtime

record quotaBreaker =
  fresh :: "freshRefusal list"
  trips :: int
  lastTrip :: gtime
  lastPause :: duration
  pausedUntil :: gtime
  pauseAnnounced :: bool

definition newBreaker :: quotaBreaker where
  "newBreaker = \<lparr>fresh = [], trips = 0, lastTrip = zero_time, lastPause = 0, pausedUntil = zero_time,
     pauseAnnounced = False\<rparr>"

definition recentRefusals :: "quotaBreaker \<Rightarrow> gtime \<Rightarrow> freshRefusal list" where
  "recentRefusals b now = filter (\<lambda>r. \<not> refusedAt r < now - quotaRefusalWindow) (fresh b)"

definition noteRefusal :: "quotaBreaker \<Rightarrow> string \<Rightarrow> bool \<Rightarrow> gtime \<Rightarrow> (bool \<times> duration) \<times> quotaBreaker" where
  "noteRefusal b u isFresh now =
    (if now < pausedUntil b then ((True, tsub (pausedUntil b) now), b)
     else if \<not> isFresh then ((False, 0), b)
     else
       let kept = recentRefusals b now;
           kept = (if u \<in> refusedUser ` set kept then kept else kept @ [\<lparr>refusedUser = u, refusedAt = now\<rparr>]);
           b = b\<lparr>fresh := kept\<rparr>
       in if length kept < quotaRefusalTrip then ((False, 0), b)
          else
            let pause = (if \<not> is_zero (lastTrip b) \<and> tsub now (lastTrip b) < quotaLadderWindow
                         then min (lastPause b * 2) quotaPauseMax else quotaPauseBase)
            in ((True, pause), b\<lparr>trips := trips b + 1, lastTrip := now, lastPause := pause,
                 pausedUntil := now + pause, fresh := [], pauseAnnounced := False\<rparr>))"

definition skipRefresh :: "quotaBreaker \<Rightarrow> gtime \<Rightarrow> bool \<times> quotaBreaker" where
  "skipRefresh b now = (if \<not> now < pausedUntil b then (False, b) else (True, b\<lparr>pauseAnnounced := True\<rparr>))"

text \<open>What a worker's question about a refused credential changes; the book of allocations it only reads.\<close>

record mint =
  store :: credStore
  breaker :: quotaBreaker

definition credFreshAndUntouched ::
  "allocationBook \<Rightarrow> int \<Rightarrow> string \<Rightarrow> bool \<Rightarrow> gtime \<Rightarrow> credStore \<Rightarrow> bool \<times> credStore" where
  "credFreshAndUntouched book groupID u locked now s =
    (let (i, s) = groupCache groupID s; c = creds (cacheAt s i) in
     (\<not> locked \<and> Username c = u \<and> \<not> is_zero (FetchedAt c) \<and> tsub now (FetchedAt c) < quotaFreshCredWindow \<and>
      \<not> mmember (succeeded book) u, s))"

definition quotaRefusalPausesMinting ::
  "allocationBook \<Rightarrow> goError \<Rightarrow> int \<Rightarrow> string \<Rightarrow> bool \<Rightarrow> gtime \<Rightarrow> mint \<Rightarrow> bool \<times> mint" where
  "quotaRefusalPausesMinting book err groupID u locked now m =
    (if \<not> isQuotaError err then (False, m)
     else
       let (isFresh, s) = credFreshAndUntouched book groupID u locked now (store m);
           (_, b) = noteRefusal (breaker m) u isFresh now;
           (skip, b) = skipRefresh b now
       in (skip, \<lparr>store = s, breaker = b\<rparr>))"

end
