(* ===== verification/CredentialsProps.thy ===== *)
theory CredentialsProps
  imports Credentials
begin

text \<open>
  What the cache and the breaker promise: the workers of a group share their fetches, a rejection is
  acted on only for the credential the slot holds and at most every fifteen seconds, and minting is paused
  only for two fresh credentials refused within a minute.
\<close>

section \<open>The cache\<close>

lemma getCacheID_group: "0 < streamsPerCred s \<Longrightarrow> getCacheID s (g * streamsPerCred s) = g"
proof -
  assume n: "0 < streamsPerCred s"
  have "\<bar>g\<bar> * streamsPerCred s div streamsPerCred s = \<bar>g\<bar>" using n by simp
  then show ?thesis using n by (simp add: getCacheID_def go_quot_def sgn_mult abs_mult mult_sgn_abs)
qed

lemma getCacheID_putCache [simp]: "getCacheID (putCache i c s) = getCacheID s"
  by (simp add: fun_eq_iff getCacheID_def putCache_def)

lemma streamsPerCred_putCache [simp]: "streamsPerCred (putCache i c s) = streamsPerCred s"
  by (simp add: putCache_def)

lemma cacheAt_putCache [simp]: "cacheAt (putCache i c s) j = (if j = i then c else cacheAt s j)"
  by (simp add: cacheAt_def putCache_def)

lemma groupCache_simps:
  assumes "0 < streamsPerCred s"
  shows "fst (groupCache g s) = g" "streamsPerCred (snd (groupCache g s)) = streamsPerCred s"
    "cacheAt (snd (groupCache g s)) = cacheAt s"
proof -
  note g = getCacheID_group [OF assms, of g]
  show "fst (groupCache g s) = g" by (simp add: groupCache_def getStreamCache_def g Let_def)
  show "streamsPerCred (snd (groupCache g s)) = streamsPerCred s"
    by (simp add: groupCache_def getStreamCache_def Let_def split: option.splits)
  have "map_of (caches s) g = None \<Longrightarrow> cacheAt s g = emptyCache" by (simp add: cacheAt_def)
  then show "cacheAt (snd (groupCache g s)) = cacheAt s"
    by (simp add: groupCache_def getStreamCache_def g Let_def fun_eq_iff split: option.splits)
qed

text \<open>The operations on a group's slot, read through the slot alone.\<close>

lemma refreshGroupCreds_slot:
  assumes "0 < streamsPerCred s" "refreshGroupCreds g u now s = (acted, s')"
  shows "streamsPerCred s' = streamsPerCred s"
    "acted \<longleftrightarrow> Username (creds (cacheAt s g)) = u \<and>
       (is_zero (lastRefresh (cacheAt s g)) \<or> credRefreshThrottle \<le> tsub now (lastRefresh (cacheAt s g)))"
    "cacheAt s' g = (if acted then expireCredsLocked now ((cacheAt s g)\<lparr>lastRefresh := now\<rparr>) else cacheAt s g)"
  using assms(2) groupCache_simps [OF assms(1), of g]
  by (auto simp: refreshGroupCreds_def split_beta Let_def split: if_splits)

lemma getCredsCached_slot:
  assumes "0 < streamsPerCred s" "getCredsCached lnk (g * streamsPerCred s) k s = ((answer, asked), s')"
  shows "streamsPerCred s' = streamsPerCred s" "lastRefresh (cacheAt s' g) = lastRefresh (cacheAt s g)"
    "asked \<Longrightarrow> \<not> (Link (creds (cacheAt s g)) = lnk \<and> kNow k < ExpiresAt (creds (cacheAt s g)))"
    "asked \<Longrightarrow> answer = Inr c \<Longrightarrow> \<exists>l. kFetch k = Inr (c, l) \<and> Link (creds (cacheAt s' g)) = lnk \<and>
       ExpiresAt (creds (cacheAt s' g)) = fetchedExpiry (fst c) l (kDone k)"
    "\<not> asked \<Longrightarrow> cacheAt s' g = cacheAt s g"
    "answer = Inl e \<Longrightarrow> cacheAt s' g = cacheAt s g"
proof -
  have g: "fst (getStreamCache (g * streamsPerCred s) s) = g"
      "streamsPerCred (snd (getStreamCache (g * streamsPerCred s) s)) = streamsPerCred s"
      "cacheAt (snd (getStreamCache (g * streamsPerCred s) s)) = cacheAt s"
    using groupCache_simps [OF assms(1), of g] by (simp_all add: groupCache_def)
  show "streamsPerCred s' = streamsPerCred s" "lastRefresh (cacheAt s' g) = lastRefresh (cacheAt s g)"
    "asked \<Longrightarrow> \<not> (Link (creds (cacheAt s g)) = lnk \<and> kNow k < ExpiresAt (creds (cacheAt s g)))"
    "asked \<Longrightarrow> answer = Inr c \<Longrightarrow> \<exists>l. kFetch k = Inr (c, l) \<and> Link (creds (cacheAt s' g)) = lnk \<and>
       ExpiresAt (creds (cacheAt s' g)) = fetchedExpiry (fst c) l (kDone k)"
    "\<not> asked \<Longrightarrow> cacheAt s' g = cacheAt s g"
    "answer = Inl e \<Longrightarrow> cacheAt s' g = cacheAt s g"
    using assms(2) g
    by (auto simp: getCredsCached_def split_beta Let_def split: if_splits sum.splits)
qed

section \<open>A group's hour\<close>

datatype credOp = Lookup lookup | Rejected string gtime

text \<open>The mints (fetches that brought a credential) and the instants at which the slot was expired by force.\<close>

fun credRun :: "int \<Rightarrow> string \<Rightarrow> credOp list \<Rightarrow> credStore \<Rightarrow> (nat \<times> gtime list) \<times> credStore" where
  "credRun g lnk [] s = ((0, []), s)"
| "credRun g lnk (Lookup k # ops) s =
    (let ((answer, asked), s) = getCredsCached lnk (g * streamsPerCred s) k s;
         ((n, ts), s) = credRun g lnk ops s
     in ((if asked \<and> \<not> isl answer then n + 1 else n, ts), s))"
| "credRun g lnk (Rejected u now # ops) s =
    (let (acted, s) = refreshGroupCreds g u now s; ((n, ts), s) = credRun g lnk ops s
     in ((n, if acted then now # ts else ts), s))"

text \<open>
  An operation of the 59 minutes from \<open>t0\<close> that a credential is kept for when neither the API nor the username
  says how long it lives.
\<close>

fun inHour :: "gtime \<Rightarrow> credOp \<Rightarrow> bool" where
  "inHour t0 (Lookup k) \<longleftrightarrow> t0 \<le> kNow k \<and> kNow k < t0 + 59 * minute \<and> t0 \<le> kDone k \<and>
    (case kFetch k of Inl _ \<Rightarrow> True
     | Inr ((u, _, _), l) \<Rightarrow> l \<le> 60 \<and> credentialExpiryFromUsername u = None)"
| "inHour t0 (Rejected u now) \<longleftrightarrow> t0 \<le> now \<and> now < t0 + 59 * minute"

definition validSlot :: "gtime \<Rightarrow> string \<Rightarrow> credCache \<Rightarrow> nat" where
  "validSlot t0 lnk c = (if Link (creds c) = lnk \<and> t0 + 59 * minute \<le> ExpiresAt (creds c) then 1 else 0)"

definition spacedAfter :: "gtime \<Rightarrow> gtime list \<Rightarrow> bool" where
  "spacedAfter t ts \<longleftrightarrow> sorted_wrt (\<lambda>a b. a + credRefreshThrottle \<le> b) ts \<and>
    (\<not> is_zero t \<longrightarrow> (\<forall>b \<in> set ts. t + credRefreshThrottle \<le> b))"

lemma fetched_hour:
  "l \<le> 60 \<Longrightarrow> credentialExpiryFromUsername u = None \<Longrightarrow> t0 \<le> now \<Longrightarrow> t0 + 59 * minute \<le> fetchedExpiry u l now"
  by (simp add: fetchedExpiry_def go_consts)

lemma credRun_bounds:
  assumes "0 < streamsPerCred s" "\<forall>x \<in> set ops. inHour t0 x" "zero_time < t0"
    and "credRun g lnk ops s = ((n, ts), s')"
  shows "n + validSlot t0 lnk (cacheAt s g) \<le> 1 + length ts \<and> spacedAfter (lastRefresh (cacheAt s g)) ts \<and>
    (\<forall>t \<in> set ts. t0 \<le> t)"
  using assms
proof (induction ops arbitrary: s n ts)
  case Nil
  then show ?case by (simp add: validSlot_def spacedAfter_def)
next
  case (Cons x ops)
  show ?case
  proof (cases x)
    case (Lookup k)
    obtain answer asked q where l: "getCredsCached lnk (g * streamsPerCred s) k s = ((answer, asked), q)"
      by (metis prod.exhaust)
    obtain m where r: "credRun g lnk ops q = ((m, ts), s')" "n = (if asked \<and> \<not> isl answer then m + 1 else m)"
      using Cons.prems(4) l Lookup by (cases "credRun g lnk ops q") auto
    note sl = getCredsCached_slot [OF Cons.prems(1) l]
    have h: "inHour t0 (Lookup k)" using Cons.prems(2) Lookup by simp
    have IH: "m + validSlot t0 lnk (cacheAt q g) \<le> 1 + length ts" "spacedAfter (lastRefresh (cacheAt q g)) ts"
        "\<forall>t \<in> set ts. t0 \<le> t"
      using Cons.IH [OF _ _ Cons.prems(3) r(1)] Cons.prems(1,2) sl(1) by auto
    have "n + validSlot t0 lnk (cacheAt s g) \<le> m + validSlot t0 lnk (cacheAt q g)"
    proof (cases asked)
      case False
      then show ?thesis using sl(5) r(2) by simp
    next
      case True
      have z: "validSlot t0 lnk (cacheAt s g) = 0" using sl(3) [OF True] h by (auto simp: validSlot_def)
      show ?thesis
      proof (cases answer)
        case (Inl e)
        then show ?thesis using sl(6) [OF Inl] r(2) by simp
      next
        case (Inr c)
        from sl(4) [OF True Inr] obtain v where v: "kFetch k = Inr (c, v)" "Link (creds (cacheAt q g)) = lnk"
            "ExpiresAt (creds (cacheAt q g)) = fetchedExpiry (fst c) v (kDone k)" by blast
        then have "v \<le> 60" "credentialExpiryFromUsername (fst c) = None" "t0 \<le> kDone k"
          using h by (auto simp: split_beta)
        then have "validSlot t0 lnk (cacheAt q g) = 1"
          using v fetched_hour [of v "fst c" t0 "kDone k"] by (simp add: validSlot_def)
        then show ?thesis using z r(2) Inr True by simp
      qed
    qed
    then show ?thesis using IH sl(2) by simp
  next
    case (Rejected u now)
    obtain acted q where l: "refreshGroupCreds g u now s = (acted, q)" by fastforce
    obtain us where r: "credRun g lnk ops q = ((n, us), s')" "ts = (if acted then now # us else us)"
      using Cons.prems(4) l Rejected by (cases "credRun g lnk ops q") auto
    note sl = refreshGroupCreds_slot [OF Cons.prems(1) l]
    have h: "t0 \<le> now" "now < t0 + 59 * minute" using Cons.prems(2) Rejected by simp_all
    have IH: "n + validSlot t0 lnk (cacheAt q g) \<le> 1 + length us" "spacedAfter (lastRefresh (cacheAt q g)) us"
        "\<forall>t \<in> set us. t0 \<le> t"
      using Cons.IH [OF _ _ Cons.prems(3) r(1)] Cons.prems(1,2) sl(1) by auto
    show ?thesis
    proof (cases acted)
      case False
      then show ?thesis using IH r(2) sl(3) by simp
    next
      case True
      have c: "lastRefresh (cacheAt q g) = now" using sl(3) True by (simp add: expireCredsLocked_def)
      have nz: "\<not> is_zero now" using h(1) Cons.prems(3) by simp
      have last: "\<not> is_zero (lastRefresh (cacheAt s g)) \<longrightarrow> lastRefresh (cacheAt s g) + credRefreshThrottle \<le> now"
        using sl(2) True by (auto simp: go_consts)
      have "spacedAfter (lastRefresh (cacheAt s g)) (now # us)"
        using IH(2) nz last unfolding c by (fastforce simp: spacedAfter_def go_consts)
      moreover have "validSlot t0 lnk (cacheAt s g) \<le> 1" by (simp add: validSlot_def)
      ultimately show ?thesis using IH(1,3) r(2) True h(1) by auto
    qed
  qed
qed



section \<open>The breaker\<close>

text \<open>The breaker after a history of refusals: the username, whether it was fresh and never accepted, the instant.\<close>

definition breakerAfter :: "(string \<times> bool \<times> gtime) list \<Rightarrow> quotaBreaker" where
  "breakerAfter hist = fold (\<lambda>(u, f, t) b. snd (noteRefusal b u f t)) hist newBreaker"

definition breakerInv :: "(string \<times> bool \<times> gtime) list \<Rightarrow> quotaBreaker \<Rightarrow> bool" where
  "breakerInv hist b \<longleftrightarrow> length (fresh b) \<le> 1 \<and>
    (\<forall>r \<in> set (fresh b). (refusedUser r, True, refusedAt r) \<in> set hist) \<and>
    (is_zero (lastTrip b) \<or> quotaPauseBase \<le> lastPause b \<and> lastPause b \<le> quotaPauseMax)"

text \<open>What a refusal does: the pause runs, it is not counted, it is kept, or it trips the breaker.\<close>

lemma noteRefusal_cases:
  assumes "breakerInv hist b"
  obtains (running) "now < pausedUntil b" "noteRefusal b u f now = ((True, tsub (pausedUntil b) now), b)"
  | (stale) "\<not> f" "noteRefusal b u f now = ((False, 0), b)"
  | (kept) rs where "f" "noteRefusal b u f now = ((False, 0), b\<lparr>fresh := rs\<rparr>)" "length rs \<le> 1"
      "\<forall>r \<in> set rs. r \<in> set (fresh b) \<or> r = \<lparr>refusedUser = u, refusedAt = now\<rparr>"
  | (trip) pause r where "f" "noteRefusal b u f now = ((True, pause), b\<lparr>trips := trips b + 1, lastTrip := now,
        lastPause := pause, pausedUntil := now + pause, fresh := [], pauseAnnounced := False\<rparr>)"
      "quotaPauseBase \<le> pause" "pause \<le> quotaPauseMax"
      "r \<in> set (fresh b)" "refusedUser r \<noteq> u" "now - quotaRefusalWindow \<le> refusedAt r"
proof -
  obtain kept where k: "kept = recentRefusals b now" by simp
  have sub: "set kept \<subseteq> set (fresh b)" "\<forall>r \<in> set kept. now - quotaRefusalWindow \<le> refusedAt r"
    by (auto simp: k recentRefusals_def)
  have len: "length kept \<le> 1" using assms by (simp add: k recentRefusals_def breakerInv_def le_trans [OF length_filter_le])
  consider (a) "now < pausedUntil b" | (b) "\<not> now < pausedUntil b" "\<not> f"
    | (c) "\<not> now < pausedUntil b" f "u \<in> refusedUser ` set kept"
    | (d) "\<not> now < pausedUntil b" f "u \<notin> refusedUser ` set kept" "kept = []"
    | (e) "\<not> now < pausedUntil b" f "u \<notin> refusedUser ` set kept" "kept \<noteq> []" by blast
  then show thesis
  proof cases
    case a
    then show thesis using running by (simp add: noteRefusal_def)
  next
    case b
    then show thesis using stale by (simp add: noteRefusal_def)
  next
    case c
    then have "noteRefusal b u f now = ((False, 0), b\<lparr>fresh := kept\<rparr>)"
      using len by (simp add: noteRefusal_def k [symmetric] quotaRefusalTrip_def)
    then show thesis using kept [of kept] c len sub(1) by blast
  next
    case d
    then have "noteRefusal b u f now = ((False, 0), b\<lparr>fresh := [\<lparr>refusedUser = u, refusedAt = now\<rparr>]\<rparr>)"
      by (simp add: noteRefusal_def k [symmetric] quotaRefusalTrip_def)
    then show thesis using kept [of "[\<lparr>refusedUser = u, refusedAt = now\<rparr>]"] d by simp
  next
    case e
    then obtain r where r: "kept = [r]" using len by (cases kept) auto
    obtain pause where p: "pause = (if \<not> is_zero (lastTrip b) \<and> tsub now (lastTrip b) < quotaLadderWindow
        then min (lastPause b * 2) quotaPauseMax else quotaPauseBase)" by simp
    have "noteRefusal b u f now = ((True, pause), b\<lparr>trips := trips b + 1, lastTrip := now,
        lastPause := pause, pausedUntil := now + pause, fresh := [], pauseAnnounced := False\<rparr>)"
      using e by (simp add: noteRefusal_def k [symmetric] r quotaRefusalTrip_def p Let_def)
    moreover have "quotaPauseBase \<le> pause" "pause \<le> quotaPauseMax"
      using assms by (auto simp: p breakerInv_def go_consts)
    moreover have "r \<in> set (fresh b)" "refusedUser r \<noteq> u" "now - quotaRefusalWindow \<le> refusedAt r"
      using e sub r by auto
    ultimately show thesis using trip e(2) by blast
  qed
qed

lemma breakerInv_step:
  assumes "breakerInv hist b"
  shows "breakerInv (hist @ [(u, f, now)]) (snd (noteRefusal b u f now))"
  by (rule noteRefusal_cases [OF assms, of now u f]) (use assms in \<open>auto simp: breakerInv_def\<close>)

lemma breakerAfter_inv: "breakerInv hist (breakerAfter hist)"
proof (induction hist rule: rev_induct)
  case Nil
  then show ?case by (simp add: breakerAfter_def newBreaker_def breakerInv_def)
next
  case (snoc e hist)
  obtain u f t where e: "e = (u, f, t)" by (cases e)
  show ?case using breakerInv_step [OF snoc.IH, of u f t] by (simp add: e breakerAfter_def)
qed

text \<open>
  Minting is paused only for two credentials: when a refusal starts a pause, it is of a fresh credential no allocation
  ever succeeded on, and another such credential was refused within the minute before; the pause lasts between
  half a minute and five minutes, and no other refusal starts or lengthens one.
\<close>

theorem pause_needs_two_fresh_credentials:
  assumes "noteRefusal (breakerAfter hist) u f now = ((paused, left), b')"
  shows "(if pausedUntil b' = pausedUntil (breakerAfter hist) \<and> trips b' = trips (breakerAfter hist)
          then paused \<longrightarrow> now < pausedUntil b'
          else f \<and> paused \<and> pausedUntil b' = now + left \<and> 30 * second \<le> left \<and> left \<le> 5 * minute \<and>
            (\<exists>u' t'. u' \<noteq> u \<and> (u', True, t') \<in> set hist \<and> now - minute \<le> t'))"
  by (rule noteRefusal_cases [OF breakerAfter_inv, of now hist u f])
    (use assms breakerAfter_inv [of hist] in \<open>auto simp: breakerInv_def go_consts\<close>)

section \<open>Examples\<close>

definition exampleCreds :: "gtime \<Rightarrow> credOp" where
  "exampleCreds t = Lookup \<lparr>kNow = t, kCancelled = False, kNoToken = False,
     kFetch = Inr ((''user'', ''pass'', [''a'']), 0), kDone = t + second\<rparr>"


theorem pause_needs_two_fresh_credentials_witness:
  "\<exists>u' t'. u' \<noteq> ''b'' \<and> (u', True, t') \<in> set [(''a'', True, 100 * second)] \<and> 110 * second - minute \<le> t'"
proof -
  let ?h = "[(''a'', True, 100 * second)]"
  obtain paused left b' where r: "noteRefusal (breakerAfter ?h) ''b'' True (110 * second) = ((paused, left), b')"
    by (metis prod.exhaust)
  have "pausedUntil (snd (noteRefusal (breakerAfter ?h) ''b'' True (110 * second))) \<noteq> pausedUntil (breakerAfter ?h)"
    by code_simp
  then show ?thesis using pause_needs_two_fresh_credentials [OF r] r by (simp split: if_splits)
qed

end
