(* ===== verification/Worker.thy ===== *)
theory Worker
  imports Credentials SessionVerdict WorkerCreds DarkPath
begin

text \<open>
  The worker of a stream (\<open>runWorker\<close> of \<open>pkg/proxy/worker_group.go\<close>): what it does with a credential it
  did not get (\<open>credFailed\<close>) and with an attempt that ended (\<open>afterAttempt\<close>), its backoff, and the
  accounting of workers that gave up (\<open>turn_fatal.go\<close>). An attempt itself is I/O: what it ended in is the
  record \<open>attemptEnd\<close>. The clock is read once for the decision, at \<open>eNow\<close>; the random draws are
  fields of the record.
\<close>

section \<open>Backoff\<close>

record workerBackoff =
  failStreak :: int
  failedHeads :: "string list"
  isScouting :: bool

definition resetBackoff :: "workerBackoff \<Rightarrow> workerBackoff" where
  "resetBackoff st = st\<lparr>failStreak := 0, failedHeads := []\<rparr>"

definition failedAttempt :: "string \<Rightarrow> workerBackoff \<Rightarrow> workerBackoff" where
  "failedAttempt head st = st\<lparr>failStreak := failStreak st + 1, failedHeads := List.insert head (failedHeads st)\<rparr>"

definition failedOn :: "workerBackoff \<Rightarrow> string \<Rightarrow> bool" where
  "failedOn st head \<longleftrightarrow> head \<in> set (failedHeads st)"

definition headMoved :: "string \<Rightarrow> string \<Rightarrow> workerBackoff \<Rightarrow> workerBackoff" where
  "headMoved head nxt st = (if nxt \<noteq> head \<and> \<not> failedOn st nxt then st\<lparr>failStreak := 0\<rparr> else st)"

text \<open>The draws: \<open>rand.Intn(500)\<close>, \<open>rand.Intn(11)\<close>, \<open>rand.Intn(5000)\<close>, \<open>rand.Intn(8001)\<close>.\<close>

definition reconnectDelay :: "int \<Rightarrow> int \<Rightarrow> int \<Rightarrow> duration" where
  "reconnectDelay streak rnd500 rnd11 =
    (if streak \<le> 1 then (500 + rnd500) * millisecond
     else
       let e = min (nat (streak - 1)) 4; base = 2 ^ e * second;
           base = (if base > 30 * second then 30 * second else base)
       in base + (5 + rnd11) * second)"

definition credRetryBase :: duration where "credRetryBase = 30 * second"
definition credRetryMax :: duration where "credRetryMax = 5 * minute"
definition maxCaptchaFailStreak :: int where "maxCaptchaFailStreak = 5"
declare credRetryBase_def [go_consts] credRetryMax_def [go_consts] maxCaptchaFailStreak_def [go_consts]

definition credRetryDelay :: "int \<Rightarrow> int \<Rightarrow> duration" where
  "credRetryDelay streak rnd5000 =
    (let streak = (if streak < 1 then 1 else streak);
         d = credRetryBase * 2 ^ nat (min (streak - 1) 4);
         d = (if d > credRetryMax then credRetryMax else d)
     in d + rnd5000 * millisecond)"

definition quotaCooldown :: "int \<Rightarrow> duration" where
  "quotaCooldown rnd8001 = 5 * second + rnd8001 * millisecond"

section \<open>A credential that did not come\<close>

datatype credFailure = CallUnavailable | CallRequiresAuth | CaptchaUnsolved | CaptchaLockout | OtherCredFailure

definition isTerminalCredError :: "credFailure \<Rightarrow> bool" where
  "isTerminalCredError e \<longleftrightarrow> e = CallUnavailable \<or> e = CallRequiresAuth"

datatype credNext = CredStop | CredAgain | CredGaveUp | CredWait duration

text \<open>The streak of failed fetches is counted where the failure says something of the credential.\<close>

definition credFailed ::
  "bool \<Rightarrow> bool \<Rightarrow> bool \<Rightarrow> credFailure \<Rightarrow> int \<Rightarrow> duration \<Rightarrow> int \<Rightarrow> int \<Rightarrow> credNext \<times> int" where
  "credFailed ctxDone probe netAvailable e captchaStreak lockoutLeft rnd5000 streak =
    (if ctxDone then (CredStop, streak)
     else if \<not> probe \<and> \<not> netAvailable then (CredAgain, streak)
     else if isTerminalCredError e then (CredGaveUp, streak)
     else
       let streak = streak + 1 in
       if e = CaptchaUnsolved \<or> e = CaptchaLockout then
         if captchaStreak \<ge> maxCaptchaFailStreak then (CredGaveUp, streak)
         else
           let w = lockoutLeft + rnd5000 * millisecond
           in (CredWait (if w < 5 * second then 5 * second else w), streak)
       else (CredWait (credRetryDelay streak rnd5000), streak))"

section \<open>The order of the next attempt\<close>

definition attemptOrder ::
  "proxyBooks \<Rightarrow> string \<Rightarrow> string list \<Rightarrow> int \<Rightarrow> gtime \<Rightarrow> relayMove option \<Rightarrow> string \<Rightarrow> string list \<times> proxyBooks" where
  "attemptOrder s u addrs streamID now move avoid =
    (let (ordered, s) = streamAttemptOrderAround s u addrs streamID now move
     in (if avoid \<noteq> [] then relayLast ordered avoid else ordered, s))"

section \<open>An attempt that ended\<close>

text \<open>
  The stream and its group, the credential and relays of the attempt, what ended it, and what the process
  knows then. \<open>eLocked\<close>: the group's slot is locked by a fetch in flight, at each of the three looks at it.
\<close>

record attemptEnd =
  eStream :: int
  eGroup :: int
  eUser :: string
  eAddrs :: "string list"
  eOrdered :: "string list"
  eCtxDone :: bool
  eMoved :: bool
  eNetAvailable :: bool
  eProbe :: bool
  eErr :: "goError option"
  eSessionDur :: duration
  eAvoid :: string
  eOverTCP :: bool
  eHeardAtStart :: "64 word"
  ePathAtStart :: "64 word"
  eStarted :: gtime
  eClock :: "reporterClock option"
  eStreams :: "streamView list"
  eNow :: gtime
  eLocked1 :: bool
  eLocked2 :: bool
  eLocked3 :: bool
  eRnd500 :: int
  eRnd11 :: int
  eRnd1001 :: int
  eRnd8001 :: int

record workerState =
  backoff :: workerBackoff
  graceUsed :: string
  minting :: mint
  proxy :: proxyBooks
  path :: pathState

datatype retryNote = NoNote | OneMoreTry | OnReplacedCreds

text \<open>What comes next; \<open>Panics\<close> is the call of \<open>Error\<close> on a nil error.\<close>

datatype nextMove = Stops | Panics | AtOnce | Sleeps duration | Parks darkWhy | Retries duration retryNote bool

definition settlingQuotaError ::
  "allocationBook \<Rightarrow> goError \<Rightarrow> string \<Rightarrow> string list \<Rightarrow> gtime \<Rightarrow> (string \<times> duration) option \<times> allocationBook" where
  "settlingQuotaError b e u addrs now =
    (if \<not> isQuotaError e then (None, b) else settlingQuota b u (quotaAnsweredBy e addrs) now)"

text \<open>Is the credential the attempt ran on given up? Answers whether it got one more try.\<close>

definition judgeCreds :: "attemptEnd \<Rightarrow> goError \<Rightarrow> workerState \<Rightarrow> bool \<times> workerState" where
  "judgeCreds a e w =
    (let (replaced, s) = credsReplaced (eGroup a) (eUser a) (eLocked1 a) (eNow a) (store (minting w));
         w = w\<lparr>minting := (minting w)\<lparr>store := s\<rparr>\<rparr>;
         graced = quotaGraceApplies e (eUser a) (graceUsed w) replaced \<noteq> None;
         w = (if graced then w\<lparr>graceUsed := eUser a\<rparr> else w)
     in if graced \<or> \<not> classifyCredError e then (graced, w)
        else
          let (held, m) = quotaRefusalPausesMinting (ghostBook (proxy w)) e (eGroup a) (eUser a) (eLocked2 a) (eNow a) (minting w)
          in (graced, w\<lparr>minting := (if held then m
               else m\<lparr>store := snd (refreshGroupCreds (eGroup a) (eUser a) (eNow a) (store m))\<rparr>)\<rparr>))"

text \<open>The streak after the attempt, by how long its session ran and where the next one starts.\<close>

definition countAttempt :: "attemptEnd \<Rightarrow> workerState \<Rightarrow> workerState" where
  "countAttempt a w =
    (let head = hd (eOrdered a);
         st = (if eSessionDur a \<ge> healthySessionDuration then resetBackoff (backoff w) else failedAttempt head (backoff w));
         (order, s) = attemptOrder (proxy w) (eUser a) (eAddrs a) (eStream a) (eNow a) None (eAvoid a)
     in w\<lparr>backoff := headMoved head (hd order) st, proxy := s\<rparr>)"

definition retryDelayOf :: "attemptEnd \<Rightarrow> goError \<Rightarrow> bool \<Rightarrow> workerState \<Rightarrow> (duration \<times> retryNote) \<times> workerState" where
  "retryDelayOf a e graced w =
    (if graced then ((reconnectDelay 0 (eRnd500 a) (eRnd11 a), OneMoreTry), w)
     else if isQuotaError e then
       let (replaced, s) = credsReplaced (eGroup a) (eUser a) (eLocked3 a) (eNow a) (store (minting w));
           w = w\<lparr>minting := (minting w)\<lparr>store := s\<rparr>\<rparr>
       in if replaced then
            let w = w\<lparr>backoff := resetBackoff (backoff w)\<rparr>
            in ((reconnectDelay (failStreak (backoff w)) (eRnd500 a) (eRnd11 a), OnReplacedCreds), w)
          else ((quotaCooldown (eRnd8001 a), NoNote), w)
     else ((reconnectDelay (failStreak (backoff w)) (eRnd500 a) (eRnd11 a), NoNote), w))"

definition afterFailure :: "attemptEnd \<Rightarrow> goError \<Rightarrow> workerState \<Rightarrow> nextMove \<times> workerState" where
  "afterFailure a e w =
    (let (graced, w) = judgeCreds a e w;
         w = countAttempt a w;
         ((delay, note), w) = retryDelayOf a e graced w;
         (why, p) = (if parksInTheDark e
           then findsTheDark (eClock a) (eStreams a) (eOverTCP a) (eHeardAtStart a) (ePathAtStart a) (eStarted a)
                  (localNetworkError e) (eNow a) (path w)
           else (None, path w));
         w = w\<lparr>path := p\<rparr>
     in case why of
          Some d \<Rightarrow> (Parks d, w)
        | None \<Rightarrow> (Retries delay note (pathWideError e), w))"

definition afterAttempt :: "attemptEnd \<Rightarrow> workerState \<Rightarrow> nextMove \<times> workerState" where
  "afterAttempt a w =
    (if eCtxDone a then (Stops, w)
     else if eMoved a then (AtOnce, w\<lparr>backoff := resetBackoff (backoff w)\<rparr>)
     else if \<not> eNetAvailable a \<and> eProbe a \<and> eErr a = None then (Panics, w)
     else if \<not> eNetAvailable a \<and> \<not> (eProbe a \<and> (case eErr a of None \<Rightarrow> False | Some e \<Rightarrow> classifyCredError e))
       then (AtOnce, w)
     else case eErr a of
       None \<Rightarrow> (Sleeps ((500 + eRnd500 a) * millisecond), w\<lparr>backoff := resetBackoff (backoff w)\<rparr>)
     | Some e \<Rightarrow>
         let (settling, b) = settlingQuotaError (ghostBook (proxy w)) e (eUser a) (eOrdered a) (eNow a);
             w = w\<lparr>proxy := (proxy w)\<lparr>ghostBook := b\<rparr>\<rparr>
         in if settling \<noteq> None then (Sleeps (releaseSettleRetry (eRnd1001 a)), w)
            else afterFailure a e w)"

section \<open>Workers that gave up\<close>

record fatalState =
  workersTotal :: int
  workersDead :: int
  fatalTold :: bool
  fatalReason :: string

definition resetWorkerFatalState :: "int \<Rightarrow> fatalState" where
  "resetWorkerFatalState n = \<lparr>workersTotal = n, workersDead = 0, fatalTold = False, fatalReason = []\<rparr>"

definition reportWorkerGaveUp :: "string \<Rightarrow> fatalState \<Rightarrow> fatalState" where
  "reportWorkerGaveUp reason f =
    (let f = f\<lparr>workersDead := workersDead f + 1\<rparr> in
     if workersTotal f \<le> 0 \<or> workersDead f < workersTotal f then f
     else if fatalTold f then f
     else f\<lparr>fatalTold := True, fatalReason := reason\<rparr>)"

definition turnFatalReason :: "fatalState \<Rightarrow> string" where
  "turnFatalReason f = fatalReason f"

end
