(* ===== verification/WorkerProps.thy ===== *)
theory WorkerProps
  imports Worker CredentialsProps ErrorsProps
begin

text \<open>
  What the worker promises: it gives a credential up only for the relay's refusal of that credential, its
  backoff is restarted less often than there are relays, and it always comes back soon.
\<close>

section \<open>Credentials\<close>

lemma credsReplaced_slots:
  assumes "0 < streamsPerCred s" "credsReplaced g u locked now s = (b, s')"
  shows "cacheAt s' = cacheAt s" "streamsPerCred s' = streamsPerCred s"
  using assms(2) groupCache_simps(2,3) [OF assms(1), of g] by (auto simp: credsReplaced_def split_beta Let_def)

lemma pausesMinting_slots:
  assumes "0 < streamsPerCred (store m)" "quotaRefusalPausesMinting bk e g u locked now m = (held, m')"
  shows "cacheAt (store m') = cacheAt (store m)" "streamsPerCred (store m') = streamsPerCred (store m)"
    "\<not> held \<Longrightarrow> isQuotaError e \<Longrightarrow> \<not> now < pausedUntil (breaker m')" "\<not> isQuotaError e \<Longrightarrow> m' = m"
  using assms(2) groupCache_simps(2,3) [OF assms(1), of g]
  by (auto simp: quotaRefusalPausesMinting_def credFreshAndUntouched_def skipRefresh_def split_beta Let_def split: if_splits)

lemma refresh_other_slot:
  assumes "0 < streamsPerCred s" "h \<noteq> g"
  shows "cacheAt (snd (refreshGroupCreds g u now s)) h = cacheAt s h"
  using assms(2) groupCache_simps [OF assms(1), of g] by (simp add: refreshGroupCreds_def split_beta Let_def)

text \<open>When a slot is expired for the attempt \<open>a\<close> that ended in \<open>e\<close>.\<close>

definition rotatedFor :: "attemptEnd \<Rightarrow> goError \<Rightarrow> credStore \<Rightarrow> quotaBreaker \<Rightarrow> credStore \<Rightarrow> bool" where
  "rotatedFor a e s b s' \<longleftrightarrow> classifyCredError e \<and> Username (creds (cacheAt s (eGroup a))) = eUser a \<and>
    (isQuotaError e \<longrightarrow> \<not> eNow a < pausedUntil b) \<and>
    cacheAt s' = (cacheAt s)(eGroup a := expireCredsLocked (eNow a) ((cacheAt s (eGroup a))\<lparr>lastRefresh := eNow a\<rparr>))"

lemma judgeCreds_slots:
  assumes "0 < streamsPerCred (store (minting w))" "judgeCreds a e w = (graced, w')"
  shows "streamsPerCred (store (minting w')) = streamsPerCred (store (minting w)) \<and>
    (cacheAt (store (minting w')) = cacheAt (store (minting w)) \<or>
     rotatedFor a e (store (minting w)) (breaker (minting w')) (store (minting w')))"
proof -
  obtain replaced s where r: "credsReplaced (eGroup a) (eUser a) (eLocked1 a) (eNow a) (store (minting w)) = (replaced, s)"
    by fastforce
  note s = credsReplaced_slots [OF assms(1) r]
  obtain m where m: "m = (minting w)\<lparr>store := s\<rparr>" by simp
  have ms: "store m = s" by (simp add: m)
  have pos: "0 < streamsPerCred (store m)" using assms(1) s(2) by (simp add: ms)
  obtain held m' where h: "quotaRefusalPausesMinting (ghostBook (proxy w)) e (eGroup a) (eUser a) (eLocked2 a) (eNow a) m = (held, m')"
    by fastforce
  note p = pausesMinting_slots [OF pos h]
  obtain acted s' where f: "refreshGroupCreds (eGroup a) (eUser a) (eNow a) (store m') = (acted, s')" by fastforce
  have pos': "0 < streamsPerCred (store m')" using pos p(2) by simp
  note q = refreshGroupCreds_slot [OF pos' f]
  have other: "cacheAt s' g = cacheAt (store m') g" if "g \<noteq> eGroup a" for g
    using refresh_other_slot [OF pos' that, of "eUser a" "eNow a"] f by simp
  let ?gr = "quotaGraceApplies e (eUser a) (graceUsed w) replaced \<noteq> None"
  consider (keep) "minting w' = m" | (held) "minting w' = m'"
    | (acts) "classifyCredError e" "\<not> held" "minting w' = m'\<lparr>store := s'\<rparr>"
    using assms(2) by (auto simp: judgeCreds_def r Let_def m [symmetric] h f split: if_splits)
  then show ?thesis
  proof cases
    case keep
    then show ?thesis using s by (simp add: ms)
  next
    case held
    then show ?thesis using s p by (simp add: ms)
  next
    case acts
    show ?thesis
    proof (cases acted)
      case False
      then have "cacheAt s' = cacheAt (store m')" using q(3) other by (intro ext) (metis)
      then show ?thesis using acts(3) s p q(1) by (simp add: ms)
    next
      case True
      have "cacheAt s' = (cacheAt (store m'))(eGroup a := expireCredsLocked (eNow a) ((cacheAt (store m') (eGroup a))\<lparr>lastRefresh := eNow a\<rparr>))"
        using q(3) True other by (intro ext) simp
      moreover have "Username (creds (cacheAt (store m') (eGroup a))) = eUser a" using q(2) True by simp
      ultimately show ?thesis
        using acts s p q(1) by (simp add: ms rotatedFor_def)
    qed
  qed
qed

lemma countAttempt_minting [simp]: "minting (countAttempt a w) = minting w" "path (countAttempt a w) = path w"
  by (simp_all add: countAttempt_def split_beta Let_def)

lemma retryDelayOf_slots:
  assumes "0 < streamsPerCred (store (minting w))" "retryDelayOf a e graced w = (r, w')"
  shows "cacheAt (store (minting w')) = cacheAt (store (minting w))" "breaker (minting w') = breaker (minting w)"
proof -
  obtain b s where c: "credsReplaced (eGroup a) (eUser a) (eLocked3 a) (eNow a) (store (minting w)) = (b, s)" by fastforce
  note credsReplaced_slots [OF assms(1) c]
  then show "cacheAt (store (minting w')) = cacheAt (store (minting w))" "breaker (minting w') = breaker (minting w)"
    using assms(2) by (auto simp: retryDelayOf_def c Let_def split: if_splits)
qed

text \<open>
  C4. A credential is given up only for its own refusal: whatever an attempt ended in, the credentials of all
  groups are left as they are, unless the error calls for new ones (so it is no failure of the transport), the group's slot
  still holds the very credential that was refused, no release of ours is still settling, and a full quota is not being
  paused for; and then nothing but the slot's deadline and the throttle's clock change.
\<close>

theorem credential_given_up_only_for_its_refusal:
  assumes "afterAttempt a w = (nxt, w')" "0 < streamsPerCred (store (minting w))"
  shows "cacheAt (store (minting w')) = cacheAt (store (minting w)) \<or>
    (\<exists>e. eErr a = Some e \<and> rotatedFor a e (store (minting w)) (breaker (minting w')) (store (minting w')) \<and>
      fst (settlingQuotaError (ghostBook (proxy w)) e (eUser a) (eOrdered a) (eNow a)) = None)"
proof (cases "eErr a")
  case None
  then have "minting w' = minting w" using assms(1) by (auto simp: afterAttempt_def split: if_splits)
  then show ?thesis by simp
next
  case (Some e)
  obtain st b where q: "settlingQuotaError (ghostBook (proxy w)) e (eUser a) (eOrdered a) (eNow a) = (st, b)" by fastforce
  let ?w = "w\<lparr>proxy := (proxy w)\<lparr>ghostBook := b\<rparr>\<rparr>"
  consider (early) "minting w' = minting w" | (failed) "st = None" "afterFailure a e ?w = (nxt, w')"
    using assms(1) Some q by (cases st) (auto simp: afterAttempt_def Let_def split: if_splits)
  then show ?thesis
  proof cases
    case early
    then show ?thesis by simp
  next
    case failed
    obtain graced w1 where j: "judgeCreds a e ?w = (graced, w1)" by fastforce
    obtain dn w2 where r: "retryDelayOf a e graced (countAttempt a w1) = (dn, w2)" by fastforce
    have "minting w' = minting w2"
      using failed(2) by (auto simp: afterFailure_def j r Let_def split_beta split: option.splits)
    moreover have pos: "0 < streamsPerCred (store (minting ?w))" using assms(2) by simp
    note j1 = judgeCreds_slots [OF pos j]
    moreover have "cacheAt (store (minting w2)) = cacheAt (store (minting w1))" "breaker (minting w2) = breaker (minting w1)"
      using retryDelayOf_slots [OF _ r] j1 assms(2) by simp_all
    ultimately show ?thesis using Some q failed(1) by (auto simp: rotatedFor_def)
  qed
qed


section \<open>Backoff\<close>

text \<open>
  A run of failing attempts that started on the relays given, in their order; how often the streak was restarted
  because the next one starts on a relay it has not failed on.
\<close>

fun failRun :: "string list \<Rightarrow> workerBackoff \<Rightarrow> nat \<times> workerBackoff" where
  "failRun (h # n # hs) st =
    (let st = failedAttempt h st; (k, st') = failRun (n # hs) (headMoved h n st)
     in (if n \<noteq> h \<and> \<not> failedOn st n then k + 1 else k, st'))"
| "failRun hs st = (0, st)"

lemma failRun_resets:
  "fst (failRun (h # hs) st) \<le> card (set (h # hs) - set (failedHeads st) - {h})"
proof (induction hs arbitrary: h st)
  case Nil
  then show ?case by simp
next
  case (Cons n hs)
  let ?st = "headMoved h n (failedAttempt h st)"
  let ?A = "set (n # hs) - set (failedHeads ?st) - {n}" and ?B = "set (h # n # hs) - set (failedHeads st) - {h}"
  have f: "set (failedHeads ?st) = insert h (set (failedHeads st))" by (simp add: headMoved_def failedAttempt_def)
  have IH: "fst (failRun (n # hs) ?st) \<le> card ?A" by (rule Cons.IH)
  have A: "?A \<subseteq> ?B - {n}" unfolding f by auto
  show ?case
  proof (cases "n \<noteq> h \<and> \<not> failedOn (failedAttempt h st) n")
    case True
    then have n: "n \<in> ?B" by (auto simp: failedOn_def failedAttempt_def)
    have "card ?A \<le> card (?B - {n})" by (rule card_mono [OF _ A]) simp
    also have "\<dots> < card ?B" using n by (intro card_Diff1_less) auto
    finally show ?thesis using IH True by (simp add: Let_def split_beta)
  next
    case False
    have "card ?A \<le> card ?B" using A by (intro card_mono) auto
    then show ?thesis using IH False by (auto simp: Let_def split_beta)
  qed
qed

text \<open>
  Flapping between relays does not keep a worker from backing off: in a streak of failing attempts, however their
  heads alternate, the backoff is restarted less often than there are relays they started on, and
  every attempt since the last restart has lengthened it.
\<close>

theorem streak_restarts_once_per_relay:
  assumes "failedHeads st = []"
  shows "fst (failRun (h # hs) st) < card (set (h # hs)) \<and>
    (fst (failRun (h # hs) st) = 0 \<longrightarrow> failStreak (snd (failRun (h # hs) st)) = failStreak st + int (length hs))"
proof -
  have "fst (failRun (h # hs) st) \<le> card (set (h # hs) - {h})" using failRun_resets [of h hs st] assms by simp
  also have "\<dots> < card (set (h # hs))" by (intro card_Diff1_less) auto
  finally have a: "fst (failRun (h # hs) st) < card (set (h # hs))" .
  have "fst (failRun (h # hs) st) = 0 \<Longrightarrow> failStreak (snd (failRun (h # hs) st)) = failStreak st + int (length hs)"
  proof (induction hs arbitrary: h st)
    case Nil
    then show ?case by simp
  next
    case (Cons n hs)
    let ?st = "headMoved h n (failedAttempt h st)"
    have z: "\<not> (n \<noteq> h \<and> \<not> failedOn (failedAttempt h st) n)" "fst (failRun (n # hs) ?st) = 0"
      using Cons.prems by (auto simp: Let_def split_beta split: if_splits)
    then have "failStreak ?st = failStreak st + 1" by (auto simp: headMoved_def failedAttempt_def)
    then show ?case using Cons.IH [OF z(2)] by (simp add: Let_def split_beta)
  qed
  with a show ?thesis by blast
qed

theorem streak_restarts_once_per_relay_witness:
  "fst (failRun [''a'', ''b'', ''a'', ''b''] \<lparr>failStreak = 0, failedHeads = [], isScouting = False\<rparr>) < 2"
proof -
  have "failedHeads \<lparr>failStreak = 0, failedHeads = [], isScouting = False\<rparr> = []" by simp
  from conjunct1 [OF streak_restarts_once_per_relay [OF this, of "''a''" "[''b'', ''a'', ''b'']"]]
  show ?thesis by (rule less_le_trans) (simp add: card_insert_if)
qed

section \<open>Coming back\<close>

definition drawsOK :: "attemptEnd \<Rightarrow> bool" where
  "drawsOK a \<longleftrightarrow> 0 \<le> eRnd500 a \<and> eRnd500 a < 500 \<and> 0 \<le> eRnd11 a \<and> eRnd11 a < 11 \<and>
    0 \<le> eRnd1001 a \<and> eRnd1001 a < 1001 \<and> 0 \<le> eRnd8001 a \<and> eRnd8001 a < 8001"

lemma reconnectDelay_bounds:
  assumes "0 \<le> r" "r < 500" "0 \<le> q" "q < 11"
  shows "500 * millisecond \<le> reconnectDelay n r q \<and> reconnectDelay n r q \<le> 31 * second"
proof -
  have "min (nat (n - 1)) 4 \<in> {0, 1, 2, 3, 4}" by auto
  then have "2 ^ min (nat (n - 1)) 4 \<in> {1, 2, 4, 8, 16 :: int}" by (elim insertE emptyE) simp_all
  then show ?thesis using assms by (auto simp: reconnectDelay_def Let_def go_consts)
qed



section \<open>An example\<close>

definition exampleEnd :: attemptEnd where
  "exampleEnd = \<lparr>eStream = 1, eGroup = 0, eUser = ''u'', eAddrs = [''a'', ''b''], eOrdered = [''a'', ''b''],
     eCtxDone = False, eMoved = False, eNetAvailable = True, eProbe = False, eErr = Some (refusal 401),
     eSessionDur = 0, eAvoid = [], eOverTCP = False, eHeardAtStart = 0, ePathAtStart = 0, eStarted = 0,
     eClock = None, eStreams = [], eNow = 100 * second, eLocked1 = False, eLocked2 = False, eLocked3 = False,
     eRnd500 = 7, eRnd11 = 3, eRnd1001 = 5, eRnd8001 = 9\<rparr>"

definition exampleWorker :: workerState where
  "exampleWorker = \<lparr>backoff = \<lparr>failStreak = 0, failedHeads = [], isScouting = False\<rparr>, graceUsed = [],
     minting = \<lparr>store = \<lparr>streamsPerCred = 4, caches = [(0, emptyCache\<lparr>creds := (creds emptyCache)\<lparr>Username := ''u'',
       ExpiresAt := 1000 * second\<rparr>\<rparr>)]\<rparr>, breaker = newBreaker\<rparr>,
     proxy = \<lparr>healthBook = [], restBook = \<lparr>peer = [], marks = [], stateDir = False, diskWritable = False, disk = NotExist\<rparr>, ghostBook = newBook\<rparr>, path = newPath\<rparr>"


theorem credential_given_up_only_for_its_refusal_witness:
  "cacheAt (store (minting (snd (afterAttempt exampleEnd exampleWorker)))) 0 = expireCredsLocked (100 * second)
     ((cacheAt (store (minting exampleWorker)) 0)\<lparr>lastRefresh := 100 * second\<rparr>)"
proof -
  obtain nxt w' where a: "afterAttempt exampleEnd exampleWorker = (nxt, w')" by fastforce
  have "ExpiresAt (creds (cacheAt (store (minting (snd (afterAttempt exampleEnd exampleWorker)))) 0)) \<noteq>
      ExpiresAt (creds (cacheAt (store (minting exampleWorker)) 0))" by code_simp
  then have "cacheAt (store (minting w')) \<noteq> cacheAt (store (minting exampleWorker))" using a by auto
  moreover have "0 < streamsPerCred (store (minting exampleWorker))" by (simp add: exampleWorker_def)
  ultimately have "\<exists>e. eErr exampleEnd = Some e \<and>
      rotatedFor exampleEnd e (store (minting exampleWorker)) (breaker (minting w')) (store (minting w'))"
    using credential_given_up_only_for_its_refusal [OF a] by blast
  then obtain e where "rotatedFor exampleEnd e (store (minting exampleWorker)) (breaker (minting w')) (store (minting w'))"
    by blast
  moreover have "eGroup exampleEnd = 0" "eNow exampleEnd = 100 * second" by (simp_all add: exampleEnd_def)
  ultimately show ?thesis using a by (simp add: rotatedFor_def)
qed


end
