(* ===== verification/Dispatch.thy ===== *)
theory Dispatch
  imports Keepalive GoBytes
begin

text \<open>
  How a packet finds a stream (\<open>pkg/proxy/dispatch_policy.go\<close>, \<open>stream_queue.go\<close>, \<open>dispatchPacket\<close> of
  \<open>init_groups.go\<close>): the rotation in chunks, the queues of a stream, the three passes over the streams,
  the watch that tells of silent ones, and the hold on a handshake after a thaw. A channel is a list with
  a capacity; a \<open>select\<close> with a default is a test of it.
\<close>

section \<open>The rotation\<close>

definition chunkSize :: int where "chunkSize = 8"
definition chunkMaxAge :: duration where "chunkMaxAge = second"
definition tcpChunkMaxAge :: duration where "tcpChunkMaxAge = 15 * millisecond"
definition staleWatchInterval :: duration where "staleWatchInterval = second"
definition tcpPriorityPacketSize :: int where "tcpPriorityPacketSize = 128"
definition tcpPriorityQueueSize :: nat where "tcpPriorityQueueSize = 32"
definition streamQueueSize :: nat where "streamQueueSize = 512"
definition priorityBurstLimit :: int where "priorityBurstLimit = 8"

lemmas dispatch_consts [go_consts] = chunkSize_def chunkMaxAge_def tcpChunkMaxAge_def staleWatchInterval_def
  tcpPriorityPacketSize_def tcpPriorityQueueSize_def streamQueueSize_def priorityBurstLimit_def

record chunkRotor =
  rotorN :: int
  cur :: int
  inChunk :: int
  chunkStart :: gtime
  smallNext :: int

definition newChunkRotor :: "int \<Rightarrow> chunkRotor" where
  "newChunkRotor n = \<lparr>rotorN = n, cur = 0, inChunk = 0, chunkStart = zero_time, smallNext = 0\<rparr>"

definition advance :: "chunkRotor \<Rightarrow> chunkRotor" where
  "advance r = r\<lparr>cur := go_rem (cur r + 1) (rotorN r), inChunk := 0\<rparr>"

definition startWithin :: "gtime \<Rightarrow> duration \<Rightarrow> chunkRotor \<Rightarrow> int \<times> chunkRotor" where
  "startWithin now maxAge r =
    (let r = (if inChunk r > 0 \<and> tsub now (chunkStart r) \<ge> maxAge then advance r else r) in (cur r, r))"

definition sentWithin :: "gtime \<Rightarrow> int \<Rightarrow> chunkRotor \<Rightarrow> chunkRotor" where
  "sentWithin now limit r =
    (let r = (if inChunk r = 0 then r\<lparr>chunkStart := now\<rparr> else r);
         r = r\<lparr>inChunk := inChunk r + 1\<rparr>
     in if inChunk r \<ge> limit then advance r else r)"

definition tcpChunkSize :: "int \<Rightarrow> int" where
  "tcpChunkSize len =
    (if len > 1100 then 64 else if len \<ge> 701 then 24 else if len \<ge> 301 then 8 else 3)"

definition startPacket :: "gtime \<Rightarrow> int \<Rightarrow> bool \<Rightarrow> chunkRotor \<Rightarrow> int \<times> chunkRotor" where
  "startPacket now len overTCP r =
    (if overTCP then
       if len \<le> tcpPriorityPacketSize then (smallNext r, r) else startWithin now tcpChunkMaxAge r
     else startWithin now chunkMaxAge r)"

definition sentPacket :: "gtime \<Rightarrow> int \<Rightarrow> bool \<Rightarrow> chunkRotor \<Rightarrow> chunkRotor" where
  "sentPacket now len overTCP r =
    (if overTCP then
       if len \<le> tcpPriorityPacketSize then r\<lparr>smallNext := go_rem (smallNext r + 1) (rotorN r)\<rparr>
       else sentWithin now (tcpChunkSize len) r
     else sentWithin now chunkSize r)"

section \<open>The queues of a stream\<close>

type_synonym packet = "byte list"

record dstream =
  strId :: int
  strReady :: bool
  strActivity :: "(nat \<times> streamActivity) option"   \<comment> \<open>the session's clock: its identity and what it reads\<close>
  strOverTCP :: bool
  sendStalled :: bool
  inQueue :: "packet list"
  priorityQueue :: "packet list"

definition dispatchStale :: "dstream \<Rightarrow> gtime \<Rightarrow> bool" where
  "dispatchStale st now = (case strActivity st of None \<Rightarrow> False | Some (_, a) \<Rightarrow> stale a now)"

definition enqueuePriority :: "packet \<Rightarrow> dstream \<Rightarrow> bool \<times> dstream" where
  "enqueuePriority pkt st =
    (if \<not> strOverTCP st then (False, st)
     else if length (priorityQueue st) < tcpPriorityQueueSize
          then (True, st\<lparr>priorityQueue := priorityQueue st @ [pkt]\<rparr>) else (False, st))"

definition enqueueOrdinary :: "packet \<Rightarrow> dstream \<Rightarrow> bool \<times> dstream" where
  "enqueueOrdinary pkt st =
    (if length (inQueue st) < streamQueueSize then (True, st\<lparr>inQueue := inQueue st @ [pkt]\<rparr>) else (False, st))"

definition drainOutbound :: "dstream \<Rightarrow> nat \<times> dstream" where
  "drainOutbound st = (length (priorityQueue st) + length (inQueue st), st\<lparr>priorityQueue := [], inQueue := []\<rparr>)"

text \<open>
  One look of the writer at its queues: the packet it takes, or that it waits. Of two ready channels the blocking \<open>select\<close>
  is reached with neither, so the order below is the code's.
\<close>

definition nextOutbound :: "int \<Rightarrow> dstream \<Rightarrow> (packet option \<times> int) \<times> dstream" where
  "nextOutbound run st =
    (if run \<ge> priorityBurstLimit \<and> inQueue st \<noteq> [] then
       ((Some (hd (inQueue st)), 0), st\<lparr>inQueue := tl (inQueue st)\<rparr>)
     else if priorityQueue st \<noteq> [] then
       ((Some (hd (priorityQueue st)), min (run + 1) priorityBurstLimit), st\<lparr>priorityQueue := tl (priorityQueue st)\<rparr>)
     else if inQueue st \<noteq> [] then ((Some (hd (inQueue st)), 0), st\<lparr>inQueue := tl (inQueue st)\<rparr>)
     else ((None, run), st))"

section \<open>Three passes\<close>

text \<open>
  A pass's test of a stream, and whether it passed over a stalled socket; the loop over the indices
  \<open>start, start + 1, \<dots>\<close> modulo the number of streams, over the priority queues
  (where whether a stream was ready is not noted) and over the ordinary ones.
\<close>

definition skipStream :: "gtime \<Rightarrow> nat \<Rightarrow> dstream \<Rightarrow> bool \<Rightarrow> bool \<times> bool" where
  "skipStream now pass st passedStalled =
    (if pass < 2 \<and> sendStalled st then (True, True)
     else (pass = 0 \<and> dispatchStale st now, passedStalled))"

fun streamLoop ::
  "(dstream \<Rightarrow> bool \<times> dstream) \<Rightarrow> gtime \<Rightarrow> nat \<Rightarrow> nat list \<Rightarrow> dstream list \<Rightarrow> bool \<Rightarrow> bool \<Rightarrow>
    nat option \<times> bool \<times> bool \<times> dstream list" where
  "streamLoop enq now pass [] sts ps anyReady = (None, ps, anyReady, sts)"
| "streamLoop enq now pass (i # is) sts ps anyReady =
    (let st = sts ! i in
     if \<not> strReady st then streamLoop enq now pass is sts ps anyReady
     else
       let (skip, ps) = skipStream now pass st ps in
       if skip then streamLoop enq now pass is sts ps True
       else
         let (ok, st) = enq st in
         if ok then (Some i, ps, True, sts[i := st]) else streamLoop enq now pass is sts ps True)"

text \<open>Where the packet went: the stream's index, with the counter it is booked under.\<close>

datatype placement = Placed nat | Steered nat | IntoStalled nat

definition placedAt :: "nat \<Rightarrow> bool \<Rightarrow> dstream list \<Rightarrow> nat \<Rightarrow> placement" where
  "placedAt pass passedStalled sts i =
    (if pass < 2 \<and> passedStalled then Steered i
     else if pass = 2 \<and> sendStalled (sts ! i) then IntoStalled i
     else Placed i)"

definition dispatchOrder :: "nat \<Rightarrow> nat \<Rightarrow> nat list" where
  "dispatchOrder start n = map (\<lambda>i. (start + i) mod n) [0 ..< n]"

definition dispatchPass ::
  "gtime \<Rightarrow> nat \<Rightarrow> packet \<Rightarrow> nat \<Rightarrow> dstream list \<Rightarrow> bool \<Rightarrow> bool \<Rightarrow> placement option \<times> bool \<times> bool \<times> dstream list" where
  "dispatchPass now start pkt pass sts ps anyReady =
    (let is = dispatchOrder start (length sts);
         (hit, ps, _, sts) = (if int (length pkt) \<le> tcpPriorityPacketSize
                              then streamLoop (enqueuePriority pkt) now pass is sts ps anyReady
                              else (None, ps, anyReady, sts))
     in case hit of
          Some i \<Rightarrow> (Some (placedAt pass ps sts i), ps, True, sts)
        | None \<Rightarrow>
            let (hit, ps, anyReady, sts) = streamLoop (enqueueOrdinary pkt) now pass is sts ps anyReady
            in (map_option (placedAt pass ps sts) hit, ps, anyReady, sts))"

text \<open>
  \<open>dispatchPacket\<close>: the placement (none: dropped), whether any stream was ready, and the streams. The passes
  end when one places the packet, when no stream is ready, and before the last when no stalled socket was passed over.
\<close>

fun dispatchPasses ::
  "gtime \<Rightarrow> nat \<Rightarrow> packet \<Rightarrow> nat list \<Rightarrow> dstream list \<Rightarrow> bool \<Rightarrow> placement option \<times> bool \<times> dstream list" where
  "dispatchPasses now start pkt [] sts ps = (None, True, sts)"
| "dispatchPasses now start pkt (pass # passes) sts ps =
    (if pass = 2 \<and> \<not> ps then (None, True, sts)
     else
       let (hit, ps, anyReady, sts) = dispatchPass now start pkt pass sts ps False
       in case hit of
            Some p \<Rightarrow> (Some p, True, sts)
          | None \<Rightarrow> if \<not> anyReady then (None, False, sts) else dispatchPasses now start pkt passes sts ps)"

definition dispatchPacket :: "nat \<Rightarrow> gtime \<Rightarrow> packet \<Rightarrow> dstream list \<Rightarrow> placement option \<times> bool \<times> dstream list" where
  "dispatchPacket start now pkt sts = dispatchPasses now start pkt [0, 1, 2] sts False"


section \<open>Silent streams\<close>

datatype staleLine = HeardAgain int | SilentFor int duration | EverySilent nat | EchoesBack nat nat

record staleWatch =
  watchStale :: "bool list"
  watchEarly :: "bool list"
  watchActs :: "nat option list"
  allStale :: bool
  lastScan :: gtime

definition newStaleWatch :: "nat \<Rightarrow> staleWatch" where
  "newStaleWatch n = \<lparr>watchStale = replicate n False, watchEarly = replicate n False,
     watchActs = replicate n None, allStale = False, lastScan = zero_time\<rparr>"

text \<open>One stream of a scan: what the watch holds of it, its line, and whether it is ready and stale.\<close>

definition scanStream ::
  "gtime \<Rightarrow> dstream \<Rightarrow> bool \<times> bool \<times> nat option \<Rightarrow> (bool \<times> bool \<times> nat option) \<times> staleLine list \<times> bool \<times> bool" where
  "scanStream now st = (\<lambda>(was, early, act).
    if \<not> strReady st then ((False, False, act), [], False, False)
    else
      let a = map_option fst (strActivity st);
          (was, early) = (if a \<noteq> act then (False, False) else (was, early));
          isStale = dispatchStale st now
      in if isStale = was then ((was, early, a), [], True, isStale)
         else if \<not> isStale then
           if early then ((False, False, a), [], True, False) else ((False, False, a), [HeardAgain (strId st)], True, False)
         else case strActivity st of
                None \<Rightarrow> ((True, early, a), [], True, True)
              | Some (_, v) \<Rightarrow>
                  if foundSilentUnderLoad v then ((True, True, a), [], True, True)
                  else ((True, early, a), [SilentFor (strId st) (heardAge v now)], True, True))"

fun scanStreams ::
  "gtime \<Rightarrow> dstream list \<Rightarrow> (bool \<times> bool \<times> nat option) list \<Rightarrow>
    (bool \<times> bool \<times> nat option) list \<times> staleLine list \<times> nat \<times> nat" where
  "scanStreams now (st # sts) (w # ws) =
    (let (w, ls, ready, isStale) = scanStream now st w; (ws, more, r, k) = scanStreams now sts ws
     in (w # ws, ls @ more, if ready then Suc r else r, if isStale then Suc k else k))"
| "scanStreams now _ ws = (ws, [], 0, 0)"

definition observeStale :: "dstream list \<Rightarrow> gtime \<Rightarrow> staleWatch \<Rightarrow> staleLine list \<times> staleWatch" where
  "observeStale sts now w =
    (if \<not> is_zero (lastScan w) \<and> tsub now (lastScan w) < staleWatchInterval then ([], w)
     else
       let (cells, ls, ready, k) = scanStreams now sts (zip (watchStale w) (zip (watchEarly w) (watchActs w)));
           every = (ready > 0 \<and> k = ready);
           w' = w\<lparr>lastScan := now, watchStale := map fst cells, watchEarly := map (fst \<circ> snd) cells,
                  watchActs := map (snd \<circ> snd) cells, allStale := every\<rparr>
       in if every = allStale w then (ls, w')
          else if every then (ls @ [EverySilent ready], w')
          else if ready > 0 then (ls @ [EchoesBack (ready - k) ready], w')
          else (ls, w'))"

section \<open>The hold on a handshake\<close>

definition thawHoldMax :: duration where "thawHoldMax = 2500 * millisecond"
declare thawHoldMax_def [go_consts]

definition isWireGuardInitiation :: "packet \<Rightarrow> bool" where
  "isWireGuardInitiation pkt \<longleftrightarrow> length pkt = 148 \<and> take 4 pkt = [1, 0, 0, 0]"

definition anyStreamProven :: "dstream list \<Rightarrow> gtime \<Rightarrow> bool" where
  "anyStreamProven sts now \<longleftrightarrow> list_ex (\<lambda>st. strReady st \<and> \<not> dispatchStale st now) sts"

record thawHold =
  held :: "packet option"
  holdSince :: gtime
  holding :: bool

definition noHold :: thawHold where
  "noHold = \<lparr>held = None, holdSince = zero_time, holding = False\<rparr>"

text \<open>Is the packet taken, and does its keeper start?\<close>

definition offerHold :: "packet \<Rightarrow> bool \<Rightarrow> gtime \<Rightarrow> thawHold \<Rightarrow> (bool \<times> bool) \<times> thawHold" where
  "offerHold pkt allSilent now h =
    (if \<not> allSilent \<or> \<not> isWireGuardInitiation pkt then ((False, False), h)
     else
       let h = h\<lparr>held := Some pkt\<rparr>
       in if \<not> holding h then ((True, True), h\<lparr>holding := True, holdSince := now\<rparr>) else ((True, False), h))"

text \<open>A turn of the keeper (every \<open>thawHoldPoll\<close>): it waits on, or ends and sends what is held.\<close>

datatype holdTurn = KeepsHolding | Releases "packet option"

definition releaseTurn :: "dstream list \<Rightarrow> gtime \<Rightarrow> thawHold \<Rightarrow> holdTurn \<times> thawHold" where
  "releaseTurn sts now h =
    (if \<not> anyStreamProven sts now \<and> tsub now (holdSince h) < thawHoldMax then (KeepsHolding, h)
     else (Releases (held h), h\<lparr>held := None, holding := False\<rparr>))"

end
