(* ===== verification/DispatchProps.thy ===== *)
theory DispatchProps
  imports Dispatch
begin

text \<open>
  What the dispatcher promises: a packet is dropped only when no ready stream has room for it, it goes
  to the best kind of stream there is and to that one alone, and the rotation sends in chunks under load
  and a stream at a time when idle.
\<close>

section \<open>A pass over the streams\<close>

definition candidate :: "gtime \<Rightarrow> nat \<Rightarrow> dstream \<Rightarrow> bool" where
  "candidate now pass st \<longleftrightarrow> strReady st \<and> (pass < 2 \<longrightarrow> \<not> sendStalled st) \<and> (pass = 0 \<longrightarrow> \<not> dispatchStale st now)"

definition priorityRoom :: "dstream \<Rightarrow> bool" where
  "priorityRoom st \<longleftrightarrow> strOverTCP st \<and> length (priorityQueue st) < tcpPriorityQueueSize"

definition ordinaryRoom :: "dstream \<Rightarrow> bool" where
  "ordinaryRoom st \<longleftrightarrow> length (inQueue st) < streamQueueSize"

definition smallPacket :: "packet \<Rightarrow> bool" where
  "smallPacket pkt \<longleftrightarrow> int (length pkt) \<le> tcpPriorityPacketSize"

definition roomFor :: "packet \<Rightarrow> dstream \<Rightarrow> bool" where
  "roomFor pkt st \<longleftrightarrow> ordinaryRoom st \<or> (smallPacket pkt \<and> priorityRoom st)"

text \<open>The stream with the packet put at the end of one of its queues.\<close>

definition enqueued :: "packet \<Rightarrow> dstream \<Rightarrow> dstream \<Rightarrow> bool" where
  "enqueued pkt st st' \<longleftrightarrow> st' = st\<lparr>priorityQueue := priorityQueue st @ [pkt]\<rparr> \<or> st' = st\<lparr>inQueue := inQueue st @ [pkt]\<rparr>"

lemma skipStream_candidate:
  "strReady st \<Longrightarrow> fst (skipStream now pass st ps) \<longleftrightarrow> \<not> candidate now pass st"
  "snd (skipStream now pass st ps) \<longleftrightarrow> ps \<or> (pass < 2 \<and> sendStalled st)"
  by (auto simp: skipStream_def candidate_def)

definition enqueuesWhere :: "(dstream \<Rightarrow> bool) \<Rightarrow> packet \<Rightarrow> (dstream \<Rightarrow> bool \<times> dstream) \<Rightarrow> bool" where
  "enqueuesWhere room pkt enq \<longleftrightarrow>
    (\<forall>st. (fst (enq st) \<longleftrightarrow> room st) \<and> (room st \<longrightarrow> enqueued pkt st (snd (enq st))))"

lemma enqueue_room:
  "enqueuesWhere priorityRoom pkt (enqueuePriority pkt)"
  "enqueuesWhere ordinaryRoom pkt (enqueueOrdinary pkt)"
  by (auto simp: enqueuesWhere_def enqueuePriority_def enqueueOrdinary_def priorityRoom_def ordinaryRoom_def enqueued_def)

lemma streamLoop_spec:
  assumes enq: "enqueuesWhere room pkt enq"
    and loop: "streamLoop enq now pass is sts ps ar = (hit, ps', ar', sts')"
  shows "hit = Some i \<Longrightarrow> i \<in> set is \<and> candidate now pass (sts ! i) \<and> room (sts ! i) \<and>
      (\<exists>st. enqueued pkt (sts ! i) st \<and> sts' = sts[i := st])"
    "hit = None \<Longrightarrow> sts' = sts \<and> (ps' \<longleftrightarrow> ps \<or> (pass < 2 \<and> (\<exists>j \<in> set is. strReady (sts ! j) \<and> sendStalled (sts ! j)))) \<and>
      (ar' \<longleftrightarrow> ar \<or> (\<exists>j \<in> set is. strReady (sts ! j))) \<and>
      (\<forall>j \<in> set is. candidate now pass (sts ! j) \<longrightarrow> \<not> room (sts ! j))"
proof -
  have "(hit = Some i \<longrightarrow> i \<in> set is \<and> candidate now pass (sts ! i) \<and> room (sts ! i) \<and>
      (\<exists>st. enqueued pkt (sts ! i) st \<and> sts' = sts[i := st])) \<and>
    (hit = None \<longrightarrow> sts' = sts \<and> (ps' \<longleftrightarrow> ps \<or> (pass < 2 \<and> (\<exists>j \<in> set is. strReady (sts ! j) \<and> sendStalled (sts ! j)))) \<and>
      (ar' \<longleftrightarrow> ar \<or> (\<exists>j \<in> set is. strReady (sts ! j))) \<and>
      (\<forall>j \<in> set is. candidate now pass (sts ! j) \<longrightarrow> \<not> room (sts ! j)))"
    using loop
  proof (induction "is" arbitrary: ps ar)
    case Nil
    then show ?case by simp
  next
    case (Cons j "is")
    obtain skip q where sk: "skipStream now pass (sts ! j) ps = (skip, q)" by fastforce
    obtain ok st where e: "enq (sts ! j) = (ok, st)" by fastforce
    have s: "strReady (sts ! j) \<Longrightarrow> skip \<longleftrightarrow> \<not> candidate now pass (sts ! j)" "q \<longleftrightarrow> ps \<or> (pass < 2 \<and> sendStalled (sts ! j))"
      using skipStream_candidate [where st = "sts ! j" and now = now and pass = pass and ps = ps] by (simp_all add: sk)
    have r: "ok \<longleftrightarrow> room (sts ! j)" "ok \<Longrightarrow> enqueued pkt (sts ! j) st"
      using enq [unfolded enqueuesWhere_def, rule_format, of "sts ! j"] by (simp_all add: e)
    show ?case
    proof (cases "strReady (sts ! j)")
      case False
      then show ?thesis using Cons.IH [of ps ar] Cons.prems by (auto simp: candidate_def)
    next
      case ready: True
      show ?thesis
      proof (cases "\<not> skip \<and> ok")
        case True
        then show ?thesis using Cons.prems ready r s by (auto simp: sk e)
      next
        case False
        then have "streamLoop enq now pass is sts q True = (hit, ps', ar', sts')"
          using Cons.prems ready by (auto simp: sk e split: if_splits)
        from Cons.IH [OF this] show ?thesis using False ready s r by auto
      qed
    qed
  qed
  then show "hit = Some i \<Longrightarrow> i \<in> set is \<and> candidate now pass (sts ! i) \<and> room (sts ! i) \<and>
      (\<exists>st. enqueued pkt (sts ! i) st \<and> sts' = sts[i := st])"
    "hit = None \<Longrightarrow> sts' = sts \<and> (ps' \<longleftrightarrow> ps \<or> (pass < 2 \<and> (\<exists>j \<in> set is. strReady (sts ! j) \<and> sendStalled (sts ! j)))) \<and>
      (ar' \<longleftrightarrow> ar \<or> (\<exists>j \<in> set is. strReady (sts ! j))) \<and>
      (\<forall>j \<in> set is. candidate now pass (sts ! j) \<longrightarrow> \<not> room (sts ! j))" by blast+
qed


lemma rotation_hits:
  assumes "j < n"
  shows "(start + (j + n - start mod n) mod n) mod n = (j :: nat)"
proof -
  have n: "0 < n" using assms by simp
  have "(start + (j + n - start mod n)) mod n = (start mod n + (j + n - start mod n)) mod n" by (simp add: mod_add_left_eq)
  also have "start mod n + (j + n - start mod n) = j + n"
    using mod_less_divisor [OF n, of start] by linarith
  also have "(j + n) mod n = j" using assms by simp
  finally show ?thesis by (simp add: mod_add_right_eq)
qed

lemma dispatchOrder_set [simp]: "set (dispatchOrder start n) = {..< n}"
proof (rule set_eqI)
  fix j
  show "j \<in> set (dispatchOrder start n) \<longleftrightarrow> j \<in> {..< n}"
  proof (cases "j < n")
    case True
    then have "(j + n - start mod n) mod n \<in> {0 ..< n}" by simp
    then have "(start + (j + n - start mod n) mod n) mod n \<in> (\<lambda>i. (start + i) mod n) ` {0 ..< n}" by (rule imageI)
    then show ?thesis using True by (simp add: dispatchOrder_def rotation_hits)
  next
    case False
    then have "(start + i) mod n \<noteq> j" if "i < n" for i using that mod_less_divisor [of n "start + i"] by linarith
    then show ?thesis using False by (auto simp: dispatchOrder_def)
  qed
qed

section \<open>The best stream there is\<close>

text \<open>The kinds of streams, the best first: fresh, silent, its socket stalled.\<close>

definition streamKind :: "gtime \<Rightarrow> dstream \<Rightarrow> nat" where
  "streamKind now st = (if sendStalled st then 2 else if dispatchStale st now then 1 else 0)"

definition usableFor :: "packet \<Rightarrow> dstream \<Rightarrow> bool" where
  "usableFor pkt st \<longleftrightarrow> strReady st \<and> roomFor pkt st"

lemma candidate_kind: "pass \<le> 2 \<Longrightarrow> candidate now pass st \<longleftrightarrow> strReady st \<and> streamKind now st \<le> pass"
  by (auto simp: candidate_def streamKind_def)

text \<open>A pass places the packet on a candidate with room, if there is one.\<close>

definition placedIndex :: "placement \<Rightarrow> nat" where
  "placedIndex p = (case p of Placed i \<Rightarrow> i | Steered i \<Rightarrow> i | IntoStalled i \<Rightarrow> i)"

lemma placedIndex_placedAt [simp]: "placedIndex (placedAt pass ps sts i) = i"
  by (simp add: placedAt_def placedIndex_def)

lemma dispatchPass_spec:
  assumes "dispatchPass now start pkt pass sts ps ar = (hit, ps', ar', sts')"
  shows "hit = Some p \<Longrightarrow> \<exists>st. placedIndex p < length sts \<and> candidate now pass (sts ! placedIndex p) \<and>
      roomFor pkt (sts ! placedIndex p) \<and> enqueued pkt (sts ! placedIndex p) st \<and> sts' = sts[placedIndex p := st]"
    "hit = None \<Longrightarrow> sts' = sts \<and> (ps' \<longleftrightarrow> ps \<or> (pass < 2 \<and> (\<exists>st \<in> set sts. strReady st \<and> sendStalled st))) \<and>
      (ar' \<longleftrightarrow> ar \<or> (\<exists>st \<in> set sts. strReady st)) \<and> (\<forall>st \<in> set sts. candidate now pass st \<longrightarrow> \<not> roomFor pkt st)"
proof -
  let ?is = "dispatchOrder start (length sts)"
  obtain h1 p1 a1 s1 where l1: "(if int (length pkt) \<le> tcpPriorityPacketSize
      then streamLoop (enqueuePriority pkt) now pass ?is sts ps ar else (None, ps, ar, sts)) = (h1, p1, a1, s1)"
    by (metis prod_cases4)
  obtain h2 p2 a2 s2 where l2: "streamLoop (enqueueOrdinary pkt) now pass ?is s1 p1 ar = (h2, p2, a2, s2)"
    by (metis prod_cases4)
  have d: "(hit, ps', ar', sts') = (case h1 of Some i \<Rightarrow> (Some (placedAt pass p1 s1 i), p1, True, s1)
      | None \<Rightarrow> (map_option (placedAt pass p2 s2) h2, p2, a2, s2))"
    using assms by (simp only: dispatchPass_def Let_def l1 l2 prod.case)
  note e1 = streamLoop_spec [OF enqueue_room(1) [of pkt], of now pass ?is sts ps ar h1 p1 a1 s1]
  note e2 = streamLoop_spec [OF enqueue_room(2) l2]
  have all: "(\<exists>j \<in> {..< length xs}. P (xs ! j)) \<longleftrightarrow> (\<exists>x \<in> set xs. P x)" for P and xs :: "dstream list"
    by (metis in_set_conv_nth lessThan_iff)
  have all': "(\<forall>j \<in> {..< length xs}. P (xs ! j)) \<longleftrightarrow> (\<forall>x \<in> set xs. P x)" for P and xs :: "dstream list"
    by (metis in_set_conv_nth lessThan_iff)
  show "\<exists>st. placedIndex p < length sts \<and> candidate now pass (sts ! placedIndex p) \<and>
      roomFor pkt (sts ! placedIndex p) \<and> enqueued pkt (sts ! placedIndex p) st \<and> sts' = sts[placedIndex p := st]"
    if "hit = Some p"
  proof (cases h1)
    case (Some i)
    then have sm: "smallPacket pkt" and lp: "streamLoop (enqueuePriority pkt) now pass ?is sts ps ar = (h1, p1, a1, s1)"
      using l1 by (auto simp: smallPacket_def split: if_splits)
    from e1(1) [OF lp Some] sm d that show ?thesis by (auto simp: Some roomFor_def)
  next
    case None
    have s1: "s1 = sts" using l1 e1(2) None by (auto split: if_splits)
    have hp: "hit = Some p" by (rule that)
    have "h2 \<noteq> None" using d hp None by (metis Pair_inject map_option_is_None option.simps(3,4))
    then obtain i where i2: "h2 = Some i" by blast
    have i: "h2 = Some i" "p = placedAt pass p2 s2 i" "sts' = s2" using d hp None i2 by auto
    from e2(1) [OF i(1)] show ?thesis unfolding s1 i(3) using i(2) by (auto simp: roomFor_def)
  qed
  show "sts' = sts \<and> (ps' \<longleftrightarrow> ps \<or> (pass < 2 \<and> (\<exists>st \<in> set sts. strReady st \<and> sendStalled st))) \<and>
      (ar' \<longleftrightarrow> ar \<or> (\<exists>st \<in> set sts. strReady st)) \<and> (\<forall>st \<in> set sts. candidate now pass st \<longrightarrow> \<not> roomFor pkt st)"
    if "hit = None"
  proof -
    have n: "h1 = None" "h2 = None" using d that by (auto split: option.splits)
    have s1: "s1 = sts" using l1 e1(2) n by (auto split: if_splits)
    have p1: "p1 \<longleftrightarrow> ps \<or> (smallPacket pkt \<and> pass < 2 \<and> (\<exists>st \<in> set sts. strReady st \<and> sendStalled st))"
      using l1 e1(2) n by (auto simp: smallPacket_def all [symmetric] split: if_splits)
    have r1: "smallPacket pkt \<Longrightarrow> \<forall>st \<in> set sts. candidate now pass st \<longrightarrow> \<not> priorityRoom st"
      using l1 e1(2) n by (auto simp: smallPacket_def all' [symmetric] split: if_splits)
    have "s2 = sts \<and> (p2 \<longleftrightarrow> p1 \<or> (pass < 2 \<and> (\<exists>st \<in> set sts. strReady st \<and> sendStalled st))) \<and>
        (a2 \<longleftrightarrow> ar \<or> (\<exists>st \<in> set sts. strReady st)) \<and> (\<forall>st \<in> set sts. candidate now pass st \<longrightarrow> \<not> ordinaryRoom st)"
      using e2(2) [OF n(2)] by (simp add: s1 all [symmetric] all' [symmetric])
    then show ?thesis using d n p1 r1 by (auto simp: roomFor_def)
  qed
qed


section \<open>The three passes\<close>

lemma dispatchPasses_last:
  assumes "dispatchPasses now start pkt [2] sts ps = (hit, any', sts')"
    and "ps \<longleftrightarrow> (\<exists>st \<in> set sts. strReady st \<and> sendStalled st)"
    and "\<forall>st \<in> set sts. candidate now 1 st \<longrightarrow> \<not> roomFor pkt st" and "\<exists>st \<in> set sts. strReady st"
  shows "any' \<and> (hit = None \<longrightarrow> sts' = sts \<and> (\<forall>st \<in> set sts. \<not> usableFor pkt st)) \<and>
    (\<forall>p. hit = Some p \<longrightarrow> (\<exists>st. placedIndex p < length sts \<and> usableFor pkt (sts ! placedIndex p) \<and>
       enqueued pkt (sts ! placedIndex p) st \<and> sts' = sts[placedIndex p := st]))"
proof -
  obtain h p' a s where d: "dispatchPass now start pkt 2 sts ps False = (h, p', a, s)" by (metis prod_cases4)
  note spec = dispatchPass_spec [OF d]
  show ?thesis
  proof (cases ps)
    case False
    then have "candidate now 1 st \<longleftrightarrow> strReady st" if "st \<in> set sts" for st
      using that assms(2) by (auto simp: candidate_def)
    then show ?thesis using assms(1,3) False by (auto simp: usableFor_def)
  next
    case True
    show ?thesis
    proof (cases h)
      case None
      then have "a" using spec(2) assms(4) by blast
      then show ?thesis using assms(1) True None spec(2) d by (auto simp: usableFor_def candidate_def)
    next
      case (Some p)
      then have r: "hit = Some p \<and> any' \<and> sts' = s" using assms(1) True d by simp
      then show ?thesis using spec(1) [OF Some] by (auto simp: usableFor_def candidate_def)
    qed
  qed
qed

lemma dispatchPasses_first:
  assumes "dispatchPasses now start pkt (pass # passes) sts ps = (hit, any', sts')" "pass < 2"
    and "ps \<longrightarrow> (\<exists>st \<in> set sts. strReady st \<and> sendStalled st)"
  shows "(\<exists>p st. hit = Some p \<and> any' \<and> placedIndex p < length sts \<and> candidate now pass (sts ! placedIndex p) \<and>
      roomFor pkt (sts ! placedIndex p) \<and> enqueued pkt (sts ! placedIndex p) st \<and> sts' = sts[placedIndex p := st]) \<or>
    (\<forall>st \<in> set sts. \<not> strReady st) \<and> hit = None \<and> \<not> any' \<and> sts' = sts \<or>
    (\<exists>st \<in> set sts. strReady st) \<and> (\<forall>st \<in> set sts. candidate now pass st \<longrightarrow> \<not> roomFor pkt st) \<and>
      dispatchPasses now start pkt passes sts (\<exists>st \<in> set sts. strReady st \<and> sendStalled st) = (hit, any', sts')"
proof -
  obtain h p' a s where d: "dispatchPass now start pkt pass sts ps False = (h, p', a, s)" by (metis prod_cases4)
  note spec = dispatchPass_spec [OF d]
  show ?thesis
  proof (cases h)
    case (Some p)
    then have "hit = Some p \<and> any' \<and> sts' = s" using assms(1,2) d by simp
    then show ?thesis using spec(1) [OF Some] by blast
  next
    case None
    note n = spec(2) [OF None]
    have p': "p' = (\<exists>st \<in> set sts. strReady st \<and> sendStalled st)" using n assms(2,3) by blast
    have r: "(if \<not> a then (None, False, s) else dispatchPasses now start pkt passes s p') = (hit, any', sts')"
      using assms(1,2) d None by simp
    show ?thesis
    proof (cases a)
      case True
      then have "dispatchPasses now start pkt passes s p' = (hit, any', sts')" using r by simp
      moreover have "\<exists>st \<in> set sts. strReady st" using n True by blast
      ultimately show ?thesis using n p' by simp
    next
      case False
      with r n show ?thesis by auto
    qed
  qed
qed

definition wellPlaced ::
  "gtime \<Rightarrow> packet \<Rightarrow> dstream list \<Rightarrow> placement option \<Rightarrow> bool \<Rightarrow> dstream list \<Rightarrow> bool" where
  "wellPlaced now pkt sts hit any' sts' \<longleftrightarrow>
    (hit = None \<longleftrightarrow> (\<forall>st \<in> set sts. \<not> usableFor pkt st)) \<and> (hit = None \<longrightarrow> sts' = sts) \<and>
    (any' \<longleftrightarrow> (\<exists>st \<in> set sts. strReady st)) \<and>
    (\<forall>p. hit = Some p \<longrightarrow> placedIndex p < length sts \<and> usableFor pkt (sts ! placedIndex p) \<and>
       (\<forall>st \<in> set sts. usableFor pkt st \<longrightarrow> streamKind now (sts ! placedIndex p) \<le> streamKind now st) \<and>
       (\<exists>st. enqueued pkt (sts ! placedIndex p) st \<and> sts' = sts[placedIndex p := st]))"

definition placedBy ::
  "nat \<Rightarrow> gtime \<Rightarrow> packet \<Rightarrow> dstream list \<Rightarrow> placement option \<Rightarrow> bool \<Rightarrow> dstream list \<Rightarrow> placement \<Rightarrow> dstream \<Rightarrow> bool" where
  "placedBy pass now pkt sts hit any' sts' p st \<longleftrightarrow>
    hit = Some p \<and> any' \<and> placedIndex p < length sts \<and> candidate now pass (sts ! placedIndex p) \<and>
    roomFor pkt (sts ! placedIndex p) \<and> enqueued pkt (sts ! placedIndex p) st \<and> sts' = sts[placedIndex p := st]"

text \<open>A pass without a hit leaves only streams of a worse kind.\<close>

lemma no_better:
  assumes "\<forall>st \<in> set sts. candidate now k st \<longrightarrow> \<not> roomFor pkt st"
  shows "k < 2 \<Longrightarrow> \<forall>st \<in> set sts. usableFor pkt st \<longrightarrow> Suc k \<le> streamKind now st"
  using assms candidate_kind [of k now] by (auto simp: usableFor_def not_le [symmetric] Suc_le_eq)

lemma placedBy_well:
  assumes "placedBy k now pkt sts hit any' sts' p st" "k \<le> 2"
    and "\<forall>st \<in> set sts. usableFor pkt st \<longrightarrow> k \<le> streamKind now st"
  shows "wellPlaced now pkt sts hit any' sts'"
proof -
  have c: "strReady (sts ! placedIndex p)" "streamKind now (sts ! placedIndex p) \<le> k"
    using assms(1,2) candidate_kind [of k now] by (auto simp: placedBy_def)
  have m: "sts ! placedIndex p \<in> set sts" using assms(1) by (simp add: placedBy_def)
  have "usableFor pkt (sts ! placedIndex p)" using assms(1) c(1) by (simp add: placedBy_def usableFor_def)
  with assms(1,3) c m show ?thesis unfolding wellPlaced_def placedBy_def by fastforce
qed

text \<open>
  C9. A packet is dropped exactly when no ready stream has room for it. Otherwise it is put at the end of one queue of
  one ready stream, of the best kind there is with room (one that is heard, before one that is silent, before one whose socket
  has stalled), and no other stream is touched; the dispatcher reports no stream ready exactly when none is.
\<close>

theorem packet_goes_to_the_best_stream:
  assumes "dispatchPacket start now pkt sts = (hit, any', sts')"
  shows "(hit = None \<longleftrightarrow> (\<forall>st \<in> set sts. \<not> usableFor pkt st)) \<and> (hit = None \<longrightarrow> sts' = sts) \<and>
    (any' \<longleftrightarrow> (\<exists>st \<in> set sts. strReady st)) \<and>
    (\<forall>p. hit = Some p \<longrightarrow> placedIndex p < length sts \<and> usableFor pkt (sts ! placedIndex p) \<and>
       (\<forall>st \<in> set sts. usableFor pkt st \<longrightarrow> streamKind now (sts ! placedIndex p) \<le> streamKind now st) \<and>
       (\<exists>st. enqueued pkt (sts ! placedIndex p) st \<and> sts' = sts[placedIndex p := st]))"
proof -
  have d: "dispatchPasses now start pkt (0 # [1, 2]) sts False = (hit, any', sts')"
    using assms by (simp only: dispatchPacket_def)
  note passes [simp del] = dispatchPasses.simps
  from dispatchPasses_first [OF d] consider
    (zero) p st where "placedBy 0 now pkt sts hit any' sts' p st"
  | (silent) "\<forall>st \<in> set sts. \<not> strReady st" "hit = None" "\<not> any'" "sts' = sts"
  | (on) "\<exists>st \<in> set sts. strReady st" "\<forall>st \<in> set sts. candidate now 0 st \<longrightarrow> \<not> roomFor pkt st"
      "dispatchPasses now start pkt (1 # [2]) sts (\<exists>st \<in> set sts. strReady st \<and> sendStalled st) = (hit, any', sts')"
    unfolding placedBy_def by auto
  then have "wellPlaced now pkt sts hit any' sts'"
  proof cases
    case zero
    then show ?thesis by (rule placedBy_well) simp_all
  next
    case silent
    then show ?thesis by (auto simp: usableFor_def wellPlaced_def)
  next
    case on
    from dispatchPasses_first [OF on(3)] on(1) consider
      (one) p st where "placedBy 1 now pkt sts hit any' sts' p st"
    | (last) "\<forall>st \<in> set sts. candidate now 1 st \<longrightarrow> \<not> roomFor pkt st"
        "dispatchPasses now start pkt [2] sts (\<exists>st \<in> set sts. strReady st \<and> sendStalled st) = (hit, any', sts')"
      unfolding placedBy_def by auto
    then show ?thesis
    proof cases
      case one
      then show ?thesis by (rule placedBy_well) (use no_better [OF on(2)] in simp_all)
    next
      case last
      note l = dispatchPasses_last [OF last(2) refl last(1) on(1)]
      show ?thesis
      proof (cases hit)
        case None
        with l on(1) show ?thesis by (auto simp: wellPlaced_def)
      next
        case (Some p)
        with l obtain st where "placedBy 2 now pkt sts hit any' sts' p st"
          unfolding placedBy_def candidate_def usableFor_def by auto
        then show ?thesis by (rule placedBy_well) (use no_better [OF last(1)] in \<open>simp_all add: numeral_2_eq_2\<close>)
      qed
    qed
  qed
  then show ?thesis unfolding wellPlaced_def .
qed

definition idleStream :: "int \<Rightarrow> dstream" where
  "idleStream i = \<lparr>strId = i, strReady = True, strActivity = None, strOverTCP = False, sendStalled = False,
     inQueue = [], priorityQueue = []\<rparr>"

theorem packet_goes_to_the_best_stream_witness:
  "let sts = [(idleStream 0)\<lparr>sendStalled := True\<rparr>, idleStream 1, (idleStream 2)\<lparr>strReady := False\<rparr>];
       (hit, any', sts') = dispatchPacket 2 0 [1, 2] sts
   in hit = Some (Steered 1) \<and> any' \<and> usableFor [1, 2] (sts ! 0) \<and>
      (\<exists>st. enqueued [1, 2] (sts ! placedIndex (Steered 1)) st \<and> sts' = sts[placedIndex (Steered 1) := st])"
proof -
  let ?sts = "[(idleStream 0)\<lparr>sendStalled := True\<rparr>, idleStream 1, (idleStream 2)\<lparr>strReady := False\<rparr>]"
  have d: "dispatchPacket 2 0 [1, 2] ?sts
    = (Some (Steered 1), True, ?sts[1 := (idleStream 1)\<lparr>inQueue := [[1, 2]]\<rparr>])" by code_simp
  have u: "usableFor [1, 2] (?sts ! 0)" by code_simp
  show ?thesis using packet_goes_to_the_best_stream [OF d] d u by (simp add: Let_def)
qed


section \<open>The rotation\<close>

text \<open>The streams that packets placed at the given times start from.\<close>

fun rotorStarts :: "gtime list \<Rightarrow> int \<Rightarrow> chunkRotor \<Rightarrow> int list" where
  "rotorStarts [] len r = []"
| "rotorStarts (now # ts) len r =
    (let (i, r) = startPacket now len False r in i # rotorStarts ts len (sentPacket now len False r))"

lemma next_in_ring: "0 < n \<Longrightarrow> go_rem (int k mod n + 1) n = int (Suc k) mod n"
  by (simp add: go_rem_nonneg mod_add_left_eq mod_add_right_eq add.commute [of 1])

definition loaded :: "gtime \<Rightarrow> int \<Rightarrow> nat \<Rightarrow> chunkRotor \<Rightarrow> bool" where
  "loaded t0 n k r \<longleftrightarrow> rotorN r = n \<and> cur r = int (k div 8) mod n \<and> inChunk r = int (k mod 8) \<and>
    (0 < inChunk r \<longrightarrow> t0 \<le> chunkStart r)"

lemma loaded_step:
  assumes "loaded t0 n k r" "0 < n" "t0 \<le> now" "now < t0 + second"
  shows "fst (startPacket now len False r) = int (k div 8) mod n"
    "loaded t0 n (Suc k) (sentPacket now len False (snd (startPacket now len False r)))"
proof -
  have young: "\<not> (inChunk r > 0 \<and> tsub now (chunkStart r) \<ge> chunkMaxAge)"
    using assms(1,4) by (auto simp: loaded_def go_consts)
  have st: "startPacket now len False r = (cur r, r)"
    using young by (simp only: startPacket_def startWithin_def Let_def if_False)
  show "fst (startPacket now len False r) = int (k div 8) mod n" using assms(1) by (simp add: st loaded_def)
  have c: "Suc k div 8 = (if k mod 8 = 7 then Suc (k div 8) else k div 8)" "Suc k mod 8 = (if k mod 8 = 7 then 0 else Suc (k mod 8))"
    by presburger+
  let ?r = "if inChunk r = 0 then r\<lparr>chunkStart := now\<rparr> else r"
  have r: "rotorN ?r = n" "cur ?r = int (k div 8) mod n" "inChunk ?r = int (k mod 8)" "t0 \<le> chunkStart ?r"
    using assms(1,3) by (auto simp: loaded_def)
  have sent: "sentPacket now len False r =
      (if int (k mod 8) + 1 \<ge> chunkSize then advance (?r\<lparr>inChunk := inChunk ?r + 1\<rparr>) else ?r\<lparr>inChunk := inChunk ?r + 1\<rparr>)"
    unfolding sentPacket_def sentWithin_def Let_def using r(3) by (simp split del: if_split)
  show "loaded t0 n (Suc k) (sentPacket now len False (snd (startPacket now len False r)))"
  proof (cases "k mod 8 = 7")
    case True
    then show ?thesis unfolding st snd_conv sent
      by (simp add: c advance_def chunkSize_def loaded_def r next_in_ring [OF assms(2)] split del: if_split)
  next
    case False
    then have "int (k mod 8) + 1 < 8" using mod_less_divisor [of 8 k] by linarith
    then show ?thesis using False unfolding st snd_conv sent
      by (simp add: c chunkSize_def loaded_def r split del: if_split)
  qed
qed

lemma loaded_starts:
  assumes "loaded t0 n k r" "0 < n" "\<forall>t \<in> set ts. t0 \<le> t \<and> t < t0 + second"
  shows "rotorStarts ts len r = map (\<lambda>i. int (i div 8) mod n) [k ..< k + length ts]"
  using assms
proof (induction ts arbitrary: k r)
  case (Cons t ts)
  then have t: "t0 \<le> t" "t < t0 + second" by auto
  note st = loaded_step [OF Cons.prems(1,2) t, of len]
  have "[k ..< k + length (t # ts)] = k # [Suc k ..< Suc k + length ts]" by (simp add: upt_conv_Cons del: upt_Suc)
  then show ?case using st(1) Cons.IH [OF st(2)] Cons.prems by (simp add: case_prod_beta Let_def)
qed simp

definition rested :: "gtime \<Rightarrow> int \<Rightarrow> nat \<Rightarrow> chunkRotor \<Rightarrow> bool" where
  "rested t n k r \<longleftrightarrow> rotorN r = n \<and> inChunk r = 1 \<and> chunkStart r = t \<and> cur r = int k mod n"

lemma rested_first: "rested t n 0 (sentPacket t len False (snd (startPacket t len False (newChunkRotor n))))"
  "fst (startPacket t len False (newChunkRotor n)) = 0"
  by (auto simp: rested_def sentPacket_def sentWithin_def startPacket_def startWithin_def newChunkRotor_def chunkSize_def Let_def)

lemma rested_step:
  assumes "rested t n k r" "0 < n" "t + second \<le> now"
  shows "fst (startPacket now len False r) = int (Suc k) mod n"
    "rested now n (Suc k) (sentPacket now len False (snd (startPacket now len False r)))"
proof -
  have "tsub now t \<ge> chunkMaxAge" using assms(3) by (simp add: go_consts)
  then have st: "startPacket now len False r = (cur (advance r), advance r)"
    unfolding startPacket_def startWithin_def using assms(1) by (simp add: Let_def rested_def)
  have a: "cur (advance r) = int (Suc k) mod n" "inChunk (advance r) = 0" "rotorN (advance r) = n"
    using assms(1) next_in_ring [OF assms(2), of k] by (simp_all add: advance_def rested_def)
  show "fst (startPacket now len False r) = int (Suc k) mod n" by (simp add: st a)
  show "rested now n (Suc k) (sentPacket now len False (snd (startPacket now len False r)))"
    by (simp add: st rested_def sentPacket_def sentWithin_def chunkSize_def Let_def a)
qed

lemma rested_starts:
  assumes "rested t n k r" "0 < n" "\<forall>i < length ts. (t # ts) ! i + second \<le> ts ! i"
  shows "rotorStarts ts len r = map (\<lambda>i. int i mod n) [Suc k ..< Suc k + length ts]"
  using assms
proof (induction ts arbitrary: t k r)
  case (Cons u ts)
  have u: "t + second \<le> u" using Cons.prems(3) by (metis length_Cons nth_Cons_0 zero_less_Suc)
  note st = rested_step [OF Cons.prems(1,2) u, of len]
  have "\<forall>i < length ts. (u # ts) ! i + second \<le> ts ! i" using Cons.prems(3) by auto
  moreover have "[Suc k ..< Suc k + length (u # ts)] = Suc k # [Suc (Suc k) ..< Suc (Suc k) + length ts]"
    by (simp add: upt_conv_Cons del: upt_Suc)
  ultimately show ?case using st(1) Cons.IH [OF st(2) Cons.prems(2)] by (simp add: case_prod_beta Let_def)
qed simp

text \<open>
  Packets placed within a second of each other are sent eight to a stream, the streams in turn; packets a second
  or more apart go to the streams one by one. Either way every stream has its turn before one has two.
\<close>

theorem rotation_spreads_the_packets:
  assumes "0 < n"
  shows "((\<forall>t \<in> set ts. t0 \<le> t \<and> t < t0 + second) \<longrightarrow>
      rotorStarts ts len (newChunkRotor n) = map (\<lambda>i. int (i div 8) mod n) [0 ..< length ts]) \<and>
    ((\<forall>i < length ts. (t0 # ts) ! i + second \<le> ts ! i) \<longrightarrow>
      rotorStarts (t0 # ts) len (newChunkRotor n) = map (\<lambda>i. int i mod n) [0 ..< Suc (length ts)])"
proof (rule conjI)
  have l: "loaded t0 n 0 (newChunkRotor n)" by (simp add: loaded_def newChunkRotor_def)
  show "(\<forall>t \<in> set ts. t0 \<le> t \<and> t < t0 + second) \<longrightarrow>
      rotorStarts ts len (newChunkRotor n) = map (\<lambda>i. int (i div 8) mod n) [0 ..< length ts]"
    using loaded_starts [OF l assms, of ts len] by simp
  show "(\<forall>i < length ts. (t0 # ts) ! i + second \<le> ts ! i) \<longrightarrow>
      rotorStarts (t0 # ts) len (newChunkRotor n) = map (\<lambda>i. int i mod n) [0 ..< Suc (length ts)]"
    using rested_starts [OF rested_first(1) assms, of ts t0 len len] rested_first(2) [of t0 len n]
    by (simp add: case_prod_beta Let_def upt_conv_Cons del: upt_Suc)
qed

theorem rotation_spreads_the_packets_witness:
  "rotorStarts (replicate 9 5) 100 (newChunkRotor 2) = [0, 0, 0, 0, 0, 0, 0, 0, 1] \<and>
   rotorStarts [0, 1000000000, 2000000000] 100 (newChunkRotor 2) = [0, 1, 0]"
  using rotation_spreads_the_packets [of 2 "replicate 9 5" 5 100]
    rotation_spreads_the_packets [of 2 "[1000000000, 2000000000]" 0 100]
  by (simp add: second_def upt_rec less_Suc_eq)

end
