(* ===== verification/NetGate.thy ===== *)
theory NetGate
  imports Orphans Traces "HOL-Library.Word"
begin

text \<open>
  The gate before new relay connections (\<open>pkg/proxy/network_availability.go\<close>): the host's word on the
  network, what the streams have proved of it, and the lone probe that is let through a closed gate.
  \<open>time.Now()\<close> is an argument. The channel \<open>becameAvailable\<close> is the number of times it was closed:
  a waiter that holds the number \<open>n\<close> is woken once the state shows more.
\<close>

definition transportPathProofTTL :: duration where "transportPathProofTTL = 3 * minute"
definition unvalidatedProbeInterval :: duration where "unvalidatedProbeInterval = minute"
declare transportPathProofTTL_def [go_consts] unvalidatedProbeInterval_def [go_consts]

type_synonym uint64 = "64 word"

record netGate =
  androidValidated :: bool
  transportProvenUntil :: gtime
  transportGeneration :: uint64
  nextUnvalidatedProbe :: gtime
  unvalidatedProbeBusy :: bool
  unvalidatedProbeID :: uint64
  wakeUps :: nat
  netEpoch :: uint64
  leftAt :: gtime

definition networkAvailability :: netGate where
  "networkAvailability = \<lparr>androidValidated = True, transportProvenUntil = zero_time, transportGeneration = 0,
     nextUnvalidatedProbe = zero_time, unvalidatedProbeBusy = False, unvalidatedProbeID = 0, wakeUps = 0,
     netEpoch = 0, leftAt = zero_time\<rparr>"

definition networkAvailableLocked :: "gtime \<Rightarrow> netGate \<Rightarrow> bool" where
  "networkAvailableLocked now g \<longleftrightarrow> androidValidated g \<or> now < transportProvenUntil g"

definition signalNetworkWaitersLocked :: "netGate \<Rightarrow> netGate" where
  "signalNetworkWaitersLocked g = g\<lparr>wakeUps := wakeUps g + 1\<rparr>"

text \<open>The report of a network, with the allocations that a lost one orphans.\<close>

definition setNetworkAvailable :: "gtime \<Rightarrow> bool \<Rightarrow> netGate \<times> allocationBook \<Rightarrow> netGate \<times> allocationBook" where
  "setNetworkAvailable now validated = (\<lambda>(g, book).
    let wasAvailable = networkAvailableLocked now g;
        left = (androidValidated g \<and> \<not> validated);
        g = (if left then g\<lparr>leftAt := now, netEpoch := netEpoch g + 1, transportProvenUntil := zero_time,
               nextUnvalidatedProbe := zero_time, unvalidatedProbeBusy := False,
               unvalidatedProbeID := unvalidatedProbeID g + 1\<rparr> else g);
        g = g\<lparr>androidValidated := validated\<rparr>;
        g = (if validated then g\<lparr>nextUnvalidatedProbe := zero_time, unvalidatedProbeBusy := False,
               unvalidatedProbeID := unvalidatedProbeID g + 1\<rparr> else g);
        g = (if \<not> wasAvailable \<and> networkAvailableLocked now g then signalNetworkWaitersLocked g else g)
    in (g, if left then orphanLiveAllocations book now else book))"

definition markNetworkPathProven :: "gtime \<Rightarrow> uint64 \<Rightarrow> netGate \<Rightarrow> netGate" where
  "markNetworkPathProven now gen g =
    (if gen \<noteq> transportGeneration g then g
     else
       let wasAvailable = networkAvailableLocked now g;
           g = g\<lparr>transportProvenUntil := now + transportPathProofTTL, nextUnvalidatedProbe := zero_time,
                 unvalidatedProbeBusy := False\<rparr>
       in if \<not> wasAvailable then signalNetworkWaitersLocked g else g)"

definition clearNetworkPathProof :: "netGate \<Rightarrow> netGate" where
  "clearNetworkPathProof g =
    g\<lparr>transportProvenUntil := zero_time, nextUnvalidatedProbe := zero_time, unvalidatedProbeBusy := False,
      unvalidatedProbeID := unvalidatedProbeID g + 1\<rparr>"

definition beginNetworkPathGeneration :: "netGate \<Rightarrow> uint64 \<times> netGate" where
  "beginNetworkPathGeneration g =
    (let g = g\<lparr>transportGeneration := transportGeneration g + 1, transportProvenUntil := zero_time,
               nextUnvalidatedProbe := zero_time, unvalidatedProbeBusy := False,
               unvalidatedProbeID := unvalidatedProbeID g + 1\<rparr>
     in (transportGeneration g, g))"

definition resetNetworkPathProof :: "netGate \<Rightarrow> netGate" where
  "resetNetworkPathProof g = snd (beginNetworkPathGeneration g)"

definition noteNetworkLeft :: "gtime \<Rightarrow> netGate \<Rightarrow> netGate" where
  "noteNetworkLeft now g = g\<lparr>leftAt := now, netEpoch := netEpoch g + 1\<rparr>"

definition networkEpoch :: "netGate \<Rightarrow> uint64" where
  "networkEpoch g = netEpoch g"

definition networkLeftSince :: "gtime \<Rightarrow> netGate \<Rightarrow> bool" where
  "networkLeftSince since g \<longleftrightarrow> \<not> androidValidated g \<or> leftAt g > since"

definition isNetworkAvailable :: "gtime \<Rightarrow> netGate \<Rightarrow> bool" where
  "isNetworkAvailable now g = networkAvailableLocked now g"

definition networkAvailabilitySnapshot :: "gtime \<Rightarrow> netGate \<Rightarrow> bool \<times> bool \<times> bool \<times> duration" where
  "networkAvailabilitySnapshot now g =
    (let proofRemaining = tsub (transportProvenUntil g) now;
         proofRemaining = (if proofRemaining < 0 then 0 else proofRemaining);
         transportProven = (proofRemaining > 0)
     in (androidValidated g, transportProven, androidValidated g \<or> transportProven, proofRemaining))"

record networkPermit =
  unvalidatedProbe :: bool
  probeID :: uint64

definition plainPermit :: networkPermit where
  "plainPermit = \<lparr>unvalidatedProbe = False, probeID = 0\<rparr>"

text \<open>
  A turn of \<open>waitForNetworkPermit\<close>: the permit, or the wait for the next wake-up (of the number it saw), with the
  time at which it looks again on its own (none: only a wake-up or the end of its context ends the wait).
\<close>

datatype permitLook = Permitted networkPermit | WaitsFor nat "gtime option"

definition waitForNetworkPermit :: "gtime \<Rightarrow> bool \<Rightarrow> netGate \<Rightarrow> permitLook \<times> netGate" where
  "waitForNetworkPermit now allowUnvalidatedProbe g =
    (if networkAvailableLocked now g then (Permitted plainPermit, g)
     else
       let probeAt = (if allowUnvalidatedProbe \<and> \<not> unvalidatedProbeBusy g then nextUnvalidatedProbe g else zero_time)
       in if allowUnvalidatedProbe \<and> \<not> unvalidatedProbeBusy g \<and> (is_zero probeAt \<or> \<not> now < probeAt) then
            let g = g\<lparr>nextUnvalidatedProbe := now + unvalidatedProbeInterval, unvalidatedProbeBusy := True,
                      unvalidatedProbeID := unvalidatedProbeID g + 1\<rparr>
            in (Permitted \<lparr>unvalidatedProbe = True, probeID = unvalidatedProbeID g\<rparr>, g)
          else (WaitsFor (wakeUps g) (if is_zero probeAt then None else Some probeAt), g))"

definition waitForNetworkAvailable :: "gtime \<Rightarrow> netGate \<Rightarrow> permitLook \<times> netGate" where
  "waitForNetworkAvailable now g = waitForNetworkPermit now False g"

definition networkPermitCurrent :: "gtime \<Rightarrow> networkPermit \<Rightarrow> netGate \<Rightarrow> bool" where
  "networkPermitCurrent now permit g =
    (if networkAvailableLocked now g then True
     else unvalidatedProbe permit \<and> unvalidatedProbeBusy g \<and> probeID permit = unvalidatedProbeID g)"

definition releaseNetworkPermit :: "networkPermit \<Rightarrow> netGate \<Rightarrow> netGate" where
  "releaseNetworkPermit permit g =
    (if \<not> unvalidatedProbe permit then g
     else if \<not> unvalidatedProbeBusy g \<or> probeID permit \<noteq> unvalidatedProbeID g then g
     else signalNetworkWaitersLocked (g\<lparr>unvalidatedProbeBusy := False\<rparr>))"

section \<open>The calls in any order\<close>

datatype gateCall =
    HostSays gtime bool
  | PathProven gtime uint64
  | NewGeneration
  | ProofCleared
  | NetworkLeft gtime
  | AsksToDial gtime bool
  | GivesBack networkPermit

text \<open>A call, with the probe it issues.\<close>

fun gateStep :: "gateCall \<Rightarrow> netGate \<times> allocationBook \<Rightarrow> networkPermit option \<times> netGate \<times> allocationBook" where
  "gateStep (HostSays now v) (g, b) = (None, setNetworkAvailable now v (g, b))"
| "gateStep (PathProven now gen) (g, b) = (None, markNetworkPathProven now gen g, b)"
| "gateStep NewGeneration (g, b) = (None, snd (beginNetworkPathGeneration g), b)"
| "gateStep ProofCleared (g, b) = (None, clearNetworkPathProof g, b)"
| "gateStep (NetworkLeft now) (g, b) = (None, noteNetworkLeft now g, b)"
| "gateStep (AsksToDial now allow) (g, b) =
    (case waitForNetworkPermit now allow g of
       (Permitted p, g) \<Rightarrow> (if unvalidatedProbe p then Some p else None, g, b)
     | (WaitsFor n t, g) \<Rightarrow> (None, g, b))"
| "gateStep (GivesBack p) (g, b) = (None, releaseNetworkPermit p g, b)"

text \<open>Calls that leave the probe's clock alone: no new word of a network, no proof, no new path.\<close>

fun leavesProbes :: "gateCall \<Rightarrow> bool" where
  "leavesProbes (NetworkLeft now) = True"
| "leavesProbes (AsksToDial now allow) = True"
| "leavesProbes (GivesBack p) = True"
| "leavesProbes c = False"

text \<open>When a call asks, and the probes issued in a trace with the times they were asked for.\<close>

fun callTime :: "gateCall \<Rightarrow> gtime" where
  "callTime (AsksToDial now allow) = now"
| "callTime c = 0"

definition issued :: "(gateCall \<times> networkPermit option) list \<Rightarrow> (gtime \<times> networkPermit) list" where
  "issued tr = List.map_filter (\<lambda>(c, p). map_option (Pair (callTime c)) p) tr"

lemma issued_simps [simp]:
  "issued [] = []"
  "issued (tr @ [(c, p)]) = issued tr @ (case p of None \<Rightarrow> [] | Some p \<Rightarrow> [(callTime c, p)])"
  by (simp_all add: issued_def List.map_filter_def split: option.split)

end
