(* ===== verification/NetGateProps.thy ===== *)
theory NetGateProps
  imports NetGate
begin

text \<open>
  What the gate promises: through a closed gate one probe dials at a time, and while nothing new is heard of the
  network the probes are a minute apart.
\<close>

section \<open>One probe\<close>

lemma unat_step:
  assumes "unat (w :: uint64) < 2 ^ 64 - 1"
  shows "unat (w + 1) = Suc (unat w)"
proof -
  have "unat (w + 1) = (unat w + 1) mod 2 ^ 64" by (simp add: unat_word_ariths)
  then show ?thesis using assms by simp
qed

lemma signal_fields [simp]:
  "unvalidatedProbeID (signalNetworkWaitersLocked g) = unvalidatedProbeID g"
  "unvalidatedProbeBusy (signalNetworkWaitersLocked g) = unvalidatedProbeBusy g"
  "nextUnvalidatedProbe (signalNetworkWaitersLocked g) = nextUnvalidatedProbe g"
  "transportProvenUntil (signalNetworkWaitersLocked g) = transportProvenUntil g"
  "androidValidated (signalNetworkWaitersLocked g) = androidValidated g"
  by (simp_all add: signalNetworkWaitersLocked_def)

lemma setNetworkAvailable_id:
  "unvalidatedProbeID (fst (setNetworkAvailable now v (g, b)))
     = (if v \<or> androidValidated g then unvalidatedProbeID g + 1 else unvalidatedProbeID g)"
  by (cases v; cases "androidValidated g"; simp add: setNetworkAvailable_def Let_def if_distrib [of unvalidatedProbeID])

text \<open>What a call does to the counter: it keeps it or counts it on, and a probe it issues bears the new number.\<close>

lemma gateStep_counts:
  assumes "gateStep c (g, b) = (q, g', b')"
  shows "unvalidatedProbeID g' = unvalidatedProbeID g + 1 \<and> (\<forall>p. q = Some p \<longrightarrow> probeID p = unvalidatedProbeID g') \<or>
    unvalidatedProbeID g' = unvalidatedProbeID g \<and> q = None"
proof (cases c)
  case (HostSays now v)
  then have "q = None" "g' = fst (setNetworkAvailable now v (g, b))" using assms by auto
  then show ?thesis by (simp add: setNetworkAvailable_id)
next
  case (AsksToDial now allow)
  then show ?thesis using assms by (auto simp: waitForNetworkPermit_def Let_def plainPermit_def split: if_splits)
qed (use assms in \<open>auto simp: markNetworkPathProven_def beginNetworkPathGeneration_def clearNetworkPathProof_def
      noteNetworkLeft_def releaseNetworkPermit_def Let_def split: if_splits\<close>)

text \<open>
  What holds of the probes issued so far, as long as the counter cannot have come round: they bear its
  numbers in the order they were issued.
\<close>

definition numbered :: "(gateCall \<times> networkPermit option) list \<Rightarrow> netGate \<times> allocationBook \<Rightarrow> bool" where
  "numbered tr s \<longleftrightarrow> (length tr < 2 ^ 64 \<longrightarrow>
    unat (unvalidatedProbeID (fst s)) \<le> length tr \<and>
    sorted_wrt (<) (map (unat \<circ> probeID \<circ> snd) (issued tr)) \<and>
    (\<forall>p \<in> set (issued tr). unat (probeID (snd p)) \<le> unat (unvalidatedProbeID (fst s))))"

lemma numbered_step:
  assumes "numbered tr s" "gateStep c s = (q, s')"
  shows "numbered (tr @ [(c, q)]) s'"
  unfolding numbered_def
proof
  assume len: "length (tr @ [(c, q)]) < 2 ^ 64"
  obtain g b g' b' where s: "s = (g, b)" "s' = (g', b')" by (metis prod.exhaust)
  have inv: "unat (unvalidatedProbeID g) \<le> length tr" "sorted_wrt (<) (map (unat \<circ> probeID \<circ> snd) (issued tr))"
    "\<forall>p \<in> set (issued tr). unat (probeID (snd p)) \<le> unat (unvalidatedProbeID g)"
    using assms(1) len by (simp_all add: numbered_def s)
  have one: "unat (unvalidatedProbeID g + 1) = Suc (unat (unvalidatedProbeID g))"
    using inv(1) len by (intro unat_step) simp
  from gateStep_counts [OF assms(2) [unfolded s]]
  show "unat (unvalidatedProbeID (fst s')) \<le> length (tr @ [(c, q)]) \<and>
    sorted_wrt (<) (map (unat \<circ> probeID \<circ> snd) (issued (tr @ [(c, q)]))) \<and>
    (\<forall>p \<in> set (issued (tr @ [(c, q)])). unat (probeID (snd p)) \<le> unat (unvalidatedProbeID (fst s')))"
  proof
    assume "unvalidatedProbeID g' = unvalidatedProbeID g \<and> q = None"
    with inv show ?thesis by (simp add: s)
  next
    assume n: "unvalidatedProbeID g' = unvalidatedProbeID g + 1 \<and> (\<forall>p. q = Some p \<longrightarrow> probeID p = unvalidatedProbeID g')"
    show ?thesis
    proof (cases q)
      case None
      with n inv one show ?thesis by (simp add: s le_SucI)
    next
      case (Some p)
      with n inv one show ?thesis by (auto simp: s sorted_wrt_append less_Suc_eq_le le_SucI)
    qed
  qed
qed

interpretation numbering: traced gateStep numbered "\<lambda>c. True"
  by unfold_locales (rule numbered_step)

text \<open>
  C11. However the calls fall, a probe that may still dial through the closed gate is the last one issued, and there is
  at most one such; an older one has been voided.
\<close>

theorem one_probe_in_force:
  assumes "traceRun gateStep cs (networkAvailability, book) = (tr, g, book')" "length cs < 2 ^ 64"
    and "\<not> networkAvailableLocked now g" "i < length (issued tr)" "networkPermitCurrent now (snd (issued tr ! i)) g"
  shows "Suc i = length (issued tr) \<and> unvalidatedProbeBusy g"
proof -
  have "numbered [] (networkAvailability, book)" by (simp add: numbered_def networkAvailability_def)
  from numbering.run_establishes [OF assms(1) this] have "numbered tr (g, book')" by simp
  moreover have "length tr = length cs" using traceRun_calls [OF assms(1)] by (metis length_map)
  ultimately have inv: "sorted_wrt (<) (map (unat \<circ> probeID \<circ> snd) (issued tr))"
    "\<forall>p \<in> set (issued tr). unat (probeID (snd p)) \<le> unat (unvalidatedProbeID g)"
    using assms(2) by (simp_all add: numbered_def)
  have cur: "probeID (snd (issued tr ! i)) = unvalidatedProbeID g" "unvalidatedProbeBusy g"
    using assms(3,5) by (auto simp: networkPermitCurrent_def)
  have "Suc i = length (issued tr)"
  proof (rule ccontr)
    assume "Suc i \<noteq> length (issued tr)"
    then have j: "Suc i < length (issued tr)" using assms(4) by simp
    then have "unat (probeID (snd (issued tr ! i))) < unat (probeID (snd (issued tr ! Suc i)))"
      using sorted_wrt_nth_less [OF inv(1), of i "Suc i"] by simp
    moreover have "unat (probeID (snd (issued tr ! Suc i))) \<le> unat (unvalidatedProbeID g)" using inv(2) j by simp
    ultimately show False using cur(1) by simp
  qed
  then show ?thesis using cur(2) by simp
qed

theorem one_probe_in_force_witness:
  "let (tr, g, _) = traceRun gateStep [HostSays 0 False, AsksToDial 1 True,
         GivesBack \<lparr>unvalidatedProbe = True, probeID = 2\<rparr>, AsksToDial 70000000000 True] (networkAvailability, newBook)
   in length (issued tr) = 2 \<and> networkPermitCurrent 70000000001 (snd (issued tr ! 1)) g \<and> unvalidatedProbeBusy g \<and>
      \<not> networkPermitCurrent 70000000001 (snd (issued tr ! 0)) g"
proof -
  let ?run = "traceRun gateStep [HostSays 0 False, AsksToDial 1 True,
    GivesBack \<lparr>unvalidatedProbe = True, probeID = 2\<rparr>, AsksToDial 70000000000 True] (networkAvailability, newBook)"
  obtain tr g b where r: "?run = (tr, g, b)" by (metis prod_cases3)
  have f: "length (issued (fst ?run)) = 2 \<and> \<not> networkAvailableLocked 70000000001 (fst (snd ?run)) \<and>
      networkPermitCurrent 70000000001 (snd (issued (fst ?run) ! 1)) (fst (snd ?run))" by code_simp
  then have l: "length (issued tr) = 2" "\<not> networkAvailableLocked 70000000001 g"
    "networkPermitCurrent 70000000001 (snd (issued tr ! 1)) g" unfolding r by simp_all
  have one: "Suc i = 2 \<and> unvalidatedProbeBusy g" if "i < 2" "networkPermitCurrent 70000000001 (snd (issued tr ! i)) g" for i
    using one_probe_in_force [OF r _ l(2), of i] that l(1) by simp
  have "networkPermitCurrent 70000000001 (snd (issued tr ! 0)) g \<longrightarrow> False" using one [of 0] by auto
  moreover have "unvalidatedProbeBusy g" using one [of 1] l(3) by simp
  ultimately show ?thesis using l unfolding r Let_def prod.case by blast
qed

section \<open>A minute between probes\<close>

text \<open>As long as nothing is heard of the network, the probes are a minute apart and the clock a minute past the last.\<close>

definition paced :: "(gateCall \<times> networkPermit option) list \<Rightarrow> netGate \<times> allocationBook \<Rightarrow> bool" where
  "paced tr s \<longleftrightarrow> sorted_wrt (\<lambda>t u. t + minute \<le> u) (map fst (issued tr)) \<and>
    (\<forall>t \<in> set (map fst (issued tr)). 0 \<le> t \<and> t + minute \<le> nextUnvalidatedProbe (fst s))"

text \<open>A call that leaves the probes alone issues one when its clock is unset or has come, and sets it a minute on.\<close>

lemma gateStep_probe:
  assumes "gateStep c (g, b) = (q, g', b')" "leavesProbes c"
  shows "(q = None \<longrightarrow> nextUnvalidatedProbe g' = nextUnvalidatedProbe g) \<and>
    (q \<noteq> None \<longrightarrow> nextUnvalidatedProbe g' = callTime c + minute \<and>
      (is_zero (nextUnvalidatedProbe g) \<or> nextUnvalidatedProbe g \<le> callTime c))"
proof (cases c)
  case (AsksToDial now allow)
  then show ?thesis using assms
    by (auto simp: waitForNetworkPermit_def Let_def plainPermit_def unvalidatedProbeInterval_def split: if_splits)
qed (use assms in \<open>auto simp: noteNetworkLeft_def releaseNetworkPermit_def Let_def split: if_splits\<close>)

lemma paced_step:
  assumes "paced tr s" "leavesProbes c \<and> 0 \<le> callTime c" "gateStep c s = (q, s')"
  shows "paced (tr @ [(c, q)]) s'"
proof -
  obtain g b g' b' where s: "s = (g, b)" "s' = (g', b')" by (metis prod.exhaust)
  note p = gateStep_probe [OF assms(3) [unfolded s] conjunct1 [OF assms(2)]]
  show ?thesis
  proof (cases q)
    case None
    with p assms(1) show ?thesis by (simp add: paced_def s)
  next
    case (Some x)
    have before: "t + minute \<le> callTime c" if "t \<in> set (map fst (issued tr))" for t
    proof -
      have "0 \<le> t" "t + minute \<le> nextUnvalidatedProbe g" using assms(1) that by (auto simp: paced_def s)
      moreover from this have "\<not> is_zero (nextUnvalidatedProbe g)" by (auto simp: go_consts zero_time_def)
      ultimately show ?thesis using p Some by auto
    qed
    moreover have "0 \<le> minute" by (simp add: go_consts)
    ultimately show ?thesis using p Some assms(1,2) by (fastforce simp: paced_def s sorted_wrt_append)
  qed
qed

interpretation pacing: traced gateStep paced "\<lambda>c. leavesProbes c \<and> 0 \<le> callTime c"
  by unfold_locales (rule paced_step)

text \<open>
  As long as nothing new is heard of the network, the probes let through the closed gate are a minute or more
  apart, whoever asks, gives back or is voided in between.
\<close>

theorem probes_are_a_minute_apart:
  assumes "traceRun gateStep cs s = (tr, s')" "\<forall>c \<in> set cs. leavesProbes c \<and> 0 \<le> callTime c"
    and "i < j" "j < length (issued tr)"
  shows "fst (issued tr ! i) + minute \<le> fst (issued tr ! j)"
proof -
  have "paced [] s" by (simp add: paced_def)
  from pacing.run_establishes [OF assms(1) this assms(2)]
  have "sorted_wrt (\<lambda>t u. t + minute \<le> u) (map fst (issued tr))" by (simp add: paced_def)
  from sorted_wrt_nth_less [OF this, of i j] assms(3,4) show ?thesis by simp
qed

theorem probes_are_a_minute_apart_witness:
  "let (tr, _) = traceRun gateStep [AsksToDial 1 True, GivesBack \<lparr>unvalidatedProbe = True, probeID = 2\<rparr>,
         AsksToDial 2 True, AsksToDial 70000000000 True] (fst (setNetworkAvailable 0 False (networkAvailability, newBook)), newBook)
   in length (issued tr) = 2 \<and> fst (issued tr ! 0) + minute \<le> fst (issued tr ! 1)"
proof -
  let ?run = "traceRun gateStep [AsksToDial 1 True, GivesBack \<lparr>unvalidatedProbe = True, probeID = 2\<rparr>,
    AsksToDial 2 True, AsksToDial 70000000000 True] (fst (setNetworkAvailable 0 False (networkAvailability, newBook)), newBook)"
  obtain tr s' where r: "?run = (tr, s')" by (metis prod.exhaust)
  have "length (issued (fst ?run)) = 2" by code_simp
  then have l: "length (issued tr) = 2" unfolding r fst_conv .
  have "fst (issued tr ! 0) + minute \<le> fst (issued tr ! 1)"
    using probes_are_a_minute_apart [OF r, of 0 1] l by simp
  then show ?thesis using l unfolding r Let_def prod.case by blast
qed

end
