(* ===== verification/Feedback.thy ===== *)
theory Feedback
  imports Dispatch
begin

text \<open>
  What the client tells the server of the streams it hears (\<open>pkg/proxy/feedback_wire.go\<close>,
  \<open>downlink_feedback.go\<close>): the packets of WGH1, the control of a stream and the reporter. What only the
  log reads of the reporter is left out.
\<close>

section \<open>The packets\<close>

definition feedbackHello :: byte where "feedbackHello = 1"
definition feedbackAck :: byte where "feedbackAck = 2"
definition feedbackReport :: byte where "feedbackReport = 3"
definition feedbackReportSize :: nat where "feedbackReportSize = 64"

lemmas feedback_consts [go_consts] = feedbackHello_def feedbackAck_def feedbackReport_def feedbackReportSize_def

text \<open>256 bits in 32 bytes.\<close>

type_synonym feedbackMask = "byte list"

definition noMask :: feedbackMask where
  "noMask = replicate 32 0"

definition maskContains :: "feedbackMask \<Rightarrow> byte \<Rightarrow> bool" where
  "maskContains m i = bit (m ! (unat i div 8)) (unat i mod 8)"

definition maskAdd :: "byte \<Rightarrow> feedbackMask \<Rightarrow> feedbackMask" where
  "maskAdd i m = m[unat i div 8 := or (m ! (unat i div 8)) (push_bit (unat i mod 8) 1)]"

text \<open>\<open>21 12 a4 42\<close> and \<open>WGH1\<close>; a copy into a slice from an offset on.\<close>

definition feedbackMagic :: "byte list" where
  "feedbackMagic = [0x21, 0x12, 0xa4, 0x42, 0x57, 0x47, 0x48, 0x31]"

definition copyAt :: "nat \<Rightarrow> 'a list \<Rightarrow> 'a list \<Rightarrow> 'a list" where
  "copyAt i xs b = take i b @ xs @ drop (i + length xs) b"

definition feedbackHeader :: "byte \<Rightarrow> byte list \<Rightarrow> byte list" where
  "feedbackHeader kind nonce =
    (let b = replicate 20 0; b = b[1 := 0x11]; b = copyAt 4 feedbackMagic b; b = b[12 := kind]
     in copyAt 13 nonce b)"

definition isFeedbackPacket :: "byte list \<Rightarrow> bool" where
  "isFeedbackPacket b \<longleftrightarrow> length b \<ge> 20 \<and> b ! 0 = 0 \<and> b ! 1 = 0x11 \<and> slice 4 12 b = feedbackMagic"

definition feedbackPacket :: "byte \<Rightarrow> byte list \<Rightarrow> 64 word \<Rightarrow> feedbackMask \<Rightarrow> byte list" where
  "feedbackPacket kind nonce sq msk =
    (let b = feedbackHeader kind nonce
     in if kind = feedbackReport then
          let b = b @ replicate (feedbackReportSize - 20) 0;
              b = copyAt 2 (putBE 2 44) b;
              b = copyAt 20 (putBE 2 0xc001) b;
              b = copyAt 22 (putBE 2 40) b;
              b = copyAt 24 (putBE 8 (unat sq)) b
          in copyAt 32 msk b
        else b)"

text \<open>the kind, the nonce, the sequence, the mask, and whether the packet is one.\<close>

definition parseFeedback :: "byte list \<Rightarrow> byte \<times> byte list \<times> 64 word \<times> feedbackMask \<times> bool" where
  "parseFeedback b =
    (if \<not> isFeedbackPacket b then (0, replicate 7 0, 0, noMask, False)
     else
       let kind = b ! 12; nonce = slice 13 20 b
       in if kind = feedbackHello \<or> kind = feedbackAck then
            (kind, nonce, 0, noMask, length b = 20 \<and> b ! 2 = 0 \<and> b ! 3 = 0)
          else if kind = feedbackReport then
            let ok = (length b = feedbackReportSize \<and> beNat (slice 2 4 b) = 44 \<and>
                      beNat (slice 20 22 b) = 0xc001 \<and> beNat (slice 22 24 b) = 40)
            in if ok then (kind, nonce, of_nat (beNat (slice 24 32 b)), slice 32 64 b, True)
               else (kind, nonce, 0, noMask, False)
          else (kind, nonce, 0, noMask, False))"

section \<open>The control of a stream\<close>

record streamControl =
  ctlNonce :: "byte list"
  capable :: bool

text \<open>\<open>nonce\<close>: what the random source gives, if it gives anything.\<close>

definition newFeedbackControl :: "bool \<Rightarrow> nat \<Rightarrow> byte list option \<Rightarrow> streamControl option" where
  "newFeedbackControl feedbackEnabled sessionIDLen nonce =
    (if feedbackEnabled \<and> sessionIDLen = 16
     then map_option (\<lambda>n. \<lparr>ctlNonce = n, capable = False\<rparr>) nonce else None)"

definition stunBindingIndication :: "byte list" where
  "stunBindingIndication = [0, 0x11, 0, 0, 0x21, 0x12, 0xa4, 0x42] @ replicate 12 0"

definition controlKeepalive :: "streamControl option \<Rightarrow> byte list" where
  "controlKeepalive c = (case c of None \<Rightarrow> stunBindingIndication | Some c \<Rightarrow> feedbackHeader feedbackHello (ctlNonce c))"

text \<open>Is the packet taken as control, and the control after it.\<close>

definition controlReceive :: "byte list \<Rightarrow> streamControl option \<Rightarrow> bool \<times> streamControl option" where
  "controlReceive b c =
    (if \<not> isFeedbackPacket b then (False, c)
     else
       let (kind, nonce, _, _, ok) = parseFeedback b
       in (True, map_option (\<lambda>c. if ok \<and> kind = feedbackAck \<and> nonce = ctlNonce c then c\<lparr>capable := True\<rparr> else c) c))"

definition enqueueControl :: "byte list \<Rightarrow> dstream \<Rightarrow> bool \<times> dstream" where
  "enqueueControl b st =
    (let (ok, st) = enqueuePriority b st in if ok then (True, st) else enqueueOrdinary b st)"

section \<open>The reporter\<close>

type_synonym fstream = "dstream \<times> streamControl option"

record reporter =
  repSeq :: "64 word"
  repLast :: feedbackMask
  repGrid :: int
  repSent :: bool
  repeatAt :: gtime

definition newReporter :: reporter where
  "newReporter = \<lparr>repSeq = 0, repLast = noMask, repGrid = 0, repSent = False, repeatAt = zero_time\<rparr>"

definition hearsServer :: "gtime \<Rightarrow> dstream \<Rightarrow> bool" where
  "hearsServer now st \<longleftrightarrow> 0 \<le> strId st \<and> strId st < 256 \<and> \<not> dispatchStale st now"

fun heardMask :: "gtime \<Rightarrow> fstream list \<Rightarrow> feedbackMask \<Rightarrow> feedbackMask" where
  "heardMask now [] m = m"
| "heardMask now ((st, _) # ss) m =
    heardMask now ss (if strReady st \<and> hearsServer now st then maskAdd (of_int (strId st)) m else m)"

text \<open>May the stream carry the report in this pass?\<close>

definition carries :: "nat \<Rightarrow> feedbackMask \<Rightarrow> fstream \<Rightarrow> bool" where
  "carries pass msk s \<longleftrightarrow>
    strReady (fst s) \<and> (case snd s of None \<Rightarrow> False | Some c \<Rightarrow> capable c) \<and> \<not> (pass = 0 \<and> sendStalled (fst s)) \<and>
    \<not> (msk \<noteq> noMask \<and> (strId (fst s) < 0 \<or> strId (fst s) > 255 \<or> \<not> maskContains msk (of_int (strId (fst s)))))"

definition reportFor :: "64 word \<Rightarrow> feedbackMask \<Rightarrow> fstream \<Rightarrow> byte list" where
  "reportFor sq msk s = (case snd s of None \<Rightarrow> [] | Some c \<Rightarrow> feedbackPacket feedbackReport (ctlNonce c) sq msk)"

fun reportPass :: "nat \<Rightarrow> 64 word \<Rightarrow> feedbackMask \<Rightarrow> fstream list \<Rightarrow> nat \<Rightarrow> nat \<times> fstream list" where
  "reportPass pass sq msk [] sent = (sent, [])"
| "reportPass pass sq msk (s # ss) sent =
    (if \<not> carries pass msk s then let (n, ss) = reportPass pass sq msk ss sent in (n, s # ss)
     else
       let (ok, st) = enqueueControl (reportFor sq msk s) (fst s);
           sent = (if ok then sent + 1 else sent)
       in if sent = 2 then (sent, (st, snd s) # ss)
          else let (n, ss) = reportPass pass sq msk ss sent in (n, (st, snd s) # ss))"

definition sendReports :: "64 word \<Rightarrow> feedbackMask \<Rightarrow> fstream list \<Rightarrow> nat \<times> fstream list" where
  "sendReports sq msk ss =
    (let (n, ss) = reportPass 0 sq msk ss 0 in if n = 0 then reportPass 1 sq msk ss 0 else (n, ss))"

definition reportUpdate :: "fstream list \<Rightarrow> gtime \<Rightarrow> reporter \<Rightarrow> fstream list \<times> reporter" where
  "reportUpdate ss now r =
    (let msk = heardMask now ss noMask;
         grid = truncateTime now keepaliveInterval;
         changed = (\<not> repSent r \<or> msk \<noteq> repLast r);
         repeats = (\<not> is_zero (repeatAt r) \<and> \<not> now < repeatAt r)
     in if \<not> changed \<and> \<not> repeats \<and> grid = repGrid r then (ss, r)
        else
          let r = r\<lparr>repSeq := repSeq r + 1\<rparr>; (n, ss) = sendReports (repSeq r) msk ss
          in if n = 0 then (ss, r)
             else (ss, r\<lparr>repSent := True, repLast := msk, repGrid := grid,
                         repeatAt := (if changed then now + second else zero_time)\<rparr>))"

end
