(* ===== verification/FeedbackProps.thy ===== *)
theory FeedbackProps
  imports Feedback
begin

text \<open>
  What the feedback promises: its packets read back, and only they do; a report names exactly the streams that
  are heard, and goes to the server over streams that can carry it, if there is one.
\<close>

section \<open>Packets\<close>

lemma copyAt_prefix: "length xs = i \<Longrightarrow> copyAt i ys (xs @ zs) = xs @ ys @ drop (length ys) zs"
  by (simp add: copyAt_def)

lemma feedbackHeader_eq:
  assumes "length nonce = 7"
  shows "feedbackHeader kind nonce = [0, 0x11, 0, 0] @ feedbackMagic @ [kind] @ nonce"
proof -
  have "(copyAt 4 feedbackMagic ((replicate 20 0)[1 := 0x11]))[12 := kind] =
      ([0, 0x11, 0, 0] @ feedbackMagic @ [kind]) @ replicate 7 0"
    by (simp add: copyAt_def feedbackMagic_def eval_nat_numeral)
  moreover have "length ([0, 0x11, 0, 0] @ feedbackMagic @ [kind]) = 13" by (simp add: feedbackMagic_def)
  ultimately show ?thesis
    using assms copyAt_prefix [of "[0, 0x11, 0, 0] @ feedbackMagic @ [kind]" 13 nonce "replicate 7 0"]
    by (simp add: feedbackHeader_def Let_def)
qed

definition reportHead :: "byte list" where
  "reportHead = [0xc0, 0x01, 0, 40]"

lemma putBE_sizes: "putBE 2 44 = [0, 44]" "putBE 2 0xc001 = [0xc0, 0x01]" "putBE 2 40 = [0, 40]"
  by code_simp+

lemma feedbackReport_eq:
  assumes "length nonce = 7" "length m = 32"
  shows "feedbackPacket feedbackReport nonce sq m =
    [0, 0x11, 0, 44] @ feedbackMagic @ [feedbackReport] @ nonce @ reportHead @ putBE 8 (unat sq) @ m"
proof -
  let ?h = "[0, 0x11, 0, 44] @ feedbackMagic @ [feedbackReport] @ nonce"
  have l: "length ?h = 20" using assms(1) by (simp add: feedbackMagic_def)
  have a: "copyAt 2 [0, 44] (feedbackHeader feedbackReport nonce @ replicate 44 0) = ?h @ replicate 44 0"
    using assms(1) by (simp add: feedbackHeader_eq copyAt_def)
  have r: "replicate 44 (0 :: byte) = [0, 0] @ [0, 0] @ replicate 8 0 @ replicate 32 0"
    by (simp add: eval_nat_numeral)
  have b: "copyAt 20 [0xc0, 0x01] (?h @ replicate 44 0) = (?h @ [0xc0, 0x01]) @ [0, 0] @ replicate 8 0 @ replicate 32 0"
    unfolding r using copyAt_prefix [OF l] by simp
  have c: "copyAt 22 [0, 40] ((?h @ [0xc0, 0x01]) @ [0, 0] @ replicate 8 0 @ replicate 32 0)
      = (?h @ reportHead) @ replicate 8 0 @ replicate 32 0"
    using copyAt_prefix [of "?h @ [0xc0, 0x01]" 22] l by (simp add: reportHead_def)
  have d: "copyAt 24 (putBE 8 (unat sq)) ((?h @ reportHead) @ replicate 8 0 @ replicate 32 0)
      = (?h @ reportHead @ putBE 8 (unat sq)) @ replicate 32 0"
    using copyAt_prefix [of "?h @ reportHead" 24] l by (simp add: reportHead_def)
  have e: "copyAt 32 m ((?h @ reportHead @ putBE 8 (unat sq)) @ replicate 32 0) = (?h @ reportHead @ putBE 8 (unat sq)) @ m"
    using copyAt_prefix [of "?h @ reportHead @ putBE 8 (unat sq)" 32 m "replicate 32 0"] l assms(2)
    by (simp add: reportHead_def)
  have s: "feedbackReportSize - 20 = 44" by (simp add: feedbackReportSize_def)
  show ?thesis
    unfolding feedbackPacket_def Let_def if_P [OF refl] s putBE_sizes a b c d e by simp
qed

lemma feedbackPacket_short:
  "\<lbrakk>length nonce = 7; kind \<noteq> feedbackReport\<rbrakk> \<Longrightarrow>
    feedbackPacket kind nonce sq m = [0, 0x11, 0, 0] @ feedbackMagic @ [kind] @ nonce"
  by (simp add: feedbackPacket_def feedbackHeader_eq)

lemma drop_slice: "i \<le> j \<Longrightarrow> drop i xs = slice i j xs @ drop j xs"
  by (simp add: slice_def) (metis add.commute append_take_drop_id drop_drop le_add_diff_inverse2)

text \<open>A packet of the kind, cut at the offsets the reader looks at.\<close>

lemma feedback_parts:
  assumes "isFeedbackPacket b"
  shows "b = [0, 0x11, b ! 2, b ! 3] @ feedbackMagic @ [b ! 12] @ slice 13 20 b @ drop 20 b" "length (slice 13 20 b) = 7"
proof -
  have l: "20 \<le> length b" and h: "b ! 0 = 0" "b ! 1 = 0x11" "slice 4 12 b = feedbackMagic"
    using assms by (simp_all add: isFeedbackPacket_def)
  have t: "take 4 b = [b ! 0, b ! 1, b ! 2, b ! 3]"
  proof (rule nth_equalityI)
    fix i assume "i < length (take 4 b)"
    then consider "i = 0" | "i = 1" | "i = 2" | "i = 3" using l by fastforce
    then show "take 4 b ! i = [b ! 0, b ! 1, b ! 2, b ! 3] ! i" by cases (simp_all add: eval_nat_numeral)
  qed (use l in simp)
  have "b = take 4 b @ drop 4 b" by simp
  also have "drop 4 b = slice 4 12 b @ drop 12 b" by (rule drop_slice) simp
  also have "drop 12 b = [b ! 12] @ drop 13 b" using l Cons_nth_drop_Suc [of 12 b] by simp
  also have "drop 13 b = slice 13 20 b @ drop 20 b" by (rule drop_slice) simp
  finally show "b = [0, 0x11, b ! 2, b ! 3] @ feedbackMagic @ [b ! 12] @ slice 13 20 b @ drop 20 b"
    unfolding t h .
  show "length (slice 13 20 b) = 7" using l by (simp add: slice_def)
qed

lemma report_parts:
  assumes "length b = 64"
  shows "drop 20 b = slice 20 22 b @ slice 22 24 b @ slice 24 32 b @ slice 32 64 b"
    "length (slice 20 22 b) = 2" "length (slice 22 24 b) = 2" "length (slice 24 32 b) = 8" "length (slice 32 64 b) = 32"
proof -
  have "drop 20 b = slice 20 22 b @ drop 22 b" by (rule drop_slice) simp
  also have "drop 22 b = slice 22 24 b @ drop 24 b" by (rule drop_slice) simp
  also have "drop 24 b = slice 24 32 b @ drop 32 b" by (rule drop_slice) simp
  also have "drop 32 b = slice 32 64 b @ drop 64 b" by (rule drop_slice) simp
  finally show "drop 20 b = slice 20 22 b @ slice 22 24 b @ slice 24 32 b @ slice 32 64 b" using assms by simp
qed (use assms in \<open>simp_all add: slice_def\<close>)

text \<open>What the reader makes of a packet laid out in these parts.\<close>

lemma parse_layout:
  assumes "b = [0, 0x11, x, y] @ feedbackMagic @ [kind] @ nonce @ rest" "length nonce = 7"
  shows "isFeedbackPacket b" "b ! 2 = x" "b ! 3 = y" "b ! 12 = kind" "slice 13 20 b = nonce" "drop 20 b = rest"
    "slice 2 4 b = [x, y]" "length b = 20 + length rest"
proof -
  show "isFeedbackPacket b" unfolding isFeedbackPacket_def using assms slice_append2 [of "[0, 0x11, x, y]" 4 feedbackMagic]
    by (simp add: feedbackMagic_def)
  show "b ! 2 = x" "b ! 3 = y" "b ! 12 = kind" "length b = 20 + length rest" "slice 2 4 b = [x, y]" "drop 20 b = rest"
    unfolding assms(1) using assms(2) by (simp_all add: feedbackMagic_def slice_def)
  show "slice 13 20 b = nonce"
    using slice_append2 [of "[0, 0x11, x, y] @ feedbackMagic @ [kind]" 13 nonce rest] assms by (simp add: feedbackMagic_def)
qed

lemma slice_drop: "slice (i + k) (j + k) b = slice i j (drop k b)"
  by (simp add: slice_def add.commute)

lemma parse_report:
  assumes "length nonce = 7" "length m = 32"
  shows "parseFeedback (feedbackPacket feedbackReport nonce sq m) = (feedbackReport, nonce, sq, m, True)"
proof -
  let ?b = "feedbackPacket feedbackReport nonce sq m"
  have e: "?b = [0, 0x11, 0, 44] @ feedbackMagic @ [feedbackReport] @ nonce @ reportHead @ putBE 8 (unat sq) @ m"
    by (rule feedbackReport_eq [OF assms])
  note p = parse_layout [OF e assms(1)]
  have s: "slice 20 22 ?b = [0xc0, 0x01]" "slice 22 24 ?b = [0, 40]" "slice 24 32 ?b = putBE 8 (unat sq)" "slice 32 64 ?b = m"
    using slice_drop [of 0 20 2 ?b] slice_drop [of 2 20 4 ?b] slice_drop [of 4 20 12 ?b] slice_drop [of 12 20 44 ?b]
      slice_append2 [of reportHead 4 "putBE 8 (unat sq)" m] slice_append2 [of "reportHead @ putBE 8 (unat sq)" 12 m "[]"] assms(2)
    by (simp_all add: p(6) reportHead_def slice_def)
  have n: "beNat [0, 44] = 44" "beNat [0xc0, 0x01] = 0xc001" "beNat [0, 40] = 40" by code_simp+
  have q: "beNat (putBE 8 (unat sq)) = unat sq"
  proof -
    have "unat sq < 2 ^ LENGTH(64)" by (rule unsigned_less)
    then show ?thesis by (simp add: beNat_putBE)
  qed
  have k: "feedbackReport \<noteq> feedbackHello" "feedbackReport \<noteq> feedbackAck" by (simp_all add: go_consts)
  have l: "length ?b = feedbackReportSize" using p(8) assms(2) by (simp add: reportHead_def feedbackReportSize_def)
  show ?thesis unfolding parseFeedback_def Let_def p(4,5,7) s n q l using p(1) k by simp
qed

lemma parse_short:
  assumes "length nonce = 7" "kind = feedbackHello \<or> kind = feedbackAck"
  shows "parseFeedback (feedbackPacket kind nonce sq m) = (kind, nonce, 0, noMask, True)"
proof -
  let ?b = "feedbackPacket kind nonce sq m"
  have "kind \<noteq> feedbackReport" using assms(2) by (auto simp: go_consts)
  then have e: "?b = [0, 0x11, 0, 0] @ feedbackMagic @ [kind] @ nonce @ []"
    using feedbackPacket_short [OF assms(1)] by simp
  note p = parse_layout [OF e assms(1)]
  show ?thesis unfolding parseFeedback_def Let_def p(2-5,8) using p(1) assms(2) by simp
qed

text \<open>A packet the reader accepts is the one of what it read.\<close>

lemma accepted_is_packet:
  assumes "parseFeedback b = (kind, nonce, sq, m, True)"
  shows "kind \<in> {feedbackHello, feedbackAck, feedbackReport} \<and> length nonce = 7 \<and> length m = 32 \<and>
    (kind = feedbackReport \<or> sq = 0 \<and> m = noMask) \<and> b = feedbackPacket kind nonce sq m"
proof -
  have f: "isFeedbackPacket b" using assms by (auto simp: parseFeedback_def split: if_splits)
  note p = feedback_parts [OF f]
  have kn: "kind = b ! 12" "nonce = slice 13 20 b" using assms f by (auto simp: parseFeedback_def Let_def split: if_splits)
  show ?thesis
  proof (cases "b ! 12 = feedbackReport")
    case True
    have k: "feedbackReport \<noteq> feedbackHello" "feedbackReport \<noteq> feedbackAck" by (simp_all add: go_consts)
    have r: "length b = 64" "beNat (slice 2 4 b) = 44" "beNat (slice 20 22 b) = 0xc001" "beNat (slice 22 24 b) = 40"
      "sq = of_nat (beNat (slice 24 32 b))" "m = slice 32 64 b"
      using assms f True k by (auto simp: parseFeedback_def Let_def feedbackReportSize_def split: if_splits)
    note q = report_parts [OF r(1)]
    have "slice 2 4 b = [b ! 2, b ! 3]" using parse_layout(7) [OF p(1,2)] .
    then have a: "[b ! 2, b ! 3] = [0, 44]" using putBE_beNat [of "slice 2 4 b" 2] r(2) putBE_sizes(1) by simp
    have h: "slice 20 22 b @ slice 22 24 b = reportHead"
      using putBE_beNat [OF q(2)] putBE_beNat [OF q(3)] r(3,4) putBE_sizes by (simp add: reportHead_def)
    have "unat sq = beNat (slice 24 32 b)" using beNat_bound [of "slice 24 32 b"] q(4) by (simp add: r(5) unat_of_nat)
    then have s: "putBE 8 (unat sq) = slice 24 32 b" using putBE_beNat [OF q(4)] by simp
    have "b = [0, 0x11] @ [b ! 2, b ! 3] @ feedbackMagic @ [feedbackReport] @ nonce @ (slice 20 22 b @ slice 22 24 b) @ putBE 8 (unat sq) @ m"
      using p(1) q(1) True kn r(6) s by simp
    then have "b = feedbackPacket feedbackReport nonce sq m"
      unfolding a h using feedbackReport_eq [of nonce m sq] p(2) kn(2) q(5) r(6) by simp
    then show ?thesis using True kn p(2) q(5) r(6) by simp
  next
    case False
    have r: "b ! 12 = feedbackHello \<or> b ! 12 = feedbackAck" "length b = 20" "b ! 2 = 0" "b ! 3 = 0" "sq = 0" "m = noMask"
      using assms f False by (auto simp: parseFeedback_def Let_def split: if_splits)
    have "b = feedbackPacket kind nonce sq m"
      using p r(2-4) kn feedbackPacket_short [of nonce kind sq m] False by simp
    then show ?thesis using r kn p(2) by (auto simp: noMask_def)
  qed
qed

text \<open>
  The packets of the feedback are exactly those their reader accepts: it reads back the kind, nonce, sequence and mask
  they were made of, and a packet cut, padded or changed in a length or in the attribute is none.
\<close>

theorem feedback_reads_back:
  "parseFeedback b = (kind, nonce, sq, m, True) \<longleftrightarrow>
    kind \<in> {feedbackHello, feedbackAck, feedbackReport} \<and> length nonce = 7 \<and> length m = 32 \<and>
    (kind = feedbackReport \<or> sq = 0 \<and> m = noMask) \<and> b = feedbackPacket kind nonce sq m"
proof
  assume "parseFeedback b = (kind, nonce, sq, m, True)"
  then show "kind \<in> {feedbackHello, feedbackAck, feedbackReport} \<and> length nonce = 7 \<and> length m = 32 \<and>
    (kind = feedbackReport \<or> sq = 0 \<and> m = noMask) \<and> b = feedbackPacket kind nonce sq m"
    by (rule accepted_is_packet)
next
  assume "kind \<in> {feedbackHello, feedbackAck, feedbackReport} \<and> length nonce = 7 \<and> length m = 32 \<and>
    (kind = feedbackReport \<or> sq = 0 \<and> m = noMask) \<and> b = feedbackPacket kind nonce sq m"
  then show "parseFeedback b = (kind, nonce, sq, m, True)"
    using parse_report [of nonce m sq] parse_short [of nonce kind sq m] by (cases "kind = feedbackReport") auto
qed


section \<open>Reports\<close>

text \<open>A mask holds the streams added to it.\<close>

lemma maskAdd_length [simp]: "length (maskAdd i m) = length m"
  by (simp add: maskAdd_def)

lemma maskContains_add:
  assumes "length m = 32"
  shows "maskContains (maskAdd i m) j \<longleftrightarrow> i = j \<or> maskContains m j"
proof -
  have u: "unat i < 256" "unat j < 256" by (rule unat_byte_lt)+
  then have d: "unat i div 8 < 32" "unat j div 8 < 32" by auto
  have b: "bit (push_bit k (1 :: byte)) n \<longleftrightarrow> n = k" if "n < 8" "k < 8" for n k
    using that by (auto simp: bit_exp_iff possible_bit_word)
  have m: "unat j mod 8 < 8" "unat i mod 8 < 8" by simp_all
  show ?thesis
  proof (cases "unat i div 8 = unat j div 8")
    case True
    have "i = j \<longleftrightarrow> unat i mod 8 = unat j mod 8"
    proof
      assume "unat i mod 8 = unat j mod 8"
      then have "unat i = unat j" using True by (metis div_mult_mod_eq)
      then show "i = j" by (simp add: unsigned_word_eqI)
    qed simp
    then show ?thesis using True b [OF m] d assms by (auto simp: maskContains_def maskAdd_def bit_or_iff)
  next
    case False
    then show ?thesis using d assms by (auto simp: maskContains_def maskAdd_def)
  qed
qed

lemma noMask_contains [simp]: "\<not> maskContains noMask i"
proof -
  have "unat i div 8 < 32" using unat_byte_lt [of i] by auto
  then show ?thesis by (simp add: maskContains_def noMask_def)
qed

lemma heardMask_contains:
  "length m = 32 \<Longrightarrow> maskContains (heardMask now ss m) i \<longleftrightarrow>
    maskContains m i \<or> (\<exists>s \<in> set ss. strReady (fst s) \<and> hearsServer now (fst s) \<and> of_int (strId (fst s)) = i)"
  by (induction now ss m rule: heardMask.induct) (auto simp: maskContains_add)

text \<open>A stream is left as it is, or has the packet at the end of a queue.\<close>

definition carried :: "byte list \<Rightarrow> dstream \<Rightarrow> dstream \<Rightarrow> bool" where
  "carried pkt st st' \<longleftrightarrow> st' = st\<lparr>priorityQueue := priorityQueue st @ [pkt]\<rparr> \<or> st' = st\<lparr>inQueue := inQueue st @ [pkt]\<rparr>"

definition reportRoom :: "dstream \<Rightarrow> bool" where
  "reportRoom st \<longleftrightarrow> strOverTCP st \<and> length (priorityQueue st) < tcpPriorityQueueSize \<or> length (inQueue st) < streamQueueSize"

lemma enqueueControl_cases:
  assumes "enqueueControl b st = (ok, st')"
  shows "ok \<longleftrightarrow> reportRoom st" "ok \<Longrightarrow> carried b st st'" "\<not> ok \<Longrightarrow> st' = st"
  using assms
  by (auto simp: enqueueControl_def enqueuePriority_def enqueueOrdinary_def reportRoom_def carried_def split: if_splits)

text \<open>The streams after a pass: those that got the report could carry it, and at most two of all did.\<close>

definition reported :: "nat \<Rightarrow> 64 word \<Rightarrow> feedbackMask \<Rightarrow> fstream \<Rightarrow> fstream \<Rightarrow> bool" where
  "reported pass sq msk s s' \<longleftrightarrow> snd s' = snd s \<and> carries pass msk s \<and> carried (reportFor sq msk s) (fst s) (fst s')"

lemma reportPass_spec:
  assumes "reportPass pass sq msk ss k = (n, ss')" "k < 2"
  shows "list_all2 (\<lambda>s s'. s' = s \<or> reported pass sq msk s s') ss ss' \<and> k \<le> n \<and> n \<le> 2 \<and>
    k + length (filter (\<lambda>(s, s'). s' \<noteq> s) (zip ss ss')) \<le> n \<and>
    (n = k \<longrightarrow> (\<forall>s \<in> set ss. carries pass msk s \<longrightarrow> \<not> reportRoom (fst s)))"
  using assms
proof (induction ss arbitrary: k n ss')
  case (Cons s ss)
  have same: "list_all2 (\<lambda>s s'. s' = s \<or> reported pass sq msk s s') xs xs"
    "filter (\<lambda>(s, s'). s' \<noteq> s) (zip xs xs) = []" for xs :: "fstream list"
    by (simp_all add: list_all2_same zip_same_conv_map filter_empty_conv)
  show ?case
  proof (cases "carries pass msk s")
    case False
    obtain m us where r: "reportPass pass sq msk ss k = (m, us)" by fastforce
    have e: "n = m" "ss' = s # us" using Cons.prems(1) False r by auto
    show ?thesis using Cons.IH [OF r Cons.prems(2)] False unfolding e by auto
  next
    case True
    obtain ok st where e: "enqueueControl (reportFor sq msk s) (fst s) = (ok, st)" by fastforce
    note c = enqueueControl_cases [OF e]
    have head: "(st, snd s) = s \<or> reported pass sq msk s (st, snd s)" "ok \<or> (st, snd s) = s"
      using c True by (cases ok; cases s; simp add: reported_def)+
    let ?k = "if ok then k + 1 else k"
    show ?thesis
    proof (cases "?k = 2")
      case stop: True
      then have "n = 2" "ss' = (st, snd s) # ss" using Cons.prems(1) True e by auto
      then show ?thesis using head stop Cons.prems(2) same by (auto split: if_splits)
    next
      case False
      obtain m us where r: "reportPass pass sq msk ss ?k = (m, us)" by fastforce
      have e': "n = m" "ss' = (st, snd s) # us" using Cons.prems(1) True False e r by (auto simp: Let_def)
      have "?k < 2" using False Cons.prems(2) by (auto split: if_splits)
      note ih = Cons.IH [OF r this]
      show ?thesis
      proof (cases ok)
        case True
        then have "list_all2 (\<lambda>s s'. s' = s \<or> reported pass sq msk s s') ss us" "k + 1 \<le> m" "m \<le> 2"
          "k + 1 + length (filter (\<lambda>(s, s'). s' \<noteq> s) (zip ss us)) \<le> m" using ih by simp_all
        then show ?thesis unfolding e' using head(1) by simp
      next
        case False
        then have "(st, snd s) = s" "\<not> reportRoom (fst s)" using head(2) c(1) by simp_all
        then show ?thesis unfolding e' using ih False by simp
      qed
    qed
  qed
qed simp

definition reportDue :: "reporter \<Rightarrow> feedbackMask \<Rightarrow> gtime \<Rightarrow> bool" where
  "reportDue r msk now \<longleftrightarrow> \<not> repSent r \<or> msk \<noteq> repLast r \<or> (\<not> is_zero (repeatAt r) \<and> \<not> now < repeatAt r) \<or>
    truncateTime now keepaliveInterval \<noteq> repGrid r"

definition unchanged :: "fstream \<times> fstream \<Rightarrow> bool" where
  "unchanged p \<longleftrightarrow> snd p = fst p"

lemma carries_last: "carries pass msk s \<Longrightarrow> carries 1 msk s"
  by (auto simp: carries_def)

lemma reported_last: "reported pass sq msk s s' \<Longrightarrow> reported 1 sq msk s s'"
  using carries_last [of pass msk s] by (simp only: reported_def simp_thms)

lemma all_unchanged: "list_all2 P xs ys \<Longrightarrow> filter (\<lambda>p. \<not> unchanged p) (zip xs ys) = [] \<Longrightarrow> ys = xs"
  by (induction rule: list_all2_induct) (auto simp: unchanged_def split: if_splits)

lemma unchanged_filter: "filter (\<lambda>(s, s'). s' \<noteq> s) ps = filter (\<lambda>p. \<not> unchanged p) ps"
  by (rule filter_cong) (auto simp: unchanged_def)

lemma reported_changes: "reported pass sq msk s s' \<Longrightarrow> s' \<noteq> s"
proof
  assume "reported pass sq msk s s'" "s' = s"
  then have "carried (reportFor sq msk s) (fst s) (fst s)" by (simp add: reported_def)
  then show False unfolding carried_def
    by (metis (no_types, lifting) dstream.select_convs(6,7) dstream.surjective dstream.update_convs(6,7) not_Cons_self2 append_self_conv)
qed

text \<open>Two passes: the stalled streams only when none of the others has room.\<close>

lemma sendReports_spec:
  assumes "sendReports sq msk ss = (n, ss')"
  shows "list_all2 (\<lambda>s s'. s' = s \<or> reported 1 sq msk s s') ss ss'" "n \<le> 2"
    "length (filter (\<lambda>p. \<not> unchanged p) (zip ss ss')) \<le> n"
    "n = 0 \<Longrightarrow> \<forall>s \<in> set ss. carries 1 msk s \<longrightarrow> \<not> reportRoom (fst s)"
    "list_all2 (\<lambda>s s'. s' = s \<or> reported 0 sq msk s s') ss ss' \<or> (\<forall>s \<in> set ss. carries 0 msk s \<longrightarrow> \<not> reportRoom (fst s))"
proof -
  obtain m us where r: "reportPass 0 sq msk ss 0 = (m, us)" by fastforce
  note s0 = reportPass_spec [OF r]
  have all: "list_all2 (\<lambda>s s'. s' = s \<or> reported 1 sq msk s s') ss ss' \<and> n \<le> 2 \<and>
      length (filter (\<lambda>p. \<not> unchanged p) (zip ss ss')) \<le> n \<and>
      (n = 0 \<longrightarrow> (\<forall>s \<in> set ss. carries 1 msk s \<longrightarrow> \<not> reportRoom (fst s))) \<and>
      (list_all2 (\<lambda>s s'. s' = s \<or> reported 0 sq msk s s') ss ss' \<or> (\<forall>s \<in> set ss. carries 0 msk s \<longrightarrow> \<not> reportRoom (fst s)))"
  proof (cases "m = 0")
    case True
    have "us = ss" by (rule all_unchanged) (use s0 True in \<open>auto simp: unchanged_filter\<close>)
    then have "reportPass 1 sq msk ss 0 = (n, ss')" using assms r True by (simp add: sendReports_def)
    from reportPass_spec [OF this] s0 True show ?thesis by (simp add: unchanged_filter)
  next
    case False
    then have e: "n = m" "ss' = us" using assms r by (auto simp: sendReports_def)
    have l: "list_all2 (\<lambda>s s'. s' = s \<or> reported 0 sq msk s s') ss ss'" "m \<le> 2"
      "length (filter (\<lambda>p. \<not> unchanged p) (zip ss ss')) \<le> m"
      using s0 e by (simp_all add: unchanged_filter)
    have "list_all2 (\<lambda>s s'. s' = s \<or> reported 1 sq msk s s') ss ss'"
      by (rule list.rel_mono_strong [OF l(1)]) (use reported_last in blast)
    then show ?thesis using l False e(1) by simp
  qed
  then show "list_all2 (\<lambda>s s'. s' = s \<or> reported 1 sq msk s s') ss ss'" "n \<le> 2"
    "length (filter (\<lambda>p. \<not> unchanged p) (zip ss ss')) \<le> n"
    "n = 0 \<Longrightarrow> \<forall>s \<in> set ss. carries 1 msk s \<longrightarrow> \<not> reportRoom (fst s)"
    "list_all2 (\<lambda>s s'. s' = s \<or> reported 0 sq msk s s') ss ss' \<or> (\<forall>s \<in> set ss. carries 0 msk s \<longrightarrow> \<not> reportRoom (fst s))"
    by blast+
qed

text \<open>
  A report tells the server which streams hear it: the mask names exactly the ready streams that are not silent, a
  report goes over one or two streams that are ready, have been acknowledged and are named in it (any, when none is), over
  one whose socket is stalled only when no other has room; and when one is due and some such stream has
  room, the server is told.
\<close>

theorem reports_tell_what_is_heard:
  assumes "reportUpdate ss now r = (ss', r')"
  shows "(maskContains (heardMask now ss noMask) i \<longleftrightarrow>
      (\<exists>s \<in> set ss. strReady (fst s) \<and> hearsServer now (fst s) \<and> of_int (strId (fst s)) = i)) \<and>
    list_all2 (\<lambda>s s'. s' = s \<or> reported 1 (repSeq r') (heardMask now ss noMask) s s') ss ss' \<and>
    length (filter (\<lambda>p. \<not> unchanged p) (zip ss ss')) \<le> 2 \<and>
    (list_all2 (\<lambda>s s'. s' = s \<or> reported 0 (repSeq r') (heardMask now ss noMask) s s') ss ss' \<or>
      (\<forall>s \<in> set ss. carries 0 (heardMask now ss noMask) s \<longrightarrow> \<not> reportRoom (fst s))) \<and>
    (reportDue r (heardMask now ss noMask) now \<and> (\<exists>s \<in> set ss. carries 1 (heardMask now ss noMask) s \<and> reportRoom (fst s)) \<longrightarrow>
      repSent r' \<and> repLast r' = heardMask now ss noMask \<and> repSeq r' = repSeq r + 1)"
proof -
  let ?m = "heardMask now ss noMask"
  have c: "maskContains ?m i \<longleftrightarrow> (\<exists>s \<in> set ss. strReady (fst s) \<and> hearsServer now (fst s) \<and> of_int (strId (fst s)) = i)"
    by (simp add: heardMask_contains noMask_def [THEN arg_cong [where f = length], simplified])
  show ?thesis
  proof (cases "reportDue r ?m now")
    case False
    then have "ss' = ss" using assms by (auto simp: reportUpdate_def reportDue_def Let_def)
    then show ?thesis using False c by (simp add: list_all2_same zip_same_conv_map unchanged_def filter_empty_conv)
  next
    case True
    obtain n us where s: "sendReports (repSeq r + 1) ?m ss = (n, us)" by fastforce
    note sp = sendReports_spec [OF s]
    have e: "ss' = us" "repSeq r' = repSeq r + 1" "n \<noteq> 0 \<Longrightarrow> repSent r' \<and> repLast r' = ?m"
      using assms True s by (auto simp: reportUpdate_def reportDue_def Let_def split: if_splits)
    show ?thesis unfolding e(1,2) using c sp e(3) by (cases "n = 0") auto
  qed
qed

text \<open>Two acknowledged streams, of which the second has been silent for a minute.\<close>

definition feedbackStream :: "int \<Rightarrow> gtime \<Rightarrow> fstream" where
  "feedbackStream i heard = (\<lparr>strId = i, strReady = True, strActivity = Some (nat i, newStreamActivity heard 0),
     strOverTCP = False, sendStalled = False, inQueue = [], priorityQueue = []\<rparr>,
     Some \<lparr>ctlNonce = replicate 7 1, capable = True\<rparr>)"

theorem reports_tell_what_is_heard_witness:
  "let ss = [feedbackStream 0 (100 * second), feedbackStream 1 (40 * second)];
       (ss', r') = reportUpdate ss (100 * second) newReporter
   in repSent r' \<and> repSeq r' = 1 \<and> maskContains (repLast r') 0 \<and> \<not> maskContains (repLast r') 1 \<and>
      length (filter (\<lambda>p. \<not> unchanged p) (zip ss ss')) \<le> 2"
proof -
  let ?ss = "[feedbackStream 0 (100 * second), feedbackStream 1 (40 * second)]"
  let ?m = "heardMask (100 * second) ?ss noMask"
  obtain ss' r' where u: "reportUpdate ?ss (100 * second) newReporter = (ss', r')" by fastforce
  have "carries 1 ?m (?ss ! 0) \<and> reportRoom (fst (?ss ! 0))" by code_simp
  then have ex: "\<exists>s \<in> set ?ss. carries 1 ?m s \<and> reportRoom (fst s)" by auto
  have m: "maskContains ?m 0 \<and> \<not> maskContains ?m 1" by code_simp
  have due: "reportDue newReporter ?m (100 * second)" by (simp add: reportDue_def newReporter_def)
  have l: "length (filter (\<lambda>p. \<not> unchanged p) (zip ?ss ss')) \<le> 2" and
    t: "repSent r' \<and> repLast r' = ?m \<and> repSeq r' = repSeq newReporter + 1"
    using reports_tell_what_is_heard [OF u, of 0] ex due by blast+
  have "repSeq newReporter = 0" by (simp add: newReporter_def)
  with l t m show ?thesis unfolding Let_def u prod.case by simp
qed

end
