(* ===== verification/SilentLoad.thy ===== *)
theory SilentLoad
  imports Dispatch DarkPath RelayLoss
begin

text \<open>
  The judge of silence under load (\<open>pkg/proxy/silent_under_load.go\<close>): a stream that hears nothing for four seconds
  while two of its siblings are served is convicted before the age rule does it. A turn of the judge is one
  step; its scratch and its rows hold nothing for a stream without a session (the code never reads the cells of
  one). The loop that takes a turn at the tick, or on a packet while idle, is not modelled.
\<close>

definition silentUnderLoadAfter :: duration where "silentUnderLoadAfter = 4 * second"
definition silentUnderLoadEcho :: duration where "silentUnderLoadEcho = 2 * second"
definition silentUnderLoadPackets :: "64 word" where "silentUnderLoadPackets = 3 * of_nat relayLossChunk"
definition silentUnderLoadWitnesses :: nat where "silentUnderLoadWitnesses = 2"
definition silentUnderLoadTick :: duration where "silentUnderLoadTick = 500 * millisecond"

lemmas silent_consts [go_consts] = silentUnderLoadAfter_def silentUnderLoadEcho_def silentUnderLoadPackets_def
  silentUnderLoadWitnesses_def silentUnderLoadTick_def

text \<open>A stream in a turn: its session, when it last heard its relay, and the packets heard in the session.\<close>

type_synonym heardView = "(nat \<times> int \<times> 64 word) option"

definition viewOf :: "dstream \<Rightarrow> heardView" where
  "viewOf st =
    (if \<not> strReady st then None else map_option (\<lambda>(n, a). (n, lastHeard a, streamActivity.rxCount a)) (strActivity st))"

type_synonym countView = "(nat \<times> 64 word) option"

definition countOf :: "heardView \<Rightarrow> countView" where
  "countOf v = map_option (\<lambda>(n, h, c). (n, c)) v"

text \<open>The row of a stream: the session and packet its silence is counted from, and what every sibling had heard then.\<close>

record silentRow =
  rowAct :: "nat option"
  rowHeard :: int
  rowSeen :: "countView list"

record silentJudge =
  judgeSize :: nat
  lastTurn :: gtime
  silentRows :: "silentRow list"
  idle :: bool
  basedAt :: gtime
  baseCounts :: "countView list"
  priorCounts :: "countView list"
  frozeGap :: gtime

definition newSilentUnderLoadJudge :: "nat \<Rightarrow> silentJudge" where
  "newSilentUnderLoadJudge n = \<lparr>judgeSize = n, lastTurn = zero_time,
     silentRows = replicate n \<lparr>rowAct = None, rowHeard = 0, rowSeen = replicate n None\<rparr>,
     idle = False, basedAt = zero_time, baseCounts = replicate n None, priorCounts = replicate n None,
     frozeGap = zero_time\<rparr>"

definition reporterFroze :: "reporterClock option \<Rightarrow> gtime \<Rightarrow> silentJudge \<Rightarrow> bool \<times> silentJudge" where
  "reporterFroze clock now j = (case clock of
     None \<Rightarrow> (False, j)
   | Some c \<Rightarrow>
       if froze c > lastTurn j \<and> gapBefore c \<noteq> frozeGap j then (True, j\<lparr>frozeGap := gapBefore c\<rparr>)
       else if tsub now (turn c) > second + silentUnderLoadFreeze \<and> turn c \<noteq> frozeGap j then (True, j\<lparr>frozeGap := turn c\<rparr>)
       else (False, j))"

text \<open>Packets heard since a count was taken: all of them, in a session begun since.\<close>

definition heardSince :: "countView \<Rightarrow> nat \<Rightarrow> 64 word \<Rightarrow> 64 word" where
  "heardSince was n c = (case was of None \<Rightarrow> c | Some (m, d) \<Rightarrow> if m = n then c - d else c)"

definition atRest :: "heardView list \<Rightarrow> countView list \<Rightarrow> bool" where
  "atRest vs prior \<longleftrightarrow> list_all2 (\<lambda>v p. case v of None \<Rightarrow> True
     | Some (n, h, c) \<Rightarrow> heardSince p n c < silentUnderLoadPackets) vs prior"

definition quiet :: "gtime \<Rightarrow> heardView list \<Rightarrow> silentJudge \<Rightarrow> bool \<times> silentJudge" where
  "quiet now vs j =
    (let j = (if is_zero (basedAt j) \<or> tsub now (basedAt j) \<ge> dispatchStaleAfter then
                let base = (if is_zero (basedAt j) then map countOf vs else baseCounts j)
                in j\<lparr>priorCounts := base, baseCounts := map countOf vs, basedAt := now\<rparr>
              else j)
     in (atRest vs (priorCounts j), j))"

record silentVerdict =
  vIndex :: nat
  vSilent :: duration
  vWitnesses :: "nat list"   \<comment> \<open>indices of the judged streams\<close>
  vPackets :: int

text \<open>A sibling that has been served since the row was taken: its index and packets.\<close>

definition witnessOf :: "gtime \<Rightarrow> nat \<Rightarrow> silentRow \<Rightarrow> nat \<Rightarrow> heardView \<Rightarrow> (nat \<times> 64 word) option" where
  "witnessOf now i row k v = (case v of
     None \<Rightarrow> None
   | Some (n, h, c) \<Rightarrow>
       if k = i \<or> tsub now h > silentUnderLoadEcho then None
       else let since = heardSince (rowSeen row ! k) n c
         in if since < silentUnderLoadPackets then None else Some (k, since))"

definition witnesses :: "gtime \<Rightarrow> nat \<Rightarrow> silentRow \<Rightarrow> heardView list \<Rightarrow> (nat \<times> 64 word) list" where
  "witnesses now i row vs = List.map_filter (\<lambda>(k, v). witnessOf now i row k v) (List.enumerate 0 vs)"

text \<open>One stream of a turn: a verdict, or its return after \<open>d\<close> of a silence it was convicted of, and its row.\<close>

datatype silentWord = NoWord | Convicts silentVerdict | Returned duration

definition judgeStream ::
  "bool \<Rightarrow> gtime \<Rightarrow> heardView list \<Rightarrow> nat \<Rightarrow> streamActivity option \<Rightarrow> silentRow \<Rightarrow> silentWord \<times> silentRow" where
  "judgeStream frozen now vs i act row = (case (vs ! i, act) of
     (Some (n, h, c), Some a) \<Rightarrow>
       if frozen \<or> rowAct row \<noteq> Some n \<or> rowHeard row \<noteq> h then
         (if rowAct row = Some n \<and> rowHeard row \<noteq> h \<and> silentMark a = rowHeard row then Returned (h - rowHeard row) else NoWord,
          \<lparr>rowAct = Some n, rowHeard = h, rowSeen = map countOf vs\<rparr>)
       else if frozeSinceHeard a \<or> silentMark a = h then (NoWord, row)
       else
         let silent = tsub now h
         in if silent < silentUnderLoadAfter \<or> silent > dispatchStaleAfter then (NoWord, row)
            else
              let ws = witnesses now i row vs
              in if length ws < silentUnderLoadWitnesses then (NoWord, row)
                 else (Convicts \<lparr>vIndex = i, vSilent = silent, vWitnesses = map fst ws,
                         vPackets = sum_list (map (uint \<circ> snd) ws)\<rparr>, row)
   | _ \<Rightarrow> (NoWord, row\<lparr>rowAct := None\<rparr>))"

text \<open>The mark of a verdict on the session of the stream.\<close>

definition markStream :: "silentWord \<Rightarrow> dstream \<Rightarrow> dstream" where
  "markStream w st = (case w of
     Convicts v \<Rightarrow> st\<lparr>strActivity := map_option (\<lambda>(n, a). (n, markSilentUnderLoad (lastHeard a) a)) (strActivity st)\<rparr>
   | _ \<Rightarrow> st)"

definition turnFroze :: "reporterClock option \<Rightarrow> gtime \<Rightarrow> silentJudge \<Rightarrow> bool \<times> silentJudge" where
  "turnFroze clock now j =
    (if is_zero (lastTurn j) then (False, j)
     else if idle j then reporterFroze clock now j
     else (tsub now (lastTurn j) > silentUnderLoadTick + silentUnderLoadFreeze, j))"

definition judgeTurn ::
  "reporterClock option \<Rightarrow> dstream list \<Rightarrow> gtime \<Rightarrow> silentJudge \<Rightarrow> (silentWord list \<times> dstream list) \<times> silentJudge" where
  "judgeTurn clock sts now j =
    (let (frozen, j) = turnFroze clock now j;
         j = j\<lparr>lastTurn := now\<rparr>;
         vs = map viewOf sts;
         (rest, j) = quiet now vs j;
         j = j\<lparr>idle := rest\<rparr>;
         out = map2 (\<lambda>i row. judgeStream frozen now vs i (map_option snd (strActivity (sts ! i))) row)
                 [0 ..< length sts] (silentRows j)
     in ((map fst out, map2 markStream (map fst out) sts), j\<lparr>silentRows := map snd out\<rparr>))"

end
