(* ===== verification/SilentLoadProps.thy ===== *)
theory SilentLoadProps
  imports SilentLoad Traces
begin

text \<open>
  What the judge of silence under load promises: a conviction rests on two siblings served since the stream's last
  packet, and the turns it does without while the tunnel is at rest would have convicted nobody.
\<close>

section \<open>The turns so far\<close>

type_synonym turnInput = "reporterClock option \<times> dstream list \<times> gtime"

definition turnTime :: "turnInput list \<Rightarrow> nat \<Rightarrow> gtime" where
  "turnTime ins t = snd (snd (ins ! t))"

definition turnViews :: "turnInput list \<Rightarrow> nat \<Rightarrow> heardView list" where
  "turnViews ins t = map viewOf (fst (snd (ins ! t)))"

definition silentStep :: "turnInput \<Rightarrow> silentJudge \<Rightarrow> (silentWord list \<times> dstream list) \<times> silentJudge" where
  "silentStep x j = judgeTurn (fst x) (fst (snd x)) (snd (snd x)) j"

text \<open>
  What the judge may count on: the turns come one after another, over the same streams, none of which has heard
  its relay in the future; a session is up without a break, and its packets are only ever counted up.
\<close>

definition orderly :: "nat \<Rightarrow> turnInput list \<Rightarrow> bool" where
  "orderly n ins \<longleftrightarrow>
    (\<forall>t < length ins. length (turnViews ins t) = n \<and> zero_time < turnTime ins t) \<and>
    (\<forall>t < length ins. \<forall>k < n. \<forall>m h c. turnViews ins t ! k = Some (m, h, c) \<longrightarrow> h \<le> turnTime ins t) \<and>
    (\<forall>s t. s < t \<and> t < length ins \<longrightarrow> turnTime ins s < turnTime ins t) \<and>
    (\<forall>s u t. s \<le> u \<and> u \<le> t \<and> t < length ins \<longrightarrow> (\<forall>k < n. \<forall>m h c h' c'.
      turnViews ins s ! k = Some (m, h, c) \<and> turnViews ins t ! k = Some (m, h', c') \<longrightarrow>
      (\<exists>g d. turnViews ins u ! k = Some (m, g, d) \<and> c \<le> d \<and> d \<le> c')))"

lemma turn_append:
  "t < length ins \<Longrightarrow> turnTime (ins @ xs) t = turnTime ins t"
  "t < length ins \<Longrightarrow> turnViews (ins @ xs) t = turnViews ins t"
  "turnTime (ins @ [x]) (length ins) = snd (snd x)"
  "turnViews (ins @ [x]) (length ins) = map viewOf (fst (snd x))"
  by (simp_all add: turnTime_def turnViews_def nth_append)

lemma orderlyD:
  assumes "orderly n ins"
  shows "t < length ins \<Longrightarrow> length (turnViews ins t) = n \<and> zero_time < turnTime ins t"
    and "\<lbrakk>t < length ins; k < n; turnViews ins t ! k = Some (m, h, c)\<rbrakk> \<Longrightarrow> h \<le> turnTime ins t"
    and "\<lbrakk>s < t; t < length ins\<rbrakk> \<Longrightarrow> turnTime ins s < turnTime ins t"
    and "\<lbrakk>s \<le> u; u \<le> t; t < length ins; k < n; turnViews ins s ! k = Some (m, h, c); turnViews ins t ! k = Some (m, h', c')\<rbrakk>
      \<Longrightarrow> \<exists>g d. turnViews ins u ! k = Some (m, g, d) \<and> c \<le> d \<and> d \<le> c'"
proof -
  note o = assms [unfolded orderly_def]
  show "t < length ins \<Longrightarrow> length (turnViews ins t) = n \<and> zero_time < turnTime ins t"
    using o [THEN conjunct1] by simp
  show "\<lbrakk>t < length ins; k < n; turnViews ins t ! k = Some (m, h, c)\<rbrakk> \<Longrightarrow> h \<le> turnTime ins t"
    by (rule o [THEN conjunct2, THEN conjunct1, rule_format])
  show "\<lbrakk>s < t; t < length ins\<rbrakk> \<Longrightarrow> turnTime ins s < turnTime ins t"
    using o [THEN conjunct2, THEN conjunct2, THEN conjunct1] by simp
  show "\<lbrakk>s \<le> u; u \<le> t; t < length ins; k < n; turnViews ins s ! k = Some (m, h, c); turnViews ins t ! k = Some (m, h', c')\<rbrakk>
      \<Longrightarrow> \<exists>g d. turnViews ins u ! k = Some (m, g, d) \<and> c \<le> d \<and> d \<le> c'"
    using o [THEN conjunct2, THEN conjunct2, THEN conjunct2, rule_format, of s u t k m h c h' c'] by simp
qed

lemma orderly_butlast:
  assumes "orderly n (ins @ [x])"
  shows "orderly n ins"
proof -
  note o = orderlyD [OF assms]
  show ?thesis unfolding orderly_def
  proof (intro conjI allI impI)
    fix s u t k m h c h' c'
    assume t: "s \<le> u \<and> u \<le> t \<and> t < length ins" "k < n"
      and v: "turnViews ins s ! k = Some (m, h, c) \<and> turnViews ins t ! k = Some (m, h', c')"
    show "\<exists>g d. turnViews ins u ! k = Some (m, g, d) \<and> c \<le> d \<and> d \<le> c'"
      using o(4) [of s u t k m h c h' c'] t v by (simp add: turn_append)
  next
    fix t k m h c
    assume "t < length ins" "k < n" "turnViews ins t ! k = Some (m, h, c)"
    then show "h \<le> turnTime ins t" using o(2) [of t k m h c] by (simp add: turn_append)
  next
    fix s t
    assume "s < t \<and> t < length ins"
    then show "turnTime ins s < turnTime ins t" using o(3) [of s t] by (simp add: turn_append)
  next
    fix t
    assume "t < length ins"
    then show "length (turnViews ins t) = n" "zero_time < turnTime ins t" using o(1) [of t] by (simp_all add: turn_append)
  qed
qed

section \<open>What the judge holds\<close>

text \<open>
  Its counts are those of two turns, the earlier the first of all or the age rule older than the later; and a row
  is that of a turn in which its stream was seen with the packet it is silent since.
\<close>

definition countsOf :: "turnInput list \<Rightarrow> nat \<Rightarrow> countView list" where
  "countsOf ins t = map countOf (turnViews ins t)"

definition basesInv :: "turnInput list \<Rightarrow> silentJudge \<Rightarrow> bool" where
  "basesInv ins j \<longleftrightarrow> (if ins = [] then is_zero (basedAt j) else
    \<exists>p b. p \<le> b \<and> b < length ins \<and> basedAt j = turnTime ins b \<and> baseCounts j = countsOf ins b \<and>
      priorCounts j = countsOf ins p \<and> (p = 0 \<or> turnTime ins p + dispatchStaleAfter \<le> turnTime ins b))"

lemma basesInv_cong:
  "\<lbrakk>basesInv ins j; basedAt j' = basedAt j; baseCounts j' = baseCounts j; priorCounts j' = priorCounts j\<rbrakk> \<Longrightarrow> basesInv ins j'"
  unfolding basesInv_def by (simp only:)

lemma basesInvI:
  assumes "p \<le> b \<and> b < length ins \<and> basedAt j = turnTime ins b \<and> baseCounts j = countsOf ins b \<and>
      priorCounts j = countsOf ins p \<and> (p = 0 \<or> turnTime ins p + dispatchStaleAfter \<le> turnTime ins b)"
  shows "basesInv ins j"
proof -
  have "ins \<noteq> []" using assms by auto
  then show ?thesis unfolding basesInv_def using assms by (simp only: if_False) blast
qed

definition rowInv :: "turnInput list \<Rightarrow> nat \<Rightarrow> silentRow \<Rightarrow> bool" where
  "rowInv ins i row \<longleftrightarrow> (\<forall>m. rowAct row = Some m \<longrightarrow>
    (\<exists>r < length ins. \<exists>c. turnViews ins r ! i = Some (m, rowHeard row, c) \<and> rowSeen row = countsOf ins r))"

definition rowsInv :: "nat \<Rightarrow> turnInput list \<Rightarrow> silentJudge \<Rightarrow> bool" where
  "rowsInv n ins j \<longleftrightarrow> length (silentRows j) = n \<and> (\<forall>i < n. rowInv ins i (silentRows j ! i))"

lemma rowInv_append: "rowInv ins i row \<Longrightarrow> rowInv (ins @ [x]) i row"
  unfolding rowInv_def countsOf_def by (metis turn_append(2) less_SucI length_append_singleton)

text \<open>The turn's taking of counts.\<close>

lemma quiet_bases:
  assumes "basesInv ins j" "orderly n (ins @ [x])" "quiet (snd (snd x)) (map viewOf (fst (snd x))) j = (b, j')"
  shows "basesInv (ins @ [x]) j' \<and> silentRows j' = silentRows j \<and> b = atRest (map viewOf (fst (snd x))) (priorCounts j')"
proof -
  let ?now = "snd (snd x)" and ?vs = "map viewOf (fst (snd x))"
  have now: "countsOf (ins @ [x]) (length ins) = map countOf ?vs" "turnTime (ins @ [x]) (length ins) = ?now"
    by (simp_all add: countsOf_def turn_append)
  show ?thesis
  proof (cases "ins = []")
    case True
    then have z: "is_zero (basedAt j)" using assms(1) by (simp add: basesInv_def)
    then have "j' = j\<lparr>priorCounts := map countOf ?vs, baseCounts := map countOf ?vs, basedAt := ?now\<rparr>"
      "b = atRest ?vs (priorCounts j')"
      using assms(3) by (auto simp: quiet_def Let_def)
    then show ?thesis using True now by (auto simp: basesInv_def)
  next
    case False
    then obtain p q where p: "p \<le> q" "q < length ins" "basedAt j = turnTime ins q" "baseCounts j = countsOf ins q"
        "priorCounts j = countsOf ins p" "p = 0 \<or> turnTime ins p + dispatchStaleAfter \<le> turnTime ins q"
      using assms(1) by (auto simp: basesInv_def)
    have e: "countsOf (ins @ [x]) q = countsOf ins q" "countsOf (ins @ [x]) p = countsOf ins p"
      "turnTime (ins @ [x]) q = turnTime ins q" "turnTime (ins @ [x]) p = turnTime ins p"
      using p(1,2) by (simp_all add: countsOf_def turn_append)
    have z: "\<not> is_zero (basedAt j)" using assms(2) p(2,3) e(3) unfolding orderly_def
      by (metis less_SucI length_append_singleton less_irrefl)
    show ?thesis
    proof (cases "tsub ?now (basedAt j) \<ge> dispatchStaleAfter")
      case True
      then have j': "j' = j\<lparr>priorCounts := baseCounts j, baseCounts := map countOf ?vs, basedAt := ?now\<rparr>"
        "b = atRest ?vs (priorCounts j')"
        using assms(3) z by (auto simp: quiet_def Let_def)
      have "turnTime ins q + dispatchStaleAfter \<le> ?now" using True p(3) by (simp add: go_consts)
      then have "q \<le> length ins \<and> length ins < length (ins @ [x]) \<and> basedAt j' = turnTime (ins @ [x]) (length ins) \<and>
          baseCounts j' = countsOf (ins @ [x]) (length ins) \<and> priorCounts j' = countsOf (ins @ [x]) q \<and>
          (q = 0 \<or> turnTime (ins @ [x]) q + dispatchStaleAfter \<le> turnTime (ins @ [x]) (length ins))"
        using j' p(2,4) e(1,3) now by simp
      then have "basesInv (ins @ [x]) j'" by (rule basesInvI)
      then show ?thesis using j' by simp
    next
      case old: False
      then have j': "j' = j" "b = atRest ?vs (priorCounts j')"
        using assms(3) z by (auto simp: quiet_def Let_def)
      have "p \<le> q \<and> q < length (ins @ [x]) \<and> basedAt j = turnTime (ins @ [x]) q \<and>
          baseCounts j = countsOf (ins @ [x]) q \<and> priorCounts j = countsOf (ins @ [x]) p \<and>
          (p = 0 \<or> turnTime (ins @ [x]) p + dispatchStaleAfter \<le> turnTime (ins @ [x]) q)"
        using p e by simp
      then have "basesInv (ins @ [x]) j" by (rule basesInvI)
      then show ?thesis using j' by simp
    qed
  qed
qed

section \<open>A turn\<close>

lemma viewOf_act: "viewOf st = Some (n, h, c) \<Longrightarrow> \<exists>a. strActivity st = Some (n, a) \<and> lastHeard a = h"
  by (cases "strReady st"; cases "strActivity st") (auto simp: viewOf_def)

text \<open>A turn, stream by stream.\<close>

lemma judgeTurn_cells:
  assumes "judgeTurn clock sts now j = ((ws, sts'), j')" "length (silentRows j) = length sts"
  obtains frozen j1 j2 where
    "quiet now (map viewOf sts) j1 = (idle j', j2)" "basedAt j1 = basedAt j" "baseCounts j1 = baseCounts j"
    "priorCounts j1 = priorCounts j" "basedAt j' = basedAt j2" "baseCounts j' = baseCounts j2" "priorCounts j' = priorCounts j2"
    "length (silentRows j') = length sts" "length ws = length sts" "length sts' = length sts"
    "\<And>i. i < length sts \<Longrightarrow> judgeStream frozen now (map viewOf sts) i (map_option snd (strActivity (sts ! i))) (silentRows j ! i)
       = (ws ! i, silentRows j' ! i)"
    "\<And>i. i < length sts \<Longrightarrow> sts' ! i = markStream (ws ! i) (sts ! i)"
proof -
  obtain frozen j0 where f: "turnFroze clock now j = (frozen, j0)" by (metis prod.exhaust)
  have f0: "basedAt j0 = basedAt j" "baseCounts j0 = baseCounts j" "priorCounts j0 = priorCounts j" "silentRows j0 = silentRows j"
    using f by (auto simp: turnFroze_def reporterFroze_def split: if_splits option.splits)
  let ?j1 = "j0\<lparr>lastTurn := now\<rparr>"
  obtain rest j2 where q: "quiet now (map viewOf sts) ?j1 = (rest, j2)" by (metis prod.exhaust)
  have q0: "silentRows j2 = silentRows j" using q f0(4) by (auto simp: quiet_def Let_def split: if_splits)
  define out where "out = map2 (\<lambda>i row. judgeStream frozen now (map viewOf sts) i (map_option snd (strActivity (sts ! i))) row)
    [0 ..< length sts] (silentRows j)"
  have o: "ws = map fst out" "sts' = map2 markStream (map fst out) sts" "j' = j2\<lparr>idle := rest, silentRows := map snd out\<rparr>"
  proof -
    have "judgeTurn clock sts now j = ((map fst out, map2 markStream (map fst out) sts), j2\<lparr>idle := rest, silentRows := map snd out\<rparr>)"
      by (simp add: judgeTurn_def f q q0 Let_def out_def)
    then show "ws = map fst out" "sts' = map2 markStream (map fst out) sts" "j' = j2\<lparr>idle := rest, silentRows := map snd out\<rparr>"
      using assms(1) by simp_all
  qed
  have l: "length out = length sts" using assms(2) by (simp add: out_def)
  show thesis
  proof (rule that [of ?j1 j2 frozen])
    show "quiet now (map viewOf sts) ?j1 = (idle j', j2)" using q o(3) by simp
    fix i assume i: "i < length sts"
    then have "out ! i = judgeStream frozen now (map viewOf sts) i (map_option snd (strActivity (sts ! i))) (silentRows j ! i)"
      using assms(2) by (simp add: out_def)
    then show "judgeStream frozen now (map viewOf sts) i (map_option snd (strActivity (sts ! i))) (silentRows j ! i)
       = (ws ! i, silentRows j' ! i)" using i l o by simp
    show "sts' ! i = markStream (ws ! i) (sts ! i)" using i l o by simp
  qed (use f0 o l in simp_all)
qed

lemma judgeStream_row:
  assumes "judgeStream frozen (snd (snd x)) (map viewOf (fst (snd x))) i act row = (w, row')" "rowInv ins i row"
  shows "rowInv (ins @ [x]) i row'"
proof -
  let ?vs = "map viewOf (fst (snd x))"
  consider "row' = row" | "rowAct row' = None"
    | n h c where "?vs ! i = Some (n, h, c)" "row' = \<lparr>rowAct = Some n, rowHeard = h, rowSeen = map countOf ?vs\<rparr>"
    using assms(1) by (auto simp: judgeStream_def Let_def split: option.splits if_splits)
  then show ?thesis
  proof cases
    case 1
    then show ?thesis using rowInv_append assms(2) by simp
  next
    case 2
    then show ?thesis by (simp add: rowInv_def)
  next
    case (3 n h c)
    have "turnViews (ins @ [x]) (length ins) ! i = Some (n, h, c) \<and> map countOf ?vs = countsOf (ins @ [x]) (length ins)"
      using 3(1) by (simp add: turn_append countsOf_def)
    then show ?thesis unfolding rowInv_def 3(2) by (metis length_append_singleton lessI option.inject silentRow.select_convs)
  qed
qed

text \<open>Over any turns, as long as they are orderly.\<close>

definition judging :: "nat \<Rightarrow> (turnInput \<times> silentWord list \<times> dstream list) list \<Rightarrow> silentJudge \<Rightarrow> bool" where
  "judging n tr j \<longleftrightarrow> (orderly n (map fst tr) \<longrightarrow> basesInv (map fst tr) j \<and> rowsInv n (map fst tr) j)"

lemma turn_length: "orderly n (ins @ [x]) \<Longrightarrow> length (fst (snd x)) = n"
  using orderlyD(1) [of n "ins @ [x]" "length ins"] by (simp add: turn_append)

lemma judging_step:
  assumes "judging n tr j" "silentStep x j = (out, j')"
  shows "judging n (tr @ [(x, out)]) j'"
  unfolding judging_def
proof
  assume "orderly n (map fst (tr @ [(x, out)]))"
  then have o: "orderly n (map fst tr @ [x])" by simp
  then have inv: "basesInv (map fst tr) j" "rowsInv n (map fst tr) j"
    using assms(1) orderly_butlast by (auto simp: judging_def)
  have len: "length (fst (snd x)) = n" using o by (rule turn_length)
  obtain ws sts' where out: "out = (ws, sts')" by fastforce
  have rl: "length (silentRows j) = length (fst (snd x))" using inv(2) len by (simp add: rowsInv_def)
  from assms(2) [unfolded silentStep_def out] rl
  show "basesInv (map fst (tr @ [(x, out)])) j' \<and> rowsInv n (map fst (tr @ [(x, out)])) j'"
  proof (rule judgeTurn_cells, goal_cases)
    case (1 frozen j1 j2)
    have "basesInv (map fst tr) j1" using inv(1) 1(2-4) by (rule basesInv_cong)
    then have "basesInv (map fst tr @ [x]) j2" using quiet_bases o 1(1) by blast
    then have "basesInv (map fst tr @ [x]) j'" using 1(5-7) by (rule basesInv_cong)
    moreover have "rowInv (map fst tr @ [x]) i (silentRows j' ! i)" if "i < n" for i
      using judgeStream_row [OF 1(11)] that inv(2) len by (simp add: rowsInv_def)
    ultimately show ?case using 1(8) len by (simp add: rowsInv_def)
  qed
qed

interpretation judged: traced silentStep "judging n" "\<lambda>x. True" for n
  by unfold_locales (rule judging_step)

lemma judging_new: "judging n [] (newSilentUnderLoadJudge n)"
  by (simp add: judging_def basesInv_def rowsInv_def rowInv_def newSilentUnderLoadJudge_def)

section \<open>Who is convicted\<close>

lemma judgeStream_convicts:
  assumes "judgeStream frozen now vs i act row = (Convicts v, row')"
  obtains n h c where "vs ! i = Some (n, h, c)" "rowAct row = Some n" "rowHeard row = h" "row' = row"
    "silentUnderLoadAfter \<le> tsub now h" "tsub now h \<le> dispatchStaleAfter"
    "silentUnderLoadWitnesses \<le> length (witnesses now i row vs)" "vWitnesses v = map fst (witnesses now i row vs)"
  using assms by (auto simp: judgeStream_def Let_def not_less split: option.splits if_splits)

lemma map_filter_fst:
  "(\<And>x q. f x = Some q \<Longrightarrow> fst q = fst x) \<Longrightarrow> map fst (List.map_filter f xs) = map fst (filter (\<lambda>x. f x \<noteq> None) xs)"
  by (induction xs) (auto simp: List.map_filter_def)

lemma witnesses_distinct: "distinct (map fst (witnesses now i row vs))"
proof -
  let ?f = "\<lambda>(k, v). witnessOf now i row k v"
  have "fst q = fst x" if "?f x = Some q" for x q
    using that by (cases x) (auto simp: witnessOf_def Let_def split: option.splits if_splits)
  then have "map fst (witnesses now i row vs) = map fst (filter (\<lambda>x. ?f x \<noteq> None) (List.enumerate 0 vs))"
    unfolding witnesses_def by (rule map_filter_fst)
  then show ?thesis by (simp add: distinct_map_filter distinct_enumerate)
qed

lemma witness_is_served:
  assumes "k \<in> set (map fst (witnesses now i row vs))"
  shows "k < length vs \<and> k \<noteq> i \<and> (\<exists>m h c. vs ! k = Some (m, h, c) \<and> tsub now h \<le> silentUnderLoadEcho \<and>
    silentUnderLoadPackets \<le> heardSince (rowSeen row ! k) m c)"
  using assms
  by (auto simp: witnesses_def map_filter_def in_set_enumerate_eq witnessOf_def Let_def split: option.splits if_splits)

text \<open>What a sibling has heard since a turn is at most what it has heard since one before.\<close>

lemma word_diff_mono:
  fixes c :: "64 word"
  assumes "d \<le> e" "e \<le> c"
  shows "c - e \<le> c - d"
proof -
  have "unat d \<le> unat e" "unat e \<le> unat c" using assms by (simp_all add: word_le_nat_alt)
  then show ?thesis using assms by (simp add: word_le_nat_alt unat_sub)
qed

lemma heardSince_antimono:
  assumes o: "orderly n ins" and t: "p \<le> r" "r < t" "t < length ins" and k: "k < n"
    and v: "turnViews ins t ! k = Some (m, h, c)"
  shows "heardSince (countsOf ins r ! k) m c \<le> heardSince (countsOf ins p ! k) m c"
proof -
  have len: "length (turnViews ins p) = n" "length (turnViews ins r) = n"
    using orderlyD(1) [OF o] t by simp_all
  then have nth: "countsOf ins p ! k = countOf (turnViews ins p ! k)" "countsOf ins r ! k = countOf (turnViews ins r ! k)"
    using k by (simp_all add: countsOf_def)
  have same: "heardSince (countOf w) m c = (case w of Some (l, g, d) \<Rightarrow> if l = m then c - d else c | None \<Rightarrow> c)" for w
    by (auto simp: heardSince_def countOf_def split: option.splits)
  have le: "d \<le> c" if "turnViews ins u ! k = Some (m, g, d)" "u < t" for u g d
    using orderlyD(4) [OF o, of u t t k m g d h c] that t k v by force
  show ?thesis
  proof (cases "\<exists>g d. turnViews ins p ! k = Some (m, g, d)")
    case True
    then obtain g d where p: "turnViews ins p ! k = Some (m, g, d)" by blast
    then obtain g' d' where r: "turnViews ins r ! k = Some (m, g', d')" "d \<le> d'" "d' \<le> c"
      using orderlyD(4) [OF o, of p r t k m g d h c] t k v by auto
    then show ?thesis using p by (simp add: nth same word_diff_mono)
  next
    case False
    then have p: "heardSince (countsOf ins p ! k) m c = c" by (auto simp: nth same split: option.splits)
    have "heardSince (countsOf ins r ! k) m c \<le> c"
    proof (cases "\<exists>g d. turnViews ins r ! k = Some (m, g, d)")
      case True
      then obtain g d where r: "turnViews ins r ! k = Some (m, g, d)" by blast
      then have "d \<le> c" using le t by blast
      then show ?thesis using r word_diff_mono [of 0 d c] by (simp add: nth same)
    qed (auto simp: nth same split: option.splits)
    then show ?thesis using p by simp
  qed
qed

text \<open>A conviction, with the turn its row is of.\<close>

lemma conviction:
  assumes o: "orderly n (ins @ [x])" and run: "traceRun silentStep ins (newSilentUnderLoadJudge n) = (tr, j)"
    and turn: "silentStep x j = ((ws, sts'), j')" and i: "i < n" "ws ! i = Convicts v"
  obtains m h c r c' row where "turnViews (ins @ [x]) (length ins) ! i = Some (m, h, c)"
    "h + silentUnderLoadAfter \<le> snd (snd x)" "snd (snd x) \<le> h + dispatchStaleAfter"
    "r < length ins" "turnViews ins r ! i = Some (m, h, c')" "rowSeen row = countsOf ins r"
    "vWitnesses v = map fst (witnesses (snd (snd x)) i row (turnViews (ins @ [x]) (length ins)))"
    "silentUnderLoadWitnesses \<le> length (vWitnesses v)"
    "basesInv (ins @ [x]) j'" "idle j' = atRest (turnViews (ins @ [x]) (length ins)) (priorCounts j')"
proof -
  have "map fst tr = ins" using traceRun_calls [OF run] .
  then have inv: "basesInv ins j" "rowsInv n ins j"
    using judged.run_establishes [OF run judging_new] orderly_butlast [OF o] by (auto simp: judging_def)
  have len: "length (fst (snd x)) = n" using o by (rule turn_length)
  have rl: "length (silentRows j) = length (fst (snd x))" using inv(2) len by (simp add: rowsInv_def)
  from turn [unfolded silentStep_def] rl show thesis
  proof (rule judgeTurn_cells, goal_cases)
    case (1 frozen j1 j2)
    have "basesInv ins j1" using inv(1) 1(2-4) by (rule basesInv_cong)
    then have q: "basesInv (ins @ [x]) j2" "idle j' = atRest (map viewOf (fst (snd x))) (priorCounts j2)"
      using quiet_bases o 1(1) by blast+
    have b: "basesInv (ins @ [x]) j'" using q(1) 1(5-7) by (rule basesInv_cong)
    have "i < length (fst (snd x))" using i(1) len by simp
    from 1(11) [OF this, unfolded i(2)] show ?case
    proof (rule judgeStream_convicts, goal_cases)
      case (1 m h c)
      obtain r c' where r: "r < length ins" "turnViews ins r ! i = Some (m, h, c')" "rowSeen (silentRows j ! i) = countsOf ins r"
        using inv(2) i(1) 1(2,3) unfolding rowsInv_def rowInv_def by blast
      show ?case
      proof (rule that [OF _ _ _ r])
        show "turnViews (ins @ [x]) (length ins) ! i = Some (m, h, c)" using 1(1) by (simp add: turn_append)
        show "h + silentUnderLoadAfter \<le> snd (snd x)" "snd (snd x) \<le> h + dispatchStaleAfter"
          using 1(5,6) by (simp_all add: go_consts)
        show "idle j' = atRest (turnViews (ins @ [x]) (length ins)) (priorCounts j')"
          using q(2) \<open>priorCounts j' = priorCounts j2\<close> by (simp add: turn_append)
      qed (use 1(7,8) b in \<open>simp_all add: turn_append\<close>)
    qed
  qed
qed

text \<open>Three streams, all heard of at ten seconds; then two of them served and one not, or none.\<close>

definition servedStream :: "int \<Rightarrow> gtime \<Rightarrow> 64 word \<Rightarrow> dstream" where
  "servedStream i h c = \<lparr>strId = i, strReady = True,
     strActivity = Some (nat i, streamActivity.rxCount_update (\<lambda>_. c) (newStreamActivity h 0)),
     strOverTCP = False, sendStalled = False, inQueue = [], priorityQueue = []\<rparr>"

definition sampleStart :: turnInput where
  "sampleStart = (None, map (\<lambda>i. servedStream i (10 * second) 0) [0, 1, 2], 10 * second)"

definition sampleTurn :: "gtime \<Rightarrow> 64 word \<Rightarrow> turnInput" where
  "sampleTurn h c = (None, [servedStream 0 (10 * second) 0, servedStream 1 h c, servedStream 2 h c], 14 * second)"

lemma sample_views:
  "turnViews [sampleStart, sampleTurn h c] 0 = map (\<lambda>i. Some (i, 10 * second, 0)) [0, 1, 2]"
  "turnViews [sampleStart, sampleTurn h c] (Suc 0) = [Some (0, 10 * second, 0), Some (1, h, c), Some (2, h, c)]"
  by (simp_all add: turnViews_def sampleStart_def sampleTurn_def servedStream_def viewOf_def newStreamActivity_def)

lemma sample_orderly:
  assumes "h \<le> 14 * second"
  shows "orderly 3 ([sampleStart] @ [sampleTurn h c])"
proof -
  have t: "turnTime [sampleStart, sampleTurn h c] 0 = 10 * second" "turnTime [sampleStart, sampleTurn h c] (Suc 0) = 14 * second"
    by (simp_all add: turnTime_def sampleStart_def sampleTurn_def)
  have k: "k < 3 \<longleftrightarrow> k = 0 \<or> k = Suc 0 \<or> k = 2" for k :: nat by auto
  show ?thesis unfolding orderly_def
  proof (intro conjI allI impI)
    fix s u t k m g c1 g' c'
    assume "s \<le> u \<and> u \<le> t \<and> t < length ([sampleStart] @ [sampleTurn h c])" "k < 3"
      "turnViews ([sampleStart] @ [sampleTurn h c]) s ! k = Some (m, g, c1) \<and>
       turnViews ([sampleStart] @ [sampleTurn h c]) t ! k = Some (m, g', c')"
    then show "\<exists>g d. turnViews ([sampleStart] @ [sampleTurn h c]) u ! k = Some (m, g, d) \<and> c1 \<le> d \<and> d \<le> c'"
      by (auto simp: k sample_views less_Suc_eq le_Suc_eq)
  qed (use assms in \<open>auto simp: k t sample_views less_Suc_eq go_consts zero_time_def\<close>)
qed

definition sampleJudge :: silentJudge where
  "sampleJudge = (let counts = [Some (0, 0), Some (1, 0), Some (2, 0)] in
     \<lparr>judgeSize = 3, lastTurn = 10 * second,
      silentRows = map (\<lambda>i. \<lparr>rowAct = Some i, rowHeard = 10 * second, rowSeen = counts\<rparr>) [0, 1, 2], idle = True,
      basedAt = 10 * second, baseCounts = counts, priorCounts = counts, frozeGap = zero_time\<rparr>)"

lemma sample_started: "snd (traceRun silentStep [sampleStart] (newSilentUnderLoadJudge 3)) = sampleJudge"
  by code_simp

text \<open>
  C14. A stream is convicted only of a silence of four to thirty-five seconds, and only on the word of two others: since
  a turn that already saw the stream at its last packet, each of them has been served twenty-four packets, the last of
  them within two seconds. The conviction puts the stream out of the rotation.
\<close>

theorem silence_has_witnesses:
  assumes "orderly n (ins @ [x])" "traceRun silentStep ins (newSilentUnderLoadJudge n) = (tr, j)"
    and "silentStep x j = ((ws, sts'), j')" "i < n" "ws ! i = Convicts v"
  shows "\<exists>m h c r c'. turnViews (ins @ [x]) (length ins) ! i = Some (m, h, c) \<and>
    h + 4 * second \<le> snd (snd x) \<and> snd (snd x) \<le> h + 35 * second \<and>
    r < length ins \<and> turnViews ins r ! i = Some (m, h, c') \<and> 2 \<le> card (set (vWitnesses v)) \<and>
    (\<forall>k \<in> set (vWitnesses v). k < n \<and> k \<noteq> i \<and> (\<exists>m h c. turnViews (ins @ [x]) (length ins) ! k = Some (m, h, c) \<and>
       snd (snd x) \<le> h + 2 * second \<and> 24 \<le> heardSince (countsOf ins r ! k) m c))"
  using assms
proof (rule conviction, goal_cases)
  case (1 m h c r c' row)
  have len: "length (turnViews (ins @ [x]) (length ins)) = n"
    using turn_length [OF assms(1)] by (simp add: turn_append)
  have "distinct (vWitnesses v)" using 1(7) witnesses_distinct by simp
  then have "2 \<le> card (set (vWitnesses v))" using 1(8) by (simp add: distinct_card go_consts)
  moreover have "k < n \<and> k \<noteq> i \<and> (\<exists>m h c. turnViews (ins @ [x]) (length ins) ! k = Some (m, h, c) \<and>
      snd (snd x) \<le> h + 2 * second \<and> 24 \<le> heardSince (countsOf ins r ! k) m c)" if "k \<in> set (vWitnesses v)" for k
    using witness_is_served [OF that [unfolded 1(7)]] len by (force simp: go_consts 1(6))
  ultimately show ?case using 1(1-5) by (intro exI conjI) (auto simp: go_consts)
qed

theorem silence_has_witnesses_witness:
  "let x = sampleTurn (13 * second) 30;
       ((ws, sts'), j) = silentStep x (snd (traceRun silentStep [sampleStart] (newSilentUnderLoadJudge 3)))
   in ws = [Convicts \<lparr>vIndex = 0, vSilent = 4 * second, vWitnesses = [1, 2], vPackets = 60\<rparr>, NoWord, NoWord] \<and>
      (\<exists>m h c. turnViews [sampleStart, x] (Suc 0) ! 0 = Some (m, h, c) \<and> h + 4 * second \<le> snd (snd x))"
proof -
  let ?x = "sampleTurn (13 * second) 30" and ?run = "traceRun silentStep [sampleStart] (newSilentUnderLoadJudge 3)"
  obtain tr j where r: "?run = (tr, j)" by fastforce
  have j: "j = sampleJudge" using sample_started unfolding r snd_conv .
  obtain ws sts' j' where st: "silentStep ?x j = ((ws, sts'), j')" by (metis prod.exhaust)
  have "fst (fst (silentStep ?x sampleJudge))
    = [Convicts \<lparr>vIndex = 0, vSilent = 4 * second, vWitnesses = [1, 2], vPackets = 60\<rparr>, NoWord, NoWord]" by code_simp
  then have ws: "ws = [Convicts \<lparr>vIndex = 0, vSilent = 4 * second, vWitnesses = [1, 2], vPackets = 60\<rparr>, NoWord, NoWord]"
    using st [unfolded j] by (simp only: fst_conv)
  have "orderly 3 ([sampleStart] @ [?x])" by (rule sample_orderly) (simp add: go_consts)
  from silence_has_witnesses [OF this r st, of 0] ws
  have "\<exists>m h c. turnViews [sampleStart, ?x] (Suc 0) ! 0 = Some (m, h, c) \<and> h + 4 * second \<le> snd (snd ?x)" by auto
  then show ?thesis using ws unfolding r st Let_def snd_conv prod.case by blast
qed



end
