(* ===== verification/RelayDeaf.thy ===== *)
theory RelayDeaf
  imports RelayMove SessionVerdict NetGate DarkPath Dispatch
begin

text \<open>
  Resting a relay that goes deaf under our sessions while another relay is heard (\<open>pkg/proxy/relay_deaf.go\<close>). What
  ends a session deaf is an error of \<open>Errors\<close>; the witnesses are the streams of \<open>Dispatch\<close>, and the rest and the
  moves those of \<open>RelayRest\<close> and \<open>RelayMove\<close>. Log lines, and the stream a witness is logged by, are left out.
\<close>

definition relayDeafStrikes :: nat where "relayDeafStrikes = 3"
definition relayDeafWindow :: duration where "relayDeafWindow = 10 * minute"

lemmas deaf_consts [go_consts] = relayDeafStrikes_def relayDeafWindow_def

record deafSession =
  dRelay :: string
  dNetwork :: uint64
  dPeer :: string
  dAt :: gtime
  dOverTCP :: bool
  dFroze :: bool
  dPathGap :: bool
  dElsewhere :: bool
  dWitness :: string

record relayDeafVerdict =
  dvRelay :: string
  dvDeaths :: nat
  dvSpan :: duration
  dvWitness :: string

record relayDeafJudge =
  djNetwork :: uint64
  djPeer :: string
  djDeaths :: "(string \<times> gtime list) list option"   \<comment> \<open>None: the nil map\<close>

definition newDeafJudge :: relayDeafJudge where
  "newDeafJudge = \<lparr>djNetwork = 0, djPeer = [], djDeaths = None\<rparr>"

text \<open>The count starts over with the network and the server; what of a session counts not at all.\<close>

definition deathsFor :: "deafSession \<Rightarrow> relayDeafJudge \<Rightarrow> (string \<times> gtime list) list" where
  "deathsFor d j = (case djDeaths j of None \<Rightarrow> []
     | Some ds \<Rightarrow> if dNetwork d \<noteq> djNetwork j \<or> dPeer d \<noteq> djPeer j then [] else ds)"

definition uncounted :: "deafSession \<Rightarrow> bool" where
  "uncounted d \<longleftrightarrow> dOverTCP d \<or> dFroze d \<or> dPathGap d \<or> \<not> dElsewhere d \<or> dWitness d = [] \<or> dWitness d = dRelay d"

definition noteDeaf :: "deafSession \<Rightarrow> relayDeafJudge \<Rightarrow> (nat \<times> relayDeafVerdict option) \<times> relayDeafJudge" where
  "noteDeaf d j =
    (let ds = deathsFor d j;
         j = \<lparr>djNetwork = dNetwork d, djPeer = dPeer d, djDeaths = Some ds\<rparr>
     in if uncounted d then ((0, None), j)
        else
          let kept = filter (\<lambda>t. tsub (dAt d) t < relayDeafWindow) (case map_of ds (dRelay d) of None \<Rightarrow> [] | Some ts \<Rightarrow> ts);
              kept = kept @ [dAt d]
          in if length kept < relayDeafStrikes
             then ((length kept, None), j\<lparr>djDeaths := Some (mput (dRelay d) kept ds)\<rparr>)
             else ((length kept, Some \<lparr>dvRelay = dRelay d, dvDeaths = length kept, dvSpan = tsub (dAt d) (hd kept),
                      dvWitness = dWitness d\<rparr>),
                   j\<lparr>djDeaths := Some (mdel (dRelay d) ds)\<rparr>))"

section \<open>The witness\<close>

type_synonym clocks = "(nat \<times> dstream) list"

definition heardThrough :: "clocks \<Rightarrow> gtime \<Rightarrow> gtime \<Rightarrow> nat \<Rightarrow> bool" where
  "heardThrough ds silentSince now s = (case map_of ds s of
     None \<Rightarrow> False
   | Some st \<Rightarrow> strReady st \<and> \<not> strOverTCP st \<and> (case strActivity st of
       None \<Rightarrow> False
     | Some (_, a) \<Rightarrow> actStart a < silentSince \<and> heardAge a now \<le> dispatchStaleAfter \<and> now - heardAge a now > silentSince))"

text \<open>The order in which the relays and their streams are looked through is the code's map order: any.\<close>

fun deafWitness :: "clocks \<Rightarrow> liveSessions \<Rightarrow> string \<Rightarrow> gtime \<Rightarrow> gtime \<Rightarrow> string" where
  "deafWitness ds [] addr silentSince now = []"
| "deafWitness ds ((a, xs) # l) addr silentSince now =
    (if a \<noteq> addr \<and> list_ex (heardThrough ds silentSince now) xs then a
     else deafWitness ds l addr silentSince now)"

section \<open>The rest\<close>

text \<open>Whether the proxy has stopped, at each of the three looks at its context: before, at the mark, at the moves.\<close>

type_synonym stopLooks = "bool \<times> bool \<times> bool"

definition restDeafRelay ::
  "stopLooks \<Rightarrow> relayDeafVerdict \<Rightarrow> gtime \<Rightarrow> proxyWorld \<Rightarrow> (duration \<times> relayMoveOut) option \<times> proxyWorld" where
  "restDeafRelay looks v now w =
    (let (stopped, atMark, atMoves) = looks
     in if stopped then (None, w)
        else
          let (resting, r) = relayResting (restBook (books w)) (dvRelay v) now;
              w = w\<lparr>books := (books w)\<lparr>restBook := r\<rparr>\<rparr>
          in if resting then (None, w)
             else
               let (rest, ok, r) = noteRelayRestingFor (restBook (books w)) atMark (dvRelay v) now;
                   w = w\<lparr>books := (books w)\<lparr>restBook := r\<rparr>\<rparr>
               in if \<not> ok then (None, w)
                  else let (out, _, w) = recycleRelaySessions w atMoves (dvRelay v) now None
                    in (Some (rest, out), w))"

text \<open>
  What the session's end is weighed with: the gate (the network's epoch and its losses), the reporter's clock, the
  path's record, and the streams' own clocks.
\<close>

record deafView =
  viewGate :: netGate
  viewClock :: "reporterClock option"
  viewBase :: gtime
  viewHeard :: relayHeard
  viewStreams :: clocks

definition deafSessionOf ::
  "deafView \<Rightarrow> proxyWorld \<Rightarrow> nat \<Rightarrow> string \<Rightarrow> string \<Rightarrow> bool \<Rightarrow> duration \<Rightarrow> bool \<Rightarrow> gtime \<Rightarrow> deafSession" where
  "deafSessionOf v w s addr server elsewhere silent frozen now =
    (let overTCP = (case map_of (viewStreams v) s of None \<Rightarrow> False | Some st \<Rightarrow> strOverTCP st)
     in \<lparr>dRelay = addr, dNetwork = networkEpoch (viewGate v), dPeer = server, dAt = now, dOverTCP = overTCP,
         dFroze = (frozen \<or> hostFrozeSince (viewClock v) (now - silent) now),
         dPathGap = (\<not> overTCP \<and> pathGapEndedSince (viewBase v) (viewHeard v) (now - silent)),
         dElsewhere = elsewhere,
         dWitness = (if overTCP then [] else deafWitness (viewStreams v) (liveBook w) addr (now - silent) now)\<rparr>)"

definition noteDeafSession ::
  "stopLooks \<Rightarrow> deafView \<Rightarrow> nat \<Rightarrow> string \<Rightarrow> string \<Rightarrow> bool \<Rightarrow> goError option \<Rightarrow> gtime \<Rightarrow> gtime \<Rightarrow> relayDeafJudge \<times> proxyWorld
    \<Rightarrow> (duration \<times> relayMoveOut) option \<times> relayDeafJudge \<times> proxyWorld" where
  "noteDeafSession looks v s addr server cancelled err started now jw =
    (let (j, w) = jw
     in case errDead err of
          None \<Rightarrow> (None, j, w)
        | Some (silent, frozen) \<Rightarrow>
            if cancelled \<or> relayNotToBlame \<lparr>xNetworkLeft = networkLeftSince started (viewGate v), xFroze = False,
                 xHeardByOthers = False\<rparr> err
            then (None, j, w)
            else (case map_of (cells w) s of
                None \<Rightarrow> (None, j, w)
              | Some c \<Rightarrow> (case (attempt c, streamCell.dialing c) of
                  (Some _, Some rs) \<Rightarrow>
                    let (elsewhere, b) = hasOtherUsableRelay (books w) rs addr now;
                        w = w\<lparr>books := b\<rparr>;
                        ((counted, verdict), j) = noteDeaf (deafSessionOf v w s addr server elsewhere silent frozen now) j
                    in (case verdict of
                          None \<Rightarrow> (None, j, w)
                        | Some dv \<Rightarrow> let (out, w) = restDeafRelay looks dv now w in (out, j, w))
                | _ \<Rightarrow> (None, j, w))))"

end
