(* ===== verification/RelayDeafProps.thy ===== *)
theory RelayDeafProps
  imports RelayDeaf RelayMoveProps Traces
begin

text \<open>
  What the judge of deaf relays promises: it takes three witnessed sessions, and it moves sessions only to where
  they can go.
\<close>

section \<open>Three sessions\<close>

text \<open>A session before speaks with a later one: on its relay, within the ten minutes, and all between on its network and server.\<close>

definition speaksWith :: "(deafSession \<times> 'o) list \<Rightarrow> nat \<Rightarrow> deafSession \<Rightarrow> bool" where
  "speaksWith tr i d \<longleftrightarrow> i < length tr \<and> \<not> uncounted (fst (tr ! i)) \<and> dRelay (fst (tr ! i)) = dRelay d \<and>
    tsub (dAt d) (dAt (fst (tr ! i))) < relayDeafWindow \<and>
    (\<forall>k. i \<le> k \<and> k < length tr \<longrightarrow> dNetwork (fst (tr ! k)) = dNetwork d \<and> dPeer (fst (tr ! k)) = dPeer d)"

text \<open>The times booked on a relay are those of sessions counted, in their order, since the network and the server last changed.\<close>

definition bookedBy :: "(deafSession \<times> 'o) list \<Rightarrow> relayDeafJudge \<Rightarrow> nat \<Rightarrow> string \<Rightarrow> gtime \<Rightarrow> bool" where
  "bookedBy tr j i a t \<longleftrightarrow> i < length tr \<and> \<not> uncounted (fst (tr ! i)) \<and> dRelay (fst (tr ! i)) = a \<and> dAt (fst (tr ! i)) = t \<and>
    (\<forall>k. i \<le> k \<and> k < length tr \<longrightarrow> dNetwork (fst (tr ! k)) = djNetwork j \<and> dPeer (fst (tr ! k)) = djPeer j)"

definition deafBooks :: "(deafSession \<times> 'o) list \<Rightarrow> relayDeafJudge \<Rightarrow> bool" where
  "deafBooks tr j \<longleftrightarrow> (\<forall>ds a ts. djDeaths j = Some ds \<and> map_of ds a = Some ts \<longrightarrow>
    (\<exists>is. sorted_wrt (<) is \<and> list_all2 (\<lambda>i t. bookedBy tr j i a t) is ts))"

lemma bookedBy_snoc:
  "bookedBy tr j i a t \<Longrightarrow> dNetwork d = djNetwork j \<Longrightarrow> dPeer d = djPeer j \<Longrightarrow> djNetwork j' = djNetwork j \<Longrightarrow>
   djPeer j' = djPeer j \<Longrightarrow> bookedBy (tr @ [(d, q)]) j' i a t"
  unfolding bookedBy_def by (auto simp: nth_append less_Suc_eq)

lemma bookedBy_last:
  "\<not> uncounted d \<Longrightarrow> djNetwork j' = dNetwork d \<Longrightarrow> djPeer j' = dPeer d \<Longrightarrow>
   bookedBy (tr @ [(d, q)]) j' (length tr) (dRelay d) (dAt d)"
  unfolding bookedBy_def by (auto simp: nth_append less_Suc_eq)

lemma sorted_wrt_pick:
  assumes "sorted_wrt (<) (is :: nat list)" "list_all2 P is ts"
  shows "\<exists>js. sorted_wrt (<) js \<and> list_all2 (\<lambda>i t. P i t \<and> Q t) js (filter Q ts) \<and> set js \<subseteq> set is"
  using assms(2,1)
proof (induction rule: list_all2_induct)
  case (Cons i "is" t ts)
  then obtain js where js: "sorted_wrt (<) js" "list_all2 (\<lambda>i t. P i t \<and> Q t) js (filter Q ts)" "set js \<subseteq> set is" by auto
  have "sorted_wrt (<) (i # js)" using js(1,3) Cons.prems by auto
  with js Cons.hyps have "\<exists>js'. js' = (if Q t then i # js else js) \<and> sorted_wrt (<) js' \<and>
      list_all2 (\<lambda>i t. P i t \<and> Q t) js' (filter Q (t # ts)) \<and> set js' \<subseteq> set (i # is)" by auto
  then show ?case by blast
qed auto

text \<open>The times a session finds and what it adds.\<close>

lemma deathsFor_booked:
  assumes "deafBooks tr j" "map_of (deathsFor d j) a = Some ts"
  shows "\<exists>is. sorted_wrt (<) is \<and> list_all2 (\<lambda>i t. bookedBy tr j i a t) is ts \<and> dNetwork d = djNetwork j \<and> dPeer d = djPeer j"
  using assms by (auto simp: deafBooks_def deathsFor_def split: option.splits if_splits)

definition keptBy :: "deafSession \<Rightarrow> relayDeafJudge \<Rightarrow> gtime list" where
  "keptBy d j = filter (\<lambda>t. tsub (dAt d) t < relayDeafWindow)
     (case map_of (deathsFor d j) (dRelay d) of None \<Rightarrow> [] | Some ts \<Rightarrow> ts)"

lemma keptBy_booked:
  assumes "deafBooks tr j" "keptBy d j \<noteq> []"
  obtains "is" where "sorted_wrt (<) is" "list_all2 (\<lambda>i t. bookedBy tr j i (dRelay d) t \<and> tsub (dAt d) t < relayDeafWindow) is (keptBy d j)"
    "dNetwork d = djNetwork j" "dPeer d = djPeer j"
proof -
  obtain ts where ts: "map_of (deathsFor d j) (dRelay d) = Some ts" using assms(2) by (cases "map_of (deathsFor d j) (dRelay d)") (auto simp: keptBy_def)
  then obtain js where "sorted_wrt (<) js" "list_all2 (\<lambda>i t. bookedBy tr j i (dRelay d) t) js ts"
      "dNetwork d = djNetwork j" "dPeer d = djPeer j"
    using deathsFor_booked [OF assms(1)] by blast
  with sorted_wrt_pick [of js _ ts "\<lambda>t. tsub (dAt d) t < relayDeafWindow"] that ts show thesis
    by (fastforce simp: keptBy_def)
qed

lemma noteDeaf_cases:
  assumes "noteDeaf d j = ((n, v), j')"
  obtains "uncounted d" "n = 0" "v = None" "j' = \<lparr>djNetwork = dNetwork d, djPeer = dPeer d, djDeaths = Some (deathsFor d j)\<rparr>"
  | "\<not> uncounted d" "n = length (keptBy d j) + 1" "n < relayDeafStrikes" "v = None"
    "j' = \<lparr>djNetwork = dNetwork d, djPeer = dPeer d, djDeaths = Some (mput (dRelay d) (keptBy d j @ [dAt d]) (deathsFor d j))\<rparr>"
  | "\<not> uncounted d" "n = length (keptBy d j) + 1" "relayDeafStrikes \<le> n"
    "v = Some \<lparr>dvRelay = dRelay d, dvDeaths = n, dvSpan = tsub (dAt d) (hd (keptBy d j @ [dAt d])), dvWitness = dWitness d\<rparr>"
    "j' = \<lparr>djNetwork = dNetwork d, djPeer = dPeer d, djDeaths = Some (mdel (dRelay d) (deathsFor d j))\<rparr>"
  using assms by (auto simp: noteDeaf_def Let_def keptBy_def split: if_splits)

lemma deafBooks_step:
  assumes "deafBooks tr j" "noteDeaf d j = (q, j')"
  shows "deafBooks (tr @ [(d, q)]) j'"
proof -
  obtain n v where q: "q = (n, v)" by fastforce
  have old: "\<exists>is. sorted_wrt (<) is \<and> list_all2 (\<lambda>i t. bookedBy (tr @ [(d, q)]) j' i a t) is ts"
    if m: "map_of (deathsFor d j) a = Some ts" and n: "djNetwork j' = dNetwork d" "djPeer j' = dPeer d" for a ts
  proof -
    obtain "is" where i: "sorted_wrt (<) is" "list_all2 (\<lambda>i t. bookedBy tr j i a t) is ts"
        "dNetwork d = djNetwork j" "dPeer d = djPeer j"
      using deathsFor_booked [OF assms(1) m] by blast
    have "list_all2 (\<lambda>i t. bookedBy (tr @ [(d, q)]) j' i a t) is ts"
      using i(2) by (rule list_all2_mono) (use bookedBy_snoc i(3,4) n in simp)
    with i(1) show ?thesis by blast
  qed
  from assms(2) [unfolded q] show ?thesis
  proof (cases rule: noteDeaf_cases)
    case 1
    then show ?thesis using old by (simp add: deafBooks_def)
  next
    case 3
    then show ?thesis using old by (auto simp: deafBooks_def split: if_splits)
  next
    case 2
    have new: "\<exists>is. sorted_wrt (<) is \<and> list_all2 (\<lambda>i t. bookedBy (tr @ [(d, q)]) j' i (dRelay d) t) is (keptBy d j @ [dAt d])"
    proof (cases "keptBy d j = []")
      case True
      then show ?thesis using bookedBy_last [OF 2(1), of j' tr q] 2(5) by (intro exI [of _ "[length tr]"]) simp
    next
      case False
      obtain "is" where i: "sorted_wrt (<) is"
          "list_all2 (\<lambda>i t. bookedBy tr j i (dRelay d) t \<and> tsub (dAt d) t < relayDeafWindow) is (keptBy d j)"
          "dNetwork d = djNetwork j" "dPeer d = djPeer j"
        using keptBy_booked [OF assms(1) False] .
      have n: "djNetwork j' = djNetwork j" "djPeer j' = djPeer j" using i(3,4) 2(5) by simp_all
      have "list_all2 (\<lambda>i t. bookedBy (tr @ [(d, q)]) j' i (dRelay d) t) is (keptBy d j)"
        using i(2) by (rule list_all2_mono) (elim conjE, erule bookedBy_snoc [OF _ i(3,4) n])
      moreover have "\<forall>i \<in> set is. i < length tr"
        using i(2) by (auto simp: list_all2_conv_all_nth in_set_conv_nth bookedBy_def)
      ultimately show ?thesis using i(1) bookedBy_last [OF 2(1), of j' tr q] 2(5)
        by (intro exI [of _ "is @ [length tr]"]) (auto simp: sorted_wrt_append list_all2_appendI)
    qed
    show ?thesis unfolding deafBooks_def
    proof (intro allI impI)
      fix ds a ts assume "djDeaths j' = Some ds \<and> map_of ds a = Some ts"
      then show "\<exists>is. sorted_wrt (<) is \<and> list_all2 (\<lambda>i t. bookedBy (tr @ [(d, q)]) j' i a t) is ts"
        using new old 2(5) by (auto split: if_splits)
    qed
  qed
qed

interpretation deafCount: traced noteDeaf deafBooks "\<lambda>d. True"
  by unfold_locales (rule deafBooks_step)

text \<open>
  The verdict on a deaf relay takes three sessions, this one and two before it on the same relay, all within ten
  minutes, with every session between them on the same network and to the same server; each was over UDP, with a witness on
  another relay and another relay to go to, and no sleep of the machine nor silence of the whole path in its silence.
\<close>

theorem deaf_verdict_needs_three_sessions:
  assumes "traceRun noteDeaf ds newDeafJudge = (tr, j)" "noteDeaf d j = ((n, Some v), j')"
  shows "\<not> uncounted d \<and> dvRelay v = dRelay d \<and> dvDeaths v = n \<and> 3 \<le> n \<and>
    (\<exists>i k. i < k \<and> speaksWith tr i d \<and> speaksWith tr k d) \<and> map fst tr = ds"
proof -
  have "deafBooks [] newDeafJudge" by (simp add: deafBooks_def newDeafJudge_def)
  from deafCount.run_establishes [OF assms(1) this] have b: "deafBooks tr j" by simp
  have c: "\<not> uncounted d" "n = length (keptBy d j) + 1" "3 \<le> n" "dvRelay v = dRelay d" "dvDeaths v = n"
    using assms(2) by (rule noteDeaf_cases; simp add: go_consts)+
  then have l: "2 \<le> length (keptBy d j)" by simp
  then have "keptBy d j \<noteq> []" by auto
  with b obtain "is" where i: "sorted_wrt (<) is"
      "list_all2 (\<lambda>i t. bookedBy tr j i (dRelay d) t \<and> tsub (dAt d) t < relayDeafWindow) is (keptBy d j)"
      "dNetwork d = djNetwork j" "dPeer d = djPeer j"
    by (rule keptBy_booked)
  have sp: "speaksWith tr (is ! m) d" if "m < length (keptBy d j)" for m
    using i(2-4) that by (auto simp: list_all2_conv_all_nth bookedBy_def speaksWith_def)
  have "is ! 0 < is ! 1"
    using sorted_wrt_nth_less [OF i(1), of 0 1] l list_all2_lengthD [OF i(2)] by simp
  moreover have "speaksWith tr (is ! 0) d" "speaksWith tr (is ! 1) d" using l by (auto intro!: sp simp del: One_nat_def)
  ultimately have "\<exists>i k. i < k \<and> speaksWith tr i d \<and> speaksWith tr k d" by blast
  with c traceRun_calls [OF assms(1)] show ?thesis by simp
qed

definition sampleDeaf :: "gtime \<Rightarrow> deafSession" where
  "sampleDeaf t = \<lparr>dRelay = ''a'', dNetwork = 1, dPeer = ''p'', dAt = t, dOverTCP = False, dFroze = False, dPathGap = False,
     dElsewhere = True, dWitness = ''b''\<rparr>"

theorem deaf_verdict_needs_three_sessions_witness:
  "let (tr, j) = traceRun noteDeaf (map sampleDeaf [0, minute]) newDeafJudge;
       ((n, v), _) = noteDeaf (sampleDeaf (2 * minute)) j
   in v = Some \<lparr>dvRelay = ''a'', dvDeaths = 3, dvSpan = 2 * minute, dvWitness = ''b''\<rparr> \<and>
      (\<exists>i k. i < k \<and> speaksWith tr i (sampleDeaf (2 * minute)) \<and> speaksWith tr k (sampleDeaf (2 * minute)))"
proof -
  let ?run = "traceRun noteDeaf (map sampleDeaf [0, minute]) newDeafJudge"
  obtain tr j where r: "?run = (tr, j)" by fastforce
  obtain n v j' where q: "noteDeaf (sampleDeaf (2 * minute)) j = ((n, v), j')" by (metis prod.exhaust)
  have "snd (fst (noteDeaf (sampleDeaf (2 * minute)) (snd ?run)))
    = Some \<lparr>dvRelay = ''a'', dvDeaths = 3, dvSpan = 2 * minute, dvWitness = ''b''\<rparr>" by code_simp
  then have v: "v = Some \<lparr>dvRelay = ''a'', dvDeaths = 3, dvSpan = 2 * minute, dvWitness = ''b''\<rparr>"
    by (simp only: r snd_conv q fst_conv)
  from deaf_verdict_needs_three_sessions [OF r q [unfolded v]] v show ?thesis unfolding r q Let_def prod.case by blast
qed

section \<open>The rest and its cause\<close>

lemma deafWitness_sound:
  "deafWitness ds l addr silentSince now \<noteq> [] \<Longrightarrow>
   \<exists>(a, xs) \<in> set l. a \<noteq> addr \<and> deafWitness ds l addr silentSince now = a \<and> (\<exists>k \<in> set xs. heardThrough ds silentSince now k)"
  by (induction ds l addr silentSince now rule: deafWitness.induct) (auto simp: list_ex_iff split: if_splits)

lemma restDeafRelay_rests:
  assumes i: "restInv now (marks (restBook (books w)))" and r: "restDeafRelay looks v now w = (Some (d, out), w')"
  shows "\<not> fst (relayResting (restBook (books w)) (dvRelay v) now)"
    "\<not> fst (relayUsable (books w') (dvRelay v) now)" "relayRestFor \<le> d \<and> d \<le> relayRestMax"
    "goodMoves (books w') (cells w) (dvRelay v) now (moved out)"
proof -
  let ?a = "dvRelay v"
  obtain x y z where l: "looks = (x, y, z)" by (rule prod_cases3)
  obtain b r1 where p: "relayResting (restBook (books w)) ?a now = (b, r1)" by fastforce
  obtain d0 ok r2 where n: "noteRelayRestingFor r1 y ?a now = (d0, ok, r2)" by (metis prod_cases3)
  let ?w1 = "w\<lparr>books := (books w)\<lparr>restBook := r1\<rparr>\<rparr>"
  let ?w2 = "?w1\<lparr>books := (books ?w1)\<lparr>restBook := r2\<rparr>\<rparr>"
  obtain out0 l0 w0 where c: "recycleRelaySessions ?w2 z ?a now None = (out0, l0, w0)" by (metis prod_cases3)
  have f: "\<not> x" "\<not> b" "ok" "d0 = d" "out0 = out" "w0 = w'"
    using r c by (auto simp: restDeafRelay_def l p n Let_def split: if_splits)
  then have y: "\<not> y" using n by (auto simp: noteRelayRestingFor_def Let_def split: if_splits)
  show "\<not> fst (relayResting (restBook (books w)) ?a now)" using p f(2) by simp
  have i1: "restInv now (marks r1)" using restInv_relayResting [OF i, of ?a] p by simp
  show d: "relayRestFor \<le> d \<and> d \<le> relayRestMax"
  proof -
    have "relayRestFor \<le> min (2 * rest m) relayRestMax" if "map_of (marks r1) k = Some m" for k m
      using restInv_get [OF i1 that] by (auto simp: markInv_def go_consts)
    then show ?thesis using n f(4) y by (auto simp: noteRelayRestingFor_def Let_def go_consts split: option.splits if_splits)
  qed
  have "noteRelayRestingFor r1 False ?a now = (d0, ok, r2)" using n y by simp
  then have "fst (relayResting r2 ?a now)"
    using note_then_resting [of r1 ?a now d0 ok r2 ?a now] d f(4) by (simp add: go_consts)
  then have u2: "\<not> fst (relayUsable (books ?w2) ?a now)" by (simp add: relayUsable_iff)
  have sw: "goodMoves (books ?w2) (cells ?w2) ?a now (moved out) \<and> usable.swept now (books ?w2) (books w')"
  proof (cases z)
    case True
    with c f show ?thesis by (auto simp: recycleRelaySessions_def Let_def goodMoves_def usable.swept_refl)
  next
    case False
    with c have "recycleRelaySessions ?w2 False ?a now (Some (liveRelayLoad (liveBook ?w2))) = (out, l0, w')"
      using f by (simp add: recycleRelaySessions_def)
    from recycle_good [OF usable.swept_refl this] show ?thesis by simp
  qed
  show "\<not> fst (relayUsable (books w') ?a now)" using u2 swept_usable [of now "books ?w2" "books w'" ?a] sw by blast
  have "cells ?w2 = cells w" by simp
  moreover have "goodMoves (books w') (cells ?w2) ?a now (moved out)"
    using sw swept_usable [of now "books ?w2" "books w'"] unfolding goodMoves_def by blast
  ultimately show "goodMoves (books w') (cells w) ?a now (moved out)" by (simp only:)
qed

lemma exists_read_keeps:
  assumes "\<And>s k. I s \<Longrightarrow> I (snd (ask s k))" "I s"
  shows "I (snd (exists_read ask s skip xs))"
  using assms(2) by (induction xs arbitrary: s) (auto simp: Let_def split_beta intro: assms(1))

lemma restInv_hasOther:
  fixes s :: proxyBooks
  assumes "restInv now (marks (restBook s))"
  shows "restInv now (marks (restBook (snd (hasOtherUsableRelay s rs a now))))"
  unfolding hasOtherUsableRelay_def
proof (rule exists_read_keeps)
  fix s :: proxyBooks and k
  assume "restInv now (marks (restBook s))"
  then show "restInv now (marks (restBook (snd (relayUsable s k now))))"
    using restInv_relayResting by (auto simp: relayUsable_def Let_def split_beta)
qed (rule assms)

lemma noteDeafSession_rests:
  assumes "noteDeafSession looks v s addr server cancelled err started now (j, w) = (Some q, j', w')"
  obtains silent frozen c rs dv n w1 where
    "errDead err = Some (silent, frozen)" "\<not> cancelled"
    "\<not> relayNotToBlame \<lparr>xNetworkLeft = networkLeftSince started (viewGate v), xFroze = False, xHeardByOthers = False\<rparr> err"
    "map_of (cells w) s = Some c" "streamCell.dialing c = Some rs" "w1 = w\<lparr>books := snd (hasOtherUsableRelay (books w) rs addr now)\<rparr>"
    "noteDeaf (deafSessionOf v w1 s addr server (fst (hasOtherUsableRelay (books w) rs addr now)) silent frozen now) j = ((n, Some dv), j')"
    "restDeafRelay looks dv now w1 = (Some q, w')"
  using assms
  by (auto simp: noteDeafSession_def Let_def split_beta prod_eq_iff split: option.splits if_splits)

text \<open>
  C10. A relay is rested for deafness only for cause: the session ended deaf on its own, not cancelled, not frozen and not
  with the network; its silence held no silence of the whole path; its link has another usable relay; and a stream on
  another relay, there since before the silence, hears its own now. The relay is then out for thirty minutes to four
  hours, and every session moved off it goes first to another, usable relay of its own link.
\<close>

theorem deaf_relay_rested_with_cause:
  assumes "restInv now (marks (restBook (books w)))"
    and "noteDeafSession looks v s addr server cancelled err started now (j, w) = (Some (d, out), j', w')"
  shows "\<not> cancelled \<and> \<not> networkLeftSince started (viewGate v) \<and>
    (\<exists>silent. errDead err = Some (silent, False) \<and> \<not> hostFrozeSince (viewClock v) (now - silent) now \<and>
      \<not> pathGapEndedSince (viewBase v) (viewHeard v) (now - silent) \<and>
      (\<exists>(a, xs) \<in> set (liveBook w). a \<noteq> addr \<and> (\<exists>k \<in> set xs. heardThrough (viewStreams v) (now - silent) now k))) \<and>
    (\<exists>c rs r. map_of (cells w) s = Some c \<and> streamCell.dialing c = Some rs \<and> r \<in> set rs \<and> r \<noteq> addr \<and>
      fst (relayUsable (books w) r now)) \<and>
    \<not> fst (relayUsable (books w') addr now) \<and> 30 * minute \<le> d \<and> d \<le> 4 * hour \<and>
    goodMoves (books w') (cells w) addr now (moved out)"
  using assms(2)
proof (rule noteDeafSession_rests, goal_cases)
  case (1 silent frozen c rs dv n w1)
  let ?d = "deafSessionOf v w1 s addr server (fst (hasOtherUsableRelay (books w) rs addr now)) silent frozen now"
  have u: "\<not> uncounted ?d" "dvRelay dv = addr"
    using 1(7) by (rule noteDeaf_cases; simp add: deafSessionOf_def Let_def)+
  have r: "restInv now (marks (restBook (books w1)))" using restInv_hasOther [OF assms(1)] 1(6) by simp
  note rests = restDeafRelay_rests [OF r 1(8), unfolded u(2)]
  have tcp: "\<not> dOverTCP ?d" "\<not> frozen" "\<not> hostFrozeSince (viewClock v) (now - silent) now"
    "fst (hasOtherUsableRelay (books w) rs addr now)"
    using u(1) by (auto simp: uncounted_def deafSessionOf_def Let_def)
  then have gap: "\<not> pathGapEndedSince (viewBase v) (viewHeard v) (now - silent)"
    "deafWitness (viewStreams v) (liveBook w1) addr (now - silent) now \<noteq> []"
    using u(1) by (auto simp: uncounted_def deafSessionOf_def Let_def)
  have wit: "\<exists>(a, xs) \<in> set (liveBook w). a \<noteq> addr \<and> (\<exists>k \<in> set xs. heardThrough (viewStreams v) (now - silent) now k)"
    using deafWitness_sound [OF gap(2)] 1(6) by auto
  obtain r where rr: "r \<in> set rs" "r \<noteq> addr" "fst (relayUsable (books w) r now)" using tcp(4) hasOther_swept(2) by blast
  have "\<not> networkLeftSince started (viewGate v)" using 1(3) by (simp add: relayNotToBlame_def)
  moreover have "goodMoves (books w') (cells w) addr now (moved out)" using rests(4) 1(6) by simp
  moreover have "30 * minute \<le> d \<and> d \<le> 4 * hour" using rests(3) by (simp add: relayRestFor_def relayRestMax_def)
  moreover have "errDead err = Some (silent, False)" using 1(1) tcp(2) by simp
  ultimately show ?case using 1(2,4,5) tcp(3) gap(1) wit rr rests(2) by blast
qed

text \<open>A link of three relays, one of its streams deaf for ninety seconds, another heard a second ago.\<close>

definition deafStream :: "int \<Rightarrow> gtime \<Rightarrow> dstream" where
  "deafStream i h = \<lparr>strId = i, strReady = True, strActivity = Some (0, (newStreamActivity 0 0)\<lparr>lastHeard := h\<rparr>),
     strOverTCP = False, sendStalled = False, inQueue = [], priorityQueue = []\<rparr>"

definition deafScene :: deafView where
  "deafScene = \<lparr>viewGate = networkAvailability, viewClock = None, viewBase = 0,
     viewHeard = \<lparr>heardCount = 0, relayHeardAt = 0, relayGapEndAt = 0\<rparr>,
     viewStreams = [(4, deafStream 4 (910 * second)), (5, deafStream 5 (999 * second))]\<rparr>"

definition deafError :: goError where
  "deafError = Plain (noFacts\<lparr>deadStream := Some (90 * second, False)\<rparr>)"

definition twiceDeaf :: relayDeafJudge where
  "twiceDeaf = \<lparr>djNetwork = networkEpoch networkAvailability, djPeer = ''p'',
     djDeaths = Some [(''a'', [700 * second, 800 * second])]\<rparr>"

theorem deaf_relay_rested_with_cause_witness:
  "let (q, j, w) = noteDeafSession (False, False, False) deafScene 4 ''a'' ''p'' False (Some deafError) (100 * second)
         (1000 * second) (twiceDeaf, twoBadRelays)
   in map_option fst q = Some (30 * minute) \<and> \<not> fst (relayUsable (books w) ''a'' (1000 * second))"
proof -
  let ?n = "noteDeafSession (False, False, False) deafScene 4 ''a'' ''p'' False (Some deafError) (100 * second)
         (1000 * second) (twiceDeaf, twoBadRelays)"
  obtain q j w where n: "?n = (q, j, w)" by (metis prod.exhaust)
  have "map_option fst (fst ?n) = Some (30 * minute)" by code_simp
  then have q: "map_option fst q = Some (30 * minute)" unfolding n by simp
  then obtain out where o: "q = Some (30 * minute, out)" by auto
  have "restInv (1000 * second) (marks (restBook (books twoBadRelays)))" by (simp add: twoBadRelays_def threeBooks_def)
  from deaf_relay_rested_with_cause [OF this n [unfolded o]] q show ?thesis unfolding n Let_def prod.case by blast
qed

end
