(* ===== verification/Dns.thy ===== *)
theory Dns
  imports Traces GoBytes
begin

text \<open>
  The resolver (\<open>pkg/proxy/dns.go\<close>): the cache with its lookups in flight, the race over the ordered servers,
  and the messages on the wire. The sockets of UDP, DoH and DoT are the events of the race.
\<close>

section \<open>Messages\<close>

text \<open>A failure, and whether the resolver itself had spoken by then (\<open>dnsReached\<close>).\<close>

datatype queryError = QueryError (qText: string) (qReached: bool) (qContext: bool)

definition dnsReachedf :: "string \<Rightarrow> queryError" where
  "dnsReachedf t = QueryError t True False"

text \<open>
  \<open>b[i]\<close> and \<open>binary.BigEndian.Uint16(b[i:i+2])\<close>: none is the panic of an index out of range.
\<close>

definition byteAt :: "byte list \<Rightarrow> nat \<Rightarrow> byte option" where
  "byteAt b i = (if i < length b then Some (b ! i) else None)"

definition uint16At :: "byte list \<Rightarrow> nat \<Rightarrow> nat option" where
  "uint16At b i = (if i + 2 \<le> length b then Some (beNat (slice i (i + 2) b)) else None)"

definition stringBytes :: "string \<Rightarrow> byte list" where
  "stringBytes s = map of_char s"

text \<open>The random identifier is an argument.\<close>

definition nameBytes :: "string \<Rightarrow> byte list" where
  "nameBytes domain =
    concat (map (\<lambda>part. of_nat (length part) # stringBytes part) (splitOn (CHR ''.'') (trimSuffix domain ''.''))) @ [0]"

definition buildDNSQuery :: "nat \<Rightarrow> string \<Rightarrow> byte list" where
  "buildDNSQuery rnd domain =
    (let query = putBE 2 rnd @ putBE 2 0x0100 @ putBE 2 1 @ replicate 6 0
     in query @ nameBytes domain @ [0, 1, 0, 1])"

text \<open>The two loops over labels; their indices are in range by their own guards.\<close>

function skipQuestion :: "byte list \<Rightarrow> nat \<Rightarrow> nat" where
  "skipQuestion b off =
    (if off < length b \<and> b ! off \<noteq> 0 then
       (if unat (b ! off) > 63 then off else skipQuestion b (off + unat (b ! off) + 1))
     else off)"
  by pat_completeness auto
termination by (relation "measure (\<lambda>(b, off). length b - off)") auto

text \<open>The offset, and whether the name ended in a pointer.\<close>

function skipName :: "byte list \<Rightarrow> nat \<Rightarrow> nat \<times> bool" where
  "skipName b off =
    (if off < length b \<and> b ! off \<noteq> 0 then
       (if unat (b ! off) > 63 then (off + 2, True) else skipName b (off + unat (b ! off) + 1))
     else (off, False))"
  by pat_completeness auto
termination by (relation "measure (\<lambda>(b, off). length b - off)") auto

declare skipQuestion.simps [simp del] skipName.simps [simp del]

definition dotted :: "byte \<times> byte \<times> byte \<times> byte \<Rightarrow> string" where
  "dotted q = (case q of (a, b, c, d) \<Rightarrow>
     showNat (unat a) @ ''.'' @ showNat (unat b) @ ''.'' @ showNat (unat c) @ ''.'' @ showNat (unat d))"

definition quadAt :: "byte list \<Rightarrow> nat \<Rightarrow> (byte \<times> byte \<times> byte \<times> byte) option" where
  "quadAt b i = (case (byteAt b i, byteAt b (i + 1), byteAt b (i + 2), byteAt b (i + 3)) of
     (Some p, Some q, Some r, Some s) \<Rightarrow> Some (p, q, r, s) | _ \<Rightarrow> None)"

definition nameEnd :: "byte list \<Rightarrow> nat \<Rightarrow> nat" where
  "nameEnd b off =
    (let (off, skipped) = skipName b off
     in if \<not> skipped \<and> off < length b \<and> b ! off = 0 then off + 1 else off)"

fun readAnswers :: "nat \<Rightarrow> byte list \<Rightarrow> nat \<Rightarrow> string list \<Rightarrow> string list option" where
  "readAnswers 0 b off ips = Some ips"
| "readAnswers (Suc k) b off ips =
    (if \<not> off < length b then Some ips
     else
       let off = nameEnd b off
       in if int off \<ge> int (length b) - 10 then Some ips
          else (case (uint16At b off, uint16At b (off + 8)) of
              (Some qtype, Some rdLength) \<Rightarrow>
                let off = off + 10
                in if qtype = 1 \<and> rdLength = 4 \<and> off + 4 \<le> length b
                   then (case quadAt b off of
                       None \<Rightarrow> None
                     | Some q \<Rightarrow> readAnswers k b (off + rdLength) (ips @ [dotted q]))
                   else readAnswers k b (off + rdLength) ips
            | _ \<Rightarrow> None))"

definition parseDNSResponse :: "byte list \<Rightarrow> (queryError + string list) option" where
  "parseDNSResponse b =
    (if length b < 12 then Some (Inl (dnsReachedf ''DNS response too short''))
     else (case (uint16At b 2, uint16At b 6) of
         (Some flags, Some ansCount) \<Rightarrow>
           if \<not> bit flags 15 then Some (Inl (dnsReachedf ''not a DNS response''))
           else if flags mod 16 \<noteq> 0 then Some (Inl (dnsReachedf (''DNS error: rcode='' @ showNat (flags mod 16))))
           else if ansCount = 0 then Some (Inl (dnsReachedf ''no answers in DNS response''))
           else (case readAnswers ansCount b (skipQuestion b 12 + 5) [] of
               None \<Rightarrow> None
             | Some ips \<Rightarrow> Some (if ips = [] then Inl (dnsReachedf ''no A record found in DNS response'') else Inr ips))
       | _ \<Rightarrow> None))"

section \<open>The race over the servers\<close>

datatype dnsServerType = DNSPlain | DNSDoH | DNSDoT

record dnsServer =
  srvType :: dnsServerType
  srvIP :: string
  srvDomain :: string

definition yandexIP :: string where "yandexIP = ''77.88.8.8''"
definition yandexDomain :: string where "yandexDomain = ''common.dot.dns.yandex.net''"
definition googleIP :: string where "googleIP = ''8.8.8.8''"
definition googleDomain :: string where "googleDomain = ''dns.google''"

definition dnsServersPredefined :: "dnsServer list" where
  "dnsServersPredefined =
    [\<lparr>srvType = DNSPlain, srvIP = yandexIP, srvDomain = ''''\<rparr>,
     \<lparr>srvType = DNSDoH, srvIP = yandexIP, srvDomain = yandexDomain\<rparr>,
     \<lparr>srvType = DNSPlain, srvIP = googleIP, srvDomain = ''''\<rparr>,
     \<lparr>srvType = DNSDoT, srvIP = yandexIP, srvDomain = yandexDomain\<rparr>,
     \<lparr>srvType = DNSDoH, srvIP = googleIP, srvDomain = googleDomain\<rparr>]"

definition initSystemDns :: "string list \<Rightarrow> dnsServer list" where
  "initSystemDns servers =
    map (\<lambda>ip. \<lparr>srvType = DNSPlain, srvIP = ip, srvDomain = ''''\<rparr>) servers @ dnsServersPredefined"

text \<open>
  Why a lookup failed: the caller's context, no servers, or all of them, with the first failure and whether any
  server was reached.
\<close>

datatype lookupError = ContextError | NoServers | AllFailed queryError bool

record dnsRace =
  dnsStarted :: nat
  dnsFinished :: nat
  dnsFirst :: "queryError option"
  dnsReached :: bool
  dnsRunning :: "nat list"   \<comment> \<open>the servers whose queries are out\<close>

definition newDnsRace :: dnsRace where
  "newDnsRace = \<lparr>dnsStarted = 0, dnsFinished = 0, dnsFirst = None, dnsReached = False, dnsRunning = []\<rparr>"

type_synonym dnsEvent = "(nat, queryError + string list) raceEvent"

text \<open>An answer without addresses is a failure of a server reached.\<close>

definition raceOutcome :: "queryError + string list \<Rightarrow> queryError + string list" where
  "raceOutcome a = (case a of Inr [] \<Rightarrow> Inl (dnsReachedf ''no addresses in DNS answer'') | _ \<Rightarrow> a)"

text \<open>\<open>n\<close> servers, the first asked being \<open>start\<close>. What is returned with the addresses is the server that gave them.\<close>

definition dnsStep :: "nat \<Rightarrow> nat \<Rightarrow> dnsRace \<Rightarrow> dnsEvent \<Rightarrow> (lookupError + nat \<times> string list) + dnsRace" where
  "dnsStep n start s e = (case e of
     Ended \<Rightarrow> Inl (Inl ContextError)
   | Timer \<Rightarrow>
       if dnsStarted s < n
       then Inr (s\<lparr>dnsStarted := dnsStarted s + 1, dnsRunning := dnsRunning s @ [(start + dnsStarted s) mod n]\<rparr>)
       else Inr s
   | Answered i a ended \<Rightarrow>
       let s = s\<lparr>dnsFinished := dnsFinished s + 1, dnsRunning := remove1 i (dnsRunning s)\<rparr>
       in (case raceOutcome a of
             Inr ips \<Rightarrow> Inl (Inr (i, ips))
           | Inl err \<Rightarrow>
               let first = (case dnsFirst s of None \<Rightarrow> err | Some f \<Rightarrow> f);
                   s = s\<lparr>dnsFirst := Some first, dnsReached := (dnsReached s \<or> qReached err)\<rparr>
               in if dnsFinished s < n then Inr s
                  else if ended then Inl (Inl ContextError)
                  else Inl (Inl (AllFailed first (dnsReached s)))))"

text \<open>What can happen: the timer while there is a server to start, and the answers of queries that are out.\<close>

definition dnsEnabled :: "nat \<Rightarrow> dnsRace \<Rightarrow> dnsEvent \<Rightarrow> bool" where
  "dnsEnabled n s e = (case e of Ended \<Rightarrow> True | Timer \<Rightarrow> dnsStarted s < n | Answered i a ended \<Rightarrow> i \<in> set (dnsRunning s))"

definition startIndex :: "nat \<Rightarrow> int \<Rightarrow> nat" where
  "startIndex n lastOK = (if lastOK < 0 \<or> lastOK \<ge> int n then 0 else nat lastOK)"

text \<open>The lookup: its outcome and the index of the last successful server after it.\<close>

definition resolveWithOrderedServers ::
  "nat \<Rightarrow> int \<Rightarrow> dnsEvent list \<Rightarrow> ((lookupError + string list) \<times> int) option" where
  "resolveWithOrderedServers n lastOK es =
    (if n = 0 then Some (Inl NoServers, lastOK)
     else (case raceRun (dnsStep n (startIndex n lastOK)) newDnsRace es of
         Inl (Inr (i, ips)) \<Rightarrow> Some (Inr ips, int i)
       | Inl (Inl err) \<Rightarrow> Some (Inl err, lastOK)
       | Inr _ \<Rightarrow> None))"

section \<open>The cache\<close>

text \<open>
  The lookups in flight are known by a number; one that is done is in \<open>lookups\<close> with its outcome, from which its
  followers read it. The context of a caller is an argument of its look.
\<close>

record dnsCache =
  cachedIPs :: "(string \<times> string list) list"
  inflight :: "(string \<times> nat) list"
  lookups :: "(nat \<times> (lookupError + string list)) list"
  nextLookup :: nat

definition newDnsCache :: dnsCache where
  "newDnsCache = \<lparr>cachedIPs = [], inflight = [], lookups = [], nextLookup = 0\<rparr>"

datatype resolveLook = Cached "string list" | Follows nat | Leads nat

definition resolveAll :: "string \<Rightarrow> dnsCache \<Rightarrow> resolveLook \<times> dnsCache" where
  "resolveAll domain c = (case map_of (cachedIPs c) domain of
     Some ips \<Rightarrow> (Cached ips, c)
   | None \<Rightarrow> (case map_of (inflight c) domain of
       Some k \<Rightarrow> (Follows k, c)
     | None \<Rightarrow> (Leads (nextLookup c), c\<lparr>inflight := mput domain (nextLookup c) (inflight c), nextLookup := nextLookup c + 1\<rparr>)))"

definition leaderDone :: "string \<Rightarrow> nat \<Rightarrow> lookupError + string list \<Rightarrow> dnsCache \<Rightarrow> dnsCache" where
  "leaderDone domain k r c =
    (let c = (case r of Inr ips \<Rightarrow> c\<lparr>cachedIPs := mput domain ips (cachedIPs c)\<rparr> | Inl _ \<Rightarrow> c)
     in c\<lparr>inflight := mdel domain (inflight c), lookups := mput k r (lookups c)\<rparr>)"

definition isContextErr :: "lookupError \<Rightarrow> bool" where
  "isContextErr e = (case e of ContextError \<Rightarrow> True | NoServers \<Rightarrow> False | AllFailed q _ \<Rightarrow> qContext q)"

text \<open>A follower once its leader is done, or its own context has: its answer, or none and it looks again.\<close>

definition followerDone :: "nat \<Rightarrow> bool \<Rightarrow> dnsCache \<Rightarrow> (lookupError + string list) option" where
  "followerDone k ended c = (case map_of (lookups c) k of
     None \<Rightarrow> if ended then Some (Inl ContextError) else None
   | Some (Inr ips) \<Rightarrow> Some (Inr ips)
   | Some (Inl e) \<Rightarrow> if isContextErr e \<and> \<not> ended then None else Some (Inl e))"

text \<open>The preferred address: none is the panic of an empty list.\<close>

definition preferred :: "string list \<Rightarrow> string option" where
  "preferred ips = (case ips of [] \<Rightarrow> None | ip # _ \<Rightarrow> Some ip)"

definition refreshed :: "string \<Rightarrow> lookupError + string list \<Rightarrow> dnsCache \<Rightarrow> dnsCache" where
  "refreshed domain r c = (case r of Inl _ \<Rightarrow> c | Inr ips \<Rightarrow> c\<lparr>cachedIPs := mput domain ips (cachedIPs c)\<rparr>)"

definition setAside :: "string \<Rightarrow> string \<Rightarrow> dnsCache \<Rightarrow> dnsCache" where
  "setAside domain ip c =
    (let ips = (case map_of (cachedIPs c) domain of None \<Rightarrow> [] | Some ips \<Rightarrow> ips); out = filter (\<lambda>x. x \<noteq> ip) ips
     in if length out = length ips then c else c\<lparr>cachedIPs := mput domain (out @ [ip]) (cachedIPs c)\<rparr>)"

definition forgetName :: "string \<Rightarrow> dnsCache \<Rightarrow> dnsCache" where
  "forgetName domain c = c\<lparr>cachedIPs := mdel domain (cachedIPs c)\<rparr>"

text \<open>The cache cleared, and the index of the last successful server with it.\<close>

definition clearCache :: "dnsCache \<Rightarrow> dnsCache \<times> int" where
  "clearCache c = (c\<lparr>cachedIPs := []\<rparr>, 0)"

text \<open>Every address of the cache, each once (the order of the names is that of a map: any).\<close>

definition resolvedHostIPs :: "dnsCache \<Rightarrow> string list" where
  "resolvedHostIPs c = fold (\<lambda>ip out. if ip \<noteq> [] \<and> ip \<notin> set out then out @ [ip] else out) (concat (map snd (cachedIPs c))) []"

end
