(* ===== verification/DnsProps.thy ===== *)
theory DnsProps
  imports Dns Traces
begin

text \<open>
  What the resolver promises: no message can make its parser read past the end; a well-formed reply gives all its
  addresses; a lookup fails only when every server has; and no name is cached without an address.
\<close>

section \<open>The parser stays inside\<close>

lemma uint16At_some: "i + 2 \<le> length b \<Longrightarrow> \<exists>n. uint16At b i = Some n"
  by (simp add: uint16At_def)

lemma quadAt_some: "i + 4 \<le> length b \<Longrightarrow> \<exists>q. quadAt b i = Some q"
  by (simp add: quadAt_def byteAt_def)

lemma readAnswers_some: "\<exists>r. readAnswers k b off ips = Some r"
proof (induction k arbitrary: off ips)
  case (Suc k)
  show ?case
  proof (cases "off < length b \<and> int (nameEnd b off) < int (length b) - 10")
    case False
    then show ?thesis by (auto simp: Let_def)
  next
    case True
    let ?o = "nameEnd b off"
    obtain t where t: "uint16At b ?o = Some t" using uint16At_some [of ?o b] True by auto
    obtain r where r: "uint16At b (?o + 8) = Some r" using uint16At_some [of "?o + 8" b] True by auto
    obtain q where "?o + 10 + 4 \<le> length b \<longrightarrow> quadAt b (?o + 10) = Some q" using quadAt_some by blast
    then show ?thesis using True t r Suc by (auto simp: Let_def)
  qed
qed simp

text \<open>
  C37. Whatever bytes a resolver sends, the parser never indexes past their end: it returns addresses, at least one, or
  a failure that says the resolver was reached.
\<close>

theorem dns_reply_never_panics:
  "\<exists>r. parseDNSResponse b = Some r \<and> (case r of Inl e \<Rightarrow> qReached e | Inr ips \<Rightarrow> ips \<noteq> [])"
proof (cases "length b < 12")
  case True
  then show ?thesis by (simp add: parseDNSResponse_def dnsReachedf_def)
next
  case False
  then obtain f a where f: "uint16At b 2 = Some f" "uint16At b 6 = Some a"
    using uint16At_some [of 2 b] uint16At_some [of 6 b] by auto
  obtain ips where "readAnswers a b (skipQuestion b 12 + 5) [] = Some ips" using readAnswers_some by blast
  then show ?thesis using False f by (auto simp: parseDNSResponse_def dnsReachedf_def)
qed

section \<open>A well-formed reply\<close>

definition encLabels :: "byte list list \<Rightarrow> byte list" where
  "encLabels ls = concat (map (\<lambda>l. of_nat (length l) # l) ls)"

definition okLabels :: "byte list list \<Rightarrow> bool" where
  "okLabels ls \<longleftrightarrow> (\<forall>l \<in> set ls. 0 < length l \<and> length l \<le> 63)"

text \<open>A record: its name, some labels and then the root or a pointer; its type; class and time to live; its data.\<close>

record dnsRR =
  rrLabels :: "byte list list"
  rrPointer :: "(byte \<times> byte) option"
  rrType :: nat
  rrClassTTL :: "byte list"
  rrData :: "byte list"

definition nameTail :: "(byte \<times> byte) option \<Rightarrow> byte list" where
  "nameTail p = (case p of None \<Rightarrow> [0] | Some (a, b) \<Rightarrow> [a, b])"

definition encRR :: "dnsRR \<Rightarrow> byte list" where
  "encRR rr = encLabels (rrLabels rr) @ nameTail (rrPointer rr) @ putBE 2 (rrType rr) @ rrClassTTL rr @
     putBE 2 (length (rrData rr)) @ rrData rr"

definition okRR :: "dnsRR \<Rightarrow> bool" where
  "okRR rr \<longleftrightarrow> okLabels (rrLabels rr) \<and> (\<forall>a b. rrPointer rr = Some (a, b) \<longrightarrow> 63 < unat a) \<and> rrType rr < 2 ^ 16 \<and>
     length (rrClassTTL rr) = 6 \<and> length (rrData rr) < 2 ^ 16"

definition addressesOf :: "dnsRR list \<Rightarrow> string list" where
  "addressesOf rrs = map (\<lambda>rr. dotted (rrData rr ! 0, rrData rr ! 1, rrData rr ! 2, rrData rr ! 3))
     (filter (\<lambda>rr. rrType rr = 1 \<and> length (rrData rr) = 4) rrs)"

lemma encLabels_simps [simp]: "encLabels [] = []" "encLabels (l # ls) = of_nat (length l) # l @ encLabels ls"
  by (simp_all add: encLabels_def)

lemma okLabels_Cons: "okLabels (l # ls) \<longleftrightarrow> 0 < length l \<and> length l \<le> 63 \<and> okLabels ls"
  by (auto simp: okLabels_def)

lemma label_length:
  assumes "0 < n" "n \<le> 63"
  shows "unat (of_nat n :: byte) = n \<and> (of_nat n :: byte) \<noteq> 0"
proof -
  have u: "unat (of_nat n :: byte) = n" using assms by (simp add: unat_of_nat_byte)
  moreover have "(of_nat n :: byte) \<noteq> 0" using u assms(1) by (metis unat_0 less_irrefl)
  ultimately show ?thesis ..
qed

lemma skipQuestion_labels:
  "okLabels ls \<Longrightarrow> skipQuestion (pre @ encLabels ls @ 0 # post) (length pre) = length pre + length (encLabels ls)"
proof (induction ls arbitrary: pre)
  case Nil
  then show ?case by (subst skipQuestion.simps) simp
next
  case (Cons l ls)
  then have l: "unat (of_nat (length l) :: byte) = length l" "(of_nat (length l) :: byte) \<noteq> 0" "length l \<le> 63"
    using label_length [of "length l"] by (simp_all add: okLabels_Cons)
  have "skipQuestion (pre @ encLabels (l # ls) @ 0 # post) (length pre)
      = skipQuestion ((pre @ of_nat (length l) # l) @ encLabels ls @ 0 # post) (length (pre @ of_nat (length l) # l))"
    by (subst skipQuestion.simps) (use l in \<open>simp add: nth_append\<close>)
  then show ?case using Cons.IH [of "pre @ of_nat (length l) # l"] Cons.prems by (simp add: okLabels_Cons)
qed

lemma skipName_labels:
  "\<lbrakk>okLabels ls; t = [] \<or> 63 < unat (hd t); t = [] \<longrightarrow> post = 0 # post'\<rbrakk> \<Longrightarrow>
   skipName (pre @ encLabels ls @ t @ post) (length pre) =
     (if t = [] then (length pre + length (encLabels ls), False) else (length pre + length (encLabels ls) + 2, True))"
proof (induction ls arbitrary: pre)
  case Nil
  then show ?case by (subst skipName.simps) (cases t; auto simp: nth_append)
next
  case (Cons l ls)
  then have l: "unat (of_nat (length l) :: byte) = length l" "(of_nat (length l) :: byte) \<noteq> 0" "length l \<le> 63"
    using label_length [of "length l"] by (simp_all add: okLabels_Cons)
  have "skipName (pre @ encLabels (l # ls) @ t @ post) (length pre)
      = skipName ((pre @ of_nat (length l) # l) @ encLabels ls @ t @ post) (length (pre @ of_nat (length l) # l))"
    by (subst skipName.simps) (use l in \<open>simp add: nth_append\<close>)
  then show ?case using Cons.IH [of "pre @ of_nat (length l) # l"] Cons.prems by (auto simp: okLabels_Cons)
qed

lemma nameEnd_name:
  assumes "okLabels ls" "\<forall>a b. p = Some (a, b) \<longrightarrow> 63 < unat a"
  shows "nameEnd (pre @ encLabels ls @ nameTail p @ post) (length pre) = length pre + length (encLabels ls @ nameTail p)"
proof (cases p)
  case None
  have "skipName (pre @ encLabels ls @ [] @ 0 # post) (length pre) = (length pre + length (encLabels ls), False)"
    using skipName_labels [OF assms(1), of "[]" "0 # post" post pre] by simp
  then show ?thesis using None by (simp add: nameEnd_def nameTail_def nth_append)
next
  case (Some ab)
  then obtain a b where ab: "p = Some (a, b)" by (cases ab) simp
  have "skipName (pre @ encLabels ls @ [a, b] @ post) (length pre) = (length pre + length (encLabels ls) + 2, True)"
    using skipName_labels [OF assms(1), of "[a, b]" post "[]" pre] assms(2) ab by simp
  then show ?thesis using ab by (simp add: nameEnd_def nameTail_def)
qed

lemma uint16At_put: "n < 2 ^ 16 \<Longrightarrow> i = length pre \<Longrightarrow> uint16At (pre @ putBE 2 n @ post) i = Some n"
  using slice_append2 [of pre i "putBE 2 n" post] by (simp add: uint16At_def beNat_putBE)

lemma quadAt_data: "length d = 4 \<Longrightarrow> i = length pre \<Longrightarrow> quadAt (pre @ d @ post) i = Some (d ! 0, d ! 1, d ! 2, d ! 3)"
  by (simp add: quadAt_def byteAt_def nth_append)

lemma encRR_not_Nil: "encRR rr \<noteq> []"
  by (auto simp: encRR_def nameTail_def split: option.splits)

text \<open>A reader at the head of some records reads their addresses.\<close>

lemma readAnswers_records:
  "\<forall>rr \<in> set rrs. okRR rr \<Longrightarrow>
   readAnswers (length rrs) (pre @ concat (map encRR rrs)) (length pre) ips = Some (ips @ addressesOf rrs)"
proof (induction rrs arbitrary: pre ips)
  case Nil
  then show ?case by (simp add: addressesOf_def)
next
  case (Cons rr rrs)
  let ?n = "encLabels (rrLabels rr) @ nameTail (rrPointer rr)" and ?d = "rrData rr"
  let ?b = "pre @ concat (map encRR (rr # rrs))" and ?post = "concat (map encRR rrs)"
  let ?o = "length pre + length ?n"
  have ok: "okLabels (rrLabels rr)" "\<forall>a b. rrPointer rr = Some (a, b) \<longrightarrow> 63 < unat a" "rrType rr < 2 ^ 16"
    "length (rrClassTTL rr) = 6" "length ?d < 2 ^ 16" using Cons.prems by (simp_all add: okRR_def)
  have b1: "?b = pre @ ?n @ (putBE 2 (rrType rr) @ rrClassTTL rr @ putBE 2 (length ?d) @ ?d @ ?post)"
    and b2: "?b = (pre @ ?n) @ putBE 2 (rrType rr) @ (rrClassTTL rr @ putBE 2 (length ?d) @ ?d @ ?post)"
    and b3: "?b = (pre @ ?n @ putBE 2 (rrType rr) @ rrClassTTL rr) @ putBE 2 (length ?d) @ (?d @ ?post)"
    and b4: "?b = (pre @ ?n @ putBE 2 (rrType rr) @ rrClassTTL rr @ putBE 2 (length ?d)) @ ?d @ ?post"
    and b5: "?b = (pre @ encRR rr) @ ?post"
    by (simp_all add: encRR_def)
  have e: "nameEnd ?b (length pre) = ?o" unfolding b1 using nameEnd_name [OF ok(1,2)] by simp
  have t: "uint16At ?b ?o = Some (rrType rr)" unfolding b2 using ok(3) by (intro uint16At_put) simp_all
  have r: "uint16At ?b (?o + 8) = Some (length ?d)" unfolding b3 using ok(4,5) by (intro uint16At_put) simp_all
  have q: "length ?d = 4 \<Longrightarrow> quadAt ?b (?o + 10) = Some (?d ! 0, ?d ! 1, ?d ! 2, ?d ! 3)"
    unfolding b4 using ok(4) by (intro quadAt_data) simp_all
  have l: "length ?b = ?o + 10 + length ?d + length ?post" "length (pre @ encRR rr) = ?o + 10 + length ?d"
    using ok(4) by (simp_all add: encRR_def)
  have in_range: "length pre < length ?b" using encRR_not_Nil [of rr] by simp
  have more: "readAnswers (length rrs) ?b (?o + 10 + length ?d) jps = Some (jps @ addressesOf rrs)" for jps
  proof -
    have "\<forall>rr \<in> set rrs. okRR rr" using Cons.prems by simp
    from Cons.IH [OF this, of "pre @ encRR rr" jps] show ?thesis unfolding b5 l(2) .
  qed
  show ?case
  proof (cases "?d = [] \<and> ?post = []")
    case True
    then have "rrs = []" using encRR_not_Nil by (cases rrs) auto
    have stop: "int ?o \<ge> int (length ?b) - 10" using l(1) True by simp
    have "readAnswers (length (rr # rrs)) ?b (length pre) ips = Some ips"
      using in_range stop by (simp only: length_Cons readAnswers.simps e Let_def if_True if_False not_not simp_thms)
    moreover have "addressesOf (rr # rrs) = []" using \<open>rrs = []\<close> True by (simp add: addressesOf_def)
    ultimately show ?thesis by (simp only: append_Nil2)
  next
    case False
    then have "0 < length ?d + length ?post" by (metis add_gr_0 length_greater_0_conv)
    then have go: "\<not> int ?o \<ge> int (length ?b) - 10" using l(1) by linarith
    have step: "readAnswers (length (rr # rrs)) ?b (length pre) ips =
        (if rrType rr = 1 \<and> length ?d = 4
         then readAnswers (length rrs) ?b (?o + 10 + length ?d) (ips @ [dotted (?d ! 0, ?d ! 1, ?d ! 2, ?d ! 3)])
         else readAnswers (length rrs) ?b (?o + 10 + length ?d) ips)"
    proof (cases "rrType rr = 1 \<and> length ?d = 4")
      case True
      then have fits: "?o + 10 + 4 \<le> length ?b" using l(1) by simp
      show ?thesis using in_range go True fits q
        by (simp only: length_Cons readAnswers.simps e t r Let_def if_True if_False not_not simp_thms option.case prod.case)
    next
      case False
      then have nf: "\<not> (rrType rr = 1 \<and> length ?d = 4 \<and> ?o + 10 + 4 \<le> length ?b)" by blast
      show ?thesis using in_range go
        by (simp only: length_Cons readAnswers.simps e t r Let_def nf False if_True if_False not_not simp_thms option.case prod.case)
    qed
    show ?thesis unfolding step more by (simp add: addressesOf_def)
  qed
qed

text \<open>A reply to the query for a name: the header, the question as it was asked, the records.\<close>

definition dnsReply :: "byte list \<Rightarrow> nat \<Rightarrow> byte list \<Rightarrow> byte list \<Rightarrow> string \<Rightarrow> dnsRR list \<Rightarrow> byte list" where
  "dnsReply rid flags qd counts domain rrs =
    rid @ putBE 2 flags @ qd @ putBE 2 (length rrs) @ counts @ drop 12 (buildDNSQuery 0 domain) @ concat (map encRR rrs)"

definition nameParts :: "string \<Rightarrow> string list" where
  "nameParts domain = splitOn (CHR ''.'') (trimSuffix domain ''.'')"

lemma nameBytes_labels: "nameBytes domain = encLabels (map stringBytes (nameParts domain)) @ [0]"
  by (simp add: nameBytes_def encLabels_def nameParts_def stringBytes_def comp_def)

text \<open>
  The answer to a query is read in full: of a reply that repeats the question and has records of any types, under
  names of labels or pointers, exactly the addresses of its A records are returned, in their order.
\<close>

theorem dns_reply_reads_back:
  assumes "length rid = 2" "length qd = 2" "length counts = 4" "flags < 2 ^ 16" "bit flags 15" "flags mod 16 = 0"
    and "\<forall>part \<in> set (nameParts domain). 0 < length part \<and> length part \<le> 63"
    and "rrs \<noteq> []" "length rrs < 2 ^ 16" "\<forall>rr \<in> set rrs. okRR rr"
  shows "parseDNSResponse (dnsReply rid flags qd counts domain rrs) =
    Some (if addressesOf rrs = [] then Inl (dnsReachedf ''no A record found in DNS response'') else Inr (addressesOf rrs))"
proof -
  let ?l = "encLabels (map stringBytes (nameParts domain))"
  let ?h = "rid @ putBE 2 flags @ qd @ putBE 2 (length rrs) @ counts"
  let ?b = "dnsReply rid flags qd counts domain rrs"
  have q: "drop 12 (buildDNSQuery 0 domain) = ?l @ [0, 0, 1, 0, 1]"
    by (simp add: buildDNSQuery_def Let_def nameBytes_labels)
  have ok: "okLabels (map stringBytes (nameParts domain))" using assms(7) by (simp add: okLabels_def stringBytes_def)
  have h: "length ?h = 12" using assms(1-3) by simp
  have b1: "?b = ?h @ ?l @ 0 # ([0, 1, 0, 1] @ concat (map encRR rrs))" by (simp add: dnsReply_def q)
  have s: "skipQuestion ?b 12 = 12 + length ?l" unfolding b1 using skipQuestion_labels [OF ok, of ?h] h by simp
  have b2: "?b = (?h @ ?l @ [0, 0, 1, 0, 1]) @ concat (map encRR rrs)" by (simp add: dnsReply_def q)
  have l: "length (?h @ ?l @ [0, 0, 1, 0, 1]) = 12 + length ?l + 5" using h by simp
  have a: "readAnswers (length rrs) ?b (12 + length ?l + 5) [] = Some (addressesOf rrs)"
    using readAnswers_records [OF assms(10), of "?h @ ?l @ [0, 0, 1, 0, 1]" "[]"] unfolding b2 [symmetric] l by simp
  have f: "uint16At ?b 2 = Some flags" unfolding dnsReply_def using assms(1,4) by (intro uint16At_put) simp_all
  have b3: "?b = (rid @ putBE 2 flags @ qd) @ putBE 2 (length rrs) @ (counts @ drop 12 (buildDNSQuery 0 domain) @ concat (map encRR rrs))"
    by (simp add: dnsReply_def)
  have c: "uint16At ?b 6 = Some (length rrs)" unfolding b3 using assms(1,2,9) by (intro uint16At_put) simp_all
  have "\<not> length ?b < 12" unfolding b1 using h by simp
  then show ?thesis unfolding parseDNSResponse_def f c s using a assms(5,6,8) by simp
qed

theorem dns_reply_reads_back_witness:
  "parseDNSResponse (dnsReply [1, 2] 0x8180 [0, 1] [0, 0, 0, 0] ''api.vk.ru.''
     [\<lparr>rrLabels = [], rrPointer = Some (0xC0, 12), rrType = 5, rrClassTTL = replicate 6 0, rrData = [1, 2, 3, 4]\<rparr>,
      \<lparr>rrLabels = [[97]], rrPointer = None, rrType = 1, rrClassTTL = replicate 6 0, rrData = [10, 0, 0, 1]\<rparr>])
   = Some (Inr [''10.0.0.1''])"
proof -
  let ?rrs = "[\<lparr>rrLabels = [], rrPointer = Some (0xC0, 12), rrType = 5, rrClassTTL = replicate 6 0, rrData = [1, 2, 3, 4]\<rparr>,
      \<lparr>rrLabels = [[97]], rrPointer = None, rrType = 1, rrClassTTL = replicate 6 0, rrData = [10, 0, 0, 1 :: byte]\<rparr>]"
  have f: "(33152 :: nat) < 2 ^ 16" "bit (33152 :: nat) 15" "(33152 :: nat) mod 16 = 0" by (simp_all add: bit_iff_odd)
  have p: "\<forall>part \<in> set (nameParts ''api.vk.ru.''). 0 < length part \<and> length part \<le> 63" by code_simp
  have o: "\<forall>rr \<in> set ?rrs. okRR rr" by (simp add: okRR_def okLabels_def)
  have a: "addressesOf ?rrs = [''10.0.0.1'']" by code_simp
  show ?thesis using dns_reply_reads_back [OF _ _ _ f p _ _ o, of "[1, 2]" "[0, 1]" "[0, 0, 0, 0]"] a by simp
qed

section \<open>A lookup\<close>

text \<open>The answers so far: by which server, and how it failed.\<close>

definition answersOf :: "dnsEvent list \<Rightarrow> (nat \<times> (queryError + string list)) list" where
  "answersOf h = List.map_filter (\<lambda>e. case e of Answered i a ended \<Rightarrow> Some (i, raceOutcome a) | _ \<Rightarrow> None) h"

lemma answersOf_snoc [simp]:
  "answersOf (h @ [e]) = answersOf h @ (case e of Answered i a ended \<Rightarrow> [(i, raceOutcome a)] | _ \<Rightarrow> [])"
  by (simp add: answersOf_def List.map_filter_def split: raceEvent.split)

definition failedAs :: "queryError + string list \<Rightarrow> queryError option" where
  "failedAs a = (case a of Inl e \<Rightarrow> Some e | Inr _ \<Rightarrow> None)"

lemma failedAs_iff: "failedAs a \<noteq> None \<longleftrightarrow> (\<exists>e. a = Inl e)"
  by (cases a) (simp_all add: failedAs_def)

text \<open>
  The servers asked are the first of the rotation; each is out or has failed; the race keeps the first failure and
  whether any came from a server reached.
\<close>

definition asked :: "nat \<Rightarrow> nat \<Rightarrow> nat \<Rightarrow> nat multiset" where
  "asked n start k = mset (map (\<lambda>q. (start + q) mod n) [0 ..< k])"

lemma asked_Suc: "asked n start (Suc k) = add_mset ((start + k) mod n) (asked n start k)"
  by (simp add: asked_def)

definition dnsRaceInv :: "nat \<Rightarrow> nat \<Rightarrow> dnsEvent list \<Rightarrow> dnsRace \<Rightarrow> bool" where
  "dnsRaceInv n start h s \<longleftrightarrow> dnsStarted s \<le> n \<and> dnsFinished s = length (answersOf h) \<and>
     mset (map fst (answersOf h)) + mset (dnsRunning s) = asked n start (dnsStarted s) \<and>
     (\<forall>a \<in> set (answersOf h). failedAs (snd a) \<noteq> None) \<and>
     dnsFirst s = (case answersOf h of [] \<Rightarrow> None | a # _ \<Rightarrow> failedAs (snd a)) \<and>
     (dnsReached s \<longleftrightarrow> (\<exists>(i, a) \<in> set (answersOf h). \<exists>e. a = Inl e \<and> qReached e))"

definition dnsLeft :: "nat \<Rightarrow> dnsRace \<Rightarrow> nat" where
  "dnsLeft n s = (n - dnsStarted s) + length (dnsRunning s) + (n - dnsStarted s)"

lemma dnsRaceInv_new: "dnsRaceInv n start [] newDnsRace"
  by (simp add: dnsRaceInv_def newDnsRace_def answersOf_def List.map_filter_def asked_def)

lemma dnsStep_answer:
  assumes "dnsRaceInv n start h s" "i \<in> set (dnsRunning s)" "raceOutcome a = Inl err"
  shows "dnsRaceInv n start (h @ [Answered i a ended])
    (s\<lparr>dnsFinished := dnsFinished s + 1, dnsRunning := remove1 i (dnsRunning s),
       dnsFirst := Some (case dnsFirst s of None \<Rightarrow> err | Some f \<Rightarrow> f), dnsReached := (dnsReached s \<or> qReached err)\<rparr>)"
proof -
  have "i \<in># mset (dnsRunning s)" using assms(2) by simp
  then have "add_mset i (A + mset (remove1 i (dnsRunning s))) = A + mset (dnsRunning s)" for A
    by (metis insert_DiffM mset_remove1 union_mset_add_mset_right)
  note put_back = this
  have inv: "dnsStarted s \<le> n" "dnsFinished s = length (answersOf h)"
    "mset (map fst (answersOf h)) + mset (dnsRunning s) = asked n start (dnsStarted s)"
    "\<forall>a \<in> set (answersOf h). failedAs (snd a) \<noteq> None"
    "dnsFirst s = (case answersOf h of [] \<Rightarrow> None | a # _ \<Rightarrow> failedAs (snd a))"
    "dnsReached s \<longleftrightarrow> (\<exists>(i, a) \<in> set (answersOf h). \<exists>e. a = Inl e \<and> qReached e)"
    using assms(1) unfolding dnsRaceInv_def by blast+
  have e: "mset (map fst (answersOf (h @ [Answered i a ended]))) = add_mset i (mset (map fst (answersOf h)))" by simp
  have ms: "mset (map fst (answersOf (h @ [Answered i a ended]))) + mset (remove1 i (dnsRunning s)) = asked n start (dnsStarted s)"
    unfolding e union_mset_add_mset_left put_back by (rule inv(3))
  show ?thesis unfolding dnsRaceInv_def
  proof (intro conjI)
    show "mset (map fst (answersOf (h @ [Answered i a ended]))) + mset (dnsRunning (s\<lparr>dnsFinished := dnsFinished s + 1,
        dnsRunning := remove1 i (dnsRunning s), dnsFirst := Some (case dnsFirst s of None \<Rightarrow> err | Some f \<Rightarrow> f),
        dnsReached := dnsReached s \<or> qReached err\<rparr>)) = asked n start (dnsStarted (s\<lparr>dnsFinished := dnsFinished s + 1,
        dnsRunning := remove1 i (dnsRunning s), dnsFirst := Some (case dnsFirst s of None \<Rightarrow> err | Some f \<Rightarrow> f),
        dnsReached := dnsReached s \<or> qReached err\<rparr>))"
      using ms by (simp add: assms(3) del: mset_remove1)
  qed (use inv(1,2,4-6) assms(3) in \<open>auto simp: failedAs_def split: list.splits sum.splits\<close>)
qed

lemma dnsStep_kept:
  assumes inv: "dnsRaceInv n start h s" and en: "dnsEnabled n s e" and st: "dnsStep n start s e = Inr s'"
  shows "dnsRaceInv n start (h @ [e]) s' \<and> dnsLeft n s' < dnsLeft n s"
proof (cases e)
  case Ended
  then show ?thesis using st by (simp add: dnsStep_def)
next
  case Timer
  then have "dnsStarted s < n" using en by (simp add: dnsEnabled_def)
  then show ?thesis using inv st Timer by (auto simp: dnsStep_def dnsRaceInv_def dnsLeft_def asked_Suc)
next
  case (Answered i a ended)
  then have i: "i \<in> set (dnsRunning s)" using en by (simp add: dnsEnabled_def)
  obtain err where err: "raceOutcome a = Inl err"
    using st Answered by (cases "raceOutcome a") (auto simp: dnsStep_def Let_def)
  have s': "s' = s\<lparr>dnsFinished := dnsFinished s + 1, dnsRunning := remove1 i (dnsRunning s),
       dnsFirst := Some (case dnsFirst s of None \<Rightarrow> err | Some f \<Rightarrow> f), dnsReached := (dnsReached s \<or> qReached err)\<rparr>"
    using st Answered err by (auto simp: dnsStep_def Let_def split: if_splits)
  have "length (remove1 i (dnsRunning s)) < length (dnsRunning s)"
    using i length_pos_if_in_set [OF i] by (simp add: length_remove1)
  then show ?thesis using dnsStep_answer [OF inv i err, of ended] Answered s' by (simp add: dnsLeft_def)
qed

interpretation dnsQueries: hedged_race "dnsStep n start" "dnsEnabled n" "dnsLeft n" "dnsRaceInv n start" for n start
  by unfold_locales (simp_all add: dnsStep_kept)

lemma rotation_inj:
  assumes "p < n" "q < n" "(start + p) mod n = (start + q) mod n" "p \<le> q"
  shows "p = (q :: nat)"
proof -
  have "n dvd (start + q) - (start + p)" using assms(3,4) mod_eq_dvd_iff_nat [of "start + p" "start + q" n] by simp
  then have "n dvd q - p" by simp
  then show ?thesis using assms(1,2,4) by (auto dest: dvd_imp_le)
qed

lemma asked_all: "0 < n \<Longrightarrow> asked n start n = mset [0 ..< n]"
proof -
  assume n: "0 < n"
  have inj: "inj_on (\<lambda>q. (start + q) mod n) {0 ..< n}"
    by (rule inj_onI) (metis atLeastLessThan_iff nat_le_linear rotation_inj)
  have "(\<lambda>q. (start + q) mod n) ` {0 ..< n} \<subseteq> {0 ..< n}" using n by auto
  then have "(\<lambda>q. (start + q) mod n) ` {0 ..< n} = {0 ..< n}" using endo_inj_surj [OF _ _ inj] by simp
  moreover have "distinct (map (\<lambda>q. (start + q) mod n) [0 ..< n])" using inj by (simp add: distinct_map)
  ultimately show ?thesis unfolding asked_def by (metis distinct_upt set_eq_iff_mset_eq_distinct set_map set_upt)
qed

text \<open>
  A lookup is given up as failed only when every server was asked, once, and every one of them failed; it is blamed on
  the network, no server reached, exactly if none of the failures came from a resolver that spoke; and the failure shown is the
  first. A lookup that succeeds has the addresses of one of the servers, all that had answered before having failed.
\<close>

theorem lookup_fails_only_when_every_server_has:
  assumes "possible (dnsStep n (startIndex n lastOK)) (dnsEnabled n) newDnsRace es"
    and "resolveWithOrderedServers n lastOK es = Some (r, lastOK')" "0 < n"
  shows "(\<forall>f reached. r = Inl (AllFailed f reached) \<longrightarrow> lastOK' = lastOK \<and>
      (\<exists>before e after. es = before @ e # after \<and>
        mset (map fst (answersOf (before @ [e]))) = mset [0 ..< n] \<and>
        (\<forall>a \<in> set (answersOf (before @ [e])). \<exists>q. snd a = Inl q) \<and> snd (hd (answersOf (before @ [e]))) = Inl f \<and>
        (reached \<longleftrightarrow> (\<exists>(i, a) \<in> set (answersOf (before @ [e])). \<exists>q. a = Inl q \<and> qReached q)))) \<and>
    (\<forall>ips. r = Inr ips \<longrightarrow> ips \<noteq> [] \<and> 0 \<le> lastOK' \<and> nat lastOK' < n \<and>
      (\<exists>before ended after. es = before @ Answered (nat lastOK') (Inr ips) ended # after \<and>
        (\<forall>a \<in> set (answersOf before). \<exists>q. snd a = Inl q))) \<and> r \<noteq> Inl NoServers"
proof -
  let ?st = "startIndex n lastOK"
  obtain x where x: "raceRun (dnsStep n ?st) newDnsRace es = Inl x"
    using assms(2,3) by (auto simp: resolveWithOrderedServers_def split: sum.splits)
  obtain before e after s where b: "es = before @ e # after" "dnsRaceInv n ?st before s" "dnsEnabled n s e" "dnsStep n ?st s e = Inl x"
    using dnsQueries.returned [OF dnsRaceInv_new assms(1) x] by auto
  have r: "r = (case x of Inl err \<Rightarrow> Inl err | Inr (i, ips) \<Rightarrow> Inr ips) \<and>
      lastOK' = (case x of Inl err \<Rightarrow> lastOK | Inr (i, ips) \<Rightarrow> int i)"
    using assms(2,3) x by (auto simp: resolveWithOrderedServers_def split: sum.splits)
  show ?thesis
  proof (cases e)
    case Ended
    then show ?thesis using b(4) r by (auto simp: dnsStep_def)
  next
    case Timer
    then show ?thesis using b(4) by (simp add: dnsStep_def split: if_splits)
  next
    case (Answered i a ended)
    then have i: "i \<in> set (dnsRunning s)" using b(3) by (simp add: dnsEnabled_def)
    have older: "\<forall>a \<in> set (answersOf before). \<exists>q. snd a = Inl q"
      using b(2) by (simp add: dnsRaceInv_def failedAs_iff del: not_None_eq)
    show ?thesis
    proof (cases "raceOutcome a")
      case (Inr ips)
      then have a: "a = Inr ips" "ips \<noteq> []" by (auto simp: raceOutcome_def split: sum.splits list.splits)
      have x: "x = Inr (i, ips)" using b(4) Answered Inr by (simp add: dnsStep_def)
      have "i \<in># mset (map fst (answersOf before)) + mset (dnsRunning s)" using i by simp
      moreover have "mset (map fst (answersOf before)) + mset (dnsRunning s) = asked n ?st (dnsStarted s)"
        using b(2) unfolding dnsRaceInv_def by blast
      ultimately have "i \<in># asked n ?st (dnsStarted s)" by (simp only:)
      then have "i < n" using assms(3) by (auto simp: asked_def)
      then show ?thesis using r x a older b(1) Answered by auto
    next
      case (Inl err)
      let ?s = "s\<lparr>dnsFinished := dnsFinished s + 1, dnsRunning := remove1 i (dnsRunning s),
        dnsFirst := Some (case dnsFirst s of None \<Rightarrow> err | Some f \<Rightarrow> f), dnsReached := (dnsReached s \<or> qReached err)\<rparr>"
      have inv: "dnsRaceInv n ?st (before @ [e]) ?s" using dnsStep_answer [OF b(2) i Inl] Answered by simp
      have fin: "\<not> dnsFinished s + 1 < n" and x: "x = Inl ContextError \<or>
          x = Inl (AllFailed (case dnsFirst s of None \<Rightarrow> err | Some f \<Rightarrow> f) (dnsReached s \<or> qReached err))"
        using b(4) Answered Inl by (auto simp: dnsStep_def Let_def split: if_splits)
      have len: "length (answersOf (before @ [e])) + length (dnsRunning ?s) = dnsStarted s"
      proof -
        have "size (mset (map fst (answersOf (before @ [e]))) + mset (dnsRunning ?s)) = size (asked n ?st (dnsStarted ?s))"
          using inv by (simp add: dnsRaceInv_def)
        then show ?thesis by (simp add: asked_def del: mset_remove1 answersOf_snoc)
      qed
      have fa: "length (answersOf (before @ [e])) = dnsFinished s + 1" using inv by (simp add: dnsRaceInv_def)
      have le: "dnsStarted s \<le> n" using b(2) unfolding dnsRaceInv_def by blast
      have "length (dnsRunning ?s) = 0" "dnsStarted s = n" using len fa fin le by linarith+
      then have "dnsStarted s = n \<and> dnsRunning ?s = []" by (simp only: length_0_conv simp_thms)
      then have all: "mset (map fst (answersOf (before @ [e]))) = mset [0 ..< n]"
        using inv asked_all [OF assms(3), of ?st] by (simp add: dnsRaceInv_def)
      have failed: "\<forall>a \<in> set (answersOf (before @ [e])). \<exists>q. snd a = Inl q"
        using inv by (simp add: dnsRaceInv_def failedAs_iff del: not_None_eq answersOf_snoc)
      have first: "snd (hd (answersOf (before @ [e]))) = Inl (case dnsFirst s of None \<Rightarrow> err | Some f \<Rightarrow> f)"
      proof (cases "answersOf (before @ [e])")
        case (Cons p ps)
        then have "Some (case dnsFirst s of None \<Rightarrow> err | Some f \<Rightarrow> f) = failedAs (snd p)" using inv by (simp add: dnsRaceInv_def)
        then show ?thesis using Cons by (auto simp: failedAs_def split: sum.splits)
      qed (use fa in simp)
      have reached: "(dnsReached s \<or> qReached err) = (\<exists>(i, a) \<in> set (answersOf (before @ [e])). \<exists>q. a = Inl q \<and> qReached q)"
        using inv by (simp add: dnsRaceInv_def)
      show ?thesis using x
      proof
        assume "x = Inl ContextError"
        then show ?thesis using r by simp
      next
        assume "x = Inl (AllFailed (case dnsFirst s of None \<Rightarrow> err | Some f \<Rightarrow> f) (dnsReached s \<or> qReached err))"
        then have "r = Inl (AllFailed (case dnsFirst s of None \<Rightarrow> err | Some f \<Rightarrow> f) (dnsReached s \<or> qReached err))"
          "lastOK' = lastOK" using r by simp_all
        then show ?thesis using b(1) all failed first reached
          by (simp only: sum.inject lookupError.inject sum.distinct lookupError.distinct simp_thms) blast
      qed
    qed
  qed
qed

theorem lookup_fails_only_when_every_server_has_witness:
  "let es = [Timer, Timer, Answered 1 (Inl (QueryError ''timeout'' False False)) False,
         Answered 0 (Inl (dnsReachedf ''rcode'')) False];
       f = QueryError ''timeout'' False False
   in resolveWithOrderedServers 2 1 es = Some (Inl (AllFailed f True), 1) \<and>
      (\<exists>before e after. es = before @ e # after \<and> mset (map fst (answersOf (before @ [e]))) = mset [0 ..< 2])"
proof -
  let ?es = "[Timer, Timer, Answered 1 (Inl (QueryError ''timeout'' False False)) False,
    Answered 0 (Inl (dnsReachedf ''rcode'')) False] :: dnsEvent list"
  have r: "resolveWithOrderedServers 2 1 ?es = Some (Inl (AllFailed (QueryError ''timeout'' False False) True), 1)" by code_simp
  have p: "possible (dnsStep 2 (startIndex 2 1)) (dnsEnabled 2) newDnsRace ?es" by code_simp
  from lookup_fails_only_when_every_server_has [OF p r] r show ?thesis unfolding Let_def by (simp only: zero_less_numeral) blast
qed

section \<open>The cache\<close>

text \<open>What is asked of the cache, and what it answers.\<close>

datatype cacheCall = Asks string | LeaderDone string nat "lookupError + string list" | FollowerDone nat bool
  | Refreshed string "lookupError + string list" | SetAside string string | Forgets string | Clears

datatype cacheAnswer = Looked resolveLook | Follower "(lookupError + string list) option" | NoAnswer

fun cacheStep :: "cacheCall \<Rightarrow> dnsCache \<Rightarrow> cacheAnswer \<times> dnsCache" where
  "cacheStep (Asks d) c = (let (l, c) = resolveAll d c in (Looked l, c))"
| "cacheStep (LeaderDone d k r) c = (NoAnswer, leaderDone d k r c)"
| "cacheStep (FollowerDone k ended) c = (Follower (followerDone k ended c), c)"
| "cacheStep (Refreshed d r) c = (NoAnswer, refreshed d r c)"
| "cacheStep (SetAside d ip) c = (NoAnswer, setAside d ip c)"
| "cacheStep (Forgets d) c = (NoAnswer, forgetName d c)"
| "cacheStep Clears c = (NoAnswer, fst (clearCache c))"

text \<open>A lookup gives addresses when it gives no error (as the race does).\<close>

fun givesAddresses :: "cacheCall \<Rightarrow> bool" where
  "givesAddresses (LeaderDone d k r) = (r \<noteq> Inr [])"
| "givesAddresses (Refreshed d r) = (r \<noteq> Inr [])"
| "givesAddresses _ = True"

text \<open>
  No list cached or handed to followers is empty; every lead is for a lookup of its own, and while one is in flight the name
  has no other.
\<close>

definition leadsOf :: "(cacheCall \<times> cacheAnswer) list \<Rightarrow> (string \<times> nat) list" where
  "leadsOf tr = List.map_filter (\<lambda>(c, a). case (c, a) of (Asks d, Looked (Leads k)) \<Rightarrow> Some (d, k) | _ \<Rightarrow> None) tr"

definition doneOf :: "(cacheCall \<times> cacheAnswer) list \<Rightarrow> string list" where
  "doneOf tr = List.map_filter (\<lambda>(c, a). case c of LeaderDone d k r \<Rightarrow> Some d | _ \<Rightarrow> None) tr"

lemma leadsOf_snoc [simp]: "leadsOf (tr @ [(c, a)]) = leadsOf tr @ (case (c, a) of (Asks d, Looked (Leads k)) \<Rightarrow> [(d, k)] | _ \<Rightarrow> [])"
  by (auto simp: leadsOf_def List.map_filter_def split: cacheCall.splits cacheAnswer.splits resolveLook.splits)

lemma doneOf_snoc [simp]: "doneOf (tr @ [(c, a)]) = doneOf tr @ (case c of LeaderDone d k r \<Rightarrow> [d] | _ \<Rightarrow> [])"
  by (auto simp: doneOf_def List.map_filter_def split: cacheCall.splits)

definition fullLists :: "dnsCache \<Rightarrow> bool" where
  "fullLists c \<longleftrightarrow> (\<forall>d. map_of (cachedIPs c) d \<noteq> Some []) \<and> (\<forall>k. map_of (lookups c) k \<noteq> Some (Inr []))"

definition emptyAnswer :: "cacheAnswer \<Rightarrow> bool" where
  "emptyAnswer a \<longleftrightarrow> a = Looked (Cached []) \<or> a = Follower (Some (Inr []))"

definition oneFlight :: "(cacheCall \<times> cacheAnswer) list \<Rightarrow> dnsCache \<Rightarrow> bool" where
  "oneFlight tr c \<longleftrightarrow> (\<forall>d. count_list (map fst (leadsOf tr)) d
     \<le> count_list (doneOf tr) d + (if map_of (inflight c) d = None then 0 else 1))"

lemma fullLists_step:
  assumes "fullLists c" "givesAddresses call" "cacheStep call c = (a, c')"
  shows "fullLists c' \<and> \<not> emptyAnswer a"
proof (cases call)
  case (Asks d)
  then show ?thesis using assms
    by (auto simp: fullLists_def emptyAnswer_def resolveAll_def split: option.splits)
next
  case (LeaderDone d k r)
  then show ?thesis using assms
    by (cases r) (auto simp: fullLists_def emptyAnswer_def leaderDone_def Let_def split: if_splits)
next
  case (FollowerDone k ended)
  then show ?thesis using assms
    by (auto simp: fullLists_def emptyAnswer_def followerDone_def split: option.splits sum.splits if_splits)
next
  case (Refreshed d r)
  then show ?thesis using assms by (cases r) (auto simp: fullLists_def emptyAnswer_def refreshed_def split: if_splits)
next
  case (SetAside d ip)
  then show ?thesis using assms by (auto simp: fullLists_def emptyAnswer_def setAside_def Let_def split: if_splits)
next
  case (Forgets d)
  then show ?thesis using assms by (auto simp: fullLists_def emptyAnswer_def forgetName_def split: if_splits)
next
  case Clears
  then show ?thesis using assms by (auto simp: fullLists_def emptyAnswer_def clearCache_def)
qed

text \<open>A call that neither leads a lookup nor ends one leaves the flights as they were.\<close>

lemma oneFlight_other:
  assumes "cacheStep call c = (a, c')" "\<forall>d k r. call \<noteq> LeaderDone d k r"
    and "\<forall>d. call = Asks d \<longrightarrow> map_of (cachedIPs c) d \<noteq> None \<or> map_of (inflight c) d \<noteq> None"
  shows "inflight c' = inflight c \<and> leadsOf (tr @ [(call, a)]) = leadsOf tr \<and> doneOf (tr @ [(call, a)]) = doneOf tr"
proof (cases call)
  case (Asks d)
  then show ?thesis using assms(1,3) by (auto simp: resolveAll_def split: option.splits)
next
  case (LeaderDone d k r)
  then show ?thesis using assms(2) by simp
next
  case (Refreshed d r)
  then show ?thesis using assms(1) by (cases r) (auto simp: refreshed_def)
qed (use assms(1) in \<open>auto simp: setAside_def forgetName_def clearCache_def Let_def\<close>)

lemma oneFlight_step:
  assumes "oneFlight tr c" "cacheStep call c = (a, c')"
  shows "oneFlight (tr @ [(call, a)]) c'"
  unfolding oneFlight_def
proof
  fix e
  have f: "count_list (map fst (leadsOf tr)) e \<le> count_list (doneOf tr) e + (if map_of (inflight c) e = None then 0 else 1)"
    using assms(1) by (simp add: oneFlight_def)
  show "count_list (map fst (leadsOf (tr @ [(call, a)]))) e
      \<le> count_list (doneOf (tr @ [(call, a)])) e + (if map_of (inflight c') e = None then 0 else 1)"
  proof (cases "\<exists>d. call = Asks d \<and> map_of (cachedIPs c) d = None \<and> map_of (inflight c) d = None")
    case True
    then obtain d where d: "call = Asks d" "map_of (cachedIPs c) d = None" "map_of (inflight c) d = None" by blast
    then have r: "a = Looked (Leads (nextLookup c))"
      "c' = c\<lparr>inflight := mput d (nextLookup c) (inflight c), nextLookup := nextLookup c + 1\<rparr>"
      using assms(2) by (simp_all add: resolveAll_def)
    show ?thesis using f d r by (cases "e = d") simp_all
  next
    case same: False
    show ?thesis
    proof (cases "\<exists>d k r. call = LeaderDone d k r")
      case True
      then obtain d k r where d: "call = LeaderDone d k r" by blast
      then have i: "inflight c' = mdel d (inflight c)" "a = NoAnswer"
        using assms(2) by (auto simp: leaderDone_def Let_def split: sum.splits)
      show ?thesis
      proof (cases "e = d")
        case True
        then have "count_list (map fst (leadsOf tr)) e \<le> count_list (doneOf tr) e + 1" using f by (simp split: if_splits)
        then show ?thesis using d i True by simp
      qed (use d i f in simp)
    next
      case False
      then have "inflight c' = inflight c \<and> leadsOf (tr @ [(call, a)]) = leadsOf tr \<and> doneOf (tr @ [(call, a)]) = doneOf tr"
        using oneFlight_other [OF assms(2)] same by blast
      then show ?thesis using f by (simp only:)
    qed
  qed
qed

definition cacheKept :: "(cacheCall \<times> cacheAnswer) list \<Rightarrow> dnsCache \<Rightarrow> bool" where
  "cacheKept tr c \<longleftrightarrow> fullLists c \<and> oneFlight tr c \<and> (\<forall>x \<in> set tr. \<not> emptyAnswer (snd x))"

interpretation cached: traced cacheStep cacheKept givesAddresses
proof
  fix tr c call a c'
  assume k: "cacheKept tr c" and g: "givesAddresses call" and st: "cacheStep call c = (a, c')"
  then have "fullLists c' \<and> \<not> emptyAnswer a" using fullLists_step unfolding cacheKept_def by blast
  moreover have "oneFlight (tr @ [(call, a)]) c'" using oneFlight_step [OF _ st] k unfolding cacheKept_def by blast
  ultimately show "cacheKept (tr @ [(call, a)]) c'" using k unfolding cacheKept_def by auto
qed

text \<open>
  However its calls interleave, and whatever is set aside, forgotten or refreshed meanwhile, as long as a lookup without an
  error gives an address: no list answered from the cache or by a leader is empty, so the first of it that callers take is
  there; and no name is ever looked up by two leaders at a time.
\<close>

theorem cache_never_answers_without_an_address:
  assumes "traceRun cacheStep calls newDnsCache = (tr, c)" "\<forall>q \<in> set calls. givesAddresses q"
  shows "(\<forall>(q, a) \<in> set tr. a \<noteq> Looked (Cached []) \<and> a \<noteq> Follower (Some (Inr []))) \<and>
    (\<forall>d. count_list (map fst (leadsOf tr)) d \<le> count_list (doneOf tr) d + 1)"
proof -
  have "cacheKept [] newDnsCache"
    by (simp add: cacheKept_def fullLists_def oneFlight_def newDnsCache_def leadsOf_def doneOf_def List.map_filter_def)
  then have k: "cacheKept tr c" using cached.run_establishes [OF assms(1) _ assms(2)] by blast
  have "count_list (map fst (leadsOf tr)) d \<le> count_list (doneOf tr) d + 1" for d
  proof -
    have "count_list (map fst (leadsOf tr)) d \<le> count_list (doneOf tr) d + (if map_of (inflight c) d = None then 0 else 1)"
      using k by (simp add: cacheKept_def oneFlight_def)
    then show ?thesis by (simp split: if_splits)
  qed
  then show ?thesis using k by (auto simp: cacheKept_def emptyAnswer_def)
qed

theorem cache_never_answers_without_an_address_witness:
  "let calls = [Asks ''vk.ru'', Asks ''vk.ru'', LeaderDone ''vk.ru'' 0 (Inr [''1.1.1.1'', ''2.2.2.2'']), FollowerDone 0 False,
       SetAside ''vk.ru'' ''1.1.1.1'', Asks ''vk.ru'', Forgets ''vk.ru'', Asks ''vk.ru''];
     tr = fst (traceRun cacheStep calls newDnsCache)
   in map snd tr = [Looked (Leads 0), Looked (Follows 0), NoAnswer, Follower (Some (Inr [''1.1.1.1'', ''2.2.2.2''])), NoAnswer,
       Looked (Cached [''2.2.2.2'', ''1.1.1.1'']), NoAnswer, Looked (Leads 1)] \<and>
     count_list (map fst (leadsOf tr)) ''vk.ru'' \<le> count_list (doneOf tr) ''vk.ru'' + 1"
proof -
  let ?calls = "[Asks ''vk.ru'', Asks ''vk.ru'', LeaderDone ''vk.ru'' 0 (Inr [''1.1.1.1'', ''2.2.2.2'']), FollowerDone 0 False,
       SetAside ''vk.ru'' ''1.1.1.1'', Asks ''vk.ru'', Forgets ''vk.ru'', Asks ''vk.ru'']"
  obtain tr c where t: "traceRun cacheStep ?calls newDnsCache = (tr, c)" by (cases "traceRun cacheStep ?calls newDnsCache") auto
  have g: "\<forall>q \<in> set ?calls. givesAddresses q" by simp
  have "map snd (fst (traceRun cacheStep ?calls newDnsCache)) = [Looked (Leads 0), Looked (Follows 0), NoAnswer,
       Follower (Some (Inr [''1.1.1.1'', ''2.2.2.2''])), NoAnswer,
       Looked (Cached [''2.2.2.2'', ''1.1.1.1'']), NoAnswer, Looked (Leads 1)]" by code_simp
  then show ?thesis using cache_never_answers_without_an_address [OF t g] t by (simp only: Let_def fst_conv)
qed

end
