(* ===== verification/HostMemory.thy ===== *)
theory HostMemory
  imports GoBase "HOL-Library.Word"
begin

text \<open>
  The addresses that VK's API hosts last connected on, in memory and in a file (\<open>pkg/proxy/vk_host_memory.go\<close>), for a
  network whose resolvers answer nobody. Files are known by their path and hold a decoded struct or nothing that decodes;
  whether a write of one succeeds is an argument.
\<close>

definition vkCallsAPIHost :: string where "vkCallsAPIHost = ''internal.api.vk.ru''"
definition vkCallsOKHostName :: string where "vkCallsOKHostName = ''calls.okcdn.ru''"

definition vkRememberedHosts :: "string list" where
  "vkRememberedHosts = [vkCallsAPIHost, vkCallsOKHostName]"

definition vkHostMemoryFileVersion :: int where "vkHostMemoryFileVersion = 1"
definition vkRememberedAddrsMax :: nat where "vkRememberedAddrsMax = 4"
definition vkRememberedMaxAge :: duration where "vkRememberedMaxAge = 30 * 24 * hour"
definition vkRememberedRewriteAfter :: duration where "vkRememberedRewriteAfter = 24 * hour"

declare vkRememberedMaxAge_def [go_consts] vkRememberedRewriteAfter_def [go_consts]

record vkRememberedAddrs =
  IPs :: "string list"
  ConnectedMs :: int

record vkHostMemoryFile =
  hostVersion :: int
  fileHosts :: "(string \<times> vkRememberedAddrs) list"

text \<open>What is at a path: nothing that decodes (no file, an error, no JSON of the struct), or the struct.\<close>

datatype hostFile = NoHosts | HoldsHosts vkHostMemoryFile

text \<open>The memory with the path its file has now (empty: no state dir yet) and the files.\<close>

record vkHostMemory =
  loadedFrom :: string
  writtenAt :: gtime
  vkHosts :: "(string \<times> vkRememberedAddrs) list"
  hostPath :: string
  hostFiles :: "(string \<times> hostFile) list"

text \<open>A process at its start, over the files it finds.\<close>

definition newHostMemory :: "string \<Rightarrow> (string \<times> hostFile) list \<Rightarrow> vkHostMemory" where
  "newHostMemory path files =
    \<lparr>loadedFrom = '''', writtenAt = zero_time, vkHosts = [], hostPath = path, hostFiles = files\<rparr>"

definition hostFileAt :: "vkHostMemory \<Rightarrow> string \<Rightarrow> hostFile" where
  "hostFileAt m path = (case map_of (hostFiles m) path of None \<Rightarrow> NoHosts | Some f \<Rightarrow> f)"

definition limitVKAddrs :: "string list \<Rightarrow> string list" where
  "limitVKAddrs ips = (if length ips > vkRememberedAddrsMax then take vkRememberedAddrsMax ips else ips)"

text \<open>One host of the file.\<close>

definition loadHost :: "string \<times> vkRememberedAddrs \<Rightarrow> (string \<times> vkRememberedAddrs) list \<Rightarrow> (string \<times> vkRememberedAddrs) list" where
  "loadHost he hs = (case he of (host, entry) \<Rightarrow>
     if host \<notin> set vkRememberedHosts \<or> IPs entry = [] then hs
     else (case map_of hs host of
         Some cur \<Rightarrow>
           if ConnectedMs entry > ConnectedMs cur
           then mput host \<lparr>IPs = limitVKAddrs (IPs entry), ConnectedMs = ConnectedMs entry\<rparr> hs else hs
       | None \<Rightarrow> mput host \<lparr>IPs = limitVKAddrs (IPs entry), ConnectedMs = ConnectedMs entry\<rparr> hs))"

definition loadVKHostMemoryLocked :: "string \<Rightarrow> vkHostMemory \<Rightarrow> vkHostMemory" where
  "loadVKHostMemoryLocked path m =
    (if path = [] \<or> loadedFrom m = path then m
     else let m = m\<lparr>loadedFrom := path\<rparr>
          in (case hostFileAt m path of
                NoHosts \<Rightarrow> m
              | HoldsHosts f \<Rightarrow>
                  if hostVersion f \<noteq> vkHostMemoryFileVersion then m
                  else m\<lparr>vkHosts := fold loadHost (fileHosts f) (vkHosts m)\<rparr>))"

definition rememberedVKAddrs :: "string \<Rightarrow> gtime \<Rightarrow> vkHostMemory \<Rightarrow> string list \<times> vkHostMemory" where
  "rememberedVKAddrs host now m =
    (if host \<notin> set vkRememberedHosts then ([], m)
     else let m = loadVKHostMemoryLocked (hostPath m) m
          in (case map_of (vkHosts m) host of
                None \<Rightarrow> ([], m)
              | Some entry \<Rightarrow>
                  if tsub now (ConnectedMs entry * millisecond) > vkRememberedMaxAge then ([], m) else (IPs entry, m)))"

definition saveVKHostMemoryLocked :: "string \<Rightarrow> bool \<Rightarrow> gtime \<Rightarrow> vkHostMemory \<Rightarrow> vkHostMemory" where
  "saveVKHostMemoryLocked path ok now m =
    (if path = [] \<or> \<not> ok then m
     else m\<lparr>hostFiles := mput path (HoldsHosts \<lparr>hostVersion = vkHostMemoryFileVersion, fileHosts = vkHosts m\<rparr>) (hostFiles m),
            writtenAt := now\<rparr>)"

definition rememberVKAddrs :: "string \<Rightarrow> string list \<Rightarrow> bool \<Rightarrow> gtime \<Rightarrow> vkHostMemory \<Rightarrow> vkHostMemory" where
  "rememberVKAddrs host ips ok now m =
    (if host \<notin> set vkRememberedHosts \<or> ips = [] then m
     else let ips = limitVKAddrs ips;
              path = hostPath m;
              m = loadVKHostMemoryLocked path m;
              prev = map_of (vkHosts m) host;
              m = m\<lparr>vkHosts := mput host \<lparr>IPs = ips, ConnectedMs = now div 1000000\<rparr> (vkHosts m)\<rparr>
          in if (case prev of None \<Rightarrow> False | Some prev \<Rightarrow> IPs prev = ips) \<and> tsub now (writtenAt m) < vkRememberedRewriteAfter
             then m else saveVKHostMemoryLocked path ok now m)"

definition connectedFirst :: "string \<Rightarrow> string list \<Rightarrow> string list \<Rightarrow> string list" where
  "connectedFirst ip ips aside =
    (let out = ip # filter (\<lambda>x. x \<noteq> ip \<and> x \<notin> set aside) ips
     in fold (\<lambda>x out. if x \<noteq> ip \<and> x \<notin> set out then out @ [x] else out) aside out)"

text \<open>
  Whether an attempt that got no response at all (\<open>errors.Is(err, errVKCallsNoResponse)\<close>, an argument) belongs to a flow that has
  gone out over an address from memory; the counts are 64 bits wide.
\<close>

definition silentOverRemembered :: "bool \<Rightarrow> 64 word \<Rightarrow> 64 word \<Rightarrow> bool" where
  "silentOverRemembered noResponse atStart now \<longleftrightarrow> noResponse \<and> now \<noteq> atStart"

definition setAsideRememberedVKAddr :: "string \<Rightarrow> string \<Rightarrow> bool \<Rightarrow> gtime \<Rightarrow> vkHostMemory \<Rightarrow> vkHostMemory" where
  "setAsideRememberedVKAddr host ip ok now m =
    (let path = hostPath m; m = loadVKHostMemoryLocked path m
     in (case map_of (vkHosts m) host of
           None \<Rightarrow> m
         | Some entry \<Rightarrow>
             if ip \<notin> set (IPs entry) then m
             else let entry = entry\<lparr>IPs := filter (\<lambda>x. x \<noteq> ip) (IPs entry) @ [ip]\<rparr>
                  in saveVKHostMemoryLocked path ok now (m\<lparr>vkHosts := mput host entry (vkHosts m)\<rparr>)))"

end
