(* ===== verification/HostMemoryProps.thy ===== *)
theory HostMemoryProps
  imports HostMemory Traces
begin

text \<open>What a restarted process finds of the addresses the one before connected on.\<close>

datatype hostCall = HostAsked string gtime | HostConnected string "string list" bool gtime | HostSilent string string bool gtime

fun hostStep :: "hostCall \<Rightarrow> vkHostMemory \<Rightarrow> string list \<times> vkHostMemory" where
  "hostStep (HostAsked host now) m = rememberedVKAddrs host now m"
| "hostStep (HostConnected host ips ok now) m = ([], rememberVKAddrs host ips ok now m)"
| "hostStep (HostSilent host ip ok now) m = ([], setAsideRememberedVKAddr host ip ok now m)"

text \<open>Its write succeeds.\<close>

fun isWritten :: "hostCall \<Rightarrow> bool" where
  "isWritten (HostAsked host now) = True"
| "isWritten (HostConnected host ips ok now) = ok"
| "isWritten (HostSilent host ip ok now) = ok"

definition foundAfter :: "vkHostMemory \<Rightarrow> (string \<times> vkRememberedAddrs) list" where
  "foundAfter m = vkHosts (loadVKHostMemoryLocked (hostPath m) (newHostMemory (hostPath m) (hostFiles m)))"

definition listFor :: "(string \<times> vkRememberedAddrs) list \<Rightarrow> string \<Rightarrow> string list option" where
  "listFor hs h = map_option IPs (map_of hs h)"

definition goodHosts :: "(string \<times> vkRememberedAddrs) list \<Rightarrow> bool" where
  "goodHosts hs \<longleftrightarrow> distinct (map fst hs) \<and>
     (\<forall>h e. map_of hs h = Some e \<longrightarrow> h \<in> set vkRememberedHosts \<and> IPs e \<noteq> [] \<and> length (IPs e) \<le> vkRememberedAddrsMax)"

lemma limit_length [simp]: "length (limitVKAddrs ips) \<le> vkRememberedAddrsMax"
  by (simp add: limitVKAddrs_def)

lemma limit_Nil [simp]: "limitVKAddrs ips = [] \<longleftrightarrow> ips = []"
  by (simp add: limitVKAddrs_def vkRememberedAddrsMax_def)

lemma limit_id: "length ips \<le> vkRememberedAddrsMax \<Longrightarrow> limitVKAddrs ips = ips"
  by (simp add: limitVKAddrs_def)

lemma goodHosts_mput:
  "\<lbrakk>goodHosts hs; h \<in> set vkRememberedHosts; IPs e \<noteq> []; length (IPs e) \<le> vkRememberedAddrsMax\<rbrakk> \<Longrightarrow> goodHosts (mput h e hs)"
  by (auto simp: goodHosts_def distinct_update split: if_splits)

lemma goodHosts_loadHost: "goodHosts hs \<Longrightarrow> goodHosts (loadHost he hs)"
  by (cases he) (auto simp: loadHost_def goodHosts_mput split: option.splits)

lemma goodHosts_load: "goodHosts hs \<Longrightarrow> goodHosts (fold loadHost es hs)"
  by (induction es arbitrary: hs) (simp_all add: goodHosts_loadHost)

text \<open>A good memory reads back from its file as it is.\<close>

lemma fold_loadHost:
  "\<lbrakk>distinct (map fst es); \<forall>(h, e) \<in> set es. h \<in> set vkRememberedHosts \<and> IPs e \<noteq> [] \<and> length (IPs e) \<le> vkRememberedAddrsMax;
    \<forall>h \<in> fst ` set es. map_of hs h = None\<rbrakk> \<Longrightarrow>
   map_of (fold loadHost es hs) h = (case map_of es h of Some e \<Rightarrow> Some e | None \<Rightarrow> map_of hs h)"
proof (induction es arbitrary: hs)
  case (Cons he es)
  obtain k e where he: "he = (k, e)" by (cases he)
  have "loadHost he hs = mput k e hs" using Cons.prems(2,3) he by (cases e) (simp add: loadHost_def limit_id)
  moreover have "\<forall>h \<in> fst ` set es. map_of (mput k e hs) h = None" using Cons.prems(1,3) he by auto
  moreover have "map_of es k = None" using Cons.prems(1) he by (simp add: map_of_eq_None_iff)
  ultimately show ?case using Cons.IH [of "mput k e hs"] Cons.prems(1,2) he by (auto split: option.splits)
qed simp

lemma good_reads_back:
  assumes "goodHosts hs"
  shows "map_of (fold loadHost hs []) = map_of hs"
proof
  fix h
  have "\<forall>(h, e) \<in> set hs. h \<in> set vkRememberedHosts \<and> IPs e \<noteq> [] \<and> length (IPs e) \<le> vkRememberedAddrsMax"
    using assms map_of_eq_Some_iff [of hs] unfolding goodHosts_def by blast
  then show "map_of (fold loadHost hs []) h = map_of hs h"
    using fold_loadHost [of hs "[]" h] assms by (simp add: goodHosts_def split: option.splits)
qed

text \<open>A process that has loaded its file: its lists are those of the file.\<close>

definition loadedWell :: "string \<Rightarrow> vkHostMemory \<Rightarrow> bool" where
  "loadedWell path m \<longleftrightarrow> hostPath m = path \<and> loadedFrom m = path \<and> goodHosts (vkHosts m) \<and>
     listFor (vkHosts m) = listFor (foundAfter m)"

definition hostsKept :: "string \<Rightarrow> vkHostMemory \<Rightarrow> bool" where
  "hostsKept path m \<longleftrightarrow> loadedWell path m \<or> (\<exists>files. m = newHostMemory path files)"

lemma goodHosts_Nil: "goodHosts []"
  by (simp add: goodHosts_def)

lemma loaded_first:
  assumes "path \<noteq> []" "hostsKept path m"
  shows "loadedWell path (loadVKHostMemoryLocked path m) \<and> hostFiles (loadVKHostMemoryLocked path m) = hostFiles m"
proof (cases "loadedWell path m")
  case True
  then show ?thesis by (simp add: loadVKHostMemoryLocked_def loadedWell_def)
next
  case False
  then obtain files where m: "m = newHostMemory path files" using assms(2) by (auto simp: hostsKept_def)
  let ?m = "loadVKHostMemoryLocked path m"
  have p: "hostPath ?m = path" "loadedFrom ?m = path" "hostFiles ?m = hostFiles m" "hostPath m = path"
    using assms(1) m by (auto simp: loadVKHostMemoryLocked_def newHostMemory_def Let_def split: hostFile.splits)
  have "goodHosts (vkHosts ?m)"
    using m by (auto simp: loadVKHostMemoryLocked_def newHostMemory_def Let_def goodHosts_Nil goodHosts_load split: hostFile.splits)
  moreover have "foundAfter ?m = vkHosts ?m" using p m by (simp add: foundAfter_def newHostMemory_def)
  ultimately show ?thesis using p by (simp add: loadedWell_def)
qed

lemma save_keeps:
  assumes "path \<noteq> []" "hostPath m = path" "loadedFrom m = path" "goodHosts (vkHosts m)"
  shows "loadedWell path (saveVKHostMemoryLocked path True now m)"
proof -
  have "map_of (foundAfter (saveVKHostMemoryLocked path True now m)) = map_of (fold loadHost (vkHosts m) [])"
    using assms(1,2) by (simp add: foundAfter_def saveVKHostMemoryLocked_def loadVKHostMemoryLocked_def newHostMemory_def
      hostFileAt_def Let_def)
  then show ?thesis using assms good_reads_back [OF assms(4)]
    by (simp add: loadedWell_def saveVKHostMemoryLocked_def listFor_def fun_eq_iff)
qed

lemma remember_keeps:
  assumes "path \<noteq> []" "hostsKept path m"
  shows "hostsKept path (rememberVKAddrs host ips True now m)"
proof (cases "host \<notin> set vkRememberedHosts \<or> ips = []")
  case True
  then show ?thesis using assms by (simp add: rememberVKAddrs_def)
next
  case False
  have hp: "hostPath m = path" using assms(2) by (auto simp: hostsKept_def loadedWell_def newHostMemory_def)
  let ?l = "loadVKHostMemoryLocked path m" and ?e = "\<lparr>IPs = limitVKAddrs ips, ConnectedMs = now div 1000000\<rparr>"
  let ?m = "?l\<lparr>vkHosts := mput host ?e (vkHosts ?l)\<rparr>"
  have l: "loadedWell path ?l" using loaded_first [OF assms] by simp
  have g: "goodHosts (vkHosts ?m)" using l False by (simp add: loadedWell_def goodHosts_mput)
  have saved: "loadedWell path (saveVKHostMemoryLocked path True now ?m)"
    using l g assms(1) by (intro save_keeps) (simp_all add: loadedWell_def)
  have same: "loadedWell path ?m" if "map_option IPs (map_of (vkHosts ?l) host) = Some (limitVKAddrs ips)"
  proof -
    have "listFor (vkHosts ?m) = listFor (vkHosts ?l)" using that by (auto simp: listFor_def fun_eq_iff)
    moreover have "foundAfter ?m = foundAfter ?l" by (simp add: foundAfter_def)
    ultimately show ?thesis using l g by (simp add: loadedWell_def)
  qed
  show ?thesis
    using False saved same by (auto simp: rememberVKAddrs_def hp Let_def hostsKept_def split: option.splits)
qed

lemma setAside_keeps:
  assumes "path \<noteq> []" "hostsKept path m"
  shows "hostsKept path (setAsideRememberedVKAddr host ip True now m)"
proof -
  have hp: "hostPath m = path" using assms(2) by (auto simp: hostsKept_def loadedWell_def newHostMemory_def)
  let ?l = "loadVKHostMemoryLocked path m"
  have l: "loadedWell path ?l" using loaded_first [OF assms] by simp
  show ?thesis
  proof (cases "\<exists>e. map_of (vkHosts ?l) host = Some e \<and> ip \<in> set (IPs e)")
    case False
    then show ?thesis using l by (auto simp: setAsideRememberedVKAddr_def hp Let_def hostsKept_def split: option.splits)
  next
    case True
    then obtain e where e: "map_of (vkHosts ?l) host = Some e" "ip \<in> set (IPs e)" by blast
    let ?e = "e\<lparr>IPs := filter (\<lambda>x. x \<noteq> ip) (IPs e) @ [ip]\<rparr>"
    let ?m = "?l\<lparr>vkHosts := mput host ?e (vkHosts ?l)\<rparr>"
    have old: "host \<in> set vkRememberedHosts" "length (IPs e) \<le> vkRememberedAddrsMax"
      using l e(1) unfolding loadedWell_def goodHosts_def by blast+
    have "length (filter (\<lambda>x. x \<noteq> ip) (IPs e)) < length (IPs e)" using e(2) by (intro length_filter_less) auto
    then have "goodHosts (vkHosts ?m)" using l old by (simp add: loadedWell_def goodHosts_mput)
    then have "loadedWell path (saveVKHostMemoryLocked path True now ?m)"
      using l assms(1) by (intro save_keeps) (simp_all add: loadedWell_def)
    then show ?thesis using e by (simp add: setAsideRememberedVKAddr_def hp Let_def hostsKept_def)
  qed
qed

lemma asked_keeps:
  assumes "path \<noteq> []" "hostsKept path m"
  shows "hostsKept path (snd (rememberedVKAddrs host now m))"
proof -
  have hp: "hostPath m = path" using assms(2) by (auto simp: hostsKept_def loadedWell_def newHostMemory_def)
  have "loadedWell path (loadVKHostMemoryLocked path m)" using loaded_first [OF assms] by simp
  then show ?thesis using assms(2) by (auto simp: rememberedVKAddrs_def hp Let_def hostsKept_def split: option.splits)
qed

interpretation remembered: traced hostStep "\<lambda>tr m. path \<noteq> [] \<longrightarrow> hostsKept path m" isWritten for path
proof
  fix tr m q a m'
  assume "path \<noteq> [] \<longrightarrow> hostsKept path m" "isWritten q" "hostStep q m = (a, m')"
  then show "path \<noteq> [] \<longrightarrow> hostsKept path m'"
    using asked_keeps [of path m] remember_keeps [of path m] setAside_keeps [of path m] by (cases q) (simp; metis snd_conv)+
qed

text \<open>
  Whatever a process connects on, asks for and sets aside, a process started after it finds in the file, for every host, exactly
  the list the first one had in memory: at most four addresses, of the hosts of the captcha-free flow alone.
\<close>

theorem hosts_survive_a_restart:
  assumes "traceRun hostStep calls (newHostMemory path files) = (tr, m)" "\<forall>q \<in> set calls. isWritten q" "path \<noteq> []"
  shows "listFor (vkHosts (loadVKHostMemoryLocked path m)) h
      = listFor (vkHosts (loadVKHostMemoryLocked path (newHostMemory path (hostFiles m)))) h \<and>
    (\<forall>ips. listFor (vkHosts (loadVKHostMemoryLocked path m)) h = Some ips \<longrightarrow>
      h \<in> {vkCallsAPIHost, vkCallsOKHostName} \<and> ips \<noteq> [] \<and> length ips \<le> vkRememberedAddrsMax)"
proof -
  have "hostsKept path (newHostMemory path files)" by (auto simp: hostsKept_def)
  then have k: "hostsKept path m" using remembered.run_establishes [OF assms(1) _ assms(2), of path] assms(3) by blast
  then have l: "loadedWell path (loadVKHostMemoryLocked path m)"
    and f: "hostFiles (loadVKHostMemoryLocked path m) = hostFiles m" using loaded_first [OF assms(3)] by blast+
  have "foundAfter (loadVKHostMemoryLocked path m) = vkHosts (loadVKHostMemoryLocked path (newHostMemory path (hostFiles m)))"
    using l f by (simp add: foundAfter_def loadedWell_def)
  then have "listFor (vkHosts (loadVKHostMemoryLocked path m)) h
      = listFor (vkHosts (loadVKHostMemoryLocked path (newHostMemory path (hostFiles m)))) h"
    using l by (simp add: loadedWell_def)
  moreover have "h \<in> {vkCallsAPIHost, vkCallsOKHostName} \<and> ips \<noteq> [] \<and> length ips \<le> vkRememberedAddrsMax"
    if i: "listFor (vkHosts (loadVKHostMemoryLocked path m)) h = Some ips" for ips
  proof -
    obtain e where e: "map_of (vkHosts (loadVKHostMemoryLocked path m)) h = Some e" "ips = IPs e"
      using i by (auto simp: listFor_def)
    have "goodHosts (vkHosts (loadVKHostMemoryLocked path m))" using l by (simp add: loadedWell_def)
    then have "h \<in> set vkRememberedHosts \<and> IPs e \<noteq> [] \<and> length (IPs e) \<le> vkRememberedAddrsMax"
      using e(1) unfolding goodHosts_def by blast
    then show ?thesis using e(2) by (simp add: vkRememberedHosts_def)
  qed
  ultimately show ?thesis by blast
qed

theorem hosts_survive_a_restart_witness:
  "let day = 24 * hour; path = ''vk_hosts.json''; h = vkCallsAPIHost;
     calls = [HostAsked h (day - minute), HostConnected h [''1.1.1.1'', ''2.2.2.2'', ''3.3.3.3'', ''4.4.4.4'', ''5.5.5.5''] True day,
       HostSilent h ''1.1.1.1'' True (day + minute), HostConnected ''login.vk.ru'' [''9.9.9.9''] True day];
     m = snd (traceRun hostStep calls (newHostMemory path []))
   in listFor (vkHosts (loadVKHostMemoryLocked path (newHostMemory path (hostFiles m)))) h
        = Some [''2.2.2.2'', ''3.3.3.3'', ''4.4.4.4'', ''1.1.1.1''] \<and>
      listFor (vkHosts (loadVKHostMemoryLocked path m)) h
        = listFor (vkHosts (loadVKHostMemoryLocked path (newHostMemory path (hostFiles m)))) h"
proof -
  let ?p = "''vk_hosts.json''" and ?h = vkCallsAPIHost
  let ?calls = "[HostAsked ?h (24 * hour - minute), HostConnected ?h [''1.1.1.1'', ''2.2.2.2'', ''3.3.3.3'', ''4.4.4.4'', ''5.5.5.5''] True (24 * hour),
       HostSilent ?h ''1.1.1.1'' True (24 * hour + minute), HostConnected ''login.vk.ru'' [''9.9.9.9''] True (24 * hour)]"
  obtain tr m where t: "traceRun hostStep ?calls (newHostMemory ?p []) = (tr, m)"
    by (cases "traceRun hostStep ?calls (newHostMemory ?p [])") auto
  have "listFor (vkHosts (loadVKHostMemoryLocked ?p (newHostMemory ?p (hostFiles
      (snd (traceRun hostStep ?calls (newHostMemory ?p []))))))) ?h = Some [''2.2.2.2'', ''3.3.3.3'', ''4.4.4.4'', ''1.1.1.1'']"
    by code_simp
  then show ?thesis using hosts_survive_a_restart [OF t, of ?h] t by (simp add: Let_def)
qed

text \<open>
  The dates fare worse, \<open>written\<close> being that of the whole process: of two hosts that connect in turn, a second apart, in processes
  that each live for less than a day, the second one's date is never moved in the file, and after thirty days of daily connections the
  host is forgotten.
\<close>

definition dailyProcess :: "nat \<Rightarrow> vkHostMemory \<Rightarrow> vkHostMemory" where
  "dailyProcess d m =
    (let t = int d * 24 * hour
     in rememberVKAddrs vkCallsOKHostName [''2.2.2.2''] True (t + second)
          (rememberVKAddrs vkCallsAPIHost [''1.1.1.1''] True t (newHostMemory (hostPath m) (hostFiles m))))"

lemma second_host_is_forgotten:
  "let m = fold dailyProcess [0 ..< 33] (newHostMemory ''vk_hosts.json'' []);
     found = (\<lambda>h. fst (rememberedVKAddrs h (32 * 24 * hour + minute) (newHostMemory ''vk_hosts.json'' (hostFiles m))))
   in found vkCallsAPIHost = [''1.1.1.1''] \<and> found vkCallsOKHostName = []"
  by code_simp

end
