(* ===== verification/VkDial.thy ===== *)
theory VkDial
  imports Dns HostMemory
begin

text \<open>
  Dialling VK's API hosts (\<open>pkg/proxy/vk_dial.go\<close>): the race over the addresses of a name, what its outcome does to the
  cache and to the remembered addresses, the fallback to the latter, and the two guards on a fresh connection. A dial is the
  events of the race; a connection is known by its address.
\<close>

section \<open>The race over the addresses\<close>

datatype dialError = NoAddresses | DialEnded | DialFailed string

text \<open>How a race ends: the address connected, or why none is; with either, the addresses to set aside.\<close>

datatype dialOutcome = Connected (dialedIP: string) (dialAside: "string list") | NotConnected dialError (dialAside: "string list")

record dialRace =
  dialStarted :: nat
  dialFinished :: nat
  dialPending :: "string list"   \<comment> \<open>the keys of the map\<close>
  dialFailures :: "string list"
  dialFirstErr :: "string option"
  dialRunning :: "string list"   \<comment> \<open>the dials that are out\<close>

definition newDialRace :: dialRace where
  "newDialRace = \<lparr>dialStarted = 0, dialFinished = 0, dialPending = [], dialFailures = [], dialFirstErr = None, dialRunning = []\<rparr>"

type_synonym dialEvent = "(string, string option) raceEvent"

text \<open>An answer is none for a connection, or the text of the error.\<close>

definition outrunBy :: "string list \<Rightarrow> string \<Rightarrow> dialRace \<Rightarrow> string list" where
  "outrunBy ips ip s =
    dialFailures s @ filter (\<lambda>x. x \<in> set (dialPending s)) (takeWhile (\<lambda>x. x \<noteq> ip) (take (dialStarted s) ips))"

definition dialStep :: "string list \<Rightarrow> dialRace \<Rightarrow> dialEvent \<Rightarrow> dialOutcome + dialRace" where
  "dialStep ips s e = (case e of
     Ended \<Rightarrow> Inl (NotConnected DialEnded (dialFailures s))
   | Timer \<Rightarrow>
       if dialStarted s < length ips
       then let ip = ips ! dialStarted s
            in Inr (s\<lparr>dialStarted := dialStarted s + 1, dialPending := List.insert ip (dialPending s),
                 dialRunning := dialRunning s @ [ip]\<rparr>)
       else Inr s
   | Answered ip answer ended \<Rightarrow>
       let s = s\<lparr>dialFinished := dialFinished s + 1, dialPending := removeAll ip (dialPending s),
             dialRunning := remove1 ip (dialRunning s)\<rparr>
       in (case answer of
             None \<Rightarrow> Inl (Connected ip (outrunBy ips ip s))
           | Some err \<Rightarrow>
               if ended then Inl (NotConnected DialEnded (dialFailures s))
               else let first = (case dialFirstErr s of None \<Rightarrow> err | Some f \<Rightarrow> f);
                        s = s\<lparr>dialFailures := dialFailures s @ [ip], dialFirstErr := Some first\<rparr>
                    in if dialFinished s < length ips then Inr s
                       else Inl (NotConnected (DialFailed first) (dialFailures s))))"

definition dialEnabled :: "string list \<Rightarrow> dialRace \<Rightarrow> dialEvent \<Rightarrow> bool" where
  "dialEnabled ips s e = (case e of
     Ended \<Rightarrow> True | Timer \<Rightarrow> dialStarted s < length ips | Answered ip answer ended \<Rightarrow> ip \<in> set (dialRunning s))"

definition dialFirstReachable :: "string list \<Rightarrow> dialEvent list \<Rightarrow> dialOutcome option" where
  "dialFirstReachable ips es =
    (if ips = [] then Some (NotConnected NoAddresses [])
     else (case raceRun (dialStep ips) newDialRace es of Inl r \<Rightarrow> Some r | Inr _ \<Rightarrow> None))"

section \<open>What a dial leaves behind\<close>

text \<open>
  The rest of \<open>dialVKHost\<close> for a name resolved to \<open>ips\<close>, from the outcome of the race: the cache and the memory after it. The
  end of the caller's context is an argument.
\<close>

definition dialVKHost :: "string \<Rightarrow> string list \<Rightarrow> dialOutcome \<Rightarrow> bool \<Rightarrow> bool \<Rightarrow> gtime \<Rightarrow> dnsCache \<times> vkHostMemory
    \<Rightarrow> dnsCache \<times> vkHostMemory" where
  "dialVKHost host ips outcome ended ok now st = (case st of (c, m) \<Rightarrow>
     let c = fold (setAside host) (dialAside outcome) c
     in (case outcome of
           NotConnected _ _ \<Rightarrow> (if ended then c else forgetName host c, m)
         | Connected ip aside \<Rightarrow> (c, rememberVKAddrs host (connectedFirst ip ips aside) ok now m)))"

definition dnsLookupOutcome :: "lookupError \<Rightarrow> bool \<times> bool" where
  "dnsLookupOutcome e = (case e of AllFailed _ reached \<Rightarrow> (reached, True) | _ \<Rightarrow> (False, False))"

text \<open>
  After a failed lookup: the remembered addresses to dial, if any are to be; and what their race leaves: the memory and
  whether a connection was made and counted. Otherwise the lookup's failure stands.
\<close>

definition rememberedToDial :: "string \<Rightarrow> lookupError \<Rightarrow> bool \<Rightarrow> gtime \<Rightarrow> vkHostMemory \<Rightarrow> string list option \<times> vkHostMemory" where
  "rememberedToDial host lookupErr ended now m =
    (let (reached, isLookup) = dnsLookupOutcome lookupErr
     in if \<not> isLookup \<or> reached \<or> ended then (None, m)
        else let (ips, m) = rememberedVKAddrs host now m in (if ips = [] then None else Some ips, m))"

definition dialRememberedVKHost :: "string \<Rightarrow> string list \<Rightarrow> dialOutcome \<Rightarrow> bool \<Rightarrow> gtime \<Rightarrow> vkHostMemory \<times> 64 word
    \<Rightarrow> bool \<times> vkHostMemory \<times> 64 word" where
  "dialRememberedVKHost host ips outcome ok now st = (case st of (m, remembered) \<Rightarrow>
     (case outcome of
        NotConnected _ _ \<Rightarrow> (False, m, remembered)
      | Connected ip aside \<Rightarrow> (True, rememberVKAddrs host (connectedFirst ip ips aside) ok now m, remembered + 1)))"

section \<open>A fresh connection\<close>

text \<open>Whether anything was read, whether it is closed; closing it unheard is reported, once.\<close>

record heardConn =
  connHeard :: bool
  connClosed :: bool

definition heardRead :: "nat \<Rightarrow> heardConn \<Rightarrow> heardConn" where
  "heardRead n h = (if n > 0 then h\<lparr>connHeard := True\<rparr> else h)"

definition heardClose :: "heardConn \<Rightarrow> bool \<times> heardConn" where
  "heardClose h = (\<not> connClosed h \<and> \<not> connHeard h, h\<lparr>connClosed := True\<rparr>)"

definition tlsRecordChangeCipherSpec :: nat where "tlsRecordChangeCipherSpec = 20"
definition tlsRecordApplicationData :: nat where "tlsRecordApplicationData = 23"

function endsHandshake :: "byte list \<Rightarrow> bool" where
  "endsHandshake p =
    (if length p \<ge> 5 then
       let typ = unat (p ! 0)
       in if typ < tlsRecordChangeCipherSpec \<or> typ > tlsRecordApplicationData then True
          else if typ = tlsRecordApplicationData then True
          else let n = 5 + beNat (slice 3 5 p)
               in if n > length p then False else endsHandshake (drop n p)
     else False)"
  by pat_completeness auto
termination by (relation "measure length") auto

declare endsHandshake.simps [simp del]

text \<open>The guard: whether the deadline is still set; a write lifts it, or does not.\<close>

definition guardWrite :: "byte list \<Rightarrow> bool \<Rightarrow> bool" where
  "guardWrite p guarded = (if guarded \<and> endsHandshake p then False else guarded)"

end
