(* ===== verification/VkDialProps.thy ===== *)
theory VkDialProps
  imports VkDial
begin

text \<open>
  What the dial of VK's hosts promises: an address is set aside only for cause, the one that connected heads the list in the
  cache and in memory alike, and a restarted process finds the lists of the one before.
\<close>

section \<open>Setting aside\<close>

text \<open>Setting distinct addresses of a list aside moves them to its tail, in their order.\<close>

definition movedBack :: "string list \<Rightarrow> string list \<Rightarrow> string list" where
  "movedBack aside ips = filter (\<lambda>x. x \<notin> set aside) ips @ aside"

lemma mset_movedBack:
  assumes "distinct ips" "distinct aside" "set aside \<subseteq> set ips"
  shows "mset (movedBack aside ips) = mset ips"
proof -
  have "distinct (movedBack aside ips)" "set (movedBack aside ips) = set ips"
    using assms by (auto simp: movedBack_def)
  then show ?thesis using assms(1) set_eq_iff_mset_eq_distinct by blast
qed

lemma setAside_list:
  assumes "map_of (cachedIPs c) host = Some ips"
  shows "map_of (cachedIPs (setAside host ip c)) host = Some (if ip \<in> set ips then filter (\<lambda>x. x \<noteq> ip) ips @ [ip] else ips)"
proof -
  have "length (filter (\<lambda>x. x \<noteq> ip) ips) = length ips \<longleftrightarrow> ip \<notin> set ips"
    by (metis (mono_tags, lifting) filter_True length_filter_less less_irrefl)
  then show ?thesis using assms by (simp add: setAside_def Let_def)
qed

lemma setAside_all:
  "\<lbrakk>map_of (cachedIPs c) host = Some (filter (\<lambda>x. x \<notin> set done) ips @ done); distinct (done @ aside); set (done @ aside) \<subseteq> set ips\<rbrakk>
   \<Longrightarrow> map_of (cachedIPs (fold (setAside host) aside c)) host = Some (movedBack (done @ aside) ips)"
proof (induction aside arbitrary: c "done")
  case Nil
  then show ?case by (simp add: movedBack_def)
next
  case (Cons ip aside)
  have "filter (\<lambda>x. x \<noteq> ip) (filter (\<lambda>x. x \<notin> set done) ips @ done) @ [ip]
      = filter (\<lambda>x. x \<notin> set (done @ [ip])) ips @ (done @ [ip])"
    using Cons.prems(2) by (auto simp: filter_id_conv conj_commute intro: filter_cong)
  then have "map_of (cachedIPs (setAside host ip c)) host = Some (filter (\<lambda>x. x \<notin> set (done @ [ip])) ips @ (done @ [ip]))"
    using setAside_list [OF Cons.prems(1), of ip] Cons.prems(2,3) by simp
  from Cons.IH [OF this] Cons.prems(2,3) show ?case by simp
qed

lemma append_each:
  "\<lbrakk>distinct aside; ip \<notin> set aside; set aside \<inter> set out = {}\<rbrakk> \<Longrightarrow>
   fold (\<lambda>x out. if x \<noteq> ip \<and> x \<notin> set out then out @ [x] else out) aside out = out @ aside"
  by (induction aside arbitrary: out) auto

lemma connectedFirst_movedBack:
  assumes "distinct aside" "ip \<notin> set aside" "set (takeWhile (\<lambda>x. x \<noteq> ip) ips) \<subseteq> set aside" "ip \<in> set ips" "distinct ips"
  shows "connectedFirst ip ips aside = movedBack aside ips"
proof -
  obtain before after where b: "ips = before @ ip # after" "ip \<notin> set before"
    using assms(4) by (meson split_list_first)
  have "takeWhile (\<lambda>x. x \<noteq> ip) ips = before" unfolding b(1) using b(2) by (induction before) auto
  then have none: "filter (\<lambda>x. x \<notin> set aside) before = []" "filter (\<lambda>x. x \<noteq> ip \<and> x \<notin> set aside) before = []"
    using assms(3) by (auto simp: filter_empty_conv)
  have "ip \<notin> set after" using assms(5) b(1) by simp
  then have "filter (\<lambda>x. x \<noteq> ip \<and> x \<notin> set aside) after = filter (\<lambda>x. x \<notin> set aside) after"
    by (intro filter_cong) auto
  then have e: "ip # filter (\<lambda>x. x \<noteq> ip \<and> x \<notin> set aside) ips = filter (\<lambda>x. x \<notin> set aside) ips"
    unfolding b(1) using none assms(2) by simp
  have "fold (\<lambda>x out. if x \<noteq> ip \<and> x \<notin> set out then out @ [x] else out) aside (filter (\<lambda>x. x \<notin> set aside) ips)
      = filter (\<lambda>x. x \<notin> set aside) ips @ aside"
    using assms(1,2) by (intro append_each) auto
  then show ?thesis unfolding connectedFirst_def movedBack_def Let_def e .
qed

section \<open>The race\<close>

text \<open>The addresses that answered with an error, in that order.\<close>

definition refusals :: "dialEvent list \<Rightarrow> (string \<times> string) list" where
  "refusals h = List.map_filter (\<lambda>e. case e of Answered ip (Some err) ended \<Rightarrow> Some (ip, err) | _ \<Rightarrow> None) h"

lemma refusals_snoc [simp]:
  "refusals (h @ [e]) = refusals h @ (case e of Answered ip (Some err) ended \<Rightarrow> [(ip, err)] | _ \<Rightarrow> [])"
  by (simp add: refusals_def List.map_filter_def split: raceEvent.split option.split)

definition dialInv :: "string list \<Rightarrow> dialEvent list \<Rightarrow> dialRace \<Rightarrow> bool" where
  "dialInv ips h s \<longleftrightarrow> distinct ips \<longrightarrow> dialStarted s \<le> length ips \<and> dialFinished s = length (dialFailures s) \<and>
     dialFailures s = map fst (refusals h) \<and> set (dialPending s) = set (dialRunning s) \<and>
     mset (dialFailures s) + mset (dialRunning s) = mset (take (dialStarted s) ips) \<and>
     dialFirstErr s = (case refusals h of [] \<Rightarrow> None | r # _ \<Rightarrow> Some (snd r))"

definition dialLeft :: "string list \<Rightarrow> dialRace \<Rightarrow> nat" where
  "dialLeft ips s = 2 * (length ips - dialStarted s) + length (dialRunning s)"

lemma dialInv_new: "dialInv ips [] newDialRace"
  by (simp add: dialInv_def newDialRace_def refusals_def List.map_filter_def)

lemma dialInv_facts:
  assumes "dialInv ips h s" "distinct ips"
  shows "dialStarted s \<le> length ips" "dialFinished s = length (dialFailures s)" "dialFailures s = map fst (refusals h)"
    "set (dialPending s) = set (dialRunning s)"
    "mset (dialFailures s) + mset (dialRunning s) = mset (take (dialStarted s) ips)"
    "dialFirstErr s = (case refusals h of [] \<Rightarrow> None | r # _ \<Rightarrow> Some (snd r))"
  using assms unfolding dialInv_def by blast+

lemma dialInv_timer:
  assumes "dialInv ips h s" "dialStarted s < length ips"
  shows "dialInv ips (h @ [Timer]) (s\<lparr>dialStarted := dialStarted s + 1, dialPending := List.insert (ips ! dialStarted s) (dialPending s),
      dialRunning := dialRunning s @ [ips ! dialStarted s]\<rparr>)"
  unfolding dialInv_def
proof (intro impI)
  assume d: "distinct ips"
  note inv = dialInv_facts [OF assms(1) d]
  have t: "mset (take (Suc (dialStarted s)) ips) = add_mset (ips ! dialStarted s) (mset (take (dialStarted s) ips))"
    using assms(2) by (simp add: take_Suc_conv_app_nth)
  let ?s = "s\<lparr>dialStarted := dialStarted s + 1, dialPending := List.insert (ips ! dialStarted s) (dialPending s),
      dialRunning := dialRunning s @ [ips ! dialStarted s]\<rparr>"
  have "mset (dialFailures ?s) + mset (dialRunning ?s) = mset (take (dialStarted ?s) ips)"
    by (simp add: t inv(5) [symmetric])
  moreover have "dialFailures ?s = map fst (refusals (h @ [Timer]))" "set (dialPending ?s) = set (dialRunning ?s)"
    "dialFirstErr ?s = (case refusals (h @ [Timer]) of [] \<Rightarrow> None | r # _ \<Rightarrow> Some (snd r))"
    using inv(3,4,6) by simp_all
  moreover have "dialStarted ?s \<le> length ips" "dialFinished ?s = length (dialFailures ?s)" using inv(2) assms(2) by simp_all
  ultimately show "dialStarted ?s \<le> length ips \<and> dialFinished ?s = length (dialFailures ?s) \<and>
     dialFailures ?s = map fst (refusals (h @ [Timer])) \<and> set (dialPending ?s) = set (dialRunning ?s) \<and>
     mset (dialFailures ?s) + mset (dialRunning ?s) = mset (take (dialStarted ?s) ips) \<and>
     dialFirstErr ?s = (case refusals (h @ [Timer]) of [] \<Rightarrow> None | r # _ \<Rightarrow> Some (snd r))" by blast
qed

text \<open>The running dials are distinct, so an answer leaves the others running.\<close>

lemma dial_running_distinct:
  assumes "dialInv ips h s" "distinct ips"
  shows "distinct (dialFailures s @ dialRunning s)"
proof -
  have "mset (dialFailures s @ dialRunning s) = mset (take (dialStarted s) ips)" using dialInv_facts(5) [OF assms] by simp
  then show ?thesis using assms(2) by (metis distinct_take mset_eq_imp_distinct_iff)
qed

text \<open>The state once an address has refused.\<close>

definition refusedBy :: "string \<Rightarrow> string \<Rightarrow> dialRace \<Rightarrow> dialRace" where
  "refusedBy ip err s = s\<lparr>dialFinished := dialFinished s + 1, dialPending := removeAll ip (dialPending s),
     dialRunning := remove1 ip (dialRunning s), dialFailures := dialFailures s @ [ip],
     dialFirstErr := Some (case dialFirstErr s of None \<Rightarrow> err | Some f \<Rightarrow> f)\<rparr>"

lemma dialInv_refused:
  assumes "dialInv ips h s" "ip \<in> set (dialRunning s)"
  shows "dialInv ips (h @ [Answered ip (Some err) ended]) (refusedBy ip err s)"
  unfolding dialInv_def
proof (intro impI)
  assume d: "distinct ips"
  note inv = dialInv_facts [OF assms(1) d]
  have r: "distinct (dialRunning s)" using dial_running_distinct [OF assms(1) d] by simp
  have "add_mset ip (mset (remove1 ip (dialRunning s))) = mset (dialRunning s)" using assms(2) by simp
  then have "mset (dialFailures (refusedBy ip err s)) + mset (dialRunning (refusedBy ip err s)) = mset (dialFailures s) + mset (dialRunning s)"
    by (simp add: refusedBy_def del: mset_remove1)
  then have "mset (dialFailures (refusedBy ip err s)) + mset (dialRunning (refusedBy ip err s))
      = mset (take (dialStarted (refusedBy ip err s)) ips)"
    using inv(5) by (simp add: refusedBy_def del: mset_remove1)
  moreover have "set (dialPending (refusedBy ip err s)) = set (dialRunning (refusedBy ip err s))"
    using inv(4) r by (simp add: refusedBy_def)
  moreover have "dialFailures (refusedBy ip err s) = map fst (refusals (h @ [Answered ip (Some err) ended]))"
    using inv(3) by (simp add: refusedBy_def)
  moreover have "dialFirstErr (refusedBy ip err s)
      = (case refusals (h @ [Answered ip (Some err) ended]) of [] \<Rightarrow> None | r # _ \<Rightarrow> Some (snd r))"
    using inv(6) by (simp add: refusedBy_def split: list.splits)
  moreover have "dialStarted (refusedBy ip err s) \<le> length ips"
    "dialFinished (refusedBy ip err s) = length (dialFailures (refusedBy ip err s))"
    using inv(1,2) by (simp_all add: refusedBy_def)
  ultimately show "dialStarted (refusedBy ip err s) \<le> length ips \<and>
     dialFinished (refusedBy ip err s) = length (dialFailures (refusedBy ip err s)) \<and>
     dialFailures (refusedBy ip err s) = map fst (refusals (h @ [Answered ip (Some err) ended])) \<and>
     set (dialPending (refusedBy ip err s)) = set (dialRunning (refusedBy ip err s)) \<and>
     mset (dialFailures (refusedBy ip err s)) + mset (dialRunning (refusedBy ip err s)) = mset (take (dialStarted (refusedBy ip err s)) ips) \<and>
     dialFirstErr (refusedBy ip err s)
       = (case refusals (h @ [Answered ip (Some err) ended]) of [] \<Rightarrow> None | r # _ \<Rightarrow> Some (snd r))" by blast
qed

lemma dialStep_kept:
  assumes inv: "dialInv ips h s" and en: "dialEnabled ips s e" and st: "dialStep ips s e = Inr s'"
  shows "dialInv ips (h @ [e]) s' \<and> dialLeft ips s' < dialLeft ips s"
proof (cases e)
  case Ended
  then show ?thesis using st by (simp add: dialStep_def)
next
  case Timer
  then have "dialStarted s < length ips" using en by (simp add: dialEnabled_def)
  then show ?thesis using dialInv_timer [OF inv] st Timer by (auto simp: dialStep_def Let_def dialLeft_def)
next
  case (Answered ip a ended)
  then have i: "ip \<in> set (dialRunning s)" using en by (simp add: dialEnabled_def)
  obtain err where err: "a = Some err" using st Answered by (cases a) (auto simp: dialStep_def Let_def)
  have s': "s' = refusedBy ip err s"
    using st Answered err by (auto simp: dialStep_def refusedBy_def Let_def split: if_splits)
  have "length (remove1 ip (dialRunning s)) < length (dialRunning s)"
    using i length_pos_if_in_set [OF i] by (simp add: length_remove1)
  then show ?thesis using dialInv_refused [OF inv i, of err ended] Answered err s' by (simp add: dialLeft_def refusedBy_def)
qed

interpretation dials: hedged_race "dialStep ips" "dialEnabled ips" "dialLeft ips" "dialInv ips" for ips
  by unfold_locales (simp_all add: dialStep_kept)

lemma refusals_append: "refusals (a @ b) = refusals a @ refusals b"
  by (simp add: refusals_def List.map_filter_def)

text \<open>The addresses set aside when one connects: distinct, of the list, not the winner, and all that stood before it.\<close>

lemma outrun_facts:
  assumes "dialInv ips h s" "distinct ips" "ip \<in> set (dialRunning s)" "dialPending s' = removeAll ip (dialPending s)"
    and "dialFailures s' = dialFailures s" "dialStarted s' = dialStarted s"
  shows "distinct (outrunBy ips ip s')" "ip \<notin> set (outrunBy ips ip s')" "set (outrunBy ips ip s') \<subseteq> set ips" "ip \<in> set ips"
    "set (takeWhile (\<lambda>x. x \<noteq> ip) ips) \<subseteq> set (outrunBy ips ip s')"
    "\<forall>x \<in> set (outrunBy ips ip s'). x \<in> set (dialFailures s) \<or> x \<in> set (takeWhile (\<lambda>x. x \<noteq> ip) ips)"
proof -
  note inv = dialInv_facts [OF assms(1,2)]
  let ?t = "take (dialStarted s) ips"
  have dr: "distinct (dialFailures s @ dialRunning s)" using dial_running_distinct [OF assms(1,2)] .
  have st: "set (dialFailures s) \<union> set (dialRunning s) = set ?t"
    using inv(5) by (metis set_append set_mset_mset mset_append)
  have ip: "ip \<in> set ?t" using st assms(3) by blast
  have tw: "takeWhile (\<lambda>x. x \<noteq> ip) ips = takeWhile (\<lambda>x. x \<noteq> ip) ?t"
    using takeWhile_append1 [OF ip, of "\<lambda>x. x \<noteq> ip" "drop (dialStarted s) ips"] by simp
  have o: "outrunBy ips ip s' = dialFailures s @ filter (\<lambda>x. x \<in> set (dialRunning s) \<and> x \<noteq> ip) (takeWhile (\<lambda>x. x \<noteq> ip) ips)"
    unfolding outrunBy_def tw using assms(4-6) inv(4) by simp
  have sub: "set ?t \<subseteq> set ips" by (rule set_take_subset)
  have w: "set (takeWhile (\<lambda>x. x \<noteq> ip) ips) \<subseteq> set ?t" unfolding tw by (auto dest: set_takeWhileD)
  show "ip \<in> set ips" using ip sub by blast
  show "distinct (outrunBy ips ip s')" unfolding o using dr assms(2) by (auto simp: distinct_takeWhile)
  show "ip \<notin> set (outrunBy ips ip s')" unfolding o using dr assms(3) by auto
  show "set (outrunBy ips ip s') \<subseteq> set ips" unfolding o using st w sub by auto
  show "set (takeWhile (\<lambda>x. x \<noteq> ip) ips) \<subseteq> set (outrunBy ips ip s')"
    unfolding o using st w by (auto dest: set_takeWhileD)
  show "\<forall>x \<in> set (outrunBy ips ip s'). x \<in> set (dialFailures s) \<or> x \<in> set (takeWhile (\<lambda>x. x \<noteq> ip) ips)"
    unfolding o by auto
qed

text \<open>How the race returned, by its last event.\<close>

lemma dial_returned:
  assumes "distinct ips" "ips \<noteq> []" "possible (dialStep ips) (dialEnabled ips) newDialRace es" "dialFirstReachable ips es = Some r"
  obtains before e after s where "es = before @ e # after" "dialInv ips before s" "dialEnabled ips s e" "dialStep ips s e = Inl r"
proof -
  have "raceRun (dialStep ips) newDialRace es = Inl r"
    using assms(2,4) by (simp add: dialFirstReachable_def split: sum.splits)
  from dials.returned [OF dialInv_new assms(3) this] show ?thesis using that by auto
qed

lemma dial_connected:
  assumes "distinct ips" "possible (dialStep ips) (dialEnabled ips) newDialRace es"
    and "dialFirstReachable ips es = Some (Connected ip aside)"
  shows "distinct aside" "ip \<notin> set aside" "set aside \<subseteq> set ips" "ip \<in> set ips" "set (takeWhile (\<lambda>x. x \<noteq> ip) ips) \<subseteq> set aside"
    "\<forall>x \<in> set aside. x \<in> fst ` set (refusals es) \<or> x \<in> set (takeWhile (\<lambda>x. x \<noteq> ip) ips)"
proof -
  have ne: "ips \<noteq> []" using assms(3) by (auto simp: dialFirstReachable_def)
  obtain before e after s where b: "es = before @ e # after" "dialInv ips before s" "dialEnabled ips s e" "dialStep ips s e = Inl (Connected ip aside)"
    using dial_returned [OF assms(1) ne assms(2,3)] by blast
  obtain ended where e: "e = Answered ip None ended"
    using b(4) by (auto simp: dialStep_def Let_def split: raceEvent.splits option.splits if_splits)
  let ?s = "s\<lparr>dialFinished := dialFinished s + 1, dialPending := removeAll ip (dialPending s), dialRunning := remove1 ip (dialRunning s)\<rparr>"
  have a: "aside = outrunBy ips ip ?s" using b(4) e by (simp add: dialStep_def Let_def)
  have r: "ip \<in> set (dialRunning s)" using b(3) e by (simp add: dialEnabled_def)
  have p: "dialPending ?s = removeAll ip (dialPending s)" "dialFailures ?s = dialFailures s" "dialStarted ?s = dialStarted s" by simp_all
  note o = outrun_facts [OF b(2) assms(1) r p]
  show "distinct aside" "ip \<notin> set aside" "set aside \<subseteq> set ips" "ip \<in> set ips" "set (takeWhile (\<lambda>x. x \<noteq> ip) ips) \<subseteq> set aside"
    unfolding a by (rule o)+
  have "set (dialFailures s) \<subseteq> fst ` set (refusals es)"
    using dialInv_facts(3) [OF b(2) assms(1)] by (auto simp: b(1) refusals_append)
  then show "\<forall>x \<in> set aside. x \<in> fst ` set (refusals es) \<or> x \<in> set (takeWhile (\<lambda>x. x \<noteq> ip) ips)"
    using o(6) unfolding a by blast
qed

lemma rememberVKAddrs_entry:
  "\<lbrakk>host \<in> set vkRememberedHosts; ips \<noteq> []\<rbrakk> \<Longrightarrow>
   map_of (vkHosts (rememberVKAddrs host ips ok now m)) host = Some \<lparr>IPs = limitVKAddrs ips, ConnectedMs = now div 1000000\<rparr>"
  by (simp add: rememberVKAddrs_def saveVKHostMemoryLocked_def Let_def)

text \<open>
  When one of the distinct addresses of a name connects, it heads the name's list in the cache, and the host remembers the very
  same order, up to four; no address is lost of the list, and one is set aside only if it refused or was outrun: started before the
  winner and still silent.
\<close>

theorem connected_address_heads_the_lists:
  assumes "distinct ips" "possible (dialStep ips) (dialEnabled ips) newDialRace es"
    and "dialFirstReachable ips es = Some (Connected ip aside)" "map_of (cachedIPs c) host = Some ips"
    and "dialVKHost host ips (Connected ip aside) ended ok now (c, m) = (c', m')"
  shows "\<exists>rest. map_of (cachedIPs c') host = Some (ip # rest) \<and> mset (ip # rest) = mset ips \<and>
    (\<forall>x \<in> set aside. x \<in> fst ` set (refusals es) \<or> x \<in> set (takeWhile (\<lambda>x. x \<noteq> ip) ips)) \<and>
    (host \<in> set vkRememberedHosts \<longrightarrow>
      map_of (vkHosts m') host = Some \<lparr>IPs = limitVKAddrs (ip # rest), ConnectedMs = now div 1000000\<rparr>)"
proof -
  note d = dial_connected [OF assms(1-3)]
  have cf: "connectedFirst ip ips aside = movedBack aside ips" using connectedFirst_movedBack [OF d(1,2,5,4) assms(1)] .
  have "\<exists>rest. connectedFirst ip ips aside = ip # rest"
  proof -
    have "fold (\<lambda>x out. if x \<noteq> ip \<and> x \<notin> set out then out @ [x] else out) xs (ip # ys)
        = ip # tl (fold (\<lambda>x out. if x \<noteq> ip \<and> x \<notin> set out then out @ [x] else out) xs (ip # ys))" for xs ys
      by (induction xs arbitrary: ys) auto
    then show ?thesis unfolding connectedFirst_def Let_def by blast
  qed
  then obtain rest where rest: "connectedFirst ip ips aside = ip # rest" by blast
  have c': "c' = fold (setAside host) aside c" "m' = rememberVKAddrs host (connectedFirst ip ips aside) ok now m"
    using assms(5) by (simp_all add: dialVKHost_def Let_def)
  have "map_of (cachedIPs c') host = Some (movedBack aside ips)"
    using setAside_all [of c host "[]" ips aside] assms(4) d(1,3) c' by simp
  moreover have "mset (movedBack aside ips) = mset ips" using mset_movedBack assms(1) d(1,3) by blast
  ultimately have "map_of (cachedIPs c') host = Some (ip # rest)" "mset (ip # rest) = mset ips"
    using cf rest by simp_all
  moreover have "host \<in> set vkRememberedHosts \<longrightarrow>
      map_of (vkHosts m') host = Some \<lparr>IPs = limitVKAddrs (ip # rest), ConnectedMs = now div 1000000\<rparr>"
    unfolding c'(2) rest using rememberVKAddrs_entry by blast
  ultimately show ?thesis using d(6) by blast
qed

theorem connected_address_heads_the_lists_witness:
  "let ips = [''1.1.1.1'', ''2.2.2.2'', ''3.3.3.3'', ''4.4.4.4''];
     es = [Timer, Timer, Answered ''1.1.1.1'' (Some ''refused'') False, Timer, Answered ''3.3.3.3'' None False];
     c = \<lparr>cachedIPs = [(vkCallsAPIHost, ips)], inflight = [], lookups = [], nextLookup = 0\<rparr>;
     st = dialVKHost vkCallsAPIHost ips (Connected ''3.3.3.3'' [''1.1.1.1'', ''2.2.2.2'']) False True hour (c, newHostMemory ''f'' [])
   in dialFirstReachable ips es = Some (Connected ''3.3.3.3'' [''1.1.1.1'', ''2.2.2.2'']) \<and>
     (\<exists>rest. map_of (cachedIPs (fst st)) vkCallsAPIHost = Some (''3.3.3.3'' # rest) \<and> mset (''3.3.3.3'' # rest) = mset ips)"
proof -
  let ?ips = "[''1.1.1.1'', ''2.2.2.2'', ''3.3.3.3'', ''4.4.4.4'']"
  let ?es = "[Timer, Timer, Answered ''1.1.1.1'' (Some ''refused'') False, Timer, Answered ''3.3.3.3'' None False]"
  let ?c = "\<lparr>cachedIPs = [(vkCallsAPIHost, ?ips)], inflight = [], lookups = [], nextLookup = 0\<rparr>"
  let ?st = "dialVKHost vkCallsAPIHost ?ips (Connected ''3.3.3.3'' [''1.1.1.1'', ''2.2.2.2'']) False True hour (?c, newHostMemory ''f'' [])"
  have d: "distinct ?ips" by code_simp
  have p: "possible (dialStep ?ips) (dialEnabled ?ips) newDialRace ?es" by code_simp
  have r: "dialFirstReachable ?ips ?es = Some (Connected ''3.3.3.3'' [''1.1.1.1'', ''2.2.2.2''])" by code_simp
  have m: "map_of (cachedIPs ?c) vkCallsAPIHost = Some ?ips" by simp
  obtain c' m' where st: "?st = (c', m')" by (cases ?st) auto
  show ?thesis using connected_address_heads_the_lists [OF d p r m st] r st unfolding Let_def by auto
qed

text \<open>
  However the answers of the addresses come in, the dial is over within an event more than two for each address; it names the first
  failure only once every address has refused; and cut short it sets no address aside but one that refused.
\<close>

theorem dial_fails_only_when_every_address_refused:
  assumes "distinct ips" "possible (dialStep ips) (dialEnabled ips) newDialRace es"
  shows "(2 * length ips < length es \<longrightarrow> (\<exists>r. dialFirstReachable ips es = Some r)) \<and>
    (\<forall>err aside. dialFirstReachable ips es = Some (NotConnected err aside) \<longrightarrow>
      set aside \<subseteq> fst ` set (refusals es) \<and>
      (\<forall>f. err = DialFailed f \<longrightarrow> mset aside = mset ips \<and> snd (hd (refusals es)) = f))"
proof (intro conjI impI allI)
  assume "2 * length ips < length es"
  then have "dialLeft ips newDialRace < length es" by (simp add: dialLeft_def newDialRace_def)
  then show "\<exists>r. dialFirstReachable ips es = Some r"
    using dials.returns [OF dialInv_new assms(2)] by (auto simp: dialFirstReachable_def)
next
  fix err aside
  assume r: "dialFirstReachable ips es = Some (NotConnected err aside)"
  have "set aside \<subseteq> fst ` set (refusals es) \<and> (\<forall>f. err = DialFailed f \<longrightarrow> mset aside = mset ips \<and> snd (hd (refusals es)) = f)"
  proof (cases "ips = []")
    case True
    then show ?thesis using r by (simp add: dialFirstReachable_def)
  next
    case False
    obtain before e after s where b: "es = before @ e # after" "dialInv ips before s" "dialEnabled ips s e"
      "dialStep ips s e = Inl (NotConnected err aside)" using dial_returned [OF assms(1) False assms(2) r] by blast
    note inv = dialInv_facts [OF b(2) assms(1)]
    have cut: ?thesis if "err = DialEnded" "aside = dialFailures s"
      using that inv(3) by (auto simp: b(1) refusals_append)
    show ?thesis
    proof (cases e)
      case Ended
      then show ?thesis using b(4) cut by (simp add: dialStep_def)
    next
      case Timer
      then show ?thesis using b(4) by (simp add: dialStep_def Let_def split: if_splits)
    next
      case (Answered ip a ended)
      then obtain t where t: "a = Some t" using b(4) by (cases a) (auto simp: dialStep_def Let_def)
      show ?thesis
      proof (cases ended)
        case True
        then show ?thesis using b(4) Answered t cut by (simp add: dialStep_def Let_def)
      next
        case go: False
        let ?s = "refusedBy ip t s"
        have i: "ip \<in> set (dialRunning s)" using b(3) Answered by (simp add: dialEnabled_def)
        have o: "aside = dialFailures ?s" "err = DialFailed (case dialFirstErr s of None \<Rightarrow> t | Some f \<Rightarrow> f)" "length ips \<le> dialFinished ?s"
          using b(4) Answered t go by (auto simp: dialStep_def Let_def refusedBy_def split: if_splits)
        have inv': "dialInv ips (before @ [e]) ?s" unfolding Answered t by (rule dialInv_refused [OF b(2) i])
        note inv' = dialInv_facts [OF inv' assms(1)]
        have sz: "length (dialFailures ?s) + length (dialRunning ?s) = length (take (dialStarted ?s) ips)"
          using arg_cong [OF inv'(5), of size] by simp
        moreover have "length (take (dialStarted ?s) ips) \<le> length ips" by simp
        ultimately have "length (dialRunning ?s) = 0" "length ips \<le> length (take (dialStarted ?s) ips)" using o(3) inv'(2) by linarith+
        then have all: "mset aside = mset ips" using inv'(5) o(1) by simp
        have es: "refusals es = refusals (before @ [e]) @ refusals after" unfolding b(1) refusals_append [symmetric] by simp
        obtain x xs where x: "refusals (before @ [e]) = x # xs" unfolding Answered t by (cases "refusals (before @ [Answered ip (Some t) ended])") simp_all
        have "Some (case dialFirstErr s of None \<Rightarrow> t | Some f \<Rightarrow> f) = Some (snd x)" using inv'(6) unfolding x by (simp add: refusedBy_def)
        then have "snd (hd (refusals es)) = (case dialFirstErr s of None \<Rightarrow> t | Some f \<Rightarrow> f)" unfolding es x by simp
        moreover have "set aside \<subseteq> fst ` set (refusals es)"
          unfolding o(1) inv'(3) es by (simp add: image_Un del: refusals_snoc)
        ultimately show ?thesis using all o(2) by simp
      qed
    qed
  qed
  then show "set aside \<subseteq> fst ` set (refusals es)"
    and "\<And>f. err = DialFailed f \<Longrightarrow> mset aside = mset ips" "\<And>f. err = DialFailed f \<Longrightarrow> snd (hd (refusals es)) = f"
    by blast+
qed

theorem dial_fails_only_when_every_address_refused_witness:
  "dialFirstReachable [''1.1.1.1'', ''2.2.2.2''] [Timer, Timer, Answered ''2.2.2.2'' (Some ''refused'') False,
      Answered ''1.1.1.1'' (Some ''no route'') False] = Some (NotConnected (DialFailed ''refused'') [''2.2.2.2'', ''1.1.1.1'']) \<and>
   mset [''2.2.2.2'', ''1.1.1.1''] = mset [''1.1.1.1'', ''2.2.2.2'']"
proof -
  let ?es = "[Timer, Timer, Answered ''2.2.2.2'' (Some ''refused'') False, Answered ''1.1.1.1'' (Some ''no route'') False]"
  have d: "distinct [''1.1.1.1'', ''2.2.2.2'']" by code_simp
  have p: "possible (dialStep [''1.1.1.1'', ''2.2.2.2'']) (dialEnabled [''1.1.1.1'', ''2.2.2.2'']) newDialRace ?es" by code_simp
  have r: "dialFirstReachable [''1.1.1.1'', ''2.2.2.2''] ?es = Some (NotConnected (DialFailed ''refused'') [''2.2.2.2'', ''1.1.1.1''])"
    by code_simp
  show ?thesis using dial_fails_only_when_every_address_refused [OF d p] r by blast
qed

section \<open>The handshake guard\<close>

text \<open>A TLS record: type, version, payload.\<close>

type_synonym tlsRecord = "nat \<times> byte list \<times> byte list"

definition encRecord :: "tlsRecord \<Rightarrow> byte list" where
  "encRecord r = (case r of (rtype, ver, payload) \<Rightarrow> [of_nat rtype] @ ver @ putBE 2 (length payload) @ payload)"

definition okRecord :: "tlsRecord \<Rightarrow> bool" where
  "okRecord r \<longleftrightarrow> (case r of (rtype, ver, payload) \<Rightarrow> 20 \<le> rtype \<and> rtype \<le> 23 \<and> length ver = 2 \<and> length payload < 2 ^ 14 + 2048)"

lemma endsHandshake_records:
  "\<forall>r \<in> set rs. okRecord r \<Longrightarrow> endsHandshake (concat (map encRecord rs)) \<longleftrightarrow> (\<exists>r \<in> set rs. fst r = tlsRecordApplicationData)"
proof (induction rs)
  case Nil
  then show ?case by (subst endsHandshake.simps) simp
next
  case (Cons r rs)
  obtain rtype ver payload where r: "r = (rtype, ver, payload)" by (cases r)
  then have ok: "20 \<le> rtype" "rtype \<le> 23" "length ver = 2" "length payload < 2 ^ 16" using Cons.prems by (simp_all add: okRecord_def)
  let ?rest = "concat (map encRecord rs)"
  let ?p = "encRecord r @ ?rest"
  have p0: "unat (?p ! 0) = rtype" using ok by (simp add: r encRecord_def unat_of_nat_byte)
  have e: "?p = ([of_nat rtype] @ ver) @ putBE 2 (length payload) @ (payload @ ?rest)" by (simp add: r encRecord_def)
  have l: "slice 3 5 ?p = putBE 2 (length payload)"
    unfolding e using slice_append2 [of "[of_nat rtype] @ ver" 3 "putBE 2 (length payload)" "payload @ ?rest"] ok by simp
  have n: "beNat (slice 3 5 ?p) = length payload" unfolding l using ok by (simp add: beNat_putBE)
  have len: "length (encRecord r) = 5 + length payload" using ok(3) by (simp add: r encRecord_def)
  then have d: "drop (5 + length payload) ?p = ?rest" "length ?p = 5 + length payload + length ?rest" by simp_all
  have "endsHandshake ?p = (rtype = 23 \<or> endsHandshake ?rest)"
    by (subst endsHandshake.simps)
      (use p0 n d ok in \<open>simp add: Let_def tlsRecordChangeCipherSpec_def tlsRecordApplicationData_def\<close>)
  then show ?case using Cons r by (simp add: tlsRecordApplicationData_def)
qed

text \<open>
  Over whole TLS records the deadline of a fresh connection stands through any number of writes of the handshake, a second
  ClientHello and ChangeCipherSpec included, and falls with the first record of application data.
\<close>

theorem guard_falls_at_application_data:
  assumes "\<forall>w \<in> set writes. \<forall>r \<in> set w. okRecord r"
  shows "fold guardWrite (map (\<lambda>w. concat (map encRecord w)) writes) True
    \<longleftrightarrow> (\<forall>w \<in> set writes. \<forall>r \<in> set w. fst r \<noteq> tlsRecordApplicationData)"
proof -
  have lifted: "fold guardWrite ws False = False" for ws by (induction ws) (simp_all add: guardWrite_def)
  show ?thesis using assms
    by (induction writes) (auto simp: guardWrite_def endsHandshake_records lifted)
qed

theorem guard_falls_at_application_data_witness:
  "fold guardWrite (map (\<lambda>w. concat (map encRecord w)) [[(22, [3, 1], [1, 2, 3])], [(20, [3, 3], [1]), (22, [3, 3], [4])]]) True"
  using guard_falls_at_application_data [of "[[(22, [3, 1], [1, 2, 3])], [(20, [3, 3], [1]), (22, [3, 3], [4])]]"]
  by (simp add: okRecord_def tlsRecordApplicationData_def)

end
