(* ===== verification/Routes.thy ===== *)
theory Routes
  imports GoBase "HOL-Library.Word"
begin

text \<open>
  The host routes that keep the proxy's own sockets out of the tunnel (\<open>RouteManager\<close> of \<open>winbridge/routing.go\<close>), the router the
  dials ask (\<open>pkg/proxy/bypass.go\<close>) and the choice of the default route. What \<open>netip.ParseAddr\<close> makes of a text is an argument, and
  so is what the system answers to a call; an operation gives the calls it made with their answers.
\<close>

unbundle bit_operations_syntax

section \<open>Addresses\<close>

text \<open>\<open>netip.Addr\<close>: of four bytes, or of sixteen with a zone.\<close>

datatype netAddr = V4 "32 word" | V6 "128 word" string

definition Is4 :: "netAddr \<Rightarrow> bool" where
  "Is4 a = (case a of V4 _ \<Rightarrow> True | V6 _ _ \<Rightarrow> False)"

definition Is4In6 :: "netAddr \<Rightarrow> bool" where
  "Is4In6 a = (case a of V4 _ \<Rightarrow> False | V6 w _ \<Rightarrow> drop_bit 32 w = 0xFFFF)"

definition Unmap :: "netAddr \<Rightarrow> netAddr" where
  "Unmap a = (case a of V4 w \<Rightarrow> V4 w | V6 w z \<Rightarrow> if Is4In6 a then V4 (ucast w) else a)"

definition BitLen :: "netAddr \<Rightarrow> nat" where
  "BitLen a = (if Is4 a then 32 else 128)"

definition IsLoopback :: "netAddr \<Rightarrow> bool" where
  "IsLoopback a = (case Unmap a of V4 w \<Rightarrow> drop_bit 24 w = 127 | V6 w _ \<Rightarrow> w = 1)"

definition IsMulticast :: "netAddr \<Rightarrow> bool" where
  "IsMulticast a = (case Unmap a of V4 w \<Rightarrow> drop_bit 28 w = 0xE | V6 w _ \<Rightarrow> drop_bit 120 w = 0xFF)"

definition IsLinkLocalUnicast :: "netAddr \<Rightarrow> bool" where
  "IsLinkLocalUnicast a = (case Unmap a of V4 w \<Rightarrow> drop_bit 16 w = 0xA9FE | V6 w _ \<Rightarrow> drop_bit 118 w = 0x3FA)"

definition IsGlobalUnicast :: "netAddr \<Rightarrow> bool" where
  "IsGlobalUnicast a \<longleftrightarrow> a \<noteq> V4 0 \<and> a \<noteq> V4 0xFFFFFFFF \<and> a \<noteq> V6 0 '''' \<and>
     \<not> IsLoopback a \<and> \<not> IsMulticast a \<and> \<not> IsLinkLocalUnicast a"

definition IsPrivate :: "netAddr \<Rightarrow> bool" where
  "IsPrivate a = (case Unmap a of
     V4 w \<Rightarrow> drop_bit 24 w = 10 \<or> drop_bit 20 w = 0xAC1 \<or> drop_bit 16 w = 0xC0A8
   | V6 w _ \<Rightarrow> drop_bit 121 w = 0x7E)"

definition IsUnspecified :: "netAddr \<Rightarrow> bool" where
  "IsUnspecified a \<longleftrightarrow> a = V4 0 \<or> a = V6 0 ''''"

section \<open>The routes\<close>

type_synonym luid = "64 word"

datatype routeResult = RouteAdded | RouteExists | RouteFailed string

text \<open>What was asked of the system: a host route over an interface through a gateway, and the answer.\<close>

datatype routeCall = AddRoute luid netAddr netAddr routeResult | DeleteRoute luid netAddr netAddr bool

record routeManager =
  physLUID :: luid
  physGW :: netAddr
  owned :: "netAddr list"   \<comment> \<open>the keys of the map\<close>
  routeOrder :: "netAddr list"
  inTunnel :: "netAddr list"

definition tunnelDNSSet :: "netAddr option list \<Rightarrow> netAddr list" where
  "tunnelDNSSet servers = map Unmap (List.map_filter id servers)"

text \<open>The gateway and the interface are those of \<open>defaultRoute\<close> below; without one there is no manager.\<close>

definition NewRouteManager :: "netAddr option list \<Rightarrow> (netAddr \<times> luid) option \<Rightarrow> routeManager option" where
  "NewRouteManager tunnelDNS gateway = (case gateway of
     None \<Rightarrow> None
   | Some (gw, l) \<Rightarrow> Some \<lparr>physLUID = l, physGW = gw, owned = [], routeOrder = [], inTunnel = tunnelDNSSet tunnelDNS\<rparr>)"

datatype routeError = NotAnIP | TunnelDNS netAddr | AddFailed netAddr string

definition addLocked :: "netAddr \<Rightarrow> (netAddr \<Rightarrow> routeResult) \<Rightarrow> routeManager \<Rightarrow> routeError option \<times> routeCall list" where
  "addLocked ip answer r =
    (case answer ip of
       RouteAdded \<Rightarrow> (None, [AddRoute (physLUID r) ip (physGW r) RouteAdded])
     | RouteExists \<Rightarrow> (None, [AddRoute (physLUID r) ip (physGW r) RouteExists])
     | RouteFailed t \<Rightarrow> (Some (AddFailed ip t), [AddRoute (physLUID r) ip (physGW r) (RouteFailed t)]))"

definition EnsureBypassRoute :: "netAddr option \<Rightarrow> (netAddr \<Rightarrow> routeResult) \<Rightarrow> routeManager
    \<Rightarrow> routeError option \<times> routeCall list \<times> routeManager" where
  "EnsureBypassRoute parsed answer r = (case parsed of
     None \<Rightarrow> (Some NotAnIP, [], r)
   | Some a \<Rightarrow>
       let ip = Unmap a
       in if \<not> IsGlobalUnicast ip \<or> IsPrivate ip then (None, [], r)
          else if ip \<in> set (inTunnel r) then (Some (TunnelDNS ip), [], r)
          else if ip \<in> set (owned r) then (None, [], r)
          else if Is4 ip \<noteq> Is4 (physGW r) then (None, [], r)
          else (case addLocked ip answer r of
              (Some err, calls) \<Rightarrow> (Some err, calls, r)
            | (None, calls) \<Rightarrow> (None, calls, r\<lparr>owned := ip # owned r, routeOrder := routeOrder r @ [ip]\<rparr>)))"

fun AddTURNRoutes :: "netAddr option list \<Rightarrow> (netAddr \<Rightarrow> routeResult) \<Rightarrow> routeManager \<Rightarrow> routeCall list \<times> routeManager" where
  "AddTURNRoutes [] answer r = ([], r)"
| "AddTURNRoutes (a # as) answer r =
    (let (_, calls, r) = EnsureBypassRoute a answer r; (more, r) = AddTURNRoutes as answer r in (calls @ more, r))"

definition deleteAll :: "(netAddr \<Rightarrow> bool) \<Rightarrow> routeManager \<Rightarrow> routeCall list" where
  "deleteAll deleted r = map (\<lambda>ip. DeleteRoute (physLUID r) ip (physGW r) (deleted ip)) (routeOrder r)"

definition addAll :: "(netAddr \<Rightarrow> routeResult) \<Rightarrow> routeManager \<Rightarrow> routeCall list" where
  "addAll answer r = concat (map (\<lambda>ip. if Is4 ip \<noteq> Is4 (physGW r) then [] else snd (addLocked ip answer r)) (routeOrder r))"

definition Refresh :: "(netAddr \<times> luid) option \<Rightarrow> (netAddr \<Rightarrow> bool) \<Rightarrow> (netAddr \<Rightarrow> routeResult) \<Rightarrow> routeManager
    \<Rightarrow> bool \<times> routeCall list \<times> routeManager" where
  "Refresh gateway deleted answer r = (case gateway of
     None \<Rightarrow> (False, [], r)
   | Some (gw, l) \<Rightarrow>
       if gw = physGW r \<and> l = physLUID r then (False, [], r)
       else let dels = deleteAll deleted r; r = r\<lparr>physGW := gw, physLUID := l\<rparr>
            in (True, dels @ addAll answer r, r))"

definition Reassert :: "(netAddr \<Rightarrow> routeResult) \<Rightarrow> routeManager \<Rightarrow> routeCall list" where
  "Reassert answer r =
    concat (map (\<lambda>ip. if Is4 ip \<noteq> Is4 (physGW r) then [] else [AddRoute (physLUID r) ip (physGW r) (answer ip)]) (routeOrder r))"

definition Cleanup :: "(netAddr \<Rightarrow> bool) \<Rightarrow> routeManager \<Rightarrow> routeCall list \<times> routeManager" where
  "Cleanup deleted r = (deleteAll deleted r, r\<lparr>routeOrder := [], owned := []\<rparr>)"

section \<open>The router the dials ask\<close>

text \<open>A router is known by its manager's number; the host of the address parsed, none for a name.\<close>

definition ClearBypassRouter :: "nat \<Rightarrow> nat option \<Rightarrow> nat option" where
  "ClearBypassRouter k router = (if router = Some k then None else router)"

definition ensureBypass :: "nat option \<Rightarrow> netAddr option \<Rightarrow> (netAddr \<Rightarrow> routeResult) \<Rightarrow> (nat \<Rightarrow> routeManager)
    \<Rightarrow> routeError option \<times> routeCall list \<times> (nat \<Rightarrow> routeManager)" where
  "ensureBypass router host answer rs = (case router of
     None \<Rightarrow> (None, [], rs)
   | Some k \<Rightarrow> (case host of
       None \<Rightarrow> (None, [], rs)
     | Some ip \<Rightarrow> (let (err, calls, r) = EnsureBypassRoute (Some ip) answer (rs k) in (err, calls, rs(k := r)))))"

section \<open>The routes of the tunnel\<close>

text \<open>A prefix: an address and its bits; masked, its network.\<close>

definition Masked :: "netAddr \<times> nat \<Rightarrow> netAddr \<times> nat" where
  "Masked p = (case p of
     (V4 w, n) \<Rightarrow> (V4 (push_bit (32 - n) (drop_bit (32 - n) w)), n)
   | (V6 w _, n) \<Rightarrow> (V6 (push_bit (128 - n) (drop_bit (128 - n) w)) '''', n))"

definition onLinkNextHop :: "netAddr \<Rightarrow> netAddr" where
  "onLinkNextHop a = (if Is4 a then V4 0 else V6 0 '''')"

text \<open>What is asked for the prefixes that parse: the network and its next hop. Removal asks for the same.\<close>

definition AddVPNRoutes :: "(netAddr \<times> nat) option list \<Rightarrow> ((netAddr \<times> nat) \<times> netAddr) list" where
  "AddVPNRoutes allowed =
    List.map_filter (\<lambda>p. case p of None \<Rightarrow> None | Some p \<Rightarrow> (let dst = Masked p in Some (dst, onLinkNextHop (fst dst)))) allowed"

definition RemoveVPNRoutes :: "(netAddr \<times> nat) option list \<Rightarrow> ((netAddr \<times> nat) \<times> netAddr) list" where
  "RemoveVPNRoutes allowed =
    List.map_filter (\<lambda>p. case p of None \<Rightarrow> None | Some p \<Rightarrow> (let dst = Masked p in Some (dst, onLinkNextHop (fst dst)))) allowed"

section \<open>The default route\<close>

text \<open>
  A row of the forwarding table: the bits of its destination (none if it is no prefix), its next hop (none if it is no address), its
  metric and its interface, with the metric of the latter where it could be read.
\<close>

record forwardRow =
  destBits :: "nat option"
  nextHop :: "netAddr option"
  rowMetric :: "32 word"
  rowLUID :: luid
  ifaceMetric :: "32 word option"

definition metricOf :: "forwardRow \<Rightarrow> 32 word" where
  "metricOf row = (case ifaceMetric row of None \<Rightarrow> rowMetric row | Some m \<Rightarrow> rowMetric row + m)"

definition isDefault :: "forwardRow \<Rightarrow> bool" where
  "isDefault row \<longleftrightarrow> destBits row = Some 0 \<and> (case nextHop row of None \<Rightarrow> False | Some nh \<Rightarrow> \<not> IsUnspecified nh)"

definition betterRoute :: "forwardRow \<Rightarrow> forwardRow option \<Rightarrow> forwardRow option" where
  "betterRoute row best =
    (if \<not> isDefault row then best
     else (case best of None \<Rightarrow> Some row | Some b \<Rightarrow> if metricOf row < metricOf b then Some row else best))"

definition defaultRoute :: "forwardRow list \<Rightarrow> (netAddr \<times> luid) option" where
  "defaultRoute rows = (case fold betterRoute rows None of
     None \<Rightarrow> None
   | Some row \<Rightarrow> (case nextHop row of None \<Rightarrow> None | Some nh \<Rightarrow> Some (nh, rowLUID row)))"

end
