(* ===== verification/RoutesProps.thy ===== *)
theory RoutesProps
  imports Routes Traces
begin

text \<open>
  What the bypass routes promise: none to the tunnel's own resolvers or into a private network, and none left behind.
\<close>

section \<open>Calls in any order\<close>

text \<open>An operation of the manager with what the system answers.\<close>

datatype routeOp = Ensure "netAddr option" "netAddr \<Rightarrow> routeResult" | AddMany "netAddr option list" "netAddr \<Rightarrow> routeResult"
  | Rehome "(netAddr \<times> luid) option" "netAddr \<Rightarrow> bool" "netAddr \<Rightarrow> routeResult" | Restore "netAddr \<Rightarrow> routeResult" | TakeDown "netAddr \<Rightarrow> bool"

fun routeStep :: "routeOp \<Rightarrow> routeManager \<Rightarrow> routeCall list \<times> routeManager" where
  "routeStep (Ensure a answer) r = snd (EnsureBypassRoute a answer r)"
| "routeStep (AddMany as answer) r = AddTURNRoutes as answer r"
| "routeStep (Rehome gw deleted answer) r = snd (Refresh gw deleted answer r)"
| "routeStep (Restore answer) r = (Reassert answer r, r)"
| "routeStep (TakeDown deleted) r = Cleanup deleted r"

definition bypassable :: "netAddr list \<Rightarrow> netAddr \<Rightarrow> bool" where
  "bypassable dns ip \<longleftrightarrow> IsGlobalUnicast ip \<and> \<not> IsPrivate ip \<and> \<not> Is4In6 ip \<and> ip \<notin> set dns"

fun fitting :: "netAddr list \<Rightarrow> routeCall \<Rightarrow> bool" where
  "fitting dns (AddRoute l d g res) \<longleftrightarrow> bypassable dns d \<and> Is4 d = Is4 g"
| "fitting dns (DeleteRoute l d g ok) \<longleftrightarrow> bypassable dns d"

definition orderly :: "netAddr list \<Rightarrow> routeManager \<Rightarrow> bool" where
  "orderly dns r \<longleftrightarrow> inTunnel r = dns \<and> set (owned r) = set (routeOrder r) \<and> distinct (routeOrder r) \<and>
     (\<forall>ip \<in> set (routeOrder r). bypassable dns ip)"

lemma not_mapped_Unmap: "\<not> Is4In6 (Unmap a)"
  by (auto simp: Is4In6_def Unmap_def split: netAddr.splits if_splits)

lemma addLocked_cases:
  "addLocked ip answer r = (e, calls) \<Longrightarrow> calls = [AddRoute (physLUID r) ip (physGW r) (answer ip)]"
  by (auto simp: addLocked_def split: routeResult.splits)

text \<open>What an ensured route comes to: nothing, a call that failed, or a route of one more address.\<close>

lemma ensure_cases:
  assumes "EnsureBypassRoute a answer r = (e, calls, r')" "orderly dns r"
  obtains "calls = []" "r' = r"
  | ip where "bypassable dns ip" "Is4 ip = Is4 (physGW r)" "calls = [AddRoute (physLUID r) ip (physGW r) (answer ip)]"
      "answer ip \<noteq> RouteAdded" "r' = r"
  | ip where "bypassable dns ip" "Is4 ip = Is4 (physGW r)" "calls = [AddRoute (physLUID r) ip (physGW r) (answer ip)]"
      "ip \<notin> set (routeOrder r)" "r' = r\<lparr>owned := ip # owned r, routeOrder := routeOrder r @ [ip]\<rparr>"
proof (cases "calls = [] \<and> r' = r")
  case True
  then show ?thesis using that(1) by blast
next
  case False
  then obtain b where b: "a = Some b" using assms(1) by (auto simp: EnsureBypassRoute_def split: option.splits)
  let ?ip = "Unmap b"
  have ip: "IsGlobalUnicast ?ip" "\<not> IsPrivate ?ip" "?ip \<notin> set (inTunnel r)" "?ip \<notin> set (owned r)" "Is4 ?ip = Is4 (physGW r)"
    using assms(1) False b by (auto simp: EnsureBypassRoute_def Let_def split: if_splits)
  obtain e' calls' where ad: "addLocked ?ip answer r = (e', calls')" by fastforce
  have r: "calls = calls' \<and> r' = (if e' = None then r\<lparr>owned := ?ip # owned r, routeOrder := routeOrder r @ [?ip]\<rparr> else r)"
    using assms(1) b ip ad by (auto simp: EnsureBypassRoute_def Let_def split: option.splits)
  have failed: "e' \<noteq> None \<Longrightarrow> answer ?ip \<noteq> RouteAdded" using ad by (auto simp: addLocked_def)
  have ok: "bypassable dns ?ip" "?ip \<notin> set (routeOrder r)"
    using ip assms(2) not_mapped_Unmap by (auto simp: bypassable_def orderly_def)
  show ?thesis
  proof (cases "e' = None")
    case True
    show ?thesis by (rule that(3) [OF ok(1) ip(5)]) (use True r ok(2) addLocked_cases [OF ad] in auto)
  next
    case False
    show ?thesis by (rule that(2) [OF ok(1) ip(5)]) (use False r failed addLocked_cases [OF ad] in auto)
  qed
qed

lemma ensure_orderly:
  assumes "EnsureBypassRoute a answer r = (e, calls, r')" "orderly dns r"
  shows "orderly dns r' \<and> list_all (fitting dns) calls \<and> physGW r' = physGW r \<and> physLUID r' = physLUID r"
  by (rule ensure_cases [OF assms]) (use assms(2) in \<open>auto simp: orderly_def\<close>)

lemma addMany_orderly:
  "\<lbrakk>AddTURNRoutes as answer r = (calls, r'); orderly dns r\<rbrakk> \<Longrightarrow>
   orderly dns r' \<and> list_all (fitting dns) calls \<and> physGW r' = physGW r \<and> physLUID r' = physLUID r"
proof (induction as arbitrary: r calls r')
  case (Cons a as)
  obtain e c1 r1 where 1: "EnsureBypassRoute a answer r = (e, c1, r1)" by (cases "EnsureBypassRoute a answer r")
  obtain c2 r2 where 2: "AddTURNRoutes as answer r1 = (c2, r2)" by (cases "AddTURNRoutes as answer r1")
  have "calls = c1 @ c2" "r' = r2" using Cons.prems(1) 1 2 by simp_all
  then show ?case using ensure_orderly [OF 1 Cons.prems(2)] Cons.IH [OF 2] by auto
qed simp

lemma deleteAll_fitting: "orderly dns r \<Longrightarrow> list_all (fitting dns) (deleteAll deleted r)"
  by (auto simp: deleteAll_def orderly_def list_all_iff)

lemma addAll_fitting:
  assumes "\<forall>ip \<in> set (routeOrder r). bypassable dns ip"
  shows "list_all (fitting dns) (addAll answer r)"
proof -
  have "fitting dns c" if "ip \<in> set (routeOrder r)" "Is4 ip = Is4 (physGW r)" "c \<in> set (snd (addLocked ip answer r))" for ip c
    using that assms addLocked_cases [of ip answer r] by (cases "addLocked ip answer r") auto
  then show ?thesis by (auto simp: addAll_def list_all_iff split: if_splits)
qed

lemma Reassert_fitting: "orderly dns r \<Longrightarrow> list_all (fitting dns) (Reassert answer r)"
  by (auto simp: Reassert_def orderly_def list_all_iff split: if_splits)

lemma routeStep_orderly:
  assumes "orderly dns r" "routeStep q r = (calls, r')"
  shows "orderly dns r' \<and> list_all (fitting dns) calls"
proof (cases q)
  case (Ensure a answer)
  then obtain e where "EnsureBypassRoute a answer r = (e, calls, r')" using assms(2) by (cases "EnsureBypassRoute a answer r") auto
  then show ?thesis using ensure_orderly assms(1) by blast
next
  case (AddMany as answer)
  then show ?thesis using addMany_orderly assms by auto
next
  case (Rehome gw deleted answer)
  show ?thesis
  proof (cases "calls = [] \<and> r' = r")
    case True
    then show ?thesis using assms(1) by simp
  next
    case False
    then obtain g l where g: "gw = Some (g, l)" "r' = r\<lparr>physGW := g, physLUID := l\<rparr>" "calls = deleteAll deleted r @ addAll answer r'"
      using assms(2) Rehome by (auto simp: Refresh_def Let_def split: option.splits if_splits)
    then show ?thesis using assms(1) deleteAll_fitting [OF assms(1)] addAll_fitting [of r' dns answer] by (simp add: orderly_def)
  qed
next
  case (Restore answer)
  then show ?thesis using assms Reassert_fitting by auto
next
  case (TakeDown deleted)
  then show ?thesis using assms deleteAll_fitting [OF assms(1)] by (auto simp: Cleanup_def orderly_def)
qed

interpretation routed: traced routeStep "\<lambda>tr r. orderly dns r \<and> list_all (\<lambda>x. list_all (fitting dns) (snd x)) tr" "\<lambda>q. True" for dns
  by unfold_locales (use routeStep_orderly in \<open>auto simp: list_all_iff\<close>)

lemma orderly_new:
  "NewRouteManager tunnelDNS gw = Some r \<Longrightarrow> orderly (tunnelDNSSet tunnelDNS) r"
  by (auto simp: NewRouteManager_def orderly_def split: option.splits)

text \<open>
  C39. Whatever addresses the dials ask for, in whatever order the gateway changes, comes back and the routes are restored: no host
  route is ever asked for to a resolver of the tunnel, to a private, loopback, link-local, multicast or mapped address, or
  to an address of another family than its gateway.
\<close>

theorem tunnel_resolver_never_bypassed:
  assumes "NewRouteManager tunnelDNS gw = Some r" "traceRun routeStep ops r = (tr, r')"
    and "(q, calls) \<in> set tr" "AddRoute l d g res \<in> set calls"
  shows "d \<notin> set (tunnelDNSSet tunnelDNS) \<and> IsGlobalUnicast d \<and> \<not> IsPrivate d \<and> \<not> Is4In6 d \<and> Is4 d = Is4 g"
proof -
  have "list_all (\<lambda>x. list_all (fitting (tunnelDNSSet tunnelDNS)) (snd x)) tr"
    using routed.run_establishes [OF assms(2), of "tunnelDNSSet tunnelDNS"] orderly_new [OF assms(1)] by simp
  then have "fitting (tunnelDNSSet tunnelDNS) (AddRoute l d g res)" using assms(3,4) by (fastforce simp: list_all_iff)
  then show ?thesis by (simp add: bypassable_def)
qed

text \<open>A run whose dials ask for the tunnel's resolver, a private address and two others, over a change of the gateway.\<close>

theorem tunnel_resolver_never_bypassed_witness:
  "let dns = [Some (V4 0x08080808)];
     ops = [Ensure (Some (V6 0xFFFF5DB8D822 '''')) (\<lambda>_. RouteAdded), AddMany [Some (V4 0x08080808), Some (V4 0x0A000001)] (\<lambda>_. RouteAdded),
       Rehome (Some (V4 0xC0A80101, 2)) (\<lambda>_. True) (\<lambda>_. RouteAdded)];
     r = the (NewRouteManager dns (Some (V4 0xC0A80001, 1)))
   in concat (map snd (fst (traceRun routeStep ops r)))
       = [AddRoute 1 (V4 0x5DB8D822) (V4 0xC0A80001) RouteAdded, DeleteRoute 1 (V4 0x5DB8D822) (V4 0xC0A80001) True,
          AddRoute 2 (V4 0x5DB8D822) (V4 0xC0A80101) RouteAdded] \<and> V4 0x5DB8D822 \<notin> set (tunnelDNSSet dns)"
proof -
  let ?dns = "[Some (V4 0x08080808)]" and ?gw = "Some (V4 0xC0A80001, 1) :: (netAddr \<times> luid) option"
  let ?ops = "[Ensure (Some (V6 0xFFFF5DB8D822 '''')) (\<lambda>_. RouteAdded), AddMany [Some (V4 0x08080808), Some (V4 0x0A000001)] (\<lambda>_. RouteAdded),
       Rehome (Some (V4 0xC0A80101, 2)) (\<lambda>_. True) (\<lambda>_. RouteAdded)]"
  let ?r = "\<lparr>physLUID = 1, physGW = V4 0xC0A80001, owned = [], routeOrder = [], inTunnel = tunnelDNSSet ?dns\<rparr>"
  have n: "NewRouteManager ?dns ?gw = Some ?r" by (simp add: NewRouteManager_def)
  obtain tr r' where t: "traceRun routeStep ?ops ?r = (tr, r')" by (cases "traceRun routeStep ?ops ?r") auto
  have c: "concat (map snd (fst (traceRun routeStep ?ops ?r)))
      = [AddRoute 1 (V4 0x5DB8D822) (V4 0xC0A80001) RouteAdded, DeleteRoute 1 (V4 0x5DB8D822) (V4 0xC0A80001) True,
          AddRoute 2 (V4 0x5DB8D822) (V4 0xC0A80101) RouteAdded]" by code_simp
  then have "AddRoute 1 (V4 0x5DB8D822) (V4 0xC0A80001) RouteAdded \<in> set (concat (map snd tr))" unfolding t by simp
  then obtain q calls where q: "(q, calls) \<in> set tr" "AddRoute 1 (V4 0x5DB8D822) (V4 0xC0A80001) RouteAdded \<in> set calls"
    by auto
  show ?thesis using tunnel_resolver_never_bypassed [OF n t q] c n by (simp only: Let_def option.sel simp_thms)
qed

section \<open>None left behind\<close>

text \<open>The routes this process has put up and not taken down again, from the calls and their answers.\<close>

fun standing :: "routeCall list \<Rightarrow> (luid \<times> netAddr \<times> netAddr) set \<Rightarrow> (luid \<times> netAddr \<times> netAddr) set" where
  "standing [] S = S"
| "standing (AddRoute l d g res # cs) S = standing cs (if res = RouteAdded then insert (l, d, g) S else S)"
| "standing (DeleteRoute l d g ok # cs) S = standing cs (if ok then S - {(l, d, g)} else S)"

fun deletesAll :: "routeOp \<Rightarrow> bool" where
  "deletesAll (Rehome gw deleted answer) \<longleftrightarrow> (\<forall>ip. deleted ip)"
| "deletesAll (TakeDown deleted) \<longleftrightarrow> (\<forall>ip. deleted ip)"
| "deletesAll _ \<longleftrightarrow> True"

definition ownRoutes :: "routeManager \<Rightarrow> (luid \<times> netAddr \<times> netAddr) set" where
  "ownRoutes r = (\<lambda>ip. (physLUID r, ip, physGW r)) ` set (routeOrder r)"

lemma standing_append: "standing (as @ bs) S = standing bs (standing as S)"
  by (induction as S rule: standing.induct) simp_all

lemma standing_adds:
  "\<lbrakk>list_all (\<lambda>c. \<exists>ip \<in> A. \<exists>res. c = AddRoute l ip g res) cs; S \<subseteq> (\<lambda>ip. (l, ip, g)) ` A\<rbrakk> \<Longrightarrow>
   standing cs S \<subseteq> (\<lambda>ip. (l, ip, g)) ` A"
  by (induction cs S rule: standing.induct) auto

lemma standing_dels:
  "\<forall>ip. deleted ip \<Longrightarrow> standing (map (\<lambda>ip. DeleteRoute l ip g (deleted ip)) ips) S = S - (\<lambda>ip. (l, ip, g)) ` set ips"
  by (induction ips arbitrary: S) auto

lemma standing_deleteAll: "\<forall>ip. deleted ip \<Longrightarrow> standing (deleteAll deleted r) S = S - ownRoutes r"
  unfolding deleteAll_def ownRoutes_def by (rule standing_dels)

lemma addAll_shape: "list_all (\<lambda>c. \<exists>ip \<in> set (routeOrder r). \<exists>res. c = AddRoute (physLUID r) ip (physGW r) res) (addAll answer r)"
proof -
  have "snd (addLocked ip answer r) = [AddRoute (physLUID r) ip (physGW r) (answer ip)]" for ip
    using addLocked_cases [of ip answer r] by (cases "addLocked ip answer r") simp
  then show ?thesis by (auto simp: addAll_def list_all_iff split: if_splits)
qed

lemma Reassert_shape: "list_all (\<lambda>c. \<exists>ip \<in> set (routeOrder r). \<exists>res. c = AddRoute (physLUID r) ip (physGW r) res) (Reassert answer r)"
  by (auto simp: Reassert_def list_all_iff split: if_splits)

lemma ensure_standing:
  assumes "EnsureBypassRoute a answer r = (e, calls, r')" "orderly dns r" "S \<subseteq> ownRoutes r"
  shows "standing calls S \<subseteq> ownRoutes r'"
  by (rule ensure_cases [OF assms(1,2)]) (use assms(3) in \<open>auto simp: ownRoutes_def\<close>)

lemma addMany_standing:
  "\<lbrakk>AddTURNRoutes as answer r = (calls, r'); orderly dns r; S \<subseteq> ownRoutes r\<rbrakk> \<Longrightarrow> standing calls S \<subseteq> ownRoutes r'"
proof (induction as arbitrary: r calls r' S)
  case (Cons a as)
  obtain e c1 r1 where 1: "EnsureBypassRoute a answer r = (e, c1, r1)" by (cases "EnsureBypassRoute a answer r")
  obtain c2 r2 where 2: "AddTURNRoutes as answer r1 = (c2, r2)" by (cases "AddTURNRoutes as answer r1")
  have "calls = c1 @ c2" "r' = r2" using Cons.prems(1) 1 2 by simp_all
  moreover have "orderly dns r1" using ensure_orderly [OF 1 Cons.prems(2)] by simp
  ultimately show ?case
    using Cons.IH [OF 2 _ ensure_standing [OF 1 Cons.prems(2,3)]] by (simp add: standing_append)
qed simp

lemma routeStep_standing:
  assumes "orderly dns r" "S \<subseteq> ownRoutes r" "deletesAll q" "routeStep q r = (calls, r')"
  shows "standing calls S \<subseteq> ownRoutes r'"
proof (cases q)
  case (Ensure a answer)
  then obtain e where "EnsureBypassRoute a answer r = (e, calls, r')" using assms(4) by (cases "EnsureBypassRoute a answer r") auto
  then show ?thesis using ensure_standing assms(1,2) by blast
next
  case (AddMany as answer)
  then show ?thesis using addMany_standing assms by auto
next
  case (Rehome gw deleted answer)
  show ?thesis
  proof (cases "calls = [] \<and> r' = r")
    case True
    then show ?thesis using assms(2) by simp
  next
    case False
    then have g: "calls = deleteAll deleted r @ addAll answer r'"
      using assms(4) Rehome by (auto simp: Refresh_def Let_def split: option.splits if_splits)
    have "standing (deleteAll deleted r) S = {}" using standing_deleteAll [of deleted r S] assms(2,3) Rehome by auto
    then have "standing calls S = standing (addAll answer r') {}" by (simp add: g standing_append)
    then show ?thesis using standing_adds [OF addAll_shape, of "{}"] by (simp add: ownRoutes_def)
  qed
next
  case (Restore answer)
  then show ?thesis using assms(2,4) standing_adds [OF Reassert_shape, of S r answer] by (auto simp: ownRoutes_def)
next
  case (TakeDown deleted)
  then show ?thesis using assms(2-4) standing_deleteAll [of deleted r S] by (auto simp: Cleanup_def)
qed

definition stood :: "(routeOp \<times> routeCall list) list \<Rightarrow> (luid \<times> netAddr \<times> netAddr) set" where
  "stood tr = standing (concat (map snd tr)) {}"

interpretation standing_routes: traced routeStep "\<lambda>tr r. orderly dns r \<and> stood tr \<subseteq> ownRoutes r" deletesAll for dns
proof
  fix tr r q calls r'
  assume "orderly dns r \<and> stood tr \<subseteq> ownRoutes r" "deletesAll q" "routeStep q r = (calls, r')"
  then show "orderly dns r' \<and> stood (tr @ [(q, calls)]) \<subseteq> ownRoutes r'"
    using routeStep_orderly routeStep_standing by (simp add: stood_def standing_append) blast
qed

text \<open>
  As long as the system takes down what it is asked to, every route this process has put up and not taken down goes
  through the present gateway to an address the manager knows as its own; so after a cleanup none is left, whatever went before.
\<close>

theorem no_route_is_left_behind:
  assumes "NewRouteManager tunnelDNS gw = Some r" "traceRun routeStep ops r = (tr, r')" "\<forall>q \<in> set ops. deletesAll q"
  shows "stood tr \<subseteq> ownRoutes r' \<and> (\<forall>deleted. (\<forall>ip. deleted ip) \<longrightarrow> standing (fst (Cleanup deleted r')) (stood tr) = {})"
proof -
  have "stood tr \<subseteq> ownRoutes r'"
    using standing_routes.run_establishes [OF assms(2), of "tunnelDNSSet tunnelDNS"] orderly_new [OF assms(1)] assms(3)
    by (simp add: stood_def)
  then show ?thesis using standing_deleteAll by (auto simp: Cleanup_def)
qed

theorem no_route_is_left_behind_witness:
  "let ops = [Ensure (Some (V4 0x5DB8D822)) (\<lambda>_. RouteAdded), Ensure (Some (V4 0x5DB8D823)) (\<lambda>_. RouteFailed ''no interface''),
       Rehome (Some (V4 0xC0A80101, 2)) (\<lambda>_. True) (\<lambda>_. RouteAdded), Restore (\<lambda>_. RouteExists)];
     r = the (NewRouteManager [] (Some (V4 0xC0A80001, 1))); st = traceRun routeStep ops r
   in routeOrder (snd st) = [V4 0x5DB8D822] \<and> standing (fst (Cleanup (\<lambda>_. True) (snd st))) (stood (fst st)) = {}"
proof -
  let ?ops = "[Ensure (Some (V4 0x5DB8D822)) (\<lambda>_. RouteAdded), Ensure (Some (V4 0x5DB8D823)) (\<lambda>_. RouteFailed ''no interface''),
       Rehome (Some (V4 0xC0A80101, 2)) (\<lambda>_. True) (\<lambda>_. RouteAdded), Restore (\<lambda>_. RouteExists)]"
  let ?r = "\<lparr>physLUID = 1, physGW = V4 0xC0A80001, owned = [], routeOrder = [], inTunnel = tunnelDNSSet []\<rparr>"
  have n: "NewRouteManager [] (Some (V4 0xC0A80001, 1)) = Some ?r" by (simp add: NewRouteManager_def)
  obtain tr r' where t: "traceRun routeStep ?ops ?r = (tr, r')" by (cases "traceRun routeStep ?ops ?r") auto
  have d: "\<forall>q \<in> set ?ops. deletesAll q" by simp
  have "routeOrder (snd (traceRun routeStep ?ops ?r)) = [V4 0x5DB8D822]" by code_simp
  moreover have "standing (fst (Cleanup (\<lambda>_. True) r')) (stood tr) = {}"
    using no_route_is_left_behind [OF n t d] by simp
  ultimately show ?thesis using n t by (simp only: Let_def option.sel fst_conv snd_conv)
qed

section \<open>The default route\<close>

definition cheapest :: "forwardRow list \<Rightarrow> forwardRow option \<Rightarrow> bool" where
  "cheapest rows best \<longleftrightarrow> (case best of
     None \<Rightarrow> filter isDefault rows = []
   | Some row \<Rightarrow> (\<exists>before after. filter isDefault rows = before @ row # after \<and>
       (\<forall>x \<in> set before. metricOf row < metricOf x) \<and> (\<forall>x \<in> set after. metricOf row \<le> metricOf x)))"

lemma betterRoute_cheapest:
  assumes c: "cheapest rows best"
  shows "cheapest (rows @ [row]) (betterRoute row best)"
proof (cases "isDefault row")
  case False
  then have "filter isDefault (rows @ [row]) = filter isDefault rows" "betterRoute row best = best" by (simp_all add: betterRoute_def)
  then show ?thesis using c unfolding cheapest_def by (simp only:)
next
  case d: True
  show ?thesis
  proof (cases best)
    case None
    then have "filter isDefault (rows @ [row]) = [row]" "betterRoute row best = Some row"
      using c d by (simp_all add: betterRoute_def cheapest_def)
    then show ?thesis unfolding cheapest_def by (simp add: Cons_eq_append_conv)
  next
    case (Some b)
    then obtain before after where b: "filter isDefault rows = before @ b # after"
      "\<forall>x \<in> set before. metricOf b < metricOf x" "\<forall>x \<in> set after. metricOf b \<le> metricOf x" using c by (auto simp: cheapest_def)
    show ?thesis
    proof (cases "metricOf row < metricOf b")
      case True
      then have "\<forall>x \<in> set (before @ b # after). metricOf row < metricOf x"
        using b(2,3) by (auto intro: order.strict_trans order.strict_trans2)
      then have "\<exists>bf af. filter isDefault (rows @ [row]) = bf @ row # af \<and>
          (\<forall>x \<in> set bf. metricOf row < metricOf x) \<and> (\<forall>x \<in> set af. metricOf row \<le> metricOf x)"
        using d b(1) by (intro exI [of _ "before @ b # after"] exI [of _ "[]"]) simp
      then show ?thesis using Some True d by (simp add: betterRoute_def cheapest_def)
    next
      case False
      then have "\<exists>bf af. filter isDefault (rows @ [row]) = bf @ b # af \<and>
          (\<forall>x \<in> set bf. metricOf b < metricOf x) \<and> (\<forall>x \<in> set af. metricOf b \<le> metricOf x)"
        using d b by (intro exI [of _ before] exI [of _ "after @ [row]"]) (auto simp: not_less)
      then show ?thesis using Some False d by (simp add: betterRoute_def cheapest_def)
    qed
  qed
qed

lemma fold_betterRoute: "cheapest rows best \<Longrightarrow> cheapest (rows @ others) (fold betterRoute others best)"
proof (induction others arbitrary: rows best)
  case (Cons row others)
  then show ?case using betterRoute_cheapest [OF Cons.prems, of row] Cons.IH [of "rows @ [row]"] by simp
qed simp

text \<open>
  The gateway taken is the next hop of the first row, among the default routes with a next hop, whose metric together with its
  interface's is least; there is none exactly if no default route has a next hop.
\<close>

theorem default_route_is_the_cheapest:
  "(defaultRoute rows = None \<longleftrightarrow> filter isDefault rows = []) \<and>
   (\<forall>gw l. defaultRoute rows = Some (gw, l) \<longrightarrow> (\<exists>before row after. filter isDefault rows = before @ row # after \<and>
      nextHop row = Some gw \<and> rowLUID row = l \<and>
      (\<forall>x \<in> set before. metricOf row < metricOf x) \<and> (\<forall>x \<in> set after. metricOf row \<le> metricOf x)))"
proof -
  have c: "cheapest rows (fold betterRoute rows None)" using fold_betterRoute [of "[]" None rows] by (simp add: cheapest_def)
  show ?thesis
  proof (cases "fold betterRoute rows None")
    case None
    then show ?thesis using c by (simp add: defaultRoute_def cheapest_def)
  next
    case (Some row)
    then obtain before after where b: "filter isDefault rows = before @ row # after"
      "\<forall>x \<in> set before. metricOf row < metricOf x" "\<forall>x \<in> set after. metricOf row \<le> metricOf x" using c by (auto simp: cheapest_def)
    have "row \<in> set (filter isDefault rows)" unfolding b(1) by simp
    then obtain nh where nh: "nextHop row = Some nh" by (auto simp: isDefault_def split: option.splits)
    have "defaultRoute rows = Some (nh, rowLUID row)" using Some nh by (simp add: defaultRoute_def)
    then show ?thesis using b nh by auto
  qed
qed

theorem default_route_is_the_cheapest_witness:
  "let row = (\<lambda>nh m l i. \<lparr>destBits = Some 0, nextHop = nh, rowMetric = m, rowLUID = l, ifaceMetric = i\<rparr>);
     rows = [row (Some (V4 0)) 0 1 None, row (Some (V4 0xC0A80001)) 0 2 (Some 50), row (Some (V4 0xC0A80101)) 0 3 (Some 25)]
   in defaultRoute rows = Some (V4 0xC0A80101, 3) \<and> filter isDefault rows \<noteq> []"
proof -
  let ?row = "\<lambda>nh m l i. \<lparr>destBits = Some 0, nextHop = nh, rowMetric = m, rowLUID = l, ifaceMetric = i\<rparr>"
  let ?rows = "[?row (Some (V4 0)) 0 1 None, ?row (Some (V4 0xC0A80001)) 0 2 (Some 50), ?row (Some (V4 0xC0A80101)) 0 3 (Some 25)]"
  have d: "defaultRoute ?rows = Some (V4 0xC0A80101, 3)" by code_simp
  then have "filter isDefault ?rows \<noteq> []" using default_route_is_the_cheapest [of ?rows] by (simp only: option.distinct simp_thms)
  then show ?thesis using d by (simp only: Let_def simp_thms)
qed

end
