(* ===== verification/GoText.thy ===== *)
theory GoText
  imports GoBytes
begin

text \<open>
  Go strings as UTF-8: the runes of a byte string as \<open>range\<close> gives them, a byte that begins no rune being the error rune of one byte;
  what \<open>strings.Map\<close>, \<open>TrimSpace\<close>, \<open>ToLower\<close> and \<open>FieldsFunc\<close> make of them; the numbers of \<open>strconv.Atoi\<close>; and base64.
\<close>

abbreviation ord :: "char \<Rightarrow> nat" where
  "ord c \<equiv> of_char c"

section \<open>Runes\<close>

definition runeError :: nat where "runeError = 0xFFFD"

definition isCont :: "nat \<Rightarrow> nat \<Rightarrow> char \<Rightarrow> bool" where
  "isCont lo hi c \<longleftrightarrow> lo \<le> ord c \<and> ord c \<le> hi"

text \<open>The first rune of a text that is not empty, and how many bytes it takes.\<close>

definition decodeRune :: "string \<Rightarrow> nat \<times> nat" where
  "decodeRune s = (case s of
     [] \<Rightarrow> (runeError, 0)
   | c # cs \<Rightarrow>
     let b = ord c in
     if b < 0x80 then (b, 1)
     else if 0xC2 \<le> b \<and> b \<le> 0xDF then
       (case cs of c1 # _ \<Rightarrow> if isCont 0x80 0xBF c1 then ((b - 0xC0) * 64 + (ord c1 - 0x80), 2) else (runeError, 1) | _ \<Rightarrow> (runeError, 1))
     else if 0xE0 \<le> b \<and> b \<le> 0xEF then
       (case cs of
          c1 # c2 # _ \<Rightarrow>
            if isCont (if b = 0xE0 then 0xA0 else 0x80) (if b = 0xED then 0x9F else 0xBF) c1 \<and> isCont 0x80 0xBF c2
            then ((b - 0xE0) * 4096 + (ord c1 - 0x80) * 64 + (ord c2 - 0x80), 3) else (runeError, 1)
        | _ \<Rightarrow> (runeError, 1))
     else if 0xF0 \<le> b \<and> b \<le> 0xF4 then
       (case cs of
          c1 # c2 # c3 # _ \<Rightarrow>
            if isCont (if b = 0xF0 then 0x90 else 0x80) (if b = 0xF4 then 0x8F else 0xBF) c1 \<and> isCont 0x80 0xBF c2 \<and> isCont 0x80 0xBF c3
            then ((b - 0xF0) * 262144 + (ord c1 - 0x80) * 4096 + (ord c2 - 0x80) * 64 + (ord c3 - 0x80), 4) else (runeError, 1)
        | _ \<Rightarrow> (runeError, 1))
     else (runeError, 1))"

definition encodeRune :: "nat \<Rightarrow> string" where
  "encodeRune r =
    map char_of
     (if r < 0x80 then [r]
      else if r < 0x800 then [0xC0 + r div 64, 0x80 + r mod 64]
      else if r < 0x10000 then [0xE0 + r div 4096, 0x80 + r div 64 mod 64, 0x80 + r mod 64]
      else [0xF0 + r div 262144, 0x80 + r div 4096 mod 64, 0x80 + r div 64 mod 64, 0x80 + r mod 64])"

lemma decodeRune_width: "s \<noteq> [] \<Longrightarrow> 0 < snd (decodeRune s) \<and> snd (decodeRune s) \<le> length s"
  by (auto simp: decodeRune_def Let_def split: list.splits)

function runesOf :: "string \<Rightarrow> nat list" where
  "runesOf s = (if s = [] then [] else (let (r, w) = decodeRune s in r # runesOf (drop w s)))"
  by pat_completeness auto
termination
proof (relation "measure length")
  fix s :: string and x r w
  assume "s \<noteq> []" "x = decodeRune s" "(r, w) = x"
  then show "(drop w s, s) \<in> measure length" using decodeRune_width [of s] by (cases "decodeRune s") auto
qed simp

declare runesOf.simps [simp del]

text \<open>\<open>strings.Map\<close>: none for a rune that is dropped.\<close>

definition mapRunes :: "(nat \<Rightarrow> nat option) \<Rightarrow> string \<Rightarrow> string" where
  "mapRunes f s = concat (map (\<lambda>r. case f r of None \<Rightarrow> [] | Some r \<Rightarrow> encodeRune r) (runesOf s))"

definition isSpace :: "nat \<Rightarrow> bool" where
  "isSpace r \<longleftrightarrow> (9 \<le> r \<and> r \<le> 13) \<or> r \<in> set [0x20, 0x85, 0xA0, 0x1680, 0x2028, 0x2029, 0x202F, 0x205F, 0x3000] \<or> (0x2000 \<le> r \<and> r \<le> 0x200A)"

text \<open>
  \<open>unicode.ToLower\<close> where it can make ASCII: the capitals, the dotted capital I and the Kelvin sign. Other letters are left as they are,
  being compared with ASCII words alone.
\<close>

definition lowerRune :: "nat \<Rightarrow> nat" where
  "lowerRune r = (if 65 \<le> r \<and> r \<le> 90 then r + 32 else if r = 0x130 then 105 else if r = 0x212A then 107 else r)"

definition lowerText :: "string \<Rightarrow> string" where
  "lowerText s = mapRunes (\<lambda>r. Some (lowerRune r)) s"

section \<open>Trimming and fields\<close>

text \<open>The white space of Unicode as it is written, and its removal from the head, as often as it is there.\<close>

definition spaceTexts :: "string list" where
  "spaceTexts = map encodeRune ([9 ..< 14] @ [0x20, 0x85, 0xA0, 0x1680] @ [0x2000 ..< 0x200B] @ [0x2028, 0x2029, 0x202F, 0x205F, 0x3000])"

text \<open>Written out, for evaluation.\<close>

lemma spaceTexts_list [code]:
  "spaceTexts =
    [[CHR 0x09], [CHR 0x0A], [CHR 0x0B], [CHR 0x0C], [CHR 0x0D], [CHR 0x20], [CHR 0xC2, CHR 0x85], [CHR 0xC2, CHR 0xA0],
     [CHR 0xE1, CHR 0x9A, CHR 0x80], [CHR 0xE2, CHR 0x80, CHR 0x80], [CHR 0xE2, CHR 0x80, CHR 0x81], [CHR 0xE2, CHR
     0x80, CHR 0x82], [CHR 0xE2, CHR 0x80, CHR 0x83], [CHR 0xE2, CHR 0x80, CHR 0x84], [CHR 0xE2, CHR 0x80, CHR 0x85],
     [CHR 0xE2, CHR 0x80, CHR 0x86], [CHR 0xE2, CHR 0x80, CHR 0x87], [CHR 0xE2, CHR 0x80, CHR 0x88], [CHR 0xE2, CHR
     0x80, CHR 0x89], [CHR 0xE2, CHR 0x80, CHR 0x8A], [CHR 0xE2, CHR 0x80, CHR 0xA8], [CHR 0xE2, CHR 0x80, CHR 0xA9],
     [CHR 0xE2, CHR 0x80, CHR 0xAF], [CHR 0xE2, CHR 0x81, CHR 0x9F], [CHR 0xE3, CHR 0x80, CHR 0x80]]"
  by code_simp

function dropTexts :: "string list \<Rightarrow> string \<Rightarrow> string" where
  "dropTexts ts s = (case find (\<lambda>t. t \<noteq> [] \<and> hasPrefix s t) ts of None \<Rightarrow> s | Some t \<Rightarrow> dropTexts ts (drop (length t) s))"
  by pat_completeness auto
termination
proof (relation "measure (\<lambda>(ts, s). length s)")
  fix ts :: "string list" and s t
  assume "find (\<lambda>t. t \<noteq> [] \<and> hasPrefix s t) ts = Some t"
  then have "t \<noteq> []" "hasPrefix s t" by (auto simp: find_Some_iff)
  then have "s \<noteq> []" by (auto simp: hasPrefix_def)
  then show "((ts, drop (length t) s), ts, s) \<in> measure (\<lambda>(ts, s). length s)" using \<open>t \<noteq> []\<close> by simp
qed simp

declare dropTexts.simps [simp del]

definition trimSpace :: "string \<Rightarrow> string" where
  "trimSpace s = rev (dropTexts (map rev spaceTexts) (rev (dropTexts spaceTexts s)))"

text \<open>\<open>strings.FieldsFunc\<close> and \<open>strings.Trim\<close> for sets of ASCII bytes.\<close>

fun fieldsAt :: "char list \<Rightarrow> string \<Rightarrow> string \<Rightarrow> string list" where
  "fieldsAt seps cur [] = (if cur = [] then [] else [cur])"
| "fieldsAt seps cur (c # s) =
    (if c \<in> set seps then (if cur = [] then fieldsAt seps [] s else cur # fieldsAt seps [] s) else fieldsAt seps (cur @ [c]) s)"

definition fieldsOf :: "char list \<Rightarrow> string \<Rightarrow> string list" where
  "fieldsOf seps s = fieldsAt seps [] s"

definition trimChars :: "char list \<Rightarrow> string \<Rightarrow> string" where
  "trimChars cs s = rev (dropWhile (\<lambda>c. c \<in> set cs) (rev (dropWhile (\<lambda>c. c \<in> set cs) s)))"

text \<open>The part after the last of some bytes (all, if there is none), and the part before the last one.\<close>

definition afterLast :: "char list \<Rightarrow> string \<Rightarrow> string" where
  "afterLast cs s = rev (takeWhile (\<lambda>c. c \<notin> set cs) (rev s))"

definition beforeLast :: "char \<Rightarrow> string \<Rightarrow> string" where
  "beforeLast c s = (if c \<in> set s then rev (tl (dropWhile (\<lambda>x. x \<noteq> c) (rev s))) else s)"

section \<open>Numbers\<close>

definition isDigit :: "char \<Rightarrow> bool" where
  "isDigit c \<longleftrightarrow> 48 \<le> ord c \<and> ord c \<le> 57"

definition digitsNat :: "string \<Rightarrow> nat" where
  "digitsNat s = fold (\<lambda>c n. n * 10 + (ord c - 48)) s 0"

text \<open>\<open>strconv.Atoi\<close>: none for what is no number or none of 64 bits.\<close>

definition atoi :: "string \<Rightarrow> int option" where
  "atoi s =
    (let (neg, ds) = (case s of [] \<Rightarrow> (False, s) | c # cs \<Rightarrow> if c = CHR ''-'' then (True, cs) else if c = CHR ''+'' then (False, cs) else (False, s))
     in if ds = [] \<or> \<not> list_all isDigit ds then None
        else let n = int (digitsNat ds)
             in if neg then (if n \<le> 2 ^ 63 then Some (- n) else None) else (if n < 2 ^ 63 then Some n else None))"

definition showInt :: "int \<Rightarrow> string" where
  "showInt n = (if n < 0 then CHR ''-'' # showNat (nat (- n)) else showNat (nat n))"

text \<open>The bytes of a line are those of its text.\<close>

lemma set_dropTexts: "set (dropTexts ts s) \<subseteq> set s"
proof (induction ts s rule: dropTexts.induct)
  case (1 ts s)
  show ?case
  proof (cases "find (\<lambda>t. t \<noteq> [] \<and> hasPrefix s t) ts")
    case None
    then show ?thesis by (simp add: dropTexts.simps [of ts s])
  next
    case (Some t)
    then have "set (dropTexts ts (drop (length t) s)) \<subseteq> set (drop (length t) s)" using 1 by simp
    then show ?thesis using Some set_drop_subset [of "length t" s] by (simp add: dropTexts.simps [of ts s])
  qed
qed

lemma set_trimSpace: "set (trimSpace s) \<subseteq> set s"
  unfolding trimSpace_def using set_dropTexts [of spaceTexts s] set_dropTexts [of "map rev spaceTexts" "rev (dropTexts spaceTexts s)"]
  by auto

lemma set_splitOn: "p \<in> set (splitOn c s) \<Longrightarrow> set p \<subseteq> set s - {c}"
proof (induction s arbitrary: p)
  case (Cons x s)
  show ?case
  proof (cases "x = c")
    case True
    then show ?thesis using Cons by auto
  next
    case False
    obtain q qs where q: "splitOn c s = q # qs" by (cases "splitOn c s") auto
    then have "set q \<subseteq> set s - {c}" using Cons.IH [of q] by simp
    moreover have "p = x # q \<or> p \<in> set qs" using Cons.prems False q by simp
    ultimately show ?thesis using False Cons.IH [of p] q by auto
  qed
qed simp

section \<open>Base64\<close>

text \<open>
  \<open>encoding/base64\<close>: the standard alphabet or that of URLs; with padding or raw; strict or not about the bits left over. Line
  breaks in the text are skipped.
\<close>

definition b64Value :: "bool \<Rightarrow> char \<Rightarrow> nat option" where
  "b64Value url c = (let n = ord c in
     if 65 \<le> n \<and> n \<le> 90 then Some (n - 65)
     else if 97 \<le> n \<and> n \<le> 122 then Some (n - 71)
     else if 48 \<le> n \<and> n \<le> 57 then Some (n + 4)
     else if n = (if url then 45 else 43) then Some 62
     else if n = (if url then 95 else 47) then Some 63
     else None)"

definition b64Two :: "bool \<Rightarrow> nat \<Rightarrow> nat \<Rightarrow> byte list option" where
  "b64Two strict a b = (if strict \<and> b mod 16 \<noteq> 0 then None else Some [of_nat (a * 4 + b div 16)])"

definition b64Three :: "bool \<Rightarrow> nat \<Rightarrow> nat \<Rightarrow> nat \<Rightarrow> byte list option" where
  "b64Three strict a b c =
    (if strict \<and> c mod 4 \<noteq> 0 then None else Some [of_nat (a * 4 + b div 16), of_nat (b mod 16 * 16 + c div 4)])"

fun b64Quanta :: "bool \<Rightarrow> bool \<Rightarrow> bool \<Rightarrow> string \<Rightarrow> byte list option" where
  "b64Quanta url padded strict [] = Some []"
| "b64Quanta url padded strict [a] = None"
| "b64Quanta url padded strict [a, b] =
    (if padded then None else (case (b64Value url a, b64Value url b) of (Some u, Some v) \<Rightarrow> b64Two strict u v | _ \<Rightarrow> None))"
| "b64Quanta url padded strict [a, b, c] =
    (if padded then None
     else (case (b64Value url a, b64Value url b, b64Value url c) of (Some u, Some v, Some w) \<Rightarrow> b64Three strict u v w | _ \<Rightarrow> None))"
| "b64Quanta url padded strict (a # b # c # d # s) =
    (case (b64Value url a, b64Value url b) of
       (Some u, Some v) \<Rightarrow>
         if padded \<and> c = CHR ''='' then (if d = CHR ''='' \<and> s = [] then b64Two strict u v else None)
         else (case b64Value url c of
             None \<Rightarrow> None
           | Some w \<Rightarrow>
               if padded \<and> d = CHR ''='' then (if s = [] then b64Three strict u v w else None)
               else (case (b64Value url d, b64Quanta url padded strict s) of
                   (Some x, Some bs) \<Rightarrow>
                     Some (of_nat (u * 4 + v div 16) # of_nat (v mod 16 * 16 + w div 4) # of_nat (w mod 4 * 64 + x) # bs)
                 | _ \<Rightarrow> None))
     | _ \<Rightarrow> None)"

definition b64Decode :: "bool \<Rightarrow> bool \<Rightarrow> bool \<Rightarrow> string \<Rightarrow> byte list option" where
  "b64Decode url padded strict s = b64Quanta url padded strict (filter (\<lambda>c. ord c \<noteq> 10 \<and> ord c \<noteq> 13) s)"

section \<open>Splitting at a text, joining\<close>

text \<open>\<open>strings.Split\<close> at a text of at least one byte, \<open>strings.Join\<close>, and what stands behind the last occurrence of a text.\<close>

function splitText :: "string \<Rightarrow> string \<Rightarrow> string list" where
  "splitText sep s = (case strCut s sep of (a, b, ok) \<Rightarrow> if ok \<and> sep \<noteq> [] then a # splitText sep b else [s])"
  by pat_completeness auto
termination by (relation "measure (\<lambda>(sep, s). length s)") (auto dest!: strCut_split [OF sym])

declare splitText.simps [simp del]

fun joinText :: "string \<Rightarrow> string list \<Rightarrow> string" where
  "joinText sep [] = []"
| "joinText sep [s] = s"
| "joinText sep (s # ss) = s @ sep @ joinText sep ss"

text \<open>\<open>strings.LastIndex\<close>.\<close>

fun lastIndexOf :: "string \<Rightarrow> string \<Rightarrow> nat option" where
  "lastIndexOf sep [] = (if sep = [] then Some 0 else None)"
| "lastIndexOf sep (c # s) =
    (case lastIndexOf sep s of Some i \<Rightarrow> Some (Suc i) | None \<Rightarrow> if hasPrefix (c # s) sep then Some 0 else None)"

text \<open>Up to the first of some bytes.\<close>

definition untilAny :: "char list \<Rightarrow> string \<Rightarrow> string" where
  "untilAny cs s = takeWhile (\<lambda>c. c \<notin> set cs) s"

definition isAlnum :: "char \<Rightarrow> bool" where
  "isAlnum c \<longleftrightarrow> isDigit c \<or> (65 \<le> ord c \<and> ord c \<le> 90) \<or> (97 \<le> ord c \<and> ord c \<le> 122)"

text \<open>The bytes of tokens and of join hashes: \<open>[A-Za-z0-9_-]\<close>.\<close>

definition isSlug :: "char \<Rightarrow> bool" where
  "isSlug c \<longleftrightarrow> isAlnum c \<or> c = CHR ''_'' \<or> c = CHR ''-''"

lemma isSlug_plain: "isSlug c \<Longrightarrow> 33 \<le> ord c \<and> ord c \<le> 126"
  by (auto simp: isSlug_def isAlnum_def isDigit_def)

lemma isSlug_not: "isSlug c \<Longrightarrow> c \<notin> set ''/?#,|=%& ''"
  by (auto simp: isSlug_def isAlnum_def isDigit_def)

text \<open>A text of visible ASCII is trimmed of nothing.\<close>

lemma dropTexts_plain:
  assumes "list_all (\<lambda>t. t = [] \<or> ord (hd t) < 33 \<or> 126 < ord (hd t)) ts" "s = [] \<or> 33 \<le> ord (hd s) \<and> ord (hd s) \<le> 126"
  shows "dropTexts ts s = s"
proof -
  have "\<not> (t \<noteq> [] \<and> hasPrefix s t)" if "t \<in> set ts" for t
  proof
    assume t: "t \<noteq> [] \<and> hasPrefix s t"
    then have s: "s = t @ drop (length t) s" by (metis append_take_drop_id hasPrefix_def)
    then have "hd s = hd t" "s \<noteq> []" using t by (metis hd_append2, auto)
    then show False using assms that t by (auto simp: list_all_iff)
  qed
  then have "find (\<lambda>t. t \<noteq> [] \<and> hasPrefix s t) ts = None" by (auto simp: find_None_iff)
  then show ?thesis by (subst dropTexts.simps) simp
qed

lemma trimSpace_plain:
  assumes "\<forall>c \<in> set s. 33 \<le> ord c \<and> ord c \<le> 126"
  shows "trimSpace s = s"
proof -
  have 1: "list_all (\<lambda>t. t = [] \<or> ord (hd t) < 33 \<or> 126 < ord (hd t)) spaceTexts" by code_simp
  have 2: "list_all (\<lambda>t. t = [] \<or> ord (hd t) < 33 \<or> 126 < ord (hd t)) (map rev spaceTexts)" by code_simp
  have "dropTexts spaceTexts s = s" using dropTexts_plain [OF 1] assms by (cases s) auto
  moreover have "dropTexts (map rev spaceTexts) (rev s) = rev s" using dropTexts_plain [OF 2, of "rev s"] assms hd_in_set [of "rev s"] by auto
  ultimately show ?thesis by (simp add: trimSpace_def)
qed

lemma splitOn_cut: "c \<notin> set l \<Longrightarrow> splitOn c (l @ c # s) = l # splitOn c s"
  by (induction l) auto

lemma splitOn_none: "c \<notin> set l \<Longrightarrow> splitOn c l = [l]"
  by (induction l) auto

text \<open>Parts without the separator come back from their join.\<close>

lemma splitOn_join: "\<lbrakk>ss \<noteq> []; \<forall>s \<in> set ss. c \<notin> set s\<rbrakk> \<Longrightarrow> splitOn c (joinText [c] ss) = ss"
proof (induction ss)
  case (Cons s ss)
  then show ?case by (cases ss) (simp_all add: splitOn_cut splitOn_none)
qed simp

section \<open>Decimal round trips\<close>

definition noLeadingZero :: "string \<Rightarrow> bool" where
  "noLeadingZero s \<longleftrightarrow> s \<noteq> [] \<and> (hd s \<noteq> CHR ''0'' \<or> length s = 1)"

lemma digitsNat_snoc: "digitsNat (s @ [c]) = digitsNat s * 10 + (ord c - 48)"
  by (simp add: digitsNat_def)

lemma digit_char_of: "isDigit c \<Longrightarrow> (char_of (48 + (ord c - 48)) :: char) = c \<and> ord c - 48 < 10"
  by (auto simp: isDigit_def)

lemma ord_digit: "n < 10 \<Longrightarrow> ord (char_of (48 + n) :: char) = 48 + n"
  by simp

lemma digitsNat_pos: "\<lbrakk>s \<noteq> []; list_all isDigit s; hd s \<noteq> CHR ''0''\<rbrakk> \<Longrightarrow> 0 < digitsNat s"
proof (induction s rule: rev_induct)
  case (snoc c s)
  show ?case
  proof (cases "s = []")
    case True
    have "ord c \<noteq> 48"
    proof
      assume "ord c = 48"
      then have "ord c = ord (CHR ''0'')" by simp
      then have "c = CHR ''0''" by (simp only: of_char_eq_iff)
      then show False using snoc.prems True by simp
    qed
    then show ?thesis using snoc.prems True by (simp add: digitsNat_def isDigit_def)
  next
    case False
    then have "0 < digitsNat s" using snoc by simp
    then show ?thesis by (simp add: digitsNat_snoc)
  qed
qed simp

lemma showNat_digitsNat: "\<lbrakk>list_all isDigit s; noLeadingZero s\<rbrakk> \<Longrightarrow> showNat (digitsNat s) = s"
proof (induction s rule: rev_induct)
  case (snoc c s)
  have c: "isDigit c" "list_all isDigit s" using snoc.prems(1) by simp_all
  show ?case
  proof (cases "s = []")
    case True
    then show ?thesis using digit_char_of [OF c(1)] by (simp add: digitsNat_def showNat.simps)
  next
    case False
    then have h: "hd s \<noteq> CHR ''0''" using snoc.prems(2) by (simp add: noLeadingZero_def)
    have p: "0 < digitsNat s" using digitsNat_pos [OF False c(2) h] .
    have "noLeadingZero s" using False h by (simp add: noLeadingZero_def)
    then have "showNat (digitsNat s) = s" using snoc.IH c(2) by simp
    then show ?thesis using digit_char_of [OF c(1)] p by (subst showNat.simps) (simp add: digitsNat_snoc)
  qed
qed (simp add: noLeadingZero_def)

lemma showNat_isDigit: "list_all isDigit (showNat n)"
proof (induction n rule: showNat.induct)
  case (1 n)
  then show ?case by (cases "n < 10") (auto simp: showNat.simps [of n] isDigit_def)
qed

lemma digitsNat_showNat [simp]: "digitsNat (showNat n) = n"
proof (induction n rule: showNat.induct)
  case (1 n)
  show ?case
  proof (cases "n < 10")
    case True
    then show ?thesis by (simp add: showNat.simps [of n] digitsNat_def)
  next
    case False
    then show ?thesis using 1 by (simp add: showNat.simps [of n] digitsNat_snoc)
  qed
qed

lemma showNat_not_Nil [simp]: "showNat n \<noteq> []"
  by (subst showNat.simps) simp

lemma showNat_noLeadingZero: "noLeadingZero (showNat n)"
proof -
  have "hd (showNat n) \<noteq> CHR ''0''" if "0 < n" for n
    using that
  proof (induction n rule: showNat.induct)
    case (1 n)
    show ?case
    proof (cases "n < 10")
      case True
      have "ord (char_of (48 + n) :: char) \<noteq> ord (CHR ''0'')" using True 1(2) by simp
      then have "(char_of (48 + n) :: char) \<noteq> CHR ''0''" by metis
      then show ?thesis using True by (subst showNat.simps) simp
    next
      case False
      then have "hd (showNat (n div 10)) \<noteq> CHR ''0''" using 1 by simp
      then show ?thesis using False by (subst showNat.simps) simp
    qed
  qed
  moreover have "length (showNat 0) = 1" by (simp add: showNat.simps)
  ultimately show ?thesis by (cases "n = 0") (simp_all add: noLeadingZero_def)
qed

text \<open>A number of 64 bits is read as it is shown.\<close>

lemma atoi_showNat: "int n < 2 ^ 63 \<Longrightarrow> atoi (showNat n) = Some (int n)"
proof -
  obtain c cs where c: "showNat n = c # cs" by (cases "showNat n") auto
  have d: "list_all isDigit (showNat n)" by (rule showNat_isDigit)
  then have "c \<noteq> CHR ''-''" "c \<noteq> CHR ''+''" unfolding c by (auto simp: isDigit_def)
  then have "(case showNat n of [] \<Rightarrow> (False, showNat n) | c # cs \<Rightarrow> if c = CHR ''-'' then (True, cs) else if c = CHR ''+'' then (False, cs)
      else (False, showNat n)) = (False, showNat n)" unfolding c by simp
  moreover assume "int n < 2 ^ 63"
  ultimately show ?thesis using d by (simp add: atoi_def Let_def)
qed

end
