(* ===== verification/Config.thy ===== *)
theory Config
  imports GoText Credentials
begin

text \<open>
  The configuration (\<open>winbridge/config.go\<close>, \<open>import.go\<close>): the reader of the file with its \<open>#@wgt:\<close> lines, what of it is usable, the form
  in which the WireGuard device takes it, and the requests to the service. Reading and writing of files, DPAPI and the
  JSON of the answers are left out: what they give is an argument.
\<close>

section \<open>The records\<close>

definition defaultTURNMTU :: int where "defaultTURNMTU = 1200"

record turnConfig =
  VKLink :: string
  UseUDP :: bool
  StreamsTotal :: int
  StreamsPerCred :: int
  WatchdogSecs :: int
  PeerAddr :: string
  ListenAddr :: string
  TurnIP :: string
  TurnPort :: int
  PeerType :: string
  ExtraRelays :: string
  WrapKey :: string
  SystemDNS :: "string list"

definition zeroTurnConfig :: turnConfig where
  "zeroTurnConfig = \<lparr>VKLink = [], UseUDP = False, StreamsTotal = 0, StreamsPerCred = 0, WatchdogSecs = 0, PeerAddr = [], ListenAddr = [],
     TurnIP = [], TurnPort = 0, PeerType = [], ExtraRelays = [], WrapKey = [], SystemDNS = []\<rparr>"

record tunnelConfig =
  PrivateKey :: string
  Address :: "string list"
  DNS :: "string list"
  MTU :: int
  PublicKey :: string
  PresharedKey :: string
  Endpoint :: string
  AllowedIPs :: "string list"
  PersistentKeepalive :: int
  TURN :: turnConfig
  Name :: string

section \<open>Reading\<close>

definition splitCSV :: "string \<Rightarrow> string list" where
  "splitCSV s = filter (\<lambda>p. p \<noteq> []) (map trimSpace (splitOn (CHR '','') s))"

definition clamp :: "int \<Rightarrow> int \<Rightarrow> int \<Rightarrow> int" where
  "clamp v lo hi = (if v < lo then lo else if v > hi then hi else v)"

text \<open>One \<open>#@wgt:\<close> line.\<close>

definition turnSetting :: "string \<Rightarrow> string \<Rightarrow> turnConfig \<Rightarrow> turnConfig" where
  "turnSetting k v t =
    (if k = ''vklink'' then t\<lparr>VKLink := v\<rparr>
     else if k = ''useudp'' then t\<lparr>UseUDP := (toLower v = ''true'')\<rparr>
     else if k = ''streamnum'' then (case atoi v of Some n \<Rightarrow> t\<lparr>StreamsTotal := clamp n 1 128\<rparr> | None \<Rightarrow> t)
     else if k = ''localport'' then (case atoi v of Some n \<Rightarrow> t\<lparr>ListenAddr := ''127.0.0.1:'' @ showInt (clamp n 1 65535)\<rparr> | None \<Rightarrow> t)
     else if k = ''ipport'' then t\<lparr>PeerAddr := v\<rparr>
     else if k = ''turnip'' then t\<lparr>TurnIP := v\<rparr>
     else if k = ''turnport'' then (case atoi v of Some n \<Rightarrow> t\<lparr>TurnPort := clamp n 1 65535\<rparr> | None \<Rightarrow> t)
     else if k = ''peertype'' then t\<lparr>PeerType := v\<rparr>
     else if k = ''streamspercred'' then (case atoi v of Some n \<Rightarrow> t\<lparr>StreamsPerCred := clamp n 1 MaxStreamsPerCredential\<rparr> | None \<Rightarrow> t)
     else if k = ''watchdogtimeout'' then (case atoi v of Some n \<Rightarrow> if n \<ge> 5 then t\<lparr>WatchdogSecs := n\<rparr> else t | None \<Rightarrow> t)
     else if k = ''wrapkey'' then t\<lparr>WrapKey := v\<rparr>
     else if k = ''extrarelays'' then t\<lparr>ExtraRelays := v\<rparr>
     else t)"

definition turnLine :: "string \<Rightarrow> turnConfig \<Rightarrow> turnConfig" where
  "turnLine line t =
    (if \<not> hasPrefix line ''#@wgt:'' then t
     else (case strCut (drop 6 line) ''='' of (k, v, ok) \<Rightarrow>
       if \<not> ok then t else turnSetting (lowerText (trimSpace k)) (trimSpace v) t))"

definition parseTURNSettings :: "string list \<Rightarrow> turnConfig \<Rightarrow> turnConfig" where
  "parseTURNSettings lines t = fold turnLine lines (t\<lparr>UseUDP := True\<rparr>)"

text \<open>
  The lines of \<open>bufio.Scanner\<close>: a last one without a line feed counts unless it is empty, a carriage return before the line feed is
  dropped; none if a line reaches the scanner's 64 kB.
\<close>

definition scanLines :: "string \<Rightarrow> string list option" where
  "scanLines s =
    (let pieces = splitOn (CHR 0x0A) s; pieces = (if last pieces = [] then butlast pieces else pieces)
     in if list_ex (\<lambda>p. length p \<ge> 65536) pieces then None
        else Some (map (\<lambda>p. if p \<noteq> [] \<and> last p = CHR 0x0D then butlast p else p) pieces))"

definition confSetting :: "string \<Rightarrow> string \<Rightarrow> string \<Rightarrow> tunnelConfig \<Rightarrow> tunnelConfig" where
  "confSetting section k v cfg =
    (if section = ''interface'' then
       (if k = ''privatekey'' then cfg\<lparr>PrivateKey := v\<rparr>
        else if k = ''address'' then cfg\<lparr>Address := Address cfg @ splitCSV v\<rparr>
        else if k = ''dns'' then cfg\<lparr>DNS := DNS cfg @ splitCSV v\<rparr>
        else if k = ''mtu'' then (case atoi v of Some n \<Rightarrow> cfg\<lparr>MTU := n\<rparr> | None \<Rightarrow> cfg)
        else cfg)
     else if section = ''peer'' then
       (if k = ''publickey'' then cfg\<lparr>PublicKey := v\<rparr>
        else if k = ''presharedkey'' then cfg\<lparr>PresharedKey := v\<rparr>
        else if k = ''endpoint'' then cfg\<lparr>Endpoint := v\<rparr>
        else if k = ''allowedips'' then cfg\<lparr>AllowedIPs := AllowedIPs cfg @ splitCSV v\<rparr>
        else if k = ''persistentkeepalive'' then (case atoi v of Some n \<Rightarrow> cfg\<lparr>PersistentKeepalive := n\<rparr> | None \<Rightarrow> cfg)
        else cfg)
     else cfg)"

text \<open>One line of the file; the section it stands in and the lines kept for the TURN settings go along.\<close>

definition confLine :: "string \<Rightarrow> tunnelConfig \<times> string \<times> string list \<Rightarrow> tunnelConfig \<times> string \<times> string list" where
  "confLine line st = (case st of (cfg, section, wgt) \<Rightarrow>
     let line = trimSpace line
     in if line = [] then st
        else if hasPrefix line ''#@wgt:'' then (cfg, section, wgt @ [line])
        else if hasPrefix line ''#'' then st
        else if hasPrefix line ''['' then (cfg, lowerText (trimChars ''[]'' line), wgt)
        else (case strCut line ''='' of (k, v, ok) \<Rightarrow>
          if \<not> ok then st else (confSetting section (lowerText (trimSpace k)) (trimSpace v) cfg, section, wgt)))"

definition confName :: "string \<Rightarrow> string" where
  "confName path = beforeLast (CHR ''.'') (afterLast [CHR ''/'', CHR 0x5C] path)"

definition parseConfBytes :: "string \<Rightarrow> string \<Rightarrow> tunnelConfig option" where
  "parseConfBytes text path =
    (let cfg = \<lparr>PrivateKey = [], Address = [], DNS = [], MTU = defaultTURNMTU, PublicKey = [], PresharedKey = [], Endpoint = [],
           AllowedIPs = [], PersistentKeepalive = 0, TURN = zeroTurnConfig, Name = confName path\<rparr>
     in (case scanLines text of
           None \<Rightarrow> None
         | Some lines \<Rightarrow>
             (case fold confLine lines (cfg, [], []) of (cfg, section, wgt) \<Rightarrow>
               Some (cfg\<lparr>TURN := parseTURNSettings wgt (TURN cfg)\<rparr>))))"

section \<open>For the device\<close>

definition keyToHex :: "string \<Rightarrow> string" where
  "keyToHex b64key =
    (let k = trimSpace b64key
     in if k = [] then []
        else (case b64Decode False True False k of
            Some raw \<Rightarrow> hexEncode raw
          | None \<Rightarrow> (case b64Decode False False False k of Some raw \<Rightarrow> hexEncode raw | None \<Rightarrow> k)))"

definition newline :: string where "newline = [CHR 0x0A]"

definition BuildWGUAPIConfig :: "tunnelConfig \<Rightarrow> string \<Rightarrow> string" where
  "BuildWGUAPIConfig c listenAddr =
    ''private_key='' @ keyToHex (PrivateKey c) @ newline @
    ''public_key='' @ keyToHex (PublicKey c) @ newline @
    (if PresharedKey c \<noteq> [] then ''preshared_key='' @ keyToHex (PresharedKey c) @ newline else []) @
    ''endpoint='' @ (if listenAddr = [] then Endpoint c else listenAddr) @ newline @
    concat (map (\<lambda>a. ''allowed_ip='' @ trimSpace a @ newline) (AllowedIPs c)) @
    (if PersistentKeepalive c > 0 then ''persistent_keepalive_interval='' @ showInt (PersistentKeepalive c) @ newline else [])"

definition isWGKey :: "string \<Rightarrow> bool" where
  "isWGKey k = (case hexDecode (keyToHex k) of None \<Rightarrow> False | Some raw \<Rightarrow> length raw = 32)"

definition configUsable :: "string \<Rightarrow> bool" where
  "configUsable text = (case parseConfBytes text [] of None \<Rightarrow> False | Some cfg \<Rightarrow> isWGKey (PrivateKey cfg) \<and> isWGKey (PublicKey cfg))"

section \<open>Requests\<close>

text \<open>
  What an attempt comes to: no answer, or one with its status and body, and with it the download address its body names. The result
  goes with the pauses made between the attempts.
\<close>

datatype httpOutcome = NoAnswer string | Answer nat string string
datatype apiError = Unauthorized | UpgradeRequired string | StatusError nat string | TransportFailed string

definition maxAttempts :: nat where "maxAttempts = 3"

function apiAttempt :: "nat \<Rightarrow> (nat \<Rightarrow> httpOutcome) \<Rightarrow> (apiError + string) \<times> duration list" where
  "apiAttempt attempt answers =
    (case answers attempt of
       NoAnswer err \<Rightarrow>
         if attempt < maxAttempts
         then (let (r, pauses) = apiAttempt (attempt + 1) answers in (r, (int attempt * 500 * millisecond) # pauses))
         else (Inl (TransportFailed err), [])
     | Answer status body download \<Rightarrow>
         (if status = 401 then Inl Unauthorized
          else if status = 426 then Inl (UpgradeRequired download)
          else if status < 200 \<or> status \<ge> 300 then Inl (StatusError status (trimSpace body))
          else Inr body, []))"
  by pat_completeness auto
termination by (relation "measure (\<lambda>(a, _). maxAttempts - a)") auto

declare apiAttempt.simps [simp del]

definition apiGet :: "(nat \<Rightarrow> httpOutcome) \<Rightarrow> (apiError + string) \<times> duration list" where
  "apiGet answers = apiAttempt 1 answers"

datatype importError = TokenRefused | TokenNotFound | NoServer string | ApiError apiError | NoToken | NoConfig | BadAnswer | BadConfig

definition initError :: "apiError \<Rightarrow> importError" where
  "initError err = (case err of
     Unauthorized \<Rightarrow> TokenRefused
   | StatusError code _ \<Rightarrow> if code = 404 then TokenNotFound else ApiError err
   | TransportFailed t \<Rightarrow> NoServer t
   | UpgradeRequired _ \<Rightarrow> ApiError err)"

text \<open>The answer's JSON, none if it does not parse: token and configuration.\<close>

definition InitFromToken :: "apiError + (string \<times> string) option \<Rightarrow> importError + string \<times> string" where
  "InitFromToken r = (case r of
     Inl err \<Rightarrow> Inl (initError err)
   | Inr None \<Rightarrow> Inl BadAnswer
   | Inr (Some (token, config)) \<Rightarrow>
       if token = [] then Inl NoToken else if config = [] then Inl NoConfig else Inr (trimSpace config, token))"

definition FetchConfig :: "apiError + string option \<Rightarrow> importError + string" where
  "FetchConfig r = (case r of
     Inl err \<Rightarrow> Inl (ApiError err)
   | Inr None \<Rightarrow> Inl BadAnswer
   | Inr (Some config) \<Rightarrow> if config = [] then Inl NoConfig else Inr (trimSpace config))"

end
