(* ===== verification/ConfigProps.thy ===== *)
theory ConfigProps
  imports Config
begin

text \<open>
  What the reader of the configuration promises: settings within their bounds, one line of the device's configuration for each
  field whatever the file holds, and keys that arrive as they were written.
\<close>

section \<open>Bounds\<close>

definition boundedTurn :: "turnConfig \<Rightarrow> bool" where
  "boundedTurn t \<longleftrightarrow> 0 \<le> StreamsTotal t \<and> StreamsTotal t \<le> 128 \<and> 0 \<le> StreamsPerCred t \<and> StreamsPerCred t \<le> MaxStreamsPerCredential \<and>
     0 \<le> TurnPort t \<and> TurnPort t \<le> 65535 \<and> (WatchdogSecs t = 0 \<or> 5 \<le> WatchdogSecs t) \<and>
     (ListenAddr t = [] \<or> (\<exists>p. 1 \<le> p \<and> p \<le> 65535 \<and> ListenAddr t = ''127.0.0.1:'' @ showInt p))"

lemma clamp_bounds: "lo \<le> hi \<Longrightarrow> lo \<le> clamp v lo hi \<and> clamp v lo hi \<le> hi"
  by (simp add: clamp_def)

lemma bounded_free:
  "boundedTurn t \<Longrightarrow> boundedTurn (t\<lparr>VKLink := v\<rparr>)" "boundedTurn t \<Longrightarrow> boundedTurn (t\<lparr>UseUDP := u\<rparr>)"
  "boundedTurn t \<Longrightarrow> boundedTurn (t\<lparr>PeerAddr := v\<rparr>)" "boundedTurn t \<Longrightarrow> boundedTurn (t\<lparr>TurnIP := v\<rparr>)"
  "boundedTurn t \<Longrightarrow> boundedTurn (t\<lparr>PeerType := v\<rparr>)" "boundedTurn t \<Longrightarrow> boundedTurn (t\<lparr>WrapKey := v\<rparr>)"
  "boundedTurn t \<Longrightarrow> boundedTurn (t\<lparr>ExtraRelays := v\<rparr>)"
  by (simp_all add: boundedTurn_def)

lemma bounded_clamped:
  assumes "boundedTurn t"
  shows "boundedTurn (t\<lparr>StreamsTotal := clamp n 1 128\<rparr>)" "boundedTurn (t\<lparr>TurnPort := clamp n 1 65535\<rparr>)"
    "boundedTurn (t\<lparr>StreamsPerCred := clamp n 1 MaxStreamsPerCredential\<rparr>)"
    "boundedTurn (t\<lparr>ListenAddr := ''127.0.0.1:'' @ showInt (clamp n 1 65535)\<rparr>)"
    "5 \<le> n \<Longrightarrow> boundedTurn (t\<lparr>WatchdogSecs := n\<rparr>)"
proof -
  have c: "1 \<le> clamp n 1 128 \<and> clamp n 1 128 \<le> 128" "1 \<le> clamp n 1 65535 \<and> clamp n 1 65535 \<le> 65535"
    "1 \<le> clamp n 1 MaxStreamsPerCredential \<and> clamp n 1 MaxStreamsPerCredential \<le> MaxStreamsPerCredential"
    using clamp_bounds by (simp_all add: go_consts)
  show "boundedTurn (t\<lparr>StreamsTotal := clamp n 1 128\<rparr>)" using assms c(1) by (simp add: boundedTurn_def)
  show "boundedTurn (t\<lparr>TurnPort := clamp n 1 65535\<rparr>)" using assms c(2) by (simp add: boundedTurn_def)
  show "boundedTurn (t\<lparr>StreamsPerCred := clamp n 1 MaxStreamsPerCredential\<rparr>)" using assms c(3) by (simp add: boundedTurn_def)
  show "boundedTurn (t\<lparr>ListenAddr := ''127.0.0.1:'' @ showInt (clamp n 1 65535)\<rparr>)"
    using assms c(2) unfolding boundedTurn_def by simp blast
  show "5 \<le> n \<Longrightarrow> boundedTurn (t\<lparr>WatchdogSecs := n\<rparr>)" using assms by (simp add: boundedTurn_def)
qed

lemma boundedTurn_setting: "boundedTurn t \<Longrightarrow> boundedTurn (turnSetting k v t)"
  unfolding turnSetting_def by (simp add: bounded_free bounded_clamped bounded_clamped(4) [simplified] split: option.split)

lemma boundedTurn_line: "boundedTurn t \<Longrightarrow> boundedTurn (turnLine line t)"
  by (auto simp: turnLine_def boundedTurn_setting split: prod.splits)

lemma boundedTurn_parse: "boundedTurn (parseTURNSettings lines zeroTurnConfig)"
proof -
  have "boundedTurn t \<Longrightarrow> boundedTurn (fold turnLine ls t)" for ls t
    by (induction ls arbitrary: t) (simp_all add: boundedTurn_line)
  then show ?thesis unfolding parseTURNSettings_def
    by (simp add: zeroTurnConfig_def boundedTurn_def go_consts)
qed

lemma confSetting_TURN: "TURN (confSetting s k v cfg) = TURN cfg"
  by (auto simp: confSetting_def split: option.splits)

lemma fold_confLine_TURN: "fold confLine lines (cfg, s, w) = (cfg', s', w') \<Longrightarrow> TURN cfg' = TURN cfg"
proof (induction lines arbitrary: cfg s w)
  case (Cons line lines)
  obtain c1 s1 w1 where 1: "confLine line (cfg, s, w) = (c1, s1, w1)" by (cases "confLine line (cfg, s, w)") auto
  then have "TURN c1 = TURN cfg" by (auto simp: confLine_def Let_def confSetting_TURN split: if_splits prod.splits)
  then show ?case using Cons.IH [of c1 s1 w1] Cons.prems 1 by simp
qed simp

text \<open>
  Whatever a configuration says, the streams are at most 128 and ten on a credential, the ports are ports of the machine itself
  or none, and a watchdog that is set waits five seconds or more.
\<close>

theorem settings_stay_in_bounds:
  "case parseConfBytes text path of None \<Rightarrow> True | Some cfg \<Rightarrow> boundedTurn (TURN cfg)"
proof (cases "scanLines text")
  case None
  then show ?thesis by (simp add: parseConfBytes_def)
next
  case (Some lines)
  let ?cfg = "\<lparr>PrivateKey = [], Address = [], DNS = [], MTU = defaultTURNMTU, PublicKey = [], PresharedKey = [], Endpoint = [],
     AllowedIPs = [], PersistentKeepalive = 0, TURN = zeroTurnConfig, Name = confName path\<rparr>"
  obtain cfg s w where f: "fold confLine lines (?cfg, [], []) = (cfg, s, w)" by (cases "fold confLine lines (?cfg, [], [])") auto
  have "TURN cfg = zeroTurnConfig" using fold_confLine_TURN [OF f] by simp
  then show ?thesis using Some f boundedTurn_parse by (simp add: parseConfBytes_def)
qed

section \<open>Lines\<close>

definition freeOf :: "char \<Rightarrow> string \<Rightarrow> bool" where
  "freeOf c s \<longleftrightarrow> c \<notin> set s"

definition lineFree :: "tunnelConfig \<Rightarrow> bool" where
  "lineFree c \<longleftrightarrow> list_all (freeOf (CHR 0x0A)) ([PrivateKey c, PublicKey c, PresharedKey c, Endpoint c] @ AllowedIPs c)"

lemma freeOf_sub: "freeOf c s \<Longrightarrow> set t \<subseteq> set s \<Longrightarrow> freeOf c t"
  by (auto simp: freeOf_def)

lemma freeOf_trim: "freeOf c s \<Longrightarrow> freeOf c (trimSpace s)"
  by (rule freeOf_sub [OF _ set_trimSpace])

lemma freeOf_cut: "freeOf c s \<Longrightarrow> strCut s sep = (k, v, ok) \<Longrightarrow> freeOf c k \<and> freeOf c v"
  using set_take_subset set_drop_subset by (fastforce simp: strCut_def freeOf_def split: option.splits)

lemma freeOf_csv: "freeOf c s \<Longrightarrow> list_all (freeOf c) (splitCSV s)"
proof -
  assume f: "freeOf c s"
  have "freeOf c (trimSpace p)" if "p \<in> set (splitOn (CHR '','') s)" for p
    using freeOf_trim [OF freeOf_sub [OF f, of p]] set_splitOn [OF that] by blast
  then show ?thesis by (auto simp: splitCSV_def list_all_iff)
qed

lemma lineFree_setting:
  assumes "lineFree cfg" "freeOf (CHR 0x0A) v"
  shows "lineFree (confSetting s k v cfg)"
  using assms freeOf_csv [OF assms(2)] unfolding confSetting_def lineFree_def by (auto split: option.split)

lemma lineFree_line:
  assumes "lineFree cfg" "freeOf (CHR 0x0A) line" "confLine line (cfg, s, w) = (cfg', s', w')"
  shows "lineFree cfg'"
proof -
  obtain k v ok where cut: "strCut (trimSpace line) ''='' = (k, v, ok)" by (cases "strCut (trimSpace line) ''=''") auto
  have "freeOf (CHR 0x0A) (trimSpace v)" using freeOf_cut [OF freeOf_trim [OF assms(2)] cut] freeOf_trim by blast
  then have "lineFree (confSetting s (lowerText (trimSpace k)) (trimSpace v) cfg)" using lineFree_setting [OF assms(1)] by blast
  then show ?thesis using assms(1,3) cut by (auto simp: confLine_def Let_def split: if_splits)
qed

lemma fold_lineFree:
  "\<lbrakk>lineFree cfg; list_all (freeOf (CHR 0x0A)) lines; fold confLine lines (cfg, s, w) = (cfg', s', w')\<rbrakk> \<Longrightarrow> lineFree cfg'"
proof (induction lines arbitrary: cfg s w)
  case (Cons line lines)
  obtain c1 s1 w1 where 1: "confLine line (cfg, s, w) = (c1, s1, w1)" by (cases "confLine line (cfg, s, w)") auto
  then show ?case using Cons.IH [of c1 s1 w1] Cons.prems lineFree_line [OF _ _ 1] by simp
qed simp

lemma scanLines_free: "scanLines text = Some lines \<Longrightarrow> list_all (freeOf (CHR 0x0A)) lines"
proof -
  assume s: "scanLines text = Some lines"
  let ?p = "splitOn (CHR 0x0A) text"
  have "freeOf (CHR 0x0A) p" if "p \<in> set ?p" for p using set_splitOn [OF that] by (auto simp: freeOf_def)
  then have f: "freeOf (CHR 0x0A) p" if "p \<in> set (if last ?p = [] then butlast ?p else ?p)" for p
    using that by (auto dest: in_set_butlastD split: if_splits)
  have "freeOf (CHR 0x0A) (butlast p)" if "freeOf (CHR 0x0A) p" for p
    using that by (auto simp: freeOf_def dest: in_set_butlastD)
  then show ?thesis using s f by (auto simp: scanLines_def Let_def list_all_iff split: if_splits)
qed

lemma parsed_lineFree:
  assumes "parseConfBytes text path = Some cfg"
  shows "lineFree cfg"
proof -
  let ?c = "\<lparr>PrivateKey = [], Address = [], DNS = [], MTU = defaultTURNMTU, PublicKey = [], PresharedKey = [], Endpoint = [],
     AllowedIPs = [], PersistentKeepalive = 0, TURN = zeroTurnConfig, Name = confName path\<rparr>"
  obtain lines where l: "scanLines text = Some lines" using assms by (auto simp: parseConfBytes_def split: option.splits)
  obtain c1 s w where f: "fold confLine lines (?c, [], []) = (c1, s, w)" by (cases "fold confLine lines (?c, [], [])") auto
  have "lineFree c1" using fold_lineFree [OF _ scanLines_free [OF l] f] by (simp add: lineFree_def freeOf_def)
  then show ?thesis using assms l f by (auto simp: parseConfBytes_def lineFree_def)
qed

lemma showNat_ascii: "c \<in> set (showNat n) \<Longrightarrow> 48 \<le> ord c \<and> ord c \<le> 57"
proof (induction n rule: showNat.induct)
  case (1 n)
  then show ?case by (cases "n < 10") (auto simp: showNat.simps [of n])
qed

lemma hexDigit_free: "n < 16 \<Longrightarrow> 48 \<le> ord (hexDigit n)"
  by (auto simp: hexDigit_def)

lemma hexEncode_free: "c \<in> set (hexEncode bs) \<Longrightarrow> 48 \<le> ord c"
proof (induction bs)
  case (Cons b bs)
  have "unat b div 16 < 16" "unat b mod 16 < 16" using unsigned_less [of b, where ?'a = nat] by simp_all
  then show ?case using Cons hexDigit_free by auto
qed simp

lemma freeOf_keyToHex: "freeOf (CHR 0x0A) k \<Longrightarrow> freeOf (CHR 0x0A) (keyToHex k)"
proof -
  have "freeOf (CHR 0x0A) (hexEncode bs)" for bs using hexEncode_free [of "CHR 0x0A" bs] by (auto simp: freeOf_def)
  moreover assume "freeOf (CHR 0x0A) k"
  ultimately show ?thesis using freeOf_trim by (auto simp: keyToHex_def Let_def freeOf_def split: option.splits)
qed

lemma freeOf_showInt: "freeOf (CHR 0x0A) (showInt n)"
  using showNat_ascii [of "CHR 0x0A"] by (auto simp: showInt_def freeOf_def)

lemma splitOn_lines: "list_all (freeOf c) ls \<Longrightarrow> splitOn c (concat (map (\<lambda>l. l @ [c]) ls)) = ls @ [[]]"
  by (induction ls) (auto simp: splitOn_cut freeOf_def)

definition uapiLines :: "tunnelConfig \<Rightarrow> string \<Rightarrow> (string \<times> string) list" where
  "uapiLines c listenAddr =
    [(''private_key'', keyToHex (PrivateKey c)), (''public_key'', keyToHex (PublicKey c))] @
    (if PresharedKey c \<noteq> [] then [(''preshared_key'', keyToHex (PresharedKey c))] else []) @
    [(''endpoint'', if listenAddr = [] then Endpoint c else listenAddr)] @
    map (\<lambda>a. (''allowed_ip'', trimSpace a)) (AllowedIPs c) @
    (if PersistentKeepalive c > 0 then [(''persistent_keepalive_interval'', showInt (PersistentKeepalive c))] else [])"

lemma Build_lines:
  "BuildWGUAPIConfig c l = concat (map (\<lambda>l. l @ [CHR 0x0A]) (map (\<lambda>(k, v). k @ ''='' @ v) (uapiLines c l)))"
  by (simp add: BuildWGUAPIConfig_def uapiLines_def newline_def comp_def)

lemma uapiLines_free:
  assumes "lineFree c" "freeOf (CHR 0x0A) l"
  shows "list_all (freeOf (CHR 0x0A)) (map (\<lambda>(k, v). k @ ''='' @ v) (uapiLines c l))"
proof -
  have k: "freeOf (CHR 0x0A) (keyToHex (PrivateKey c))" "freeOf (CHR 0x0A) (keyToHex (PublicKey c))"
    "freeOf (CHR 0x0A) (keyToHex (PresharedKey c))" "freeOf (CHR 0x0A) (Endpoint c)"
    and a: "\<forall>a \<in> set (AllowedIPs c). freeOf (CHR 0x0A) (trimSpace a)"
    using assms(1) freeOf_keyToHex freeOf_trim by (auto simp: lineFree_def list_all_iff)
  show ?thesis using k a assms(2) freeOf_showInt [of "PersistentKeepalive c"] unfolding uapiLines_def
    by (auto simp: freeOf_def list_all_iff)
qed

text \<open>
  Whatever a configuration file holds, the device is told one private key, one public key, a preshared key if there is one, one
  endpoint, the allowed addresses one by one and at most one keepalive, in lines that begin with these names and in no others: no
  value breaks out of its line. The address of the proxy takes the endpoint's place.
\<close>

theorem device_is_told_one_line_per_field:
  assumes "parseConfBytes text path = Some c" "CHR 0x0A \<notin> set listenAddr"
  shows "map (\<lambda>line. fst (strCut line ''='')) (splitOn (CHR 0x0A) (BuildWGUAPIConfig c listenAddr)) =
    [''private_key'', ''public_key''] @ (if PresharedKey c \<noteq> [] then [''preshared_key''] else []) @ [''endpoint''] @
    replicate (length (AllowedIPs c)) ''allowed_ip'' @
    (if PersistentKeepalive c > 0 then [''persistent_keepalive_interval''] else []) @ ['''']"
proof -
  have s: "splitOn (CHR 0x0A) (BuildWGUAPIConfig c listenAddr) = map (\<lambda>(k, v). k @ ''='' @ v) (uapiLines c listenAddr) @ [[]]"
    unfolding Build_lines using uapiLines_free [OF parsed_lineFree [OF assms(1)]] assms(2)
    by (intro splitOn_lines) (simp add: freeOf_def)
  have cut: "strCut (k @ ''='' @ v) ''='' = (k, v, True)" if "CHR ''='' \<notin> set k" for k v
    using strCut_first [of "''=''" k v] that by simp
  have "fst (strCut (case x of (k, v) \<Rightarrow> k @ ''='' @ v) ''='') = fst x" if "x \<in> set (uapiLines c listenAddr)" for x
  proof -
    have "CHR ''='' \<notin> set (fst x)" using that by (auto simp: uapiLines_def split: if_splits)
    then show ?thesis using cut [of "fst x" "snd x"] by (cases x) simp
  qed
  then have "map (\<lambda>line. fst (strCut line ''='')) (map (\<lambda>(k, v). k @ ''='' @ v) (uapiLines c listenAddr)) = map fst (uapiLines c listenAddr)"
    unfolding map_map by (intro map_cong) (auto simp: comp_def)
  moreover have "map fst (uapiLines c listenAddr) = [''private_key'', ''public_key''] @
    (if PresharedKey c \<noteq> [] then [''preshared_key''] else []) @ [''endpoint''] @ replicate (length (AllowedIPs c)) ''allowed_ip'' @
    (if PersistentKeepalive c > 0 then [''persistent_keepalive_interval''] else [])"
    by (simp add: uapiLines_def comp_def map_replicate_const)
  moreover have "fst (strCut [] ''='') = []" by (simp add: strCut_def)
  ultimately show ?thesis unfolding s by simp
qed

theorem device_is_told_one_line_per_field_witness:
  "let text = ''[Interface]'' @ newline @ ''PrivateKey = secret'' @ newline @ ''MTU=x'' @ newline @ ''[PEER]'' @ newline @ ''publickey=peer'' @ newline @
       ''AllowedIPs = 0.0.0.0/0, ::/0,'' @ newline @ ''#@wgt:StreamNum = 500'' @ newline @ ''PersistentKeepalive=25'' @ newline;
     c = the (parseConfBytes text ''C:/bot.conf'')
   in map (\<lambda>line. fst (strCut line ''='')) (splitOn (CHR 0x0A) (BuildWGUAPIConfig c ''127.0.0.1:9000'')) =
     [''private_key'', ''public_key'', ''endpoint'', ''allowed_ip'', ''allowed_ip'', ''persistent_keepalive_interval'', ''''] \<and>
     Name c = ''bot'' \<and> MTU c = 1200 \<and> StreamsTotal (TURN c) = 128"
proof -
  let ?t = "''[Interface]'' @ newline @ ''PrivateKey = secret'' @ newline @ ''MTU=x'' @ newline @ ''[PEER]'' @ newline @ ''publickey=peer'' @ newline @
       ''AllowedIPs = 0.0.0.0/0, ::/0,'' @ newline @ ''#@wgt:StreamNum = 500'' @ newline @ ''PersistentKeepalive=25'' @ newline"
  have p: "case parseConfBytes ?t ''C:/bot.conf'' of None \<Rightarrow> False
     | Some c \<Rightarrow> (PresharedKey c, AllowedIPs c, PersistentKeepalive c, Name c, MTU c, StreamsTotal (TURN c))
         = ([], [''0.0.0.0/0'', ''::/0''], 25, ''bot'', 1200, 128)" by code_simp
  then obtain c where c: "parseConfBytes ?t ''C:/bot.conf'' = Some c" by (auto split: option.splits)
  have l: "CHR 0x0A \<notin> set ''127.0.0.1:9000''" by simp
  have f: "PresharedKey c = []" "AllowedIPs c = [''0.0.0.0/0'', ''::/0'']" "PersistentKeepalive c = 25" "Name c = ''bot''"
    "MTU c = 1200" "StreamsTotal (TURN c) = 128" using p unfolding c by simp_all
  show ?thesis unfolding Let_def c option.sel using device_is_told_one_line_per_field [OF c l] f by (simp add: numeral_2_eq_2)
qed

section \<open>Keys\<close>

definition b64Digit :: "nat \<Rightarrow> char" where
  "b64Digit n = char_of (if n < 26 then n + 65 else if n < 52 then n + 71 else if n < 62 then n - 4 else if n = 62 then 43 else 47)"

text \<open>The standard encoding of bytes, with its padding or without.\<close>

fun b64Encode :: "bool \<Rightarrow> byte list \<Rightarrow> string" where
  "b64Encode padded [] = []"
| "b64Encode padded [x] = [b64Digit (unat x div 4), b64Digit (unat x mod 4 * 16)] @ (if padded then ''=='' else [])"
| "b64Encode padded [x, y] =
    [b64Digit (unat x div 4), b64Digit (unat x mod 4 * 16 + unat y div 16), b64Digit (unat y mod 16 * 4)] @ (if padded then ''='' else [])"
| "b64Encode padded (x # y # z # bs) =
    b64Digit (unat x div 4) # b64Digit (unat x mod 4 * 16 + unat y div 16) # b64Digit (unat y mod 16 * 4 + unat z div 64) #
    b64Digit (unat z mod 64) # b64Encode padded bs"

lemma b64Digit_plain: "n < 64 \<Longrightarrow> 33 \<le> ord (b64Digit n) \<and> ord (b64Digit n) \<le> 126 \<and> b64Digit n \<noteq> CHR ''=''"
proof -
  assume n: "n < 64"
  have "list_all (\<lambda>n. 33 \<le> ord (b64Digit n) \<and> ord (b64Digit n) \<le> 126 \<and> b64Digit n \<noteq> CHR ''='') [0 ..< 64]" by code_simp
  then show ?thesis using n by (simp only: list_all_iff set_upt) simp
qed

lemma b64Value_Digit [simp]: "n < 64 \<Longrightarrow> b64Value False (b64Digit n) = Some n"
proof -
  assume n: "n < 64"
  have "list_all (\<lambda>n. b64Value False (b64Digit n) = Some n) [0 ..< 64]" by code_simp
  then show ?thesis using n by (simp only: list_all_iff set_upt) simp
qed

lemma b64_parts:
  fixes x y z :: nat
  assumes "x < 256" "y < 256" "z < 256"
  shows "x div 4 < 64" "x mod 4 * 16 < 64" "x mod 4 * 16 + y div 16 < 64" "y mod 16 * 4 < 64" "y mod 16 * 4 + z div 64 < 64" "z mod 64 < 64"
proof -
  have "x mod 4 < 4" "y div 16 < 16" "y mod 16 < 16" "z div 64 < 4" using assms by (simp_all add: less_mult_imp_div_less)
  then show "x mod 4 * 16 < 64" "x mod 4 * 16 + y div 16 < 64" "y mod 16 * 4 < 64" "y mod 16 * 4 + z div 64 < 64" by linarith+
  show "x div 4 < 64" "z mod 64 < 64" using assms(1) by (simp_all add: less_mult_imp_div_less)
qed

lemma b64_join:
  fixes x y z :: nat
  assumes "y < 256" "z < 256"
  shows "x div 4 * 4 + (x mod 4 * 16) div 16 = x" "x div 4 * 4 + (x mod 4 * 16 + y div 16) div 16 = x"
    "(x mod 4 * 16 + y div 16) mod 16 * 16 + (y mod 16 * 4) div 4 = y"
    "(x mod 4 * 16 + y div 16) mod 16 * 16 + (y mod 16 * 4 + z div 64) div 4 = y"
    "(y mod 16 * 4 + z div 64) mod 4 * 64 + z mod 64 = z"
proof -
  have y: "y div 16 < 16" and z: "z div 64 < 4" using assms by (simp_all add: less_mult_imp_div_less)
  have "(x mod 4 * 16 + y div 16) div 16 = x mod 4" "(x mod 4 * 16 + y div 16) mod 16 = y div 16"
    "(y mod 16 * 4 + z div 64) div 4 = y mod 16" "(y mod 16 * 4 + z div 64) mod 4 = z div 64"
    using y z by simp_all
  then show "x div 4 * 4 + (x mod 4 * 16) div 16 = x" "x div 4 * 4 + (x mod 4 * 16 + y div 16) div 16 = x"
    "(x mod 4 * 16 + y div 16) mod 16 * 16 + (y mod 16 * 4) div 4 = y"
    "(x mod 4 * 16 + y div 16) mod 16 * 16 + (y mod 16 * 4 + z div 64) div 4 = y"
    "(y mod 16 * 4 + z div 64) mod 4 * 64 + z mod 64 = z" by simp_all
qed

lemmas b64_bytes = b64_parts [OF unat_byte_lt unat_byte_lt unat_byte_lt]
lemmas b64_rejoin = b64_join [OF unat_byte_lt unat_byte_lt]

text \<open>Each reader reads its own encoding; the padded reader refuses one that wants its padding.\<close>

lemma b64_quanta: "b64Quanta False padded strict (b64Encode padded bs) = Some bs"
proof (induction padded bs rule: b64Encode.induct)
  case (2 padded x)
  have "of_nat (unat x div 4 * 4 + (unat x mod 4 * 16) div 16) = x" unfolding b64_rejoin by simp
  then show ?case using b64_bytes(1) [of x] b64_bytes(2) [of x] by (cases padded) (simp_all only: b64Encode.simps append.simps if_True
    b64Quanta.simps b64Value_Digit option.case prod.case simp_thms if_False b64Two_def, simp_all)
next
  case (3 padded x y)
  have "of_nat (unat x div 4 * 4 + (unat x mod 4 * 16 + unat y div 16) div 16) = x"
    "of_nat ((unat x mod 4 * 16 + unat y div 16) mod 16 * 16 + (unat y mod 16 * 4) div 4) = y" unfolding b64_rejoin by simp_all
  then show ?case using b64_bytes(1) [of x] b64_bytes(3) [of x y] b64_bytes(4) [of y] b64Digit_plain [of "unat y mod 16 * 4"]
    by (cases padded) (simp_all only: b64Encode.simps append.simps if_True b64Quanta.simps b64Value_Digit option.case prod.case simp_thms
      if_False b64Three_def, simp_all)
next
  case (4 padded x y z bs)
  have "of_nat (unat x div 4 * 4 + (unat x mod 4 * 16 + unat y div 16) div 16) = x"
    "of_nat ((unat x mod 4 * 16 + unat y div 16) mod 16 * 16 + (unat y mod 16 * 4 + unat z div 64) div 4) = y"
    "of_nat ((unat y mod 16 * 4 + unat z div 64) mod 4 * 64 + unat z mod 64) = z" unfolding b64_rejoin by simp_all
  then show ?case using 4 b64_bytes(1) [of x] b64_bytes(3) [of x y] b64_bytes(5) [of y z] b64_bytes(6) [of z]
      b64Digit_plain [of "unat y mod 16 * 4 + unat z div 64"] b64Digit_plain [of "unat z mod 64"]
    by (simp only: b64Encode.simps append.simps if_True b64Quanta.simps b64Value_Digit option.case prod.case simp_thms if_False)
qed simp

lemma b64_unpadded: "b64Quanta False True strict (b64Encode False bs) = (if length bs mod 3 = 0 then Some bs else None)"
proof (induction "False" bs rule: b64Encode.induct)
  case (4 x y z bs)
  have "length (x # y # z # bs) mod 3 = length bs mod 3" by simp
  moreover have "of_nat (unat x div 4 * 4 + (unat x mod 4 * 16 + unat y div 16) div 16) = x"
    "of_nat ((unat x mod 4 * 16 + unat y div 16) mod 16 * 16 + (unat y mod 16 * 4 + unat z div 64) div 4) = y"
    "of_nat ((unat y mod 16 * 4 + unat z div 64) mod 4 * 64 + unat z mod 64) = z" unfolding b64_rejoin by simp_all
  ultimately show ?case using 4 b64_bytes(1) [of x] b64_bytes(3) [of x y] b64_bytes(5) [of y z] b64_bytes(6) [of z]
      b64Digit_plain [of "unat y mod 16 * 4 + unat z div 64"] b64Digit_plain [of "unat z mod 64"]
    by (cases "length bs mod 3 = 0")
      (simp_all only: b64Encode.simps append.simps if_True b64Quanta.simps b64Value_Digit option.case prod.case simp_thms if_False)
qed simp_all

lemma b64Encode_plain: "c \<in> set (b64Encode padded bs) \<Longrightarrow> 33 \<le> ord c \<and> ord c \<le> 126"
proof (induction padded bs rule: b64Encode.induct)
  case (2 padded x)
  then show ?case using b64Digit_plain b64_bytes(1,2) [of x] by (auto split: if_splits)
next
  case (3 padded x y)
  then show ?case using b64Digit_plain b64_bytes(1) [of x] b64_bytes(3) [of x y] b64_bytes(4) [of y] by (auto split: if_splits)
next
  case (4 padded x y z bs)
  then show ?case using b64Digit_plain b64_bytes(1) [of x] b64_bytes(3) [of x y] b64_bytes(5) [of y z] b64_bytes(6) [of z]
    by (auto split: if_splits)
qed simp

text \<open>
  A key of any bytes reaches the device as their hexadecimal, whether its base64 has its padding or not; and it counts as a WireGuard
  key exactly if the bytes are 32.
\<close>

theorem key_reaches_the_device:
  assumes "bs \<noteq> []"
  shows "keyToHex (b64Encode padded bs) = hexEncode bs \<and> (isWGKey (b64Encode padded bs) \<longleftrightarrow> length bs = 32)"
proof -
  let ?k = "b64Encode padded bs"
  have t: "trimSpace ?k = ?k" using b64Encode_plain by (intro trimSpace_plain) blast
  have n: "?k \<noteq> []" using assms by (cases "(padded, bs)" rule: b64Encode.cases) auto
  have "filter (\<lambda>c. ord c \<noteq> 10 \<and> ord c \<noteq> 13) ?k = ?k" using b64Encode_plain [of _ padded bs] by (fastforce simp: filter_id_conv)
  then have d: "b64Decode False p False ?k = b64Quanta False p False ?k" for p by (simp add: b64Decode_def)
  have "keyToHex ?k = hexEncode bs"
    using t n d b64_quanta [of padded False bs] b64_unpadded [of False bs] by (cases padded) (simp_all add: keyToHex_def Let_def)
  then show ?thesis by (simp add: isWGKey_def hexDecode_encode)
qed

theorem key_reaches_the_device_witness:
  "keyToHex ''AQIDBA=='' = ''01020304'' \<and> keyToHex ''AQIDBA'' = ''01020304''"
proof -
  have e: "b64Encode True [1, 2, 3, 4] = ''AQIDBA==''" "b64Encode False [1, 2, 3, 4] = ''AQIDBA''" "hexEncode [1, 2, 3, 4] = ''01020304''"
    by code_simp+
  show ?thesis using key_reaches_the_device [of "[1, 2, 3, 4]" True] key_reaches_the_device [of "[1, 2, 3, 4]" False] unfolding e by simp
qed

text \<open>
  What the comment calls already hexadecimal and passed through is not: a key of 64 hexadecimal digits is read as base64, and the device
  is given 48 bytes.
\<close>

lemma b64_valid_length:
  "\<lbrakk>list_all (\<lambda>c. b64Value False c \<noteq> None \<and> c \<noteq> CHR ''='') s; length s = 4 * n\<rbrakk> \<Longrightarrow>
   \<exists>bs. b64Quanta False True False s = Some bs \<and> length bs = 3 * n"
proof (induction n arbitrary: s)
  case (Suc n)
  then obtain a b c d s' where s: "s = a # b # c # d # s'" by (auto simp: length_Suc_conv eval_nat_numeral)
  then obtain bs where "b64Quanta False True False s' = Some bs" "length bs = 3 * n" using Suc.IH [of s'] Suc.prems by auto
  then show ?case using Suc.prems s by auto
qed simp

lemma hex_key_is_misread:
  assumes "length k = 64" "list_all (\<lambda>c. hexValue c \<noteq> None) k"
  shows "length (keyToHex k) = 96 \<and> \<not> isWGKey k"
proof -
  have v: "b64Value False c \<noteq> None \<and> c \<noteq> CHR ''='' \<and> 33 \<le> ord c \<and> ord c \<le> 126" if "hexValue c \<noteq> None" for c
    using that by (auto simp: hexValue_def b64Value_def Let_def split: if_splits)
  then have ok: "list_all (\<lambda>c. b64Value False c \<noteq> None \<and> c \<noteq> CHR ''='') k" "\<forall>c \<in> set k. 33 \<le> ord c \<and> ord c \<le> 126"
    using assms(2) by (auto simp: list_all_iff)
  obtain bs where bs: "b64Quanta False True False k = Some bs" "length bs = 48" using b64_valid_length [OF ok(1), of 16] assms(1) by auto
  have "filter (\<lambda>c. ord c \<noteq> 10 \<and> ord c \<noteq> 13) k = k" using ok(2) by (fastforce simp: filter_id_conv)
  then have "keyToHex k = hexEncode bs" using trimSpace_plain [OF ok(2)] bs(1) assms(1) by (auto simp: keyToHex_def b64Decode_def Let_def)
  moreover have "length (hexEncode bs) = 2 * length bs" by (induction bs) auto
  ultimately show ?thesis using bs(2) by (simp add: isWGKey_def hexDecode_encode)
qed

end
