(* ===== verification/Expert.thy ===== *)
theory Expert
  imports Config Dns
begin

text \<open>
  The expert mode (\<open>pkg/expert\<close>, \<open>winbridge/expert.go\<close>): what of the settings overrides the configuration for the next connection; and
  what the proxy makes of the links it is given (\<open>parseLinks\<close> of \<open>turn-client.go\<close>, \<open>joinHash\<close> of \<open>vk_link_check.go\<close>).
\<close>

definition MaxLinks :: nat where "MaxLinks = 8"
definition MTUMin :: int where "MTUMin = 1000"
definition MTUMax :: int where "MTUMax = 1500"

record expertSettings =
  expertEnabled :: bool
  expertMTU :: int
  expertDNS :: string
  expertLinks :: string

record overrides =
  ovMTU :: int
  ovDNS :: "string list"
  ovLinks :: "string list"

definition overridesEmpty :: "overrides \<Rightarrow> bool" where
  "overridesEmpty ov \<longleftrightarrow> ovMTU ov = 0 \<and> ovDNS ov = [] \<and> ovLinks ov = []"

definition ValidMTU :: "int \<Rightarrow> bool" where
  "ValidMTU mtu \<longleftrightarrow> mtu \<ge> MTUMin \<and> mtu \<le> MTUMax"

text \<open>
  An address of four bytes as \<open>netip.ParseAddr\<close> takes it: four decimal fields up to 255 without leading zeros. Any other text is an
  error or an address that is not of four bytes.
\<close>

definition octet :: "string \<Rightarrow> byte option" where
  "octet f = (if f = [] \<or> \<not> list_all isDigit f \<or> (hd f = CHR ''0'' \<and> length f > 1) \<or> digitsNat f > 255 then None
              else Some (of_nat (digitsNat f)))"

definition parseIPv4 :: "string \<Rightarrow> (byte \<times> byte \<times> byte \<times> byte) option" where
  "parseIPv4 s = (case splitOn (CHR ''.'') s of
     [a, b, c, d] \<Rightarrow> (case (octet a, octet b, octet c, octet d) of (Some w, Some x, Some y, Some z) \<Rightarrow> Some (w, x, y, z) | _ \<Rightarrow> None)
   | _ \<Rightarrow> None)"

definition ParseDNS :: "string \<Rightarrow> string list \<times> string list" where
  "ParseDNS text =
    (let entries = splitCSV text
     in (List.map_filter (\<lambda>e. map_option dotted (parseIPv4 e)) entries, filter (\<lambda>e. parseIPv4 e = None) entries))"

definition linkHashShape :: "string \<Rightarrow> bool" where
  "linkHashShape s \<longleftrightarrow> 6 \<le> length s \<and> length s \<le> 128 \<and> list_all isSlug s"

definition LinkHash :: "string \<Rightarrow> string option" where
  "LinkHash raw =
    (let t = trimSpace raw
     in if t = [] then None
        else let t = (case lastIndexOf ''join/'' t of Some i \<Rightarrow> drop (i + 5) t | None \<Rightarrow> t);
                 t = untilAny ''/?#'' t
             in if linkHashShape t then Some t else None)"

record parsedLinks =
  Hashes :: "string list"
  Invalid :: "string list"
  Truncated :: bool

definition linkEntry :: "string \<Rightarrow> parsedLinks \<Rightarrow> parsedLinks" where
  "linkEntry entry p = (case LinkHash entry of
     None \<Rightarrow> p\<lparr>Invalid := Invalid p @ [entry]\<rparr>
   | Some h \<Rightarrow> if h \<in> set (Hashes p) then p else p\<lparr>Hashes := Hashes p @ [h]\<rparr>)"

definition ParseLinks :: "string \<Rightarrow> parsedLinks" where
  "ParseLinks text =
    (let p = fold linkEntry (fieldsOf [CHR 0x0A, CHR 0x0D, CHR '','', CHR ''|'', CHR '' '', CHR 0x09] text)
               \<lparr>Hashes = [], Invalid = [], Truncated = False\<rparr>
     in if length (Hashes p) > MaxLinks then p\<lparr>Hashes := take MaxLinks (Hashes p), Truncated := True\<rparr> else p)"

definition SplitConfigLinks :: "string \<Rightarrow> string list" where
  "SplitConfigLinks vkLink = filter (\<lambda>p. p \<noteq> []) (map trimSpace (fieldsOf ''|,'' vkLink))"

text \<open>\<open>Settings.Overrides\<close>: none while the mode is off.\<close>

definition Overrides :: "expertSettings \<Rightarrow> overrides option" where
  "Overrides s =
    (if \<not> expertEnabled s then None
     else Some \<lparr>ovMTU = (if ValidMTU (expertMTU s) then expertMTU s else 0),
                ovDNS = (case ParseDNS (expertDNS s) of (servers, bad) \<Rightarrow> if bad = [] then servers else []),
                ovLinks = Hashes (ParseLinks (expertLinks s))\<rparr>)"

definition ApplyExpert :: "tunnelConfig \<Rightarrow> expertSettings \<Rightarrow> tunnelConfig \<times> bool" where
  "ApplyExpert cfg e = (case Overrides e of
     None \<Rightarrow> (cfg, False)
   | Some ov \<Rightarrow>
       if overridesEmpty ov then (cfg, False)
       else let c = (if ovMTU ov \<noteq> 0 then cfg\<lparr>MTU := ovMTU ov\<rparr> else cfg);
                c = (if ovDNS ov \<noteq> [] then c\<lparr>DNS := ovDNS ov\<rparr> else c);
                c = (if ovLinks ov \<noteq> [] then c\<lparr>TURN := (TURN c)\<lparr>VKLink := joinText '','' (ovLinks ov)\<rparr>\<rparr> else c)
            in (c, True))"

section \<open>What the proxy reads\<close>

definition joinHash :: "string \<Rightarrow> string" where
  "joinHash raw = untilAny ''/?#'' (last (splitText ''join/'' (trimSpace raw)))"

definition parseLinks :: "string \<Rightarrow> nat \<Rightarrow> string list" where
  "parseLinks raw maxLinks =
    (let links = splitCSV (map (\<lambda>c. if c = CHR ''|'' then CHR '','' else c) raw)
     in if links = [] then [''''] else if length links > maxLinks then take maxLinks links else links)"

text \<open>The links a start of the proxy goes with.\<close>

definition startLinks :: "string \<Rightarrow> string list" where
  "startLinks vkLink = map joinHash (parseLinks vkLink 8)"

end
