(* ===== verification/ExpertProps.thy ===== *)
theory ExpertProps
  imports Expert
begin

text \<open>
  What the expert mode promises: the links its window accepts are exactly the strings the proxy joins with; what it changes of the
  configuration, and that it changes nothing else.
\<close>

section \<open>Links\<close>

lemma strIndex_none_iff: "sep \<noteq> [] \<Longrightarrow> strIndex s sep = None \<longleftrightarrow> (\<forall>a b. s \<noteq> a @ sep @ b)"
proof
  assume n: "strIndex s sep = None" and "sep \<noteq> []"
  have "strIndex (a @ sep @ b) sep \<noteq> None" for a b
  proof (induction a)
    case Nil
    then show ?case using \<open>sep \<noteq> []\<close> hasPrefix_append [of sep b] by (cases "sep @ b") auto
  next
    case (Cons c a)
    then show ?case by (cases "hasPrefix (c # a @ sep @ b) sep") auto
  qed
  then show "\<forall>a b. s \<noteq> a @ sep @ b" using n by metis
next
  assume "\<forall>a b. s \<noteq> a @ sep @ b"
  then show "strIndex s sep = None" using strIndex_split [of s sep] by (cases "strIndex s sep") blast+
qed

text \<open>The last part of a split is what stands behind the last occurrence: no two occurrences of \<open>join/\<close> overlap.\<close>

lemma splitText_last:
  "sep \<noteq> [] \<Longrightarrow> (last (splitText sep s) = s \<and> strIndex s sep = None) \<or>
    (\<exists>a. s = a @ sep @ last (splitText sep s)) \<and> strIndex (last (splitText sep s)) sep = None"
proof (induction sep s rule: splitText.induct)
  case (1 sep s)
  obtain a b ok where cut: "strCut s sep = (a, b, ok)" by (cases "strCut s sep") auto
  show ?case
  proof (cases ok)
    case False
    then have "strIndex s sep = None" using cut by (auto simp: strCut_def split: option.splits)
    then show ?thesis using False cut by (subst (1 2 3) splitText.simps) simp
  next
    case True
    then have s: "s = a @ sep @ b" using strCut_split [of s sep a b] cut by simp
    have l: "last (splitText sep s) = last (splitText sep b)"
    proof -
      have "splitText sep b \<noteq> []" by (subst splitText.simps) (simp split: prod.split)
      moreover have "splitText sep s = a # splitText sep b" using cut True "1.prems" by (subst splitText.simps) simp
      ultimately show ?thesis by simp
    qed
    from "1.IH" [OF cut [symmetric] refl] True "1.prems"
    have "(last (splitText sep b) = b \<and> strIndex b sep = None) \<or>
      (\<exists>a. b = a @ sep @ last (splitText sep b)) \<and> strIndex (last (splitText sep b)) sep = None" by blast
    then show ?thesis unfolding l using s by (metis append.assoc)
  qed
qed

lemma lastIndexOf_none: "sep \<noteq> [] \<Longrightarrow> lastIndexOf sep s = None \<longleftrightarrow> strIndex s sep = None"
proof (induction s)
  case (Cons c s)
  have "strIndex (c # s) sep = None \<longleftrightarrow> \<not> hasPrefix (c # s) sep \<and> strIndex s sep = None" by simp
  then show ?case using Cons by (auto split: option.splits)
qed simp

lemma lastIndexOf_some:
  "sep \<noteq> [] \<Longrightarrow> lastIndexOf sep s = Some i \<Longrightarrow> hasPrefix (drop i s) sep \<and> strIndex (drop (Suc i) s) sep = None"
proof (induction s arbitrary: i)
  case (Cons c s)
  show ?case
  proof (cases "lastIndexOf sep s")
    case None
    then have "i = 0" "hasPrefix (c # s) sep" using Cons.prems by (auto split: if_splits)
    then show ?thesis using None lastIndexOf_none [OF Cons.prems(1), of s] by simp
  next
    case (Some j)
    then have "i = Suc j" using Cons.prems by simp
    then show ?thesis using Cons.IH [OF Cons.prems(1) Some] by simp
  qed
qed simp

text \<open>An occurrence of \<open>join/\<close> behind which there is none is the last.\<close>

lemma join_last:
  assumes "strIndex b ''join/'' = None"
  shows "lastIndexOf ''join/'' (a @ ''join/'' @ b) = Some (length a)"
proof (induction a)
  case Nil
  have n: "lastIndexOf ''join/'' b = None" using lastIndexOf_none [of "''join/''" b] assms by simp
  show ?case using n by (simp add: hasPrefix_def)
qed simp

lemma join_split:
  "last (splitText ''join/'' t) = (case lastIndexOf ''join/'' t of Some i \<Rightarrow> drop (i + 5) t | None \<Rightarrow> t)"
proof -
  let ?l = "last (splitText ''join/'' t)"
  consider "?l = t" "strIndex t ''join/'' = None" | a where "t = a @ ''join/'' @ ?l" "strIndex ?l ''join/'' = None"
    using splitText_last [of "''join/''" t] by auto
  then show ?thesis
  proof cases
    case 1
    then show ?thesis using lastIndexOf_none [of "''join/''" t] by simp
  next
    case 2
    then have "lastIndexOf ''join/'' t = Some (length a)" using join_last [of ?l a] by metis
    moreover have "drop (length a + 5) t = ?l" using arg_cong [OF 2(1), of "drop (length a + 5)"] by simp
    ultimately show ?thesis by simp
  qed
qed

lemma LinkHash_joinHash: "LinkHash raw = Some h \<Longrightarrow> joinHash raw = h \<and> linkHashShape h"
  by (auto simp: LinkHash_def joinHash_def join_split Let_def split: if_splits)

text \<open>A hash is a link of its own.\<close>

lemma joinHash_hash:
  assumes "linkHashShape h"
  shows "joinHash h = h"
proof -
  have s: "\<forall>c \<in> set h. isSlug c" using assms by (simp add: linkHashShape_def list_all_iff)
  have t: "trimSpace h = h" using s isSlug_plain by (intro trimSpace_plain) blast
  have "h \<noteq> a @ ''join/'' @ b" for a b using s isSlug_not [of "CHR ''/''"] by auto
  then have "strIndex h ''join/'' = None" using strIndex_none_iff [of "''join/''" h] by simp
  then have "lastIndexOf ''join/'' h = None" using lastIndexOf_none [of "''join/''" h] by simp
  then have "last (splitText ''join/'' h) = h" by (simp add: join_split)
  moreover have "untilAny ''/?#'' h = h" using s isSlug_not by (fastforce simp: untilAny_def takeWhile_eq_all_conv)
  ultimately show ?thesis by (simp add: joinHash_def t)
qed

definition goodHashes :: "parsedLinks \<Rightarrow> bool" where
  "goodHashes p \<longleftrightarrow> distinct (Hashes p) \<and> list_all linkHashShape (Hashes p)"

lemma goodHashes_fold: "goodHashes p \<Longrightarrow> goodHashes (fold linkEntry es p)"
proof (induction es arbitrary: p)
  case (Cons e es)
  have "goodHashes (linkEntry e p)"
    using Cons.prems LinkHash_joinHash by (auto simp: linkEntry_def goodHashes_def split: option.splits)
  then show ?case using Cons.IH by simp
qed simp

lemma ParseLinks_good: "goodHashes (ParseLinks text) \<and> length (Hashes (ParseLinks text)) \<le> MaxLinks"
proof -
  let ?p = "fold linkEntry (fieldsOf [CHR 0x0A, CHR 0x0D, CHR '','', CHR ''|'', CHR '' '', CHR 0x09] text)
    \<lparr>Hashes = [], Invalid = [], Truncated = False\<rparr>"
  have "goodHashes ?p" by (rule goodHashes_fold) (simp add: goodHashes_def)
  then show ?thesis
    by (auto simp: ParseLinks_def Let_def goodHashes_def distinct_take list_all_iff dest: in_set_takeD)
qed

lemma map_commas:
  "(\<forall>s \<in> set ss. CHR ''|'' \<notin> set s) \<Longrightarrow> map (\<lambda>c. if c = CHR ''|'' then CHR '','' else c) (joinText '','' ss) = joinText '','' ss"
proof (induction ss)
  case (Cons s ss)
  have "map (\<lambda>c. if c = CHR ''|'' then CHR '','' else c) s = s" using Cons.prems by (intro map_idI) auto
  then show ?case using Cons by (cases ss) simp_all
qed simp

lemma startLinks_hashes:
  assumes "hs \<noteq> []" "list_all linkHashShape hs" "length hs \<le> 8"
  shows "startLinks (joinText '','' hs) = hs"
proof -
  have s: "\<forall>h \<in> set hs. \<forall>c \<in> set h. isSlug c" "\<forall>h \<in> set hs. h \<noteq> []"
    using assms(2) by (auto simp: linkHashShape_def list_all_iff)
  have n: "\<forall>h \<in> set hs. CHR '','' \<notin> set h \<and> CHR ''|'' \<notin> set h" using s(1) isSlug_not by fastforce
  have sp: "splitOn (CHR '','') (joinText '','' hs) = hs" using splitOn_join [OF assms(1)] n by blast
  have "map trimSpace hs = hs"
  proof (intro map_idI)
    fix h assume "h \<in> set hs"
    then show "trimSpace h = h" using s(1) isSlug_plain by (intro trimSpace_plain) blast
  qed
  then have csv: "splitCSV (joinText '','' hs) = hs" using s(2) unfolding splitCSV_def sp by (simp add: filter_id_conv)
  have "parseLinks (joinText '','' hs) 8 = hs"
    using assms(1,3) map_commas [of hs] n csv by (simp add: parseLinks_def)
  moreover have "map joinHash hs = hs" using assms(2) joinHash_hash by (intro map_idI) (simp add: list_all_iff)
  ultimately show ?thesis by (simp add: startLinks_def)
qed

text \<open>
  The links of the expert mode reach the calls as they were accepted: with the mode on and a link accepted, the proxy started with the
  overridden configuration joins with exactly the hashes the window showed, in their order, each the one the link check judges; there are
  at most eight, each once. With the mode off, or nothing to override, the configuration is left as it was.
\<close>

theorem accepted_links_are_joined:
  assumes "ApplyExpert cfg e = (cfg', on)"
  shows "(expertEnabled e \<and> Hashes (ParseLinks (expertLinks e)) \<noteq> [] \<longrightarrow>
      startLinks (VKLink (TURN cfg')) = Hashes (ParseLinks (expertLinks e)) \<and> on) \<and>
    distinct (Hashes (ParseLinks (expertLinks e))) \<and> length (Hashes (ParseLinks (expertLinks e))) \<le> 8 \<and>
    (\<not> on \<longrightarrow> cfg' = cfg) \<and> (\<not> expertEnabled e \<longrightarrow> \<not> on) \<and>
    (\<forall>raw h. LinkHash raw = Some h \<longrightarrow> joinHash raw = h)"
proof -
  let ?hs = "Hashes (ParseLinks (expertLinks e))"
  have g: "distinct ?hs" "list_all linkHashShape ?hs" "length ?hs \<le> 8"
    using ParseLinks_good [of "expertLinks e"] by (simp_all add: goodHashes_def MaxLinks_def)
  have "startLinks (VKLink (TURN cfg')) = ?hs \<and> on" if en: "expertEnabled e" and ne: "?hs \<noteq> []"
  proof -
    obtain ov where ov: "Overrides e = Some ov" "ovLinks ov = ?hs" using en by (simp add: Overrides_def)
    then have "\<not> overridesEmpty ov" using ne by (simp add: overridesEmpty_def)
    then have "VKLink (TURN cfg') = joinText '','' ?hs \<and> on"
      using assms ov ne by (auto simp: ApplyExpert_def Let_def)
    then show ?thesis using startLinks_hashes [OF ne g(2,3)] by simp
  qed
  moreover have "\<not> on \<longrightarrow> cfg' = cfg" "\<not> expertEnabled e \<longrightarrow> \<not> on"
    using assms by (auto simp: ApplyExpert_def Overrides_def Let_def split: if_splits)
  ultimately show ?thesis using g LinkHash_joinHash by blast
qed

theorem accepted_links_are_joined_witness:
  "let e = \<lparr>expertEnabled = True, expertMTU = 9000, expertDNS = '''', expertLinks = ''https://vk.com/call/join/Abc-12_x?p=1 bad, Abc-12_x|QwertyZ''\<rparr>;
     cfg = \<lparr>PrivateKey = '''', Address = [], DNS = [], MTU = 1280, PublicKey = '''', PresharedKey = '''', Endpoint = '''', AllowedIPs = [],
       PersistentKeepalive = 0, TURN = zeroTurnConfig, Name = ''bot''\<rparr>;
     cfg' = fst (ApplyExpert cfg e)
   in startLinks (VKLink (TURN cfg')) = [''Abc-12_x'', ''QwertyZ''] \<and> MTU cfg' = 1280"
proof -
  let ?e = "\<lparr>expertEnabled = True, expertMTU = 9000, expertDNS = '''', expertLinks = ''https://vk.com/call/join/Abc-12_x?p=1 bad, Abc-12_x|QwertyZ''\<rparr>"
  let ?cfg = "\<lparr>PrivateKey = '''', Address = [], DNS = [], MTU = 1280, PublicKey = '''', PresharedKey = '''', Endpoint = '''', AllowedIPs = [],
       PersistentKeepalive = 0, TURN = zeroTurnConfig, Name = ''bot''\<rparr>"
  obtain c on where c: "ApplyExpert ?cfg ?e = (c, on)" by (cases "ApplyExpert ?cfg ?e") auto
  have h: "Hashes (ParseLinks (expertLinks ?e)) = [''Abc-12_x'', ''QwertyZ'']" by code_simp
  have m: "MTU (fst (ApplyExpert ?cfg ?e)) = 1280" by code_simp
  show ?thesis unfolding Let_def using accepted_links_are_joined [OF c] h m c by simp
qed

section \<open>Resolvers\<close>

lemma octet_iff: "octet f = Some b \<longleftrightarrow> f = showNat (unat b)"
proof
  assume o: "octet f = Some b"
  then have f: "list_all isDigit f" "noLeadingZero f" "digitsNat f \<le> 255" "b = of_nat (digitsNat f)"
    by (cases f; auto simp: octet_def noLeadingZero_def split: if_splits)+
  then have "unat b = digitsNat f" by (simp add: unat_of_nat_byte)
  then show "f = showNat (unat b)" using showNat_digitsNat [OF f(1,2)] by simp
next
  assume f: "f = showNat (unat b)"
  have "noLeadingZero (showNat (unat b))" by (rule showNat_noLeadingZero)
  moreover have "unat b \<le> 255" using unat_byte_lt [of b] by simp
  ultimately show "octet f = Some b" unfolding f using showNat_isDigit [of "unat b"] by (auto simp: octet_def noLeadingZero_def)
qed

lemma dotted_split:
  "splitOn (CHR ''.'') (dotted (a, b, c, d)) = [showNat (unat a), showNat (unat b), showNat (unat c), showNat (unat d)]"
proof -
  have n: "CHR ''.'' \<notin> set (showNat n)" for n using showNat_isDigit [of n] by (auto simp: list_all_iff isDigit_def)
  show ?thesis by (simp add: dotted_def splitOn_cut [OF n] splitOn_none [OF n])
qed

lemma splitOn_back: "splitOn c s = p # ps \<Longrightarrow> s = joinText [c] (p # ps)"
proof (induction s arbitrary: p ps)
  case (Cons x s)
  obtain q qs where q: "splitOn c s = q # qs" by (cases "splitOn c s") auto
  then have s: "s = joinText [c] (q # qs)" using Cons.IH by simp
  show ?case using Cons.prems q s by (cases "x = c"; cases qs) auto
qed simp

lemma ipv4_iff: "parseIPv4 s = Some q \<longleftrightarrow> s = dotted q"
proof
  assume p: "parseIPv4 s = Some q"
  then obtain a b c d where s: "splitOn (CHR ''.'') s = [a, b, c, d]"
    by (auto simp: parseIPv4_def split: list.splits)
  then obtain w x y z where o: "octet a = Some w" "octet b = Some x" "octet c = Some y" "octet d = Some z" "q = (w, x, y, z)"
    using p by (auto simp: parseIPv4_def split: option.splits)
  then show "s = dotted q" using splitOn_back [OF s] by (simp add: octet_iff dotted_def)
next
  assume s: "s = dotted q"
  obtain a b c d where q: "q = (a, b, c, d)" by (cases q)
  have o: "octet (showNat (unat b)) = Some b" for b by (simp add: octet_iff)
  show "parseIPv4 s = Some q" unfolding s q parseIPv4_def dotted_split by (simp add: o)
qed

text \<open>
  Of the resolvers typed, exactly those that are written as an address of four bytes is written are accepted (no leading zeros, no
  ports, no names, no other family), as they were typed and in their order; the others are told apart.
\<close>

theorem resolvers_are_kept_as_typed:
  "ParseDNS text = (filter (\<lambda>e. e \<in> range dotted) (splitCSV text), filter (\<lambda>e. e \<notin> range dotted) (splitCSV text))"
proof -
  have r: "e \<in> range dotted \<longleftrightarrow> parseIPv4 e \<noteq> None" for e
  proof (cases "parseIPv4 e")
    case None
    then have "e \<noteq> dotted q" for q using ipv4_iff [of e q] by simp
    then show ?thesis using None by blast
  next
    case (Some q)
    then have "e = dotted q" using ipv4_iff by blast
    then show ?thesis using Some by simp
  qed
  have "List.map_filter (\<lambda>e. map_option dotted (parseIPv4 e)) es = filter (\<lambda>e. e \<in> range dotted) es" for es
  proof (induction es)
    case (Cons e es)
    show ?case
    proof (cases "parseIPv4 e")
      case None
      then show ?thesis using Cons r [of e] by (simp add: List.map_filter_simps)
    next
      case (Some q)
      then show ?thesis using Cons r [of e] ipv4_iff [of e q] by (simp add: List.map_filter_simps)
    qed
  qed (simp add: List.map_filter_simps)
  then show ?thesis by (simp add: ParseDNS_def Let_def r del: not_None_eq)
qed

end
