(* ===== verification/Release.thy ===== *)
theory Release
  imports GoText
begin

text \<open>
  The check for a new version (\<open>pkg/release\<close>): what counts as a version and as a repository, the tag in a redirect, and which of
  two versions is the newer. The request itself is an argument, and so is the path \<open>url.Parse\<close> finds in a location.
\<close>

definition isRepoChar :: "char \<Rightarrow> bool" where
  "isRepoChar c \<longleftrightarrow> isSlug c \<or> c = CHR ''.''"

definition IsRepo :: "string \<Rightarrow> bool" where
  "IsRepo v = (case splitOn (CHR ''/'') v of
     [a, b] \<Rightarrow> a \<noteq> [] \<and> b \<noteq> [] \<and> list_all isRepoChar a \<and> list_all isRepoChar b | _ \<Rightarrow> False)"

definition LatestURL :: "string \<Rightarrow> string" where
  "LatestURL repo = ''https://github.com/'' @ repo @ ''/releases/latest''"

definition PageURL :: "string \<Rightarrow> string \<Rightarrow> string" where
  "PageURL repo tag = ''https://github.com/'' @ repo @ ''/releases/tag/'' @ tag"

definition AssetName :: "string \<Rightarrow> string \<Rightarrow> string" where
  "AssetName tag arch = ''wgkeybot-'' @ tag @ ''-windows-'' @ arch @ ''.zip''"

text \<open>\<open>versionRe\<close>: two to four numbers between dots.\<close>

definition versionShape :: "string \<Rightarrow> bool" where
  "versionShape v =
    (let ps = splitOn (CHR ''.'') v in 2 \<le> length ps \<and> length ps \<le> 4 \<and> list_all (\<lambda>p. p \<noteq> [] \<and> list_all isDigit p) ps)"

text \<open>The path of the location, none if there is no location or it does not parse.\<close>

definition TagFromLocation :: "string \<Rightarrow> string option \<Rightarrow> string option" where
  "TagFromLocation repo location = (case location of
     None \<Rightarrow> None
   | Some path \<Rightarrow>
       let prefix = ''/'' @ repo @ ''/releases/tag/''
       in if length path < length prefix \<or> toLower (take (length prefix) path) \<noteq> toLower prefix then None
          else let tag = drop (length prefix) path
               in if tag = [] \<or> CHR ''/'' \<in> set tag then None else Some tag)"

definition VersionOf :: "string \<Rightarrow> string \<times> bool" where
  "VersionOf tag = (let v = trimPrefix tag ''v'' in (v, versionShape v))"

text \<open>An \<open>int\<close> that wraps.\<close>

definition wrap64 :: "int \<Rightarrow> int" where
  "wrap64 n = (n + 2 ^ 63) mod 2 ^ 64 - 2 ^ 63"

definition versionPart :: "string list \<Rightarrow> nat \<Rightarrow> int" where
  "versionPart parts i = (if i \<ge> length parts then 0 else (case atoi (parts ! i) of None \<Rightarrow> 0 | Some n \<Rightarrow> n))"

fun compareFrom :: "nat list \<Rightarrow> string list \<Rightarrow> string list \<Rightarrow> int" where
  "compareFrom [] ap bp = 0"
| "compareFrom (i # is) ap bp =
    (let diff = wrap64 (versionPart ap i - versionPart bp i) in if diff \<noteq> 0 then diff else compareFrom is ap bp)"

definition CompareVersions :: "string \<Rightarrow> string \<Rightarrow> int" where
  "CompareVersions a b = compareFrom [0, 1, 2] (splitOn (CHR ''.'') a) (splitOn (CHR ''.'') b)"

definition IsNewer :: "string \<Rightarrow> string \<Rightarrow> bool" where
  "IsNewer latest installed \<longleftrightarrow> CompareVersions latest (untilAny ''-'' installed) > 0"

record githubRelease =
  relVersion :: string
  relTag :: string
  relPage :: string

datatype releaseError = NoRepository | NoResponse string | BadStatus nat | NoRelease

text \<open>What the request came to: an error, or the status and the path of the location.\<close>

definition Latest :: "string \<Rightarrow> string + nat \<times> string option \<Rightarrow> releaseError + githubRelease" where
  "Latest repo response =
    (if \<not> IsRepo repo then Inl NoRepository
     else (case response of
         Inl err \<Rightarrow> Inl (NoResponse err)
       | Inr (status, location) \<Rightarrow>
           if status \<notin> set [301, 302, 303, 307, 308] then Inl (BadStatus status)
           else (case TagFromLocation repo location of
               None \<Rightarrow> Inl NoRelease
             | Some tag \<Rightarrow>
                 (case VersionOf tag of (version, ok) \<Rightarrow>
                   if \<not> ok then Inl NoRelease
                   else Inr \<lparr>relVersion = version, relTag = tag, relPage = PageURL repo tag\<rparr>))))"

section \<open>The newer of two\<close>

text \<open>The first three numbers of a version.\<close>

definition versionKey :: "string \<Rightarrow> int \<times> int \<times> int" where
  "versionKey v = (let p = versionPart (splitOn (CHR ''.'') v) in (p 0, p 1, p 2))"

lemma atoi_digits: "list_all isDigit p \<Longrightarrow> atoi p = Some n \<Longrightarrow> 0 \<le> n \<and> n < 2 ^ 63"
proof -
  assume d: "list_all isDigit p" and a: "atoi p = Some n"
  have "p = c # cs \<Longrightarrow> c \<noteq> CHR ''-'' \<and> c \<noteq> CHR ''+''" for c cs using d by (auto simp: isDigit_def)
  then have "(case p of [] \<Rightarrow> (False, p) | c # cs \<Rightarrow> if c = CHR ''-'' then (True, cs) else if c = CHR ''+'' then (False, cs) else (False, p))
    = (False, p)" by (cases p) auto
  then show ?thesis using a by (auto simp: atoi_def Let_def split: if_splits)
qed

lemma versionPart_bounds:
  assumes "versionShape v"
  shows "0 \<le> versionPart (splitOn (CHR ''.'') v) i \<and> versionPart (splitOn (CHR ''.'') v) i < 2 ^ 63"
proof (cases "i < length (splitOn (CHR ''.'') v)")
  case True
  then have "list_all isDigit (splitOn (CHR ''.'') v ! i)" using assms by (simp add: versionShape_def Let_def list_all_length)
  then show ?thesis using True atoi_digits by (auto simp: versionPart_def split: option.splits)
qed (simp add: versionPart_def)

lemma wrap64_small: "\<lbrakk>0 \<le> a; a < 2 ^ 63; 0 \<le> b; b < 2 ^ 63\<rbrakk> \<Longrightarrow> wrap64 (a - b) = a - b"
  by (simp add: wrap64_def)

lemma IsNewer_key:
  assumes "versionShape v" "versionShape w"
  shows "CompareVersions v w > 0 \<longleftrightarrow> versionKey w < versionKey v"
proof -
  have d: "wrap64 (versionPart (splitOn (CHR ''.'') v) i - versionPart (splitOn (CHR ''.'') w) i)
      = versionPart (splitOn (CHR ''.'') v) i - versionPart (splitOn (CHR ''.'') w) i" for i
    using versionPart_bounds [OF assms(1), of i] versionPart_bounds [OF assms(2), of i] by (intro wrap64_small) auto
  have t: "(a, b, c) < (a', b', c') \<longleftrightarrow> a < a' \<or> a = a' \<and> (b < b' \<or> b = b' \<and> c < c')" for a b c a' b' c' :: int
    by (simp add: less_prod_simp) linarith
  show ?thesis unfolding CompareVersions_def versionKey_def compareFrom.simps d Let_def t by simp
qed

lemma versionShape_chars: "versionShape v \<Longrightarrow> CHR ''-'' \<notin> set v"
proof
  assume s: "versionShape v" and i: "CHR ''-'' \<in> set v"
  have "set v \<subseteq> insert c (\<Union> (set ` set (splitOn c v)))" for c
  proof (induction v)
    case (Cons x v)
    then show ?case by (cases "splitOn c v") auto
  qed simp
  from this [of "CHR ''.''"] have "CHR ''-'' \<in> insert (CHR ''.'') (\<Union> (set ` set (splitOn (CHR ''.'') v)))" using i by (rule subsetD)
  moreover have "CHR ''-'' \<noteq> CHR ''.''" by simp
  ultimately obtain p where "p \<in> set (splitOn (CHR ''.'') v)" "CHR ''-'' \<in> set p" by blast
  moreover have "\<forall>p \<in> set (splitOn (CHR ''.'') v). list_all isDigit p" using s unfolding versionShape_def Let_def list_all_iff by blast
  ultimately have "isDigit (CHR ''-'')" unfolding list_all_iff by blast
  then show False by (simp add: isDigit_def)
qed

text \<open>
  Between two versions of two to four numbers each, however large, the one offered is newer than the one installed exactly if its
  first three numbers come after in the order of their places; a suffix of the installed build (\<open>-debug\<close>) counts for nothing.
\<close>

theorem newer_by_three_numbers:
  assumes "VersionOf tag = (v, True)" "VersionOf tag' = (w, True)"
  shows "(IsNewer v (w @ CHR ''-'' # suffix) \<longleftrightarrow> versionKey w < versionKey v) \<and> (IsNewer v w \<longleftrightarrow> versionKey w < versionKey v)"
proof -
  have s: "versionShape v" "versionShape w" using assms by (auto simp: VersionOf_def Let_def)
  then have "\<forall>c \<in> set w. c \<noteq> CHR ''-''" using versionShape_chars by blast
  then have "untilAny ''-'' (w @ CHR ''-'' # suffix) = w" "untilAny ''-'' w = w"
    by (simp_all add: untilAny_def takeWhile_append takeWhile_eq_all_conv)
  then show ?thesis using IsNewer_key [OF s] by (simp only: IsNewer_def)
qed

theorem newer_by_three_numbers_witness:
  "IsNewer ''1.10.0'' ''1.9.9-debug'' \<and> \<not> IsNewer ''1.5'' ''1.5.0.7-rc1''"
proof -
  have t: "VersionOf ''v1.10.0'' = (''1.10.0'', True)" "VersionOf ''1.9.9'' = (''1.9.9'', True)" "VersionOf ''v1.5'' = (''1.5'', True)"
    "VersionOf ''v1.5.0.7'' = (''1.5.0.7'', True)" by code_simp+
  have k: "versionKey ''1.9.9'' < versionKey ''1.10.0''" "\<not> versionKey ''1.5.0.7'' < versionKey ''1.5''" by code_simp+
  show ?thesis using newer_by_three_numbers [OF t(1,2), of "''debug''"] newer_by_three_numbers [OF t(3,4), of "''rc1''"] k by simp
qed

end
