(* ===== verification/ConnLink.thy ===== *)
theory ConnLink
  imports Config
begin

text \<open>
  What is pasted into the import dialog (\<open>pkg/connlink\<close>) and what it is turned into (\<open>PrepareImport\<close> of \<open>winbridge/import.go\<close>): a
  token, or a link with a token or with a configuration inside. What \<open>url.Parse\<close>, zlib and the JSON decoder make of
  their input are parameters.
\<close>

definition ServiceHost :: string where "ServiceHost = ''key.shadowgate.online''"
definition linkPrefix :: string where "linkPrefix = ''wgkeybot://''"
definition MaxLinkLength :: nat where "MaxLinkLength = 32768"
definition MaxPayloadBytes :: nat where "MaxPayloadBytes = 65536"

definition zeroWidth :: "nat list" where "zeroWidth = [0x200B, 0x200C, 0x200D, 0xFEFF]"

definition IsValidToken :: "string \<Rightarrow> bool" where
  "IsValidToken t \<longleftrightarrow> 8 \<le> length t \<and> length t \<le> 64 \<and> list_all isSlug t"

definition Normalize :: "string \<Rightarrow> string" where
  "Normalize raw = mapRunes (\<lambda>r. if isSpace r \<or> r \<in> set zeroWidth then None else Some r) raw"

section \<open>Tokens\<close>

text \<open>The part of an http(s) link behind the slashes; the \<open>s\<close> of a case-blind pattern is also the long one.\<close>

definition afterHTTP :: "string \<Rightarrow> string option" where
  "afterHTTP s =
    (if length s < 4 \<or> toLower (take 4 s) \<noteq> ''http'' then None
     else let r = drop 4 s;
              r1 = (if hasPrefix r ''s'' \<or> hasPrefix r ''S'' then Some (drop 1 r)
                    else if hasPrefix r [CHR 0xC5, CHR 0xBF] then Some (drop 2 r) else None)
          in (case r1 of
                Some x \<Rightarrow> if hasPrefix x ''://'' then Some (drop 3 x) else None
              | None \<Rightarrow> if hasPrefix r ''://'' then Some (drop 3 r) else None))"

definition linkHost :: "string \<Rightarrow> string" where
  "linkHost clean = (case afterHTTP clean of None \<Rightarrow> [] | Some rest \<Rightarrow> lowerText (untilAny ''/?#'' rest))"

definition hasPrefixFold :: "string \<Rightarrow> string \<Rightarrow> bool" where
  "hasPrefixFold s p \<longleftrightarrow> length s \<ge> length p \<and> toLower (take (length p) s) = toLower p"

definition isServiceLink :: "string \<Rightarrow> bool" where
  "isServiceLink clean \<longleftrightarrow> hasPrefixFold clean linkPrefix \<or> linkHost clean = ServiceHost"

text \<open>The first \<open>token=\<close> behind a question mark or an ampersand that has a value.\<close>

fun tokenParam :: "string \<Rightarrow> string option" where
  "tokenParam [] = None"
| "tokenParam (c # s) =
    (if (c = CHR ''?'' \<or> c = CHR ''&'') \<and> hasPrefix s ''token='' \<and> untilAny ''&#'' (drop 6 s) \<noteq> [] then Some (untilAny ''&#'' (drop 6 s))
     else tokenParam s)"

definition ExtractToken :: "string \<Rightarrow> string option" where
  "ExtractToken text =
    (let clean = Normalize text
     in if IsValidToken clean then Some clean
        else if \<not> isServiceLink clean then None
        else let path = untilAny ''#'' (untilAny ''?'' clean); final = afterLast ''/'' path;
                 fromPath = (if IsValidToken final then Some final else None)
             in (case tokenParam clean of Some t \<Rightarrow> if IsValidToken t then Some t else fromPath | None \<Rightarrow> fromPath))"

datatype failure = FailEmpty | FailInvalidFormat | FailMissingToken | FailAppDownloadLink | FailBotLink | FailInvalidData
  | FailUnsupportedVersion | FailInvalidConfig

definition foreignLinkFailure :: "string \<Rightarrow> failure" where
  "foreignLinkFailure clean =
    (let host = linkHost clean
     in if host = ''github.com'' \<or> hasSuffix host ''.github.com'' then FailAppDownloadLink
        else if host = ''t.me'' \<or> host = ''telegram.me'' \<or> hasSuffix host ''.t.me'' then FailBotLink
        else FailInvalidFormat)"

section \<open>A configuration in the link\<close>

record embedded =
  AccessToken :: string
  EmbConfig :: string

definition dataAlphabet :: "string \<Rightarrow> bool" where
  "dataAlphabet s \<longleftrightarrow> s \<noteq> [] \<and> list_all isSlug s"

text \<open>
  zlib: at most so many bytes of what the compressed ones hold, with how many of the latter are left over; none for an error.
\<close>

type_synonym inflate = "byte list \<Rightarrow> nat \<Rightarrow> (string \<times> nat) option"

definition inflateData :: "inflate \<Rightarrow> string \<Rightarrow> string option" where
  "inflateData inflate encoded =
    (if \<not> dataAlphabet encoded then None
     else (case b64Decode True False True encoded of
         None \<Rightarrow> None
       | Some compressed \<Rightarrow> (case inflate compressed (MaxPayloadBytes + 1) of
             None \<Rightarrow> None
           | Some (payload, rest) \<Rightarrow> if length payload > MaxPayloadBytes \<or> rest \<noteq> 0 then None else Some payload)))"

function validUTF8 :: "string \<Rightarrow> bool" where
  "validUTF8 s =
    (if s = [] then True
     else let (r, w) = decodeRune s in if r = runeError \<and> w = 1 then False else validUTF8 (drop w s))"
  by pat_completeness auto
termination
proof (relation "measure length")
  fix s :: string and x r w
  assume "s \<noteq> []" "x = decodeRune s" "(r, w) = x"
  then show "(drop w s, s) \<in> measure length" using decodeRune_width [of s] by (cases "decodeRune s") auto
qed simp

declare validUTF8.simps [simp del]

definition twoDigits :: "nat \<Rightarrow> string \<Rightarrow> nat" where
  "twoDigits i s = digitsNat (take 2 (drop i s))"

definition daysIn :: "nat \<Rightarrow> nat \<Rightarrow> nat" where
  "daysIn year month =
    (if month = 2 then (if year mod 4 = 0 \<and> (year mod 100 \<noteq> 0 \<or> year mod 400 = 0) then 29 else 28)
     else if month \<in> set [4, 6, 9, 11] then 30 else 31)"

text \<open>The shape of the pattern, then the ranges \<open>time.Parse\<close> checks.\<close>

definition expiryFormat :: "string \<Rightarrow> bool" where
  "expiryFormat v \<longleftrightarrow> length v = 20 \<and> list_all isDigit (map (\<lambda>i. v ! i) [0, 1, 2, 3, 5, 6, 8, 9, 11, 12, 14, 15, 17, 18]) \<and>
     map (\<lambda>i. v ! i) [4, 7, 10, 13, 16, 19] = ''--T::Z''"

definition validExpiry :: "string \<Rightarrow> bool" where
  "validExpiry v \<longleftrightarrow> expiryFormat v \<and>
     (let year = digitsNat (take 4 v); month = twoDigits 5 v; day = twoDigits 8 v
      in 1 \<le> month \<and> month \<le> 12 \<and> 1 \<le> day \<and> day \<le> daysIn year month \<and>
         twoDigits 11 v < 24 \<and> twoDigits 14 v < 60 \<and> twoDigits 17 v < 60)"

text \<open>The raw values by their names; a value that is a text, unquoted. A name that is missing reads as an empty value.\<close>

type_synonym jsonFields = "(string \<times> string) list"

definition rawField :: "jsonFields \<Rightarrow> string \<Rightarrow> string" where
  "rawField flds name = (case map_of flds name of None \<Rightarrow> [] | Some v \<Rightarrow> v)"

definition stringField :: "(string \<Rightarrow> string option) \<Rightarrow> jsonFields \<Rightarrow> string \<Rightarrow> string option" where
  "stringField unquote flds name =
    (let raw = rawField flds name in if raw = [] \<or> hd raw \<noteq> CHR 0x22 then None else unquote raw)"

definition integerLiteral :: "string \<Rightarrow> bool" where
  "integerLiteral s = (let ds = trimPrefix s ''-'' in ds \<noteq> [] \<and> list_all isDigit ds)"

definition decodeFields :: "(string \<Rightarrow> string option) \<Rightarrow> jsonFields \<Rightarrow> failure + embedded" where
  "decodeFields unquote flds =
    (if list_ex (\<lambda>(k, v). v \<noteq> [] \<and> (hd v = CHR ''{'' \<or> hd v = CHR ''['')) flds then Inl FailInvalidData
     else let version = rawField flds ''version''
          in if version \<noteq> ''1'' then Inl (if integerLiteral version then FailUnsupportedVersion else FailInvalidData)
             else (case stringField unquote flds ''access_token'' of
                 None \<Rightarrow> Inl FailInvalidData
               | Some token \<Rightarrow>
                   if \<not> IsValidToken token then Inl FailInvalidData
                   else (case stringField unquote flds ''subscription_expires_at'' of
                       None \<Rightarrow> Inl FailInvalidData
                     | Some expires \<Rightarrow>
                         if \<not> validExpiry expires then Inl FailInvalidData
                         else (case stringField unquote flds ''config'' of
                             None \<Rightarrow> Inl FailInvalidConfig
                           | Some config \<Rightarrow>
                               if trimSpace config = [] \<or> CHR 0x00 \<in> set config \<or>
                                  \<not> strContains config ''[Interface]'' \<or> \<not> strContains config ''[Peer]'' then Inl FailInvalidConfig
                               else Inr \<lparr>AccessToken = token, EmbConfig = config\<rparr>))))"

text \<open>The JSON decoder: the fields of an object, none for anything else; and the text a quoted value stands for.\<close>

record jsonDecoder =
  objectOf :: "string \<Rightarrow> jsonFields option"
  unquoteOf :: "string \<Rightarrow> string option"

definition decodeData :: "inflate \<Rightarrow> jsonDecoder \<Rightarrow> string \<Rightarrow> failure + embedded" where
  "decodeData inflate json encoded = (case inflateData inflate encoded of
     None \<Rightarrow> Inl FailInvalidData
   | Some payload \<Rightarrow>
       if \<not> validUTF8 payload then Inl FailInvalidData
       else (case objectOf json payload of None \<Rightarrow> Inl FailInvalidData | Some flds \<Rightarrow> decodeFields (unquoteOf json) flds))"

section \<open>Links\<close>

fun queryUnescape :: "string \<Rightarrow> string option" where
  "queryUnescape [] = Some []"
| "queryUnescape (c # s) =
    (if c = CHR ''%'' then
       (case s of
          a # b # s' \<Rightarrow>
            (case (hexValue a, hexValue b) of
               (Some m, Some n) \<Rightarrow> map_option (\<lambda>t. char_of (16 * m + n) # t) (queryUnescape s')
             | _ \<Rightarrow> None)
        | _ \<Rightarrow> None)
     else map_option (\<lambda>t. (if c = CHR ''+'' then CHR '' '' else c) # t) (queryUnescape s))"

definition linkParam :: "string \<Rightarrow> (string \<times> string) list \<Rightarrow> (string \<times> string) list option" where
  "linkParam part params = (case strCut part ''='' of (rawKey, rawValue, hasValue) \<Rightarrow>
     (case queryUnescape rawKey of
        None \<Rightarrow> None
      | Some k \<Rightarrow>
          if k \<noteq> ''token'' \<and> k \<noteq> ''data'' then Some params
          else if map_of params k \<noteq> None \<or> \<not> hasValue then None
          else map_option (\<lambda>v. mput k v params) (queryUnescape rawValue)))"

fun linkParamsFrom :: "string list \<Rightarrow> (string \<times> string) list \<Rightarrow> (string \<times> string) list option" where
  "linkParamsFrom [] params = Some params"
| "linkParamsFrom (part # parts) params =
    (case linkParam part params of None \<Rightarrow> None | Some params \<Rightarrow> linkParamsFrom parts params)"

definition linkParams :: "string \<Rightarrow> (string \<times> string) list option" where
  "linkParams query = linkParamsFrom (splitOn (CHR ''&'') query) []"

record urlParts =
  uScheme :: string
  uHost :: string
  uHasUser :: bool
  uPath :: string
  uRawQuery :: string

datatype importInput = TokenInput string | EmbeddedInput embedded

definition parseLink :: "(string \<Rightarrow> urlParts option) \<Rightarrow> inflate \<Rightarrow> jsonDecoder \<Rightarrow> string \<Rightarrow> failure + importInput" where
  "parseLink urlParse inflate json link = (case urlParse link of
     None \<Rightarrow> Inl FailInvalidFormat
   | Some u \<Rightarrow>
       if uScheme u \<noteq> ''wgkeybot'' \<or> uHost u \<noteq> ''config'' \<or> uHasUser u \<or> uPath u \<noteq> [] \<or> CHR ''#'' \<in> set link then Inl FailInvalidFormat
       else (case linkParams (uRawQuery u) of
           None \<Rightarrow> Inl FailInvalidFormat
         | Some params \<Rightarrow>
             (case map_of params ''data'' of
                Some payload \<Rightarrow>
                  if (case map_of params ''token'' of None \<Rightarrow> False | Some t \<Rightarrow> \<not> IsValidToken t) then Inl FailInvalidData
                  else (case decodeData inflate json payload of Inl f \<Rightarrow> Inl f | Inr e \<Rightarrow> Inr (EmbeddedInput e))
              | None \<Rightarrow>
                  (case map_of params ''token'' of
                     None \<Rightarrow> Inl FailMissingToken
                   | Some raw \<Rightarrow>
                       if raw = [] then Inl FailMissingToken
                       else (case ExtractToken raw of None \<Rightarrow> Inl FailInvalidFormat | Some t \<Rightarrow> Inr (TokenInput t))))))"

definition parseInput :: "(string \<Rightarrow> urlParts option) \<Rightarrow> inflate \<Rightarrow> jsonDecoder \<Rightarrow> string \<Rightarrow> failure + importInput" where
  "parseInput urlParse inflate json raw =
    (if length raw > MaxLinkLength then Inl FailInvalidFormat
     else let clean = Normalize raw
          in if clean = [] then Inl FailEmpty
             else if hasPrefix clean linkPrefix then parseLink urlParse inflate json clean
             else (case ExtractToken clean of None \<Rightarrow> Inl (foreignLinkFailure clean) | Some t \<Rightarrow> Inr (TokenInput t)))"

text \<open>The import: the configuration and the token of its session. The service is asked with the token and answers as \<open>InitFromToken\<close> does.\<close>

datatype prepareError = BadInput failure | BadServer importError | BadServerConfig

definition PrepareImport :: "(string \<Rightarrow> urlParts option) \<Rightarrow> inflate \<Rightarrow> jsonDecoder \<Rightarrow>
    (string \<Rightarrow> apiError + (string \<times> string) option) \<Rightarrow> string \<Rightarrow> prepareError + string \<times> string" where
  "PrepareImport urlParse inflate json service raw = (case parseInput urlParse inflate json raw of
     Inl f \<Rightarrow> Inl (BadInput f)
   | Inr (EmbeddedInput e) \<Rightarrow>
       let config = trimSpace (EmbConfig e)
       in if \<not> configUsable config then Inl (BadInput FailInvalidConfig) else Inr (config, AccessToken e)
   | Inr (TokenInput t) \<Rightarrow> (case InitFromToken (service t) of
       Inl err \<Rightarrow> Inl (BadServer err)
     | Inr (config, token) \<Rightarrow> if \<not> configUsable config then Inl BadServerConfig else Inr (config, token)))"

end
