(* ===== verification/ConnLinkProps.thy ===== *)
theory ConnLinkProps
  imports ConnLink
begin

text \<open>
  What the import promises: a token is a single segment of a path, data in a link is never set aside for a token, a configuration is one the
  tunnel can go up with, and a token is found however it is pasted.
\<close>

section \<open>What comes out\<close>

lemma ExtractToken_valid: "ExtractToken text = Some t \<Longrightarrow> IsValidToken t"
  by (auto simp: ExtractToken_def Let_def split: if_splits option.splits)

lemma decodeFields_valid:
  "decodeFields unq flds = Inr e \<Longrightarrow> IsValidToken (AccessToken e) \<and> strContains (EmbConfig e) ''[Interface]'' \<and> strContains (EmbConfig e) ''[Peer]''"
  by (auto simp: decodeFields_def Let_def split: if_splits option.splits)

lemma decodeData_valid:
  "decodeData inflate json s = Inr e \<Longrightarrow> IsValidToken (AccessToken e) \<and> strContains (EmbConfig e) ''[Interface]'' \<and> strContains (EmbConfig e) ''[Peer]''"
  by (auto simp: decodeData_def split: if_splits option.splits dest: decodeFields_valid)

lemma parseLink_valid:
  "parseLink url inflate json link = Inr r \<Longrightarrow> (case r of TokenInput t \<Rightarrow> IsValidToken t | EmbeddedInput e \<Rightarrow> IsValidToken (AccessToken e))"
  by (auto simp: parseLink_def split: if_splits option.splits sum.splits dest: ExtractToken_valid decodeData_valid)

lemma parseInput_valid:
  "parseInput url inflate json raw = Inr r \<Longrightarrow> (case r of TokenInput t \<Rightarrow> IsValidToken t | EmbeddedInput e \<Rightarrow> IsValidToken (AccessToken e))"
  using parseLink_valid [of url inflate json "Normalize raw" r]
  by (auto simp: parseInput_def Let_def split: if_splits option.splits dest: ExtractToken_valid)

lemma parseLink_data:
  assumes "url link = Some u" "linkParams (uRawQuery u) = Some params" "map_of params ''data'' = Some d"
  shows "parseLink url inflate json link \<noteq> Inr (TokenInput t)"
  using assms by (auto simp: parseLink_def split: sum.splits)



section \<open>A token found\<close>

definition invisible :: "nat \<Rightarrow> bool" where
  "invisible r \<longleftrightarrow> isSpace r \<or> r \<in> set zeroWidth"

text \<open>An ASCII rune or an invisible one is read back from its bytes.\<close>

lemma decodeRune_ascii: "r < 128 \<Longrightarrow> encodeRune r = [char_of r] \<and> decodeRune (char_of r # s) = (r, 1)"
  by (simp add: encodeRune_def decodeRune_def Let_def)

lemma decodeRune_two:
  fixes b c :: nat and s :: string
  assumes "0xC2 \<le> b" "b \<le> 0xDF" "0x80 \<le> c" "c \<le> 0xBF"
  shows "decodeRune (char_of b # char_of c # s) = ((b - 0xC0) * 64 + (c - 0x80), 2)"
  using assms by (simp add: decodeRune_def isCont_def Let_def)

lemma decodeRune_three:
  fixes b c d :: nat and s :: string
  assumes "0xE1 \<le> b" "b \<le> 0xEF" "b \<noteq> 0xED" "0x80 \<le> c" "c \<le> 0xBF" "0x80 \<le> d" "d \<le> 0xBF"
  shows "decodeRune (char_of b # char_of c # char_of d # s) = ((b - 0xE0) * 4096 + (c - 0x80) * 64 + (d - 0x80), 3)"
  using assms by (simp add: decodeRune_def isCont_def Let_def)

lemma invisible_decodes:
  assumes "invisible r"
  shows "decodeRune (encodeRune r @ s) = (r, length (encodeRune r)) \<and> encodeRune r \<noteq> []"
proof -
  have i: "r < 128 \<or> r \<in> {0x85, 0xA0} \<or> (0x1000 \<le> r \<and> r < 0x10000 \<and> r div 4096 \<noteq> 13)"
    using assms by (auto simp: invisible_def isSpace_def zeroWidth_def)
  then consider "r < 128" | "r = 0x85" | "r = 0xA0" | "0x1000 \<le> r" "r < 0x10000" "r div 4096 \<noteq> 13" by blast
  then show ?thesis
  proof cases
    case 1
    then show ?thesis using decodeRune_ascii [OF 1, of s] by simp
  next
    case 2
    then show ?thesis using decodeRune_two [of "0xC2" "0x85" s] by (simp add: encodeRune_def)
  next
    case 3
    then show ?thesis using decodeRune_two [of "0xC2" "0xA0" s] by (simp add: encodeRune_def)
  next
    case 4
    have b: "0xE1 \<le> 0xE0 + r div 4096" "0xE0 + r div 4096 \<le> 0xEF" "0xE0 + r div 4096 \<noteq> 0xED" using 4 by (auto simp: less_mult_imp_div_less)
    have c: "(0x80 + r div 64 mod 64 :: nat) \<le> 0xBF" "(0x80 + r mod 64 :: nat) \<le> 0xBF" by simp_all
    have "r = r div 4096 * 4096 + r div 64 mod 64 * 64 + r mod 64"
    proof -
      have "r div 64 = r div 64 div 64 * 64 + r div 64 mod 64" by simp
      moreover have "r div 64 div 64 = r div 4096" by (simp add: div_mult2_eq [symmetric])
      ultimately show ?thesis using div_mult_mod_eq [of r 64] by linarith
    qed
    moreover have "encodeRune r = [char_of (0xE0 + r div 4096), char_of (0x80 + r div 64 mod 64), char_of (0x80 + r mod 64)]"
      using 4 by (simp add: encodeRune_def)
    ultimately show ?thesis
      using decodeRune_three [OF b, of "0x80 + r div 64 mod 64" "0x80 + r mod 64" s] c by simp
  qed
qed

lemma runesOf_encoded:
  "\<forall>r \<in> set rs. r < 128 \<or> invisible r \<Longrightarrow> runesOf (concat (map encodeRune rs)) = rs"
proof (induction rs)
  case Nil
  then show ?case by (simp add: runesOf.simps)
next
  case (Cons r rs)
  let ?s = "concat (map encodeRune rs)"
  have d: "decodeRune (encodeRune r @ ?s) = (r, length (encodeRune r)) \<and> encodeRune r \<noteq> []"
  proof (cases "r < 128")
    case True
    then show ?thesis using decodeRune_ascii [OF True, of ?s] by simp
  next
    case False
    then show ?thesis using Cons.prems invisible_decodes by simp
  qed
  then show ?case using Cons by (subst runesOf.simps) simp
qed

lemma Normalize_runes:
  assumes "\<forall>r \<in> set rs. r < 128 \<or> invisible r"
  shows "Normalize (concat (map encodeRune rs)) = concat (map encodeRune (filter (\<lambda>r. \<not> invisible r) rs))"
proof -
  have "concat (map (\<lambda>r. case if isSpace r \<or> r \<in> set zeroWidth then None else Some r of None \<Rightarrow> [] | Some r \<Rightarrow> encodeRune r) xs)
      = concat (map encodeRune (filter (\<lambda>r. \<not> invisible r) xs))" for xs
    by (induction xs) (simp_all add: invisible_def)
  then show ?thesis unfolding Normalize_def mapRunes_def runesOf_encoded [OF assms] by (simp only: option.case_distrib) 
qed

lemma encode_ascii: "\<forall>c \<in> set s. ord c < 128 \<Longrightarrow> concat (map encodeRune (map of_char s)) = s"
proof (induction s)
  case (Cons c s)
  then show ?case using decodeRune_ascii [of "ord c" s] by simp
qed simp

lemma Normalize_visible:
  assumes "\<forall>c \<in> set s. 33 \<le> ord c \<and> ord c \<le> 126"
  shows "Normalize s = s"
proof -
  have a: "\<forall>c \<in> set s. ord c < 128" using assms by auto
  have "\<not> invisible (ord c)" if "c \<in> set s" for c using assms that by (auto simp: invisible_def isSpace_def zeroWidth_def)
  then have "filter (\<lambda>r. \<not> invisible r) (map of_char s) = map of_char s" by (auto simp: filter_id_conv)
  then show ?thesis using Normalize_runes [of "map of_char s"] a encode_ascii [OF a] by simp
qed

lemma tokenParam_none: "CHR ''?'' \<notin> set s \<and> CHR ''&'' \<notin> set s \<Longrightarrow> tokenParam s = None"
  by (induction s) auto

lemma afterLast_end: "c \<notin> set t \<Longrightarrow> afterLast [c] (p @ c # t) = t"
  by (simp add: afterLast_def takeWhile_append)

lemma untilAny_none: "\<forall>c \<in> set s. c \<notin> set cs \<Longrightarrow> untilAny cs s = s"
  by (simp add: untilAny_def takeWhile_eq_all_conv)

text \<open>A token at the end of a path of the service.\<close>

lemma ExtractToken_path:
  assumes "IsValidToken t" "linkHost (p @ CHR ''/'' # t) = ServiceHost"
    and "\<forall>c \<in> set p. 33 \<le> ord c \<and> ord c \<le> 126 \<and> c \<noteq> CHR ''?'' \<and> c \<noteq> CHR ''&'' \<and> c \<noteq> CHR ''#''"
  shows "ExtractToken (p @ CHR ''/'' # t) = Some t"
proof -
  let ?s = "p @ CHR ''/'' # t"
  have t: "\<forall>c \<in> set t. isSlug c" using assms(1) by (simp add: IsValidToken_def list_all_iff)
  then have n: "CHR ''/'' \<notin> set t" "CHR ''?'' \<notin> set t" "CHR ''&'' \<notin> set t" "CHR ''#'' \<notin> set t" using isSlug_not by fastforce+
  have v: "\<forall>c \<in> set ?s. 33 \<le> ord c \<and> ord c \<le> 126" using assms(3) t isSlug_plain by auto
  have "\<not> IsValidToken ?s" using isSlug_not [of "CHR ''/''"] by (auto simp: IsValidToken_def)
  moreover have "untilAny ''#'' (untilAny ''?'' ?s) = ?s" using assms(3) n by (subst (1 2) untilAny_none) auto
  moreover have "tokenParam ?s = None" using assms(3) n by (intro tokenParam_none) auto
  moreover have "afterLast ''/'' ?s = t" using afterLast_end n(1) by blast
  ultimately show ?thesis using Normalize_visible [OF v] assms(1,2) by (simp add: ExtractToken_def isServiceLink_def Let_def)
qed

lemma ExtractToken_bare: "IsValidToken t \<Longrightarrow> ExtractToken t = Some t"
proof -
  assume t: "IsValidToken t"
  then have "\<forall>c \<in> set t. 33 \<le> ord c \<and> ord c \<le> 126" using isSlug_plain by (auto simp: IsValidToken_def list_all_iff)
  then show ?thesis using Normalize_visible t by (simp add: ExtractToken_def)
qed

definition tokenHomes :: "string list" where
  "tokenHomes = ['''', ''https://key.shadowgate.online/open/'', ''HTTPS://KEY.SHADOWGATE.ONLINE/api/v1/init/'']"

lemma linkHost_open: "linkHost (''https://key.shadowgate.online/open'' @ CHR ''/'' # t) = ServiceHost"
proof -
  have "lowerText ''key.shadowgate.online'' = ServiceHost" by code_simp
  then show ?thesis by (simp add: linkHost_def afterHTTP_def toLower_def asciiLower_def hasPrefix_def untilAny_def)
qed

lemma linkHost_init: "linkHost (''HTTPS://KEY.SHADOWGATE.ONLINE/api/v1/init'' @ CHR ''/'' # t) = ServiceHost"
proof -
  have "lowerText ''KEY.SHADOWGATE.ONLINE'' = ServiceHost" "toLower ''HTTP'' = ''http''" by code_simp+
  then show ?thesis by (simp add: linkHost_def afterHTTP_def hasPrefix_def untilAny_def)
qed

lemma ExtractToken_home:
  assumes "IsValidToken t" "home \<in> set tokenHomes"
  shows "ExtractToken (home @ t) = Some t"
proof -
  have o: "ExtractToken (''https://key.shadowgate.online/open'' @ CHR ''/'' # t) = Some t"
    by (rule ExtractToken_path [OF assms(1) linkHost_open]) code_simp
  have i: "ExtractToken (''HTTPS://KEY.SHADOWGATE.ONLINE/api/v1/init'' @ CHR ''/'' # t) = Some t"
    by (rule ExtractToken_path [OF assms(1) linkHost_init]) code_simp
  show ?thesis using assms(2) o i ExtractToken_bare [OF assms(1)] by (auto simp: tokenHomes_def)
qed

text \<open>
  A token of the bot is found in what is pasted, alone or at the end of a link to the service, however many spaces, line breaks and
  invisible characters a messenger has put anywhere into it.
\<close>

theorem token_is_found_however_pasted:
  assumes "IsValidToken t" "home \<in> set tokenHomes" "\<forall>r \<in> set rs. r < 128 \<or> invisible r"
    and "filter (\<lambda>r. \<not> invisible r) rs = map of_char (home @ t)" "length (concat (map encodeRune rs)) \<le> MaxLinkLength"
  shows "parseInput url inflate json (concat (map encodeRune rs)) = Inr (TokenInput t)"
proof -
  have "\<forall>c \<in> set home. ord c < 128" using assms(2) by (auto simp: tokenHomes_def)
  moreover have "\<forall>c \<in> set t. isSlug c" using assms(1) by (simp add: IsValidToken_def list_all_iff)
  ultimately have "\<forall>c \<in> set (home @ t). ord c < 128" using isSlug_plain by fastforce
  then have n: "Normalize (concat (map encodeRune rs)) = home @ t"
    using Normalize_runes [OF assms(3)] assms(4) encode_ascii by simp
  have "\<not> hasPrefix (home @ t) linkPrefix"
  proof -
    have "CHR '':'' \<notin> set t" using \<open>\<forall>c \<in> set t. isSlug c\<close> by (auto simp: isSlug_def isAlnum_def isDigit_def)
    then have "\<not> hasPrefix t linkPrefix" using in_set_takeD [of "CHR '':''" "length linkPrefix" t] by (auto simp: hasPrefix_def linkPrefix_def)
    then show ?thesis using assms(2) by (auto simp: tokenHomes_def hasPrefix_def linkPrefix_def)
  qed
  moreover have "home @ t \<noteq> []" using assms(1) by (auto simp: IsValidToken_def)
  ultimately show ?thesis using ExtractToken_home [OF assms(1,2)] assms(5) by (simp add: parseInput_def n Let_def)
qed

theorem token_is_found_however_pasted_witness:
  "parseInput (\<lambda>_. None) (\<lambda>_ _. None) \<lparr>objectOf = \<lambda>_. None, unquoteOf = \<lambda>_. None\<rparr>
     (concat (map encodeRune ([0xFEFF, 32] @ map of_char ''https://key.shadowgate.online/open/abcd'' @ [0x200B] @ map of_char ''1234'' @ [10])))
   = Inr (TokenInput ''abcd1234'')"
proof -
  let ?rs = "[0xFEFF, 32] @ map of_char ''https://key.shadowgate.online/open/abcd'' @ [0x200B] @ map of_char ''1234'' @ [10 :: nat]"
  have v: "IsValidToken ''abcd1234''" "''https://key.shadowgate.online/open/'' \<in> set tokenHomes" by code_simp+
  have r: "\<forall>r \<in> set ?rs. r < 128 \<or> invisible r" by code_simp
  have f: "filter (\<lambda>r. \<not> invisible r) ?rs = map of_char (''https://key.shadowgate.online/open/'' @ ''abcd1234'')" by code_simp
  have l: "length (concat (map encodeRune ?rs)) \<le> MaxLinkLength" by code_simp
  show ?thesis by (rule token_is_found_however_pasted [OF v r f l])
qed

end
