(* ===== verification/TcpWatch.thy ===== *)
theory TcpWatch
  imports Dispatch
begin

text \<open>
  The watch on the TCP connections to the relays (\<open>pkg/proxy/relay_tcp_watch.go\<close>): the samples of the sockets, the run of
  timeouts they tell, the marks that take a stream out of dispatch, the stalls and the windows of the log, and the loop that
  sleeps while no stream is on TCP. A connection and a stream are numbers; the streams are read and marked in a store, since
  several sockets may carry one stream. A line of the log is a value with what it says; its wording, and the line about a
  silent stream, are left out.
\<close>

definition relaySocketLogInterval :: duration where "relaySocketLogInterval = 10 * second"
definition relayStallReportAfter :: duration where "relayStallReportAfter = 2 * second"
definition relayStallLogBudget :: nat where "relayStallLogBudget = 40"
definition relayTrafficWorthALine :: "64 word" where "relayTrafficWorthALine = 65536"
definition relayStallSkipTimeouts :: int where "relayStallSkipTimeouts = 2"

lemmas tcp_watch_consts [go_consts] = relaySocketLogInterval_def relayStallReportAfter_def relayStallLogBudget_def
  relayTrafficWorthALine_def relayStallSkipTimeouts_def

section \<open>A sample and a socket\<close>

record relaySocketSample =
  acked :: "64 word"
  received :: "64 word"
  segsOut :: "64 word"
  retrans :: "64 word"
  retransBytes :: "64 word"
  backlog :: int
  timeouts :: int
  probing :: bool
  timeoutEpisodes :: "64 word"
  episodic :: bool
  sampleRtt :: duration
  busyFor :: duration
  waitedOnPeerWindow :: duration
  waitedOnSendBuffer :: duration
  noSendBuffer :: bool

definition noSample :: relaySocketSample where
  "noSample = \<lparr>acked = 0, received = 0, segsOut = 0, retrans = 0, retransBytes = 0, backlog = 0, timeouts = 0, probing = False,
     timeoutEpisodes = 0, episodic = False, sampleRtt = 0, busyFor = 0, waitedOnPeerWindow = 0, waitedOnSendBuffer = 0,
     noSendBuffer = False\<rparr>"

record watchedSocket =
  sockStream :: int
  sockRelay :: string
  sockSt :: nat
  lastSample :: relaySocketSample
  sockRun :: int
  stalledSince :: gtime
  stallTimeouts :: int
  stallBacklog :: int
  stallProbing :: bool
  stallEpisodic :: bool

definition timeoutsInARow :: "relaySocketSample \<Rightarrow> watchedSocket \<Rightarrow> int" where
  "timeoutsInARow now s =
    (if \<not> episodic now then timeouts now
     else if acked now > acked (lastSample s) \<or> backlog now = 0 then 0
     else if sockRun s > 0 \<or> timeoutEpisodes now > timeoutEpisodes (lastSample s) then sockRun s + 1
     else sockRun s)"

text \<open>What is kept of it: the run is only the watch's own where the system keeps none.\<close>

definition keepRun :: "relaySocketSample \<Rightarrow> watchedSocket \<Rightarrow> watchedSocket" where
  "keepRun now s = (if episodic now then s\<lparr>sockRun := timeoutsInARow now s\<rparr> else s)"

text \<open>What is acknowledged stays acknowledged where the count is derived.\<close>

definition clampAcked :: "watchedSocket \<Rightarrow> relaySocketSample \<Rightarrow> relaySocketSample" where
  "clampAcked s now = (if episodic now \<and> acked now < acked (lastSample s) then now\<lparr>acked := acked (lastSample s)\<rparr> else now)"

definition counterDelta :: "64 word \<Rightarrow> 64 word \<Rightarrow> 64 word" where
  "counterDelta n was = (if n < was then n else n - was)"

definition durationDelta :: "duration \<Rightarrow> duration \<Rightarrow> duration" where
  "durationDelta d was = (if d < was then d else d - was)"

section \<open>The window of a summary\<close>

record socketWindow =
  windowStart :: gtime
  up :: "64 word"
  down :: "64 word"
  winSegsOut :: "64 word"
  winRetrans :: "64 word"
  winRetransBytes :: "64 word"
  winBusy :: duration
  peerWindow :: duration
  sndBf :: duration
  winNoSendBuffer :: bool
  backlogPeak :: int
  backlogStream :: int
  queuePeak :: nat
  queueStream :: int
  stallsEnded :: int
  longestStall :: duration
  drops :: "64 word"
  steered :: "64 word"
  intoStalled :: "64 word"

definition newWindow :: "gtime \<Rightarrow> socketWindow" where
  "newWindow t = \<lparr>windowStart = t, up = 0, down = 0, winSegsOut = 0, winRetrans = 0, winRetransBytes = 0, winBusy = 0,
     peerWindow = 0, sndBf = 0, winNoSendBuffer = False, backlogPeak = 0, backlogStream = 0, queuePeak = 0, queueStream = 0,
     stallsEnded = 0, longestStall = 0, drops = 0, steered = 0, intoStalled = 0\<rparr>"

definition countSample :: "relaySocketSample \<Rightarrow> watchedSocket \<Rightarrow> socketWindow \<Rightarrow> socketWindow" where
  "countSample now s w =
    (let was = lastSample s;
         w = w\<lparr>up := up w + counterDelta (acked now) (acked was),
               down := down w + counterDelta (received now) (received was),
               winSegsOut := winSegsOut w + counterDelta (segsOut now) (segsOut was),
               winRetrans := winRetrans w + counterDelta (retrans now) (retrans was),
               winRetransBytes := winRetransBytes w + counterDelta (retransBytes now) (retransBytes was),
               winBusy := winBusy w + durationDelta (busyFor now) (busyFor was),
               peerWindow := peerWindow w + durationDelta (waitedOnPeerWindow now) (waitedOnPeerWindow was),
               sndBf := sndBf w + durationDelta (waitedOnSendBuffer now) (waitedOnSendBuffer was),
               winNoSendBuffer := winNoSendBuffer w \<or> noSendBuffer now\<rparr>
     in if backlog now > backlogPeak w then w\<lparr>backlogPeak := backlog now, backlogStream := sockStream s\<rparr> else w)"

section \<open>The watch\<close>

text \<open>The dispatcher's counters of packets dropped, steered past stalled sockets, and put into them.\<close>

type_synonym dispatchCounts = "64 word \<times> 64 word \<times> 64 word"

record relaySocketWatch =
  socks :: "(nat \<times> watchedSocket) list"
  arrived :: bool
  watchWindow :: socketWindow
  stallLines :: nat
  lastCounts :: dispatchCounts

datatype socketLine =
    StallLine int string duration watchedSocket bool   \<comment> \<open>stream, relay, how long, the stall, and whether it moves again\<close>
  | BudgetLine
  | SummaryLine socketWindow duration nat "duration list" "(int \<times> duration) list"

definition newRelaySocketWatch :: "dispatchCounts \<Rightarrow> relaySocketWatch" where
  "newRelaySocketWatch counts = \<lparr>socks = [], arrived = False, watchWindow = newWindow zero_time, stallLines = 0, lastCounts = counts\<rparr>"

definition nudge :: "relaySocketWatch \<Rightarrow> relaySocketWatch" where
  "nudge w = w\<lparr>arrived := True\<rparr>"

type_synonym streamStore = "nat \<Rightarrow> dstream"

definition storeStalled :: "nat \<Rightarrow> bool \<Rightarrow> streamStore \<Rightarrow> streamStore" where
  "storeStalled st b h = h(st := (h st)\<lparr>sendStalled := b\<rparr>)"

definition registerSocket :: "nat \<Rightarrow> string \<Rightarrow> nat option \<Rightarrow> streamStore \<Rightarrow> relaySocketWatch \<Rightarrow> relaySocketWatch" where
  "registerSocket st relay conn h w = (case conn of
     None \<Rightarrow> w
   | Some c \<Rightarrow> nudge (w\<lparr>socks := mput c \<lparr>sockStream = strId (h st), sockRelay = relay, sockSt = st, lastSample = noSample,
       sockRun = 0, stalledSince = zero_time, stallTimeouts = 0, stallBacklog = 0, stallProbing = False, stallEpisodic = False\<rparr> (socks w)\<rparr>))"

text \<open>The end of a socket's stall: the lines it prints, and the socket and the watch after it.\<close>

definition endStallLocked ::
  "watchedSocket \<Rightarrow> gtime \<Rightarrow> bool \<Rightarrow> relaySocketWatch \<Rightarrow> socketLine list \<times> watchedSocket \<times> relaySocketWatch" where
  "endStallLocked s now moving w =
    (if is_zero (stalledSince s) then ([], s, w)
     else
       let lasted = tsub now (stalledSince s); s' = s\<lparr>stalledSince := zero_time\<rparr>
       in if lasted < relayStallReportAfter then ([], s', w)
          else
            let win = watchWindow w;
                w = w\<lparr>watchWindow := win\<lparr>stallsEnded := stallsEnded win + 1, longestStall := max lasted (longestStall win)\<rparr>\<rparr>
            in if stallLines w \<ge> relayStallLogBudget then ([], s', w)
               else (StallLine (sockStream s) (sockRelay s) lasted s moving #
                       (if stallLines w + 1 = relayStallLogBudget then [BudgetLine] else []),
                     s', w\<lparr>stallLines := stallLines w + 1\<rparr>))"

definition unregisterSocket ::
  "nat option \<Rightarrow> gtime \<Rightarrow> streamStore \<times> relaySocketWatch \<Rightarrow> socketLine list \<times> streamStore \<times> relaySocketWatch" where
  "unregisterSocket conn now st = (case st of (h, w) \<Rightarrow> (case conn of
     None \<Rightarrow> ([], h, w)
   | Some c \<Rightarrow> (case map_of (socks w) c of
       None \<Rightarrow> ([], h, w)
     | Some s \<Rightarrow>
         (case endStallLocked s now False (w\<lparr>socks := mdel c (socks w)\<rparr>) of (lines, s, w) \<Rightarrow>
           (lines, storeStalled (sockSt s) False h, w)))))"

section \<open>A look at every socket\<close>

definition stallOn :: "relaySocketSample \<Rightarrow> gtime \<Rightarrow> watchedSocket \<Rightarrow> watchedSocket" where
  "stallOn now t s =
    (let s = (if is_zero (stalledSince s) then s\<lparr>stalledSince := t, stallTimeouts := 0, stallBacklog := 0\<rparr> else s)
     in s\<lparr>stallProbing := probing now, stallEpisodic := episodic now,
          stallTimeouts := max (timeouts now) (stallTimeouts s), stallBacklog := max (backlog now) (stallBacklog s)\<rparr>)"

text \<open>What a sample makes of a socket: the sample as it is kept, and the socket before its stall is looked at.\<close>

definition takeSample :: "relaySocketSample \<Rightarrow> watchedSocket \<Rightarrow> relaySocketSample \<times> watchedSocket" where
  "takeSample raw s =
    (let now = clampAcked s raw; n = timeoutsInARow now s; s = keepRun now s; now = now\<lparr>timeouts := n\<rparr>
     in (now, s\<lparr>lastSample := now\<rparr>))"

definition observeSocket ::
  "relaySocketSample option \<Rightarrow> gtime \<Rightarrow> watchedSocket \<Rightarrow> streamStore \<times> relaySocketWatch \<Rightarrow>
    socketLine list \<times> watchedSocket \<times> streamStore \<times> relaySocketWatch" where
  "observeSocket raw t s st = (case st of (h, w) \<Rightarrow> (case raw of
     None \<Rightarrow> ([], s, h, w)
   | Some raw \<Rightarrow>
       let (now, s') = takeSample raw s;
           w = w\<lparr>watchWindow := countSample (clampAcked s raw) s (watchWindow w)\<rparr>;
           h = storeStalled (sockSt s) (timeouts now \<ge> relayStallSkipTimeouts) h
       in if timeouts now > 0 then ([], stallOn now t s', h, w)
          else (case endStallLocked s' t True w of (lines, s', w) \<Rightarrow> (lines, s', h, w))))"

fun observeSockets ::
  "(nat \<Rightarrow> relaySocketSample option) \<Rightarrow> gtime \<Rightarrow> (nat \<times> watchedSocket) list \<Rightarrow> streamStore \<times> relaySocketWatch \<Rightarrow>
    socketLine list \<times> (nat \<times> watchedSocket) list \<times> streamStore \<times> relaySocketWatch" where
  "observeSockets sample t [] st = ([], [], st)"
| "observeSockets sample t ((c, s) # rest) st =
    (case observeSocket (sample c) t s st of (lines, s, st) \<Rightarrow>
      (case observeSockets sample t rest st of (more_lines, rest, st) \<Rightarrow> (lines @ more_lines, (c, s) # rest, st)))"

definition queuePeaks :: "streamStore \<Rightarrow> nat list \<Rightarrow> socketWindow \<Rightarrow> socketWindow" where
  "queuePeaks h streams w =
    fold (\<lambda>i w. let n = length (inQueue (h i)) + length (priorityQueue (h i))
                in if n > queuePeak w then w\<lparr>queuePeak := n, queueStream := strId (h i)\<rparr> else w) streams w"

definition stalledNow :: "gtime \<Rightarrow> watchedSocket list \<Rightarrow> (int \<times> duration) list" where
  "stalledNow now ss = map (\<lambda>s. (sockStream s, tsub now (stalledSince s)))
     (filter (\<lambda>s. \<not> is_zero (stalledSince s) \<and> tsub now (stalledSince s) \<ge> relayStallReportAfter) ss)"

definition flushLocked :: "dispatchCounts \<Rightarrow> gtime \<Rightarrow> relaySocketWatch \<Rightarrow> socketLine list \<times> relaySocketWatch" where
  "flushLocked counts now w =
    (let (d, s, i) = counts; (ld, ls, li) = lastCounts w;
         win = (watchWindow w)\<lparr>drops := counterDelta d ld, steered := counterDelta s ls, intoStalled := counterDelta i li\<rparr>;
         w = w\<lparr>lastCounts := counts, watchWindow := newWindow (if socks w \<noteq> [] then now else zero_time)\<rparr>;
         ss = sort_key sockStream (map snd (socks w));
         rtts = filter (\<lambda>r. r > 0) (map (sampleRtt \<circ> lastSample) ss); still = stalledNow now ss
     in if is_zero (windowStart win) \<or>
           (up win + down win < relayTrafficWorthALine \<and> stallsEnded win = 0 \<and> still = [] \<and>
            drops win = 0 \<and> steered win = 0 \<and> intoStalled win = 0)
        then ([], w)
        else ([SummaryLine win (tsub now (windowStart win)) (length (socks w)) rtts still], w))"

definition observeLocked ::
  "nat list \<Rightarrow> (nat \<Rightarrow> relaySocketSample option) \<Rightarrow> dispatchCounts \<Rightarrow> gtime \<Rightarrow> streamStore \<times> relaySocketWatch \<Rightarrow>
    socketLine list \<times> streamStore \<times> relaySocketWatch" where
  "observeLocked streams sample counts now st =
    (let (h, w) = st;
         w = (if is_zero (windowStart (watchWindow w)) then w\<lparr>watchWindow := (watchWindow w)\<lparr>windowStart := now\<rparr>\<rparr> else w);
         (lines, ss, h, w) = observeSockets sample now (socks w) (h, w);
         w = w\<lparr>socks := ss, watchWindow := queuePeaks h streams (watchWindow w)\<rparr>
     in if tsub now (windowStart (watchWindow w)) \<ge> relaySocketLogInterval
        then (case flushLocked counts now w of (lines', w) \<Rightarrow> (lines @ lines', h, w))
        else (lines, h, w))"

section \<open>The loop\<close>

text \<open>
  A run of the watcher is asleep or ticking; the run of a proxy on its way out may still be there when the next one begins. One
  step of a run asleep takes the pending wake-up; one of a run that ticks finds nothing to watch and goes to sleep, or looks.
\<close>

datatype watcher = Asleep | Ticking | Gone

definition beginRun :: "dispatchCounts \<Rightarrow> relaySocketWatch \<Rightarrow> relaySocketWatch" where
  "beginRun counts w = w\<lparr>watchWindow := newWindow zero_time, stallLines := 0, lastCounts := counts\<rparr>"

definition stepRun ::
  "watcher \<Rightarrow> nat list \<Rightarrow> (nat \<Rightarrow> relaySocketSample option) \<Rightarrow> dispatchCounts \<Rightarrow> gtime \<Rightarrow> streamStore \<times> relaySocketWatch \<Rightarrow>
    socketLine list \<times> watcher \<times> streamStore \<times> relaySocketWatch" where
  "stepRun p streams sample counts now st = (case st of (h, w) \<Rightarrow> (case p of
     Asleep \<Rightarrow> if arrived w then ([], Ticking, h, w\<lparr>arrived := False\<rparr>) else ([], Asleep, h, w)
   | Ticking \<Rightarrow>
       if socks w = [] then (case flushLocked counts now w of (lines, w) \<Rightarrow> (lines, Asleep, h, w))
       else (case observeLocked streams sample counts now st of (lines, st) \<Rightarrow> (lines, Ticking, st))
   | Gone \<Rightarrow> ([], Gone, h, w)))"

definition endRun :: "watcher \<Rightarrow> relaySocketWatch \<Rightarrow> watcher \<times> relaySocketWatch" where
  "endRun p w = (Gone, if p = Gone then w else nudge w)"

end
