(* ===== verification/TcpWatchProps.thy ===== *)
theory TcpWatchProps
  imports TcpWatch Traces
begin

text \<open>
  What the watch on the TCP sockets promises: a mark that takes a stream out of dispatch stands for two silent samples of a socket
  that is still the stream's, no socket goes unwatched, and the lines of a session stay within their budget.
\<close>

section \<open>One socket\<close>

definition looksOf :: "(relaySocketSample option \<times> gtime) list \<Rightarrow> watchedSocket \<times> streamStore \<times> relaySocketWatch
    \<Rightarrow> watchedSocket \<times> streamStore \<times> relaySocketWatch" where
  "looksOf looks st = fold (\<lambda>(raw, t) (s, st). snd (observeSocket raw t s st)) looks st"

definition samplesOf :: "(relaySocketSample option \<times> gtime) list \<Rightarrow> relaySocketSample list" where
  "samplesOf looks = List.map_filter fst looks"

text \<open>The most acknowledged in the samples, the timeout episodes of the last of them, and a tail without an acknowledgement that an
  episode begins.\<close>

definition highAcked :: "relaySocketSample list \<Rightarrow> 64 word" where
  "highAcked rs = fold (\<lambda>r m. max m (acked r)) rs 0"

definition lastEpisodes :: "relaySocketSample list \<Rightarrow> 64 word" where
  "lastEpisodes rs = (if rs = [] then 0 else timeoutEpisodes (last rs))"

definition silentTail :: "relaySocketSample list \<Rightarrow> relaySocketSample list \<Rightarrow> bool" where
  "silentTail ys zs \<longleftrightarrow> zs \<noteq> [] \<and> lastEpisodes ys < timeoutEpisodes (hd zs) \<and>
     (\<forall>z \<in> set zs. backlog z \<noteq> 0 \<and> acked z \<le> highAcked ys)"

definition freshSocket :: "watchedSocket \<Rightarrow> bool" where
  "freshSocket s \<longleftrightarrow> lastSample s = noSample \<and> sockRun s = 0"

lemma highAcked_simps: "highAcked [] = 0" "highAcked (rs @ [r]) = max (highAcked rs) (acked r)"
  by (simp_all add: highAcked_def)

lemma highAcked_mono: "highAcked ys \<le> highAcked (ys @ zs)"
proof (induction zs rule: rev_induct)
  case (snoc z zs)
  then show ?case using highAcked_simps(2) [of "ys @ zs" z] by (simp add: le_max_iff_disj)
qed simp

lemma highAcked_quiet: "\<forall>z \<in> set zs. acked z \<le> highAcked ys \<Longrightarrow> highAcked (ys @ zs) = highAcked ys"
proof (induction zs rule: rev_induct)
  case (snoc z zs)
  then show ?case using highAcked_simps(2) [of "ys @ zs" z] by simp
qed simp

lemma silentTail_snoc:
  "silentTail ys (zs @ [z]) \<longleftrightarrow>
    (if zs = [] then lastEpisodes ys < timeoutEpisodes z else silentTail ys zs) \<and> backlog z \<noteq> 0 \<and> acked z \<le> highAcked ys"
  by (cases zs) (auto simp: silentTail_def)

text \<open>What the watch keeps of a socket between two samples.\<close>

definition keeps :: "relaySocketSample list \<Rightarrow> watchedSocket \<Rightarrow> bool" where
  "keeps rs s \<longleftrightarrow> acked (lastSample s) = highAcked rs \<and> timeoutEpisodes (lastSample s) = lastEpisodes rs \<and>
     0 \<le> sockRun s \<and> (\<forall>k \<ge> 1. int k \<le> sockRun s \<longleftrightarrow> (\<exists>ys zs. rs = ys @ zs \<and> silentTail ys zs \<and> k \<le> length zs))"

lemma keeps_fresh: "freshSocket s \<Longrightarrow> keeps [] s"
  by (auto simp: keeps_def freshSocket_def noSample_def highAcked_simps lastEpisodes_def silentTail_def)

lemma keeps_snoc:
  assumes "keeps rs s" "episodic r" "takeSample r s = (now, s')"
  shows "keeps (rs @ [r]) s' \<and> timeouts now = sockRun s'"
proof -
  have a: "acked (clampAcked s r) = max (highAcked rs) (acked r)" "backlog (clampAcked s r) = backlog r"
    "timeoutEpisodes (clampAcked s r) = timeoutEpisodes r" "episodic (clampAcked s r)"
    using assms(1,2) by (auto simp: clampAcked_def keeps_def max_def)
  define n where "n = timeoutsInARow (clampAcked s r) s"
  have n: "n = (if highAcked rs < acked r \<or> backlog r = 0 then 0
      else if sockRun s > 0 \<or> lastEpisodes rs < timeoutEpisodes r then sockRun s + 1 else sockRun s)"
    using assms(1) a by (auto simp: n_def timeoutsInARow_def keeps_def max_def)
  have s': "now = (clampAcked s r)\<lparr>timeouts := n\<rparr>" "s' = s\<lparr>sockRun := n, lastSample := now\<rparr>"
    using assms(3) a(4) by (auto simp: takeSample_def keepRun_def Let_def n_def)
  have pos: "0 \<le> sockRun s" and iff: "\<And>k. 1 \<le> k \<Longrightarrow> int k \<le> sockRun s \<longleftrightarrow> (\<exists>ys zs. rs = ys @ zs \<and> silentTail ys zs \<and> k \<le> length zs)"
    using assms(1) by (auto simp: keeps_def)
  have run: "int k \<le> n \<longleftrightarrow> (\<exists>ys zs. rs @ [r] = ys @ zs \<and> silentTail ys zs \<and> k \<le> length zs)" if k: "1 \<le> k" for k
  proof
    assume le: "int k \<le> n"
    then have q: "acked r \<le> highAcked rs" "backlog r \<noteq> 0" using k n by (auto split: if_splits simp: not_less)
    show "\<exists>ys zs. rs @ [r] = ys @ zs \<and> silentTail ys zs \<and> k \<le> length zs"
    proof (cases "sockRun s > 0")
      case True
      then have ns: "n = sockRun s + 1" using n q by auto
      obtain ys zs where z: "rs = ys @ zs" "silentTail ys zs" "nat (sockRun s) \<le> length zs"
        using iff [of "nat (sockRun s)"] True by (auto simp: Suc_le_eq)
      have "highAcked rs = highAcked ys" using z by (simp add: silentTail_def highAcked_quiet)
      then have "silentTail ys (zs @ [r])" using q z(2) by (simp add: silentTail_snoc silentTail_def)
      moreover have "k \<le> length (zs @ [r])" using le ns z(3) by simp
      ultimately show ?thesis using z(1) by (intro exI [of _ ys] exI [of _ "zs @ [r]"]) simp
    next
      case False
      then have "k = 1" "lastEpisodes rs < timeoutEpisodes r" using le n q pos k by (auto split: if_splits)
      then have "silentTail rs [r]" using q by (simp add: silentTail_def)
      then show ?thesis using \<open>k = 1\<close> by (intro exI [of _ rs] exI [of _ "[r]"]) simp
    qed
  next
    assume "\<exists>ys zs. rs @ [r] = ys @ zs \<and> silentTail ys zs \<and> k \<le> length zs"
    then obtain ys zs where z: "rs @ [r] = ys @ zs" "silentTail ys zs" "k \<le> length zs" by blast
    then obtain zs' where zs': "zs = zs' @ [r]" "rs = ys @ zs'"
      by (cases zs rule: rev_cases) (auto simp: silentTail_def)
    have t: "if zs' = [] then lastEpisodes ys < timeoutEpisodes r else silentTail ys zs'" "backlog r \<noteq> 0" "acked r \<le> highAcked ys"
      using z(2) zs'(1) by (auto simp: silentTail_snoc)
    have "acked r \<le> highAcked rs" using t(3) highAcked_mono [of ys zs'] zs'(2) by simp
    then have q: "\<not> (highAcked rs < acked r \<or> backlog r = 0)" using t(2) by (simp add: not_less)
    show "int k \<le> n"
    proof (cases "zs' = []")
      case True
      then have "lastEpisodes rs < timeoutEpisodes r" using t(1) zs'(2) by simp
      then have "n = sockRun s + 1" using n q by simp
      then show ?thesis using z(3) zs'(1) True pos by simp
    next
      case False
      then have "silentTail ys zs'" "1 \<le> length zs'" using t(1) by (simp_all add: Suc_le_eq)
      then have "int (length zs') \<le> sockRun s" using iff [of "length zs'"] zs'(2) by blast
      moreover have "0 < sockRun s" using \<open>int (length zs') \<le> sockRun s\<close> \<open>1 \<le> length zs'\<close> by linarith
      ultimately show ?thesis using n q z(3) zs'(1) by simp
    qed
  qed
  have "keeps (rs @ [r]) s'"
    using run a s' n pos by (simp add: keeps_def highAcked_simps lastEpisodes_def)
  then show ?thesis using s' by simp
qed

lemma endStallLocked_fields:
  assumes "endStallLocked s t moving w = (lines, s', w')"
  shows "lastSample s' = lastSample s" "sockRun s' = sockRun s" "sockSt s' = sockSt s" "socks w' = socks w" "arrived w' = arrived w"
  using assms by (auto simp: endStallLocked_def Let_def split: if_splits)

lemma observeSocket_fields:
  assumes "observeSocket (Some r) t s (h, w) = (lines, s', h', w')" "takeSample r s = (now, s1)"
  shows "lastSample s' = now" "sockRun s' = sockRun s1" "sockSt s' = sockSt s"
    "h' = storeStalled (sockSt s) (timeouts now \<ge> relayStallSkipTimeouts) h" "socks w' = socks w" "arrived w' = arrived w"
proof -
  have s1: "lastSample s1 = now" "sockSt s1 = sockSt s" using assms(2) by (auto simp: takeSample_def keepRun_def Let_def)
  have "lastSample s' = lastSample s1 \<and> sockRun s' = sockRun s1 \<and> sockSt s' = sockSt s1 \<and>
      h' = storeStalled (sockSt s) (timeouts now \<ge> relayStallSkipTimeouts) h \<and> socks w' = socks w \<and> arrived w' = arrived w"
    using assms endStallLocked_fields
    by (fastforce simp: observeSocket_def Let_def stallOn_def split: if_splits prod.splits)
  with s1 show "lastSample s' = now" "sockRun s' = sockRun s1" "sockSt s' = sockSt s"
    "h' = storeStalled (sockSt s) (timeouts now \<ge> relayStallSkipTimeouts) h" "socks w' = socks w" "arrived w' = arrived w" by auto
qed

lemma looksOf_simps:
  "looksOf [] st = st"
  "looksOf (looks @ [(raw, t)]) st = (case looksOf looks st of (s, h, w) \<Rightarrow> snd (observeSocket raw t s (h, w)))"
  "samplesOf [] = []"
  "samplesOf (looks @ [(raw, t)]) = samplesOf looks @ (case raw of None \<Rightarrow> [] | Some r \<Rightarrow> [r])"
  by (auto simp: looksOf_def samplesOf_def List.map_filter_def split: option.splits prod.splits)

lemma looks_keep:
  assumes "freshSocket s0" "looksOf looks (s0, h0, w0) = (s, h, w)" "\<forall>r \<in> set (samplesOf looks). episodic r"
  shows "keeps (samplesOf looks) s \<and> sockSt s = sockSt s0 \<and>
    (samplesOf looks \<noteq> [] \<longrightarrow> sendStalled (h (sockSt s)) = (sockRun s \<ge> relayStallSkipTimeouts))"
  using assms(2,3)
proof (induction looks arbitrary: s h w rule: rev_induct)
  case Nil
  then show ?case using keeps_fresh [OF assms(1)] by (simp add: looksOf_simps)
next
  case (snoc look looks)
  obtain raw t where look: "look = (raw, t)" by (cases look)
  obtain s1 h1 w1 where l1: "looksOf looks (s0, h0, w0) = (s1, h1, w1)" by (cases "looksOf looks (s0, h0, w0)") auto
  have e: "\<forall>r \<in> set (samplesOf looks). episodic r" using snoc.prems(2) look by (simp add: looksOf_simps)
  note IH = snoc.IH [OF l1 e]
  show ?case
  proof (cases raw)
    case None
    then show ?thesis using snoc.prems(1) look l1 IH by (auto simp: looksOf_simps observeSocket_def)
  next
    case (Some r)
    obtain lines where o: "observeSocket (Some r) t s1 (h1, w1) = (lines, s, h, w)"
      using snoc.prems(1) look l1 Some by (cases "observeSocket (Some r) t s1 (h1, w1)") (auto simp: looksOf_simps)
    obtain now s2 where k: "takeSample r s1 = (now, s2)" by (cases "takeSample r s1")
    have r: "episodic r" "samplesOf (looks @ [look]) = samplesOf looks @ [r]"
      using snoc.prems(2) look Some by (simp_all add: looksOf_simps)
    have k2: "keeps (samplesOf looks @ [r]) s2" "timeouts now = sockRun s2" using keeps_snoc [OF _ r(1) k] IH by auto
    have "keeps (samplesOf looks @ [r]) s"
      using k2(1) observeSocket_fields(1,2) [OF o k] k by (auto simp: keeps_def takeSample_def Let_def)
    then show ?thesis using k2(2) r(2) observeSocket_fields [OF o k] IH by (simp add: storeStalled_def)
  qed
qed

text \<open>
  C15. On a system that counts only the episodes of timeouts, a look at a socket leaves its stream out of dispatch exactly if the
  last two samples or more acknowledged nothing, with something waiting, and an episode of timeouts began with the first of
  them; on one that keeps the run of timeouts, exactly if that run is two or more. Looks the system did not answer change nothing.
\<close>

theorem stalled_after_two_silent_samples:
  assumes "freshSocket s0" "looksOf (looks @ [(Some r, t)]) (s0, h0, w0) = (s, h, w)"
  shows "(\<not> episodic r \<longrightarrow> sendStalled (h (sockSt s0)) = (timeouts r \<ge> 2)) \<and>
    ((\<forall>q \<in> set (samplesOf looks @ [r]). episodic q) \<longrightarrow> sendStalled (h (sockSt s0)) =
      (\<exists>ys zs. samplesOf looks @ [r] = ys @ zs \<and> silentTail ys zs \<and> 2 \<le> length zs))"
proof (intro conjI impI)
  obtain s1 h1 w1 where l1: "looksOf looks (s0, h0, w0) = (s1, h1, w1)" by (cases "looksOf looks (s0, h0, w0)") auto
  have st: "sockSt s1 = sockSt s0" using l1
  proof (induction looks arbitrary: s1 h1 w1 rule: rev_induct)
    case (snoc look looks)
    obtain raw t' s2 h2 w2 where l2: "look = (raw, t')" "looksOf looks (s0, h0, w0) = (s2, h2, w2)"
      by (cases look, cases "looksOf looks (s0, h0, w0)") auto
    have "sockSt s1 = sockSt s2"
      using snoc.prems l2 observeSocket_fields(3) [of _ t' s2 h2 w2]
      by (cases raw; cases "observeSocket raw t' s2 (h2, w2)"; cases "takeSample (the raw) s2")
        (auto simp: looksOf_simps observeSocket_def [of None])
    then show ?case using snoc.IH [OF l2(2)] by simp
  qed (simp add: looksOf_simps)
  show "sendStalled (h (sockSt s0)) = (timeouts r \<ge> 2)" if "\<not> episodic r"
  proof -
    obtain lines where o: "observeSocket (Some r) t s1 (h1, w1) = (lines, s, h, w)"
      using assms(2) l1 by (cases "observeSocket (Some r) t s1 (h1, w1)") (auto simp: looksOf_simps)
    obtain now s2 where k: "takeSample r s1 = (now, s2)" by (cases "takeSample r s1")
    have "timeouts now = timeouts r" using k that by (auto simp: takeSample_def timeoutsInARow_def clampAcked_def Let_def)
    then show ?thesis using observeSocket_fields(4) [OF o k] st by (simp add: storeStalled_def go_consts)
  qed
  show "sendStalled (h (sockSt s0)) = (\<exists>ys zs. samplesOf looks @ [r] = ys @ zs \<and> silentTail ys zs \<and> 2 \<le> length zs)"
    if e: "\<forall>q \<in> set (samplesOf looks @ [r]). episodic q"
  proof -
    note l = looks_keep [OF assms, unfolded looksOf_simps option.case relayStallSkipTimeouts_def]
    have st: "sockSt s = sockSt s0" using l e by blast
    have "keeps (samplesOf looks @ [r]) s" "sendStalled (h (sockSt s0)) = (sockRun s \<ge> 2)" using l [OF e] unfolding st by blast+
    then show ?thesis unfolding keeps_def by (metis of_nat_numeral one_le_numeral)
  qed
qed

definition aSample :: "bool \<Rightarrow> 64 word \<Rightarrow> int \<Rightarrow> 64 word \<Rightarrow> relaySocketSample" where
  "aSample ep ack waiting episodes = noSample\<lparr>episodic := ep, acked := ack, backlog := waiting, timeoutEpisodes := episodes\<rparr>"

definition aSocket :: watchedSocket where
  "aSocket = \<lparr>sockStream = 4, sockRelay = ''relay'', sockSt = 0, lastSample = noSample, sockRun = 0, stalledSince = zero_time,
     stallTimeouts = 0, stallBacklog = 0, stallProbing = False, stallEpisodic = False\<rparr>"

definition aStream :: dstream where
  "aStream = \<lparr>strId = 4, strReady = True, strActivity = None, strOverTCP = True, sendStalled = False, inQueue = [], priorityQueue = []\<rparr>"

lemma stalled_after_two_silent_samples_witness:
  "let looks = [(Some (aSample True 100 0 0), second), (Some (aSample True 100 9 1), 2 * second), (None, 3 * second)];
     st = (aSocket, \<lambda>_. aStream, newRelaySocketWatch (0, 0, 0))
   in sendStalled (fst (snd (looksOf (looks @ [(Some (aSample True 90 9 1), 4 * second)]) st)) 0) \<and>
      \<not> sendStalled (fst (snd (looksOf (looks @ [(Some (aSample True 101 9 2), 4 * second)]) st)) 0)"
proof -
  let ?looks = "[(Some (aSample True 100 0 0), second), (Some (aSample True 100 9 1), 2 * second), (None, 3 * second)]"
  let ?st = "(aSocket, \<lambda>_. aStream, newRelaySocketWatch (0, 0, 0))"
  have f: "freshSocket aSocket" "sockSt aSocket = 0" by (simp_all add: freshSocket_def aSocket_def)
  have e: "\<not> episodic (aSample True 101 9 2) = False" "samplesOf ?looks = [aSample True 100 0 0, aSample True 100 9 1]"
    "episodic (aSample True a b c)" for a b c
    by (simp_all add: aSample_def samplesOf_def List.map_filter_def)
  have iff: "sendStalled (fst (snd (looksOf (?looks @ [(Some r, 4 * second)]) ?st)) 0) =
      (\<exists>ys zs. [aSample True 100 0 0, aSample True 100 9 1] @ [r] = ys @ zs \<and> silentTail ys zs \<and> 2 \<le> length zs)" if "episodic r" for r
  proof -
    obtain s h w where l: "looksOf (?looks @ [(Some r, 4 * second)]) ?st = (s, h, w)"
      by (cases "looksOf (?looks @ [(Some r, 4 * second)]) ?st") auto
    show ?thesis
      using stalled_after_two_silent_samples [OF f(1) l] that e unfolding l by (simp add: f(2))
  qed
  have "sendStalled (fst (snd (looksOf (?looks @ [(Some (aSample True 90 9 1), 4 * second)]) ?st)) 0)"
    unfolding iff [OF e(3)]
    by (intro exI [of _ "[aSample True 100 0 0]"] exI [of _ "[aSample True 100 9 1, aSample True 90 9 1]"])
      (simp add: silentTail_def lastEpisodes_def highAcked_def aSample_def)
  moreover have "\<not> sendStalled (fst (snd (looksOf (?looks @ [(Some (aSample True 101 9 2), 4 * second)]) ?st)) 0)"
    unfolding iff [OF e(3)]
    by (auto simp: append_eq_Cons_conv Cons_eq_append_conv silentTail_def lastEpisodes_def highAcked_def aSample_def)
  ultimately show ?thesis by (simp add: Let_def)
qed

section \<open>All sockets, and the watchers\<close>

datatype tcpOp = Register nat string nat | Unregister nat gtime | Begin dispatchCounts
  | StepWatcher nat "nat list" "nat \<Rightarrow> relaySocketSample option" dispatchCounts gtime | EndWatcher nat

type_synonym tcpState = "watcher list \<times> streamStore \<times> relaySocketWatch"

fun tcpStep :: "tcpOp \<Rightarrow> tcpState \<Rightarrow> socketLine list \<times> tcpState" where
  "tcpStep (Register st relay c) (ps, h, w) = ([], ps, h, registerSocket st relay (Some c) h w)"
| "tcpStep (Unregister c now) (ps, h, w) = (case unregisterSocket (Some c) now (h, w) of (lines, h, w) \<Rightarrow> (lines, ps, h, w))"
| "tcpStep (Begin counts) (ps, h, w) = ([], ps @ [Asleep], h, beginRun counts w)"
| "tcpStep (StepWatcher i streams sample counts now) (ps, h, w) =
    (if i < length ps then
       (case stepRun (ps ! i) streams sample counts now (h, w) of (lines, p, h, w) \<Rightarrow> (lines, ps[i := p], h, w))
     else ([], ps, h, w))"
| "tcpStep (EndWatcher i) (ps, h, w) =
    (if i < length ps then (case endRun (ps ! i) w of (p, w) \<Rightarrow> ([], ps[i := p], h, w)) else ([], ps, h, w))"

definition stalledSocket :: "nat \<Rightarrow> watchedSocket \<Rightarrow> bool" where
  "stalledSocket st s \<longleftrightarrow> sockSt s = st \<and> timeouts (lastSample s) \<ge> relayStallSkipTimeouts"

definition markedBy :: "streamStore \<Rightarrow> watchedSocket list \<Rightarrow> bool" where
  "markedBy h ss \<longleftrightarrow> (\<forall>st. sendStalled (h st) \<longrightarrow> list_ex (stalledSocket st) ss)"

lemma observeSockets_frame:
  "observeSockets sample t ss (h, w) = (lines, ss', h', w') \<Longrightarrow> map fst ss' = map fst ss \<and> socks w' = socks w \<and> arrived w' = arrived w"
proof (induction ss arbitrary: h w lines ss' h' w')
  case (Cons cs ss)
  obtain c s where cs: "cs = (c, s)" by (cases cs)
  obtain l1 s1 h1 w1 where o: "observeSocket (sample c) t s (h, w) = (l1, s1, h1, w1)" by (cases "observeSocket (sample c) t s (h, w)") auto
  obtain l2 ss2 h2 w2 where r: "observeSockets sample t ss (h1, w1) = (l2, ss2, h2, w2)"
    by (cases "observeSockets sample t ss (h1, w1)") auto
  have "socks w1 = socks w \<and> arrived w1 = arrived w"
  proof (cases "sample c")
    case None
    then show ?thesis using o by (simp add: observeSocket_def)
  next
    case (Some r)
    then show ?thesis using observeSocket_fields(5,6) [of r t s h w l1 s1 h1 w1 "fst (takeSample r s)" "snd (takeSample r s)"] o by simp
  qed
  then show ?case using Cons.prems cs o r Cons.IH [OF r] by auto
qed simp

text \<open>A look keeps the marks in step with the samples: sockets already looked at in \<open>done\<close>, those to come in \<open>ss\<close>.\<close>

lemma observeSockets_marked:
  "\<lbrakk>observeSockets sample t ss (h, w) = (lines, ss', h', w'); markedBy h (dn @ map snd ss)\<rbrakk> \<Longrightarrow> markedBy h' (dn @ map snd ss')"
proof (induction ss arbitrary: h w lines ss' h' w' dn)
  case (Cons cs ss)
  obtain c s where cs: "cs = (c, s)" by (cases cs)
  obtain l1 s1 h1 w1 where o: "observeSocket (sample c) t s (h, w) = (l1, s1, h1, w1)" by (cases "observeSocket (sample c) t s (h, w)") auto
  obtain l2 ss2 h2 w2 where r: "observeSockets sample t ss (h1, w1) = (l2, ss2, h2, w2)"
    by (cases "observeSockets sample t ss (h1, w1)") auto
  have "markedBy h1 ((dn @ [s1]) @ map snd ss)"
  proof (cases "sample c")
    case None
    then show ?thesis using o cs Cons.prems(2) by (simp add: observeSocket_def)
  next
    case (Some q)
    obtain now s0 where k: "takeSample q s = (now, s0)" by (cases "takeSample q s")
    have f: "lastSample s1 = now" "sockSt s1 = sockSt s" "h1 = storeStalled (sockSt s) (timeouts now \<ge> relayStallSkipTimeouts) h"
      using observeSocket_fields [OF o [unfolded Some] k] by blast+
    show ?thesis unfolding markedBy_def
    proof (intro allI impI)
      fix st assume m: "sendStalled (h1 st)"
      show "list_ex (stalledSocket st) ((dn @ [s1]) @ map snd ss)"
      proof (cases "st = sockSt s")
        case True
        then show ?thesis using m f by (simp add: storeStalled_def stalledSocket_def)
      next
        case False
        then have "list_ex (stalledSocket st) (dn @ map snd (cs # ss))" using m f(3) Cons.prems(2) by (simp add: storeStalled_def markedBy_def)
        then show ?thesis using False cs by (auto simp: stalledSocket_def)
      qed
    qed
  qed
  then have "markedBy h2 ((dn @ [s1]) @ map snd ss2)" by (rule Cons.IH [OF r])
  then show ?case using Cons.prems(1) cs o r by auto
qed simp

lemma flushLocked_frame:
  assumes "flushLocked counts now w = (lines, w')"
  shows "socks w' = socks w" "arrived w' = arrived w" "stallLines w' = stallLines w"
  using assms by (auto simp: flushLocked_def Let_def split: prod.splits if_splits)

lemma observe_shape:
  assumes "observeLocked streams sample counts now (h, w) = (lines, h', w')"
  obtains l1 l2 w1 w2 w3 where "socks w1 = socks w" "arrived w1 = arrived w" "stallLines w1 = stallLines w"
    "observeSockets sample now (socks w) (h, w1) = (l1, socks w', h', w2)" "stallLines w3 = stallLines w2" "arrived w3 = arrived w2"
    "lines = l1 @ l2" "l2 = [] \<and> w' = w3 \<or> flushLocked counts now w3 = (l2, w')"
proof -
  let ?w1 = "if is_zero (windowStart (watchWindow w)) then w\<lparr>watchWindow := (watchWindow w)\<lparr>windowStart := now\<rparr>\<rparr> else w"
  have f: "socks ?w1 = socks w" "arrived ?w1 = arrived w" "stallLines ?w1 = stallLines w" by simp_all
  obtain l1 ss h2 w2 where o: "observeSockets sample now (socks ?w1) (h, ?w1) = (l1, ss, h2, w2)"
    by (cases "observeSockets sample now (socks ?w1) (h, ?w1)") auto
  let ?w3 = "w2\<lparr>socks := ss, watchWindow := queuePeaks h2 streams (watchWindow w2)\<rparr>"
  show ?thesis
  proof (cases "tsub now (windowStart (watchWindow ?w3)) \<ge> relaySocketLogInterval")
    case True
    obtain l2 w4 where fl: "flushLocked counts now ?w3 = (l2, w4)" by (cases "flushLocked counts now ?w3")
    have e: "lines = l1 @ l2" "h' = h2" "w' = w4" using assms o fl True by (simp_all add: observeLocked_def Let_def)
    show ?thesis
      by (rule that [OF f, of l1 w2 ?w3 l2]) (use e o fl flushLocked_frame [OF fl] in \<open>simp_all split: if_splits\<close>)
  next
    case False
    have e: "lines = l1" "h' = h2" "w' = ?w3" using assms o False by (auto simp: observeLocked_def Let_def)
    show ?thesis by (rule that [OF f, of l1 w2 ?w3 "[]"]) (use e o in \<open>simp_all split: if_splits\<close>)
  qed
qed

definition registered :: "(tcpOp \<times> socketLine list) list \<Rightarrow> nat list" where
  "registered tr = List.map_filter (\<lambda>(q, _). case q of Register _ _ c \<Rightarrow> Some c | _ \<Rightarrow> None) tr"

lemma registered_snoc:
  "registered (tr @ [(q, lines)]) = registered tr @ (case q of Register _ _ c \<Rightarrow> [c] | _ \<Rightarrow> [])"
  by (auto simp: registered_def List.map_filter_def split: tcpOp.splits)

definition marksTrue :: "(tcpOp \<times> socketLine list) list \<Rightarrow> tcpState \<Rightarrow> bool" where
  "marksTrue tr st \<longleftrightarrow> (case st of (ps, h, w) \<Rightarrow> distinct (registered tr) \<longrightarrow>
     markedBy h (map snd (socks w)) \<and> distinct (map fst (socks w)) \<and> set (map fst (socks w)) \<subseteq> set (registered tr))"

definition allWatched :: "tcpState \<Rightarrow> bool" where
  "allWatched st \<longleftrightarrow> (case st of (ps, h, w) \<Rightarrow> socks w \<noteq> [] \<longrightarrow> arrived w \<or> Ticking \<in> set ps)"

lemma mput_new: "c \<notin> set (map fst xs) \<Longrightarrow> mput c v xs = xs @ [(c, v)]"
  by (induction xs) auto

lemma markedBy_unregister:
  assumes "markedBy h (map snd ss)" "distinct (map fst ss)" "map_of ss c = Some s"
  shows "markedBy (storeStalled (sockSt s) False h) (map snd (mdel c ss))"
  unfolding markedBy_def
proof (intro allI impI)
  fix st assume m: "sendStalled (storeStalled (sockSt s) False h st)"
  then have n: "st \<noteq> sockSt s" "sendStalled (h st)" by (auto simp: storeStalled_def split: if_splits)
  then obtain d s' where d: "(d, s') \<in> set ss" "stalledSocket st s'" using assms(1) by (fastforce simp: markedBy_def list_ex_iff)
  have "d \<noteq> c"
  proof
    assume "d = c"
    then have "s' = s" using map_of_is_SomeI [OF assms(2)] d(1) assms(3) by simp
    then show False using d(2) n(1) by (simp add: stalledSocket_def)
  qed
  then have "(d, s') \<in> set (mdel c ss)" using d(1) by (auto simp: AList.delete_eq)
  then show "list_ex (stalledSocket st) (map snd (mdel c ss))" using d(2) by (force simp: list_ex_iff)
qed

lemma unregister_frame:
  assumes "unregisterSocket (Some c) now (h, w) = (lines, h', w')"
  shows "(case map_of (socks w) c of None \<Rightarrow> h' = h \<and> w' = w | Some s \<Rightarrow> h' = storeStalled (sockSt s) False h \<and> socks w' = mdel c (socks w))"
    "arrived w' = arrived w"
  using assms endStallLocked_fields(3,4,5) by (fastforce simp: unregisterSocket_def split: option.splits prod.splits)+

lemma tcpStep_marks:
  assumes "marksTrue tr st" "tcpStep q st = (lines, st')"
  shows "marksTrue (tr @ [(q, lines)]) st'"
proof -
  obtain ps h w ps' h' w' where st: "st = (ps, h, w)" "st' = (ps', h', w')" by (cases st, cases st')
  have inv: "distinct (registered tr) \<Longrightarrow> markedBy h (map snd (socks w)) \<and> distinct (map fst (socks w)) \<and>
      set (map fst (socks w)) \<subseteq> set (registered tr)"
    using assms(1) st by (simp add: marksTrue_def)
  show ?thesis
  proof (cases q)
    case (Register k relay c)
    then have s: "h' = h" "\<exists>s. socks w' = mput c s (socks w)"
      using assms(2) st by (auto simp: registerSocket_def nudge_def)
    then obtain s where s: "h' = h" "socks w' = mput c s (socks w)" by blast
    show ?thesis unfolding marksTrue_def st prod.case
    proof
      assume d: "distinct (registered (tr @ [(q, lines)]))"
      then have i: "distinct (registered tr)" "c \<notin> set (registered tr)" using Register by (simp_all add: registered_snoc)
      have "c \<notin> set (map fst (socks w))" using inv [OF i(1)] i(2) by blast
      then have "socks w' = socks w @ [(c, s)]" using s(2) mput_new [of c "socks w" s] by simp
      then show "markedBy h' (map snd (socks w')) \<and> distinct (map fst (socks w')) \<and>
          set (map fst (socks w')) \<subseteq> set (registered (tr @ [(q, lines)]))"
        using inv [OF i(1)] i(2) s(1) Register by (auto simp: markedBy_def registered_snoc)
    qed
  next
    case (Unregister c now)
    then obtain l where u: "unregisterSocket (Some c) now (h, w) = (l, h', w')"
      using assms(2) st by (auto split: prod.splits)
    show ?thesis
    proof (cases "map_of (socks w) c")
      case None
      then show ?thesis using unregister_frame(1) [OF u] inv st Unregister by (simp add: marksTrue_def registered_snoc)
    next
      case (Some s)
      then have f: "h' = storeStalled (sockSt s) False h" "socks w' = mdel c (socks w)" using unregister_frame(1) [OF u] by simp_all
      show ?thesis unfolding marksTrue_def st prod.case
      proof
        assume "distinct (registered (tr @ [(q, lines)]))"
        then have i: "distinct (registered tr)" using Unregister by (simp add: registered_snoc)
        show "markedBy h' (map snd (socks w')) \<and> distinct (map fst (socks w')) \<and>
            set (map fst (socks w')) \<subseteq> set (registered (tr @ [(q, lines)]))"
          using inv [OF i] markedBy_unregister [OF _ _ Some] f Unregister
          by (auto simp: registered_snoc AList.delete_eq distinct_map_filter)
      qed
    qed
  next
    case (Begin counts)
    then have "h' = h \<and> socks w' = socks w" using assms(2) st by (auto simp: beginRun_def)
    then show ?thesis using inv st Begin by (simp add: marksTrue_def registered_snoc)
  next
    case (StepWatcher i streams sample counts now)
    have "(h' = h \<and> socks w' = socks w) \<or> (\<exists>l. observeLocked streams sample counts now (h, w) = (l, h', w'))"
      using assms(2) st StepWatcher flushLocked_frame(1)
      by (fastforce simp: stepRun_def split: if_splits watcher.splits prod.splits)
    then show ?thesis
    proof
      assume "h' = h \<and> socks w' = socks w"
      then show ?thesis using inv st StepWatcher by (simp add: marksTrue_def registered_snoc)
    next
      assume "\<exists>l. observeLocked streams sample counts now (h, w) = (l, h', w')"
      then obtain l where o: "observeLocked streams sample counts now (h, w) = (l, h', w')" by blast
      obtain l1 w1 w2 where s: "observeSockets sample now (socks w) (h, w1) = (l1, socks w', h', w2)" by (rule observe_shape [OF o])
      show ?thesis
        using inv observeSockets_frame [OF s] observeSockets_marked [OF s, of "[]"] st StepWatcher
        by (simp add: marksTrue_def registered_snoc) (metis list.set_map)
    qed
  next
    case (EndWatcher i)
    then have "h' = h \<and> socks w' = socks w" using assms(2) st by (auto simp: endRun_def nudge_def split: if_splits)
    then show ?thesis using inv st EndWatcher by (simp add: marksTrue_def registered_snoc)
  qed
qed

lemma tcpStep_watched:
  assumes "allWatched st" "tcpStep q st = (lines, st')"
  shows "allWatched st'"
proof -
  obtain ps h w ps' h' w' where st: "st = (ps, h, w)" "st' = (ps', h', w')" by (cases st, cases st')
  have inv: "socks w \<noteq> [] \<Longrightarrow> arrived w \<or> Ticking \<in> set ps" using assms(1) st by (simp add: allWatched_def)
  show ?thesis
  proof (cases q)
    case (Register k relay c)
    then show ?thesis using assms(2) st by (auto simp: allWatched_def registerSocket_def nudge_def)
  next
    case (Unregister c now)
    then have u: "unregisterSocket (Some c) now (h, w) = (lines, h', w')" and p: "ps' = ps"
      using assms(2) st by (auto split: prod.splits)
    have "socks w' \<noteq> [] \<longrightarrow> socks w \<noteq> []" using unregister_frame(1) [OF u] by (auto split: option.splits)
    then show ?thesis using inv st p unregister_frame(2) [OF u] by (simp add: allWatched_def)
  next
    case (Begin counts)
    then show ?thesis using assms(2) st inv by (auto simp: allWatched_def beginRun_def)
  next
    case (StepWatcher i streams sample counts now)
    show ?thesis
    proof (cases "i < length ps")
      case True
      obtain p where s: "stepRun (ps ! i) streams sample counts now (h, w) = (lines, p, h', w')" and p: "ps' = ps[i := p]"
        using assms(2) st StepWatcher True by (auto split: prod.splits)
      have mem: "p \<in> set (ps[i := p])" using True by (simp add: set_update_memI)
      show ?thesis
      proof (cases "p = Ticking")
        case True
        then show ?thesis using mem p st by (simp add: allWatched_def)
      next
        case False
        then have "ps ! i = p \<and> w' = w \<or> socks w' = []"
          using s flushLocked_frame(1) by (fastforce simp: stepRun_def split: if_splits watcher.splits prod.splits)
        then show ?thesis using inv st p by (auto simp: allWatched_def)
      qed
    next
      case False
      then show ?thesis using assms(2) st StepWatcher inv by (simp add: allWatched_def)
    qed
  next
    case (EndWatcher i)
    then have "arrived w' \<or> (ps' = ps \<and> w' = w)"
      using assms(2) st by (auto simp: endRun_def nudge_def list_update_same_conv split: if_splits)
    then show ?thesis using inv st by (auto simp: allWatched_def)
  qed
qed

interpretation tcp: traced tcpStep "\<lambda>tr st. marksTrue tr st \<and> allWatched st" "\<lambda>q. True"
  by unfold_locales (use tcpStep_marks tcpStep_watched in blast)

text \<open>
  C16. However sockets come and go, watchers look at them, and the watchers of one proxy overlap with those of the next: a stream is
  out of dispatch only while a socket of its own, still registered, was silent through its last samples; and while there is a
  socket to watch, a watcher ticks, or a wake-up waits for the next one to take, which then ticks.
\<close>

theorem no_mark_outlives_its_socket:
  assumes "traceRun tcpStep ops ([], h0, newRelaySocketWatch counts) = (tr, ps, h, w)"
    and "\<forall>st. \<not> sendStalled (h0 st)" "distinct (registered tr)"
  shows "(sendStalled (h st) \<longrightarrow> (\<exists>(c, s) \<in> set (socks w). sockSt s = st \<and> timeouts (lastSample s) \<ge> 2)) \<and>
    (socks w \<noteq> [] \<longrightarrow> Ticking \<in> set ps \<or>
      (arrived w \<and> fst (snd (stepRun Asleep streams sample now t (h, w))) = Ticking))"
proof -
  have "marksTrue [] ([], h0, newRelaySocketWatch counts) \<and> allWatched ([], h0, newRelaySocketWatch counts)"
    using assms(2) by (simp add: marksTrue_def allWatched_def markedBy_def newRelaySocketWatch_def)
  from tcp.run_establishes [OF assms(1) this] have i: "markedBy h (map snd (socks w))" "socks w \<noteq> [] \<Longrightarrow> arrived w \<or> Ticking \<in> set ps"
    using assms(3) by (simp_all add: marksTrue_def allWatched_def)
  have "arrived w \<Longrightarrow> fst (snd (stepRun Asleep streams sample now t (h, w))) = Ticking" by (simp add: stepRun_def)
  moreover have "sendStalled (h st) \<Longrightarrow> \<exists>(c, s) \<in> set (socks w). sockSt s = st \<and> timeouts (lastSample s) \<ge> 2"
    using i(1) by (fastforce simp: markedBy_def stalledSocket_def list_ex_iff go_consts)
  ultimately show ?thesis using i(2) by blast
qed

lemma no_mark_outlives_its_socket_witness:
  "let sample = (\<lambda>c :: nat. Some ((aSample False 0 9 0)\<lparr>timeouts := 3\<rparr>));
     ops = [Begin (0, 0, 0), Register 0 ''relay'' 7, StepWatcher 0 [0] sample (0, 0, 0) second, StepWatcher 0 [0] sample (0, 0, 0) (2 * second)];
     st = snd (traceRun tcpStep ops ([], \<lambda>_. aStream, newRelaySocketWatch (0, 0, 0)))
   in fst st = [Ticking] \<and> sendStalled (fst (snd st) 0) \<and>
      (\<exists>(c, s) \<in> set (socks (snd (snd st))). sockSt s = 0 \<and> timeouts (lastSample s) \<ge> 2)"
proof -
  let ?sample = "\<lambda>c :: nat. Some ((aSample False 0 9 0)\<lparr>timeouts := 3\<rparr>)"
  let ?ops = "[Begin (0, 0, 0), Register 0 ''relay'' 7, StepWatcher 0 [0] ?sample (0, 0, 0) second,
      StepWatcher 0 [0] ?sample (0, 0, 0) (2 * second)]"
  obtain tr ps h w where r: "traceRun tcpStep ?ops ([], \<lambda>_. aStream, newRelaySocketWatch (0, 0, 0)) = (tr, ps, h, w)"
    by (cases "traceRun tcpStep ?ops ([], \<lambda>_. aStream, newRelaySocketWatch (0, 0, 0))") auto
  have c: "let r = traceRun tcpStep ?ops ([], \<lambda>_. aStream, newRelaySocketWatch (0, 0, 0)) in
      fst (snd r) = [Ticking] \<and> sendStalled (fst (snd (snd r)) 0) \<and> registered (fst r) = [7]"
    by code_simp
  have f: "ps = [Ticking]" "sendStalled (h 0)" "distinct (registered tr)" using c unfolding r by (simp_all add: Let_def)
  have "\<forall>st. \<not> sendStalled ((\<lambda>_ :: nat. aStream) st)" by (simp add: aStream_def)
  from no_mark_outlives_its_socket [OF r this f(3), of 0 "[]" "\<lambda>_. None" "(0, 0, 0)" 0] f(2)
  have "\<exists>(c, s) \<in> set (socks w). sockSt s = 0 \<and> timeouts (lastSample s) \<ge> 2" by blast
  then show ?thesis using f(1,2) unfolding Let_def r by simp
qed

end
