(* ===== verification/WakeProbe.thy ===== *)
theory WakeProbe
  imports Feedback NetGate
begin

text \<open>
  The probe after a wake or a thaw (\<open>pkg/proxy/wake_probe.go\<close>): each stream asks its relay whether it is still there, and judges the
  answer by what the running process could hear, not by the clock. The wake of the host is an epoch; the probe's rule is one
  step per poll; the probe is the sequence of its polls with the packets that arrive between them. The random spread before a
  burst and the log lines are left out.
\<close>

definition wakeProbeWindow :: duration where "wakeProbeWindow = 30 * second"
definition wakeProbeResendEvery :: duration where "wakeProbeResendEvery = second"
definition wakeProbeFreezeStep :: duration where "wakeProbeFreezeStep = second"
definition wakeProbeThrottle :: duration where "wakeProbeThrottle = 30 * second"
definition wakeProbeRecentEcho :: duration where "wakeProbeRecentEcho = 5 * second"
definition wakeProbeSendRetries :: nat where "wakeProbeSendRetries = 5"

lemmas wake_probe_consts [go_consts] = wakeProbeWindow_def wakeProbeResendEvery_def wakeProbeFreezeStep_def wakeProbeThrottle_def
  wakeProbeRecentEcho_def wakeProbeSendRetries_def

section \<open>The packets\<close>

definition isStunKeepalive :: "byte list \<Rightarrow> bool" where
  "isStunKeepalive b \<longleftrightarrow> length b = 20 \<and> b ! 4 = 0x21 \<and> b ! 5 = 0x12 \<and> b ! 6 = 0xA4 \<and> b ! 7 = 0x42"

definition stunProbe :: "64 word \<Rightarrow> byte list" where
  "stunProbe sq = copyAt 12 (putBE 8 (unat sq)) stunBindingIndication"

definition stunProbeSeq :: "byte list \<Rightarrow> 64 word" where
  "stunProbeSeq b = of_nat (beNat (slice 12 20 b))"

definition isStunProbeEcho :: "byte list \<Rightarrow> bool" where
  "isStunProbeEcho b \<longleftrightarrow> isStunKeepalive b \<and> or (or (or (b ! 8) (b ! 9)) (b ! 10)) (b ! 11) = 0"

definition noteProbeEcho :: "byte list \<Rightarrow> streamActivity \<Rightarrow> streamActivity" where
  "noteProbeEcho b a = (if isStunProbeEcho b then notePong (stunProbeSeq b) a else a)"

section \<open>The rule\<close>

datatype probeVerdict = ProbeWait | ProbeResend | ProbeThawed | ProbeEchoed | ProbeDead

record probeState =
  firstPing :: "64 word"
  owed :: bool
  listened :: duration
  sinceSend :: duration
  resends :: int
  freezes :: int

definition newProbeState :: probeState where
  "newProbeState = \<lparr>firstPing = 0, owed = False, listened = 0, sinceSend = 0, resends = 0, freezes = 0\<rparr>"

definition probeStep :: "duration \<Rightarrow> 64 word \<Rightarrow> probeState \<Rightarrow> probeVerdict \<times> probeState" where
  "probeStep took pongMark s =
    (if took > wakeProbeFreezeStep then
       (ProbeThawed, s\<lparr>freezes := freezes s + 1, resends := resends s + 1, sinceSend := 0\<rparr>)
     else if owed s then
       (let s = s\<lparr>sinceSend := sinceSend s + took\<rparr>
        in if sinceSend s < wakeProbeResendEvery then (ProbeWait, s)
           else (ProbeResend, s\<lparr>resends := resends s + 1, sinceSend := 0\<rparr>))
     else if pongMark \<ge> firstPing s then (ProbeEchoed, s)
     else
       (let s = s\<lparr>listened := listened s + took, sinceSend := sinceSend s + took\<rparr>
        in if sinceSend s < wakeProbeResendEvery then (ProbeWait, s)
           else if listened s \<ge> wakeProbeWindow then (ProbeDead, s)
           else (ProbeResend, s\<lparr>resends := resends s + 1, sinceSend := 0\<rparr>)))"

definition wakeProbeDue :: "netGate \<Rightarrow> streamActivity \<Rightarrow> gtime \<Rightarrow> gtime \<Rightarrow> bool" where
  "wakeProbeDue g a lastProbeAt now =
    (let evidence = (if lastProbeAt > lastHeard a then lastProbeAt else lastHeard a)
     in if networkLeftSince evidence g then True
        else if \<not> is_zero lastProbeAt \<and> tsub now lastProbeAt < wakeProbeThrottle then False
        else heardAge a now \<ge> wakeProbeRecentEcho)"

section \<open>The probe\<close>

text \<open>The write of a ping fails, or is over at an instant, a wake of the host having crossed it or not.\<close>

datatype pingWrite = WriteFailed | Written gtime bool

record probeRun =
  rule :: probeState
  stepStart :: gtime
  rebasedAt :: gtime
  sendFails :: nat
  pingSeq :: "64 word"

text \<open>\<open>pingFresh\<close>: the tries left, the writes of the pings in turn; whether a wake crossed one, whether it gives up, and the pings.\<close>

primrec pingTries ::
  "nat \<Rightarrow> pingWrite list \<Rightarrow> bool \<Rightarrow> probeRun \<times> streamActivity \<Rightarrow>
    (bool \<times> bool \<times> (64 word \<times> pingWrite) list) \<times> probeRun \<times> streamActivity" where
  "pingTries 0 ws crossed st = ((True, False, []), (fst st)\<lparr>rule := (rule (fst st))\<lparr>owed := True\<rparr>\<rparr>, snd st)"
| "pingTries (Suc n) ws crossed st =
    (let sq = pingSeq (fst st) + 1; r = (fst st)\<lparr>pingSeq := sq\<rparr>; a = (snd st)\<lparr>probeSent := sq\<rparr>
     in (case (case ws of [] \<Rightarrow> WriteFailed | w # _ \<Rightarrow> w) of
           WriteFailed \<Rightarrow>
             let r = r\<lparr>sendFails := sendFails r + 1, rule := (rule r)\<lparr>owed := True\<rparr>\<rparr>
             in ((crossed, sendFails r \<ge> wakeProbeSendRetries, [(sq, WriteFailed)]), r, a)
         | Written t woke \<Rightarrow>
             let r = r\<lparr>stepStart := t, sendFails := 0\<rparr>
             in if \<not> woke then ((crossed, False, [(sq, Written t woke)]), r\<lparr>rule := (rule r)\<lparr>owed := False\<rparr>\<rparr>, a)
                else (case pingTries n (tl ws) True (r\<lparr>rule := (rule r)\<lparr>freezes := freezes (rule r) + 1\<rparr>\<rparr>, a) of
                  ((crossed, gaveUp, pings), st) \<Rightarrow> ((crossed, gaveUp, (sq, Written t woke) # pings), st))))"

definition pingFresh ::
  "pingWrite list \<Rightarrow> probeRun \<times> streamActivity \<Rightarrow>
    (bool \<times> bool \<times> (64 word \<times> pingWrite) list) \<times> probeRun \<times> streamActivity" where
  "pingFresh ws st = pingTries 3 ws False st"

datatype probeResult = ProbeAlive "64 word" | ProbeGone "64 word" | ProbeFailed

definition startProbe ::
  "gtime \<Rightarrow> 64 word \<Rightarrow> pingWrite list \<Rightarrow> streamActivity \<Rightarrow>
    probeResult option \<times> (64 word \<times> pingWrite) list \<times> probeRun \<times> streamActivity" where
  "startProbe now sq ws a =
    (case pingFresh ws (\<lparr>rule = newProbeState, stepStart = now, rebasedAt = zero_time, sendFails = 0, pingSeq = sq\<rparr>, a) of
       ((crossed, gaveUp, pings), r, a) \<Rightarrow>
         if gaveUp then (Some ProbeFailed, pings, r, a)
         else (None, pings, r\<lparr>rule := (rule r)\<lparr>firstPing := pingSeq r\<rparr>, rebasedAt := stepStart r\<rparr>, a))"

text \<open>
  Between two polls packets arrive, an echo among them or not; a poll reads the clock and the epoch of wakes, and has the
  writes of the pings it may send; or the context ends.
\<close>

datatype probeEvent = Arrives gtime "byte list" | Poll gtime "64 word" "pingWrite list" | Cancelled

datatype probeNote = Heard | Polled duration bool probeVerdict "(64 word \<times> pingWrite) list" | Ended

definition pollProbe ::
  "gtime \<Rightarrow> 64 word \<Rightarrow> pingWrite list \<Rightarrow> probeRun \<times> streamActivity \<Rightarrow>
    (probeResult option \<times> probeNote) \<times> probeRun \<times> streamActivity" where
  "pollProbe now epoch ws st =
    (let (r, a) = st; took = tsub now (stepStart r); wasOwed = owed (rule r);
         (v, s) = probeStep took (lastPong a) (rule r);
         r = r\<lparr>stepStart := now, rule := s\<rparr>
     in (case v of
           ProbeWait \<Rightarrow> ((None, Polled took wasOwed v []), r, a)
         | ProbeEchoed \<Rightarrow> ((Some (ProbeAlive epoch), Polled took wasOwed v []), r, a)
         | ProbeDead \<Rightarrow>
             ((Some (if lastHeard a > rebasedAt r then ProbeAlive epoch else ProbeGone epoch), Polled took wasOwed v []), r, a)
         | _ \<Rightarrow>
             let a = (if v = ProbeThawed then resetLiveness now a else a)
             in (case pingFresh ws (r, a) of ((crossed, gaveUp, pings), r, a) \<Rightarrow>
                   ((if gaveUp then Some ProbeFailed else None, Polled took wasOwed v pings),
                    if \<not> gaveUp \<and> (v = ProbeThawed \<or> crossed \<or> wasOwed)
                    then r\<lparr>rule := (rule r)\<lparr>firstPing := pingSeq r\<rparr>, rebasedAt := stepStart r\<rparr> else r,
                    a))))"

fun probeEventStep ::
  "probeEvent \<Rightarrow> probeRun \<times> streamActivity \<Rightarrow> (probeResult option \<times> probeNote) \<times> probeRun \<times> streamActivity" where
  "probeEventStep (Arrives now b) (r, a) = ((None, Heard), r, noteProbeEcho b (noteRx now a))"
| "probeEventStep (Poll now epoch ws) st = pollProbe now epoch ws st"
| "probeEventStep Cancelled st = ((Some ProbeFailed, Ended), st)"

fun probeOn ::
  "probeEvent list \<Rightarrow> probeRun \<times> streamActivity \<Rightarrow> probeResult option \<times> probeNote list \<times> probeRun \<times> streamActivity" where
  "probeOn [] st = (None, [], st)"
| "probeOn (ev # evs) st = (case probeEventStep ev st of ((res, note), st) \<Rightarrow>
     (case res of Some _ \<Rightarrow> (res, [note], st)
      | None \<Rightarrow> (case probeOn evs st of (res, notes, st) \<Rightarrow> (res, note # notes, st))))"

definition runWakeProbe ::
  "gtime \<Rightarrow> 64 word \<Rightarrow> pingWrite list \<Rightarrow> probeEvent list \<Rightarrow> streamActivity \<Rightarrow>
    probeResult option \<times> (64 word \<times> pingWrite) list \<times> probeNote list \<times> probeRun \<times> streamActivity" where
  "runWakeProbe now sq ws evs a = (case startProbe now sq ws a of
     (Some res, pings, st) \<Rightarrow> (Some res, pings, [], st)
   | (None, pings, st) \<Rightarrow> (case probeOn evs st of (res, notes, st) \<Rightarrow> (res, pings, notes, st)))"

end
