(* ===== verification/KeepaliveLoop.thy ===== *)
theory KeepaliveLoop
  imports WakeProbe
begin

text \<open>
  The loop that keeps a stream alive and finds it dead (\<open>runKeepalive\<close> of \<open>pkg/proxy/turn-client.go\<close>). A turn has two halves, before and
  after its wait, and packets may arrive between them; a probe taken in a turn has its own events. What is written, checked and
  reported is the output of a half. The lines of the log and the repeat's instant kept for them are left out.
\<close>

definition keepaliveSendRetry :: duration where "keepaliveSendRetry = 5 * second"
definition freezeSlack :: duration where "freezeSlack = 20 * second"
definition keepaliveEchoRetry :: duration where "keepaliveEchoRetry = 3 * second"

lemmas keepalive_loop_consts [go_consts] = keepaliveSendRetry_def freezeSlack_def keepaliveEchoRetry_def

record keepaliveLoop =
  retryAt :: gtime
  echoAt :: gtime
  echoFor :: gtime
  keepTick :: nat
  probeSeq :: "64 word"
  lastProbeAt :: gtime
  wakeServed :: "64 word"

definition newKeepaliveLoop :: "64 word \<Rightarrow> keepaliveLoop" where
  "newKeepaliveLoop epoch = \<lparr>retryAt = zero_time, echoAt = zero_time, echoFor = zero_time, keepTick = 0, probeSeq = 0,
     lastProbeAt = zero_time, wakeServed = epoch\<rparr>"

datatype loopPhase = AtTop | Waits gtime gtime keepaliveWakeReason gtime   \<comment> \<open>start, deadline, reason, the grid point\<close>
  | InProbe | LoopEnds

datatype keepaliveAct = AllocCheck string | GridKeepalive gtime | SendTick nat bool | RepeatTick nat bool
  | Probed "probeResult option" "probeNote list"
  | FoundDead duration bool bool   \<comment> \<open>how long the relay has been silent, by the probe or the detector, over a freeze or not\<close>

text \<open>
  A probe as the loop takes it: when its clock starts, the writes of its first pings and its events, when the loop reads the clock after
  it and whether its context has ended by then. Without a way to write pings none is taken.
\<close>

record probeWorld =
  probeAble :: bool
  probeClock :: gtime
  firstWrites :: "pingWrite list"
  probeEvents :: "probeEvent list"
  afterProbe :: gtime
  ctxEnded :: bool

definition takeProbe ::
  "gtime \<Rightarrow> probeWorld \<Rightarrow> keepaliveLoop \<times> streamActivity \<Rightarrow> (loopPhase \<times> keepaliveAct list) \<times> keepaliveLoop \<times> streamActivity" where
  "takeProbe now pw st = (case st of (l, a) \<Rightarrow>
     if \<not> probeAble pw then ((AtTop, []), l, a)
     else (case runWakeProbe (probeClock pw) (probeSeq l) (firstWrites pw) (probeEvents pw) a of (res, pings, ns, r, a) \<Rightarrow>
       let l = l\<lparr>probeSeq := pingSeq r\<rparr>; did = Probed res ns
       in (case res of
             None \<Rightarrow> ((InProbe, [did]), l, a)
           | Some ProbeFailed \<Rightarrow>
               ((AtTop, [did]), l\<lparr>lastProbeAt := afterProbe pw,
                 retryAt := (if ctxEnded pw then retryAt l else afterProbe pw + keepaliveSendRetry)\<rparr>, a)
           | Some (ProbeAlive e) \<Rightarrow> ((AtTop, [did]), l\<lparr>lastProbeAt := now, wakeServed := e\<rparr>, a)
           | Some (ProbeGone e) \<Rightarrow>
               ((LoopEnds, [did, FoundDead (heardAge a (afterProbe pw)) True (frozeSinceHeard a)]),
                l\<lparr>lastProbeAt := now, wakeServed := e\<rparr>, a))))"

text \<open>
  The first half: a wake not served yet is probed, or served without; else the wait is set. The clock is read for the question, and
  again after the spread. A probe whose events have not brought it to a result leaves the loop in it.
\<close>

definition topHalf ::
  "64 word \<Rightarrow> netGate \<Rightarrow> gtime \<Rightarrow> bool \<Rightarrow> gtime \<Rightarrow> probeWorld \<Rightarrow> keepaliveLoop \<times> streamActivity \<Rightarrow>
    (loopPhase \<times> keepaliveAct list) \<times> keepaliveLoop \<times> streamActivity" where
  "topHalf epoch g now spread probeAt pw st = (case st of (l, a) \<Rightarrow>
     if epoch \<noteq> wakeServed l then
       (if wakeProbeDue g a (lastProbeAt l) now then
          (if \<not> spread then ((LoopEnds, [AllocCheck ''wake'']), l, a)
           else (case takeProbe probeAt pw (l, a) of ((p, acts), st) \<Rightarrow>
             ((p, AllocCheck ''wake'' # acts), st)))
        else ((AtTop, []), l\<lparr>wakeServed := epoch\<rparr>, a))
     else
       (case nextDeadline a now (retryAt l) (echoAt l) of (deadline, why) \<Rightarrow>
         ((Waits now deadline why (nextKeepaliveGrid now (actPhase a)), []), l, a)))"

text \<open>
  The second half, at \<open>now\<close> after a wait from \<open>before\<close>: the wait was ended by the context, by a wake or by its time; what a write answers;
  and, after a freeze, the spread and the clock after it.
\<close>

record wakeWorld =
  waitOk :: bool
  wokeEarly :: bool
  waitBefore :: gtime
  waitNow :: gtime
  sendOk :: bool
  thawSpread :: bool
  thawNow :: gtime
  thawProbe :: probeWorld

definition sendKeepalive :: "gtime \<Rightarrow> bool \<Rightarrow> keepaliveLoop \<Rightarrow> keepaliveAct list \<times> keepaliveLoop" where
  "sendKeepalive now ok l =
    ([SendTick (keepTick l) ok],
     l\<lparr>keepTick := keepTick l + 1, retryAt := (if ok then zero_time else now + keepaliveSendRetry)\<rparr>)"

definition thawHalf ::
  "wakeWorld \<Rightarrow> keepaliveLoop \<times> streamActivity \<Rightarrow> (loopPhase \<times> keepaliveAct list) \<times> keepaliveLoop \<times> streamActivity" where
  "thawHalf w st =
    (let (l, a) = st; a = resetLiveness (waitNow w) a; l = l\<lparr>echoAt := zero_time\<rparr>
     in if \<not> thawSpread w then ((LoopEnds, [AllocCheck ''thaw'']), l, a)
        else
          let acts = [AllocCheck ''thaw'', GridKeepalive (thawNow w)]; (sent, l) = sendKeepalive (thawNow w) (sendOk w) l
          in if \<not> sendOk w then ((AtTop, acts @ sent), l, a)
             else (case takeProbe (thawNow w) (thawProbe w) (l, a) of ((p, probed), st) \<Rightarrow>
               ((p, acts @ sent @ probed), st)))"

text \<open>A repeat or a retry that comes only past the grid point it was due before serves the grid point.\<close>

definition servedReason :: "keepaliveWakeReason \<Rightarrow> gtime \<Rightarrow> gtime \<Rightarrow> keepaliveWakeReason" where
  "servedReason why gridAt now = (if why \<noteq> GridWake \<and> now \<ge> gridAt then GridWake else why)"

definition dueHalf ::
  "keepaliveWakeReason \<Rightarrow> gtime \<Rightarrow> wakeWorld \<Rightarrow> keepaliveLoop \<times> streamActivity \<Rightarrow>
    (loopPhase \<times> keepaliveAct list) \<times> keepaliveLoop \<times> streamActivity" where
  "dueHalf why gridAt w st =
    (let (l, a) = st; now = waitNow w;
         l = (if why \<noteq> GridWake \<and> now \<ge> gridAt then l\<lparr>echoAt := zero_time\<rparr> else l);
         why = servedReason why gridAt now
     in (case why of
           DeadCheckWake \<Rightarrow> ((AtTop, []), l, a)
         | EchoRetryWake \<Rightarrow>
             let l = l\<lparr>echoAt := zero_time\<rparr>
             in if \<not> echoMissed a (echoFor l) then ((AtTop, []), l, a)
                else if sendOk w then ((AtTop, [RepeatTick (keepTick l) True]), l\<lparr>keepTick := keepTick l + 1\<rparr>, a)
                else ((AtTop, [RepeatTick (keepTick l) False]), l\<lparr>retryAt := now + keepaliveSendRetry\<rparr>, a)
         | _ \<Rightarrow>
             (case sendKeepalive now (sendOk w) l of (sent, l) \<Rightarrow>
               ((AtTop, (if why = GridWake then [GridKeepalive now] else []) @ sent),
                (if sendOk w then l\<lparr>echoFor := now, echoAt := now + keepaliveEchoRetry\<rparr> else l\<lparr>echoAt := zero_time\<rparr>), a))))"

definition wakeHalf ::
  "keepaliveWakeReason \<Rightarrow> gtime \<Rightarrow> wakeWorld \<Rightarrow> keepaliveLoop \<times> streamActivity \<Rightarrow>
    (loopPhase \<times> keepaliveAct list) \<times> keepaliveLoop \<times> streamActivity" where
  "wakeHalf why gridAt w st =
    (if \<not> waitOk w then ((LoopEnds, []), st)
     else if tsub (waitNow w) (waitBefore w) > keepaliveInterval + freezeSlack then thawHalf w st
     else if wokeEarly w then ((AtTop, []), st)
     else if rxAge (snd st) (waitNow w) \<ge> deadStreamTimeout then
       ((LoopEnds, [FoundDead (heardAge (snd st) (waitNow w)) False (frozeSinceHeard (snd st))]), st)
     else dueHalf why gridAt w st)"

text \<open>The loop's steps, with the packets that arrive between them.\<close>

datatype loopEvent = RxPacket gtime "byte list" | TopHalf "64 word" netGate gtime bool gtime probeWorld | WakeHalf wakeWorld

fun loopStep ::
  "loopEvent \<Rightarrow> loopPhase \<times> keepaliveLoop \<times> streamActivity \<Rightarrow>
    keepaliveAct list \<times> loopPhase \<times> keepaliveLoop \<times> streamActivity" where
  "loopStep (RxPacket now b) (p, l, a) = ([], p, l, noteProbeEcho b (noteRx now a))"
| "loopStep (TopHalf epoch g now spread probeAt pw) (p, l, a) = (case p of
     AtTop \<Rightarrow> (case topHalf epoch g now spread probeAt pw (l, a) of ((p, acts), l, a) \<Rightarrow> (acts, p, l, a))
   | _ \<Rightarrow> ([], p, l, a))"
| "loopStep (WakeHalf w) (p, l, a) = (case p of
     Waits start deadline why gridAt \<Rightarrow> (case wakeHalf why gridAt w (l, a) of ((p, acts), l, a) \<Rightarrow> (acts, p, l, a))
   | _ \<Rightarrow> ([], p, l, a))"

end
