(* ===== verification/WakeProbeProps.thy ===== *)
theory WakeProbeProps
  imports WakeProbe
begin

text \<open>
  What the probe after a wake promises: a stream is given up only after thirty seconds of listening in which nothing was heard, only
  an echo of a ping that still counts saves it, and listening that is not disturbed comes to a verdict.
\<close>

section \<open>The pings that count\<close>

text \<open>
  Those written since the last freeze, the last wake that crossed a write, and the last write that failed.
\<close>

definition standPings :: "64 word list \<Rightarrow> (64 word \<times> pingWrite) list \<Rightarrow> 64 word list" where
  "standPings S pings = fold (\<lambda>(q, w) S. case w of Written t woke \<Rightarrow> if woke then [] else S @ [q] | WriteFailed \<Rightarrow> []) pings S"

definition standNote :: "probeNote \<Rightarrow> 64 word list \<Rightarrow> 64 word list" where
  "standNote nt S = (case nt of Polled took ow v pings \<Rightarrow> standPings (if v = ProbeThawed then [] else S) pings | _ \<Rightarrow> S)"

definition standing :: "(64 word \<times> pingWrite) list \<Rightarrow> probeNote list \<Rightarrow> 64 word list" where
  "standing pings ns = fold standNote ns (standPings [] pings)"

text \<open>The time listened: the polls that were no freeze, with no ping owed, and no answer.\<close>

definition listenedIn :: "probeNote list \<Rightarrow> duration" where
  "listenedIn ns = sum_list (map (\<lambda>nt. case nt of
     Polled took ow v pings \<Rightarrow> if took \<le> second \<and> \<not> ow \<and> v \<noteq> ProbeEchoed then took else 0 | _ \<Rightarrow> 0) ns)"

definition pingsOf :: "probeNote list \<Rightarrow> (64 word \<times> pingWrite) list" where
  "pingsOf ns = concat (map (\<lambda>nt. case nt of Polled took ow v pings \<Rightarrow> pings | _ \<Rightarrow> []) ns)"

definition failedLast :: "(64 word \<times> pingWrite) list \<Rightarrow> nat" where
  "failedLast pings = length (takeWhile (\<lambda>p. snd p = WriteFailed) (rev pings))"

lemma failedLast_simps:
  "failedLast [] = 0"
  "failedLast (ps @ [(q, WriteFailed)]) = failedLast ps + 1"
  "failedLast (ps @ [(q, Written t woke)]) = 0"
  by (simp_all add: failedLast_def)

lemma standPings_simps:
  "standPings S [] = S"
  "standPings S ((q, WriteFailed) # ps) = standPings [] ps"
  "standPings S ((q, Written t woke) # ps) = standPings (if woke then [] else S @ [q]) ps"
  by (simp_all add: standPings_def)

lemma pingTries_spec:
  assumes "pingTries n ws crossed (r, a) = ((cr, gaveUp, pings), r', a')"
  shows "pingSeq r' = pingSeq r + of_nat (length pings) \<and> length pings \<le> n \<and> (n > 0 \<longrightarrow> pings \<noteq> []) \<and>
    a' = (if n = 0 then a else a\<lparr>probeSent := pingSeq r'\<rparr>) \<and> rebasedAt r' = rebasedAt r \<and>
    listened (rule r') = listened (rule r) \<and> sinceSend (rule r') = sinceSend (rule r) \<and> firstPing (rule r') = firstPing (rule r) \<and>
    ((n = 0 \<or> crossed \<longrightarrow> S = []) \<longrightarrow> standPings S pings = (if owed (rule r') then [] else (if cr \<and> \<not> crossed then [] else S) @ [pingSeq r'])) \<and>
    (sendFails r = failedLast P \<longrightarrow> sendFails r' = failedLast (P @ pings)) \<and>
    (gaveUp \<longrightarrow> sendFails r' \<ge> 5) \<and> (crossed \<longrightarrow> cr) \<and> (\<not> cr \<longrightarrow> length pings \<le> 1)"
  using assms
proof (induction n arbitrary: ws crossed r a cr gaveUp pings r' a' S P)
  case 0
  then show ?case by (auto simp: standPings_simps)
next
  case (Suc n)
  let ?q = "pingSeq r + 1"
  define w where "w = (case ws of [] \<Rightarrow> WriteFailed | w # _ \<Rightarrow> w)"
  show ?case
  proof (cases w)
    case WriteFailed
    then show ?thesis using Suc.prems
      by (auto simp: w_def [symmetric] Let_def standPings_simps failedLast_simps go_consts)
  next
    case (Written t woke)
    show ?thesis
    proof (cases woke)
      case False
      then show ?thesis using Suc.prems Written
        by (auto simp: w_def [symmetric] Let_def standPings_simps failedLast_simps)
    next
      case True
      let ?r = "r\<lparr>pingSeq := ?q, stepStart := t, sendFails := 0, rule := (rule r)\<lparr>freezes := freezes (rule r) + 1\<rparr>\<rparr>"
      obtain cr1 gu1 ps1 r1 a1 where p: "pingTries n (tl ws) True (?r, a\<lparr>probeSent := ?q\<rparr>) = ((cr1, gu1, ps1), r1, a1)"
        by (cases "pingTries n (tl ws) True (?r, a\<lparr>probeSent := ?q\<rparr>)") auto
      have e: "cr = cr1" "gaveUp = gu1" "pings = (?q, Written t woke) # ps1" "r' = r1" "a' = a1"
        using Suc.prems Written True p by (simp_all add: w_def [symmetric] Let_def)
      have IH: "pingSeq r1 = ?q + of_nat (length ps1)" "length ps1 \<le> n"
          "a1 = (if n = 0 then a\<lparr>probeSent := ?q\<rparr> else a\<lparr>probeSent := pingSeq r1\<rparr>)" "rebasedAt r1 = rebasedAt r"
          "listened (rule r1) = listened (rule r)" "sinceSend (rule r1) = sinceSend (rule r)" "firstPing (rule r1) = firstPing (rule r)"
          "standPings [] ps1 = (if owed (rule r1) then [] else [pingSeq r1])"
          "sendFails r1 = failedLast ((P @ [(?q, Written t woke)]) @ ps1)" "gu1 \<longrightarrow> sendFails r1 \<ge> 5" "cr1"
        using Suc.IH [OF p, of "[]" "P @ [(?q, Written t woke)]"] by (auto simp: failedLast_simps)
      have "n = 0 \<Longrightarrow> pingSeq r1 = ?q" using IH(1,2) by (cases ps1) auto
      then have a1: "a1 = a\<lparr>probeSent := pingSeq r1\<rparr>" using IH(3) by auto
      show ?thesis using e IH(1,2,4-) a1 True by (auto simp: standPings_simps)
    qed
  qed
qed

lemma pingFresh_spec:
  assumes "pingFresh ws (r, a) = ((cr, gaveUp, pings), r', a')"
  shows "pingSeq r' = pingSeq r + of_nat (length pings)" "length pings \<le> 3" "pings \<noteq> []" "a' = a\<lparr>probeSent := pingSeq r'\<rparr>"
    "rebasedAt r' = rebasedAt r" "listened (rule r') = listened (rule r)" "sinceSend (rule r') = sinceSend (rule r)"
    "firstPing (rule r') = firstPing (rule r)"
    "standPings S pings = (if owed (rule r') then [] else (if cr then [] else S) @ [pingSeq r'])"
    "sendFails r = failedLast P \<Longrightarrow> sendFails r' = failedLast (P @ pings)" "gaveUp \<Longrightarrow> sendFails r' \<ge> 5"
    "\<not> cr \<Longrightarrow> length pings = 1"
  using pingTries_spec [OF assms [unfolded pingFresh_def], of S P] by (auto simp: le_Suc_eq)

lemma word_interval_snoc:
  fixes f s :: "64 word"
  assumes "unat s + 1 < 2 ^ 64" "f \<le> s"
  shows "{f..s + 1} = insert (s + 1) {f..s}" "f \<le> s + 1"
proof -
  have u: "unat (s + 1) = unat s + 1" using assms(1) by (simp add: unat_word_ariths)
  have "x \<le> s + 1 \<longleftrightarrow> x \<le> s \<or> x = s + 1" for x
    using u by (auto simp: word_le_nat_alt word_unat_eq_iff)
  then show "{f..s + 1} = insert (s + 1) {f..s}" "f \<le> s + 1" using assms(2) by auto
qed

definition probeInv :: "64 word \<Rightarrow> (64 word \<times> pingWrite) list \<Rightarrow> probeNote list \<Rightarrow> probeRun \<times> streamActivity \<Rightarrow> bool" where
  "probeInv sq pings ns st \<longleftrightarrow> (case st of (r, a) \<Rightarrow>
     listened (rule r) = listenedIn ns \<and>
     (if owed (rule r) then standing pings ns = []
      else set (standing pings ns) = {firstPing (rule r)..pingSeq r} \<and> firstPing (rule r) \<le> pingSeq r) \<and>
     unat (pingSeq r) = unat sq + length (pings @ pingsOf ns) \<and> length (pings @ pingsOf ns) \<le> 3 * (1 + length ns) \<and>
     lastPong a \<le> pingSeq r \<and> probeSent a = pingSeq r \<and> sendFails r = failedLast (pings @ pingsOf ns))"

lemma notes_snoc:
  "standing pings (ns @ [nt]) = standNote nt (standing pings ns)"
  "listenedIn (ns @ [nt]) = listenedIn ns + listenedIn [nt]"
  "pingsOf (ns @ [nt]) = pingsOf ns @ pingsOf [nt]"
  "standing pings [] = standPings [] pings" "listenedIn [] = 0" "pingsOf [] = []"
  by (simp_all add: standing_def listenedIn_def pingsOf_def)

text \<open>The pings of one call, after whatever counted before it.\<close>

lemma pingFresh_counts:
  assumes "pingFresh ws (r, a) = ((cr, gaveUp, pings), r', a')" "unat (pingSeq r) = n" "n + 3 < 2 ^ 64"
    and "rebase \<longrightarrow> S = []" "\<not> rebase \<Longrightarrow> \<not> cr \<Longrightarrow> set S = {firstPing (rule r)..pingSeq r} \<and> firstPing (rule r) \<le> pingSeq r"
  shows "unat (pingSeq r') = n + length pings \<and>
    (if owed (rule r') then standPings S pings = []
     else set (standPings S pings) = {(if rebase \<or> cr then pingSeq r' else firstPing (rule r'))..pingSeq r'} \<and>
       (if rebase \<or> cr then pingSeq r' else firstPing (rule r')) \<le> pingSeq r')"
proof -
  note p = pingFresh_spec [OF assms(1)]
  have u: "unat (pingSeq r') = n + length pings"
    using p(1,2) assms(2,3) by (simp add: unat_word_ariths unat_of_nat)
  show ?thesis
  proof (cases "owed (rule r') \<or> rebase \<or> cr")
    case True
    then show ?thesis using u p(9) [of S] assms(4) by auto
  next
    case False
    then have s: "pingSeq r' = pingSeq r + 1" "set S = {firstPing (rule r)..pingSeq r}" "firstPing (rule r) \<le> pingSeq r"
      using p(1,12) assms(5) by auto
    have "unat (pingSeq r) + 1 < 2 ^ 64" using assms(2,3) by simp
    then have "{firstPing (rule r)..pingSeq r'} = insert (pingSeq r') {firstPing (rule r)..pingSeq r} \<and> firstPing (rule r) \<le> pingSeq r'"
      using word_interval_snoc [of "pingSeq r" "firstPing (rule r)"] s by simp
    then show ?thesis using False u p(8) p(9) [of S] s(2) by auto
  qed
qed

lemma probeInv_start:
  assumes "startProbe now sq ws a0 = (None, pings, r, a)" "lastPong a0 \<le> sq" "unat sq + 3 < 2 ^ 64"
  shows "probeInv sq pings [] (r, a)"
proof -
  let ?r = "\<lparr>rule = newProbeState, stepStart = now, rebasedAt = zero_time, sendFails = 0, pingSeq = sq\<rparr>"
  obtain cr gu r1 where p: "pingFresh ws (?r, a0) = ((cr, gu, pings), r1, a)"
    and r: "r = r1\<lparr>rule := (rule r1)\<lparr>firstPing := pingSeq r1\<rparr>, rebasedAt := stepStart r1\<rparr>"
    using assms(1) by (auto simp: startProbe_def split: prod.splits if_splits)
  note s = pingFresh_spec [OF p]
  have c: "unat (pingSeq r1) = unat sq + length pings \<and>
    (if owed (rule r1) then standPings [] pings = [] else set (standPings [] pings) = {pingSeq r1..pingSeq r1})"
    using pingFresh_counts [OF p, of "unat sq" True "[]"] assms(3) by (auto split: if_splits)
  have "sq \<le> pingSeq r1" using c by (simp add: word_le_nat_alt)
  then show ?thesis
    using c r s(2,4,6) s(10) [of "[]"] assms(2)
    by (auto simp: probeInv_def notes_snoc newProbeState_def failedLast_simps)
qed

section \<open>A poll\<close>

lemma probeStep_cases:
  assumes "probeStep took mark s = (v, s')"
  shows "owed s' = owed s" "firstPing s' = firstPing s"
    "listened s' = listened s + (if took \<le> second \<and> \<not> owed s \<and> v \<noteq> ProbeEchoed then took else 0)"
    "v = ProbeThawed \<longleftrightarrow> took > second" "v = ProbeEchoed \<Longrightarrow> \<not> owed s \<and> mark \<ge> firstPing s"
    "v = ProbeDead \<Longrightarrow> \<not> owed s \<and> mark < firstPing s \<and> listened s' \<ge> 30 * second"
  using assms by (auto simp: probeStep_def Let_def wake_probe_consts split: if_splits)

lemma probeInv_pings:
  assumes "probeInv sq pings ns (r, a)"
    and "probeStep took (lastPong a) (rule r) = (v, s)" "ws_r = r\<lparr>stepStart := now, rule := s\<rparr>"
    and "pingFresh ws (ws_r, a1) = ((cr, gu, ps), r1, a2)" "lastPong a1 = lastPong a"
    and "nt = Polled took (owed (rule r)) v ps" "unat sq + 3 * (2 + length ns) < 2 ^ 64"
    and "r' = (if v = ProbeThawed \<or> cr \<or> owed (rule r) then r1\<lparr>rule := (rule r1)\<lparr>firstPing := pingSeq r1\<rparr>, rebasedAt := stepStart r1\<rparr> else r1)"
  shows "probeInv sq pings (ns @ [nt]) (r', a2)"
proof -
  note p = pingFresh_spec [OF assms(4)]
  note st = probeStep_cases [OF assms(2)]
  have i: "listened (rule r) = listenedIn ns"
      "if owed (rule r) then standing pings ns = []
       else set (standing pings ns) = {firstPing (rule r)..pingSeq r} \<and> firstPing (rule r) \<le> pingSeq r"
      "unat (pingSeq r) = unat sq + length (pings @ pingsOf ns)" "length (pings @ pingsOf ns) \<le> 3 * (1 + length ns)"
      "lastPong a \<le> pingSeq r" "sendFails r = failedLast (pings @ pingsOf ns)"
    using assms(1) by (simp_all add: probeInv_def)
  let ?S = "if v = ProbeThawed then [] else standing pings ns"
  let ?rebase = "v = ProbeThawed \<or> owed (rule r)"
  have w: "pingSeq ws_r = pingSeq r" "firstPing (rule ws_r) = firstPing (rule r)" "sendFails ws_r = sendFails r"
    "listened (rule ws_r) = listened s" using assms(3) st(2) by simp_all
  have c: "unat (pingSeq r1) = unat (pingSeq r) + length ps \<and>
      (if owed (rule r1) then standPings ?S ps = []
       else set (standPings ?S ps) = {(if ?rebase \<or> cr then pingSeq r1 else firstPing (rule r1))..pingSeq r1} \<and>
         (if ?rebase \<or> cr then pingSeq r1 else firstPing (rule r1)) \<le> pingSeq r1)"
  proof (rule pingFresh_counts [OF assms(4)])
    show "unat (pingSeq ws_r) = unat (pingSeq r)" using w by simp
    show "unat (pingSeq r) + 3 < 2 ^ 64" using i(3,4) assms(7) by simp
    show "?rebase \<longrightarrow> ?S = []" using i(2) by auto
    show "set ?S = {firstPing (rule ws_r)..pingSeq ws_r} \<and> firstPing (rule ws_r) \<le> pingSeq ws_r" if "\<not> ?rebase" "\<not> cr"
      using i(2) that w by auto
  qed
  have "pingSeq r \<le> pingSeq r1" using c by (simp add: word_le_nat_alt)
  then have l: "lastPong a \<le> pingSeq r1" using i(5) by simp
  have f: "sendFails r1 = failedLast ((pings @ pingsOf ns) @ ps)" using p(10) [of "pings @ pingsOf ns"] w i(6) by simp
  have n: "standing pings (ns @ [nt]) = standPings ?S ps" "pingsOf (ns @ [nt]) = pingsOf ns @ ps"
    "listenedIn (ns @ [nt]) = listened s"
    using assms(6) st(3) i(1) by (auto simp: notes_snoc standNote_def pingsOf_def listenedIn_def)
  show ?thesis
    using c n l f p(2,4,6,8) w(4) i(3,4) assms(5,8) by (auto simp: probeInv_def)
qed

lemma pollProbe_keeps:
  assumes "probeInv sq pings ns (r, a)" "pollProbe now epoch ws (r, a) = ((None, nt), st')"
    and "unat sq + 3 * (2 + length ns) < 2 ^ 64"
  shows "probeInv sq pings (ns @ [nt]) st'"
proof -
  obtain v s where st: "probeStep (tsub now (stepStart r)) (lastPong a) (rule r) = (v, s)"
    by (cases "probeStep (tsub now (stepStart r)) (lastPong a) (rule r)")
  note c = probeStep_cases [OF st]
  show ?thesis
  proof (cases "v = ProbeWait")
    case True
    then have "st' = (r\<lparr>stepStart := now, rule := s\<rparr>, a)" "nt = Polled (tsub now (stepStart r)) (owed (rule r)) v []"
      using assms(2) st by (auto simp: pollProbe_def)
    then show ?thesis using assms(1) c True
      by (auto simp: probeInv_def notes_snoc standNote_def standPings_simps pingsOf_def listenedIn_def)
  next
    case False
    then have v: "v = ProbeResend \<or> v = ProbeThawed" using assms(2) st by (cases v) (auto simp: pollProbe_def Let_def split: if_splits)
    let ?r = "r\<lparr>stepStart := now, rule := s\<rparr>" and ?a = "if v = ProbeThawed then resetLiveness now a else a"
    obtain cr gu ps r1 a2 where p: "pingFresh ws (?r, ?a) = ((cr, gu, ps), r1, a2)" by (cases "pingFresh ws (?r, ?a)") auto
    have e: "nt = Polled (tsub now (stepStart r)) (owed (rule r)) v ps"
      "st' = (if v = ProbeThawed \<or> cr \<or> owed (rule r) then r1\<lparr>rule := (rule r1)\<lparr>firstPing := pingSeq r1\<rparr>, rebasedAt := stepStart r1\<rparr> else r1, a2)"
      using assms(2) st v p by (auto simp: pollProbe_def Let_def split: if_splits)
    show ?thesis unfolding e(2)
      by (rule probeInv_pings [OF assms(1) st refl p _ e(1) assms(3) refl]) (simp add: resetLiveness_def)
  qed
qed

lemma arrives_keeps:
  assumes "probeInv sq pings ns (r, a)"
  shows "probeInv sq pings (ns @ [Heard]) (r, noteProbeEcho b (noteRx now a))"
  using assms by (auto simp: probeInv_def noteProbeEcho_def notePong_def noteRx_def notes_snoc standNote_def pingsOf_def listenedIn_def)

lemma probeOn_keeps:
  assumes "probeInv sq pings ns st" "probeOn evs st = (None, ns', st')" "unat sq + 3 * (1 + length ns + length evs) < 2 ^ 64"
  shows "probeInv sq pings (ns @ ns') st'"
  using assms
proof (induction evs arbitrary: ns st ns' st')
  case (Cons ev evs)
  obtain nt st1 where 1: "probeEventStep ev st = ((None, nt), st1)"
    using Cons.prems(2) by (auto split: prod.splits option.splits)
  obtain ns1 where 2: "probeOn evs st1 = (None, ns1, st')" "ns' = nt # ns1"
    using Cons.prems(2) 1 by (auto split: prod.splits)
  obtain r a where ra: "st = (r, a)" by (cases st)
  have "probeInv sq pings (ns @ [nt]) st1"
  proof (cases ev)
    case (Arrives now b)
    then show ?thesis using 1 ra arrives_keeps Cons.prems(1) by auto
  next
    case (Poll now epoch ws)
    then show ?thesis using pollProbe_keeps [of sq pings ns r a now epoch ws nt st1] 1 ra Cons.prems(1,3) by simp
  next
    case Cancelled
    then show ?thesis using 1 ra by simp
  qed
  from Cons.IH [OF this 2(1)] show ?case using Cons.prems(3) 2(2) by simp
qed simp

text \<open>A result comes with the last event that was taken.\<close>

lemma probeOn_result:
  assumes "probeOn evs st = (Some res, ns, st')"
  obtains evs1 ev evs2 ns1 nt st1 where "evs = evs1 @ ev # evs2" "probeOn evs1 st = (None, ns1, st1)"
    "probeEventStep ev st1 = ((Some res, nt), st')" "ns = ns1 @ [nt]"
  using assms
proof (induction evs arbitrary: st ns thesis)
  case (Cons ev evs)
  obtain r1 nt st1 where 1: "probeEventStep ev st = ((r1, nt), st1)" by (cases "probeEventStep ev st") auto
  show ?case
  proof (cases r1)
    case None
    obtain ns1 where 2: "probeOn evs st1 = (Some res, ns1, st')" "ns = nt # ns1"
      using Cons.prems(2) 1 None by (auto split: prod.splits)
    obtain evs1 ev' evs2 ns2 nt' st2 where 3: "evs = evs1 @ ev' # evs2" "probeOn evs1 st1 = (None, ns2, st2)"
      "probeEventStep ev' st2 = ((Some res, nt'), st')" "ns1 = ns2 @ [nt']"
      by (rule Cons.IH [OF _ 2(1)])
    show ?thesis
      by (rule Cons.prems(1) [of "ev # evs1" ev' evs2 "nt # ns2" st2 nt']) (use 1 None 2 3 in simp_all)
  next
    case (Some r)
    show ?thesis by (rule Cons.prems(1) [of "[]" ev evs "[]" st nt]) (use Cons.prems(2) 1 Some in simp_all)
  qed
qed simp

text \<open>
  However packets, freezes and wakes fall into a probe: a stream is given up only after thirty seconds of listening, in polls of
  at most a second with no ping owed, with a ping out that still counts, none that counts answered, and no packet heard since
  the first of them; it is kept only for the echo of a ping that counts or for such a packet; and a probe ends without a verdict only
  when it is cut off or after five failed writes in a row.
\<close>

theorem probe_verdict_is_heard:
  assumes "runWakeProbe now sq ws evs a0 = (Some res, pings, ns, r, a)"
    and "lastPong a0 \<le> sq" "unat sq + 3 * (1 + length evs) < 2 ^ 64"
  shows "case res of
      ProbeGone e \<Rightarrow> listenedIn ns \<ge> 30 * second \<and> standing pings ns \<noteq> [] \<and>
        (\<forall>p \<in> set (standing pings ns). lastPong a < p) \<and> lastHeard a \<le> rebasedAt r
    | ProbeAlive e \<Rightarrow> lastPong a \<in> set (standing pings ns) \<or> lastHeard a > rebasedAt r
    | ProbeFailed \<Rightarrow> Cancelled \<in> set evs \<or> failedLast (pings @ pingsOf ns) \<ge> 5"
proof (cases "startProbe now sq ws a0")
  case (fields res0 ps r0 a1)
  have u: "unat sq + 3 < 2 ^ 64" using assms(3) by simp
  show ?thesis
  proof (cases res0)
    case (Some q)
    let ?r = "\<lparr>rule = newProbeState, stepStart = now, rebasedAt = zero_time, sendFails = 0, pingSeq = sq\<rparr>"
    obtain cr gu where p: "pingFresh ws (?r, a0) = ((cr, gu, ps), r0, a1)" "gu" "q = ProbeFailed"
      using fields Some by (auto simp: startProbe_def split: prod.splits if_splits)
    have "res = ProbeFailed" "pings = ps" "ns = []" using assms(1) fields Some p(3) by (auto simp: runWakeProbe_def)
    then show ?thesis using pingFresh_spec(10) [OF p(1), of "[]"] pingFresh_spec(11) [OF p(1) p(2)]
      by (simp add: failedLast_simps notes_snoc)
  next
    case None
    then have ps: "pings = ps" "probeOn evs (r0, a1) = (Some res, ns, r, a)"
      using assms(1) fields by (auto simp: runWakeProbe_def split: prod.splits)
    have i0: "probeInv sq ps [] (r0, a1)" using probeInv_start [OF _ assms(2) u] fields None by simp
    obtain evs1 ev evs2 ns1 nt st1 where e: "evs = evs1 @ ev # evs2" "probeOn evs1 (r0, a1) = (None, ns1, st1)"
      "probeEventStep ev st1 = ((Some res, nt), (r, a))" "ns = ns1 @ [nt]" by (rule probeOn_result [OF ps(2)])
    obtain r1 b1 where st1: "st1 = (r1, b1)" by (cases st1)
    have i1: "probeInv sq ps ns1 (r1, b1)" using probeOn_keeps [OF i0 e(2)] assms(3) e(1) st1 by simp
    show ?thesis
    proof (cases ev)
      case (Arrives t b)
      then show ?thesis using e(3) st1 by simp
    next
      case Cancelled
      then show ?thesis using e(1,3) by auto
    next
      case (Poll t epoch ws1)
      then have po: "pollProbe t epoch ws1 (r1, b1) = ((Some res, nt), (r, a))" using e(3) st1 by simp
      obtain v s where st: "probeStep (tsub t (stepStart r1)) (lastPong b1) (rule r1) = (v, s)"
        by (cases "probeStep (tsub t (stepStart r1)) (lastPong b1) (rule r1)")
      note c = probeStep_cases [OF st]
      show ?thesis
      proof (cases "v = ProbeEchoed \<or> v = ProbeDead")
        case True
        then have x: "r = r1\<lparr>stepStart := t, rule := s\<rparr>" "a = b1" "nt = Polled (tsub t (stepStart r1)) (owed (rule r1)) v []"
            "res = (if v = ProbeEchoed \<or> lastHeard b1 > rebasedAt r1 then ProbeAlive epoch else ProbeGone epoch)"
          using po st by (auto simp: pollProbe_def)
        have ow: "\<not> owed (rule r1)" "v \<noteq> ProbeThawed" using True c by auto
        have S: "standing pings ns = standing ps ns1" using x(3) e(4) ps(1) ow by (simp add: notes_snoc standNote_def standPings_simps)
        have L: "listenedIn ns = listened s"
          using x(3) e(4) i1 c(3) by (simp add: probeInv_def notes_snoc) (simp add: listenedIn_def)
        have I: "set (standing ps ns1) = {firstPing (rule r1)..pingSeq r1}" "firstPing (rule r1) \<le> pingSeq r1" "lastPong b1 \<le> pingSeq r1"
          using i1 ow by (simp_all add: probeInv_def)
        then have ne: "standing ps ns1 \<noteq> []" by (metis atLeastatMost_empty_iff empty_set)
        show ?thesis
        proof (cases "v = ProbeEchoed")
          case True
          then show ?thesis using x c(5) I S by simp
        next
          case False
          then have "v = ProbeDead" using \<open>v = ProbeEchoed \<or> v = ProbeDead\<close> by simp
          then show ?thesis using x c(6) I S L ne by (auto intro: less_le_trans)
        qed
      next
        case False
        let ?r = "r1\<lparr>stepStart := t, rule := s\<rparr>" and ?a = "if v = ProbeThawed then resetLiveness t b1 else b1"
        obtain cr gu ps1 r2 a2 where p: "pingFresh ws1 (?r, ?a) = ((cr, gu, ps1), r2, a2)" by (cases "pingFresh ws1 (?r, ?a)") auto
        have x: "gu" "res = ProbeFailed" "nt = Polled (tsub t (stepStart r1)) (owed (rule r1)) v ps1"
          using po st False p by (cases v; auto simp: pollProbe_def Let_def split: if_splits)+
        have "sendFails ?r = failedLast (ps @ pingsOf ns1)" using i1 by (simp add: probeInv_def)
        from pingFresh_spec(10) [OF p this] pingFresh_spec(11) [OF p x(1)]
        have "failedLast (pings @ pingsOf ns) \<ge> 5" using x(3) e(4) ps(1) by (simp add: notes_snoc pingsOf_def)
        then show ?thesis using x(2) by simp
      qed
    qed
  qed
qed

section \<open>A verdict comes\<close>

definition calm :: "probeNote \<Rightarrow> bool" where
  "calm nt \<longleftrightarrow> (case nt of Polled took ow v ps \<Rightarrow> 0 \<le> took \<and> took \<le> second \<and> \<not> ow \<and> list_all (\<lambda>p. \<exists>t. snd p = Written t False) ps
     | _ \<Rightarrow> True)"

definition calmState :: "probeState \<Rightarrow> bool" where
  "calmState s \<longleftrightarrow> \<not> owed s \<and> 0 \<le> sinceSend s \<and> sinceSend s < second \<and> listened s < 30 * second + sinceSend s"

lemma standPings_calm: "list_all (\<lambda>p. \<exists>t. snd p = Written t False) ps \<Longrightarrow> standPings S ps = S @ map fst ps"
  by (induction ps arbitrary: S) (auto simp: standPings_def)

lemma pingFresh_calm:
  assumes "pingFresh ws (r, a) = ((cr, gu, ps), r', a')" "list_all (\<lambda>p. \<exists>t. snd p = Written t False) ps"
  shows "\<not> owed (rule r')"
  using pingFresh_spec(3) [OF assms(1)] pingFresh_spec(9) [OF assms(1), of "[]"] standPings_calm [OF assms(2), of "[]"]
  by (auto split: if_splits)

lemma probeOn_calm:
  assumes "probeOn evs (r, a) = (None, ns, r', a')" "list_all calm ns" "calmState (rule r)"
  shows "calmState (rule r') \<and> listened (rule r') = listened (rule r) + listenedIn ns"
  using assms
proof (induction evs arbitrary: r a ns)
  case Nil
  then show ?case by (simp add: notes_snoc)
next
  case (Cons ev evs)
  obtain nt r1 a1 where 1: "probeEventStep ev (r, a) = ((None, nt), (r1, a1))"
    using Cons.prems(1) by (auto split: prod.splits option.splits)
  obtain ns1 where 2: "probeOn evs (r1, a1) = (None, ns1, r', a')" "ns = nt # ns1"
    using Cons.prems(1) 1 by (auto split: prod.splits)
  have "calmState (rule r1) \<and> listened (rule r1) = listened (rule r) + listenedIn [nt]"
  proof (cases ev)
    case (Arrives t b)
    then show ?thesis using 1 Cons.prems(3) by (auto simp: listenedIn_def)
  next
    case Cancelled
    then show ?thesis using 1 by simp
  next
    case (Poll t epoch ws)
    let ?took = "tsub t (stepStart r)"
    obtain v s where st: "probeStep ?took (lastPong a) (rule r) = (v, s)" by (cases "probeStep ?took (lastPong a) (rule r)")
    have po: "pollProbe t epoch ws (r, a) = ((None, nt), (r1, a1))" using 1 Poll by simp
    have nt: "\<exists>ps. nt = Polled ?took (owed (rule r)) v ps"
      using po st by (cases v) (auto simp: pollProbe_def Let_def split: prod.splits if_splits)
    then have k: "0 \<le> ?took" "?took \<le> second" "\<not> owed (rule r)" using Cons.prems(2) 2(2) by (auto simp: calm_def)
    have v: "v = ProbeWait \<or> v = ProbeResend"
      using po st probeStep_cases(4) [OF st] k(2) by (cases v) (auto simp: pollProbe_def Let_def split: if_splits)
    have s: "listened s = listened (rule r) + ?took" "\<not> owed s" "calmState s"
      using st v k Cons.prems(3) by (auto simp: probeStep_def calmState_def Let_def wake_probe_consts split: if_splits)
    have l: "listenedIn [nt] = ?took" using nt v k by (auto simp: listenedIn_def)
    show ?thesis
    proof (cases "v = ProbeWait")
      case True
      then have "rule r1 = s" using po st by (auto simp: pollProbe_def)
      then show ?thesis using s l by simp
    next
      case False
      then have r: "v = ProbeResend" using v by simp
      obtain cr gu ps r2 a2 where p: "pingFresh ws (r\<lparr>stepStart := t, rule := s\<rparr>, a) = ((cr, gu, ps), r2, a2)"
        by (cases "pingFresh ws (r\<lparr>stepStart := t, rule := s\<rparr>, a)") auto
      have e: "nt = Polled ?took (owed (rule r)) v ps" "rule r1 = rule r2 \<or> rule r1 = (rule r2)\<lparr>firstPing := pingSeq r2\<rparr>"
        using po st r p by (auto simp: pollProbe_def Let_def split: if_splits)
      have "\<not> owed (rule r2)" using pingFresh_calm [OF p] e(1) Cons.prems(2) 2(2) by (simp add: calm_def)
      then show ?thesis using e(2) pingFresh_spec(6,7) [OF p] s l by (auto simp: calmState_def)
    qed
  qed
  then show ?case using Cons.IH [OF 2(1)] Cons.prems(2) 2(2) by (simp add: listenedIn_def)
qed


definition probedActivity :: streamActivity where
  "probedActivity = newStreamActivity 0 0"

text \<open>Polls of a second each, every ping going out at once.\<close>

definition deafPolls :: "nat \<Rightarrow> probeEvent list" where
  "deafPolls n = map (\<lambda>i. Poll (int i * second) 7 [Written (int i * second) False]) [1 ..< Suc n]"

lemma probe_verdict_is_heard_witness:
  "let evs = Poll (90 * second) 3 [Written (90 * second) True, Written (90 * second) False] #
       map (\<lambda>i. Poll ((90 + int i) * second) 7 [Written ((90 + int i) * second) False]) [1 ..< 31];
     run = runWakeProbe 0 0 [Written 0 False] evs probedActivity
   in fst run = Some (ProbeGone 7) \<and> listenedIn (fst (snd (snd run))) \<ge> 30 * second \<and> 3 \<in> set (standing [(1, Written 0 False)] (fst (snd (snd run))))"
proof -
  let ?evs = "Poll (90 * second) 3 [Written (90 * second) True, Written (90 * second) False] #
       map (\<lambda>i. Poll ((90 + int i) * second) 7 [Written ((90 + int i) * second) False]) [1 ..< 31]"
  have c: "let run = runWakeProbe 0 0 [Written 0 False] ?evs probedActivity in
      fst run = Some (ProbeGone 7) \<and> fst (snd run) = [(1, Written 0 False)] \<and>
      3 \<in> set (standing [(1, Written 0 False)] (fst (snd (snd run)))) \<and> lastPong probedActivity = 0 \<and> length ?evs = 31"
    by code_simp
  obtain pings ns r a where x: "runWakeProbe 0 0 [Written 0 False] ?evs probedActivity = (Some (ProbeGone 7), pings, ns, r, a)"
    using c by (cases "runWakeProbe 0 0 [Written 0 False] ?evs probedActivity") (auto simp: Let_def)
  have y: "lastPong probedActivity \<le> 0" "unat (0 :: 64 word) + 3 * (1 + length ?evs) < 2 ^ 64" using c by (simp_all add: Let_def)
  have "listenedIn ns \<ge> 30 * second" using probe_verdict_is_heard [OF x y] by simp
  then show ?thesis using c unfolding x Let_def by simp
qed


end
