(* ===== verification/KeepaliveLoopProps.thy ===== *)
theory KeepaliveLoopProps
  imports KeepaliveLoop WakeProbeProps Traces
begin

text \<open>
  What the keepalive loop promises: no stream is found dead but for ninety seconds of silence or by its probe, a keepalive is repeated at
  most once, and no point of the grid is slept through.
\<close>

section \<open>Repeats and the grid\<close>

definition countActs :: "(keepaliveAct \<Rightarrow> bool) \<Rightarrow> (loopEvent \<times> keepaliveAct list) list \<Rightarrow> nat" where
  "countActs P tr = length (filter P (concat (map snd tr)))"

fun isRepeat :: "keepaliveAct \<Rightarrow> bool" where "isRepeat (RepeatTick n ok) = True" | "isRepeat _ = False"

fun isSent :: "keepaliveAct \<Rightarrow> bool" where "isSent (SendTick n ok) = ok" | "isSent _ = False"

lemma countActs_snoc: "countActs P (tr @ [(q, acts)]) = countActs P tr + length (filter P acts)"
  by (simp add: countActs_def)

text \<open>An armed repeat stands for a keepalive sent and not repeated; the grid point of a wait is not before its deadline.\<close>

definition loopInv :: "(loopEvent \<times> keepaliveAct list) list \<Rightarrow> loopPhase \<times> keepaliveLoop \<times> streamActivity \<Rightarrow> bool" where
  "loopInv tr st \<longleftrightarrow> (case st of (p, l, a) \<Rightarrow>
     countActs isRepeat tr + (if is_zero (echoAt l) then 0 else 1) \<le> countActs isSent tr \<and>
     (case p of Waits start deadline why gridAt \<Rightarrow> (why = EchoRetryWake \<longrightarrow> \<not> is_zero (echoAt l)) \<and> deadline \<le> gridAt \<and>
        (why = GridWake \<longrightarrow> deadline = gridAt) | _ \<Rightarrow> True))"

lemma takeProbe_frame:
  assumes "takeProbe now pw (l, a) = ((p, acts), l', a')"
  shows "echoAt l' = echoAt l" "filter isRepeat acts = []" "filter isSent acts = []" "\<not> (\<exists>s d w g. p = Waits s d w g)"
  using assms by (auto simp: takeProbe_def Let_def split: if_splits prod.splits option.splits probeResult.splits)

lemma nextDeadline_waits:
  assumes "nextDeadline a now r e = (deadline, why)"
  shows "deadline \<le> nextKeepaliveGrid now (actPhase a)" "why = EchoRetryWake \<Longrightarrow> \<not> is_zero e"
    "why = GridWake \<Longrightarrow> deadline = nextKeepaliveGrid now (actPhase a)" "deadline \<le> lastRx a + deadStreamTimeout"
  using assms by (auto simp: nextDeadline_def Let_def split: if_splits)

lemma topHalf_inv:
  assumes "loopInv tr (AtTop, l, a)" "topHalf epoch g now spread probeAt pw (l, a) = ((p, acts), l', a')"
  shows "loopInv (tr @ [(q, acts)]) (p, l', a')"
proof (cases "epoch \<noteq> wakeServed l \<and> wakeProbeDue g a (lastProbeAt l) now \<and> spread")
  case True
  then obtain acts1 where t: "takeProbe probeAt pw (l, a) = ((p, acts1), l', a')" "acts = AllocCheck ''wake'' # acts1"
    using assms(2) by (auto simp: topHalf_def split: prod.splits)
  show ?thesis using takeProbe_frame [OF t(1)] t(2) assms(1)
    by (auto simp: loopInv_def countActs_snoc split: loopPhase.splits)
next
  case False
  then show ?thesis using assms nextDeadline_waits [of a now "retryAt l" "echoAt l"]
    by (auto simp: topHalf_def loopInv_def countActs_snoc split: if_splits prod.splits)
qed

lemma thawHalf_inv:
  assumes "loopInv tr (p0, l, a)" "thawHalf w (l, a) = ((p, acts), l', a')"
  shows "loopInv (tr @ [(q, acts)]) (p, l', a')"
proof (cases "thawSpread w \<and> sendOk w")
  case True
  let ?l = "snd (sendKeepalive (thawNow w) (sendOk w) (l\<lparr>echoAt := zero_time\<rparr>))"
  obtain acts1 where t: "takeProbe (thawNow w) (thawProbe w) (?l, resetLiveness (waitNow w) a) = ((p, acts1), l', a')"
      "acts = [AllocCheck ''thaw'', GridKeepalive (thawNow w)] @ [SendTick (keepTick l) True] @ acts1"
    using assms(2) True by (auto simp: thawHalf_def sendKeepalive_def Let_def split: prod.splits)
  show ?thesis using takeProbe_frame [OF t(1)] t(2) assms(1)
    by (auto simp: loopInv_def countActs_snoc sendKeepalive_def split: loopPhase.splits if_splits)
next
  case False
  then show ?thesis using assms
    by (auto simp: thawHalf_def sendKeepalive_def Let_def loopInv_def countActs_snoc split: if_splits)
qed

lemma dueHalf_inv:
  assumes "loopInv tr (Waits start deadline why gridAt, l, a)" "dueHalf why gridAt w (l, a) = ((p, acts), l', a')"
  shows "loopInv (tr @ [(q, acts)]) (p, l', a')"
proof -
  have i: "countActs isRepeat tr + (if is_zero (echoAt l) then 0 else 1) \<le> countActs isSent tr" "why = EchoRetryWake \<longrightarrow> \<not> is_zero (echoAt l)"
    using assms(1) by (simp_all add: loopInv_def)
  show ?thesis
  proof (cases "why = GridWake \<or> why = RetryWake \<or> waitNow w \<ge> gridAt")
    case True
    then show ?thesis using assms(2) i
      by (cases why) (auto simp: dueHalf_def servedReason_def sendKeepalive_def Let_def loopInv_def countActs_snoc split: if_splits)
  next
    case False
    then show ?thesis using assms(2) i
      by (cases why) (auto simp: dueHalf_def servedReason_def Let_def loopInv_def countActs_snoc split: if_splits)
  qed
qed

lemma loopStep_inv:
  assumes "loopInv tr st" "loopStep q st = (acts, st')"
  shows "loopInv (tr @ [(q, acts)]) st'"
proof -
  obtain p l a p' l' a' where st: "st = (p, l, a)" "st' = (p', l', a')" by (cases st, cases st')
  show ?thesis
  proof (cases q)
    case (RxPacket t b)
    then show ?thesis using assms st by (auto simp: loopInv_def countActs_snoc)
  next
    case (TopHalf epoch g now spread probeAt pw)
    show ?thesis
    proof (cases "p = AtTop")
      case True
      then have "topHalf epoch g now spread probeAt pw (l, a) = ((p', acts), l', a')"
        using assms(2) TopHalf st by (auto split: prod.splits)
      then show ?thesis using topHalf_inv assms(1) True st by simp
    next
      case False
      then have "acts = []" "st' = st" using assms(2) TopHalf st by (auto split: loopPhase.splits)
      then show ?thesis using assms(1) by (simp add: loopInv_def countActs_snoc)
    qed
  next
    case (WakeHalf w)
    show ?thesis
    proof (cases p)
      case (Waits start deadline why gridAt)
      then have h: "wakeHalf why gridAt w (l, a) = ((p', acts), l', a')" using assms(2) WakeHalf st by (auto split: prod.splits)
      have i: "loopInv tr (Waits start deadline why gridAt, l, a)" using assms(1) st Waits by simp
      show ?thesis unfolding st
      proof (cases "waitOk w \<and> (tsub (waitNow w) (waitBefore w) > keepaliveInterval + freezeSlack)")
        case True
        then show "loopInv (tr @ [(q, acts)]) (p', l', a')" using h thawHalf_inv [OF i] by (simp add: wakeHalf_def)
      next
        case False
        then show "loopInv (tr @ [(q, acts)]) (p', l', a')"
          using h i dueHalf_inv [OF i, of w p' acts l' a' q]
          by (auto simp: wakeHalf_def loopInv_def countActs_snoc split: if_splits)
      qed
    qed (use assms WakeHalf st in \<open>auto simp: loopInv_def countActs_snoc\<close>)
  qed
qed

interpretation looped: traced loopStep loopInv "\<lambda>q. True"
  by unfold_locales (use loopStep_inv in blast)

text \<open>
  Through packets, wakes, freezes and failed writes, the keepalives repeated are never more than those that went out; and a wait that
  ends past the point of the grid it began before, not early, not over a freeze and not over the ninety seconds, whatever
  it was for, serves that point: WireGuard's keepalive and the stream's.
\<close>

theorem no_grid_point_is_slept_through:
  assumes "traceRun loopStep evs (AtTop, newKeepaliveLoop epoch, a0) = (tr, p, l, a)"
    and "p = Waits start deadline why gridAt" "loopStep (WakeHalf w) (p, l, a) = (acts, st')"
    and "waitOk w" "\<not> wokeEarly w" "tsub (waitNow w) (waitBefore w) \<le> 45 * second" "rxAge a (waitNow w) < 90 * second"
    and "waitNow w \<ge> deadline"
  shows "countActs isRepeat tr \<le> countActs isSent tr \<and> deadline \<le> gridAt \<and>
    (why = GridWake \<or> waitNow w \<ge> gridAt \<longrightarrow> GridKeepalive (waitNow w) \<in> set acts \<and> SendTick (keepTick l) (sendOk w) \<in> set acts)"
proof -
  have "loopInv [] (AtTop, newKeepaliveLoop epoch, a0)" by (simp add: loopInv_def newKeepaliveLoop_def countActs_def)
  from looped.run_establishes [OF assms(1) this] have i: "loopInv tr (p, l, a)" by simp
  have h: "wakeHalf why gridAt w (l, a) = dueHalf why gridAt w (l, a)"
    using assms(4-7) by (simp add: wakeHalf_def go_consts not_le)
  then have d: "\<exists>p' l' a'. dueHalf why gridAt w (l, a) = ((p', acts), l', a')"
    using assms(2,3) by (auto split: prod.splits)
  have "why = GridWake \<or> waitNow w \<ge> gridAt \<Longrightarrow> GridKeepalive (waitNow w) \<in> set acts \<and> SendTick (keepTick l) (sendOk w) \<in> set acts"
    using d by (cases why) (auto simp: dueHalf_def servedReason_def sendKeepalive_def Let_def)
  then show ?thesis using i assms(2) by (auto simp: loopInv_def)
qed

section \<open>Found dead\<close>

definition probeTimes :: "probeWorld \<Rightarrow> gtime list" where
  "probeTimes pw = List.map_filter (\<lambda>ev. case ev of Arrives t b \<Rightarrow> Some t | Poll t e ws \<Rightarrow> Some t | Cancelled \<Rightarrow> None) (probeEvents pw) @ [afterProbe pw]"

fun timesOf :: "loopEvent \<Rightarrow> gtime list" where
  "timesOf (RxPacket t b) = [t]"
| "timesOf (TopHalf epoch g now spread probeAt pw) = now # probeTimes pw"
| "timesOf (WakeHalf w) = waitNow w # probeTimes (thawProbe w)"

text \<open>The liveness clock is never behind the last packet, nor ahead of the clock.\<close>

definition clocked :: "gtime \<Rightarrow> streamActivity \<Rightarrow> bool" where
  "clocked t a \<longleftrightarrow> lastHeard a \<le> lastRx a \<and> lastRx a \<le> t"

lemma clocked_later: "clocked t a \<Longrightarrow> t \<le> u \<Longrightarrow> clocked u a"
  by (simp add: clocked_def)

lemma noteProbeEcho_clock [simp]:
  "lastRx (noteProbeEcho b a) = lastRx a" "lastHeard (noteProbeEcho b a) = lastHeard a"
  by (simp_all add: noteProbeEcho_def notePong_def)

lemma pollProbe_clock:
  assumes "pollProbe now epoch ws (r, a) = (out, r', a')" "clocked t a" "t \<le> now"
  shows "clocked now a'"
proof -
  obtain v s where st: "probeStep (tsub now (stepStart r)) (lastPong a) (rule r) = (v, s)"
    by (cases "probeStep (tsub now (stepStart r)) (lastPong a) (rule r)")
  let ?r = "r\<lparr>stepStart := now, rule := s\<rparr>" and ?a = "if v = ProbeThawed then resetLiveness now a else a"
  obtain cr gu ps r1 a2 where p: "pingFresh ws (?r, ?a) = ((cr, gu, ps), r1, a2)" by (cases "pingFresh ws (?r, ?a)") auto
  have "a2 = ?a\<lparr>probeSent := pingSeq r1\<rparr>" by (rule pingFresh_spec(4) [OF p])
  then have "a' = a \<or> lastHeard a' = lastHeard a \<and> (lastRx a' = lastRx a \<or> lastRx a' = now)"
    using assms(1) st p by (cases v) (auto simp: pollProbe_def Let_def resetLiveness_def split: if_splits)
  then show ?thesis using assms(2,3) by (auto simp: clocked_def)
qed

lemma probeOn_clock:
  assumes "probeOn evs (r, a) = (res, ns, r', a')" "clocked t a"
    and "sorted (t # List.map_filter (\<lambda>ev. case ev of Arrives t b \<Rightarrow> Some t | Poll t e ws \<Rightarrow> Some t | Cancelled \<Rightarrow> None) evs @ [u])"
  shows "clocked u a'"
  using assms
proof (induction evs arbitrary: r a t ns)
  case Nil
  then show ?case by (auto simp: List.map_filter_def intro: clocked_later)
next
  case (Cons ev evs)
  let ?times = "List.map_filter (\<lambda>ev. case ev of Arrives t b \<Rightarrow> Some t | Poll t e ws \<Rightarrow> Some t | Cancelled \<Rightarrow> None)"
  obtain res1 nt r1 a1 where 1: "probeEventStep ev (r, a) = ((res1, nt), r1, a1)" by (cases "probeEventStep ev (r, a)") auto
  have "\<exists>t1. clocked t1 a1 \<and> t \<le> t1 \<and> sorted (t1 # ?times evs @ [u])"
  proof (cases ev)
    case (Arrives t1 b)
    then show ?thesis using 1 Cons.prems(3) by (intro exI [of _ t1]) (auto simp: clocked_def noteRx_def List.map_filter_def)
  next
    case (Poll t1 e ws)
    then show ?thesis using 1 Cons.prems(2,3) pollProbe_clock [of t1 e ws r a "(res1, nt)" r1 a1 t]
      by (intro exI [of _ t1]) (auto simp: List.map_filter_def)
  next
    case Cancelled
    then show ?thesis using 1 Cons.prems(2,3) by (intro exI [of _ t]) (auto simp: List.map_filter_def)
  qed
  then obtain t1 where t1: "clocked t1 a1" "sorted (t1 # ?times evs @ [u])" by blast
  show ?case
  proof (cases res1)
    case None
    obtain ns1 where "probeOn evs (r1, a1) = (res, ns1, r', a')" using Cons.prems(1) 1 None by (auto split: prod.splits)
    from Cons.IH [OF this t1] show ?thesis .
  next
    case (Some q)
    then have "a' = a1" using Cons.prems(1) 1 by simp
    then show ?thesis using t1 by (auto intro: clocked_later)
  qed
qed

lemma takeProbe_clock:
  assumes "takeProbe now pw (l, a) = ((p, acts), l', a')" "clocked t a" "sorted (t # probeTimes pw)"
  shows "clocked (afterProbe pw) a'"
proof (cases "probeAble pw")
  case False
  then show ?thesis using assms by (auto simp: takeProbe_def probeTimes_def intro: clocked_later)
next
  case True
  obtain res pings ns r a1 where x: "runWakeProbe (probeClock pw) (probeSeq l) (firstWrites pw) (probeEvents pw) a = (res, pings, ns, r, a1)"
    by (cases "runWakeProbe (probeClock pw) (probeSeq l) (firstWrites pw) (probeEvents pw) a")
  have a': "a' = a1" using assms(1) True x by (auto simp: takeProbe_def Let_def split: option.splits probeResult.splits)
  obtain res0 ps r0 a0 where s: "startProbe (probeClock pw) (probeSeq l) (firstWrites pw) a = (res0, ps, r0, a0)"
    by (cases "startProbe (probeClock pw) (probeSeq l) (firstWrites pw) a")
  have "clocked t a0" using s assms(2) pingFresh_spec(4)
    by (fastforce simp: startProbe_def clocked_def split: prod.splits if_splits)
  then show ?thesis
  proof (cases res0)
    case None
    then obtain ns1 where "probeOn (probeEvents pw) (r0, a0) = (res, ns1, r, a1)"
      using x s by (auto simp: runWakeProbe_def split: prod.splits)
    from probeOn_clock [OF this \<open>clocked t a0\<close>, of "afterProbe pw"] show ?thesis using assms(3) a' by (simp add: probeTimes_def)
  next
    case (Some q)
    then have "a1 = a0" using x s by (simp add: runWakeProbe_def)
    then show ?thesis using \<open>clocked t a0\<close> a' assms(3) by (auto simp: probeTimes_def intro: clocked_later)
  qed
qed

definition lastTime :: "gtime \<Rightarrow> loopEvent list \<Rightarrow> gtime" where
  "lastTime t evs = last (t # concat (map timesOf evs))"

lemma last_of_last: "last (last (t # xs) # ys) = last (t # xs @ ys)"
  by (cases "ys = []"; cases "xs = []") (simp_all add: last_append)

lemma topHalf_clock:
  assumes "topHalf epoch g now spread probeAt pw (l, a) = ((p, acts), l', a')" "clocked t a" "sorted (t # now # probeTimes pw)"
  shows "clocked (afterProbe pw) a'"
proof (cases "epoch \<noteq> wakeServed l \<and> wakeProbeDue g a (lastProbeAt l) now \<and> spread")
  case True
  then obtain acts1 where "takeProbe probeAt pw (l, a) = ((p, acts1), l', a')"
    using assms(1) by (auto simp: topHalf_def split: prod.splits)
  from takeProbe_clock [OF this clocked_later [OF assms(2), of now]] show ?thesis using assms(3) by simp
next
  case False
  then have "a' = a" using assms(1) by (auto simp: topHalf_def split: if_splits prod.splits)
  moreover have "t \<le> afterProbe pw" using assms(3) by (simp add: probeTimes_def)
  ultimately show ?thesis using assms(2) clocked_later by blast
qed

lemma wakeHalf_clock:
  assumes "wakeHalf why gridAt w (l, a) = ((p, acts), l', a')" "clocked t a" "sorted (t # waitNow w # probeTimes (thawProbe w))"
  shows "clocked (afterProbe (thawProbe w)) a'"
proof (cases "waitOk w \<and> tsub (waitNow w) (waitBefore w) > keepaliveInterval + freezeSlack")
  case False
  then have "a' = a"
    using assms(1) by (auto simp: wakeHalf_def dueHalf_def Let_def split: if_splits keepaliveWakeReason.splits prod.splits)
  moreover have "t \<le> afterProbe (thawProbe w)" using assms(3) by (simp add: probeTimes_def)
  ultimately show ?thesis using assms(2) clocked_later by blast
next
  case True
  let ?a = "resetLiveness (waitNow w) a"
  have th: "thawHalf w (l, a) = ((p, acts), l', a')" using assms(1) True by (simp add: wakeHalf_def)
  have c: "clocked (waitNow w) ?a" using assms(2,3) by (simp add: clocked_def resetLiveness_def)
  show ?thesis
  proof (cases "thawSpread w \<and> sendOk w")
    case True
    then obtain l1 acts1 where "takeProbe (thawNow w) (thawProbe w) (l1, ?a) = ((p, acts1), l', a')"
      using th by (auto simp: thawHalf_def sendKeepalive_def Let_def split: prod.splits)
    from takeProbe_clock [OF this c] show ?thesis using assms(3) by simp
  next
    case False
    then have "a' = ?a" using th by (auto simp: thawHalf_def sendKeepalive_def Let_def split: if_splits)
    moreover have "waitNow w \<le> afterProbe (thawProbe w)" using assms(3) by (simp add: probeTimes_def)
    ultimately show ?thesis using c clocked_later by blast
  qed
qed

lemma run_clock:
  assumes "traceRun loopStep evs (p0, l0, a0) = (tr, p, l, a)" "clocked t a0" "sorted (t # concat (map timesOf evs))"
  shows "clocked (lastTime t evs) a"
  using assms
proof (induction evs arbitrary: p0 l0 a0 t tr)
  case (Cons ev evs)
  obtain acts p1 l1 a1 tr1 where 1: "loopStep ev (p0, l0, a0) = (acts, p1, l1, a1)" "traceRun loopStep evs (p1, l1, a1) = (tr1, p, l, a)"
    using Cons.prems(1) by (auto elim!: traceRun_Cons simp del: traceRun.simps)
  let ?t = "last (t # timesOf ev)"
  have le: "t \<le> ?t" and s: "sorted (t # timesOf ev)"
    using Cons.prems(3) by (auto simp: sorted_append)
  have s': "sorted (?t # concat (map timesOf evs))"
    using Cons.prems(3) by (cases ev) (auto simp: sorted_append probeTimes_def)
  have "clocked ?t a1"
  proof (cases ev)
    case (RxPacket u b)
    then have "a1 = noteProbeEcho b (noteRx u a0)" using 1(1) by simp
    then show ?thesis using RxPacket by (simp add: clocked_def noteRx_def)
  next
    case (TopHalf epoch g now spread probeAt pw)
    then show ?thesis
      using 1(1) s le Cons.prems(2) topHalf_clock [of epoch g now spread probeAt pw l0 a0 p1 acts l1 a1 t] clocked_later
      by (cases p0) (auto simp: probeTimes_def split: prod.splits)
  next
    case (WakeHalf w)
    then show ?thesis
      using 1(1) s le Cons.prems(2) wakeHalf_clock [of _ _ w l0 a0 p1 acts l1 a1 t] clocked_later
      by (cases p0) (auto simp: probeTimes_def split: prod.splits)
  qed
  have "lastTime ?t evs = lastTime t (ev # evs)"
    unfolding lastTime_def list.map concat.simps by (rule last_of_last)
  then show ?case using Cons.IH [OF 1(2) \<open>clocked ?t a1\<close> s'] by simp
qed (simp add: lastTime_def)

text \<open>
  C17. On a clock that does not run backwards, a stream's loop finds its relay dead in one of two ways only: by a probe that gave it up, or at the
  end of a wait that was no freeze, when the relay had really been silent for ninety seconds at least, of which the report tells the
  length and whether a freeze fell into it.
\<close>

theorem found_dead_was_silent:
  assumes "traceRun loopStep evs (AtTop, newKeepaliveLoop epoch, newStreamActivity t0 phase) = (tr, p, l, a)"
    and "sorted (t0 # concat (map timesOf (evs @ [ev])))" "loopStep ev (p, l, a) = (acts, st')" "FoundDead silent byProbe froze \<in> set acts"
  shows "if byProbe then (\<exists>e ns. Probed (Some (ProbeGone e)) ns \<in> set acts)
    else (\<exists>w. ev = WakeHalf w \<and> silent \<ge> 90 * second \<and> silent = tsub (waitNow w) (lastHeard a) \<and> (froze \<longleftrightarrow> lastHeard a < lastRx a) \<and>
      tsub (waitNow w) (waitBefore w) \<le> 45 * second)"
proof -
  have c: "clocked (lastTime t0 evs) a"
    by (rule run_clock [OF assms(1)]) (use assms(2) in \<open>auto simp: clocked_def newStreamActivity_def sorted_append\<close>)
  have probe: "byProbe \<and> (\<exists>e ns. Probed (Some (ProbeGone e)) ns \<in> set acts1)"
    if "takeProbe now pw st = ((q, acts1), st1)" "FoundDead silent byProbe froze \<in> set acts1" for now pw st q acts1 st1
    using that by (auto simp: takeProbe_def Let_def split: if_splits prod.splits option.splits probeResult.splits)
  show ?thesis
  proof (cases ev)
    case (RxPacket t b)
    then show ?thesis using assms(3,4) by simp
  next
    case (TopHalf epoch' g now spread probeAt pw)
    then show ?thesis using assms(3,4) probe [of probeAt pw "(l, a)"]
      by (cases p) (auto simp: topHalf_def split: prod.splits if_splits)
  next
    case (WakeHalf w)
    obtain start deadline why gridAt where p: "p = Waits start deadline why gridAt"
      using assms(3,4) WakeHalf by (cases p) auto
    obtain q l' a' where h: "wakeHalf why gridAt w (l, a) = ((q, acts), l', a')"
      using assms(3) WakeHalf p by (auto split: prod.splits)
    show ?thesis
    proof (cases "tsub (waitNow w) (waitBefore w) > keepaliveInterval + freezeSlack")
      case True
      then have "thawHalf w (l, a) = ((q, acts), l', a')" using h assms(4) by (auto simp: wakeHalf_def split: if_splits)
      then have "\<exists>now pw st acts1 st1. takeProbe now pw st = ((q, acts1), st1) \<and> FoundDead silent byProbe froze \<in> set acts1 \<and> set acts1 \<subseteq> set acts"
        using assms(4) by (fastforce simp: thawHalf_def sendKeepalive_def Let_def split: if_splits prod.splits)
      then show ?thesis using probe by fastforce
    next
      case False
      have nd: "FoundDead silent byProbe froze \<notin> set (snd (fst (dueHalf why gridAt w (l, a))))"
        by (cases why) (auto simp: dueHalf_def servedReason_def sendKeepalive_def Let_def)
      then have f: "rxAge a (waitNow w) \<ge> deadStreamTimeout" "silent = heardAge a (waitNow w)" "\<not> byProbe" "froze = frozeSinceHeard a"
        using h False assms(4) by (auto simp: wakeHalf_def split: if_splits)
      have "lastHeard a \<le> lastRx a" using c by (simp add: clocked_def)
      then have "silent = tsub (waitNow w) (lastHeard a) \<and> silent \<ge> 90 * second"
        using f(1,2) by (auto simp: heardAge_def rxAge_def Let_def go_consts split: if_splits)
      then show ?thesis using WakeHalf f(3,4) False by (auto simp: frozeSinceHeard_def go_consts)
    qed
  qed
qed

section \<open>Examples\<close>

definition noProbe :: "gtime \<Rightarrow> probeWorld" where
  "noProbe t = \<lparr>probeAble = True, probeClock = t, firstWrites = [], probeEvents = [], afterProbe = t, ctxEnded = False\<rparr>"

definition wakeAt :: "gtime \<Rightarrow> gtime \<Rightarrow> wakeWorld" where
  "wakeAt before now = \<lparr>waitOk = True, wokeEarly = False, waitBefore = before, waitNow = now, sendOk = True, thawSpread = True,
     thawNow = now, thawProbe = noProbe now\<rparr>"

lemma no_grid_point_is_slept_through_witness:
  "let st = snd (traceRun loopStep [TopHalf 0 networkAvailability second True second (noProbe second)] (AtTop, newKeepaliveLoop 0, newStreamActivity 0 0))
   in fst st = Waits second (25 * second) GridWake (25 * second) \<and>
      SendTick 0 True \<in> set (fst (loopStep (WakeHalf (wakeAt second (25 * second))) st))"
proof -
  let ?evs = "[TopHalf 0 networkAvailability second True second (noProbe second)]"
  let ?w = "wakeAt second (25 * second)"
  obtain tr p l a where r: "traceRun loopStep ?evs (AtTop, newKeepaliveLoop 0, newStreamActivity 0 0) = (tr, p, l, a)"
    by (cases "traceRun loopStep ?evs (AtTop, newKeepaliveLoop 0, newStreamActivity 0 0)") auto
  have c: "let st = snd (traceRun loopStep ?evs (AtTop, newKeepaliveLoop 0, newStreamActivity 0 0)) in
      fst st = Waits second (25 * second) GridWake (25 * second) \<and> rxAge (snd (snd st)) (waitNow ?w) < 90 * second \<and>
      keepTick (fst (snd st)) = 0 \<and> waitNow ?w \<ge> 25 * second \<and> waitOk ?w \<and> \<not> wokeEarly ?w \<and> sendOk ?w \<and>
      tsub (waitNow ?w) (waitBefore ?w) \<le> 45 * second"
    by code_simp
  then have p: "p = Waits second (25 * second) GridWake (25 * second)" "rxAge a (waitNow ?w) < 90 * second" "keepTick l = 0"
    "waitNow ?w \<ge> 25 * second" "waitOk ?w" "\<not> wokeEarly ?w" "sendOk ?w" "tsub (waitNow ?w) (waitBefore ?w) \<le> 45 * second"
    unfolding r Let_def by simp_all
  obtain acts st' where s: "loopStep (WakeHalf ?w) (p, l, a) = (acts, st')" by (cases "loopStep (WakeHalf ?w) (p, l, a)")
  have "SendTick 0 True \<in> set acts"
    using no_grid_point_is_slept_through [OF r p(1) s p(5,6,8,2,4)] p(3,7) by simp
  then show ?thesis using p(1) s unfolding Let_def r by simp
qed

lemma found_dead_was_silent_witness:
  "let st = snd (traceRun loopStep [RxPacket second [], TopHalf 0 networkAvailability (80 * second) True second (noProbe (80 * second))]
       (AtTop, newKeepaliveLoop 0, newStreamActivity 0 0));
     acts = fst (loopStep (WakeHalf (wakeAt (80 * second) (91 * second))) st)
   in acts = [FoundDead (90 * second) False False] \<and> tsub (91 * second) (lastHeard (snd (snd st))) \<ge> 90 * second"
proof -
  let ?evs = "[RxPacket second [], TopHalf 0 networkAvailability (80 * second) True second (noProbe (80 * second))]"
  let ?ev = "WakeHalf (wakeAt (80 * second) (91 * second))"
  obtain tr p l a where r: "traceRun loopStep ?evs (AtTop, newKeepaliveLoop 0, newStreamActivity 0 0) = (tr, p, l, a)"
    by (cases "traceRun loopStep ?evs (AtTop, newKeepaliveLoop 0, newStreamActivity 0 0)") auto
  have c: "let st = snd (traceRun loopStep ?evs (AtTop, newKeepaliveLoop 0, newStreamActivity 0 0)) in
      fst (loopStep ?ev st) = [FoundDead (90 * second) False False] \<and> sorted (0 # concat (map timesOf (?evs @ [?ev]))) \<and>
      waitNow (wakeAt (80 * second) (91 * second)) = 91 * second"
    by code_simp
  obtain acts st' where s: "loopStep ?ev (p, l, a) = (acts, st')" by (cases "loopStep ?ev (p, l, a)")
  have f: "acts = [FoundDead (90 * second) False False]" "sorted (0 # concat (map timesOf (?evs @ [?ev])))"
    "waitNow (wakeAt (80 * second) (91 * second)) = 91 * second"
    using c unfolding r Let_def prod.sel s by blast+
  have "tsub (91 * second) (lastHeard a) \<ge> 90 * second"
    using found_dead_was_silent [OF r f(2) s, of "90 * second" False False] f(1,3) by auto
  then show ?thesis using f(1) s unfolding Let_def r by simp
qed

text \<open>
  The throttle does not hold while the host reports its network gone: a probe that could not write leaves its wake pending, and the
  next turn probes again at once.
\<close>

lemma failed_probe_repeats_while_network_away:
  assumes "\<not> androidValidated g" "epoch \<noteq> wakeServed l"
    and "takeProbe probeAt pw (l, a) = ((AtTop, acts), l', a')" "Probed (Some ProbeFailed) ns \<in> set acts"
    and "takeProbe probeAt' pw' (l', a') = ((p, acts'), st')" "probeAble pw'"
  shows "\<exists>acts' res ns. topHalf epoch g now' True probeAt' pw' (l', a') = ((p, acts'), st') \<and> Probed res ns \<in> set acts'"
proof -
  have "wakeServed l' = wakeServed l"
    using assms(3,4) by (auto simp: takeProbe_def Let_def split: if_splits prod.splits option.splits probeResult.splits)
  moreover have "wakeProbeDue g a' (lastProbeAt l') now'" using assms(1) by (simp add: wakeProbeDue_def networkLeftSince_def)
  moreover have "\<exists>res ns. Probed res ns \<in> set acts'"
    using assms(5,6) by (fastforce simp: takeProbe_def Let_def split: prod.splits option.splits probeResult.splits)
  ultimately show ?thesis using assms(2,5) by (auto simp: topHalf_def)
qed

end
