(* ===== verification/SessionWatch.thy ===== *)
theory SessionWatch
  imports GoBytes
begin

text \<open>
  What is watched of one session on a relay: the control plane of its allocation in the log of the TURN client
  (\<open>pkg/proxy/turn_permwatch.go\<close>), the relay asked for it (\<open>alloc_check.go\<close>), the first packet written through it
  (\<open>relay_write_probe.go\<close>), the refusal of its Allocate (\<open>turn_allocate_response.go\<close>) and the session's claim on its stream's ready flag
  (\<open>session_readiness.go\<close>). The log lines are strings; the STUN messages of a transaction come decoded.
\<close>

section \<open>The control plane in the log\<close>

definition bindFailMarker :: string where "bindFailMarker = ''Failed to bind channel''"
definition bindOKMarker :: string where "bindOKMarker = ''Channel binding successful''"
definition allocFailMarker :: string where "allocFailMarker = ''Failed to refresh allocation''"
definition allocOKMarker :: string where "allocOKMarker = ''Updated lifetime''"
definition permFailMarker :: string where "permFailMarker = ''Failed to refresh permissions''"
definition permOKMarker :: string where "permOKMarker = ''Refresh permissions successful''"
definition allocClosedMarker :: string where "allocClosedMarker = ''closing TURN allocation''"
definition permBadRequestMarker :: string where "permBadRequestMarker = ''(error 400:''"

lemmas permwatch_markers [go_consts] = bindFailMarker_def bindOKMarker_def allocFailMarker_def allocOKMarker_def permFailMarker_def
  permOKMarker_def allocClosedMarker_def permBadRequestMarker_def

definition bindFailThreshold :: nat where "bindFailThreshold = 2"
definition allocFailThreshold :: nat where "allocFailThreshold = 1"
definition permFailThreshold :: nat where "permFailThreshold = 2"

lemmas permwatch_thresholds [go_consts] = bindFailThreshold_def allocFailThreshold_def permFailThreshold_def

record permWatch =
  bindFails :: nat
  allocFails :: nat
  permFails :: nat
  deadReason :: "string option"   \<comment> \<open>the verdict, latched\<close>
  outOfReach :: bool
  readerErr :: "string option"

definition newPermWatch :: permWatch where
  "newPermWatch = \<lparr>bindFails = 0, allocFails = 0, permFails = 0, deadReason = None, outOfReach = False, readerErr = None\<rparr>"

definition readerStopped :: "string \<Rightarrow> permWatch \<Rightarrow> permWatch" where
  "readerStopped err w = (if readerErr w = None then w\<lparr>readerErr := Some err\<rparr> else w)"

definition markDeadAs :: "string \<Rightarrow> bool \<Rightarrow> permWatch \<Rightarrow> permWatch" where
  "markDeadAs reason unreachable w =
    (if deadReason w = None then w\<lparr>deadReason := Some reason, outOfReach := unreachable\<rparr> else w)"

definition markOutOfReach :: "string \<Rightarrow> permWatch \<Rightarrow> permWatch" where
  "markOutOfReach reason w = markDeadAs reason True w"

definition fired :: "permWatch \<Rightarrow> bool" where
  "fired w \<longleftrightarrow> deadReason w \<noteq> None"

definition notePion :: "string \<Rightarrow> permWatch \<Rightarrow> permWatch" where
  "notePion msg w =
    (let (w, fire, unreachable) =
       (if strContains msg bindOKMarker then (w\<lparr>bindFails := 0\<rparr>, False, False)
        else if strContains msg allocOKMarker then (w\<lparr>allocFails := 0\<rparr>, False, False)
        else if strContains msg permOKMarker then (w\<lparr>permFails := 0\<rparr>, False, False)
        else if strContains msg allocClosedMarker then (w, True, False)
        else if strContains msg bindFailMarker then
          (w\<lparr>bindFails := bindFails w + 1\<rparr>, bindFails w + 1 \<ge> bindFailThreshold, False)
        else if strContains msg allocFailMarker then
          (w\<lparr>allocFails := allocFails w + 1\<rparr>, allocFails w + 1 \<ge> allocFailThreshold, False)
        else if strContains msg permFailMarker then
          (let gone = strContains msg permBadRequestMarker
           in (w\<lparr>permFails := permFails w + 1\<rparr>, permFails w + 1 \<ge> permFailThreshold \<or> gone, gone))
        else (w, False, False))
     in if fire then markDeadAs msg unreachable w else w)"

section \<open>The relay asked\<close>

datatype permAnswer = PermGranted | PermError string "nat option"   \<comment> \<open>its text, and the code if the relay answered\<close>

definition pionTryAgain :: string where "pionTryAgain = ''try again''"

primrec askPermission :: "nat \<Rightarrow> (nat \<Rightarrow> permAnswer) \<Rightarrow> nat \<Rightarrow> permAnswer" where
  "askPermission 0 answer i = answer i"
| "askPermission (Suc n) answer i = (case answer i of
     PermGranted \<Rightarrow> PermGranted
   | PermError text code \<Rightarrow> if text \<noteq> pionTryAgain then PermError text code else askPermission n answer (i + 1))"

definition codeBadRequest :: nat where "codeBadRequest = 400"
declare codeBadRequest_def [go_consts]

definition allocCheck :: "string \<Rightarrow> (nat \<Rightarrow> permAnswer) \<Rightarrow> permWatch \<Rightarrow> permWatch" where
  "allocCheck why answer w = (case askPermission 2 answer 0 of
     PermGranted \<Rightarrow> w
   | PermError text code \<Rightarrow>
       if code = Some codeBadRequest then markOutOfReach (''allocation check after '' @ why @ '': '' @ text) w else w)"

section \<open>The first write\<close>

record writeProbe =
  startAt :: "gtime option"
  writeDone :: "(duration \<times> string option) option"

definition newRelayWriteProbe :: writeProbe where
  "newRelayWriteProbe = \<lparr>startAt = None, writeDone = None\<rparr>"

text \<open>A write begins, and is the one that is timed if it is the first; that one returns.\<close>

definition beginWrite :: "gtime \<Rightarrow> writeProbe \<Rightarrow> bool \<times> writeProbe" where
  "beginWrite now p = (if startAt p = None then (True, p\<lparr>startAt := Some now\<rparr>) else (False, p))"

definition endFirstWrite :: "gtime \<Rightarrow> string option \<Rightarrow> writeProbe \<Rightarrow> writeProbe" where
  "endFirstWrite now err p = (case startAt p of None \<Rightarrow> p | Some t \<Rightarrow> p\<lparr>writeDone := Some (tsub now t, err)\<rparr>)"

definition permissionGrantedIn :: "writeProbe option \<Rightarrow> duration" where
  "permissionGrantedIn conn = (case conn of
     Some p \<Rightarrow> (case writeDone p of Some (took, None) \<Rightarrow> took | _ \<Rightarrow> 0)
   | None \<Rightarrow> 0)"

datatype writeStory = NothingWritten | StillWaiting duration | WriteFailed duration string | Granted duration

definition describeWrite :: "gtime \<Rightarrow> writeProbe \<Rightarrow> writeStory" where
  "describeWrite now p = (case startAt p of
     None \<Rightarrow> NothingWritten
   | Some t \<Rightarrow> (case writeDone p of
       None \<Rightarrow> StillWaiting (tsub now t)
     | Some (took, Some err) \<Rightarrow> WriteFailed took err
     | Some (took, None) \<Rightarrow> Granted took))"

section \<open>The refusal of an Allocate\<close>

text \<open>
  A message written, as far as it is an Allocate request without integrity; one read, from the relay or not, as far as it is an
  answer to an Allocate, with the code of its error.
\<close>

datatype allocateClass = AllocateSuccess | AllocateError

record allocateConn =
  allocDone :: bool
  allocSent :: "nat option"   \<comment> \<open>the transaction\<close>
  refusal :: "nat option"

definition newAllocateConn :: allocateConn where
  "newAllocateConn = \<lparr>allocDone = False, allocSent = None, refusal = None\<rparr>"

definition codeUnauthorized :: nat where "codeUnauthorized = 401"
declare codeUnauthorized_def [go_consts]

definition writeAllocate :: "nat option \<Rightarrow> allocateConn \<Rightarrow> allocateConn" where
  "writeAllocate request c = (case request of
     None \<Rightarrow> c
   | Some txid \<Rightarrow> if allocDone c \<or> allocSent c \<noteq> None then c else c\<lparr>allocSent := Some txid\<rparr>)"

definition readAllocate :: "bool \<Rightarrow> (allocateClass \<times> nat \<times> nat option) option \<Rightarrow> allocateConn \<Rightarrow> allocateConn" where
  "readAllocate fromRelay reply c = (case reply of
     None \<Rightarrow> c
   | Some (cls, txid, code) \<Rightarrow>
       if allocDone c \<or> \<not> fromRelay \<or> allocSent c \<noteq> Some txid then c
       else c\<lparr>refusal := (case (cls, code) of
                (AllocateError, Some n) \<Rightarrow> if n \<noteq> codeUnauthorized then Some n else refusal c
              | _ \<Rightarrow> refusal c),
              allocDone := True\<rparr>)"

datatype allocateFailure = AttributeNotFound | RelayRefused nat | OtherFailure string

definition allocationError :: "allocateFailure \<Rightarrow> allocateConn \<Rightarrow> allocateFailure \<times> allocateConn" where
  "allocationError err c =
    ((case (err, refusal c) of (AttributeNotFound, Some code) \<Rightarrow> RelayRefused code | _ \<Rightarrow> err), c\<lparr>allocDone := True\<rparr>)"

section \<open>The claim on the ready flag\<close>

record readiness =
  readyEnding :: bool
  readyPublished :: bool
  readyCancelled :: bool

definition newReadiness :: readiness where
  "newReadiness = \<lparr>readyEnding = False, readyPublished = False, readyCancelled = False\<rparr>"

text \<open>The flag of the stream and the claim of one session on it.\<close>

definition publish :: "bool \<times> readiness \<Rightarrow> bool \<times> bool \<times> readiness" where
  "publish st = (case st of (flag, r) \<Rightarrow>
     if readyEnding r \<or> readyCancelled r then (False, flag, r) else (True, True, r\<lparr>readyPublished := True\<rparr>))"

definition endSession :: "bool \<times> readiness \<Rightarrow> bool \<times> readiness" where
  "endSession st = (case st of (flag, r) \<Rightarrow>
     if readyEnding r then (flag, r)
     else (if readyPublished r then False else flag, r\<lparr>readyEnding := True, readyCancelled := True\<rparr>))"

end
