(* ===== verification/SessionWatchProps.thy ===== *)
theory SessionWatchProps
  imports SessionWatch Traces
begin

text \<open>
  What the watches of a session promise: it is declared dead by the first word of the relay that says so, and a stream is ready exactly
  while a session that claimed it has not begun to end.
\<close>

section \<open>Words of the control plane\<close>

datatype pionWord = BindOK | AllocOK | PermOK | RelayClosed | BindFail | AllocFail | PermFail bool | OtherWord

definition wordOf :: "string \<Rightarrow> pionWord" where
  "wordOf msg =
    (if strContains msg bindOKMarker then BindOK else if strContains msg allocOKMarker then AllocOK
     else if strContains msg permOKMarker then PermOK else if strContains msg allocClosedMarker then RelayClosed
     else if strContains msg bindFailMarker then BindFail else if strContains msg allocFailMarker then AllocFail
     else if strContains msg permFailMarker then PermFail (strContains msg permBadRequestMarker) else OtherWord)"

text \<open>A failure of a kind since the last success of that kind; and the messages that are a verdict after those before them.\<close>

definition since :: "(pionWord \<Rightarrow> bool) \<Rightarrow> pionWord \<Rightarrow> string list \<Rightarrow> bool" where
  "since failure success msgs \<longleftrightarrow> (\<exists>u m v. msgs = u @ m # v \<and> failure (wordOf m) \<and> success \<notin> wordOf ` set v)"

fun isPermFail :: "pionWord \<Rightarrow> bool" where "isPermFail (PermFail gone) = True" | "isPermFail _ = False"

definition saysDead :: "string list \<Rightarrow> string \<Rightarrow> bool" where
  "saysDead before msg \<longleftrightarrow> (case wordOf msg of
     RelayClosed \<Rightarrow> True | AllocFail \<Rightarrow> True
   | BindFail \<Rightarrow> since ((=) BindFail) BindOK before
   | PermFail gone \<Rightarrow> gone \<or> since isPermFail PermOK before
   | _ \<Rightarrow> False)"

lemma since_snoc:
  "since failure success (msgs @ [m]) \<longleftrightarrow> failure (wordOf m) \<or> (since failure success msgs \<and> wordOf m \<noteq> success)"
proof
  assume "since failure success (msgs @ [m])"
  then obtain u x v where s: "msgs @ [m] = u @ x # v" "failure (wordOf x)" "success \<notin> wordOf ` set v" by (auto simp: since_def)
  show "failure (wordOf m) \<or> (since failure success msgs \<and> wordOf m \<noteq> success)"
  proof (cases v rule: rev_cases)
    case Nil
    then show ?thesis using s by simp
  next
    case (snoc v' y)
    then have "msgs = u @ x # v'" "y = m" using s(1) by simp_all
    then show ?thesis using s(2,3) snoc by (auto simp: since_def)
  qed
next
  assume "failure (wordOf m) \<or> (since failure success msgs \<and> wordOf m \<noteq> success)"
  then show "since failure success (msgs @ [m])"
  proof
    assume "failure (wordOf m)"
    then show ?thesis by (force simp: since_def)
  next
    assume a: "since failure success msgs \<and> wordOf m \<noteq> success"
    then obtain u x v where "msgs = u @ x # v" "failure (wordOf x)" "success \<notin> wordOf ` set v" by (auto simp: since_def)
    then show ?thesis using a unfolding since_def
      by (intro exI [of _ u] exI [of _ x] exI [of _ "v @ [m]"]) auto
  qed
qed

lemma since_Nil: "\<not> since failure success []"
  by (simp add: since_def)

lemma notePion_word:
  "notePion msg w =
    (let fire = (case wordOf msg of RelayClosed \<Rightarrow> True | AllocFail \<Rightarrow> True | BindFail \<Rightarrow> bindFails w > 0
                   | PermFail gone \<Rightarrow> gone \<or> permFails w > 0 | _ \<Rightarrow> False);
         w = (case wordOf msg of BindOK \<Rightarrow> w\<lparr>bindFails := 0\<rparr> | AllocOK \<Rightarrow> w\<lparr>allocFails := 0\<rparr> | PermOK \<Rightarrow> w\<lparr>permFails := 0\<rparr>
                | BindFail \<Rightarrow> w\<lparr>bindFails := bindFails w + 1\<rparr> | AllocFail \<Rightarrow> w\<lparr>allocFails := allocFails w + 1\<rparr>
                | PermFail gone \<Rightarrow> w\<lparr>permFails := permFails w + 1\<rparr> | _ \<Rightarrow> w)
     in if fire then markDeadAs msg (wordOf msg = PermFail True) w else w)"
  by (simp add: notePion_def wordOf_def Let_def bindFailThreshold_def allocFailThreshold_def permFailThreshold_def)

definition firstWord :: "string list \<Rightarrow> string option \<Rightarrow> bool" where
  "firstWord msgs reason \<longleftrightarrow> (case reason of
     None \<Rightarrow> \<forall>u m v. msgs = u @ m # v \<longrightarrow> \<not> saysDead u m
   | Some r \<Rightarrow> \<exists>u v. msgs = u @ r # v \<and> saysDead u r \<and> (\<forall>a m b. u = a @ m # b \<longrightarrow> \<not> saysDead a m))"

lemma firstWord_snoc:
  "firstWord msgs reason \<Longrightarrow> firstWord (msgs @ [m]) (case reason of Some r \<Rightarrow> Some r | None \<Rightarrow> if saysDead msgs m then Some m else None)"
proof (cases reason)
  case None
  assume f: "firstWord msgs reason"
  have e: "(v = [] \<and> u = msgs \<and> x = m) \<or> (\<exists>v'. msgs = u @ x # v')" if "msgs @ [m] = u @ x # v" for u x v
    using that by (cases v rule: rev_cases) auto
  have n: "\<not> saysDead u x" if "msgs = u @ x # v" for u x v using f None that by (auto simp: firstWord_def)
  show ?thesis
  proof (cases "saysDead msgs m")
    case True
    then show ?thesis using n None by (auto simp: firstWord_def)
  next
    case False
    have "\<not> saysDead u x" if "msgs @ [m] = u @ x # v" for u x v using e [OF that] n False by blast
    then show ?thesis using None False by (simp add: firstWord_def)
  qed
next
  case (Some r)
  assume "firstWord msgs reason"
  then obtain u v where "msgs = u @ r # v" "saysDead u r" "\<forall>a m b. u = a @ m # b \<longrightarrow> \<not> saysDead a m" using Some by (auto simp: firstWord_def)
  then have "msgs @ [m] = u @ r # (v @ [m]) \<and> saysDead u r \<and> (\<forall>a m b. u = a @ m # b \<longrightarrow> \<not> saysDead a m)" by simp
  then show ?thesis using Some unfolding firstWord_def by (simp only: option.case) blast
qed

lemma notePion_fold:
  "let w = fold notePion msgs newPermWatch in
    (bindFails w > 0 \<longleftrightarrow> since ((=) BindFail) BindOK msgs) \<and> (permFails w > 0 \<longleftrightarrow> since isPermFail PermOK msgs) \<and>
    firstWord msgs (deadReason w) \<and> (\<forall>r. deadReason w = Some r \<longrightarrow> (outOfReach w \<longleftrightarrow> wordOf r = PermFail True))"
proof (induction msgs rule: rev_induct)
  case Nil
  then show ?case by (simp add: newPermWatch_def since_Nil firstWord_def)
next
  case (snoc m msgs)
  let ?w = "fold notePion msgs newPermWatch"
  have i: "bindFails ?w > 0 \<longleftrightarrow> since ((=) BindFail) BindOK msgs" "permFails ?w > 0 \<longleftrightarrow> since isPermFail PermOK msgs"
    "firstWord msgs (deadReason ?w)" "\<forall>r. deadReason ?w = Some r \<longrightarrow> (outOfReach ?w \<longleftrightarrow> wordOf r = PermFail True)"
    using snoc.IH by (simp_all add: Let_def)
  have d: "saysDead msgs m \<longleftrightarrow> (case wordOf m of RelayClosed \<Rightarrow> True | AllocFail \<Rightarrow> True | BindFail \<Rightarrow> bindFails ?w > 0
      | PermFail gone \<Rightarrow> gone \<or> permFails ?w > 0 | _ \<Rightarrow> False)"
    using i(1,2) by (simp add: saysDead_def split: pionWord.splits)
  have r: "deadReason (notePion m ?w) = (case deadReason ?w of Some r \<Rightarrow> Some r | None \<Rightarrow> if saysDead msgs m then Some m else None)"
    "outOfReach (notePion m ?w) = (if deadReason ?w = None \<and> saysDead msgs m then wordOf m = PermFail True else outOfReach ?w)"
    unfolding d by (auto simp: notePion_word markDeadAs_def Let_def split: pionWord.splits option.splits)
  have b: "bindFails (notePion m ?w) > 0 \<longleftrightarrow> since ((=) BindFail) BindOK (msgs @ [m])"
    "permFails (notePion m ?w) > 0 \<longleftrightarrow> since isPermFail PermOK (msgs @ [m])"
    unfolding since_snoc i(1,2) [symmetric]
    by (auto simp: notePion_word markDeadAs_def Let_def split: pionWord.splits)
  show ?case
    using b r firstWord_snoc [OF i(3), of m] i(4) by (auto simp: Let_def split: option.splits if_splits)
qed



section \<open>The ready flag\<close>

text \<open>
  The sessions of a stream, the newest last. The next one begins when a session that claimed the flag has begun to end, since its
  transport waits for that; a session that failed before may end late. Only the newest publishes.
\<close>

datatype readyOp = NextSession | PublishNow | EndOf nat | CancelOf nat

definition claims :: "readiness \<Rightarrow> bool" where
  "claims r \<longleftrightarrow> readyPublished r \<and> \<not> readyEnding r"

fun readyStep :: "readyOp \<Rightarrow> bool \<times> readiness list \<Rightarrow> unit \<times> bool \<times> readiness list" where
  "readyStep NextSession (flag, rs) =
    ((), flag, if \<exists>r \<in> set rs. claims r then rs else rs @ [newReadiness])"
| "readyStep PublishNow (flag, rs) =
    ((), if rs = [] then (flag, rs) else (case publish (flag, last rs) of (ok, flag, r) \<Rightarrow> (flag, butlast rs @ [r])))"
| "readyStep (EndOf i) (flag, rs) =
    ((), if i < length rs then (case endSession (flag, rs ! i) of (flag, r) \<Rightarrow> (flag, rs[i := r])) else (flag, rs))"
| "readyStep (CancelOf i) (flag, rs) = ((), flag, if i < length rs then rs[i := (rs ! i)\<lparr>readyCancelled := True\<rparr>] else rs)"

definition oneClaim :: "bool \<times> readiness list \<Rightarrow> bool" where
  "oneClaim st \<longleftrightarrow> (case st of (flag, rs) \<Rightarrow> (flag \<longleftrightarrow> (rs \<noteq> [] \<and> claims (last rs))) \<and> (\<forall>r \<in> set (butlast rs). \<not> claims r))"

lemma none_claims_updated: "\<lbrakk>\<forall>x \<in> set old. \<not> claims x; \<not> claims r\<rbrakk> \<Longrightarrow> \<forall>x \<in> set (old[k := r]). \<not> claims x"
  using set_update_subset_insert [of old k r] by blast

lemma oneClaim_snoc:
  "oneClaim (flag, old @ [r]) \<longleftrightarrow> (flag \<longleftrightarrow> claims r) \<and> (\<forall>x \<in> set old. \<not> claims x)"
  by (simp add: oneClaim_def)

lemma readyStep_claim:
  assumes "oneClaim st" "readyStep q st = (u, st')"
  shows "oneClaim st'"
proof -
  obtain flag rs where st: "st = (flag, rs)" by (cases st)
  have i: "flag \<longleftrightarrow> (rs \<noteq> [] \<and> claims (last rs))" "\<forall>r \<in> set (butlast rs). \<not> claims r" using assms(1) st by (auto simp: oneClaim_def)
  show ?thesis
  proof (cases rs rule: rev_cases)
    case Nil
    then show ?thesis using assms(2) st i by (cases q) (auto simp: oneClaim_def claims_def newReadiness_def)
  next
    case (snoc old r)
    have none: "\<forall>x \<in> set old. \<not> claims x" and f: "flag \<longleftrightarrow> claims r" using i snoc by auto
    show ?thesis
    proof (cases q)
      case NextSession
      have new: "\<not> claims newReadiness" by (simp add: claims_def newReadiness_def)
      have "st' = (flag, if claims r then old @ [r] else (old @ [r]) @ [newReadiness])" using assms(2) st snoc none NextSession by auto
      then show ?thesis using f none new unfolding \<open>rs = old @ [r]\<close>
        by (cases "claims r") (simp_all only: if_True if_False oneClaim_snoc, auto)
    next
      case PublishNow
      then show ?thesis using assms(2) st f snoc none by (auto simp: oneClaim_snoc claims_def publish_def split: if_splits)
    next
      case (EndOf k)
      show ?thesis
      proof (cases "k < length old")
        case True
        then have "\<not> claims (old ! k)" using none by simp
        then have "fst (endSession (flag, old ! k)) = flag" "\<not> claims (snd (endSession (flag, old ! k)))"
          by (auto simp: endSession_def claims_def)
        then show ?thesis using assms(2) st f snoc none EndOf True
          by (cases "endSession (flag, old ! k)")
            (auto simp: oneClaim_snoc nth_append list_update_append dest: none_claims_updated)
      next
        case False
        then show ?thesis using assms(2) st f snoc none EndOf
          by (cases "k = length old") (auto simp: oneClaim_snoc claims_def endSession_def list_update_append split: if_splits)
      qed
    next
      case (CancelOf k)
      have "\<not> claims (r'\<lparr>readyCancelled := True\<rparr>)" if "r' \<in> set old" for r' using none that by (simp add: claims_def)
      then show ?thesis using assms(2) st f snoc none CancelOf
        by (cases "k < length old"; cases "k = length old")
          (auto simp: oneClaim_snoc claims_def nth_append list_update_append dest!: set_update_subset_insert [THEN subsetD])
    qed
  qed
qed

interpretation readied: traced readyStep "\<lambda>tr st. oneClaim st" "\<lambda>q. True"
  by unfold_locales (use readyStep_claim in blast)

text \<open>
  C19. Whatever order the sessions of a stream begin, publish, are cancelled and end in, the stream's ready flag is up exactly if some
  session that published has not begun to end, that session is the newest, and the late end of an older one leaves the flag as it is.
\<close>

theorem ready_is_the_live_claim:
  assumes "traceRun readyStep ops (False, []) = (tr, flag, rs)"
  shows "(flag \<longleftrightarrow> (\<exists>r \<in> set rs. claims r)) \<and> (\<forall>i < length rs. claims (rs ! i) \<longrightarrow> i = length rs - 1) \<and>
    (\<forall>i. i + 1 < length rs \<longrightarrow> fst (snd (readyStep (EndOf i) (flag, rs))) = flag)"
proof -
  have c: "oneClaim (flag, rs)" by (rule readied.run_establishes [OF assms]) (simp_all add: oneClaim_def)
  show ?thesis
  proof (cases rs rule: rev_cases)
    case Nil
    then show ?thesis using c by (simp add: oneClaim_def)
  next
    case (snoc old r)
    then have f: "flag \<longleftrightarrow> claims r" "\<forall>x \<in> set old. \<not> claims x" using c by (simp_all add: oneClaim_snoc)
    have "fst (snd (readyStep (EndOf i) (flag, rs))) = flag" if "i < length old" for i
    proof -
      have "\<not> claims (old ! i)" using f(2) that by simp
      then show ?thesis using snoc that by (auto simp: endSession_def claims_def nth_append)
    qed
    moreover have "i = length old" if "i < length rs" "claims (rs ! i)" for i
      using that f snoc by (cases "i < length old") (auto simp: nth_append)
    ultimately show ?thesis using f snoc by auto
  qed
qed

lemma ready_is_the_live_claim_witness:
  "let st = snd (traceRun readyStep [NextSession, EndOf 0, NextSession, PublishNow, EndOf 0, NextSession] (False, []))
   in fst st \<and> length (snd st) = 2 \<and> claims (snd st ! 1)"
proof -
  let ?ops = "[NextSession, EndOf 0, NextSession, PublishNow, EndOf 0, NextSession]"
  let ?run = "traceRun readyStep ?ops (False, [])"
  have r: "traceRun readyStep ?ops (False, []) = (fst ?run, fst (snd ?run), snd (snd ?run))" by simp
  have l: "length (snd (snd ?run)) = 2 \<and> fst (snd ?run)" by code_simp
  then obtain x where "x \<in> set (snd (snd ?run))" "claims x" using ready_is_the_live_claim [OF r] by blast
  then obtain i where "i < length (snd (snd ?run))" "claims (snd (snd ?run) ! i)" by (metis in_set_conv_nth)
  moreover then have "i = 1" using ready_is_the_live_claim [OF r] l by auto
  ultimately show ?thesis using l unfolding Let_def by simp
qed

end
