(* ===== verification/SrtpWrap.thy ===== *)
theory SrtpWrap
  imports GoBytes
begin

text \<open>
  The connection that looks like media (\<open>pkg/proxy/srtpwrap/srtp.go\<close>): the packets told apart by their first byte, the loops that deal them
  to the handshake and to the session, the deadlines of reads, the packets written and read, and the sessions of a listener. DTLS,
  SRTP and the form of an RTP packet are a library's: a handshake is its outcome, the two contexts and the packing of a header are
  parameters. A channel that is only ever closed is a number in a store that knows the closed ones; to close it again is a panic.
\<close>

section \<open>Packets told apart\<close>

definition IsDTLS :: "byte \<Rightarrow> bool" where
  "IsDTLS b \<longleftrightarrow> b \<ge> 20 \<and> b \<le> 63"

definition IsRTP :: "byte \<Rightarrow> bool" where
  "IsRTP b \<longleftrightarrow> b \<ge> 128 \<and> b \<le> 191"

text \<open>The fault that stopped the demux: kept once; what its readers are told.\<close>

datatype srtpErr = ErrClosed | UnderlayRead string | ErrDeadline

definition setFault :: "string \<Rightarrow> string option \<Rightarrow> string option" where
  "setFault err fault = (if fault = None then Some err else fault)"

definition closedErr :: "string option \<Rightarrow> srtpErr" where
  "closedErr fault = (case fault of Some err \<Rightarrow> UnderlayRead err | None \<Rightarrow> ErrClosed)"

text \<open>
  A read of the underlay: a datagram (the context ending while it waits for room in its channel, or not) or an error, the context ended by
  then or not.
\<close>

datatype underlayRead = Datagram "byte list" bool | ReadFails readFailure bool
  and readFailure = ClosedConn | TimedOut | ShortBuffer | OtherRead string

record demux =
  toDTLS :: "byte list list"
  toRTP :: "byte list list"
  fault :: "string option"
  demuxDone :: bool          \<comment> \<open>it has returned, and closed its channels\<close>

definition newDemux :: demux where
  "newDemux = \<lparr>toDTLS = [], toRTP = [], fault = None, demuxDone = False\<rparr>"

definition demuxRead :: "underlayRead \<Rightarrow> demux \<Rightarrow> demux" where
  "demuxRead r d =
    (if demuxDone d then d
     else case r of
       ReadFails err ctxEnded \<Rightarrow>
         if ctxEnded then d\<lparr>demuxDone := True\<rparr>
         else (case err of
             ClosedConn \<Rightarrow> d\<lparr>demuxDone := True\<rparr>
           | TimedOut \<Rightarrow> d
           | ShortBuffer \<Rightarrow> d
           | OtherRead e \<Rightarrow> d\<lparr>fault := setFault e (fault d), demuxDone := True\<rparr>)
     | Datagram pkt ended \<Rightarrow>
         if pkt = [] then d
         else if IsDTLS (hd pkt) then (if ended then d\<lparr>demuxDone := True\<rparr> else d\<lparr>toDTLS := toDTLS d @ [pkt]\<rparr>)
         else if IsRTP (hd pkt) then (if ended then d\<lparr>demuxDone := True\<rparr> else d\<lparr>toRTP := toRTP d @ [pkt]\<rparr>)
         else d)"

section \<open>Deadlines\<close>

record chanStore =
  chansMade :: nat
  closedChans :: "nat list"

definition makeChan :: "chanStore \<Rightarrow> nat \<times> chanStore" where
  "makeChan s = (chansMade s, s\<lparr>chansMade := chansMade s + 1\<rparr>)"

definition closeChan :: "nat \<Rightarrow> chanStore \<Rightarrow> chanStore option" where
  "closeChan n s = (if n \<in> set (closedChans s) then None else Some (s\<lparr>closedChans := n # closedChans s\<rparr>))"

text \<open>\<open>time.Until\<close>, and the instant a timer armed for what it answers is due.\<close>

definition until :: "gtime \<Rightarrow> gtime \<Rightarrow> duration" where
  "until t now = tsub t now"

text \<open>
  The deadline of the session's connection: one timer, armed again for each deadline. The runtime launches a timer that is due, and
  what it launched runs at some later instant, past any stop or rearming of the timer in between.
\<close>

record dlWrapped =
  wExp :: gtime
  wCh :: "nat option"
  wClosed :: bool
  wTimer :: "gtime option"
  wLaunched :: "gtime list"
  wStore :: chanStore

definition newWrapped :: dlWrapped where
  "newWrapped = \<lparr>wExp = zero_time, wCh = None, wClosed = False, wTimer = None, wLaunched = [],
     wStore = \<lparr>chansMade = 0, closedChans = []\<rparr>\<rparr>"

definition freshW :: "dlWrapped \<Rightarrow> dlWrapped" where
  "freshW c = (case makeChan (wStore c) of (n, s) \<Rightarrow> c\<lparr>wCh := Some n, wClosed := False, wStore := s\<rparr>)"

definition closeW :: "dlWrapped \<Rightarrow> dlWrapped option" where
  "closeW c = (case wCh c of None \<Rightarrow> None
     | Some n \<Rightarrow> (case closeChan n (wStore c) of None \<Rightarrow> None | Some s \<Rightarrow> Some (c\<lparr>wStore := s, wClosed := True\<rparr>)))"

definition setDlW :: "gtime \<Rightarrow> gtime \<Rightarrow> dlWrapped \<Rightarrow> dlWrapped option" where
  "setDlW now t c =
    (let c = c\<lparr>wExp := t\<rparr>; c = (if wCh c = None \<or> wClosed c then freshW c else c)
     in if is_zero t then Some (c\<lparr>wTimer := None\<rparr>)
        else let dur = until t now
             in if dur \<le> 0 then (case closeW c of None \<Rightarrow> None | Some c \<Rightarrow> Some (c\<lparr>wTimer := None\<rparr>))
                else Some (c\<lparr>wTimer := Some (now + dur)\<rparr>))"

definition fireDeadlineW :: "gtime \<Rightarrow> dlWrapped \<Rightarrow> dlWrapped option" where
  "fireDeadlineW now c =
    (if is_zero (wExp c) \<or> now < wExp c then Some c
     else if wCh c \<noteq> None \<and> \<not> wClosed c then closeW c
     else Some c)"

definition deadlineChW :: "dlWrapped \<Rightarrow> nat \<times> dlWrapped" where
  "deadlineChW c = (case wCh c of Some n \<Rightarrow> (n, c) | None \<Rightarrow> (let c = freshW c in (the (wCh c), c)))"

text \<open>
  The deadline of the adapter under the handshake: a timer of its own for each deadline, which closes the channel it was made for if that
  is still the one in force.
\<close>

record dlAdapter =
  aExp :: gtime
  aCh :: "nat option"
  aTimers :: "(gtime \<times> nat) list"
  aStore :: chanStore

definition newAdapter :: dlAdapter where
  "newAdapter = \<lparr>aExp = zero_time, aCh = None, aTimers = [], aStore = \<lparr>chansMade = 0, closedChans = []\<rparr>\<rparr>"

definition closeA :: "nat \<Rightarrow> dlAdapter \<Rightarrow> dlAdapter option" where
  "closeA n a = (case closeChan n (aStore a) of None \<Rightarrow> None | Some s \<Rightarrow> Some (a\<lparr>aStore := s\<rparr>))"

definition closeOpenA :: "nat \<Rightarrow> dlAdapter \<Rightarrow> dlAdapter option" where
  "closeOpenA n a = (if n \<in> set (closedChans (aStore a)) then Some a else closeA n a)"

definition freshA :: "dlAdapter \<Rightarrow> dlAdapter" where
  "freshA a = (case makeChan (aStore a) of (n, s) \<Rightarrow> a\<lparr>aCh := Some n, aStore := s\<rparr>)"

definition setDlA :: "gtime \<Rightarrow> gtime \<Rightarrow> dlAdapter \<Rightarrow> dlAdapter option" where
  "setDlA now t a =
    (case (case aCh a of Some n \<Rightarrow> closeOpenA n a | None \<Rightarrow> Some a) of
       None \<Rightarrow> None
     | Some a \<Rightarrow>
         let a = (freshA a)\<lparr>aExp := t\<rparr>; n = the (aCh a)
         in if is_zero t then Some a
            else let dur = until t now
                 in if dur \<le> 0 then closeA n a else Some (a\<lparr>aTimers := aTimers a @ [(now + dur, n)]\<rparr>))"

definition fireTimerA :: "nat \<Rightarrow> dlAdapter \<Rightarrow> dlAdapter option" where
  "fireTimerA n a = (if aCh a \<noteq> Some n then Some a else closeOpenA n a)"

definition deadlineChA :: "dlAdapter \<Rightarrow> nat \<times> dlAdapter" where
  "deadlineChA a = (case aCh a of Some n \<Rightarrow> (n, a) | None \<Rightarrow> (let a = freshA a in (the (aCh a), a)))"

text \<open>When a read that was woken by the channel gives up.\<close>

definition deadlineExpired :: "gtime \<Rightarrow> gtime \<Rightarrow> bool" where
  "deadlineExpired now expiry \<longleftrightarrow> \<not> is_zero expiry \<and> \<not> now < expiry"

text \<open>
  The calls in any order: a deadline set at an instant, a read asking for the channel, a timer launched by the runtime, a launched one
  running. A panic ends the process.
\<close>

datatype dlOp = SetDl gtime gtime | AskCh | Launch gtime | Fire gtime nat

definition stepW :: "dlOp \<Rightarrow> dlWrapped option \<Rightarrow> nat option \<times> dlWrapped option" where
  "stepW q st = (case st of None \<Rightarrow> (None, None)
   | Some c \<Rightarrow> (case q of
       SetDl now t \<Rightarrow> (None, setDlW now t c)
     | AskCh \<Rightarrow> (case deadlineChW c of (n, c) \<Rightarrow> (Some n, Some c))
     | Launch now \<Rightarrow> (None, Some (case wTimer c of
           Some due \<Rightarrow> if due \<le> now then c\<lparr>wTimer := None, wLaunched := wLaunched c @ [now]\<rparr> else c
         | None \<Rightarrow> c))
     | Fire now i \<Rightarrow>
         (None, if i < length (wLaunched c) \<and> wLaunched c ! i \<le> now
                then fireDeadlineW now (c\<lparr>wLaunched := take i (wLaunched c) @ drop (i + 1) (wLaunched c)\<rparr>)
                else Some c)))"

definition stepA :: "dlOp \<Rightarrow> dlAdapter option \<Rightarrow> nat option \<times> dlAdapter option" where
  "stepA q st = (case st of None \<Rightarrow> (None, None)
   | Some a \<Rightarrow> (case q of
       SetDl now t \<Rightarrow> (None, setDlA now t a)
     | AskCh \<Rightarrow> (case deadlineChA a of (n, a) \<Rightarrow> (Some n, Some a))
     | Launch now \<Rightarrow> (None, Some a)
     | Fire now i \<Rightarrow>
         (None, if i < length (aTimers a) \<and> fst (aTimers a ! i) \<le> now
                then fireTimerA (snd (aTimers a ! i)) (a\<lparr>aTimers := take i (aTimers a) @ drop (i + 1) (aTimers a)\<rparr>)
                else Some a)))"

section \<open>The session's packets\<close>

definition PayloadType :: nat where "PayloadType = 100"
declare PayloadType_def [go_consts]

record rtpHeader =
  rtpType :: nat
  rtpSeq :: "16 word"
  rtpTs :: "32 word"
  rtpSsrc :: "32 word"

record 'e txState =
  txSeq :: "16 word"
  txTs :: "32 word"
  encCtx :: 'e

datatype writeResult = Wrote nat | MarshalFailed | EncryptFailed | SendFailed

text \<open>
  \<open>Write\<close>: the packing of a header and a payload, the encryption, and the send to the relay, each of which may fail; what went out.
\<close>

definition srtpWrite ::
  "(rtpHeader \<Rightarrow> byte list \<Rightarrow> byte list option) \<Rightarrow> ('e \<Rightarrow> byte list \<Rightarrow> byte list option \<times> 'e) \<Rightarrow> 32 word \<Rightarrow> bool \<Rightarrow> byte list \<Rightarrow>
    'e txState \<Rightarrow> writeResult \<times> byte list option \<times> 'e txState" where
  "srtpWrite marshal enc ssrc sent b c =
    (let h = \<lparr>rtpType = PayloadType, rtpSeq = txSeq c, rtpTs = txTs c, rtpSsrc = ssrc\<rparr>;
         c = c\<lparr>txSeq := txSeq c + 1, txTs := txTs c + of_nat (length b)\<rparr>
     in (case marshal h b of
           None \<Rightarrow> (MarshalFailed, None, c)
         | Some raw \<Rightarrow> (case enc (encCtx c) raw of
             (None, e) \<Rightarrow> (EncryptFailed, None, c\<lparr>encCtx := e\<rparr>)
           | (Some pkt, e) \<Rightarrow>
               if sent then (Wrote (length b), Some pkt, c\<lparr>encCtx := e\<rparr>) else (SendFailed, None, c\<lparr>encCtx := e\<rparr>))))"

text \<open>
  \<open>Read\<close>: one turn of its loop on what its select took. A packet that does not decrypt or has no header is passed over; the size of a
  header is the library's.
\<close>

datatype readCase = RxPacket "byte list" | RxEnded | ConnClosed | DeadlineRang gtime

datatype readResult = ReadData "byte list" | ReadError srtpErr | ReadOn

definition srtpReadTurn ::
  "('d \<Rightarrow> byte list \<Rightarrow> byte list option \<times> 'd) \<Rightarrow> (byte list \<Rightarrow> nat option) \<Rightarrow> nat \<Rightarrow> gtime \<Rightarrow> string option \<Rightarrow> readCase \<Rightarrow> 'd \<Rightarrow>
    readResult \<times> 'd" where
  "srtpReadTurn dec headerSize room expiry flt what d = (case what of
     RxPacket pkt \<Rightarrow> (case dec d pkt of
         (None, d) \<Rightarrow> (ReadOn, d)
       | (Some plain, d) \<Rightarrow> (case headerSize plain of
           None \<Rightarrow> (ReadOn, d)
         | Some n \<Rightarrow> (ReadData (take room (drop n plain)), d)))
   | RxEnded \<Rightarrow> (ReadError (closedErr flt), d)
   | ConnClosed \<Rightarrow> (ReadError ErrClosed, d)
   | DeadlineRang now \<Rightarrow> ((if deadlineExpired now expiry then ReadError ErrDeadline else ReadOn), d))"

section \<open>The sessions of a listener\<close>

text \<open>
  A session is known by its source address; its two queues are bounded and drop what finds them full. The handshake of a session is
  running, has failed, or has handed out a connection, which may be closed.
\<close>

datatype sessionPhase = Handshaking | Serving | SessionOver

record srtpSession =
  sessKey :: string
  sessDTLS :: "byte list list"
  sessRTP :: "byte list list"
  sessPhase :: sessionPhase

record srtpServer =
  serverSessions :: "(string \<times> nat) list"
  sessionsMade :: "srtpSession list"

definition dtlsRoom :: nat where "dtlsRoom = 64"
definition rtpRoom :: nat where "rtpRoom = 4096"

declare dtlsRoom_def [go_consts] rtpRoom_def [go_consts]

definition sessionFor :: "string \<Rightarrow> srtpServer \<Rightarrow> nat \<times> srtpServer" where
  "sessionFor src s = (case map_of (serverSessions s) src of
     Some i \<Rightarrow> (i, s)
   | None \<Rightarrow> (length (sessionsMade s),
       s\<lparr>serverSessions := mput src (length (sessionsMade s)) (serverSessions s),
         sessionsMade := sessionsMade s @ [\<lparr>sessKey = src, sessDTLS = [], sessRTP = [], sessPhase = Handshaking\<rparr>]\<rparr>))"

definition offer :: "nat \<Rightarrow> 'a \<Rightarrow> 'a list \<Rightarrow> 'a list" where
  "offer room x q = (if length q < room then q @ [x] else q)"

definition serverDatagram :: "string \<Rightarrow> byte list \<Rightarrow> srtpServer \<Rightarrow> srtpServer" where
  "serverDatagram src pkt s =
    (if pkt = [] then s
     else (case sessionFor src s of (i, s) \<Rightarrow>
       let sess = sessionsMade s ! i;
           sess = (if IsDTLS (hd pkt) then sess\<lparr>sessDTLS := offer dtlsRoom pkt (sessDTLS sess)\<rparr>
                   else if IsRTP (hd pkt) then sess\<lparr>sessRTP := offer rtpRoom pkt (sessRTP sess)\<rparr>
                   else sess)
       in s\<lparr>sessionsMade := (sessionsMade s)[i := sess]\<rparr>))"

text \<open>A handshake that ends: with a connection, or the session is forgotten; and a connection that is closed, once.\<close>

definition endHandshake :: "nat \<Rightarrow> bool \<Rightarrow> srtpServer \<Rightarrow> srtpServer" where
  "endHandshake i ok s =
    (if i < length (sessionsMade s) \<and> sessPhase (sessionsMade s ! i) = Handshaking then
       (if ok then s\<lparr>sessionsMade := (sessionsMade s)[i := (sessionsMade s ! i)\<lparr>sessPhase := Serving\<rparr>]\<rparr>
        else s\<lparr>sessionsMade := (sessionsMade s)[i := (sessionsMade s ! i)\<lparr>sessPhase := SessionOver\<rparr>],
               serverSessions := mdel (sessKey (sessionsMade s ! i)) (serverSessions s)\<rparr>)
     else s)"

definition closeServed :: "nat \<Rightarrow> srtpServer \<Rightarrow> srtpServer" where
  "closeServed i s =
    (if i < length (sessionsMade s) \<and> sessPhase (sessionsMade s ! i) = Serving then
       s\<lparr>sessionsMade := (sessionsMade s)[i := (sessionsMade s ! i)\<lparr>sessPhase := SessionOver\<rparr>],
         serverSessions := mdel (sessKey (sessionsMade s ! i)) (serverSessions s)\<rparr>
     else s)"

end
