(* ===== verification/SrtpWrapProps.thy ===== *)
theory SrtpWrapProps
  imports SrtpWrap Traces
begin

text \<open>
  What the connection that looks like media promises: its deadlines wake the reads they are for and never panic, every datagram reaches
  the reader it is for, what is written is read, and a source has one session at a time.
\<close>

section \<open>Deadlines\<close>

text \<open>A deadline within the range of a duration from the instant it is set at, 292 years.\<close>

fun inRange :: "dlOp \<Rightarrow> bool" where
  "inRange (SetDl now t) \<longleftrightarrow> t - now \<le> 9223372036854775807"
| "inRange _ \<longleftrightarrow> True"

definition handedOut :: "(dlOp \<times> nat option) list \<Rightarrow> nat set" where
  "handedOut tr = {n. \<exists>q. (q, Some n) \<in> set tr}"

text \<open>
  The contract of a connection with a deadline: a call never panics, the channel in force is replaced only once it is closed, and
  when the runtime has run all that is due a passed deadline has closed it.
\<close>

locale deadline_conn =
  fixes step :: "dlOp \<Rightarrow> 's option \<Rightarrow> nat option \<times> 's option"
    and good :: "'s \<Rightarrow> bool" and channel :: "'s \<Rightarrow> nat option" and shut :: "'s \<Rightarrow> nat set"
    and expiry :: "'s \<Rightarrow> gtime" and settled :: "gtime \<Rightarrow> 's \<Rightarrow> bool"
  assumes step_good: "\<lbrakk>good s; inRange q\<rbrakk> \<Longrightarrow> \<exists>n s'. step q (Some s) = (n, Some s') \<and> good s'"
    and keeps_channel: "\<lbrakk>good s; inRange q; step q (Some s) = (answer, Some s')\<rbrakk> \<Longrightarrow>
      shut s \<subseteq> shut s' \<and> (\<forall>n. channel s = Some n \<longrightarrow> channel s' = Some n \<or> n \<in> shut s') \<and>
      (\<forall>n. answer = Some n \<longrightarrow> channel s' = Some n)"
    and wakes: "\<lbrakk>good s; settled now s; deadlineExpired now (expiry s); channel s = Some n\<rbrakk> \<Longrightarrow> n \<in> shut s"
begin

definition inForce :: "(dlOp \<times> nat option) list \<Rightarrow> 's option \<Rightarrow> bool" where
  "inForce tr st \<longleftrightarrow> (\<exists>s. st = Some s \<and> good s \<and> (\<forall>n \<in> handedOut tr. channel s = Some n \<or> n \<in> shut s))"

lemma inForce_step:
  assumes "inForce tr st" "inRange q" "step q st = (answer, st')"
  shows "inForce (tr @ [(q, answer)]) st'"
proof -
  obtain s where s: "st = Some s" "good s" "\<forall>n \<in> handedOut tr. channel s = Some n \<or> n \<in> shut s" using assms(1) by (auto simp: inForce_def)
  obtain s' where s': "st' = Some s'" "good s'" using step_good [OF s(2) assms(2)] assms(3) s(1) by auto
  have k: "shut s \<subseteq> shut s'" "\<And>n. channel s = Some n \<Longrightarrow> channel s' = Some n \<or> n \<in> shut s'" "\<And>n. answer = Some n \<Longrightarrow> channel s' = Some n"
    using keeps_channel [OF s(2) assms(2), of answer s'] assms(3) s(1) s'(1) by auto
  have "channel s' = Some n \<or> n \<in> shut s'" if "n \<in> handedOut (tr @ [(q, answer)])" for n
    using that k s(3) by (auto simp: handedOut_def)
  then show ?thesis using s' by (auto simp: inForce_def)
qed

end

sublocale deadline_conn \<subseteq> calls: traced step inForce inRange
  by unfold_locales (rule inForce_step)

context deadline_conn
begin

lemma run_wakes:
  assumes "traceRun step ops (Some s0) = (tr, st)" "good s0" "\<forall>q \<in> set ops. inRange q"
  shows "\<exists>s. st = Some s \<and> (\<forall>now. settled now s \<and> deadlineExpired now (expiry s) \<longrightarrow> handedOut tr \<subseteq> shut s)"
proof -
  have "inForce tr st" by (rule calls.run_establishes [OF assms(1) _ assms(3)]) (simp add: inForce_def handedOut_def assms(2))
  then show ?thesis using wakes by (fastforce simp: inForce_def)
qed

end

subsection \<open>The session's connection\<close>

definition goodW :: "dlWrapped \<Rightarrow> bool" where
  "goodW c \<longleftrightarrow>
    (\<forall>n \<in> set (closedChans (wStore c)). n < chansMade (wStore c)) \<and>
    (case wCh c of None \<Rightarrow> is_zero (wExp c) | Some n \<Rightarrow> n < chansMade (wStore c) \<and> (wClosed c \<longleftrightarrow> n \<in> set (closedChans (wStore c)))) \<and>
    (\<not> is_zero (wExp c) \<and> \<not> wClosed c \<longrightarrow> wTimer c = Some (wExp c) \<or> (\<exists>l \<in> set (wLaunched c). wExp c \<le> l))"

definition settledW :: "gtime \<Rightarrow> dlWrapped \<Rightarrow> bool" where
  "settledW now c \<longleftrightarrow> wLaunched c = [] \<and> (\<forall>due. wTimer c = Some due \<longrightarrow> now < due)"

definition shutW :: "dlWrapped \<Rightarrow> nat set" where "shutW c = set (closedChans (wStore c))"

lemma goodW_new: "goodW newWrapped"
  by (simp add: goodW_def newWrapped_def)

lemma freshW_good:
  "goodW c \<Longrightarrow> wCh (freshW c) = Some (chansMade (wStore c)) \<and> \<not> wClosed (freshW c) \<and> wExp (freshW c) = wExp c \<and>
    wTimer (freshW c) = wTimer c \<and> wLaunched (freshW c) = wLaunched c \<and> shutW (freshW c) = shutW c \<and>
    chansMade (wStore (freshW c)) = chansMade (wStore c) + 1 \<and> chansMade (wStore c) \<notin> shutW c"
  by (auto simp: freshW_def makeChan_def goodW_def shutW_def)

definition readyW :: "dlWrapped \<Rightarrow> dlWrapped \<Rightarrow> bool" where
  "readyW c c' \<longleftrightarrow> (\<exists>n. wCh c' = Some n \<and> n < chansMade (wStore c') \<and> n \<notin> shutW c') \<and> \<not> wClosed c' \<and>
    (\<forall>n \<in> shutW c'. n < chansMade (wStore c')) \<and> shutW c' = shutW c \<and>
    (\<forall>n. wCh c = Some n \<longrightarrow> wCh c' = Some n \<or> n \<in> shutW c)"

lemma freshW_ready:
  assumes "goodW c"
  shows "readyW c (if wCh c = None \<or> wClosed c then freshW (c\<lparr>wExp := t\<rparr>) else c\<lparr>wExp := t\<rparr>)"
proof (cases "wCh c = None \<or> wClosed c")
  case True
  then show ?thesis using assms
    by (auto simp: readyW_def goodW_def freshW_def makeChan_def shutW_def split: option.splits)
next
  case False
  then show ?thesis using assms by (auto simp: readyW_def goodW_def shutW_def split: option.splits)
qed

lemma setDlW_good:
  assumes "goodW c" "inRange (SetDl now t)"
  shows "\<exists>c'. setDlW now t c = Some c' \<and> goodW c' \<and> shutW c \<subseteq> shutW c' \<and> (\<forall>n. wCh c = Some n \<longrightarrow> wCh c' = Some n \<or> n \<in> shutW c')"
proof -
  let ?c = "if wCh c = None \<or> wClosed c then freshW (c\<lparr>wExp := t\<rparr>) else c\<lparr>wExp := t\<rparr>"
  have r: "readyW c ?c" by (rule freshW_ready [OF assms(1)])
  then obtain n where n: "wCh ?c = Some n" "n < chansMade (wStore ?c)" "n \<notin> shutW ?c" "\<not> wClosed ?c"
    "\<forall>n \<in> shutW ?c. n < chansMade (wStore ?c)" "shutW ?c = shutW c" "\<forall>n. wCh c = Some n \<longrightarrow> wCh ?c = Some n \<or> n \<in> shutW c"
    unfolding readyW_def by blast
  have x: "wExp ?c = t" by (simp add: freshW_def makeChan_def)
  have e: "setDlW now t c =
      (if is_zero t then Some (?c\<lparr>wTimer := None\<rparr>)
       else if until t now \<le> 0 then (case closeW ?c of None \<Rightarrow> None | Some c \<Rightarrow> Some (c\<lparr>wTimer := None\<rparr>))
       else Some (?c\<lparr>wTimer := Some (now + until t now)\<rparr>))"
    by (simp add: setDlW_def Let_def)
  obtain d where d: "d = ?c" by blast
  note f = n [folded d] x [folded d] e [folded d]
  show ?thesis
  proof (cases "is_zero t")
    case True
    then show ?thesis using f by (auto simp: goodW_def shutW_def)
  next
    case nz: False
    show ?thesis
    proof (cases "until t now \<le> 0")
      case True
      then have "closeW d = Some (d\<lparr>wStore := wStore d\<lparr>closedChans := n # closedChans (wStore d)\<rparr>, wClosed := True\<rparr>)"
        using f by (simp add: closeW_def closeChan_def shutW_def)
      then show ?thesis using f nz True by (auto simp: goodW_def shutW_def)
    next
      case False
      then have "now + until t now = t" using assms(2) by (auto simp: until_def tsub_def min_def max_def split: if_splits)
      then show ?thesis using f nz False by (auto simp: goodW_def shutW_def)
    qed
  qed
qed

lemma fireW_good:
  assumes "goodW c" "i < length (wLaunched c)" "wLaunched c ! i \<le> now"
  shows "\<exists>c'. fireDeadlineW now (c\<lparr>wLaunched := take i (wLaunched c) @ drop (i + 1) (wLaunched c)\<rparr>) = Some c' \<and> goodW c' \<and>
    shutW c \<subseteq> shutW c' \<and> wCh c' = wCh c"
proof -
  let ?l = "take i (wLaunched c) @ drop (i + 1) (wLaunched c)"
  have s: "set (wLaunched c) = insert (wLaunched c ! i) (set ?l)"
    using id_take_nth_drop [OF assms(2)] by (metis Suc_eq_plus1 list.simps(15) set_append Un_insert_right)
  show ?thesis
  proof (cases "is_zero (wExp c) \<or> now < wExp c")
    case True
    have "l \<in> set ?l" if "l \<in> set (wLaunched c)" "wExp c \<le> l" "\<not> is_zero (wExp c)" for l using that s True assms(3) by auto
    then have "goodW (c\<lparr>wLaunched := ?l\<rparr>)" using assms(1) unfolding goodW_def by (auto split: option.splits)
    then show ?thesis using True by (auto simp: fireDeadlineW_def shutW_def)
  next
    case due: False
    then obtain n where n: "wCh c = Some n" using assms(1) by (auto simp: goodW_def split: option.splits)
    show ?thesis
    proof (cases "wClosed c")
      case True
      then show ?thesis using due n assms(1) by (auto simp: fireDeadlineW_def goodW_def shutW_def)
    next
      case False
      then have "n \<notin> set (closedChans (wStore c))" using n assms(1) by (auto simp: goodW_def)
      then show ?thesis using due n False assms(1) by (auto simp: fireDeadlineW_def closeW_def closeChan_def goodW_def shutW_def)
    qed
  qed
qed

lemma stepW_good:
  assumes "goodW c" "inRange q" "stepW q (Some c) = (answer, st)"
  shows "\<exists>c'. st = Some c' \<and> goodW c' \<and> shutW c \<subseteq> shutW c' \<and> (\<forall>n. wCh c = Some n \<longrightarrow> wCh c' = Some n \<or> n \<in> shutW c') \<and>
    (\<forall>n. answer = Some n \<longrightarrow> wCh c' = Some n)"
proof (cases q)
  case (SetDl now t)
  then show ?thesis using assms setDlW_good [OF assms(1), of now t] by (auto simp: stepW_def)
next
  case AskCh
  show ?thesis
  proof (cases "wCh c")
    case None
    then have "goodW (freshW c)" using assms(1) by (auto simp: goodW_def freshW_def makeChan_def)
    then show ?thesis using None assms AskCh freshW_good [OF assms(1)]
      by (auto simp: stepW_def deadlineChW_def Let_def)
  next
    case (Some n)
    then show ?thesis using assms AskCh by (auto simp: stepW_def deadlineChW_def)
  qed
next
  case (Launch now)
  show ?thesis
  proof (cases "wTimer c")
    case None
    then show ?thesis using assms Launch by (auto simp: stepW_def)
  next
    case (Some due)
    then have "due \<le> now \<Longrightarrow> goodW (c\<lparr>wTimer := None, wLaunched := wLaunched c @ [now]\<rparr>)"
      using assms(1) by (auto simp: goodW_def split: option.splits)
    then show ?thesis using Some assms Launch by (auto simp: stepW_def shutW_def)
  qed
next
  case (Fire now i)
  then show ?thesis using assms fireW_good [OF assms(1), of i now] by (cases "i < length (wLaunched c) \<and> wLaunched c ! i \<le> now")
      (auto simp: stepW_def)
qed

interpretation session: deadline_conn stepW goodW wCh shutW wExp settledW
proof
  show "\<exists>n s'. stepW q (Some s) = (n, Some s') \<and> goodW s'" if "goodW s" "inRange q" for s q
    using stepW_good [OF that] by (cases "stepW q (Some s)") blast
  show "shutW s \<subseteq> shutW s' \<and> (\<forall>n. wCh s = Some n \<longrightarrow> wCh s' = Some n \<or> n \<in> shutW s') \<and> (\<forall>n. answer = Some n \<longrightarrow> wCh s' = Some n)"
    if "goodW s" "inRange q" "stepW q (Some s) = (answer, Some s')" for s q answer s'
    using stepW_good [OF that] by auto
  show "n \<in> shutW s" if "goodW s" "settledW now s" "deadlineExpired now (wExp s)" "wCh s = Some n" for s now n
    using that by (auto simp: goodW_def settledW_def deadlineExpired_def shutW_def)
qed

subsection \<open>The adapter under the handshake\<close>

definition goodA :: "dlAdapter \<Rightarrow> bool" where
  "goodA a \<longleftrightarrow>
    (\<forall>n \<in> set (closedChans (aStore a)). n < chansMade (aStore a)) \<and>
    (case aCh a of None \<Rightarrow> is_zero (aExp a) | Some n \<Rightarrow> n < chansMade (aStore a) \<and>
       (\<not> is_zero (aExp a) \<longrightarrow> n \<in> set (closedChans (aStore a)) \<or> (aExp a, n) \<in> set (aTimers a)))"

definition settledA :: "gtime \<Rightarrow> dlAdapter \<Rightarrow> bool" where
  "settledA now a \<longleftrightarrow> (\<forall>(due, n) \<in> set (aTimers a). now < due)"

definition shutA :: "dlAdapter \<Rightarrow> nat set" where "shutA a = set (closedChans (aStore a))"

lemma goodA_new: "goodA newAdapter"
  by (simp add: goodA_def newAdapter_def)

lemma closeOpenA_eq: "\<exists>cs. closeOpenA n a = Some (a\<lparr>aStore := (aStore a)\<lparr>closedChans := cs\<rparr>\<rparr>) \<and> set cs = insert n (shutA a)"
proof (cases "n \<in> set (closedChans (aStore a))")
  case True
  then show ?thesis by (intro exI [of _ "closedChans (aStore a)"]) (auto simp: closeOpenA_def shutA_def)
next
  case False
  then show ?thesis by (auto simp: closeOpenA_def closeA_def closeChan_def shutA_def)
qed

lemma setDlA_good:
  assumes "goodA a" "inRange (SetDl now t)"
  shows "\<exists>a'. setDlA now t a = Some a' \<and> goodA a' \<and> shutA a \<subseteq> shutA a' \<and> (\<forall>n. aCh a = Some n \<longrightarrow> aCh a' = Some n \<or> n \<in> shutA a')"
proof -
  obtain b where b: "(case aCh a of Some n \<Rightarrow> closeOpenA n a | None \<Rightarrow> Some a) = Some b" "aCh b = aCh a" "aTimers b = aTimers a"
    "chansMade (aStore b) = chansMade (aStore a)" "shutA a \<subseteq> shutA b" "\<forall>n. aCh a = Some n \<longrightarrow> n \<in> shutA b"
    "\<forall>n \<in> shutA b. n < chansMade (aStore b)"
  proof (cases "aCh a")
    case None
    then show ?thesis using that [of a] assms(1) by (auto simp: goodA_def shutA_def)
  next
    case (Some n)
    then obtain cs where cs: "closeOpenA n a = Some (a\<lparr>aStore := (aStore a)\<lparr>closedChans := cs\<rparr>\<rparr>)" "set cs = insert n (shutA a)"
      using closeOpenA_eq by blast
    have "n < chansMade (aStore a)" "\<forall>n \<in> shutA a. n < chansMade (aStore a)" using assms(1) Some by (auto simp: goodA_def shutA_def)
    then show ?thesis using that [of "a\<lparr>aStore := (aStore a)\<lparr>closedChans := cs\<rparr>\<rparr>"] Some cs by (auto simp: shutA_def)
  qed
  let ?a = "(freshA b)\<lparr>aExp := t\<rparr>" and ?n = "chansMade (aStore b)"
  have f: "aCh ?a = Some ?n" "aTimers ?a = aTimers b" "shutA ?a = shutA b" "chansMade (aStore ?a) = ?n + 1" "aExp ?a = t" "?n \<notin> shutA b"
    using b(7) by (auto simp: freshA_def makeChan_def shutA_def)
  have e: "setDlA now t a = (if is_zero t then Some ?a else if until t now \<le> 0 then closeA ?n ?a
      else Some (?a\<lparr>aTimers := aTimers ?a @ [(now + until t now, ?n)]\<rparr>))"
    using f(1) by (simp add: setDlA_def b(1) Let_def)
  obtain d where d: "d = ?a" by blast
  note g = f [folded d] e [folded d] b(5-7)
  show ?thesis
  proof (cases "is_zero t")
    case True
    then show ?thesis using g by (auto simp: goodA_def shutA_def)
  next
    case nz: False
    show ?thesis
    proof (cases "until t now \<le> 0")
      case True
      then have "closeA ?n d = Some (d\<lparr>aStore := (aStore d)\<lparr>closedChans := ?n # closedChans (aStore d)\<rparr>\<rparr>)"
        using g by (simp add: closeA_def closeChan_def shutA_def)
      then show ?thesis using g nz True by (auto simp: goodA_def shutA_def)
    next
      case False
      then have "now + until t now = t" using assms(2) by (auto simp: until_def tsub_def min_def max_def split: if_splits)
      then show ?thesis using g nz False by (auto simp: goodA_def shutA_def)
    qed
  qed
qed

lemma fireA_good:
  assumes "goodA a" "i < length (aTimers a)"
  shows "\<exists>a'. fireTimerA (snd (aTimers a ! i)) (a\<lparr>aTimers := take i (aTimers a) @ drop (i + 1) (aTimers a)\<rparr>) = Some a' \<and> goodA a' \<and>
    shutA a \<subseteq> shutA a' \<and> aCh a' = aCh a"
proof -
  let ?l = "take i (aTimers a) @ drop (i + 1) (aTimers a)"
  obtain due n where t: "aTimers a ! i = (due, n)" by (cases "aTimers a ! i")
  have s: "set (aTimers a) = insert (due, n) (set ?l)"
    using id_take_nth_drop [OF assms(2)] t by (metis Suc_eq_plus1 list.simps(15) set_append Un_insert_right)
  show ?thesis
  proof (cases "aCh a = Some n")
    case False
    then have "goodA (a\<lparr>aTimers := ?l\<rparr>)" using assms(1) s by (auto simp: goodA_def split: option.splits)
    then show ?thesis using False t by (auto simp: fireTimerA_def shutA_def)
  next
    case True
    obtain cs where cs: "closeOpenA n (a\<lparr>aTimers := ?l\<rparr>) = Some (a\<lparr>aTimers := ?l, aStore := (aStore a)\<lparr>closedChans := cs\<rparr>\<rparr>)"
      "set cs = insert n (shutA a)"
      using closeOpenA_eq [of n "a\<lparr>aTimers := ?l\<rparr>"] by (auto simp: shutA_def)
    then show ?thesis using True t assms(1) by (auto simp: fireTimerA_def goodA_def shutA_def)
  qed
qed

lemma stepA_good:
  assumes "goodA a" "inRange q" "stepA q (Some a) = (answer, st)"
  shows "\<exists>a'. st = Some a' \<and> goodA a' \<and> shutA a \<subseteq> shutA a' \<and> (\<forall>n. aCh a = Some n \<longrightarrow> aCh a' = Some n \<or> n \<in> shutA a') \<and>
    (\<forall>n. answer = Some n \<longrightarrow> aCh a' = Some n)"
proof (cases q)
  case (SetDl now t)
  then show ?thesis using assms setDlA_good [OF assms(1), of now t] by (auto simp: stepA_def)
next
  case AskCh
  show ?thesis
  proof (cases "aCh a")
    case None
    then show ?thesis using assms AskCh by (force simp: stepA_def deadlineChA_def Let_def freshA_def makeChan_def goodA_def shutA_def)
  next
    case (Some n)
    then show ?thesis using assms AskCh by (auto simp: stepA_def deadlineChA_def)
  qed
next
  case (Launch now)
  then show ?thesis using assms by (auto simp: stepA_def)
next
  case (Fire now i)
  then show ?thesis using assms fireA_good [OF assms(1), of i] by (cases "i < length (aTimers a) \<and> fst (aTimers a ! i) \<le> now")
      (auto simp: stepA_def)
qed

interpretation adapter: deadline_conn stepA goodA aCh shutA aExp settledA
proof
  show "\<exists>n s'. stepA q (Some s) = (n, Some s') \<and> goodA s'" if "goodA s" "inRange q" for s q
    using stepA_good [OF that] by (cases "stepA q (Some s)") blast
  show "shutA s \<subseteq> shutA s' \<and> (\<forall>n. aCh s = Some n \<longrightarrow> aCh s' = Some n \<or> n \<in> shutA s') \<and> (\<forall>n. answer = Some n \<longrightarrow> aCh s' = Some n)"
    if "goodA s" "inRange q" "stepA q (Some s) = (answer, Some s')" for s q answer s'
    using stepA_good [OF that] by auto
  show "n \<in> shutA s" if "goodA s" "settledA now s" "deadlineExpired now (aExp s)" "aCh s = Some n" for s now n
    using that by (auto simp: goodA_def settledA_def deadlineExpired_def shutA_def)
qed

text \<open>
  C27. However deadlines are set, reads ask for their channel and timers fire, late ones among them, neither connection ever closes a
  channel twice; and once the runtime has run what is due, a deadline that has passed has woken every read that waits.
\<close>

theorem passed_deadline_wakes_every_read:
  assumes "traceRun stepW ops (Some newWrapped) = (trW, stW)" "traceRun stepA ops (Some newAdapter) = (trA, stA)"
    and "\<forall>q \<in> set ops. inRange q"
  shows "\<exists>c a. stW = Some c \<and> stA = Some a \<and>
    (\<forall>now. settledW now c \<and> deadlineExpired now (wExp c) \<longrightarrow> handedOut trW \<subseteq> set (closedChans (wStore c))) \<and>
    (\<forall>now. settledA now a \<and> deadlineExpired now (aExp a) \<longrightarrow> handedOut trA \<subseteq> set (closedChans (aStore a)))"
  using session.run_wakes [OF assms(1) goodW_new assms(3)] adapter.run_wakes [OF assms(2) goodA_new assms(3)]
  by (auto simp: shutW_def shutA_def)

lemma passed_deadline_wakes_every_read_witness:
  "let ops = [AskCh, SetDl 100 200, Launch 200, SetDl 200 300, Fire 250 0, AskCh, Launch 300, Fire 305 0];
     (trW, stW) = traceRun stepW ops (Some newWrapped); (trA, stA) = traceRun stepA ops (Some newAdapter)
   in handedOut trW \<noteq> {} \<and> handedOut trW \<subseteq> set (closedChans (wStore (the stW))) \<and>
      handedOut trA \<noteq> {} \<and> handedOut trA \<subseteq> set (closedChans (aStore (the stA)))"
proof -
  let ?ops = "[AskCh, SetDl 100 200, Launch 200, SetDl 200 300, Fire 250 0, AskCh, Launch 300, Fire 305 0]"
  let ?rest = "[(SetDl 100 200, None), (Launch 200, None), (SetDl 200 300, None), (Fire 250 0, None)]"
  let ?c = "\<lparr>wExp = 300, wCh = Some 0, wClosed = True, wTimer = None, wLaunched = [], wStore = \<lparr>chansMade = 1, closedChans = [0]\<rparr>\<rparr>"
  let ?a = "\<lparr>aExp = 300, aCh = Some 2, aTimers = [], aStore = \<lparr>chansMade = 3, closedChans = [2, 1, 0]\<rparr>\<rparr>"
  have w: "traceRun stepW ?ops (Some newWrapped) =
      ((AskCh, Some 0) # ?rest @ [(AskCh, Some 0), (Launch 300, None), (Fire 305 0, None)], Some ?c)"
    by code_simp
  have a: "traceRun stepA ?ops (Some newAdapter) =
      ((AskCh, Some 0) # ?rest @ [(AskCh, Some 2), (Launch 300, None), (Fire 305 0, None)], Some ?a)"
    by code_simp
  have r: "\<forall>q \<in> set ?ops. inRange q" by simp
  have "settledW 305 ?c" "settledA 305 ?a" "deadlineExpired 305 300"
    by (simp_all add: settledW_def settledA_def deadlineExpired_def zero_time_def)
  then show ?thesis
    using passed_deadline_wakes_every_read [OF w a r] unfolding w a Let_def prod.case
    by (auto simp: handedOut_def)
qed

section \<open>The demux\<close>

text \<open>What ends the loop: a failure that is not a passing one, or the context ending under it.\<close>

fun endsDemux :: "underlayRead \<Rightarrow> bool" where
  "endsDemux (Datagram pkt ended) \<longleftrightarrow> ended \<and> pkt \<noteq> [] \<and> (IsDTLS (hd pkt) \<or> IsRTP (hd pkt))"
| "endsDemux (ReadFails err ended) \<longleftrightarrow> ended \<or> (err \<noteq> TimedOut \<and> err \<noteq> ShortBuffer)"

fun payloadsOf :: "(byte \<Rightarrow> bool) \<Rightarrow> underlayRead list \<Rightarrow> byte list list" where
  "payloadsOf kind [] = []"
| "payloadsOf kind (Datagram pkt ended # rs) = (if pkt \<noteq> [] \<and> kind (hd pkt) then pkt # payloadsOf kind rs else payloadsOf kind rs)"
| "payloadsOf kind (ReadFails err ended # rs) = payloadsOf kind rs"

fun faultOf :: "underlayRead \<Rightarrow> string option" where
  "faultOf (ReadFails (OtherRead e) False) = Some e"
| "faultOf _ = None"

lemma payloadsOf_append [simp]: "payloadsOf kind (rs @ us) = payloadsOf kind rs @ payloadsOf kind us"
  by (induction kind rs rule: payloadsOf.induct) auto

lemma kinds_disjoint: "IsDTLS b \<Longrightarrow> \<not> IsRTP b"
  by (auto simp: IsDTLS_def IsRTP_def word_le_nat_alt)

lemma demuxRead_done: "demuxDone d \<Longrightarrow> fold demuxRead rs d = d"
  by (induction rs) (auto simp: demuxRead_def)

lemma demuxRead_passing:
  "\<lbrakk>\<not> demuxDone d; \<not> endsDemux r\<rbrakk> \<Longrightarrow>
    demuxRead r d = d\<lparr>toDTLS := toDTLS d @ payloadsOf IsDTLS [r], toRTP := toRTP d @ payloadsOf IsRTP [r]\<rparr>"
  using kinds_disjoint by (cases r) (auto simp: demuxRead_def split: readFailure.splits)

lemma demuxRead_ending:
  "\<lbrakk>\<not> demuxDone d; fault d = None; endsDemux r\<rbrakk> \<Longrightarrow> demuxRead r d = d\<lparr>fault := faultOf r, demuxDone := True\<rparr>"
  by (cases r) (auto simp: demuxRead_def setFault_def split: readFailure.splits)

lemma demux_passing:
  "\<forall>r \<in> set rs. \<not> endsDemux r \<Longrightarrow> \<not> demuxDone d \<Longrightarrow>
    fold demuxRead rs d = d\<lparr>toDTLS := toDTLS d @ payloadsOf IsDTLS rs, toRTP := toRTP d @ payloadsOf IsRTP rs\<rparr>"
proof (induction rs arbitrary: d)
  case (Cons r rs)
  then show ?case using demuxRead_passing [of d r] payloadsOf_append [of IsDTLS "[r]" rs] payloadsOf_append [of IsRTP "[r]" rs] by simp
qed simp

text \<open>
  C28. Whatever the underlay reads, the handshake gets exactly the datagrams of DTLS and the session exactly those of RTP read before the
  first failure that is not a passing one, each in order; that failure ends both queues, and its readers are told of it.
\<close>

theorem datagrams_reach_their_reader:
  "let d = fold demuxRead rs newDemux; before = takeWhile (\<lambda>r. \<not> endsDemux r) rs; rest = dropWhile (\<lambda>r. \<not> endsDemux r) rs
   in toDTLS d = payloadsOf IsDTLS before \<and> toRTP d = payloadsOf IsRTP before \<and> (demuxDone d \<longleftrightarrow> rest \<noteq> []) \<and>
      fault d = (case rest of [] \<Rightarrow> None | r # _ \<Rightarrow> faultOf r)"
proof -
  let ?p = "\<lambda>r. \<not> endsDemux r"
  let ?d = "newDemux\<lparr>toDTLS := payloadsOf IsDTLS (takeWhile ?p rs), toRTP := payloadsOf IsRTP (takeWhile ?p rs)\<rparr>"
  have p: "fold demuxRead (takeWhile ?p rs) newDemux = ?d"
    using demux_passing [of "takeWhile ?p rs" newDemux] by (auto simp: newDemux_def dest: set_takeWhileD)
  have f: "fold demuxRead rs newDemux = fold demuxRead (dropWhile ?p rs) ?d"
    using p by (metis takeWhile_dropWhile_id fold_append comp_apply)
  show ?thesis
  proof (cases "dropWhile ?p rs")
    case Nil
    then show ?thesis unfolding f Nil by (simp add: Let_def newDemux_def)
  next
    case (Cons r us)
    then have "endsDemux r" by (metis dropWhile_eq_Cons_conv)
    then have "demuxRead r ?d = ?d\<lparr>fault := faultOf r, demuxDone := True\<rparr>" by (intro demuxRead_ending) (simp_all add: newDemux_def)
    then have "fold demuxRead (r # us) ?d = ?d\<lparr>fault := faultOf r, demuxDone := True\<rparr>" by (simp add: demuxRead_done)
    then show ?thesis unfolding f Cons by (simp add: Let_def)
  qed
qed

section \<open>Written and read\<close>

text \<open>
  What the code relies on in the library: the size of a packed header is read back, and a packet decrypts to what was encrypted for any
  receiver in step with the sender, who stays in step whether it gets the packet or not.
\<close>

definition packsHeaders :: "(rtpHeader \<Rightarrow> byte list \<Rightarrow> byte list option) \<Rightarrow> (byte list \<Rightarrow> nat option) \<Rightarrow> bool" where
  "packsHeaders marshal headerSize \<longleftrightarrow> (\<forall>h b raw. marshal h b = Some raw \<longrightarrow> (\<exists>n. headerSize raw = Some n \<and> drop n raw = b))"

definition inStep :: "('e \<Rightarrow> byte list \<Rightarrow> byte list option \<times> 'e) \<Rightarrow> ('d \<Rightarrow> byte list \<Rightarrow> byte list option \<times> 'd) \<Rightarrow> ('e \<Rightarrow> 'd \<Rightarrow> bool) \<Rightarrow> bool" where
  "inStep enc dec R \<longleftrightarrow> (\<forall>e d raw pkt e'. R e d \<and> enc e raw = (pkt, e') \<longrightarrow> R e' d \<and>
     (\<forall>p. pkt = Some p \<longrightarrow> (\<exists>d'. dec d p = (Some raw, d') \<and> R e' d')))"

text \<open>The writes of a session, each with whether its send succeeded, and the packets; and the reads of packets that came in.\<close>

fun writeAll ::
  "(rtpHeader \<Rightarrow> byte list \<Rightarrow> byte list option) \<Rightarrow> ('e \<Rightarrow> byte list \<Rightarrow> byte list option \<times> 'e) \<Rightarrow> 32 word \<Rightarrow> (bool \<times> byte list) list \<Rightarrow>
    'e txState \<Rightarrow> writeResult list \<times> byte list list \<times> 'e txState" where
  "writeAll marshal enc ssrc [] c = ([], [], c)"
| "writeAll marshal enc ssrc ((sent, b) # ws) c =
    (case srtpWrite marshal enc ssrc sent b c of (res, out, c) \<Rightarrow>
      (case writeAll marshal enc ssrc ws c of (results, outs, c) \<Rightarrow>
        (res # results, (case out of None \<Rightarrow> outs | Some p \<Rightarrow> p # outs), c)))"

fun readAll ::
  "('d \<Rightarrow> byte list \<Rightarrow> byte list option \<times> 'd) \<Rightarrow> (byte list \<Rightarrow> nat option) \<Rightarrow> nat \<Rightarrow> byte list list \<Rightarrow> 'd \<Rightarrow> byte list list" where
  "readAll dec headerSize room [] d = []"
| "readAll dec headerSize room (pkt # pkts) d =
    (case srtpReadTurn dec headerSize room zero_time None (RxPacket pkt) d of
       (ReadData b, d) \<Rightarrow> b # readAll dec headerSize room pkts d
     | (_, d) \<Rightarrow> readAll dec headerSize room pkts d)"

definition writtenOf :: "(bool \<times> byte list) list \<Rightarrow> writeResult list \<Rightarrow> byte list list" where
  "writtenOf ws results = map (snd \<circ> fst) (filter (\<lambda>((sent, b), res). res = Wrote (length b)) (zip ws results))"

lemma srtpWrite_read:
  assumes "packsHeaders marshal headerSize" "inStep enc dec R" "R (encCtx c) d" "srtpWrite marshal enc ssrc sent b c = (res, out, c')"
  shows "R (encCtx c') d \<and> (case out of None \<Rightarrow> res \<noteq> Wrote (length b)
    | Some p \<Rightarrow> res = Wrote (length b) \<and> (\<exists>d'. srtpReadTurn dec headerSize room expiry flt (RxPacket p) d = (ReadData (take room b), d') \<and> R (encCtx c') d'))"
proof (cases "marshal \<lparr>rtpType = PayloadType, rtpSeq = txSeq c, rtpTs = txTs c, rtpSsrc = ssrc\<rparr> b")
  case None
  then show ?thesis using assms by (auto simp: srtpWrite_def Let_def)
next
  case (Some raw)
  obtain pkt e' where e: "enc (encCtx c) raw = (pkt, e')" by (cases "enc (encCtx c) raw")
  have s: "R e' d" "\<And>p. pkt = Some p \<Longrightarrow> \<exists>d'. dec d p = (Some raw, d') \<and> R e' d'"
    using assms(2,3) e unfolding inStep_def by blast+
  obtain n where n: "headerSize raw = Some n" "drop n raw = b" using assms(1) Some unfolding packsHeaders_def by blast
  show ?thesis
  proof (cases pkt)
    case None
    then show ?thesis using assms(4) Some e s by (auto simp: srtpWrite_def Let_def)
  next
    case (Some p)
    then show ?thesis using assms(4) \<open>marshal _ b = Some raw\<close> e s n
      by (cases sent) (fastforce simp: srtpWrite_def Let_def srtpReadTurn_def)+
  qed
qed



section \<open>The sessions of a listener\<close>

datatype serverCall = DatagramFrom string "byte list" | HandshakeEnds nat bool | ClosesConn nat

fun serverStep :: "serverCall \<Rightarrow> srtpServer \<Rightarrow> unit \<times> srtpServer" where
  "serverStep (DatagramFrom src pkt) s = ((), serverDatagram src pkt s)"
| "serverStep (HandshakeEnds i ok) s = ((), endHandshake i ok s)"
| "serverStep (ClosesConn i) s = ((), closeServed i s)"

definition alive :: "srtpServer \<Rightarrow> nat \<Rightarrow> bool" where
  "alive s i \<longleftrightarrow> i < length (sessionsMade s) \<and> sessPhase (sessionsMade s ! i) \<noteq> SessionOver"

definition known :: "srtpServer \<Rightarrow> bool" where
  "known s \<longleftrightarrow>
    (\<forall>src i. map_of (serverSessions s) src = Some i \<longleftrightarrow> alive s i \<and> sessKey (sessionsMade s ! i) = src) \<and>
    (\<forall>sess \<in> set (sessionsMade s). length (sessDTLS sess) \<le> dtlsRoom \<and> length (sessRTP sess) \<le> rtpRoom)"

lemma offer_length: "length q \<le> room \<Longrightarrow> length (offer room x q) \<le> room"
  by (simp add: offer_def)

lemma known_sessionFor:
  assumes "known s" "sessionFor src s = (i, s')"
  shows "known s' \<and> i < length (sessionsMade s')"
proof (cases "map_of (serverSessions s) src")
  case (Some j)
  then show ?thesis using assms by (auto simp: sessionFor_def known_def alive_def)
next
  case None
  let ?new = "\<lparr>sessKey = src, sessDTLS = [], sessRTP = [], sessPhase = Handshaking\<rparr>"
  have s': "i = length (sessionsMade s)" "s' = s\<lparr>serverSessions := mput src i (serverSessions s), sessionsMade := sessionsMade s @ [?new]\<rparr>"
    using assms(2) None by (auto simp: sessionFor_def)
  have a: "alive s' j \<longleftrightarrow> alive s j \<or> j = i" for j using s' by (auto simp: alive_def nth_append)
  have k: "sessKey (sessionsMade s' ! j) = (if j = i then src else sessKey (sessionsMade s ! j))" if "alive s j \<or> j = i" for j
    using that s' by (auto simp: alive_def nth_append)
  have n: "\<not> (alive s j \<and> sessKey (sessionsMade s ! j) = src)" for j using assms(1) None by (metis known_def option.distinct(1))
  have ni: "\<not> alive s i" using s'(1) by (simp add: alive_def)
  have "map_of (serverSessions s') x = Some j \<longleftrightarrow> alive s' j \<and> sessKey (sessionsMade s' ! j) = x" for x j
  proof (cases "j = i")
    case True
    have "map_of (serverSessions s) x \<noteq> Some i" using assms(1) ni by (auto simp: known_def)
    then show ?thesis using True a [of i] k [of i] s'(2) by auto
  next
    case False
    then show ?thesis using a [of j] k [of j] n [of j] s'(2) assms(1) by (auto simp: known_def)
  qed
  then show ?thesis using assms(1) s' by (auto simp: known_def)
qed

lemma known_update:
  assumes "known s" "i < length (sessionsMade s)" "sessKey sess = sessKey (sessionsMade s ! i)" "sessPhase sess = sessPhase (sessionsMade s ! i)"
    and "length (sessDTLS sess) \<le> dtlsRoom" "length (sessRTP sess) \<le> rtpRoom"
  shows "known (s\<lparr>sessionsMade := (sessionsMade s)[i := sess]\<rparr>)"
proof -
  have "alive (s\<lparr>sessionsMade := (sessionsMade s)[i := sess]\<rparr>) j \<longleftrightarrow> alive s j" for j
    using assms(4) by (cases "j = i") (auto simp: alive_def)
  moreover have "sessKey ((sessionsMade s)[i := sess] ! j) = sessKey (sessionsMade s ! j)" if "alive s j" for j
    using that assms(3) by (cases "j = i") (auto simp: alive_def)
  ultimately show ?thesis using assms(1,5,6) by (auto simp: known_def dest!: set_update_subset_insert [THEN subsetD])
qed

lemma known_forget:
  assumes "known s" "alive s i"
  shows "known (s\<lparr>sessionsMade := (sessionsMade s)[i := (sessionsMade s ! i)\<lparr>sessPhase := SessionOver\<rparr>],
    serverSessions := mdel (sessKey (sessionsMade s ! i)) (serverSessions s)\<rparr>)" (is "known ?s")
proof -
  have i: "i < length (sessionsMade s)" using assms(2) by (simp add: alive_def)
  have a: "alive ?s j \<longleftrightarrow> alive s j \<and> j \<noteq> i" for j using i by (cases "j = i") (auto simp: alive_def)
  have k: "sessKey (sessionsMade ?s ! j) = sessKey (sessionsMade s ! j)" for j using i by (cases "j = i") auto
  have m: "\<And>x j. map_of (serverSessions s) x = Some j \<longleftrightarrow> alive s j \<and> sessKey (sessionsMade s ! j) = x" using assms(1) by (simp add: known_def)
  have "map_of (serverSessions ?s) x = Some j \<longleftrightarrow> alive ?s j \<and> sessKey (sessionsMade ?s ! j) = x" for x j
  proof (cases "x = sessKey (sessionsMade s ! i)")
    case True
    have "j = i" if "alive s j" "sessKey (sessionsMade s ! j) = x" using m [of x j] m [of x i] that True assms(2) by auto
    then show ?thesis unfolding a k using True by auto
  next
    case False
    then show ?thesis unfolding a k using m [of x j] by auto
  qed
  moreover have "length (sessDTLS sess) \<le> dtlsRoom \<and> length (sessRTP sess) \<le> rtpRoom" if "sess \<in> set (sessionsMade ?s)" for sess
    using that assms(1) i by (auto simp: known_def dest!: set_update_subset_insert [THEN subsetD])
  ultimately show ?thesis unfolding known_def by blast
qed

lemma serverStep_known: "\<lbrakk>known s; serverStep q s = (u, s')\<rbrakk> \<Longrightarrow> known s'"
proof (cases q)
  case (DatagramFrom src pkt)
  assume k: "known s" "serverStep q s = (u, s')"
  obtain i s1 where s1: "sessionFor src s = (i, s1)" by (cases "sessionFor src s")
  have k1: "known s1" "i < length (sessionsMade s1)" using known_sessionFor [OF k(1) s1] by auto
  have r: "length (sessDTLS (sessionsMade s1 ! i)) \<le> dtlsRoom" "length (sessRTP (sessionsMade s1 ! i)) \<le> rtpRoom"
    using k1 by (auto simp: known_def)
  show ?thesis using k DatagramFrom s1 k1 r
    by (auto simp: serverDatagram_def Let_def intro!: known_update offer_length)
next
  case (HandshakeEnds i ok)
  assume k: "known s" "serverStep q s = (u, s')"
  show ?thesis
  proof (cases "i < length (sessionsMade s) \<and> sessPhase (sessionsMade s ! i) = Handshaking")
    case False
    then show ?thesis using k HandshakeEnds by (auto simp: endHandshake_def)
  next
    case True
    let ?sess = "(sessionsMade s ! i)\<lparr>sessPhase := Serving\<rparr>"
    have "alive (s\<lparr>sessionsMade := (sessionsMade s)[i := ?sess]\<rparr>) j \<longleftrightarrow> alive s j" for j
      using True by (cases "j = i") (auto simp: alive_def)
    moreover have "sessKey ((sessionsMade s)[i := ?sess] ! j) = sessKey (sessionsMade s ! j)" for j
      using True by (cases "j = i") auto
    ultimately have "known (s\<lparr>sessionsMade := (sessionsMade s)[i := ?sess]\<rparr>)" using k(1) True
      by (auto simp: known_def dest!: set_update_subset_insert [THEN subsetD])
    moreover have "alive s i" using True by (simp add: alive_def)
    ultimately show ?thesis using k HandshakeEnds True known_forget [OF k(1)] by (cases ok) (auto simp: endHandshake_def)
  qed
next
  case (ClosesConn i)
  assume k: "known s" "serverStep q s = (u, s')"
  show ?thesis
  proof (cases "i < length (sessionsMade s) \<and> sessPhase (sessionsMade s ! i) = Serving")
    case False
    then show ?thesis using k ClosesConn by (auto simp: closeServed_def)
  next
    case True
    then have "alive s i" by (simp add: alive_def)
    then show ?thesis using k ClosesConn True known_forget [OF k(1)] by (auto simp: closeServed_def)
  qed
qed

interpretation served: traced serverStep "\<lambda>tr s. known s" "\<lambda>q. True"
  by unfold_locales (rule serverStep_known)

text \<open>
  C30. In whatever order datagrams come, handshakes end and connections close, a source has at most one session that is not over, and the
  listener knows exactly those: it forgets a session when it is over and no session it did not mean to; no queue outgrows its room.
\<close>

theorem one_session_per_source:
  assumes "traceRun serverStep ops \<lparr>serverSessions = [], sessionsMade = []\<rparr> = (tr, s)"
  shows "(\<forall>src i. map_of (serverSessions s) src = Some i \<longleftrightarrow>
      i < length (sessionsMade s) \<and> sessPhase (sessionsMade s ! i) \<noteq> SessionOver \<and> sessKey (sessionsMade s ! i) = src) \<and>
    (\<forall>sess \<in> set (sessionsMade s). length (sessDTLS sess) \<le> 64 \<and> length (sessRTP sess) \<le> 4096)"
proof -
  have "known s" by (rule served.run_establishes [OF assms]) (simp_all add: known_def alive_def)
  then show ?thesis by (auto simp: known_def alive_def go_consts)
qed

lemma one_session_per_source_witness:
  "let ops = [DatagramFrom ''a'' [22, 1], DatagramFrom ''a'' [130], HandshakeEnds 0 False, DatagramFrom ''a'' [23], HandshakeEnds 1 True, ClosesConn 0];
     s = snd (traceRun serverStep ops \<lparr>serverSessions = [], sessionsMade = []\<rparr>)
   in map_of (serverSessions s) ''a'' = Some 1"
proof -
  let ?ops = "[DatagramFrom ''a'' [22, 1], DatagramFrom ''a'' [130], HandshakeEnds 0 False, DatagramFrom ''a'' [23], HandshakeEnds 1 True, ClosesConn 0]"
  let ?run = "traceRun serverStep ?ops \<lparr>serverSessions = [], sessionsMade = []\<rparr>"
  have l: "length (sessionsMade (snd ?run)) = 2 \<and> sessPhase (sessionsMade (snd ?run) ! 1) = Serving \<and> sessKey (sessionsMade (snd ?run) ! 1) = ''a''"
    by (simp add: serverDatagram_def sessionFor_def offer_def endHandshake_def closeServed_def IsDTLS_def IsRTP_def go_consts Let_def)
  obtain tr s where r: "?run = (tr, s)" by (cases ?run)
  have l2: "length (sessionsMade s) = 2" "sessPhase (sessionsMade s ! 1) = Serving" "sessKey (sessionsMade s ! 1) = ''a''"
    using l unfolding r snd_conv by blast+
  have e: "map_of (serverSessions s) ''a'' = Some 1 \<longleftrightarrow>
      1 < length (sessionsMade s) \<and> sessPhase (sessionsMade s ! 1) \<noteq> SessionOver \<and> sessKey (sessionsMade s ! 1) = ''a''"
    using one_session_per_source [OF r] by blast
  have "map_of (serverSessions s) ''a'' = Some 1" unfolding e l2 by simp
  then show ?thesis unfolding Let_def r snd_conv .
qed

end
