(* ===== verification/Socks.thy ===== *)
theory Socks
  imports GoBytes GoText
begin

text \<open>
  The SOCKS server (\<open>winbridge/socks.go\<close>): what it reads from a client and answers, the datagrams of an association with their headers and
  connections, and the accounts of the connections it serves. A stream is the bytes that come before it ends or its deadline passes;
  a connection of the tunnel is a number; an address that was parsed from text is an argument. The log lines, and the copying between two
  streams, are left out.
\<close>

definition socksVersion5 :: byte where "socksVersion5 = 0x05"
definition socksAuthNone :: byte where "socksAuthNone = 0x00"
definition socksAuthNoAccept :: byte where "socksAuthNoAccept = 0xFF"
definition socksCmdConnect :: byte where "socksCmdConnect = 0x01"
definition socksCmdUDPAssociate :: byte where "socksCmdUDPAssociate = 0x03"
definition socksAddrIPv4 :: byte where "socksAddrIPv4 = 0x01"
definition socksAddrDomain :: byte where "socksAddrDomain = 0x03"
definition socksAddrIPv6 :: byte where "socksAddrIPv6 = 0x04"
definition socksReplySuccess :: byte where "socksReplySuccess = 0x00"
definition socksReplyGenFail :: byte where "socksReplyGenFail = 0x01"
definition socksReplyCmdNoSup :: byte where "socksReplyCmdNoSup = 0x07"

lemmas socks_consts [go_consts] = socksVersion5_def socksAuthNone_def socksAuthNoAccept_def socksCmdConnect_def socksCmdUDPAssociate_def
  socksAddrIPv4_def socksAddrDomain_def socksAddrIPv6_def socksReplySuccess_def socksReplyGenFail_def socksReplyCmdNoSup_def

section \<open>Addresses as text\<close>

text \<open>\<open>net.IP.String\<close> and \<open>net.JoinHostPort\<close> of the standard library.\<close>

definition textOf :: "byte list \<Rightarrow> string" where
  "textOf bs = map (\<lambda>b. char_of (unat b)) bs"

definition dotted :: "byte list \<Rightarrow> string" where
  "dotted bs = joinText ''.'' (map (\<lambda>b. showNat (unat b)) bs)"

fun hexNat :: "nat \<Rightarrow> string" where
  "hexNat n = (if n < 16 then [hexDigit n] else hexNat (n div 16) @ [hexDigit (n mod 16)])"

definition ipGroups :: "byte list \<Rightarrow> nat list" where
  "ipGroups bs = map (\<lambda>i. unat (bs ! (2 * i)) * 256 + unat (bs ! (2 * i + 1))) [0..<8]"

definition zeroRun :: "nat list \<Rightarrow> nat \<Rightarrow> nat" where
  "zeroRun gs i = length (takeWhile (\<lambda>g. g = 0) (drop i gs))"

text \<open>The first longest run of two zero groups or more: where it starts and ends.\<close>

definition longestZeros :: "nat list \<Rightarrow> (nat \<times> nat) option" where
  "longestZeros gs = fold (\<lambda>i best. let l = zeroRun gs i
     in if l \<ge> 2 \<and> l > (case best of None \<Rightarrow> 0 | Some (a, b) \<Rightarrow> b - a) then Some (i, i + l) else best) [0..<8] None"

definition ip6Text :: "nat list \<Rightarrow> string" where
  "ip6Text gs = (case longestZeros gs of
     None \<Rightarrow> joinText '':'' (map hexNat gs)
   | Some (a, b) \<Rightarrow> joinText '':'' (map hexNat (take a gs)) @ ''::'' @ joinText '':'' (map hexNat (drop b gs)))"

text \<open>\<open>To4\<close>: four bytes, or sixteen that stand for four.\<close>

definition to4 :: "byte list \<Rightarrow> byte list option" where
  "to4 ip = (if length ip = 4 then Some ip
     else if length ip = 16 \<and> (\<forall>b \<in> set (take 10 ip). b = 0) \<and> ip ! 10 = 0xFF \<and> ip ! 11 = 0xFF then Some (drop 12 ip)
     else None)"

definition ipText :: "byte list \<Rightarrow> string" where
  "ipText ip = (case to4 ip of Some b \<Rightarrow> dotted b | None \<Rightarrow> ip6Text (ipGroups ip))"

definition joinHostPort :: "string \<Rightarrow> nat \<Rightarrow> string" where
  "joinHostPort host port =
    (if CHR '':'' \<in> set host then ''['' @ host @ '']:'' @ showNat port else host @ '':'' @ showNat port)"

section \<open>The requests of a client\<close>

definition readFull :: "nat \<Rightarrow> byte list \<Rightarrow> (byte list \<times> byte list) option" where
  "readFull n bs = (if length bs < n then None else Some (take n bs, drop n bs))"

text \<open>The handshake: what it writes, and what is left to read if a method was agreed and the answer could be written.\<close>

definition socksHandshake :: "bool \<Rightarrow> byte list \<Rightarrow> byte list \<times> byte list option" where
  "socksHandshake writes bs = (case readFull 2 bs of
     None \<Rightarrow> ([], None)
   | Some (header, bs) \<Rightarrow>
       if header ! 0 \<noteq> socksVersion5 then ([], None)
       else (case readFull (unat (header ! 1)) bs of
           None \<Rightarrow> ([], None)
         | Some (methods, bs) \<Rightarrow>
             if socksAuthNone \<in> set methods then ([socksVersion5, socksAuthNone], if writes then Some bs else None)
             else ([socksVersion5, socksAuthNoAccept], None)))"

definition readSocksAddr :: "byte \<Rightarrow> byte list \<Rightarrow> (string \<times> byte list) option" where
  "readSocksAddr atyp bs =
    (if atyp = socksAddrIPv4 then (case readFull 4 bs of None \<Rightarrow> None | Some (a, bs) \<Rightarrow> Some (ipText a, bs))
     else if atyp = socksAddrIPv6 then (case readFull 16 bs of None \<Rightarrow> None | Some (a, bs) \<Rightarrow> Some (ipText a, bs))
     else if atyp = socksAddrDomain then
       (case readFull 1 bs of None \<Rightarrow> None
        | Some (l, bs) \<Rightarrow> (case readFull (unat (l ! 0)) bs of None \<Rightarrow> None | Some (a, bs) \<Rightarrow> Some (textOf a, bs)))
     else None)"

definition socksReadRequest :: "byte list \<Rightarrow> (byte \<times> string \<times> byte list) option" where
  "socksReadRequest bs = (case readFull 4 bs of
     None \<Rightarrow> None
   | Some (header, bs) \<Rightarrow>
       if header ! 0 \<noteq> socksVersion5 then None
       else (case readSocksAddr (header ! 3) bs of
           None \<Rightarrow> None
         | Some (host, bs) \<Rightarrow> (case readFull 2 bs of
             None \<Rightarrow> None
           | Some (port, bs) \<Rightarrow> Some (header ! 1, joinHostPort host (beNat port), bs))))"

definition socksReply :: "byte \<Rightarrow> byte list" where
  "socksReply code = [socksVersion5, code, 0x00, socksAddrIPv4, 0, 0, 0, 0, 0, 0]"

definition socksReplyAddr :: "byte \<Rightarrow> byte list \<Rightarrow> nat \<Rightarrow> byte list" where
  "socksReplyAddr code ip port =
    [socksVersion5, code, 0x00] @ (case to4 ip of Some b \<Rightarrow> socksAddrIPv4 # b | None \<Rightarrow> socksAddrIPv6 # ip) @
    [of_nat (port div 256), of_nat port]"

text \<open>
  What becomes of a client: what is written to it, and whether its stream is relayed to a target or kept for an association. The dial
  through the tunnel and the socket of the association (its port) answer or fail.
\<close>

datatype socksServed = Dropped | RelaysTo string | Associated nat

definition socksHandle :: "(string \<Rightarrow> bool) \<Rightarrow> nat option \<Rightarrow> byte list \<Rightarrow> byte list \<times> socksServed" where
  "socksHandle dials listens bs = (case socksHandshake True bs of
     (out, None) \<Rightarrow> (out, Dropped)
   | (out, Some bs) \<Rightarrow> (case socksReadRequest bs of
       None \<Rightarrow> (out @ socksReply socksReplyGenFail, Dropped)
     | Some (cmd, target, _) \<Rightarrow>
         if cmd = socksCmdConnect then
           (if dials target then (out @ socksReply socksReplySuccess, RelaysTo target)
            else (out @ socksReply socksReplyGenFail, Dropped))
         else if cmd = socksCmdUDPAssociate then
           (case listens of
              None \<Rightarrow> (out @ socksReply socksReplyGenFail, Dropped)
            | Some port \<Rightarrow> (out @ socksReplyAddr socksReplySuccess [127, 0, 0, 1] port, Associated port))
         else (out @ socksReply socksReplyCmdNoSup, Dropped)))"

section \<open>The datagrams of an association\<close>

definition parseUDPHeader :: "byte list \<Rightarrow> (string \<times> byte list) option" where
  "parseUDPHeader b =
    (if length b < 4 \<or> b ! 2 \<noteq> 0 then None
     else let atyp = b ! 3; rest = drop 4 b
          in (case
               (if atyp = socksAddrIPv4 then (if length rest < 4 then None else Some (ipText (take 4 rest), drop 4 rest))
                else if atyp = socksAddrIPv6 then (if length rest < 16 then None else Some (ipText (take 16 rest), drop 16 rest))
                else if atyp = socksAddrDomain then
                  (if length rest < 1 then None
                   else let l = unat (rest ! 0); rest = drop 1 rest
                        in if length rest < l then None else Some (textOf (take l rest), drop l rest))
                else None) of
              None \<Rightarrow> None
            | Some (host, rest) \<Rightarrow>
                if length rest < 2 then None else Some (joinHostPort host (beNat (take 2 rest)), drop 2 rest)))"

definition buildUDPHeader :: "byte list option \<Rightarrow> string \<Rightarrow> nat \<Rightarrow> byte list \<Rightarrow> byte list" where
  "buildUDPHeader ip host port d =
    [0, 0, 0] @
    (case ip of
       None \<Rightarrow> [socksAddrDomain, of_nat (length host)] @ map (\<lambda>c. of_nat (of_char c)) host
     | Some ip \<Rightarrow> (case to4 ip of Some b \<Rightarrow> socksAddrIPv4 # b | None \<Rightarrow> socksAddrIPv6 # ip)) @
    [of_nat (port div 256), of_nat port] @ d"

text \<open>
  The association: its client, its sessions by target, what the loop of its socket is doing (idle, or dialling for a datagram), the
  connections the tunnel gave it with the target of each, those closed, and what was written to which.
\<close>

record udpAssoc =
  assocClient :: "string option"
  assocSessions :: "(string \<times> nat) list"
  assocClosed :: bool
  assocDials :: "(string \<times> byte list) option"
  assocConns :: "string list"
  connsClosed :: "nat set"

definition newAssoc :: udpAssoc where
  "newAssoc = \<lparr>assocClient = None, assocSessions = [], assocClosed = False, assocDials = None, assocConns = [], connsClosed = {}\<rparr>"

text \<open>A datagram read from the socket of the association, whose loop is not in a dial: the write it makes, if it makes one.\<close>

definition relayDatagram :: "string \<Rightarrow> byte list \<Rightarrow> udpAssoc \<Rightarrow> (nat \<times> byte list) option \<times> udpAssoc" where
  "relayDatagram src pkt a =
    (let a = (if assocClient a = None then a\<lparr>assocClient := Some src\<rparr> else a)
     in if assocClient a \<noteq> Some src then (None, a)
        else (case parseUDPHeader pkt of
            None \<Rightarrow> (None, a)
          | Some (target, payload) \<Rightarrow>
              if assocClosed a then (None, a)
              else (case map_of (assocSessions a) target of
                  Some c \<Rightarrow> (Some (c, payload), a)
                | None \<Rightarrow> (None, a\<lparr>assocDials := Some (target, payload)\<rparr>))))"

text \<open>The dial is over: it failed, or gave a connection.\<close>

definition dialOver :: "bool \<Rightarrow> udpAssoc \<Rightarrow> (nat \<times> byte list) option \<times> udpAssoc" where
  "dialOver ok a = (case assocDials a of
     None \<Rightarrow> (None, a)
   | Some (target, payload) \<Rightarrow>
       let a = a\<lparr>assocDials := None\<rparr>
       in if \<not> ok then (None, a)
          else
            let c = length (assocConns a); a = a\<lparr>assocConns := assocConns a @ [target]\<rparr>
            in if assocClosed a then (None, a\<lparr>connsClosed := insert c (connsClosed a)\<rparr>)
               else (case map_of (assocSessions a) target of
                   Some e \<Rightarrow> (Some (e, payload), a\<lparr>connsClosed := insert c (connsClosed a)\<rparr>)
                 | None \<Rightarrow> (Some (c, payload), a\<lparr>assocSessions := mput target c (assocSessions a)\<rparr>)))"

text \<open>The reader of a connection ends, at its timeout or an error.\<close>

definition removeSession :: "nat \<Rightarrow> udpAssoc \<Rightarrow> udpAssoc" where
  "removeSession c a =
    (if c < length (assocConns a) then
       let target = assocConns a ! c;
           a = (if map_of (assocSessions a) target = Some c then a\<lparr>assocSessions := mdel target (assocSessions a)\<rparr> else a)
       in a\<lparr>connsClosed := insert c (connsClosed a)\<rparr>
     else a)"

definition closeAssoc :: "udpAssoc \<Rightarrow> udpAssoc" where
  "closeAssoc a =
    (if assocClosed a then a
     else a\<lparr>assocClosed := True, connsClosed := connsClosed a \<union> snd ` set (assocSessions a), assocSessions := []\<rparr>)"

section \<open>The connections of the server\<close>

text \<open>
  The loop that accepts: a connection it has accepted and not yet tracked; the tracked ones; those still open. Closing the server takes its
  lock once.
\<close>

record socksServer =
  srvClosed :: bool
  srvAccepted :: "nat option"
  srvConns :: "nat list"
  srvOpen :: "nat list"
  srvServes :: bool

definition newSocksServer :: socksServer where
  "newSocksServer = \<lparr>srvClosed = False, srvAccepted = None, srvConns = [], srvOpen = [], srvServes = True\<rparr>"

text \<open>\<open>Accept\<close> returns a connection, fails once the listener is closed; the connection is tracked and served; its handler ends.\<close>

definition acceptConn :: "nat option \<Rightarrow> socksServer \<Rightarrow> socksServer" where
  "acceptConn conn s =
    (if \<not> srvServes s \<or> srvAccepted s \<noteq> None then s
     else (case conn of
         None \<Rightarrow> s\<lparr>srvServes := False\<rparr>
       | Some c \<Rightarrow> if srvClosed s then s\<lparr>srvServes := False\<rparr> else s\<lparr>srvAccepted := Some c, srvOpen := c # srvOpen s\<rparr>))"

definition trackConn :: "socksServer \<Rightarrow> socksServer" where
  "trackConn s = (case srvAccepted s of None \<Rightarrow> s | Some c \<Rightarrow> s\<lparr>srvAccepted := None, srvConns := c # srvConns s\<rparr>)"

definition untrackConn :: "nat \<Rightarrow> socksServer \<Rightarrow> socksServer" where
  "untrackConn c s = (if c \<in> set (srvConns s) then s\<lparr>srvConns := removeAll c (srvConns s), srvOpen := removeAll c (srvOpen s)\<rparr> else s)"

definition closeSocks :: "socksServer \<Rightarrow> socksServer" where
  "closeSocks s =
    (if srvClosed s then s
     else s\<lparr>srvClosed := True, srvOpen := filter (\<lambda>c. c \<notin> set (srvConns s)) (srvOpen s)\<rparr>)"

end
