(* ===== verification/SocksProps.thy ===== *)
theory SocksProps
  imports Socks Traces
begin

text \<open>
  What the SOCKS server promises: a client is understood as RFC 1928 writes it, a datagram goes to the connection of its target, and
  no connection outlives its association.
\<close>

section \<open>Requests\<close>

text \<open>A destination as the standard has it, its form in a request or a datagram, and its text.\<close>

datatype socksDest = DestIP "byte list" | DestName string

fun destOk :: "socksDest \<Rightarrow> bool" where
  "destOk (DestIP ip) \<longleftrightarrow> length ip = 4 \<or> length ip = 16"
| "destOk (DestName n) \<longleftrightarrow> length n \<le> 255"

definition bytesOf :: "string \<Rightarrow> byte list" where
  "bytesOf s = map (\<lambda>c. of_nat (of_char c)) s"

fun encodeDest :: "socksDest \<Rightarrow> byte list" where
  "encodeDest (DestIP ip) = (if length ip = 4 then socksAddrIPv4 else socksAddrIPv6) # ip"
| "encodeDest (DestName n) = [socksAddrDomain, of_nat (length n)] @ bytesOf n"

fun destText :: "socksDest \<Rightarrow> string" where
  "destText (DestIP ip) = ipText ip"
| "destText (DestName n) = n"

definition encodePort :: "nat \<Rightarrow> byte list" where
  "encodePort port = [of_nat (port div 256), of_nat port]"

lemma bytesOf_length [simp]: "length (bytesOf s) = length s"
  by (simp add: bytesOf_def)

lemma textOf_bytesOf [simp]: "textOf (bytesOf s) = s"
proof -
  have "char_of (unat (of_nat (of_char c) :: byte)) = c" for c :: char
    using nat_of_char_less_256 [of c] by (simp add: unat_of_nat_byte)
  then show ?thesis by (simp add: textOf_def bytesOf_def comp_def)
qed

lemma beNat_encodePort: "port < 65536 \<Longrightarrow> beNat (encodePort port) = port"
  by (simp add: beNat_def leNat_def encodePort_def unat_of_nat)

lemma encodePort_length [simp]: "length (encodePort port) = 2"
  by (simp add: encodePort_def)

lemma readFull_append [simp]: "length xs = n \<Longrightarrow> readFull n (xs @ ys) = Some (xs, ys)"
  by (auto simp: readFull_def)

lemma readSocksAddr_dest:
  assumes "destOk dst"
  shows "readSocksAddr (hd (encodeDest dst)) (tl (encodeDest dst) @ rest) = Some (destText dst, rest)"
proof (cases dst)
  case (DestIP ip)
  then show ?thesis using assms by (auto simp: readSocksAddr_def socks_consts)
next
  case (DestName n)
  have u: "unat (of_nat (length n) :: byte) = length n" using assms DestName by (simp add: unat_of_nat)
  have "readFull 1 (of_nat (length n) # bytesOf n @ rest) = Some ([of_nat (length n)], bytesOf n @ rest)"
    by (simp add: readFull_def)
  then show ?thesis using DestName u by (simp add: readSocksAddr_def socks_consts)
qed

definition socksRequest :: "byte \<Rightarrow> byte \<Rightarrow> socksDest \<Rightarrow> nat \<Rightarrow> byte list" where
  "socksRequest cmd rsv dst port = [socksVersion5, cmd, rsv] @ encodeDest dst @ encodePort port"

lemma socksReadRequest_reads:
  assumes "destOk dst" "port < 65536"
  shows "socksReadRequest (socksRequest cmd rsv dst port @ rest) = Some (cmd, joinHostPort (destText dst) port, rest)"
proof -
  have e: "encodeDest dst = hd (encodeDest dst) # tl (encodeDest dst)" by (cases dst) simp_all
  have "socksRequest cmd rsv dst port @ rest =
      [socksVersion5, cmd, rsv, hd (encodeDest dst)] @ (tl (encodeDest dst) @ (encodePort port @ rest))"
    using e by (simp add: socksRequest_def)
  then show ?thesis
    using readSocksAddr_dest [OF assms(1), of "encodePort port @ rest"] beNat_encodePort [OF assms(2)]
    by (simp add: socksReadRequest_def readFull_append [of "[_, _, _, _]", simplified])
qed



text \<open>The header a client is sent with an answer is the one it would have written for that source.\<close>

lemma udp_header_reads_back:
  assumes "port < 65536" "case ip of Some a \<Rightarrow> length a = 4 \<or> length a = 16 | None \<Rightarrow> length host \<le> 255"
  shows "parseUDPHeader (buildUDPHeader ip host port d) =
    Some (joinHostPort (case ip of Some a \<Rightarrow> ipText a | None \<Rightarrow> host) port, d)"
proof (cases ip)
  case None
  have u: "unat (of_nat (length host) :: byte) = length host" using assms None by (simp add: unat_of_nat)
  have m: "map (\<lambda>c. of_nat (of_char c)) host = bytesOf host" by (simp add: bytesOf_def)
  show ?thesis using None u beNat_encodePort [OF assms(1)] unfolding buildUDPHeader_def m
    by (simp add: parseUDPHeader_def socks_consts encodePort_def Let_def)
next
  case (Some a)
  show ?thesis
  proof (cases "to4 a")
    case None
    then have "length a = 16" using assms(2) Some by (auto simp: to4_def split: if_splits)
    then show ?thesis using None Some beNat_encodePort [OF assms(1)]
      by (simp add: buildUDPHeader_def parseUDPHeader_def socks_consts encodePort_def Let_def)
  next
    case (Some b)
    have l: "length b = 4" "ipText a = ipText b" using Some assms(2) \<open>ip = Some a\<close>
      by (auto simp: to4_def ipText_def split: if_splits)
    show ?thesis using l Some \<open>ip = Some a\<close> beNat_encodePort [OF assms(1)]
      by (simp add: buildUDPHeader_def parseUDPHeader_def socks_consts encodePort_def Let_def)
  qed
qed

section \<open>Associations\<close>

datatype assocCall = UDPFrom string "byte list" | DialOver bool | ReaderEnds nat | CloseAssoc

text \<open>The loop reads its socket only between dials; what a call writes to which connection.\<close>

fun assocStep :: "assocCall \<Rightarrow> udpAssoc \<Rightarrow> (nat \<times> byte list) option \<times> udpAssoc" where
  "assocStep (UDPFrom src pkt) a = (if assocDials a = None then relayDatagram src pkt a else (None, a))"
| "assocStep (DialOver ok) a = dialOver ok a"
| "assocStep (ReaderEnds c) a = (None, removeSession c a)"
| "assocStep CloseAssoc a = (None, closeAssoc a)"

definition assocOk :: "udpAssoc \<Rightarrow> bool" where
  "assocOk a \<longleftrightarrow>
    (\<forall>t c. map_of (assocSessions a) t = Some c \<longrightarrow> c < length (assocConns a) \<and> assocConns a ! c = t \<and> c \<notin> connsClosed a) \<and>
    (\<forall>c < length (assocConns a). c \<notin> connsClosed a \<longrightarrow> map_of (assocSessions a) (assocConns a ! c) = Some c) \<and>
    connsClosed a \<subseteq> {..<length (assocConns a)} \<and>
    distinct (map fst (assocSessions a)) \<and> (assocClosed a \<longrightarrow> assocSessions a = []) \<and>
    (\<forall>t p. assocDials a = Some (t, p) \<longrightarrow> map_of (assocSessions a) t = None)"

definition targetOf :: "assocCall \<Rightarrow> udpAssoc \<Rightarrow> (string \<times> byte list) option" where
  "targetOf q a = (case q of
     UDPFrom src pkt \<Rightarrow> if assocClient a = None \<or> assocClient a = Some src then parseUDPHeader pkt else None
   | DialOver ok \<Rightarrow> assocDials a
   | _ \<Rightarrow> None)"

lemma removeSession_ok:
  assumes "assocOk a"
  shows "assocOk (removeSession c a)"
proof (cases "c < length (assocConns a)")
  case False
  then show ?thesis using assms by (simp add: removeSession_def)
next
  case True
  let ?t = "assocConns a ! c"
  have k: "\<And>t d. map_of (assocSessions a) t = Some d \<Longrightarrow> d < length (assocConns a) \<and> assocConns a ! d = t \<and> d \<notin> connsClosed a"
    "\<And>d. \<lbrakk>d < length (assocConns a); d \<notin> connsClosed a\<rbrakk> \<Longrightarrow> map_of (assocSessions a) (assocConns a ! d) = Some d"
    "connsClosed a \<subseteq> {..<length (assocConns a)}" "distinct (map fst (assocSessions a))" "assocClosed a \<longrightarrow> assocSessions a = []"
    "\<And>t p. assocDials a = Some (t, p) \<Longrightarrow> map_of (assocSessions a) t = None"
    using assms unfolding assocOk_def by blast+
  show ?thesis
  proof (cases "map_of (assocSessions a) ?t = Some c")
    case mine: True
    have e: "removeSession c a = a\<lparr>assocSessions := mdel ?t (assocSessions a), connsClosed := insert c (connsClosed a)\<rparr>"
      using True mine by (simp add: removeSession_def Let_def)
    have one: "assocConns a ! d \<noteq> ?t" if "d < length (assocConns a)" "d \<notin> connsClosed a" "d \<noteq> c" for d
      using k(2) [OF that(1,2)] mine that(3) by auto
    have "map_of (assocSessions a) t = Some c \<Longrightarrow> t = ?t" for t using k(1) by blast
    then show ?thesis unfolding e assocOk_def using k True one
      by (auto simp: distinct_delete split: if_splits)
  next
    case False
    have e: "removeSession c a = a\<lparr>connsClosed := insert c (connsClosed a)\<rparr>" using True False by (simp add: removeSession_def Let_def)
    have "map_of (assocSessions a) t \<noteq> Some c" for t using k(1) [of t c] False by auto
    then show ?thesis unfolding e assocOk_def using k True by auto
  qed
qed

lemma closeAssoc_ok:
  assumes "assocOk a"
  shows "assocOk (closeAssoc a)"
proof (cases "assocClosed a")
  case True
  then show ?thesis using assms by (simp add: closeAssoc_def)
next
  case False
  have r: "snd ` set (assocSessions a) = {c. c < length (assocConns a) \<and> c \<notin> connsClosed a}"
  proof (intro set_eqI iffI)
    fix c assume "c \<in> snd ` set (assocSessions a)"
    then obtain t where "(t, c) \<in> set (assocSessions a)" by auto
    then have "map_of (assocSessions a) t = Some c" using assms by (simp add: assocOk_def)
    then show "c \<in> {c. c < length (assocConns a) \<and> c \<notin> connsClosed a}" using assms unfolding assocOk_def by blast
  next
    fix c assume "c \<in> {c. c < length (assocConns a) \<and> c \<notin> connsClosed a}"
    then have "map_of (assocSessions a) (assocConns a ! c) = Some c" using assms unfolding assocOk_def by blast
    then show "c \<in> snd ` set (assocSessions a)" by (metis map_of_SomeD image_eqI snd_conv)
  qed
  have "connsClosed a \<subseteq> {..<length (assocConns a)}" using assms by (simp add: assocOk_def)
  then show ?thesis using False unfolding closeAssoc_def assocOk_def by (auto simp: r)
qed

lemma dialOver_ok:
  assumes "assocOk a" "dialOver ok a = (w, a')"
  shows "assocOk a' \<and> (\<forall>c p. w = Some (c, p) \<longrightarrow> c < length (assocConns a') \<and> c \<notin> connsClosed a' \<and>
    assocDials a = Some (assocConns a' ! c, p))"
proof (cases "assocDials a")
  case None
  then show ?thesis using assms by (simp add: dialOver_def)
next
  case (Some tp)
  obtain t p where tp: "tp = (t, p)" by (cases tp)
  have k: "\<And>t d. map_of (assocSessions a) t = Some d \<Longrightarrow> d < length (assocConns a) \<and> assocConns a ! d = t \<and> d \<notin> connsClosed a"
    "\<And>d. \<lbrakk>d < length (assocConns a); d \<notin> connsClosed a\<rbrakk> \<Longrightarrow> map_of (assocSessions a) (assocConns a ! d) = Some d"
    "connsClosed a \<subseteq> {..<length (assocConns a)}" "distinct (map fst (assocSessions a))" "assocClosed a \<longrightarrow> assocSessions a = []"
    "map_of (assocSessions a) t = None"
    using assms(1) Some tp unfolding assocOk_def by blast+
  let ?c = "length (assocConns a)"
  show ?thesis
  proof (cases ok)
    case False
    then show ?thesis using assms Some tp by (auto simp: dialOver_def assocOk_def)
  next
    case ok: True
    show ?thesis
    proof (cases "assocClosed a")
      case True
      then have a': "a' = a\<lparr>assocDials := None, assocConns := assocConns a @ [t], connsClosed := insert ?c (connsClosed a)\<rparr>" "w = None"
        using assms(2) Some tp ok by (auto simp: dialOver_def Let_def)
      have "assocOk a'" unfolding a' assocOk_def using k True by (auto simp: nth_append less_Suc_eq)
      then show ?thesis using a'(2) by simp
    next
      case False
      then have a': "a' = a\<lparr>assocDials := None, assocConns := assocConns a @ [t], assocSessions := mput t ?c (assocSessions a)\<rparr>" "w = Some (?c, p)"
        using assms(2) Some tp ok k(6) by (auto simp: dialOver_def Let_def)
      have other: "assocConns a ! d \<noteq> t" if "d < ?c" "d \<notin> connsClosed a" for d using k(2) [OF that] k(6) by auto
      have "assocOk a'" unfolding a' assocOk_def using k False other
        by (auto simp: nth_append less_Suc_eq distinct_update)
      then show ?thesis using a' Some tp k(3) by auto
    qed
  qed
qed

lemma relayDatagram_ok:
  assumes "assocOk a" "assocDials a = None" "relayDatagram src pkt a = (w, a')"
  shows "assocOk a' \<and> (\<forall>c p. w = Some (c, p) \<longrightarrow> c < length (assocConns a') \<and> c \<notin> connsClosed a' \<and>
    targetOf (UDPFrom src pkt) a = Some (assocConns a' ! c, p))"
proof -
  let ?a = "if assocClient a = None then a\<lparr>assocClient := Some src\<rparr> else a"
  have f: "assocSessions ?a = assocSessions a" "assocConns ?a = assocConns a" "connsClosed ?a = connsClosed a" "assocClosed ?a = assocClosed a"
    "assocDials ?a = assocDials a" "assocOk ?a"
    using assms(1) by (auto simp: assocOk_def)
  have c: "assocClient ?a = Some src \<longleftrightarrow> assocClient a = None \<or> assocClient a = Some src" by (cases "assocClient a") simp_all
  obtain b where b: "b = ?a" by blast
  note g = f [folded b] c [folded b]
  have r: "relayDatagram src pkt a = (if assocClient b \<noteq> Some src then (None, b)
      else (case parseUDPHeader pkt of None \<Rightarrow> (None, b)
        | Some (target, payload) \<Rightarrow> if assocClosed b then (None, b)
            else (case map_of (assocSessions b) target of Some c \<Rightarrow> (Some (c, payload), b) | None \<Rightarrow> (None, b\<lparr>assocDials := Some (target, payload)\<rparr>))))"
    unfolding relayDatagram_def Let_def b ..
  show ?thesis
  proof (cases "assocClient b = Some src")
    case False
    then show ?thesis using assms(3) r g by auto
  next
    case mine: True
    show ?thesis
    proof (cases "parseUDPHeader pkt")
      case None
      then show ?thesis using assms(3) r g mine by auto
    next
      case (Some tp)
      obtain t p where tp: "tp = (t, p)" by (cases tp)
      show ?thesis
      proof (cases "assocClosed b")
        case True
        then show ?thesis using assms(3) r g mine Some tp by auto
      next
        case False
        show ?thesis
        proof (cases "map_of (assocSessions b) t")
          case None
          then have "a' = b\<lparr>assocDials := Some (t, p)\<rparr>" "w = None" using assms(3) r mine Some tp False by auto
          then show ?thesis using g(6) None by (simp add: assocOk_def)
        next
          case s: (Some c)
          then have "a' = b" "w = Some (c, p)" using assms(3) r mine Some tp False by auto
          moreover have "c < length (assocConns b) \<and> assocConns b ! c = t \<and> c \<notin> connsClosed b" using g(6) s unfolding assocOk_def by blast
          ultimately show ?thesis using g mine Some tp by (auto simp: targetOf_def)
        qed
      qed
    qed
  qed
qed

definition wroteWell :: "(assocCall \<times> (nat \<times> byte list) option) list \<Rightarrow> udpAssoc \<Rightarrow> bool" where
  "wroteWell tr a \<longleftrightarrow> assocOk a \<and> (\<forall>(q, w) \<in> set tr. \<forall>c p. w = Some (c, p) \<longrightarrow> c < length (assocConns a))"

lemma assocStep_ok:
  assumes "assocOk a" "assocStep q a = (w, a')"
  shows "assocOk a' \<and> (\<forall>c p. w = Some (c, p) \<longrightarrow> c < length (assocConns a') \<and> c \<notin> connsClosed a' \<and> targetOf q a = Some (assocConns a' ! c, p))"
proof (cases q)
  case (UDPFrom src pkt)
  then show ?thesis using assms relayDatagram_ok [OF assms(1), of src pkt w a'] by (auto split: if_splits)
next
  case (DialOver ok)
  then show ?thesis using assms dialOver_ok [OF assms(1), of ok w a'] by (simp add: targetOf_def)
next
  case (ReaderEnds c)
  then show ?thesis using assms removeSession_ok by auto
next
  case CloseAssoc
  then show ?thesis using assms closeAssoc_ok by auto
qed

interpretation assoc: traced assocStep "\<lambda>tr a. assocOk a" "\<lambda>q. True"
  by unfold_locales (use assocStep_ok in blast)

lemma assocOk_new: "assocOk newAssoc"
  by (simp add: assocOk_def newAssoc_def)



section \<open>The connections of the server\<close>

datatype socksCall = AcceptsConn "nat option" | TracksConn | EndsConn nat | ClosesServer

fun socksStep :: "socksCall \<Rightarrow> socksServer \<Rightarrow> unit \<times> socksServer" where
  "socksStep (AcceptsConn c) s = ((), acceptConn c s)"
| "socksStep TracksConn s = ((), trackConn s)"
| "socksStep (EndsConn c) s = ((), untrackConn c s)"
| "socksStep ClosesServer s = ((), closeSocks s)"

text \<open>A listener never gives the same connection twice.\<close>

definition acceptedOf :: "socksCall list \<Rightarrow> nat list" where
  "acceptedOf ops = concat (map (\<lambda>q. case q of AcceptsConn (Some c) \<Rightarrow> [c] | _ \<Rightarrow> []) ops)"

text \<open>
  The connections open once the server has closed are at most one: the one its loop had accepted and not tracked by then. It is served for
  as long as its client keeps it.
\<close>

definition srvOk :: "socksServer \<Rightarrow> bool" where
  "srvOk s \<longleftrightarrow> (\<forall>c. srvAccepted s = Some c \<longrightarrow> c \<notin> set (srvConns s)) \<and> distinct (srvOpen s) \<and>
    (srvClosed s \<longrightarrow> length (srvOpen s) \<le> 1) \<and>
    (\<not> srvClosed s \<longrightarrow> set (srvOpen s) = set (srvConns s) \<union> set_option (srvAccepted s))"

lemma srvOk_step:
  assumes "srvOk s" "socksStep q s = (u, s')" "\<forall>c. q = AcceptsConn (Some c) \<longrightarrow> c \<notin> set (srvOpen s) \<union> set (srvConns s)"
  shows "srvOk s'"
proof (cases q)
  case (AcceptsConn c)
  show ?thesis
  proof (cases "srvServes s \<and> srvAccepted s = None \<and> c \<noteq> None \<and> \<not> srvClosed s")
    case True
    then obtain d where d: "c = Some d" "s' = s\<lparr>srvAccepted := Some d, srvOpen := d # srvOpen s\<rparr>"
      using assms(2) AcceptsConn by (auto simp: acceptConn_def)
    then show ?thesis using assms(1,3) True AcceptsConn by (simp add: srvOk_def)
  next
    case False
    then have "s' = s \<or> s' = s\<lparr>srvServes := False\<rparr>"
      using assms(2) AcceptsConn by (auto simp: acceptConn_def split: option.splits if_splits)
    then show ?thesis using assms(1) by (elim disjE) (simp_all add: srvOk_def)
  qed
next
  case TracksConn
  then show ?thesis using assms by (auto simp: trackConn_def srvOk_def split: option.splits)
next
  case (EndsConn c)
  show ?thesis
  proof (cases "c \<in> set (srvConns s)")
    case True
    then have "s' = s\<lparr>srvConns := removeAll c (srvConns s), srvOpen := removeAll c (srvOpen s)\<rparr>"
      using assms(2) EndsConn by (simp add: untrackConn_def)
    moreover have "length (removeAll c (srvOpen s)) \<le> 1" if "srvClosed s"
      using assms(1) that by (intro order_trans [OF length_removeAll_less_eq]) (simp add: srvOk_def)
    ultimately show ?thesis using assms(1) True by (auto simp: srvOk_def distinct_removeAll)
  next
    case False
    then show ?thesis using assms EndsConn by (simp add: untrackConn_def)
  qed
next
  case ClosesServer
  have "length (filter (\<lambda>c. c \<notin> set (srvConns s)) (srvOpen s)) \<le> 1" if "\<not> srvClosed s"
  proof -
    have "set (filter (\<lambda>c. c \<notin> set (srvConns s)) (srvOpen s)) \<subseteq> set_option (srvAccepted s)" using assms(1) that by (auto simp: srvOk_def)
    moreover have "distinct (filter (\<lambda>c. c \<notin> set (srvConns s)) (srvOpen s))" using assms(1) by (simp add: srvOk_def)
    moreover have "card (set_option (srvAccepted s)) \<le> 1" "finite (set_option (srvAccepted s))" by (cases "srvAccepted s"; simp)+
    ultimately show ?thesis by (metis card_mono distinct_card order_trans)
  qed
  then show ?thesis using assms ClosesServer by (cases "srvClosed s") (auto simp: closeSocks_def srvOk_def)
qed

lemma acceptedOf_snoc:
  "acceptedOf (qs @ [q]) = acceptedOf qs @ (case q of AcceptsConn (Some c) \<Rightarrow> [c] | _ \<Rightarrow> [])"
  by (simp add: acceptedOf_def)

lemma socksStep_known:
  "socksStep q s = (u, s') \<Longrightarrow> set (srvOpen s') \<union> set (srvConns s') \<union> set_option (srvAccepted s') \<subseteq>
    set (srvOpen s) \<union> set (srvConns s) \<union> set_option (srvAccepted s) \<union> set (acceptedOf [q])"
  by (cases q) (auto simp: acceptConn_def trackConn_def untrackConn_def closeSocks_def acceptedOf_def split: option.splits if_splits)

definition served :: "(socksCall \<times> unit) list \<Rightarrow> socksServer \<Rightarrow> bool" where
  "served tr s \<longleftrightarrow> (distinct (acceptedOf (map fst tr)) \<longrightarrow> srvOk s \<and>
    set (srvOpen s) \<union> set (srvConns s) \<union> set_option (srvAccepted s) \<subseteq> set (acceptedOf (map fst tr)))"

lemma served_step:
  assumes "served tr s" "socksStep q s = (u, s')"
  shows "served (tr @ [(q, u)]) s'"
proof -
  have "srvOk s' \<and> set (srvOpen s') \<union> set (srvConns s') \<union> set_option (srvAccepted s') \<subseteq> set (acceptedOf (map fst tr @ [q]))"
    if "distinct (acceptedOf (map fst tr @ [q]))"
  proof -
    have "distinct (acceptedOf (map fst tr))" "\<forall>c. q = AcceptsConn (Some c) \<longrightarrow> c \<notin> set (acceptedOf (map fst tr))"
      using that by (auto simp: acceptedOf_snoc)
    then have "srvOk s" "set (srvOpen s) \<union> set (srvConns s) \<union> set_option (srvAccepted s) \<subseteq> set (acceptedOf (map fst tr))"
      "\<forall>c. q = AcceptsConn (Some c) \<longrightarrow> c \<notin> set (srvOpen s) \<union> set (srvConns s)"
      using assms(1) by (auto simp: served_def)
    then show ?thesis using srvOk_step [OF _ assms(2)] socksStep_known [OF assms(2)]
      by (auto simp: acceptedOf_def)
  qed
  then show ?thesis by (simp add: served_def)
qed

interpretation server: traced socksStep served "\<lambda>q. True"
  by unfold_locales (rule served_step)

text \<open>
  C33. Whatever its loop accepts and tracks and whenever its handlers end, once the server has closed at most one connection is still open.
\<close>

theorem at_most_one_survives_close:
  assumes "traceRun socksStep ops newSocksServer = (tr, s)" "distinct (acceptedOf ops)" "srvClosed s"
  shows "length (srvOpen s) \<le> 1"
proof -
  have "served tr s" by (rule server.run_establishes [OF assms(1)]) (simp_all add: served_def srvOk_def newSocksServer_def)
  then show ?thesis using assms(2,3) traceRun_calls [OF assms(1)] by (simp add: served_def srvOk_def)
qed

text \<open>That one there can be: the close falls between \<open>Accept\<close> and \<open>track\<close>.\<close>

lemma at_most_one_survives_close_witness:
  "let s = snd (traceRun socksStep [AcceptsConn (Some 1), TracksConn, AcceptsConn (Some 2), ClosesServer, TracksConn] newSocksServer)
   in srvClosed s \<and> length (srvOpen s) \<le> 1"
proof -
  let ?ops = "[AcceptsConn (Some 1), TracksConn, AcceptsConn (Some 2), ClosesServer, TracksConn]"
  obtain tr s where r: "traceRun socksStep ?ops newSocksServer = (tr, s)" by (cases "traceRun socksStep ?ops newSocksServer")
  have "srvClosed (snd (traceRun socksStep ?ops newSocksServer))" by code_simp
  then have c: "srvClosed s" unfolding r snd_conv .
  have "distinct (acceptedOf ?ops)" by (simp add: acceptedOf_def)
  then have "length (srvOpen s) \<le> 1" by (rule at_most_one_survives_close [OF r _ c])
  then show ?thesis unfolding Let_def r snd_conv using c by (intro conjI)
qed

lemma accepted_late_outlives_close:
  "srvOpen (snd (traceRun socksStep [AcceptsConn (Some 1), ClosesServer, TracksConn] newSocksServer)) = [1]"
  by (simp add: newSocksServer_def acceptConn_def closeSocks_def trackConn_def)

end
