(* ===== verification/ProxyLife.thy ===== *)
theory ProxyLife
  imports SessionVerdict Config
begin

text \<open>
  The life of a proxy (\<open>pkg/proxy/tunnel.go\<close>): its configuration with the defaults, the generations of the TURN proxy under one WireGuard
  device, the waits for a generation, and the stop. What the package runs for a generation, the device and its adapter are calls with
  their answers; a generation and a device are numbers.
\<close>

section \<open>The configuration\<close>

definition NewTunnel :: "turnConfig \<Rightarrow> turnConfig option" where
  "NewTunnel c =
    (if VKLink c = [] then None
     else let c = (if StreamsTotal c = 0 then c\<lparr>StreamsTotal := 8\<rparr> else c);
              c = (if StreamsPerCred c = 0 then c\<lparr>StreamsPerCred := 4\<rparr> else c);
              c = c\<lparr>StreamsPerCred := clampStreamsPerCred (StreamsPerCred c)\<rparr>;
              c = (if WatchdogSecs c = 0 then c\<lparr>WatchdogSecs := 30\<rparr> else c);
              c = (if ListenAddr c = [] then c\<lparr>ListenAddr := ''127.0.0.1:0''\<rparr> else c);
              c = (if PeerType c = [] then c\<lparr>PeerType := ''proxy_v2''\<rparr> else c)
          in Some c)"

section \<open>The answers\<close>

datatype readyStatus = ReadyError | ReadyOK | ReadyCaptchaRequired | ReadyAuthRequired | ReadyCallUnavailable | ReadyTurnFatal
  | ReadyVKUnreachable | ReadyRelaysCarryNothing

text \<open>What the start of a generation returned.\<close>

definition bootStatus :: "int \<Rightarrow> readyStatus" where
  "bootStatus result =
    (if result = 0 then ReadyOK
     else if result = - 2 then ReadyAuthRequired
     else if result = - 4 then ReadyCallUnavailable
     else if result = startVKUnreachable then ReadyVKUnreachable
     else if result = startRelaysCarryNothing then ReadyRelaysCarryNothing
     else ReadyError)"

section \<open>The generations\<close>

record generation =
  genCancelled :: bool
  genResult :: "int option"   \<comment> \<open>once it is ready\<close>
  genListen :: string
  genUDP :: bool
  genKeepDNS :: bool

record proxyTunnel =
  lifeCfg :: turnConfig
  boot :: "nat option"
  generations :: "generation list"
  listenAddr :: string
  lifeStopped :: bool
  lifeDevice :: "nat option"
  devicesMade :: nat

datatype lifeCall = InitsDNS | StartsGeneration nat | CancelsGeneration nat | StopsProxy | DropsCredentials | ClosesDevice nat

definition newProxyTunnel :: "turnConfig \<Rightarrow> proxyTunnel" where
  "newProxyTunnel c = \<lparr>lifeCfg = c, boot = None, generations = [], listenAddr = [], lifeStopped = False, lifeDevice = None, devicesMade = 0\<rparr>"

definition startGeneration :: "bool \<Rightarrow> proxyTunnel \<Rightarrow> lifeCall list \<times> proxyTunnel" where
  "startGeneration keepDNS t =
    (let g = length (generations t);
         addr = (if listenAddr t = [] then ListenAddr (lifeCfg t) else listenAddr t)
     in ([StartsGeneration g],
         t\<lparr>boot := Some g,
           generations := generations t @ [\<lparr>genCancelled = False, genResult = None, genListen = addr, genUDP = UseUDP (lifeCfg t),
             genKeepDNS = keepDNS\<rparr>]\<rparr>))"

definition cancelGeneration :: "nat \<Rightarrow> proxyTunnel \<Rightarrow> proxyTunnel" where
  "cancelGeneration g t = t\<lparr>generations := (generations t)[g := (generations t ! g)\<lparr>genCancelled := True\<rparr>]\<rparr>"

definition cancelBoot :: "proxyTunnel \<Rightarrow> lifeCall list \<times> proxyTunnel" where
  "cancelBoot t = (case boot t of None \<Rightarrow> ([], t) | Some g \<Rightarrow> ([CancelsGeneration g], cancelGeneration g t))"

definition StartBootstrap :: "proxyTunnel \<Rightarrow> lifeCall list \<times> proxyTunnel" where
  "StartBootstrap t =
    (let dns = (if SystemDNS (lifeCfg t) \<noteq> [] then [InitsDNS] else [])
     in if lifeStopped t then (dns, t) else (case startGeneration False t of (calls, t) \<Rightarrow> (dns @ calls, t)))"

definition publishListenAddr :: "string \<Rightarrow> proxyTunnel \<Rightarrow> proxyTunnel" where
  "publishListenAddr addr t = t\<lparr>listenAddr := addr\<rparr>"

text \<open>The generation that starts after a restart takes its transport from the configuration; \<open>None\<close> is the error of a stopped tunnel.\<close>

definition restartTransportLocked :: "bool \<Rightarrow> proxyTunnel \<Rightarrow> lifeCall list option \<times> proxyTunnel" where
  "restartTransportLocked dropCredentials t =
    (if lifeStopped t then (None, t)
     else (case cancelBoot t of (cancels, t) \<Rightarrow> (case startGeneration True t of (starts, t) \<Rightarrow>
       (Some (cancels @ [StopsProxy] @ (if dropCredentials then [DropsCredentials] else []) @ starts), t))))"

definition SetRelayOverTCP :: "bool \<Rightarrow> proxyTunnel \<Rightarrow> (bool \<times> lifeCall list option) \<times> proxyTunnel" where
  "SetRelayOverTCP overTCP t =
    (if lifeStopped t then ((False, None), t)
     else if UseUDP (lifeCfg t) \<noteq> overTCP then ((False, Some []), t)
     else (case restartTransportLocked False (t\<lparr>lifeCfg := (lifeCfg t)\<lparr>UseUDP := \<not> overTCP\<rparr>\<rparr>) of (calls, t) \<Rightarrow> ((True, calls), t)))"

definition RelaysOverTCP :: "proxyTunnel \<Rightarrow> bool" where
  "RelaysOverTCP t \<longleftrightarrow> \<not> UseUDP (lifeCfg t)"

text \<open>The start of a generation returns, and it is ready.\<close>

definition generationReady :: "nat \<Rightarrow> int \<Rightarrow> proxyTunnel \<Rightarrow> proxyTunnel" where
  "generationReady g result t =
    (if g < length (generations t) \<and> genResult (generations t ! g) = None
     then t\<lparr>generations := (generations t)[g := (generations t ! g)\<lparr>genResult := Some result\<rparr>]\<rparr> else t)"

text \<open>A device that came up; the MTU it is given, and the name.\<close>

definition deviceMTU :: "int \<Rightarrow> int" where
  "deviceMTU mtu = (if mtu = 0 then 1280 else mtu)"

definition startDevice :: "bool \<Rightarrow> proxyTunnel \<Rightarrow> bool \<times> proxyTunnel" where
  "startDevice up t = (if up then (True, t\<lparr>lifeDevice := Some (devicesMade t), devicesMade := devicesMade t + 1\<rparr>) else (False, t))"

definition Stop :: "proxyTunnel \<Rightarrow> lifeCall list \<times> proxyTunnel" where
  "Stop t =
    (if lifeStopped t then ([], t)
     else let dev = lifeDevice t; t = t\<lparr>lifeStopped := True, lifeDevice := None\<rparr>
          in (case cancelBoot t of (cancels, t) \<Rightarrow>
               (cancels @ [StopsProxy] @ (case dev of None \<Rightarrow> [] | Some d \<Rightarrow> [ClosesDevice d]), t)))"

definition ListenAddrOf :: "proxyTunnel \<Rightarrow> string" where
  "ListenAddrOf t = (if listenAddr t \<noteq> [] then listenAddr t else ListenAddr (lifeCfg t))"

section \<open>The waits\<close>

text \<open>
  What a wait selects in turn, with what it then reads: whether a captcha is pending, whether the workers have given up, and whether the
  service has been silent so far.
\<close>

datatype waitEvent = GenerationIsReady int | CaptchaNotice bool | TimeIsUp bool | WaitCancelled

fun waitReady :: "bool \<Rightarrow> bool \<Rightarrow> waitEvent list \<Rightarrow> readyStatus option" where
  "waitReady fatal captcha [] = None"
| "waitReady fatal captcha (e # es) = (case e of
     GenerationIsReady result \<Rightarrow>
       Some (if fatal then ReadyTurnFatal else if captcha then ReadyCaptchaRequired else bootStatus result)
   | CaptchaNotice pending \<Rightarrow> if pending then Some ReadyCaptchaRequired else waitReady fatal captcha es
   | TimeIsUp unreachable \<Rightarrow> Some (if unreachable then ReadyVKUnreachable else ReadyError)
   | WaitCancelled \<Rightarrow> Some ReadyError)"

definition WaitReadyContext :: "bool \<Rightarrow> bool \<Rightarrow> waitEvent list \<Rightarrow> proxyTunnel \<Rightarrow> readyStatus option" where
  "WaitReadyContext fatal captcha es t = (if boot t = None then Some ReadyError else waitReady fatal captcha es)"

text \<open>The wait after a restart: the generation is ready, or not by the time-out or the end of the context.\<close>

definition WaitStartedContext :: "int option \<Rightarrow> bool \<Rightarrow> proxyTunnel \<Rightarrow> readyStatus \<times> bool" where
  "WaitStartedContext ready fatal t =
    (if boot t = None then (ReadyError, True)
     else (case ready of None \<Rightarrow> (ReadyError, False)
       | Some result \<Rightarrow> (if fatal then ReadyTurnFatal else bootStatus result, True)))"

end
