(* ===== verification/TunnelManager.thy ===== *)
theory TunnelManager
  imports ProxyLife Socks
begin

text \<open>
  The manager of the tunnel (\<open>winbridge/tunnel.go\<close>, \<open>relay_transport.go\<close>, \<open>netwatch.go\<close>): what \<open>Connect\<close> brings up in which order and takes down
  again when it fails, \<open>Disconnect\<close>, the wait for a restarted transport, the changes of the physical network and what the streams and
  routes are told of them, and the pause before a burst of notices is looked at. Each step's answer is an argument; what is asked of the
  proxy, the routes, the adapter and the SOCKS server is the output. An operation under the manager's lock is one step; a check of
  the network is one step too.
\<close>

section \<open>Errors\<close>

datatype connectError =
    AlreadyConnected | RouteManagerError | NoTurnSettings | NewTunnelError | ConnectCancelled | CaptchaError string
  | CallRequiresAuth | CallUnavailable | TurnFatal string | VKUnreachable | RelaysCarryNothing bool | ProxyFailed
  | AttachError string | SocksError | NoAdapter | InterfaceError | NotConnected | RestartFailed | NotStartedInTime

fun terminalError :: "connectError \<Rightarrow> bool" where
  "terminalError NoTurnSettings = True"
| "terminalError (CaptchaError e) = True"
| "terminalError CallRequiresAuth = True"
| "terminalError CallUnavailable = True"
| "terminalError (TurnFatal r) = True"
| "terminalError _ = False"

section \<open>The manager\<close>

datatype tunnelMode = ModeVPN | ModeSOCKS

definition DefaultSocksPort :: int where "DefaultSocksPort = 1080"
declare DefaultSocksPort_def [go_consts]

type_synonym physNet = "string \<times> string"   \<comment> \<open>the gateway, empty if there is none, and its interface\<close>

definition noNet :: physNet where "noNet = ([], [])"

record manager =
  mgrUp :: bool              \<comment> \<open>connected\<close>
  mgrTunnel :: bool
  mgrRoutes :: bool
  mgrSocks :: bool
  mgrMode :: tunnelMode
  mgrSocksPort :: int
  mgrPhys :: physNet
  mgrLUID :: nat
  mgrWatch :: bool
  mgrNetLost :: bool
  mgrSwitchedAt :: "gtime option"

definition newManager :: manager where
  "newManager = \<lparr>mgrUp = False, mgrTunnel = False, mgrRoutes = False, mgrSocks = False, mgrMode = ModeVPN, mgrSocksPort = DefaultSocksPort,
     mgrPhys = noNet, mgrLUID = 0, mgrWatch = False, mgrNetLost = False, mgrSwitchedAt = None\<rparr>"

definition setMode :: "tunnelMode option \<Rightarrow> int \<Rightarrow> manager \<Rightarrow> manager" where
  "setMode mode port m =
    (if mgrUp m then m
     else m\<lparr>mgrMode := (case mode of Some x \<Rightarrow> x | None \<Rightarrow> ModeVPN),
            mgrSocksPort := (if port < 1 \<or> port > 65535 then DefaultSocksPort else port)\<rparr>)"

datatype managerCall =
    SetsRouter | ClearsRouter | CleansRoutes | TellsAvailable bool | StartsTunnel | StopsTunnel
  | RoutesTo "string list" | AttachesDevice | OpensSocks | ClosesSocks | SetsInterface | AddsVPNRoutes | RemovesVPNRoutes
  | WatchesNet | UnwatchesNet | SolvesCaptcha | RefreshesRoutes | ReassertsRoutes | WakesStreams string | TellsNetworkChange

section \<open>Connecting\<close>

text \<open>One answer of the wait for the proxy: cancelled by then or not, the status, and what the solver made of a captcha.\<close>

record readyLook =
  lookCancelled :: bool
  lookStatus :: readyStatus
  lookCaptcha :: "string option"   \<comment> \<open>its error\<close>

fun awaitReady :: "string \<Rightarrow> bool \<Rightarrow> readyLook list \<Rightarrow> connectError option option \<times> managerCall list" where
  "awaitReady reason overTCP [] = (None, [])"
| "awaitReady reason overTCP (l # ls) =
    (if lookCancelled l then (Some (Some ConnectCancelled), [])
     else (case lookStatus l of
         ReadyOK \<Rightarrow> (Some None, [])
       | ReadyCaptchaRequired \<Rightarrow> (case lookCaptcha l of
           Some e \<Rightarrow> (Some (Some (CaptchaError e)), [])
         | None \<Rightarrow> (case awaitReady reason overTCP ls of (res, calls) \<Rightarrow> (res, SolvesCaptcha # calls)))
       | ReadyAuthRequired \<Rightarrow> (Some (Some CallRequiresAuth), [])
       | ReadyCallUnavailable \<Rightarrow> (Some (Some CallUnavailable), [])
       | ReadyTurnFatal \<Rightarrow> (Some (Some (TurnFatal reason)), [])
       | ReadyVKUnreachable \<Rightarrow> (Some (Some VKUnreachable), [])
       | ReadyRelaysCarryNothing \<Rightarrow> (Some (Some (RelaysCarryNothing overTCP)), [])
       | ReadyError \<Rightarrow> (Some (Some ProxyFailed), [])))"

record connectWorld =
  cwRouteManager :: bool
  cwGateway :: "physNet option"
  cwVKLink :: bool
  cwTurnIP :: string
  cwTunnelOk :: bool
  cwLooks :: "readyLook list"
  cwFatal :: string
  cwOverTCP :: bool
  cwAttach :: "string option"      \<comment> \<open>its error\<close>
  cwSocksListens :: bool
  cwLUID :: nat
  cwSetup :: bool
  cwTURNHosts :: "string list"     \<comment> \<open>the active relays that are addresses\<close>
  cwAuthIPs :: "string list"
  cwWatch :: bool

text \<open>What the deferred clean-up of a connect that failed takes down.\<close>

definition undoConnect :: "manager \<Rightarrow> managerCall list \<times> manager" where
  "undoConnect m =
    ((if mgrSocks m then [ClosesSocks] else []) @ (if mgrTunnel m then [StopsTunnel] else []) @
     (if mgrRoutes m then [ClearsRouter, CleansRoutes] else []),
     m\<lparr>mgrSocks := False, mgrTunnel := False, mgrRoutes := False\<rparr>)"

text \<open>The WireGuard side, by mode: the error if it has one.\<close>

definition attachSocks :: "connectWorld \<Rightarrow> manager \<Rightarrow> connectError option \<times> managerCall list \<times> manager" where
  "attachSocks w m = (case cwAttach w of
     Some e \<Rightarrow> (Some (AttachError e), [], m)
   | None \<Rightarrow>
       if \<not> cwSocksListens w then (Some SocksError, [AttachesDevice], m)
       else (None, [AttachesDevice, OpensSocks], m\<lparr>mgrSocks := True\<rparr>))"

definition attachVPN :: "connectWorld \<Rightarrow> manager \<Rightarrow> connectError option \<times> managerCall list \<times> manager" where
  "attachVPN w m = (case cwAttach w of
     Some e \<Rightarrow> (Some (AttachError e), [], m)
   | None \<Rightarrow>
       if cwLUID w = 0 then (Some NoAdapter, [AttachesDevice], m)
       else
         let m = m\<lparr>mgrLUID := cwLUID w\<rparr>
         in if \<not> cwSetup w then (Some InterfaceError, [AttachesDevice, SetsInterface], m)
            else (None, [AttachesDevice, SetsInterface] @
                (if cwTURNHosts w \<noteq> [] then [RoutesTo (cwTURNHosts w)] else []) @
                (if cwAuthIPs w \<noteq> [] then [RoutesTo (cwAuthIPs w)] else []) @ [AddsVPNRoutes], m))"

text \<open>The steps of \<open>Connect\<close> up to the wait; from the wait on; and the whole, with the clean-up. \<open>None\<close>: the wait is not over.\<close>

definition beginConnect :: "connectWorld \<Rightarrow> manager \<Rightarrow> connectError option \<times> managerCall list \<times> manager" where
  "beginConnect w m =
    (if mgrMode m = ModeVPN \<and> \<not> cwRouteManager w then (Some RouteManagerError, [], m)
     else
       let vpn = (mgrMode m = ModeVPN);
           routed = (if vpn then [SetsRouter] else []);
           m = (if vpn then m\<lparr>mgrRoutes := True\<rparr> else m);
           m = m\<lparr>mgrPhys := (case cwGateway w of Some n \<Rightarrow> n | None \<Rightarrow> noNet)\<rparr>;
           told = [TellsAvailable (fst (mgrPhys m) \<noteq> [])]
       in if \<not> cwVKLink w then (Some NoTurnSettings, routed @ told, m)
          else if \<not> cwTunnelOk w then (Some NewTunnelError, routed @ told, m)
          else (None, routed @ told @ [StartsTunnel] @ (if vpn \<and> cwTurnIP w \<noteq> [] then [RoutesTo [cwTurnIP w]] else []),
                m\<lparr>mgrTunnel := True\<rparr>))"

definition finishConnect :: "connectWorld \<Rightarrow> manager \<Rightarrow> connectError option \<times> managerCall list \<times> manager" where
  "finishConnect w m =
    (case (if mgrMode m = ModeSOCKS then attachSocks w m else attachVPN w m) of
       (Some e, calls, m) \<Rightarrow> (Some e, calls, m)
     | (None, calls, m) \<Rightarrow>
         (None, calls @ (if cwWatch w then [WatchesNet] else []), m\<lparr>mgrWatch := (if cwWatch w then True else mgrWatch m), mgrUp := True\<rparr>))"

definition failConnect :: "connectError \<Rightarrow> managerCall list \<Rightarrow> manager \<Rightarrow> connectError option option \<times> managerCall list \<times> manager" where
  "failConnect e calls m = (case undoConnect m of (undo, m) \<Rightarrow> (Some (Some e), calls @ undo, m))"

definition Connect :: "connectWorld \<Rightarrow> manager \<Rightarrow> connectError option option \<times> managerCall list \<times> manager" where
  "Connect w m =
    (if mgrUp m then (Some (Some AlreadyConnected), [], m)
     else (case beginConnect w m of
         (Some e, calls, m) \<Rightarrow> failConnect e calls m
       | (None, calls, m) \<Rightarrow> (case awaitReady (cwFatal w) (cwOverTCP w) (cwLooks w) of
           (None, waits) \<Rightarrow> (None, calls @ waits, m)
         | (Some (Some e), waits) \<Rightarrow> failConnect e (calls @ waits) m
         | (Some None, waits) \<Rightarrow> (case finishConnect w m of
             (Some e, attached, m) \<Rightarrow> failConnect e (calls @ waits @ attached) m
           | (None, attached, m) \<Rightarrow> (Some None, calls @ waits @ attached, m)))))"

definition Disconnect :: "manager \<Rightarrow> managerCall list \<times> manager" where
  "Disconnect m =
    (if \<not> mgrUp m then ([], m)
     else
       ((if mgrWatch m then [UnwatchesNet] else []) @ (if mgrSocks m then [ClosesSocks] else []) @
        (if mgrMode m = ModeVPN \<and> mgrLUID m \<noteq> 0 then [RemovesVPNRoutes] else []) @
        (if mgrTunnel m then [StopsTunnel] else []) @ (if mgrRoutes m then [ClearsRouter, CleansRoutes] else []),
        m\<lparr>mgrWatch := False, mgrSocks := False, mgrLUID := (if mgrMode m = ModeVPN then 0 else mgrLUID m), mgrTunnel := False,
          mgrRoutes := False, mgrUp := False\<rparr>))"

section \<open>A restarted transport\<close>

definition rebuildBudget :: duration where "rebuildBudget = 4 * minute"
declare rebuildBudget_def [go_consts]

text \<open>A look of the wait: cancelled or not, what the wait of the tunnel answered, whether a captcha is shown, and the clock.\<close>

record startLook =
  startCancelled :: bool
  startAnswer :: "readyStatus \<times> bool"
  captchaShown :: bool
  startNow :: gtime

fun awaitTransport :: "string \<Rightarrow> bool \<Rightarrow> gtime \<Rightarrow> startLook list \<Rightarrow> connectError option option" where
  "awaitTransport reason overTCP deadline [] = None"
| "awaitTransport reason overTCP deadline (l # ls) =
    (if startCancelled l then Some (Some ConnectCancelled)
     else if \<not> snd (startAnswer l) then
       (if captchaShown l \<or> startNow l < deadline then awaitTransport reason overTCP deadline ls else Some (Some NotStartedInTime))
     else (case fst (startAnswer l) of
         ReadyOK \<Rightarrow> Some None
       | ReadyAuthRequired \<Rightarrow> Some (Some CallRequiresAuth)
       | ReadyCallUnavailable \<Rightarrow> Some (Some CallUnavailable)
       | ReadyTurnFatal \<Rightarrow> Some (Some (TurnFatal reason))
       | ReadyVKUnreachable \<Rightarrow> Some (Some VKUnreachable)
       | ReadyRelaysCarryNothing \<Rightarrow> Some (Some (RelaysCarryNothing overTCP))
       | _ \<Rightarrow> Some (Some ProxyFailed)))"

definition RebuildTransport ::
  "bool \<Rightarrow> bool \<Rightarrow> string \<Rightarrow> bool \<Rightarrow> gtime \<Rightarrow> startLook list \<Rightarrow> manager \<Rightarrow> connectError option option" where
  "RebuildTransport newCredentials restarts reason overTCP now looks m =
    (if \<not> mgrUp m \<or> \<not> mgrTunnel m then Some (Some NotConnected)
     else if \<not> restarts then Some (Some RestartFailed)
     else awaitTransport reason overTCP (now + rebuildBudget) looks)"

text \<open>The switch of the transport: whether it changed (or failed), the waits, and the clock before and after them.\<close>

definition SetRelayTransport ::
  "(bool \<times> bool) \<Rightarrow> string \<Rightarrow> bool \<Rightarrow> gtime \<Rightarrow> startLook list \<Rightarrow> gtime \<Rightarrow> manager \<Rightarrow> (bool \<times> connectError option option) \<times> manager" where
  "SetRelayTransport changedOk reason overTCP now looks after m =
    (if \<not> mgrUp m \<or> \<not> mgrTunnel m then ((False, Some (Some NotConnected)), m)
     else if \<not> snd changedOk then ((fst changedOk, Some (Some RestartFailed)), m)
     else if \<not> fst changedOk then ((False, Some None), m)
     else (case awaitTransport reason overTCP (now + rebuildBudget) looks of
         None \<Rightarrow> ((True, None), m\<lparr>mgrSwitchedAt := Some now\<rparr>)
       | Some res \<Rightarrow> ((True, Some res), m\<lparr>mgrSwitchedAt := Some after\<rparr>)))"

section \<open>The physical network\<close>

text \<open>
  A look at the physical network, and whether the routes found a new gateway when refreshed.
\<close>

definition CheckNetworkChange :: "physNet option \<Rightarrow> bool \<Rightarrow> manager \<Rightarrow> bool \<times> managerCall list \<times> manager" where
  "CheckNetworkChange seen refreshed m =
    (if \<not> mgrTunnel m then (False, [], m)
     else
       let prev = mgrPhys m; told = [TellsAvailable (seen \<noteq> None)];
           lost = (seen = None \<and> fst prev \<noteq> []);
           back = (mgrNetLost m \<and> \<not> lost);
           m = m\<lparr>mgrNetLost := lost\<rparr>
       in (case seen of
             None \<Rightarrow> (False, told, m)
           | Some cur \<Rightarrow>
               if cur = prev then
                 (False, told @ (if back then (if mgrRoutes m then RefreshesRoutes # (if refreshed then [] else [ReassertsRoutes]) else []) @
                    [WakesStreams ''gateway back''] else []), m)
               else
                 let m = m\<lparr>mgrPhys := cur\<rparr>
                 in if fst prev = [] then (False, told, m)
                    else (True, told @ (if mgrRoutes m then [RefreshesRoutes] else []) @ [TellsNetworkChange, WakesStreams ''network changed''], m)))"

definition HadGateway :: "manager \<Rightarrow> bool" where
  "HadGateway m \<longleftrightarrow> fst (mgrPhys m) \<noteq> []"

section \<open>Notices of the system\<close>

definition netChangeDebounce :: duration where "netChangeDebounce = second"
declare netChangeDebounce_def [go_consts]

text \<open>The timer armed by the last notice; a timer that runs out calls back.\<close>

record netWatcher =
  watchTimer :: "gtime option"
  watchClosed :: bool

definition kickWatcher :: "gtime \<Rightarrow> netWatcher \<Rightarrow> netWatcher" where
  "kickWatcher now w = (if watchClosed w then w else w\<lparr>watchTimer := Some (now + netChangeDebounce)\<rparr>)"

definition runWatcher :: "gtime \<Rightarrow> netWatcher \<Rightarrow> bool \<times> netWatcher" where
  "runWatcher now w = (case watchTimer w of
     Some due \<Rightarrow> if due \<le> now then (True, w\<lparr>watchTimer := None\<rparr>) else (False, w)
   | None \<Rightarrow> (False, w))"

definition closeWatcher :: "netWatcher \<Rightarrow> netWatcher" where
  "closeWatcher w = w\<lparr>watchClosed := True, watchTimer := None\<rparr>"

section \<open>Names and numbers\<close>

definition sanitizeIfaceName :: "string \<Rightarrow> string" where
  "sanitizeIfaceName name = (if name = [] then ''WgKeyBot'' else if length name > 32 then take 32 name else name)"

definition RelaysSilentShown :: duration where "RelaysSilentShown = 10 * second"
declare RelaysSilentShown_def [go_consts]

definition RelaysSilent :: "duration \<Rightarrow> bool" where
  "RelaysSilent pathSilent \<longleftrightarrow> pathSilent \<ge> RelaysSilentShown"

datatype relayTransport = AsConfigured | TransportUDP | TransportTCP

definition relayTransportOf :: "string \<Rightarrow> relayTransport" where
  "relayTransportOf s = (if s = ''udp'' then TransportUDP else if s = ''tcp'' then TransportTCP else AsConfigured)"

definition ApplyRelayTransport :: "tunnelConfig option \<Rightarrow> relayTransport \<Rightarrow> tunnelConfig option" where
  "ApplyRelayTransport cfg t = (case cfg of
     None \<Rightarrow> None
   | Some c \<Rightarrow>
       if t = AsConfigured then Some c
       else if UseUDP (TURN c) = (t = TransportUDP) then Some c
       else Some (c\<lparr>TURN := (TURN c)\<lparr>UseUDP := (t = TransportUDP)\<rparr>\<rparr>))"

end
