(* ===== verification/TunnelManagerProps.thy ===== *)
theory TunnelManagerProps
  imports TunnelManager Traces
begin

text \<open>
  What the manager and the life of its proxy promise: whatever a connect brings up is taken down again, one generation of the proxy runs
  at a time, and the streams are woken exactly when the physical network came back or moved.
\<close>

section \<open>Up and down\<close>

datatype managerOp = OpSetMode "tunnelMode option" int | OpConnect connectWorld | OpDisconnect | OpCheck "physNet option" bool

fun managerStep :: "managerOp \<Rightarrow> manager \<Rightarrow> managerCall list \<times> manager" where
  "managerStep (OpSetMode mode port) m = ([], setMode mode port m)"
| "managerStep (OpConnect w) m = (case Connect w m of (res, calls, m) \<Rightarrow> (calls, m))"
| "managerStep OpDisconnect m = Disconnect m"
| "managerStep (OpCheck seen refreshed) m = (case CheckNetworkChange seen refreshed m of (changed, calls, m) \<Rightarrow> (calls, m))"

text \<open>A connect is followed to its end.\<close>

fun endsWait :: "managerOp \<Rightarrow> bool" where
  "endsWait (OpConnect w) \<longleftrightarrow> fst (awaitReady (cwFatal w) (cwOverTCP w) (cwLooks w)) \<noteq> None"
| "endsWait _ \<longleftrightarrow> True"

text \<open>What is up of a kind, by the calls: how often it was brought up less how often it was taken down.\<close>

definition standing :: "managerCall \<Rightarrow> managerCall \<Rightarrow> managerCall list \<Rightarrow> int" where
  "standing up down calls = int (count_list calls up) - int (count_list calls down)"

lemma levels_append [simp]: "standing up down (xs @ ys) = standing up down xs + standing up down ys"
  by (simp add: standing_def)

lemma standing_Nil [simp]: "standing up down [] = 0"
  by (simp add: standing_def)

lemma standing_Cons [simp]:
  "standing up down (c # cs) = (if c = up then 1 else 0) - (if c = down then 1 else 0) + standing up down cs"
  by (simp add: standing_def)

definition flag :: "bool \<Rightarrow> int" where "flag b = (if b then 1 else 0)"

lemma flag_simps [simp]: "flag True = 1" "flag False = 0"
  by (simp_all add: flag_def)

text \<open>The counts of a list of calls move what is up from one manager to another.\<close>

definition moves :: "manager \<Rightarrow> managerCall list \<Rightarrow> manager \<Rightarrow> bool" where
  "moves m calls m' \<longleftrightarrow>
    standing StartsTunnel StopsTunnel calls = flag (mgrTunnel m') - flag (mgrTunnel m) \<and>
    standing SetsRouter ClearsRouter calls = flag (mgrRoutes m') - flag (mgrRoutes m) \<and>
    standing OpensSocks ClosesSocks calls = flag (mgrSocks m') - flag (mgrSocks m) \<and>
    standing WatchesNet UnwatchesNet calls = flag (mgrWatch m') - flag (mgrWatch m) \<and>
    standing AddsVPNRoutes RemovesVPNRoutes calls = flag (mgrUp m' \<and> mgrMode m' = ModeVPN) - flag (mgrUp m \<and> mgrMode m = ModeVPN)"

lemma moves_trans: "\<lbrakk>moves m xs m'; moves m' ys m''\<rbrakk> \<Longrightarrow> moves m (xs @ ys) m''"
  by (simp add: moves_def)

text \<open>A manager at rest between calls: connected with everything its mode takes, or with nothing.\<close>

definition whole :: "manager \<Rightarrow> bool" where
  "whole m \<longleftrightarrow>
    (if mgrUp m then mgrTunnel m \<and> (mgrMode m = ModeVPN \<longrightarrow> mgrRoutes m \<and> \<not> mgrSocks m \<and> mgrLUID m \<noteq> 0) \<and>
       (mgrMode m = ModeSOCKS \<longrightarrow> \<not> mgrRoutes m \<and> mgrSocks m)
     else \<not> mgrTunnel m \<and> \<not> mgrRoutes m \<and> \<not> mgrSocks m \<and> \<not> mgrWatch m)"

lemma awaitReady_calls: "standing up down (snd (awaitReady r o' ls)) = standing up down (replicate (length (snd (awaitReady r o' ls))) SolvesCaptcha)"
  by (induction r o' ls rule: awaitReady.induct) (auto split: readyStatus.splits option.splits prod.splits)

lemma standing_replicate: "standing up down (replicate n c) = int n * (flag (c = up) - flag (c = down))"
  by (induction n) (auto simp: flag_def algebra_simps)

lemma awaitReady_moves: "moves m (snd (awaitReady r tcp ls)) m"
  unfolding moves_def awaitReady_calls standing_replicate by simp

lemma beginConnect_moves:
  "\<lbrakk>beginConnect w m = (e, calls, m'); whole m; \<not> mgrUp m\<rbrakk> \<Longrightarrow>
    moves m calls m' \<and> \<not> mgrUp m' \<and> \<not> mgrSocks m' \<and> \<not> mgrWatch m' \<and> mgrMode m' = mgrMode m \<and>
    (e = None \<longrightarrow> mgrTunnel m' \<and> (mgrRoutes m' \<longleftrightarrow> mgrMode m' = ModeVPN))"
  by (auto simp: beginConnect_def moves_def whole_def Let_def split: if_splits)

lemma finishConnect_moves:
  assumes "finishConnect w m = (e, calls, m')" "\<not> mgrUp m" "\<not> mgrSocks m" "\<not> mgrWatch m" "mgrTunnel m" "mgrRoutes m \<longleftrightarrow> mgrMode m = ModeVPN"
  shows "moves m calls m' \<and> mgrMode m' = mgrMode m \<and> (e = None \<longrightarrow> whole m') \<and> (e \<noteq> None \<longrightarrow> \<not> mgrUp m' \<and> \<not> mgrWatch m')"
  using assms
  by (cases "mgrMode m"; cases "cwAttach w")
    (auto simp: finishConnect_def attachSocks_def attachVPN_def moves_def whole_def Let_def split: if_splits)

lemma undoConnect_moves:
  "\<lbrakk>undoConnect m = (calls, m'); \<not> mgrUp m; \<not> mgrWatch m\<rbrakk> \<Longrightarrow> moves m calls m' \<and> whole m' \<and> \<not> mgrUp m'"
  by (auto simp: undoConnect_def moves_def whole_def)

lemma failConnect_moves:
  assumes "failConnect e calls m1 = (res, calls', m')" "moves m calls m1" "\<not> mgrUp m1" "\<not> mgrWatch m1"
  shows "moves m calls' m' \<and> whole m' \<and> \<not> mgrUp m' \<and> res = Some (Some e)"
proof -
  obtain undo m2 where u: "undoConnect m1 = (undo, m2)" by (cases "undoConnect m1")
  then show ?thesis using undoConnect_moves [OF u assms(3,4)] moves_trans [OF assms(2)] assms(1) by (auto simp: failConnect_def)
qed

lemma Connect_moves:
  assumes "Connect w m = (res, calls, m')" "whole m" "endsWait (OpConnect w)"
  shows "moves m calls m' \<and> whole m' \<and> res \<noteq> None \<and> (\<not> mgrUp m \<longrightarrow> (res = Some None \<longleftrightarrow> mgrUp m'))"
proof (cases "mgrUp m")
  case True
  then show ?thesis using assms by (auto simp: Connect_def moves_def)
next
  case down: False
  obtain e c1 m1 where b: "beginConnect w m = (e, c1, m1)" by (cases "beginConnect w m")
  have bm: "moves m c1 m1" "\<not> mgrUp m1" "\<not> mgrSocks m1" "\<not> mgrWatch m1" "mgrMode m1 = mgrMode m"
    "e = None \<Longrightarrow> mgrTunnel m1 \<and> (mgrRoutes m1 \<longleftrightarrow> mgrMode m1 = ModeVPN)"
    using beginConnect_moves [OF b assms(2) down] by auto
  show ?thesis
  proof (cases e)
    case (Some x)
    then have "failConnect x c1 m1 = (res, calls, m')" using assms(1) b down by (simp add: Connect_def)
    from failConnect_moves [OF this bm(1,2,4)] show ?thesis by auto
  next
    case None
    obtain r waits where a: "awaitReady (cwFatal w) (cwOverTCP w) (cwLooks w) = (Some r, waits)"
      using assms(3) by (cases "awaitReady (cwFatal w) (cwOverTCP w) (cwLooks w)") auto
    have wm: "moves m (c1 @ waits) m1"
      using moves_trans [OF bm(1), of waits m1] awaitReady_moves [of m1 "cwFatal w" "cwOverTCP w" "cwLooks w"] a by simp
    show ?thesis
    proof (cases r)
      case (Some x)
      then have "failConnect x (c1 @ waits) m1 = (res, calls, m')" using assms(1) b down None a by (simp add: Connect_def)
      from failConnect_moves [OF this wm bm(2,4)] show ?thesis by auto
    next
      case ready: None
      obtain f c2 m2 where fin: "finishConnect w m1 = (f, c2, m2)" by (cases "finishConnect w m1")
      have fm: "moves m1 c2 m2" "f = None \<Longrightarrow> whole m2" "f \<noteq> None \<Longrightarrow> \<not> mgrUp m2 \<and> \<not> mgrWatch m2"
        using finishConnect_moves [OF fin bm(2,3,4)] bm(6) [OF None] by auto
      have all: "moves m (c1 @ waits @ c2) m2" using moves_trans [OF wm fm(1)] by simp
      show ?thesis
      proof (cases f)
        case None
        then have "mgrUp m2" using fin by (auto simp: finishConnect_def split: prod.splits option.splits)
        then show ?thesis using assms(1) b down \<open>e = None\<close> a ready fin None all fm(2) by (auto simp: Connect_def)
      next
        case (Some x)
        then have "failConnect x (c1 @ waits @ c2) m2 = (res, calls, m')"
          using assms(1) b down \<open>e = None\<close> a ready fin by (simp add: Connect_def)
        from failConnect_moves [OF this all] fm(3) Some show ?thesis by auto
      qed
    qed
  qed
qed

lemma Disconnect_moves:
  "\<lbrakk>Disconnect m = (calls, m'); whole m\<rbrakk> \<Longrightarrow> moves m calls m' \<and> whole m' \<and> \<not> mgrUp m'"
  by (cases "mgrMode m") (auto simp: Disconnect_def moves_def whole_def split: if_splits)

lemma setMode_moves: "whole m \<Longrightarrow> moves m [] (setMode mode port m) \<and> whole (setMode mode port m)"
  by (auto simp: setMode_def moves_def whole_def)

fun uncounted :: "managerCall \<Rightarrow> bool" where
  "uncounted (TellsAvailable b) = True"
| "uncounted RefreshesRoutes = True"
| "uncounted ReassertsRoutes = True"
| "uncounted (WakesStreams w) = True"
| "uncounted TellsNetworkChange = True"
| "uncounted _ = False"

lemma moves_same:
  assumes "m' = m\<lparr>mgrPhys := p, mgrNetLost := l\<rparr>" "list_all uncounted calls" "whole m"
  shows "moves m calls m' \<and> whole m'"
proof
  have z: "count_list calls c = 0" if "\<not> uncounted c" for c using assms(2) that by (metis count_notin list_all_iff)
  show "moves m calls m'" unfolding assms(1) by (simp add: moves_def standing_def z)
  show "whole m'" using assms(3) unfolding assms(1) by (simp add: whole_def)
qed

lemma check_state:
  "snd (snd (CheckNetworkChange seen refreshed m)) =
    m\<lparr>mgrPhys := (if mgrTunnel m then (case seen of None \<Rightarrow> mgrPhys m | Some c \<Rightarrow> c) else mgrPhys m),
      mgrNetLost := (if mgrTunnel m then seen = None \<and> fst (mgrPhys m) \<noteq> [] else mgrNetLost m)\<rparr>"
  by (cases seen) (simp_all add: CheckNetworkChange_def Let_def)

lemma check_only:
  assumes "CheckNetworkChange seen refreshed m = (changed, calls, m')"
  shows "(\<exists>p l. m' = m\<lparr>mgrPhys := p, mgrNetLost := l\<rparr>) \<and> list_all uncounted calls"
proof -
  have c: "list_all uncounted (fst (snd (CheckNetworkChange seen refreshed m)))"
    unfolding CheckNetworkChange_def Let_def by (simp split: option.split)
  show ?thesis using check_state [of seen refreshed m] c unfolding assms snd_conv fst_conv by blast
qed

lemma check_moves:
  assumes "CheckNetworkChange seen refreshed m = (changed, calls, m')" "whole m"
  shows "moves m calls m' \<and> whole m'"
proof -
  obtain p l where "m' = m\<lparr>mgrPhys := p, mgrNetLost := l\<rparr>" "list_all uncounted calls" using check_only [OF assms(1)] by blast
  then show ?thesis using assms(2) by (rule moves_same)
qed

lemma awaitReady_only: "set (snd (awaitReady r tcp ls)) \<subseteq> {SolvesCaptcha}"
  by (induction r tcp ls rule: awaitReady.induct) (auto split: readyStatus.splits option.splits prod.splits)

definition lateCalls :: "managerCall set" where "lateCalls = {AddsVPNRoutes, WatchesNet}"

lemma undoConnect_early: "set (fst (undoConnect m)) \<inter> lateCalls = {}"
  by (simp add: undoConnect_def lateCalls_def)

lemma failConnect_early:
  "\<lbrakk>failConnect e calls m1 = (res, calls', m'); set calls \<inter> lateCalls = {}\<rbrakk> \<Longrightarrow> set calls' \<inter> lateCalls = {}"
  using undoConnect_early [of m1] by (cases "undoConnect m1") (auto simp: failConnect_def)

lemma beginConnect_early: "beginConnect w m = (e, calls, m1) \<Longrightarrow> set calls \<inter> lateCalls = {}"
  by (auto simp: beginConnect_def lateCalls_def Let_def split: if_splits)

lemma finishConnect_early: "finishConnect w m = (Some e, calls, m1) \<Longrightarrow> set calls \<inter> lateCalls = {}"
  by (cases "mgrMode m"; cases "cwAttach w")
    (auto simp: finishConnect_def attachSocks_def attachVPN_def lateCalls_def Let_def split: if_splits)

lemma Connect_early:
  assumes "Connect w m = (res, calls, m')" "res \<noteq> Some None" "\<not> mgrUp m"
  shows "set calls \<inter> lateCalls = {}"
proof -
  obtain e c1 m1 where b: "beginConnect w m = (e, c1, m1)" by (cases "beginConnect w m")
  note e1 = beginConnect_early [OF b]
  obtain r waits where a: "awaitReady (cwFatal w) (cwOverTCP w) (cwLooks w) = (r, waits)" by fastforce
  have e2: "set (c1 @ waits) \<inter> lateCalls = {}"
    using e1 awaitReady_only [of "cwFatal w" "cwOverTCP w" "cwLooks w"] a by (auto simp: lateCalls_def)
  obtain f c2 m2 where fin: "finishConnect w m1 = (f, c2, m2)" by (cases "finishConnect w m1")
  show ?thesis
  proof (cases e)
    case (Some x)
    then have "failConnect x c1 m1 = (res, calls, m')" using assms(1,3) b by (simp add: Connect_def)
    then show ?thesis using e1 by (rule failConnect_early)
  next
    case none: None
    consider "r = None" | x where "r = Some (Some x)" | "r = Some None" by (cases r) auto
    then show ?thesis
    proof cases
      case 1
      then show ?thesis using assms(1,3) b none a e2 by (simp add: Connect_def)
    next
      case (2 x)
      then have "failConnect x (c1 @ waits) m1 = (res, calls, m')" using assms(1,3) b none a by (simp add: Connect_def)
      then show ?thesis using e2 by (rule failConnect_early)
    next
      case 3
      show ?thesis
      proof (cases f)
        case None
        then show ?thesis using assms b none a 3 fin by (simp add: Connect_def)
      next
        case (Some x)
        then have "failConnect x (c1 @ waits @ c2) m2 = (res, calls, m')"
          using assms(1,3) b none a 3 fin by (simp add: Connect_def)
        moreover have "set (c1 @ waits @ c2) \<inter> lateCalls = {}" using e2 finishConnect_early [of w m1 x c2 m2] fin Some by auto
        ultimately show ?thesis using failConnect_early by blast
      qed
    qed
  qed
qed

lemma managerStep_moves:
  assumes "whole m" "endsWait q" "managerStep q m = (calls, m')"
  shows "moves m calls m' \<and> whole m'"
proof (cases q)
  case (OpSetMode mode port)
  then show ?thesis using assms setMode_moves by auto
next
  case (OpConnect w)
  then obtain res where "Connect w m = (res, calls, m')" using assms(3) by (cases "Connect w m") auto
  then show ?thesis using Connect_moves assms(1,2) OpConnect by blast
next
  case OpDisconnect
  then show ?thesis using assms Disconnect_moves by auto
next
  case (OpCheck seen refreshed)
  then obtain changed where "CheckNetworkChange seen refreshed m = (changed, calls, m')"
    using assms(3) by (cases "CheckNetworkChange seen refreshed m") auto
  then show ?thesis using check_moves assms(1) by blast
qed

interpretation managed: traced managerStep "\<lambda>tr m. moves newManager (concat (map snd tr)) m \<and> whole m" endsWait
  by unfold_locales (auto dest: managerStep_moves intro: moves_trans)

text \<open>
  C20. However connects, whatever step of theirs fails, disconnects, switches of the mode and checks of the network follow one another: the
  tunnel, the router of its dials, the SOCKS server, the watch on the network and the routes into the tunnel have been brought up as
  often as taken down, once more while the manager is connected in the mode that has them; and a connect that fails leaves nothing up.
\<close>

theorem nothing_is_left_up:
  assumes "traceRun managerStep ops newManager = (tr, m)" "\<forall>q \<in> set ops. endsWait q"
  shows "let calls = concat (map snd tr); vpn = (mgrUp m \<and> mgrMode m = ModeVPN)
    in standing StartsTunnel StopsTunnel calls = flag (mgrUp m) \<and>
       standing SetsRouter ClearsRouter calls = flag vpn \<and>
       standing AddsVPNRoutes RemovesVPNRoutes calls = flag vpn \<and>
       standing OpensSocks ClosesSocks calls = flag (mgrUp m \<and> mgrMode m = ModeSOCKS) \<and>
       (\<not> mgrUp m \<longrightarrow> standing WatchesNet UnwatchesNet calls = 0) \<and>
       (\<forall>w res c m'. Connect w m = (res, c, m') \<and> endsWait (OpConnect w) \<and> \<not> mgrUp m \<and> res \<noteq> Some None \<longrightarrow>
          standing StartsTunnel StopsTunnel c = 0 \<and> standing SetsRouter ClearsRouter c = 0 \<and> standing OpensSocks ClosesSocks c = 0 \<and>
          AddsVPNRoutes \<notin> set c \<and> WatchesNet \<notin> set c)"
proof -
  have k: "moves newManager (concat (map snd tr)) m" "whole m"
    using managed.run_establishes [OF assms(1)] assms(2) by (auto simp: moves_def whole_def newManager_def)
  have fails: "standing StartsTunnel StopsTunnel c = 0 \<and> standing SetsRouter ClearsRouter c = 0 \<and> standing OpensSocks ClosesSocks c = 0 \<and>
      AddsVPNRoutes \<notin> set c \<and> WatchesNet \<notin> set c"
    if "Connect w m = (res, c, m')" "endsWait (OpConnect w)" "\<not> mgrUp m" "res \<noteq> Some None" for w res c m'
    using Connect_moves [OF that(1) k(2) that(2)] that(3,4) Connect_early [OF that(1,4,3)] k(2) by (simp add: moves_def whole_def lateCalls_def)
  have up: "mgrTunnel m \<longleftrightarrow> mgrUp m" "mgrRoutes m \<longleftrightarrow> mgrUp m \<and> mgrMode m = ModeVPN" "mgrSocks m \<longleftrightarrow> mgrUp m \<and> mgrMode m = ModeSOCKS"
    "\<not> mgrUp m \<longrightarrow> \<not> mgrWatch m"
    using k(2) by (cases "mgrMode m"; cases "mgrUp m"; simp add: whole_def)+
  have "standing StartsTunnel StopsTunnel (concat (map snd tr)) = flag (mgrTunnel m)"
    "standing SetsRouter ClearsRouter (concat (map snd tr)) = flag (mgrRoutes m)"
    "standing AddsVPNRoutes RemovesVPNRoutes (concat (map snd tr)) = flag (mgrUp m \<and> mgrMode m = ModeVPN)"
    "standing OpensSocks ClosesSocks (concat (map snd tr)) = flag (mgrSocks m)"
    "standing WatchesNet UnwatchesNet (concat (map snd tr)) = flag (mgrWatch m)"
    using k(1) by (simp_all add: moves_def newManager_def)
  moreover have "\<forall>w res c m'. Connect w m = (res, c, m') \<and> endsWait (OpConnect w) \<and> \<not> mgrUp m \<and> res \<noteq> Some None \<longrightarrow>
      standing StartsTunnel StopsTunnel c = 0 \<and> standing SetsRouter ClearsRouter c = 0 \<and> standing OpensSocks ClosesSocks c = 0 \<and>
      AddsVPNRoutes \<notin> set c \<and> WatchesNet \<notin> set c"
    using fails by blast
  ultimately show ?thesis using up(4) unfolding Let_def up by (intro conjI) simp_all
qed

lemma nothing_is_left_up_witness:
  "let w = \<lparr>cwRouteManager = True, cwGateway = Some (''192.168.1.1'', ''7''), cwVKLink = True, cwTurnIP = [], cwTunnelOk = True,
       cwLooks = [\<lparr>lookCancelled = False, lookStatus = ReadyCaptchaRequired, lookCaptcha = None\<rparr>,
                  \<lparr>lookCancelled = False, lookStatus = ReadyOK, lookCaptcha = None\<rparr>],
       cwFatal = [], cwOverTCP = False, cwAttach = None, cwSocksListens = True, cwLUID = 9, cwSetup = False, cwTURNHosts = [],
       cwAuthIPs = [], cwWatch = True\<rparr>;
     (tr, m) = traceRun managerStep [OpConnect w, OpConnect (w\<lparr>cwSetup := True\<rparr>), OpCheck None False, OpDisconnect] newManager
   in standing StartsTunnel StopsTunnel (concat (map snd tr)) = 0 \<and> count_list (concat (map snd tr)) StartsTunnel = 2"
proof -
  let ?w = "\<lparr>cwRouteManager = True, cwGateway = Some (''192.168.1.1'', ''7''), cwVKLink = True, cwTurnIP = [], cwTunnelOk = True,
       cwLooks = [\<lparr>lookCancelled = False, lookStatus = ReadyCaptchaRequired, lookCaptcha = None\<rparr>,
                  \<lparr>lookCancelled = False, lookStatus = ReadyOK, lookCaptcha = None\<rparr>],
       cwFatal = [], cwOverTCP = False, cwAttach = None, cwSocksListens = True, cwLUID = 9, cwSetup = False, cwTURNHosts = [],
       cwAuthIPs = [], cwWatch = True\<rparr>"
  let ?ops = "[OpConnect ?w, OpConnect (?w\<lparr>cwSetup := True\<rparr>), OpCheck None False, OpDisconnect]"
  have v: "\<not> mgrUp (snd (traceRun managerStep ?ops newManager)) \<and>
      count_list (concat (map snd (fst (traceRun managerStep ?ops newManager)))) StartsTunnel = 2 \<and> (\<forall>q \<in> set ?ops. endsWait q)"
    by code_simp
  obtain tr m where r: "traceRun managerStep ?ops newManager = (tr, m)" by (cases "traceRun managerStep ?ops newManager")
  have c: "\<not> mgrUp m" "count_list (concat (map snd tr)) StartsTunnel = 2" and e: "\<forall>q \<in> set ?ops. endsWait q"
    using v unfolding r fst_conv snd_conv by blast+
  have "standing StartsTunnel StopsTunnel (concat (map snd tr)) = flag (mgrUp m)"
    using nothing_is_left_up [OF r e] unfolding Let_def by blast
  then show ?thesis unfolding Let_def r prod.case using c by simp
qed

section \<open>The physical network\<close>

text \<open>The looks at the network of a connected manager, and the last network seen.\<close>

fun looksAt :: "(physNet option \<times> bool) list \<Rightarrow> manager \<Rightarrow> manager" where
  "looksAt [] m = m"
| "looksAt ((seen, refreshed) # ls) m = looksAt ls (snd (snd (CheckNetworkChange seen refreshed m)))"

fun lastSeen :: "physNet \<Rightarrow> (physNet option \<times> bool) list \<Rightarrow> physNet" where
  "lastSeen n [] = n"
| "lastSeen n ((seen, refreshed) # ls) = lastSeen (case seen of None \<Rightarrow> n | Some c \<Rightarrow> c) ls"

lemma looksAt_state:
  assumes "mgrTunnel m"
  shows "mgrTunnel (looksAt ls m) \<and> mgrPhys (looksAt ls m) = lastSeen (mgrPhys m) ls \<and>
    (ls \<noteq> [] \<longrightarrow> (mgrNetLost (looksAt ls m) \<longleftrightarrow> fst (last ls) = None \<and> fst (mgrPhys (looksAt ls m)) \<noteq> []))"
  using assms
proof (induction ls arbitrary: m)
  case (Cons l ls)
  obtain seen refreshed where l: "l = (seen, refreshed)" by (cases l)
  let ?m = "snd (snd (CheckNetworkChange seen refreshed m))"
  have s: "mgrTunnel ?m" "mgrPhys ?m = (case seen of None \<Rightarrow> mgrPhys m | Some c \<Rightarrow> c)" "mgrNetLost ?m \<longleftrightarrow> seen = None \<and> fst (mgrPhys m) \<noteq> []"
    using Cons.prems by (simp_all add: check_state)
  show ?case
  proof (cases "ls = []")
    case True
    then show ?thesis using s l by (cases seen) auto
  next
    case False
    then show ?thesis using Cons.IH [OF s(1)] s(2) l by simp
  qed
qed simp



text \<open>A loss noted before a disconnect is still noted at the first look after the next connect, which then wakes the streams of a network
  that was never lost.\<close>

lemma loss_outlives_the_connection:
  assumes "mgrUp m" "mgrNetLost m" "Disconnect m = (c1, m1)" "Connect w m1 = (Some None, c2, m2)"
  shows "mgrNetLost m2"
proof -
  have n: "mgrNetLost m1" using assms(1-3) by (auto simp: Disconnect_def)
  obtain e c m3 where b: "beginConnect w m1 = (e, c, m3)" by (cases "beginConnect w m1")
  have n3: "mgrNetLost m3" using b n by (auto simp: beginConnect_def Let_def split: if_splits)
  obtain f d m4 where fin: "finishConnect w m3 = (f, d, m4)" by (cases "finishConnect w m3")
  have n4: "mgrNetLost m4" using fin n3
    by (cases "mgrMode m3"; cases "cwAttach w") (auto simp: finishConnect_def attachSocks_def attachVPN_def Let_def split: if_splits)
  have "\<not> mgrUp m1" using assms(1,3) by (auto simp: Disconnect_def)
  then have "m2 = m4" using assms(4) b fin
    by (auto simp: Connect_def failConnect_def split: option.splits prod.splits)
  then show ?thesis using n4 by simp
qed

section \<open>The generations of the proxy\<close>

datatype lifeOp = OpStart | OpPublish string | OpRestart bool | OpSwitch bool | OpReady nat int | OpDevice bool | OpStop

fun lifeStep :: "lifeOp \<Rightarrow> proxyTunnel \<Rightarrow> unit \<times> proxyTunnel" where
  "lifeStep OpStart t = ((), snd (StartBootstrap t))"
| "lifeStep (OpPublish addr) t = ((), publishListenAddr addr t)"
| "lifeStep (OpRestart dropCredentials) t = ((), snd (restartTransportLocked dropCredentials t))"
| "lifeStep (OpSwitch overTCP) t = ((), snd (SetRelayOverTCP overTCP t))"
| "lifeStep (OpReady g result) t = ((), generationReady g result t)"
| "lifeStep (OpDevice up) t = ((), snd (startDevice up t))"
| "lifeStep OpStop t = ((), snd (Stop t))"

definition liveGen :: "proxyTunnel \<Rightarrow> nat \<Rightarrow> bool" where
  "liveGen t g \<longleftrightarrow> g < length (generations t) \<and> \<not> genCancelled (generations t ! g)"

definition newestRuns :: "proxyTunnel \<Rightarrow> bool" where
  "newestRuns t \<longleftrightarrow> (boot t = (if generations t = [] then None else Some (length (generations t) - 1))) \<and>
    (\<forall>g. liveGen t g \<longleftrightarrow> boot t = Some g \<and> \<not> lifeStopped t)"

lemma startGeneration_runs:
  "\<lbrakk>boot t = (if generations t = [] then None else Some (length (generations t) - 1)); \<forall>g. \<not> liveGen t g; \<not> lifeStopped t\<rbrakk> \<Longrightarrow>
    newestRuns (snd (startGeneration keepDNS t)) \<and> \<not> lifeStopped (snd (startGeneration keepDNS t))"
  by (auto simp: startGeneration_def newestRuns_def liveGen_def Let_def nth_append less_Suc_eq)

lemma cancelBoot_none:
  assumes "\<forall>g. liveGen t g \<longrightarrow> boot t = Some g" "cancelBoot t = (c, t')"
  shows "(\<forall>g. \<not> liveGen t' g) \<and> boot t' = boot t \<and> length (generations t') = length (generations t) \<and> lifeStopped t' = lifeStopped t"
proof (cases "boot t")
  case None
  then show ?thesis using assms by (auto simp: cancelBoot_def)
next
  case (Some g)
  then have t': "t' = cancelGeneration g t" using assms(2) by (simp add: cancelBoot_def)
  have "\<not> liveGen t' h" for h
    using assms(1) Some unfolding t' by (cases "h = g") (auto simp: cancelGeneration_def liveGen_def)
  then show ?thesis unfolding t' by (simp add: cancelGeneration_def)
qed

lemma restart_runs: "newestRuns t \<Longrightarrow> newestRuns (snd (restartTransportLocked drop' t))"
proof -
  assume n: "newestRuns t"
  obtain c t1 where t1: "cancelBoot t = (c, t1)" by (cases "cancelBoot t")
  have k: "\<forall>g. \<not> liveGen t1 g" "boot t1 = (if generations t1 = [] then None else Some (length (generations t1) - 1))" "lifeStopped t1 = lifeStopped t"
    using cancelBoot_none [OF _ t1] n by (auto simp: newestRuns_def)
  show ?thesis
  proof (cases "lifeStopped t")
    case True
    then show ?thesis using n by (simp add: restartTransportLocked_def)
  next
    case False
    then show ?thesis using startGeneration_runs [OF k(2,1), of True] k(3) t1
      by (auto simp: restartTransportLocked_def split: prod.splits)
  qed
qed

lemma lifeStep_runs:
  assumes "newestRuns t" "q = OpStart \<Longrightarrow> generations t = []"
  shows "newestRuns (snd (lifeStep q t))"
proof (cases q)
  case OpStart
  then have "boot t = None" "\<forall>g. \<not> liveGen t g" using assms by (auto simp: newestRuns_def liveGen_def)
  then show ?thesis using OpStart assms startGeneration_runs [of t False]
    by (auto simp: StartBootstrap_def Let_def split: prod.splits)
next
  case (OpPublish addr)
  then show ?thesis using assms(1) by (simp add: publishListenAddr_def newestRuns_def liveGen_def)
next
  case (OpRestart d)
  then show ?thesis using restart_runs [OF assms(1)] by simp
next
  case (OpSwitch overTCP)
  have "newestRuns (t\<lparr>lifeCfg := (lifeCfg t)\<lparr>UseUDP := \<not> overTCP\<rparr>\<rparr>)" using assms(1) by (simp add: newestRuns_def liveGen_def)
  from restart_runs [OF this, of False] show ?thesis using OpSwitch assms(1)
    by (auto simp: SetRelayOverTCP_def split: prod.splits)
next
  case (OpReady g result)
  have "liveGen (generationReady g result t) h \<longleftrightarrow> liveGen t h" for h
    by (cases "h = g") (auto simp: generationReady_def liveGen_def)
  moreover have "boot (generationReady g result t) = boot t" "length (generations (generationReady g result t)) = length (generations t)"
    "lifeStopped (generationReady g result t) = lifeStopped t"
    by (simp_all add: generationReady_def)
  moreover have "generations (generationReady g result t) = [] \<longleftrightarrow> generations t = []" by (simp add: generationReady_def)
  ultimately show ?thesis using assms(1) OpReady by (simp add: newestRuns_def)
next
  case (OpDevice up)
  then show ?thesis using assms(1) by (simp add: startDevice_def newestRuns_def liveGen_def)
next
  case OpStop
  obtain c t1 where t1: "cancelBoot (t\<lparr>lifeStopped := True, lifeDevice := None\<rparr>) = (c, t1)"
    by (cases "cancelBoot (t\<lparr>lifeStopped := True, lifeDevice := None\<rparr>)")
  have "\<forall>g. liveGen (t\<lparr>lifeStopped := True, lifeDevice := None\<rparr>) g \<longrightarrow> boot (t\<lparr>lifeStopped := True, lifeDevice := None\<rparr>) = Some g"
    using assms(1) by (simp add: newestRuns_def liveGen_def)
  from cancelBoot_none [OF this t1] have k: "\<forall>g. \<not> liveGen t1 g" "boot t1 = boot t" "length (generations t1) = length (generations t)" "lifeStopped t1"
    by simp_all
  have "boot t1 = (if generations t1 = [] then None else Some (length (generations t1) - 1))"
    using k(2,3) assms(1) by (auto simp: newestRuns_def)
  then have "newestRuns t1" using k(1,4) by (simp add: newestRuns_def)
  moreover have "snd (Stop t) = (if lifeStopped t then t else t1)" using t1 by (simp add: Stop_def Let_def)
  ultimately show ?thesis using OpStop assms(1) by simp
qed

text \<open>Nothing but a start or a restart adds a generation, and a stop is for good.\<close>

definition ranWell :: "(lifeOp \<times> unit) list \<Rightarrow> proxyTunnel \<Rightarrow> bool" where
  "ranWell tr t \<longleftrightarrow> ((\<forall>us vs. map fst tr = us @ OpStart # vs \<longrightarrow> us = []) \<longrightarrow> newestRuns t \<and> (tr = [] \<longrightarrow> generations t = [])) \<and>
    (OpStop \<in> fst ` set tr \<longrightarrow> lifeStopped t)"

lemma lifeStep_stopped: "lifeStopped t \<Longrightarrow> lifeStopped (snd (lifeStep q t))"
  by (cases q) (auto simp: StartBootstrap_def Let_def publishListenAddr_def restartTransportLocked_def SetRelayOverTCP_def
      generationReady_def startDevice_def Stop_def)

lemma Stop_stops: "lifeStopped (snd (Stop t))"
  by (auto simp: Stop_def Let_def cancelBoot_def cancelGeneration_def split: option.splits prod.splits)

lemma ranWell_step:
  assumes "ranWell tr t" "lifeStep q t = (u, t')"
  shows "ranWell (tr @ [(q, u)]) t'"
proof -
  have t': "t' = snd (lifeStep q t)" using assms(2) by simp
  have "newestRuns t'" if f: "\<forall>us vs. map fst (tr @ [(q, u)]) = us @ OpStart # vs \<longrightarrow> us = []"
  proof -
    have "\<forall>us vs. map fst tr = us @ OpStart # vs \<longrightarrow> us = []"
    proof (intro allI impI)
      fix us vs assume "map fst tr = us @ OpStart # vs"
      then have "map fst (tr @ [(q, u)]) = us @ OpStart # (vs @ [q])" by simp
      then show "us = []" using f by blast
    qed
    then have n: "newestRuns t" "tr = [] \<longrightarrow> generations t = []" using assms(1) unfolding ranWell_def by blast+
    have "generations t = []" if "q = OpStart"
    proof -
      have "map fst (tr @ [(q, u)]) = map fst tr @ OpStart # []" using that by simp
      then have "map fst tr = []" using f by blast
      then show ?thesis using n(2) by simp
    qed
    then show ?thesis unfolding t' using lifeStep_runs [OF n(1)] by blast
  qed
  moreover have "lifeStopped t'" if "OpStop \<in> fst ` set (tr @ [(q, u)])"
    using that assms(1) lifeStep_stopped [of t q] Stop_stops [of t] unfolding t' by (auto simp: ranWell_def)
  ultimately show ?thesis by (simp add: ranWell_def)
qed

interpretation lived: traced lifeStep ranWell "\<lambda>q. True"
  by unfold_locales (rule ranWell_step)

text \<open>
  C22. However restarts, switches of the transport, generations getting ready and the stop follow the start of a proxy, at most one generation is
  not cancelled, the one started last, and once the tunnel has been stopped none is, whatever is asked of it after.
\<close>

theorem one_generation_at_a_time:
  assumes "traceRun lifeStep (OpStart # ops) (newProxyTunnel cfg) = (tr, t)" "OpStart \<notin> set ops"
  shows "(\<forall>g < length (generations t). \<not> genCancelled (generations t ! g) \<longrightarrow> g = length (generations t) - 1 \<and> boot t = Some g) \<and>
    (OpStop \<in> set ops \<longrightarrow> (\<forall>g \<in> set (generations t). genCancelled g)) \<and>
    (OpStop \<notin> set ops \<longrightarrow> generations t \<noteq> [] \<and> \<not> genCancelled (last (generations t)))"
proof -
  have "ranWell tr t" by (rule lived.run_establishes [OF assms(1)]) (simp_all add: ranWell_def newProxyTunnel_def newestRuns_def liveGen_def)
  moreover have m: "map fst tr = OpStart # ops" using traceRun_calls [OF assms(1)] .
  moreover have "\<forall>us vs. map fst tr = us @ OpStart # vs \<longrightarrow> us = []"
    unfolding m using assms(2) by (auto simp: Cons_eq_append_conv)
  ultimately have n: "newestRuns t" and st: "OpStop \<in> fst ` set tr \<longrightarrow> lifeStopped t" unfolding ranWell_def by blast+
  have stop: "OpStop \<in> set ops \<longrightarrow> lifeStopped t" using st m by (metis list.set_map set_ConsD insert_iff list.simps(15))
  have run: "generations t \<noteq> [] \<and> \<not> lifeStopped t" if "OpStop \<notin> set ops"
  proof -
    have keep: "generations t' \<noteq> [] \<and> \<not> lifeStopped t'" if "lifeStep q s = (u, t')" "generations s \<noteq> []" "\<not> lifeStopped s" "q \<noteq> OpStop" for q s u t'
      using that by (cases q) (auto simp: StartBootstrap_def startGeneration_def Let_def publishListenAddr_def restartTransportLocked_def
          SetRelayOverTCP_def generationReady_def startDevice_def cancelBoot_def cancelGeneration_def split: option.splits if_splits prod.splits)
    have "generations s' \<noteq> [] \<and> \<not> lifeStopped s'"
      if "traceRun lifeStep qs s = (us, s')" "generations s \<noteq> []" "\<not> lifeStopped s" "OpStop \<notin> set qs" for qs s us s'
      using that
    proof (induction qs arbitrary: s us)
      case (Cons q qs)
      obtain u s1 us1 where "lifeStep q s = (u, s1)" "traceRun lifeStep qs s1 = (us1, s')" using Cons.prems(1) by (rule traceRun_Cons)
      then show ?case using keep [of q s u s1] Cons.IH [of s1 us1] Cons.prems by auto
    qed simp
    moreover obtain s1 us1 where "traceRun lifeStep ops s1 = (us1, t)" "s1 = snd (StartBootstrap (newProxyTunnel cfg))"
      using assms(1) by (rule traceRun_Cons) auto
    moreover have "generations (snd (StartBootstrap (newProxyTunnel cfg))) \<noteq> [] \<and> \<not> lifeStopped (snd (StartBootstrap (newProxyTunnel cfg)))"
      by (simp add: StartBootstrap_def newProxyTunnel_def startGeneration_def Let_def)
    ultimately show ?thesis using that by blast
  qed
  have b: "boot t = (if generations t = [] then None else Some (length (generations t) - 1))" and l: "\<forall>g. liveGen t g \<longleftrightarrow> boot t = Some g \<and> \<not> lifeStopped t"
    using n by (auto simp: newestRuns_def)
  have "\<forall>g < length (generations t). \<not> genCancelled (generations t ! g) \<longrightarrow> g = length (generations t) - 1 \<and> boot t = Some g"
  proof (intro allI impI)
    fix g assume g: "g < length (generations t)" "\<not> genCancelled (generations t ! g)"
    then have "liveGen t g" by (simp add: liveGen_def)
    then have "boot t = Some g" using l by blast
    moreover have "generations t \<noteq> []" using g(1) by auto
    ultimately show "g = length (generations t) - 1 \<and> boot t = Some g" using b by simp
  qed
  moreover have "genCancelled g" if "OpStop \<in> set ops" "g \<in> set (generations t)" for g
    using that l stop by (metis in_set_conv_nth liveGen_def)
  moreover have "\<not> genCancelled (last (generations t))" if "OpStop \<notin> set ops"
  proof -
    have "boot t = Some (length (generations t) - 1)" using run [OF that] b by simp
    then have "liveGen t (length (generations t) - 1)" using l run [OF that] by blast
    then show ?thesis using run [OF that] by (simp add: liveGen_def last_conv_nth)
  qed
  ultimately show ?thesis using run by blast
qed

lemma one_generation_at_a_time_witness:
  "let ops = [OpReady 0 0, OpPublish ''127.0.0.1:5000'', OpRestart True, OpSwitch True, OpReady 1 0, OpStop, OpRestart False];
     t = snd (traceRun lifeStep (OpStart # ops) (newProxyTunnel zeroTurnConfig))
   in length (generations t) = 2 \<and> (\<forall>g \<in> set (generations t). genCancelled g)"
proof -
  let ?ops = "[OpReady 0 0, OpPublish ''127.0.0.1:5000'', OpRestart True, OpSwitch True, OpReady 1 0, OpStop, OpRestart False]"
  have v: "length (generations (snd (traceRun lifeStep (OpStart # ?ops) (newProxyTunnel zeroTurnConfig)))) = 2" by code_simp
  obtain tr t where r: "traceRun lifeStep (OpStart # ?ops) (newProxyTunnel zeroTurnConfig) = (tr, t)"
    by (cases "traceRun lifeStep (OpStart # ?ops) (newProxyTunnel zeroTurnConfig)")
  have "OpStart \<notin> set ?ops" "OpStop \<in> set ?ops" by simp_all
  then have "\<forall>g \<in> set (generations t). genCancelled g" using one_generation_at_a_time [OF r] by blast
  then show ?thesis using v unfolding Let_def r snd_conv by (intro conjI)
qed

end
