(* ===== verification/Pacing.thy ===== *)
theory Pacing
  imports DarkPath GoText Traces
begin

text \<open>
  The connects to a relay spaced in time (\<open>relay_connect_pacing.go\<close>), the relays a configuration names besides the service's
  (\<open>relay_extra.go\<close>), and the streams of the proxy that is running (\<open>stream_census.go\<close>). The wait of a connect is modelled by its looks;
  the end of its context, the clock and the random share of the gap are arguments. The parser of IP addresses is a parameter.
\<close>

section \<open>The spacing of connects\<close>

record connectPacing =
  connectNext :: "(string \<times> gtime) list"   \<comment> \<open>when the next connect to a relay may leave\<close>
  connectWaiting :: "(string \<times> int) list"

definition newConnectPacing :: connectPacing where
  "newConnectPacing = \<lparr>connectNext = [], connectWaiting = []\<rparr>"

definition connectDue :: "connectPacing \<Rightarrow> string \<Rightarrow> gtime" where
  "connectDue p addr = (case map_of (connectNext p) addr of Some t \<Rightarrow> t | None \<Rightarrow> zero_time)"

definition relayConnectGap :: "int \<Rightarrow> duration" where
  "relayConnectGap rnd = workerStagger + rnd * millisecond"

definition resetRelayConnectPacing :: "connectPacing \<Rightarrow> connectPacing" where
  "resetRelayConnectPacing p = p\<lparr>connectNext := []\<rparr>"

text \<open>What the deferred function of a caller does when it leaves; and one look of its loop.\<close>

definition stopWaitingToConnect :: "string \<Rightarrow> bool \<Rightarrow> connectPacing \<Rightarrow> connectPacing" where
  "stopWaitingToConnect addr held p =
    (if held then p\<lparr>connectWaiting := mput addr (mcount (connectWaiting p) addr - 1) (connectWaiting p)\<rparr> else p)"

datatype connectLook = ConnectNow | ConnectNever | ConnectLater gtime

definition awaitRelayConnectSlot ::
  "bool \<Rightarrow> gtime \<Rightarrow> duration \<Rightarrow> string \<Rightarrow> bool \<Rightarrow> connectPacing \<Rightarrow> connectLook \<times> connectPacing" where
  "awaitRelayConnectSlot ctxEnded now gap addr held p =
    (if ctxEnded then (ConnectNever, stopWaitingToConnect addr held p)
     else let at = connectDue p addr
          in if \<not> now < at then
               (ConnectNow, stopWaitingToConnect addr held (p\<lparr>connectNext := mput addr (now + gap) (connectNext p)\<rparr>))
             else if held then (ConnectLater at, p)
             else (ConnectLater at, p\<lparr>connectWaiting := mput addr (mcount (connectWaiting p) addr + 1) (connectWaiting p)\<rparr>))"

text \<open>
  Callers of it: one that comes, a look of one that waits or has just come, one whose context ends while it sleeps, and the reset. The
  answer names the relay a connect left for, when, and the gap it drew.
\<close>

datatype callerPhase = CallerNew | CallerHeld | CallerLeft

record pacedDials =
  pacing :: connectPacing
  pacedCallers :: "(string \<times> callerPhase) list"

datatype pacingOp = CallerComes string | CallerLooks nat bool gtime int | CallerGivesUp nat | PacingReset

definition pacingStep :: "pacingOp \<Rightarrow> pacedDials \<Rightarrow> (string \<times> gtime \<times> duration) option \<times> pacedDials" where
  "pacingStep q w = (case q of
     CallerComes addr \<Rightarrow> (None, w\<lparr>pacedCallers := pacedCallers w @ [(addr, CallerNew)]\<rparr>)
   | CallerLooks i ctxEnded now rnd \<Rightarrow>
       if i < length (pacedCallers w) \<and> snd (pacedCallers w ! i) \<noteq> CallerLeft then
         (let addr = fst (pacedCallers w ! i); gap = relayConnectGap rnd in
          case awaitRelayConnectSlot ctxEnded now gap addr (snd (pacedCallers w ! i) = CallerHeld) (pacing w) of
            (ConnectLater at, p) \<Rightarrow> (None, w\<lparr>pacing := p, pacedCallers := (pacedCallers w)[i := (addr, CallerHeld)]\<rparr>)
          | (ConnectNever, p) \<Rightarrow> (None, w\<lparr>pacing := p, pacedCallers := (pacedCallers w)[i := (addr, CallerLeft)]\<rparr>)
          | (ConnectNow, p) \<Rightarrow>
              (Some (addr, now, gap), w\<lparr>pacing := p, pacedCallers := (pacedCallers w)[i := (addr, CallerLeft)]\<rparr>))
       else (None, w)
   | CallerGivesUp i \<Rightarrow>
       if i < length (pacedCallers w) \<and> snd (pacedCallers w ! i) = CallerHeld then
         (let addr = fst (pacedCallers w ! i) in
          (None, w\<lparr>pacing := stopWaitingToConnect addr True (pacing w), pacedCallers := (pacedCallers w)[i := (addr, CallerLeft)]\<rparr>))
       else (None, w)
   | PacingReset \<Rightarrow> (None, w\<lparr>pacing := resetRelayConnectPacing (pacing w)\<rparr>))"

section \<open>Relays of the configuration\<close>

text \<open>\<open>net.SplitHostPort\<close> and \<open>net.JoinHostPort\<close>.\<close>

definition splitHostPort :: "string \<Rightarrow> (string \<times> string) option" where
  "splitHostPort s =
    (if CHR '':'' \<notin> set s then None
     else
       let before = beforeLast (CHR '':'') s; port = afterLast [CHR '':''] s
       in if hd s = CHR ''['' then
            (let e = length (takeWhile (\<lambda>c. c \<noteq> CHR '']'') s)
             in if e = length s \<or> e + 1 \<noteq> length before then None
                else if CHR ''['' \<in> set (tl s) \<or> CHR '']'' \<in> set (drop (e + 1) s) then None
                else Some (tl (take e s), port))
          else if CHR '':'' \<in> set before \<or> CHR ''['' \<in> set s \<or> CHR '']'' \<in> set s then None
          else Some (before, port))"

definition hostPort :: "string \<Rightarrow> string \<Rightarrow> string" where
  "hostPort host port = (if CHR '':'' \<in> set host then ''['' @ host @ '']:'' @ port else host @ '':'' @ port)"

text \<open>One entry: a relay with a port of its own, a bare one, or none; the parser answers the form it prints.\<close>

definition extraRelay :: "(string \<Rightarrow> string option) \<Rightarrow> string \<Rightarrow> string option" where
  "extraRelay parseIP f = (case splitHostPort f of
     Some (host, port) \<Rightarrow> (case atoi port of
         Some p \<Rightarrow> if 1 \<le> p \<and> p \<le> 65535 \<and> parseIP host \<noteq> None then Some (hostPort host port) else None
       | None \<Rightarrow> None)
   | None \<Rightarrow> parseIP f)"

definition parseExtraRelays :: "(string \<Rightarrow> string option) \<Rightarrow> string \<Rightarrow> string list \<times> string list" where
  "parseExtraRelays parseIP s =
    (let fields = fieldsOf [CHR '','', CHR '';'', CHR '' '', CHR 0x09, CHR 0x0A] s
     in (List.map_filter (extraRelay parseIP) fields, filter (\<lambda>f. extraRelay parseIP f = None) fields))"

definition onPort :: "string \<Rightarrow> string \<Rightarrow> string" where
  "onPort port r = (if splitHostPort r = None then hostPort r port else r)"

fun addExtras :: "string \<Rightarrow> string list \<Rightarrow> string list \<Rightarrow> string list" where
  "addExtras port [] out = out"
| "addExtras port (r # rs) out =
    (let r = onPort port r in addExtras port rs (if r \<in> set out then out else out @ [r]))"

definition withExtraRelays :: "string list \<Rightarrow> string list \<Rightarrow> string \<Rightarrow> string list" where
  "withExtraRelays addrs extras turnIP =
    (if extras = [] \<or> turnIP \<noteq> [] \<or> addrs = [] then addrs
     else addExtras (case splitHostPort (hd addrs) of Some (_, port) \<Rightarrow> port | None \<Rightarrow> []) extras addrs)"

section \<open>The streams of the running proxy\<close>

text \<open>A published set is known by its number, as the code knows it by its address.\<close>

record census =
  setsPublished :: "nat list list"
  activeStreams :: "nat option"
  activeOverTCP :: bool
  censusHeard :: relayHeard

definition claimTransport :: "bool \<Rightarrow> census \<Rightarrow> census" where
  "claimTransport overTCP c =
    (let c' = c\<lparr>activeOverTCP := overTCP\<rparr>
     in if activeOverTCP c \<noteq> overTCP then c'\<lparr>censusHeard := resetRelayHeardClocks (censusHeard c)\<rparr> else c')"

definition publishStreams :: "nat list \<Rightarrow> census \<Rightarrow> nat \<times> census" where
  "publishStreams streams c =
    (length (setsPublished c),
     c\<lparr>setsPublished := setsPublished c @ [streams], activeStreams := Some (length (setsPublished c))\<rparr>)"

definition withdrawStreams :: "nat \<Rightarrow> census \<Rightarrow> census" where
  "withdrawStreams n c = (if activeStreams c = Some n then c\<lparr>activeStreams := None\<rparr> else c)"

definition activeStreamSet :: "census \<Rightarrow> nat list" where
  "activeStreamSet c = (case activeStreams c of Some n \<Rightarrow> setsPublished c ! n | None \<Rightarrow> [])"

definition readyStreamCount :: "(nat \<Rightarrow> bool) \<Rightarrow> census \<Rightarrow> int" where
  "readyStreamCount ready c = (case activeStreams c of
     None \<Rightarrow> - 1 | Some n \<Rightarrow> int (length (filter ready (setsPublished c ! n))))"

text \<open>The claim of a proxy on the state of the one running, under its lock: none once its context has ended.\<close>

definition claimRunning :: "bool \<Rightarrow> bool \<Rightarrow> nat list \<Rightarrow> census \<Rightarrow> nat option \<times> census" where
  "claimRunning ctxEnded overTCP streams c =
    (if ctxEnded then (None, c)
     else (case publishStreams streams (claimTransport overTCP c) of (n, c) \<Rightarrow> (Some n, c)))"

text \<open>
  Proxies in turn: a start comes after the cancel of the one before it; a proxy claims once, when its prefetch lets it, and withdraws its
  set when its groups have drained; a relay may be heard at any time.
\<close>

record proxyRun =
  runCancelled :: bool
  runStreams :: "nat list"
  runOverTCP :: bool
  runSet :: "nat option"
  runDrained :: bool

record proxyRuns =
  census :: census
  runs :: "proxyRun list"

datatype runOp = RunStarts bool "nat list" | RunCancelled nat | RunClaims nat | RunDrains nat | RunHears int

definition runStep :: "runOp \<Rightarrow> proxyRuns \<Rightarrow> unit \<times> proxyRuns" where
  "runStep q w = ((), (case q of
     RunStarts overTCP streams \<Rightarrow>
       w\<lparr>runs := map (runCancelled_update (\<lambda>_. True)) (runs w) @
         [\<lparr>runCancelled = False, runStreams = streams, runOverTCP = overTCP, runSet = None, runDrained = False\<rparr>]\<rparr>
   | RunCancelled i \<Rightarrow>
       if i < length (runs w) then w\<lparr>runs := (runs w)[i := (runs w ! i)\<lparr>runCancelled := True\<rparr>]\<rparr> else w
   | RunClaims i \<Rightarrow>
       if i < length (runs w) \<and> runSet (runs w ! i) = None \<and> \<not> runDrained (runs w ! i) then
         (case claimRunning (runCancelled (runs w ! i)) (runOverTCP (runs w ! i)) (runStreams (runs w ! i)) (census w) of
            (None, c) \<Rightarrow> w\<lparr>census := c, runs := (runs w)[i := (runs w ! i)\<lparr>runDrained := True\<rparr>]\<rparr>
          | (Some n, c) \<Rightarrow> w\<lparr>census := c, runs := (runs w)[i := (runs w ! i)\<lparr>runSet := Some n\<rparr>]\<rparr>)
       else w
   | RunDrains i \<Rightarrow>
       if i < length (runs w) \<and> \<not> runDrained (runs w ! i) then
         (case runSet (runs w ! i) of
            None \<Rightarrow> w
          | Some n \<Rightarrow> w\<lparr>census := withdrawStreams n (census w), runs := (runs w)[i := (runs w ! i)\<lparr>runDrained := True\<rparr>]\<rparr>)
       else w
   | RunHears now \<Rightarrow> w\<lparr>census := (census w)\<lparr>censusHeard := noteRelayHeard now (censusHeard (census w))\<rparr>\<rparr>))"

section \<open>What is promised\<close>

text \<open>
  What the spacing of connects, the relays of the configuration and the claim on the running streams keep.
\<close>

section \<open>The spacing of connects\<close>

text \<open>When the next connect to a relay is due, told from what left since the last reset; and who waits for it.\<close>

definition dueFrom :: "(pacingOp \<times> (string \<times> gtime \<times> duration) option) list \<Rightarrow> string \<Rightarrow> gtime" where
  "dueFrom tr addr = fold (\<lambda>(q, left) due. if q = PacingReset then zero_time
     else case left of Some (a, now, gap) \<Rightarrow> if a = addr then now + gap else due | None \<Rightarrow> due) tr zero_time"

lemma dueFrom_snoc [simp]:
  "dueFrom (tr @ [(q, left)]) addr = (if q = PacingReset then zero_time
     else case left of Some (a, now, gap) \<Rightarrow> if a = addr then now + gap else dueFrom tr addr | None \<Rightarrow> dueFrom tr addr)"
  by (auto simp: dueFrom_def split: option.splits)

lemma dueFrom_Nil [simp]: "dueFrom [] addr = zero_time"
  by (simp add: dueFrom_def)

definition heldFor :: "string \<Rightarrow> pacedDials \<Rightarrow> int" where
  "heldFor addr w = int (length (filter (\<lambda>c. c = (addr, CallerHeld)) (pacedCallers w)))"

definition newPacedDials :: pacedDials where
  "newPacedDials = \<lparr>pacing = newConnectPacing, pacedCallers = []\<rparr>"

definition pacingHolds :: "(pacingOp \<times> (string \<times> gtime \<times> duration) option) list \<Rightarrow> pacedDials \<Rightarrow> bool" where
  "pacingHolds tr w \<longleftrightarrow> (\<forall>addr. connectDue (pacing w) addr = dueFrom tr addr)
     \<and> (\<forall>addr. mcount (connectWaiting (pacing w)) addr = heldFor addr w)
     \<and> (\<forall>c \<in> set tr. \<forall>addr now gap. snd c = Some (addr, now, gap) \<longrightarrow> workerStagger \<le> gap)"

definition drawnGap :: "pacingOp \<Rightarrow> bool" where
  "drawnGap q = (case q of CallerLooks _ _ _ rnd \<Rightarrow> 0 \<le> rnd \<and> rnd < 200 | _ \<Rightarrow> True)"

lemma count_update:
  "i < length xs \<Longrightarrow> int (length (filter P (xs[i := y]))) =
     int (length (filter P xs)) - (if P (xs ! i) then 1 else 0) + (if P y then 1 else 0)"
proof (induction xs arbitrary: i)
  case (Cons x xs)
  show ?case
  proof (cases i)
    case (Suc k)
    then show ?thesis using Cons.IH [of k] Cons.prems by (simp split: if_splits)
  qed simp
qed simp

lemma heldFor_update:
  "i < length (pacedCallers w) \<Longrightarrow> heldFor addr (w\<lparr>pacing := p, pacedCallers := (pacedCallers w)[i := c]\<rparr>) =
     heldFor addr w - (if pacedCallers w ! i = (addr, CallerHeld) then 1 else 0) + (if c = (addr, CallerHeld) then 1 else 0)"
  by (simp add: heldFor_def count_update)

lemma heldFor_same:
  "\<lbrakk>i < length (pacedCallers w); pacedCallers w ! i = c\<rbrakk> \<Longrightarrow>
     heldFor addr (w\<lparr>pacedCallers := (pacedCallers w)[i := c]\<rparr>) = heldFor addr w"
  by (simp add: heldFor_def count_update)

lemma heldFor_pacing [simp]: "heldFor addr (w\<lparr>pacing := p\<rparr>) = heldFor addr w"
  by (simp add: heldFor_def)

lemma heldFor_comes [simp]: "heldFor addr (w\<lparr>pacedCallers := pacedCallers w @ [(a, CallerNew)]\<rparr>) = heldFor addr w"
  by (simp add: heldFor_def)

lemma connectDue_put [simp]:
  "connectDue (p\<lparr>connectNext := mput a t (connectNext p)\<rparr>) addr = (if addr = a then t else connectDue p addr)"
  by (simp add: connectDue_def)

lemma connectDue_waiting [simp]: "connectDue (p\<lparr>connectWaiting := m\<rparr>) addr = connectDue p addr"
  by (simp add: connectDue_def)

lemma connectDue_stop [simp]: "connectDue (stopWaitingToConnect a held p) addr = connectDue p addr"
  by (simp add: stopWaitingToConnect_def)

lemma waiting_stop [simp]:
  "mcount (connectWaiting (stopWaitingToConnect a held p)) addr =
     mcount (connectWaiting p) addr - (if held \<and> addr = a then 1 else 0)"
  by (simp add: stopWaitingToConnect_def)

lemma gap_at_least: "0 \<le> rnd \<Longrightarrow> workerStagger \<le> relayConnectGap rnd"
  by (simp add: relayConnectGap_def go_consts)

lemma look_keeps:
  assumes h: "pacingHolds tr w" and d: "drawnGap (CallerLooks i ended now rnd)"
    and st: "pacingStep (CallerLooks i ended now rnd) w = (left, w')"
  shows "pacingHolds (tr @ [(CallerLooks i ended now rnd, left)]) w'"
proof (cases "i < length (pacedCallers w) \<and> snd (pacedCallers w ! i) \<noteq> CallerLeft")
  case True
  obtain a ph where c: "pacedCallers w ! i = (a, ph)" by fastforce
  have g: "workerStagger \<le> relayConnectGap rnd" using d gap_at_least by (simp add: drawnGap_def)
  show ?thesis
    using h st True c g unfolding pacingHolds_def
    by (cases ph) (auto simp: pacingStep_def awaitRelayConnectSlot_def Let_def heldFor_update heldFor_same split: if_splits)
next
  case False
  then show ?thesis using h st by (auto simp: pacingHolds_def pacingStep_def)
qed

lemma pacingStep_keeps:
  assumes "pacingHolds tr w" "drawnGap q" "pacingStep q w = (left, w')"
  shows "pacingHolds (tr @ [(q, left)]) w'"
proof (cases q)
  case (CallerLooks i ended now rnd)
  then show ?thesis using look_keeps assms by simp
next
  case (CallerComes a)
  then show ?thesis using assms by (auto simp: pacingHolds_def pacingStep_def)
next
  case (CallerGivesUp i)
  show ?thesis
  proof (cases "i < length (pacedCallers w) \<and> snd (pacedCallers w ! i) = CallerHeld")
    case True
    then show ?thesis using assms CallerGivesUp
      by (cases "pacedCallers w ! i") (auto simp: pacingHolds_def pacingStep_def Let_def heldFor_update)
  next
    case False
    then show ?thesis using assms CallerGivesUp by (auto simp: pacingHolds_def pacingStep_def)
  qed
next
  case PacingReset
  then show ?thesis using assms
    by (auto simp: pacingHolds_def pacingStep_def resetRelayConnectPacing_def connectDue_def)
qed

text \<open>No two connects of a relay with no reset between them are closer than the stagger of the workers.\<close>

definition spacedBy :: "(pacingOp \<times> (string \<times> gtime \<times> duration) option) list \<Rightarrow> bool" where
  "spacedBy tr \<longleftrightarrow> (\<forall>j k addr t g t' g'. j < k \<and> k < length tr \<and> snd (tr ! j) = Some (addr, t, g) \<and> snd (tr ! k) = Some (addr, t', g')
     \<and> (\<forall>i. j < i \<and> i < k \<longrightarrow> fst (tr ! i) \<noteq> PacingReset) \<longrightarrow> t + workerStagger \<le> t')"

lemma spacedByD:
  "\<lbrakk>spacedBy tr; j < k; k < length tr; snd (tr ! j) = Some (addr, t, g); snd (tr ! k) = Some (addr, t', g');
    \<And>i. j < i \<Longrightarrow> i < k \<Longrightarrow> fst (tr ! i) \<noteq> PacingReset\<rbrakk> \<Longrightarrow> t + workerStagger \<le> t'"
  unfolding spacedBy_def by blast

lemma spacedBy_front: "spacedBy (tr @ [x]) \<Longrightarrow> spacedBy tr"
  unfolding spacedBy_def [of tr]
proof (intro allI impI)
  fix j k addr t g t' g'
  assume s: "spacedBy (tr @ [x])"
    and a: "j < k \<and> k < length tr \<and> snd (tr ! j) = Some (addr, t, g) \<and> snd (tr ! k) = Some (addr, t', g')
      \<and> (\<forall>i. j < i \<and> i < k \<longrightarrow> fst (tr ! i) \<noteq> PacingReset)"
  show "t + workerStagger \<le> t'"
    by (rule spacedByD [OF s, of j k addr t g t' g']) (use a in \<open>simp_all add: nth_append\<close>)
qed

definition noneAtReset :: "(pacingOp \<times> (string \<times> gtime \<times> duration) option) list \<Rightarrow> bool" where
  "noneAtReset tr \<longleftrightarrow> (\<forall>c \<in> set tr. snd c \<noteq> None \<longrightarrow> fst c \<noteq> PacingReset)"

definition gapsDrawn :: "(pacingOp \<times> (string \<times> gtime \<times> duration) option) list \<Rightarrow> bool" where
  "gapsDrawn tr \<longleftrightarrow> (\<forall>c \<in> set tr. \<forall>addr now gap. snd c = Some (addr, now, gap) \<longrightarrow> workerStagger \<le> gap)"

lemma due_after_next:
  assumes "spacedBy (tr @ [(q, left)])" "workerStagger \<le> dueFrom tr addr - t" "q \<noteq> PacingReset"
    "j < length tr" "snd (tr ! j) = Some (addr, t, g)" "\<forall>i. j < i \<and> i < length tr \<longrightarrow> fst (tr ! i) \<noteq> PacingReset"
    "gapsDrawn [(q, left)]"
  shows "t + workerStagger \<le> dueFrom (tr @ [(q, left)]) addr"
proof (cases "\<exists>t' g'. left = Some (addr, t', g')")
  case True
  then obtain t' g' where l: "left = Some (addr, t', g')" by blast
  have "t + workerStagger \<le> t'"
    by (rule spacedByD [OF assms(1), of j "length tr" addr t g t' g']) (use assms l in \<open>simp_all add: nth_append\<close>)
  moreover have "workerStagger \<le> g'" using assms(7) l by (simp add: gapsDrawn_def)
  ultimately show ?thesis using assms(3) l by (simp add: go_consts)
next
  case False
  then have "dueFrom (tr @ [(q, left)]) addr = dueFrom tr addr" using assms(3) by (cases left) auto
  then show ?thesis using assms(2) by simp
qed

lemma due_after:
  assumes "spacedBy tr" "gapsDrawn tr" "noneAtReset tr"
    "j < length tr" "snd (tr ! j) = Some (addr, t, g)" "\<forall>i. j < i \<and> i < length tr \<longrightarrow> fst (tr ! i) \<noteq> PacingReset"
  shows "t + workerStagger \<le> dueFrom tr addr"
  using assms
proof (induction tr rule: rev_induct)
  case (snoc x tr)
  obtain q left where x: "x = (q, left)" by fastforce
  show ?case
  proof (cases "j = length tr")
    case True
    then have "left = Some (addr, t, g)" using snoc.prems(5) x by simp
    then show ?thesis using snoc.prems(2,3) x by (simp add: gapsDrawn_def noneAtReset_def)
  next
    case False
    then have j: "j < length tr" using snoc.prems(4) by simp
    have tj: "snd (tr ! j) = Some (addr, t, g)" using snoc.prems(5) j by (simp add: nth_append)
    have nr: "\<forall>i. j < i \<and> i < length tr \<longrightarrow> fst (tr ! i) \<noteq> PacingReset"
    proof (intro allI impI)
      fix i assume i: "j < i \<and> i < length tr"
      then show "fst (tr ! i) \<noteq> PacingReset" using snoc.prems(6) [rule_format, of i] by (simp add: nth_append)
    qed
    have q: "q \<noteq> PacingReset" using snoc.prems(6) [rule_format, of "length tr"] j x by simp
    have f: "spacedBy tr" by (rule spacedBy_front [OF snoc.prems(1)])
    have gs: "gapsDrawn tr" "gapsDrawn [(q, left)]" "noneAtReset tr" using snoc.prems(2,3) x by (simp_all add: gapsDrawn_def noneAtReset_def)
    have ih: "t + workerStagger \<le> dueFrom tr addr" by (rule snoc.IH [OF f gs(1) gs(3) j tj nr])
    show ?thesis unfolding x
      by (rule due_after_next [OF snoc.prems(1) [unfolded x] _ q j tj nr gs(2)]) (use ih in simp)
  qed
qed simp

lemma spacedBy_snoc:
  assumes "spacedBy tr" "gapsDrawn tr" "noneAtReset tr"
    "\<And>addr now gap. left = Some (addr, now, gap) \<Longrightarrow> dueFrom tr addr \<le> now"
  shows "spacedBy (tr @ [(q, left)])"
  unfolding spacedBy_def
proof (intro allI impI)
  fix j k addr t g t' g'
  assume a: "j < k \<and> k < length (tr @ [(q, left)]) \<and> snd ((tr @ [(q, left)]) ! j) = Some (addr, t, g)
    \<and> snd ((tr @ [(q, left)]) ! k) = Some (addr, t', g') \<and> (\<forall>i. j < i \<and> i < k \<longrightarrow> fst ((tr @ [(q, left)]) ! i) \<noteq> PacingReset)"
  then have j: "j < length tr" "snd (tr ! j) = Some (addr, t, g)" by (auto simp: nth_append split: if_splits)
  show "t + workerStagger \<le> t'"
  proof (cases "k = length tr")
    case True
    have "t + workerStagger \<le> dueFrom tr addr"
      by (rule due_after [OF assms(1,2,3) j]) (use a True in \<open>simp add: nth_append\<close>)
    then show ?thesis using assms(4) [of addr t' g'] a True by simp
  next
    case False
    then have k: "k < length tr" using a by simp
    show ?thesis by (rule spacedByD [OF assms(1) _ k j(2)]) (use a k in \<open>auto simp: nth_append split: if_splits\<close>)
  qed
qed

lemma left_when_due:
  assumes "pacingHolds tr w" "pacingStep q w = (left, w')" "left = Some (addr, now, gap)"
  shows "dueFrom tr addr \<le> now" "q \<noteq> PacingReset"
  using assms unfolding pacingHolds_def
  by (auto simp: pacingStep_def awaitRelayConnectSlot_def Let_def not_less split: pacingOp.splits if_splits)

definition pacedSoFar :: "(pacingOp \<times> (string \<times> gtime \<times> duration) option) list \<Rightarrow> pacedDials \<Rightarrow> bool" where
  "pacedSoFar tr w \<longleftrightarrow> pacingHolds tr w \<and> spacedBy tr \<and> noneAtReset tr"

lemma pacedSoFar_keeps:
  assumes "pacedSoFar tr w" "drawnGap q" "pacingStep q w = (left, w')"
  shows "pacedSoFar (tr @ [(q, left)]) w'"
proof -
  have h: "pacingHolds tr w" "spacedBy tr" "noneAtReset tr"
    using assms(1) by (auto simp: pacedSoFar_def)
  have g: "gapsDrawn tr" using h(1) unfolding pacingHolds_def gapsDrawn_def by blast
  have "spacedBy (tr @ [(q, left)])"
    by (rule spacedBy_snoc [OF h(2) g h(3)]) (rule left_when_due(1) [OF h(1) assms(3)])
  moreover have "noneAtReset (tr @ [(q, left)])"
    using h(3) left_when_due(2) [OF h(1) assms(3)] by (auto simp: noneAtReset_def)
  ultimately show ?thesis using pacingStep_keeps [OF h(1) assms(2,3)] by (simp add: pacedSoFar_def)
qed

interpretation connects: traced pacingStep pacedSoFar drawnGap
  by unfold_locales (rule pacedSoFar_keeps)

lemma newPacing_holds: "pacedSoFar [] newPacedDials"
  by (simp add: pacedSoFar_def noneAtReset_def spacedBy_def pacingHolds_def newPacedDials_def newConnectPacing_def connectDue_def heldFor_def)

lemma look_leaves_iff_due:
  assumes "pacingHolds tr w" "i < length (pacedCallers w)" "snd (pacedCallers w ! i) \<noteq> CallerLeft"
  shows "fst (pacingStep (CallerLooks i ended now rnd) w) \<noteq> None \<longleftrightarrow> \<not> ended \<and> dueFrom tr (fst (pacedCallers w ! i)) \<le> now"
  using assms unfolding pacingHolds_def by (auto simp: pacingStep_def awaitRelayConnectSlot_def Let_def)

text \<open>
  C26. However connects come, look at the clock, are cancelled and the spacing is reset: two connects to one relay with no reset between
  them leave at least half a second apart; a look lets its connect leave exactly when its context lives and the gap after the last
  one that left (since the reset) has passed, so that no cancelled one leaves a delay behind; and the count of those held is theirs.
\<close>

theorem connects_to_a_relay_are_spaced:
  assumes "traceRun pacingStep qs newPacedDials = (tr, w)" "\<forall>q \<in> set qs. drawnGap q"
  shows "(\<forall>j k addr t g t' g'. j < k \<and> k < length tr \<and> snd (tr ! j) = Some (addr, t, g) \<and> snd (tr ! k) = Some (addr, t', g')
        \<and> (\<forall>i. j < i \<and> i < k \<longrightarrow> fst (tr ! i) \<noteq> PacingReset) \<longrightarrow> t + workerStagger \<le> t')
    \<and> (\<forall>i ended now rnd. i < length (pacedCallers w) \<and> snd (pacedCallers w ! i) \<noteq> CallerLeft \<longrightarrow>
        (fst (pacingStep (CallerLooks i ended now rnd) w) \<noteq> None \<longleftrightarrow> \<not> ended \<and> dueFrom tr (fst (pacedCallers w ! i)) \<le> now))
    \<and> (\<forall>addr. mcount (connectWaiting (pacing w)) addr = heldFor addr w)"
proof -
  have "pacedSoFar tr w" using connects.run_establishes [OF assms(1) newPacing_holds assms(2)] .
  then have "pacingHolds tr w" "spacedBy tr" by (simp_all add: pacedSoFar_def)
  then show ?thesis using look_leaves_iff_due by (simp add: spacedBy_def pacingHolds_def)
qed

text \<open>Three connects to a relay at once: the first leaves, the second is held and given up, the third leaves when its turn is due.\<close>

definition threeConnects :: "pacingOp list" where
  "threeConnects = [CallerComes ''r'', CallerComes ''r'', CallerComes ''r'', CallerLooks 0 False 1000 7, CallerLooks 1 False 1000 3,
     CallerLooks 2 False 1001 3, CallerGivesUp 1, CallerLooks 2 False 507001000 0]"

lemma threeConnects_run:
  "map snd (fst (traceRun pacingStep threeConnects newPacedDials)) =
    [None, None, None, Some (''r'', 1000, 507000000), None, None, None, Some (''r'', 507001000, 500000000)]"
  by code_simp

lemma connects_to_a_relay_are_spaced_witness:
  "\<exists>tr w. traceRun pacingStep threeConnects newPacedDials = (tr, w) \<and> (\<forall>q \<in> set threeConnects. drawnGap q)
    \<and> map snd tr = [None, None, None, Some (''r'', 1000, 507000000), None, None, None, Some (''r'', 507001000, 500000000)]
    \<and> mcount (connectWaiting (pacing w)) ''r'' = heldFor ''r'' w"
proof -
  have r: "\<forall>q \<in> set threeConnects. drawnGap q" by (simp add: threeConnects_def drawnGap_def)
  obtain tr w where t: "traceRun pacingStep threeConnects newPacedDials = (tr, w)" by fastforce
  have c: "map snd tr = [None, None, None, Some (''r'', 1000, 507000000), None, None, None, Some (''r'', 507001000, 500000000)]"
    using t threeConnects_run by simp
  have "mcount (connectWaiting (pacing w)) ''r'' = heldFor ''r'' w"
    using connects_to_a_relay_are_spaced [OF t r] by (elim conjE allE)
  then show ?thesis using t r c by (intro exI conjI)
qed

section \<open>Relays of the configuration\<close>

text \<open>A host and a port joined are split again, whatever colons the host has.\<close>

lemma beforeLast_app [simp]: "c \<notin> set p \<Longrightarrow> beforeLast c (h @ c # p) = h"
  by (auto simp: beforeLast_def dropWhile_append)

lemma afterLast_app [simp]: "c \<notin> set p \<Longrightarrow> afterLast [c] (h @ c # p) = p"
  by (auto simp: afterLast_def takeWhile_append)

lemma split_joined:
  assumes "CHR ''['' \<notin> set h" "CHR '']'' \<notin> set h" "CHR '':'' \<notin> set p" "CHR ''['' \<notin> set p" "CHR '']'' \<notin> set p"
  shows "splitHostPort (hostPort h p) = Some (h, p)"
proof (cases "CHR '':'' \<in> set h")
  case True
  let ?s = "''['' @ h @ '']:'' @ p"
  have s: "?s = (''['' @ h @ '']'') @ CHR '':'' # p" by simp
  have b: "beforeLast (CHR '':'') ?s = ''['' @ h @ '']''" "afterLast [CHR '':''] ?s = p"
    unfolding s by (rule beforeLast_app [OF assms(3)], rule afterLast_app [OF assms(3)])
  have e: "takeWhile (\<lambda>c. c \<noteq> CHR '']'') ?s = CHR ''['' # h" using assms(2) by (auto simp: takeWhile_append)
  show ?thesis using True assms b e by (simp add: splitHostPort_def hostPort_def Let_def)
next
  case False
  have hd: "hd (h @ CHR '':'' # p) \<noteq> CHR ''[''" using assms(1) by (cases h) auto
  show ?thesis using False assms hd by (simp add: splitHostPort_def hostPort_def Let_def)
qed

text \<open>The port of what splits has neither a colon nor a bracket, nor has a number.\<close>

lemma afterLast_none: "c \<in> set cs \<Longrightarrow> c \<notin> set (afterLast cs s)"
  by (auto simp: afterLast_def dest: set_takeWhileD)

lemma afterLast_set: "set (afterLast cs s) \<subseteq> set s"
  by (auto simp: afterLast_def dest: set_takeWhileD)

lemma last_colon:
  assumes "CHR '':'' \<in> set s"
  obtains b where "s = b @ CHR '':'' # afterLast [CHR '':''] s" "beforeLast (CHR '':'') s = b"
proof -
  obtain b q where s: "s = b @ CHR '':'' # q" "CHR '':'' \<notin> set q" using split_list_last [OF assms] by blast
  then have "afterLast [CHR '':''] s = q" "beforeLast (CHR '':'') s = b" by simp_all
  then show thesis using that s(1) by simp
qed

lemma port_plain:
  assumes "splitHostPort s = Some (h, p)"
  shows "CHR '':'' \<notin> set p" "CHR ''['' \<notin> set p" "CHR '']'' \<notin> set p"
proof -
  have c: "CHR '':'' \<in> set s" and p: "p = afterLast [CHR '':''] s"
    using assms by (auto simp: splitHostPort_def Let_def split: if_splits)
  obtain b where s: "s = b @ CHR '':'' # p" "beforeLast (CHR '':'') s = b" using last_colon [OF c] p by blast
  show "CHR '':'' \<notin> set p" unfolding p by (rule afterLast_none) simp
  show "CHR ''['' \<notin> set p"
  proof (cases b)
    case Nil
    then show ?thesis using assms s by (auto simp: splitHostPort_def Let_def split: if_splits)
  next
    case (Cons x b')
    then show ?thesis using assms s by (auto simp: splitHostPort_def Let_def split: if_splits)
  qed
  show "CHR '']'' \<notin> set p"
  proof (cases "hd s = CHR ''[''")
    case True
    let ?e = "length (takeWhile (\<lambda>c. c \<noteq> CHR '']'') s)"
    have e: "?e + 1 = length b" "CHR '']'' \<notin> set (drop (?e + 1) s)"
      using assms True s(2) by (auto simp: splitHostPort_def Let_def split: if_splits)
    have "drop (length b) s = CHR '':'' # p" using s(1) by simp
    then show ?thesis using e by simp
  next
    case False
    then have "CHR '']'' \<notin> set s" using assms by (auto simp: splitHostPort_def Let_def split: if_splits)
    then show ?thesis using s(1) by simp
  qed
qed

text \<open>What the configured list keeps: each field is a relay or is told bad, and every relay added is an address with a port.\<close>

definition addressPort :: "(string \<Rightarrow> string option) \<Rightarrow> string \<Rightarrow> string \<Rightarrow> bool" where
  "addressPort parseIP r port \<longleftrightarrow> (\<exists>h. splitHostPort r = Some (h, port) \<and> parseIP h \<noteq> None)"

lemma atoi_plain:
  assumes "atoi p = Some n" "1 \<le> n"
  shows "CHR '':'' \<notin> set p" "CHR ''['' \<notin> set p" "CHR '']'' \<notin> set p"
proof -
  have "\<forall>c \<in> set p. isDigit c \<or> c = CHR ''-'' \<or> c = CHR ''+''"
    using assms by (cases p) (auto simp: atoi_def Let_def list_all_iff split: if_splits)
  then show "CHR '':'' \<notin> set p" "CHR ''['' \<notin> set p" "CHR '']'' \<notin> set p" by (auto simp: isDigit_def)
qed

text \<open>
  What is relied on of the parser: what it prints it reads back, no address has brackets, and none splits into a host and a port (it has
  no colon, or more than one).
\<close>

definition addressParser :: "(string \<Rightarrow> string option) \<Rightarrow> bool" where
  "addressParser parseIP \<longleftrightarrow>
    (\<forall>x y. parseIP x = Some y \<longrightarrow> parseIP y = Some y \<and> splitHostPort y = None \<and> CHR ''['' \<notin> set x \<and> CHR '']'' \<notin> set x)"

lemma own_port:
  assumes "addressParser parseIP" "extraRelay parseIP f = Some r" "splitHostPort f = Some (h, p)"
  shows "addressPort parseIP r p \<and> (\<exists>n. atoi p = Some n \<and> 1 \<le> n \<and> n \<le> 65535)"
proof -
  obtain n where n: "atoi p = Some n" "1 \<le> n" "n \<le> 65535" "parseIP h \<noteq> None" "r = hostPort h p"
    using assms by (auto simp: extraRelay_def split: option.splits if_splits)
  have "splitHostPort r = Some (h, p)"
    unfolding n(5) using assms(1) n(4) atoi_plain [OF n(1,2)] by (intro split_joined) (auto simp: addressParser_def)
  then show ?thesis using n by (auto simp: addressPort_def)
qed

lemma on_port:
  assumes a: "addressParser parseIP" and r: "extraRelay parseIP f = Some r" and p: "CHR '':'' \<notin> set port" "CHR ''['' \<notin> set port" "CHR '']'' \<notin> set port"
  shows "\<exists>q. addressPort parseIP (onPort port r) q \<and> (q = port \<or> (\<exists>n. atoi q = Some n \<and> 1 \<le> n \<and> n \<le> 65535))"
proof (cases "splitHostPort f")
  case None
  then have ip: "parseIP f = Some r" using r by (simp add: extraRelay_def)
  then have pr: "parseIP r = Some r" using a by (auto simp: addressParser_def)
  then have nb: "splitHostPort r = None" "CHR ''['' \<notin> set r" "CHR '']'' \<notin> set r" using a unfolding addressParser_def by blast+
  then have "onPort port r = hostPort r port" by (simp add: onPort_def)
  then show ?thesis using split_joined [OF nb(2,3) p] pr by (auto simp: addressPort_def)
next
  case (Some hp)
  obtain h q where hp: "hp = (h, q)" by fastforce
  have o: "addressPort parseIP r q" "\<exists>n. atoi q = Some n \<and> 1 \<le> n \<and> n \<le> 65535" using own_port [OF a r] Some hp by simp_all
  then have "onPort port r = r" by (auto simp: onPort_def addressPort_def)
  then show ?thesis using o by auto
qed

lemma addExtras_adds:
  "\<exists>added. addExtras port rs out = out @ added \<and> distinct added \<and> set added \<inter> set out = {}
     \<and> set out \<union> set added = set out \<union> onPort port ` set rs"
proof (induction rs arbitrary: out)
  case (Cons r rs)
  let ?r = "onPort port r"
  show ?case
  proof (cases "?r \<in> set out")
    case True
    then show ?thesis using Cons.IH [of out] by (auto simp: Let_def)
  next
    case False
    obtain added where a: "addExtras port rs (out @ [?r]) = (out @ [?r]) @ added" "distinct added" "set added \<inter> set (out @ [?r]) = {}"
      "set (out @ [?r]) \<union> set added = set (out @ [?r]) \<union> onPort port ` set rs"
      using Cons.IH [of "out @ [?r]"] by blast
    then show ?thesis using False by (intro exI [of _ "?r # added"]) auto
  qed
qed simp

lemma map_filter_counts: "length (List.map_filter f xs) + length (filter (\<lambda>x. f x = None) xs) = length xs"
  by (induction xs) (auto simp: List.map_filter_def)

text \<open>
  Every field of the configured list is a relay or is told bad. A pinned relay stays the only one; otherwise the relays join the end of the
  link's list, each once and none that is there already, and every one that joins is an IP address with a port, its own (from 1 to 65535) or
  that of the link's first relay.
\<close>

theorem extra_relays_join_the_list:
  assumes "addressParser parseIP" "parseExtraRelays parseIP s = (relays, bad)" "addrs \<noteq> []" "splitHostPort (hd addrs) = Some (h, port)"
  shows "length relays + length bad = length (fieldsOf [CHR '','', CHR '';'', CHR '' '', CHR 0x09, CHR 0x0A] s)
    \<and> (\<forall>pin. pin \<noteq> [] \<longrightarrow> withExtraRelays addrs relays pin = addrs)
    \<and> (\<exists>added. withExtraRelays addrs relays [] = addrs @ added \<and> distinct added \<and> set added \<inter> set addrs = {}
        \<and> set addrs \<union> set added = set addrs \<union> onPort port ` set relays
        \<and> (\<forall>r \<in> set added. \<exists>q. addressPort parseIP r q \<and> (q = port \<or> (\<exists>n. atoi q = Some n \<and> 1 \<le> n \<and> n \<le> 65535))))"
proof (intro conjI)
  let ?fs = "fieldsOf [CHR '','', CHR '';'', CHR '' '', CHR 0x09, CHR 0x0A] s"
  have rb: "relays = List.map_filter (extraRelay parseIP) ?fs" "bad = filter (\<lambda>f. extraRelay parseIP f = None) ?fs"
    using assms(2) by (simp_all add: parseExtraRelays_def Let_def)
  show "length relays + length bad = length ?fs" unfolding rb by (rule map_filter_counts)
  show "\<forall>pin. pin \<noteq> [] \<longrightarrow> withExtraRelays addrs relays pin = addrs" by (simp add: withExtraRelays_def)
  have w: "withExtraRelays addrs relays [] = addExtras port relays addrs" using assms(3,4) by (simp add: withExtraRelays_def)
  obtain added where a: "addExtras port relays addrs = addrs @ added" "distinct added" "set added \<inter> set addrs = {}"
      "set addrs \<union> set added = set addrs \<union> onPort port ` set relays"
    using addExtras_adds by blast
  have "\<exists>q. addressPort parseIP r q \<and> (q = port \<or> (\<exists>n. atoi q = Some n \<and> 1 \<le> n \<and> n \<le> 65535))" if r: "r \<in> set added" for r
  proof -
    have "r \<in> set addrs \<union> onPort port ` set relays" using r unfolding a(4) [symmetric] by (rule UnI2)
    moreover have "r \<notin> set addrs" using r a(3) by auto
    ultimately obtain x where x: "x \<in> set relays" "r = onPort port x" by (elim UnE imageE) simp_all
    obtain f where "extraRelay parseIP f = Some x" using x(1) rb(1) by (auto simp: List.map_filter_def)
    then show ?thesis unfolding x(2) by (rule on_port [OF assms(1) _ port_plain [OF assms(4)]])
  qed
  then show "\<exists>added. withExtraRelays addrs relays [] = addrs @ added \<and> distinct added \<and> set added \<inter> set addrs = {}
        \<and> set addrs \<union> set added = set addrs \<union> onPort port ` set relays
        \<and> (\<forall>r \<in> set added. \<exists>q. addressPort parseIP r q \<and> (q = port \<or> (\<exists>n. atoi q = Some n \<and> 1 \<le> n \<and> n \<le> 65535)))"
    unfolding w by (intro exI [of _ added] conjI ballI a)
qed

text \<open>A bare address, one with its own port, one of the sixth version, one the link has already, and a name.\<close>

definition threeAddresses :: "string \<Rightarrow> string option" where
  "threeAddresses x = (if x \<in> {''1.2.3.4'', ''5.6.7.8'', ''::1''} then Some x else None)"

lemma threeAddresses_parser: "addressParser threeAddresses"
proof -
  have "\<forall>x \<in> {''1.2.3.4'', ''5.6.7.8'', ''::1''}. splitHostPort x = None \<and> CHR ''['' \<notin> set x \<and> CHR '']'' \<notin> set x" by code_simp
  then show ?thesis by (auto simp: addressParser_def threeAddresses_def)
qed

lemma extra_relays_join_the_list_witness:
  "\<exists>relays bad added. parseExtraRelays threeAddresses ''1.2.3.4, ::1;5.6.7.8:443 vk.ru'' = (relays, bad)
    \<and> relays = [''1.2.3.4'', ''::1'', ''5.6.7.8:443''] \<and> bad = [''vk.ru''] \<and> withExtraRelays [''5.6.7.8:443''] relays [] = [''5.6.7.8:443''] @ added
    \<and> added = [''1.2.3.4:443'', ''[::1]:443''] \<and> (\<forall>r \<in> set added. \<exists>q. addressPort threeAddresses r q)"
proof -
  have p: "parseExtraRelays threeAddresses ''1.2.3.4, ::1;5.6.7.8:443 vk.ru'' =
      ([''1.2.3.4'', ''::1'', ''5.6.7.8:443''], [''vk.ru''])" by code_simp
  have h: "splitHostPort (hd [''5.6.7.8:443'']) = Some (''5.6.7.8'', ''443'')" by code_simp
  let ?rs = "[''1.2.3.4'', ''::1'', ''5.6.7.8:443'']"
  have ne: "[''5.6.7.8:443''] \<noteq> []" by simp
  obtain added where a: "withExtraRelays [''5.6.7.8:443''] ?rs [] = [''5.6.7.8:443''] @ added"
      "\<forall>r \<in> set added. \<exists>q. addressPort threeAddresses r q \<and> (q = ''443'' \<or> (\<exists>n. atoi q = Some n \<and> 1 \<le> n \<and> n \<le> 65535))"
    using extra_relays_join_the_list [OF threeAddresses_parser p ne h] by (elim conjE exE)
  have b: "\<forall>r \<in> set added. \<exists>q. addressPort threeAddresses r q" using a(2) by metis
  have "withExtraRelays [''5.6.7.8:443''] [''1.2.3.4'', ''::1'', ''5.6.7.8:443''] [] = [''5.6.7.8:443'', ''1.2.3.4:443'', ''[::1]:443'']"
    by code_simp
  then have c: "added = [''1.2.3.4:443'', ''[::1]:443'']" using a(1) by simp
  show ?thesis by (intro exI [of _ ?rs] exI [of _ "[''vk.ru'']"] exI [of _ added] conjI p refl a(1) b c)
qed

section \<open>The streams of the running proxy\<close>

definition newProxyRuns :: "bool \<Rightarrow> relayHeard \<Rightarrow> proxyRuns" where
  "newProxyRuns overTCP h =
    \<lparr>census = \<lparr>setsPublished = [], activeStreams = None, activeOverTCP = overTCP, censusHeard = h\<rparr>, runs = []\<rparr>"

text \<open>
  All but the newest proxy are cancelled; every set published is some proxy's and is it once; the set in force is that of a proxy that has
  not drained, and the newest one's from its claim to its end.
\<close>

definition claimedBy :: "proxyRuns \<Rightarrow> nat \<Rightarrow> nat \<Rightarrow> bool" where
  "claimedBy w i n \<longleftrightarrow> i < length (runs w) \<and> runSet (runs w ! i) = Some n"

definition runsHold :: "(runOp \<times> unit) list \<Rightarrow> proxyRuns \<Rightarrow> bool" where
  "runsHold tr w \<longleftrightarrow> (\<forall>i. i + 1 < length (runs w) \<longrightarrow> runCancelled (runs w ! i))
     \<and> (\<forall>i n. claimedBy w i n \<longrightarrow> n < length (setsPublished (census w)) \<and> setsPublished (census w) ! n = runStreams (runs w ! i))
     \<and> (\<forall>i j n. claimedBy w i n \<and> claimedBy w j n \<longrightarrow> i = j)
     \<and> (\<forall>n. activeStreams (census w) = Some n \<longrightarrow> (\<exists>i. claimedBy w i n \<and> \<not> runDrained (runs w ! i)))
     \<and> (\<forall>i n. i + 1 = length (runs w) \<and> claimedBy w i n \<and> \<not> runDrained (runs w ! i) \<longrightarrow>
          activeStreams (census w) = Some n \<and> activeOverTCP (census w) = runOverTCP (runs w ! i))"

lemma runsHoldI:
  assumes "\<And>i. i + 1 < length (runs w) \<Longrightarrow> runCancelled (runs w ! i)"
    "\<And>i n. claimedBy w i n \<Longrightarrow> n < length (setsPublished (census w)) \<and> setsPublished (census w) ! n = runStreams (runs w ! i)"
    "\<And>i j n. \<lbrakk>claimedBy w i n; claimedBy w j n\<rbrakk> \<Longrightarrow> i = j"
    "\<And>n. activeStreams (census w) = Some n \<Longrightarrow> \<exists>i. claimedBy w i n \<and> \<not> runDrained (runs w ! i)"
    "\<And>i n. \<lbrakk>i + 1 = length (runs w); claimedBy w i n; \<not> runDrained (runs w ! i)\<rbrakk> \<Longrightarrow>
       activeStreams (census w) = Some n \<and> activeOverTCP (census w) = runOverTCP (runs w ! i)"
  shows "runsHold tr w"
  using assms unfolding runsHold_def by blast

lemma runsHoldD:
  assumes "runsHold tr w"
  shows "i + 1 < length (runs w) \<Longrightarrow> runCancelled (runs w ! i)"
    "claimedBy w i n \<Longrightarrow> n < length (setsPublished (census w)) \<and> setsPublished (census w) ! n = runStreams (runs w ! i)"
    "\<lbrakk>claimedBy w i n; claimedBy w j n\<rbrakk> \<Longrightarrow> i = j"
    "activeStreams (census w) = Some n \<Longrightarrow> \<exists>i. claimedBy w i n \<and> \<not> runDrained (runs w ! i)"
    "\<lbrakk>i + 1 = length (runs w); claimedBy w i n; \<not> runDrained (runs w ! i)\<rbrakk> \<Longrightarrow>
       activeStreams (census w) = Some n \<and> activeOverTCP (census w) = runOverTCP (runs w ! i)"
  using assms unfolding runsHold_def by blast+

lemma runsHold_new: "runsHold [] (newProxyRuns overTCP h)"
  by (simp add: runsHold_def newProxyRuns_def claimedBy_def)

lemma claimedBy_starts:
  "claimedBy (w\<lparr>runs := map (runCancelled_update (\<lambda>_. True)) (runs w) @ [r]\<rparr>) i n \<longleftrightarrow>
     claimedBy w i n \<or> i = length (runs w) \<and> runSet r = Some n"
  by (auto simp: claimedBy_def nth_append less_Suc_eq)

lemma starts_keeps: "runsHold tr w \<Longrightarrow> runsHold tr' (snd (runStep (RunStarts overTCP streams) w))"
  unfolding runsHold_def
  by (auto simp: runStep_def claimedBy_starts nth_append less_Suc_eq claimedBy_def)

text \<open>A claim that is refused, one that is granted, and a set withdrawn.\<close>

lemma refused_keeps:
  assumes h: "runsHold tr w" and i: "i < length (runs w)" "runSet (runs w ! i) = None"
  shows "runsHold tr' (w\<lparr>runs := (runs w)[i := (runs w ! i)\<lparr>runDrained := True\<rparr>]\<rparr>)" (is "runsHold _ ?w")
proof -
  have c: "claimedBy ?w k n \<longleftrightarrow> claimedBy w k n" for k n using i by (auto simp: claimedBy_def nth_list_update)
  have k: "claimedBy w k n \<Longrightarrow> k \<noteq> i" for k n using i by (auto simp: claimedBy_def)
  show ?thesis
  proof (rule runsHoldI)
    fix n assume "activeStreams (census ?w) = Some n"
    then obtain j where j: "claimedBy w j n" "\<not> runDrained (runs w ! j)" using runsHoldD(4) [OF h] by auto
    then show "\<exists>k. claimedBy ?w k n \<and> \<not> runDrained (runs ?w ! k)" unfolding c using k [OF j(1)] by (intro exI [of _ j]) simp
  next
    fix k assume "k + 1 < length (runs ?w)"
    then show "runCancelled (runs ?w ! k)" using runsHoldD(1) [OF h, of k] i(1) by (auto simp: nth_list_update)
  next
    fix j n assume "claimedBy ?w j n"
    then show "n < length (setsPublished (census ?w)) \<and> setsPublished (census ?w) ! n = runStreams (runs ?w ! j)"
      using runsHoldD(2) [OF h, of j n] k [of j n] unfolding c by simp
  next
    fix j l n assume "claimedBy ?w j n" "claimedBy ?w l n"
    then show "j = l" using runsHoldD(3) [OF h] unfolding c by blast
  next
    fix j n assume "j + 1 = length (runs ?w)" "claimedBy ?w j n" "\<not> runDrained (runs ?w ! j)"
    then show "activeStreams (census ?w) = Some n \<and> activeOverTCP (census ?w) = runOverTCP (runs ?w ! j)"
      using runsHoldD(5) [OF h, of j n] k [of j n] unfolding c by simp
  qed
qed

lemma granted_keeps:
  assumes h: "runsHold tr w" and i: "i + 1 = length (runs w)" "runSet (runs w ! i) = None" "\<not> runDrained (runs w ! i)"
    and c: "setsPublished c = setsPublished (census w) @ [runStreams (runs w ! i)]"
      "activeStreams c = Some (length (setsPublished (census w)))" "activeOverTCP c = runOverTCP (runs w ! i)"
  shows "runsHold tr' (w\<lparr>census := c, runs := (runs w)[i := (runs w ! i)\<lparr>runSet := Some (length (setsPublished (census w)))\<rparr>]\<rparr>)"
    (is "runsHold _ ?w")
proof -
  have il: "i < length (runs w)" using i(1) by simp
  have cb: "claimedBy ?w k n \<longleftrightarrow> (if k = i then n = length (setsPublished (census w)) else claimedBy w k n)" for k n
    using il by (auto simp: claimedBy_def nth_list_update)
  have nw: "claimedBy w k n \<Longrightarrow> n < length (setsPublished (census w))" for k n using runsHoldD(2) [OF h] by blast
  show ?thesis
  proof (rule runsHoldI)
    fix k n assume k: "claimedBy ?w k n"
    show "n < length (setsPublished (census ?w)) \<and> setsPublished (census ?w) ! n = runStreams (runs ?w ! k)"
      using k il c(1) runsHoldD(2) [OF h, of k n] unfolding cb by (auto simp: nth_append nth_list_update split: if_splits)
  next
    fix j k n assume "claimedBy ?w j n" "claimedBy ?w k n"
    then show "j = k" using runsHoldD(3) [OF h, of j n k] nw [of j n] nw [of k n] unfolding cb by (auto split: if_splits)
  next
    fix n assume "activeStreams (census ?w) = Some n"
    then show "\<exists>k. claimedBy ?w k n \<and> \<not> runDrained (runs ?w ! k)" using c(2) il i(3) unfolding cb by (intro exI [of _ i]) simp
  next
    fix k n assume k: "k + 1 = length (runs ?w)" "claimedBy ?w k n"
    then have ki: "k = i" using i(1) by simp
    then show "activeStreams (census ?w) = Some n \<and> activeOverTCP (census ?w) = runOverTCP (runs ?w ! k)"
      using c k(2) il unfolding cb by simp
  qed (use runsHoldD(1) [OF h] i(1) in \<open>auto simp: nth_list_update\<close>)
qed

lemma claim_keeps:
  assumes h: "runsHold tr w" and i: "i < length (runs w)" "runSet (runs w ! i) = None" "\<not> runDrained (runs w ! i)"
  shows "runsHold tr' (snd (runStep (RunClaims i) w))"
proof (cases "runCancelled (runs w ! i)")
  case True
  then show ?thesis using refused_keeps [OF h i(1,2)] i by (simp add: runStep_def claimRunning_def)
next
  case False
  then have last: "i + 1 = length (runs w)" using runsHoldD(1) [OF h, of i] i(1) by linarith
  show ?thesis using False i
    by (simp add: runStep_def claimRunning_def publishStreams_def claimTransport_def Let_def granted_keeps [OF h last i(2,3)])
qed

lemma drains_keeps:
  assumes h: "runsHold tr w" and i: "i < length (runs w)" "runSet (runs w ! i) = Some m" "\<not> runDrained (runs w ! i)"
  shows "runsHold tr' (snd (runStep (RunDrains i) w))"
proof -
  let ?w = "w\<lparr>census := withdrawStreams m (census w), runs := (runs w)[i := (runs w ! i)\<lparr>runDrained := True\<rparr>]\<rparr>"
  have c: "claimedBy ?w k n \<longleftrightarrow> claimedBy w k n" for k n using i by (auto simp: claimedBy_def nth_list_update)
  have im: "claimedBy w i m" using i by (simp add: claimedBy_def)
  have "runsHold tr' ?w"
  proof (rule runsHoldI)
    fix n assume "activeStreams (census ?w) = Some n"
    then have a: "activeStreams (census w) = Some n" "n \<noteq> m" by (auto simp: withdrawStreams_def split: if_splits)
    obtain k where k: "claimedBy w k n" "\<not> runDrained (runs w ! k)" using runsHoldD(4) [OF h a(1)] by blast
    then have "k \<noteq> i" using i(2) a(2) by (auto simp: claimedBy_def)
    then show "\<exists>k. claimedBy ?w k n \<and> \<not> runDrained (runs ?w ! k)" unfolding c using k by (intro exI [of _ k]) simp
  next
    fix k n assume k: "k + 1 = length (runs ?w)" "claimedBy ?w k n" "\<not> runDrained (runs ?w ! k)"
    then have ki: "k \<noteq> i" using i(1) by auto
    then have n: "n \<noteq> m" using runsHoldD(3) [OF h im, of k] k(2) unfolding c by blast
    show "activeStreams (census ?w) = Some n \<and> activeOverTCP (census ?w) = runOverTCP (runs ?w ! k)"
      using runsHoldD(5) [OF h, of k n] k ki n unfolding c by (auto simp: withdrawStreams_def)
  next
    fix k n assume "claimedBy ?w k n"
    then show "n < length (setsPublished (census ?w)) \<and> setsPublished (census ?w) ! n = runStreams (runs ?w ! k)"
      using runsHoldD(2) [OF h, of k n] i(1) unfolding c by (auto simp: withdrawStreams_def nth_list_update)
  next
    fix j k n assume "claimedBy ?w j n" "claimedBy ?w k n"
    then show "j = k" using runsHoldD(3) [OF h] unfolding c by blast
  next
    fix k assume "k + 1 < length (runs ?w)"
    then show "runCancelled (runs ?w ! k)" using runsHoldD(1) [OF h, of k] i(1) by (auto simp: nth_list_update)
  qed
  then show ?thesis using i by (simp add: runStep_def)
qed

lemma cancel_keeps: "runsHold tr w \<Longrightarrow> i < length (runs w) \<Longrightarrow> runsHold tr' (snd (runStep (RunCancelled i) w))"
  unfolding runsHold_def by (auto simp: runStep_def claimedBy_def nth_list_update split: if_splits)

lemma runsHold_any: "runsHold tr w \<Longrightarrow> runsHold tr' w"
  unfolding runsHold_def .

lemma runStep_keeps:
  assumes h: "runsHold tr w" and s: "runStep q w = (u, w')"
  shows "runsHold (tr @ [(q, u)]) w'"
proof -
  have "runsHold tr' (snd (runStep q w))" for tr'
  proof (cases q)
    case (RunStarts overTCP streams)
    then show ?thesis using starts_keeps [OF h] by simp
  next
    case (RunCancelled i)
    show ?thesis
    proof (cases "i < length (runs w)")
      case True
      then show ?thesis unfolding RunCancelled by (rule cancel_keeps [OF h])
    next
      case False
      then show ?thesis using RunCancelled runsHold_any [OF h] by (simp add: runStep_def)
    qed
  next
    case (RunClaims i)
    show ?thesis
    proof (cases "i < length (runs w) \<and> runSet (runs w ! i) = None \<and> \<not> runDrained (runs w ! i)")
      case True
      then show ?thesis unfolding RunClaims by (intro claim_keeps [OF h]) simp_all
    next
      case False
      then have "snd (runStep q w) = w" using RunClaims by (auto simp: runStep_def)
      then show ?thesis using runsHold_any [OF h] by simp
    qed
  next
    case (RunDrains i)
    show ?thesis
    proof (cases "i < length (runs w) \<and> \<not> runDrained (runs w ! i) \<and> (\<exists>m. runSet (runs w ! i) = Some m)")
      case True
      then show ?thesis unfolding RunDrains by (elim conjE exE) (rule drains_keeps [OF h])
    next
      case False
      then have "snd (runStep q w) = w" using RunDrains by (auto simp: runStep_def split: option.splits)
      then show ?thesis using runsHold_any [OF h] by simp
    qed
  next
    case (RunHears now)
    have "snd (runStep q w) = w\<lparr>census := (census w)\<lparr>censusHeard := noteRelayHeard now (censusHeard (census w))\<rparr>\<rparr>"
      using RunHears by (simp add: runStep_def)
    then show ?thesis using runsHoldD [OF h] by (intro runsHoldI) (simp_all add: claimedBy_def)
  qed
  then show ?thesis using s by (metis snd_conv)
qed

interpretation runs: traced runStep runsHold "\<lambda>_. True"
  by unfold_locales (rule runStep_keeps)

text \<open>
  C25. However proxies start one after another, claim, are cancelled and drain late: from the claim of the newest one to its end the streams in force
  and the transport are its own, and never is a set in force whose proxy has drained; with none in force the count of ready streams is -1.
\<close>

theorem running_proxy_keeps_its_streams:
  assumes "traceRun runStep qs (newProxyRuns overTCP h) = (tr, w)"
  shows "(runs w \<noteq> [] \<and> runSet (last (runs w)) \<noteq> None \<and> \<not> runDrained (last (runs w)) \<longrightarrow>
      activeStreamSet (census w) = runStreams (last (runs w)) \<and> activeOverTCP (census w) = runOverTCP (last (runs w))
      \<and> (\<forall>ready. readyStreamCount ready (census w) = int (length (filter ready (runStreams (last (runs w)))))))
    \<and> (\<forall>n. activeStreams (census w) = Some n \<longrightarrow>
        (\<exists>r \<in> set (runs w). runSet r = Some n \<and> \<not> runDrained r \<and> activeStreamSet (census w) = runStreams r))
    \<and> (\<forall>ready. readyStreamCount ready (census w) = - 1 \<longleftrightarrow> activeStreams (census w) = None)"
proof (intro conjI)
  have h: "runsHold tr w" using runs.run_establishes [OF assms runsHold_new] by simp
  show "runs w \<noteq> [] \<and> runSet (last (runs w)) \<noteq> None \<and> \<not> runDrained (last (runs w)) \<longrightarrow>
      activeStreamSet (census w) = runStreams (last (runs w)) \<and> activeOverTCP (census w) = runOverTCP (last (runs w))
      \<and> (\<forall>ready. readyStreamCount ready (census w) = int (length (filter ready (runStreams (last (runs w))))))"
  proof (intro impI, elim conjE)
    assume r: "runs w \<noteq> []" "runSet (last (runs w)) \<noteq> None" "\<not> runDrained (last (runs w))"
    let ?i = "length (runs w) - 1"
    have i: "?i + 1 = length (runs w)" "last (runs w) = runs w ! ?i" using r(1) by (simp_all add: last_conv_nth)
    obtain n where n: "claimedBy w ?i n" using r(1,2) i(2) by (auto simp: claimedBy_def)
    show "activeStreamSet (census w) = runStreams (last (runs w)) \<and> activeOverTCP (census w) = runOverTCP (last (runs w))
      \<and> (\<forall>ready. readyStreamCount ready (census w) = int (length (filter ready (runStreams (last (runs w))))))"
      using runsHoldD(5) [OF h i(1) n] runsHoldD(2) [OF h n] r(3) i(2) by (simp add: activeStreamSet_def readyStreamCount_def)
  qed
  show "\<forall>n. activeStreams (census w) = Some n \<longrightarrow>
        (\<exists>r \<in> set (runs w). runSet r = Some n \<and> \<not> runDrained r \<and> activeStreamSet (census w) = runStreams r)"
  proof (intro allI impI)
    fix n assume a: "activeStreams (census w) = Some n"
    then obtain k where k: "claimedBy w k n" "\<not> runDrained (runs w ! k)" using runsHoldD(4) [OF h] by blast
    then show "\<exists>r \<in> set (runs w). runSet r = Some n \<and> \<not> runDrained r \<and> activeStreamSet (census w) = runStreams r"
      using a runsHoldD(2) [OF h k(1)] by (intro bexI [of _ "runs w ! k"]) (auto simp: claimedBy_def activeStreamSet_def)
  qed
  show "\<forall>ready. readyStreamCount ready (census w) = - 1 \<longleftrightarrow> activeStreams (census w) = None"
    by (auto simp: readyStreamCount_def split: option.splits)
qed

text \<open>A proxy cancelled while it prefetched claims after the next one: the next one's streams stay.\<close>

definition lateClaim :: "runOp list" where
  "lateClaim = [RunStarts False [1, 2], RunStarts True [8], RunClaims 1, RunClaims 0]"

lemma lateClaim_run:
  "case traceRun runStep lateClaim (newProxyRuns True h) of (tr, w) \<Rightarrow>
    runs w \<noteq> [] \<and> runSet (last (runs w)) = Some 0 \<and> \<not> runDrained (last (runs w)) \<and> runStreams (last (runs w)) = [8]"
  by (simp add: lateClaim_def newProxyRuns_def runStep_def claimRunning_def publishStreams_def claimTransport_def withdrawStreams_def Let_def
    numeral_nat)

lemma running_proxy_keeps_its_streams_witness:
  "\<exists>tr w. traceRun runStep lateClaim (newProxyRuns True \<lparr>heardCount = 0, relayHeardAt = 0, relayGapEndAt = 0\<rparr>) = (tr, w)
    \<and> runSet (last (runs w)) = Some 0 \<and> activeStreamSet (census w) = [8]"
proof -
  let ?h = "\<lparr>heardCount = 0, relayHeardAt = 0, relayGapEndAt = 0\<rparr>"
  obtain tr w where t: "traceRun runStep lateClaim (newProxyRuns True ?h) = (tr, w)" by fastforce
  have r: "runs w \<noteq> []" "runSet (last (runs w)) = Some 0" "\<not> runDrained (last (runs w))" "runStreams (last (runs w)) = [8]"
    using lateClaim_run [of ?h] unfolding t by simp_all
  have "runs w \<noteq> [] \<and> runSet (last (runs w)) \<noteq> None \<and> \<not> runDrained (last (runs w))" using r by simp
  then have "activeStreamSet (census w) = runStreams (last (runs w))"
    by (rule conjunct1 [OF mp [OF conjunct1 [OF running_proxy_keeps_its_streams [OF t]]]])
  then have "activeStreamSet (census w) = [8]" using r(4) by simp
  then show ?thesis using t r(2) by (intro exI conjI)
qed

end
