(* ===== verification/ProxyStart.thy ===== *)
theory ProxyStart
  imports SessionVerdict Traces
begin

text \<open>
  The start and the stop of the proxy (\<open>StartProxy\<close>, \<open>StopProxy\<close> of \<open>turn-client.go\<close>): the claim of a start on the process, what it resets, its
  listener, the credentials fetched ahead, the groups and the code it returns. Starts and stops run in goroutines of their own: each
  stretch between two locks, or two waits, is a step, and the steps of several starts come in any order. What the system answers (a
  port bound, an address resolved, a certificate made) is an argument.
\<close>

section \<open>What a start returns\<close>

datatype prefetchOutcome = PrefetchOk | PrefetchFailed string

definition requiresAuth :: "string \<Rightarrow> bool" where
  "requiresAuth e \<longleftrightarrow> strContains e ''CALL_REQUIRES_AUTH''"

definition callGone :: "string \<Rightarrow> bool" where
  "callGone e \<longleftrightarrow> \<not> requiresAuth e \<and> strContains e ''CALL_UNAVAILABLE''"

text \<open>After the fetches, with the context ended by then or not: the code of a start that goes no further.\<close>

definition prefetchCode :: "bool \<Rightarrow> prefetchOutcome list \<Rightarrow> int option" where
  "prefetchCode over outs =
    (if over then Some (- 1)
     else if (\<exists>x \<in> set outs. case x of PrefetchFailed e \<Rightarrow> requiresAuth e | PrefetchOk \<Rightarrow> False) then Some (- 2)
     else if PrefetchOk \<notin> set outs \<and> (\<exists>x \<in> set outs. case x of PrefetchFailed e \<Rightarrow> callGone e | PrefetchOk \<Rightarrow> False) then Some (- 4)
     else None)"

text \<open>What the last wait selects: the first stream, the end of the context, or the time-out with its evidence.\<close>

datatype startEnd = FirstStreamReady | StartContextEnded | StartTimedOut bool bool bool

definition startEndCode :: "startEnd \<Rightarrow> int" where
  "startEndCode e = (case e of FirstStreamReady \<Rightarrow> 0 | StartContextEnded \<Rightarrow> - 1
     | StartTimedOut creds heard carriedNothing \<Rightarrow> startTimeoutCode creds heard carriedNothing)"

section \<open>The starts of the process\<close>

datatype startPhase = StartBegun | StartClaimed | StartReset | StartListening | StartFetched | StartLaunched | StartPublished
  | StartReturned int

record startRun =
  startParentOver :: bool
  startCancelled :: bool    \<comment> \<open>its own context was cancelled\<close>
  startPhase :: startPhase

definition startOver :: "startRun \<Rightarrow> bool" where
  "startOver r \<longleftrightarrow> startParentOver r \<or> startCancelled r"

text \<open>A start's cancel, its groups' done channel and its listener are known by its number.\<close>

record proxyProcess =
  turnCancel :: "nat option"
  turnDone :: "nat option"
  turnListener :: "nat option"
  openListeners :: "nat list"
  stopsClosing :: "nat list"        \<comment> \<open>listeners that stops have taken and not yet closed\<close>
  addrPublished :: "nat option"
  starts :: "startRun list"

definition newProxyProcess :: proxyProcess where
  "newProxyProcess = \<lparr>turnCancel = None, turnDone = None, turnListener = None, openListeners = [], stopsClosing = [],
     addrPublished = None, starts = []\<rparr>"

datatype startCall = BeginsNetworkPath | ClearsTransient | ResetsServerHealth | ResetsFatal | ResetsDarkPaths | ResetsPacing
  | ResetsCaptchaLockout | BeginsEvidence | ResetsPathProof

datatype startOp =
    StartComes | StartParentEnds nat | StartClaims nat bool | StartResets nat bool | StartBinds nat bool bool
  | StartFetches nat "prefetchOutcome list" | StartLaunches nat bool | StartPublishes nat | StartEnds nat startEnd
  | ListenerFollows nat | StopTakes | StopCloses

definition setStart :: "nat \<Rightarrow> (startRun \<Rightarrow> startRun) \<Rightarrow> proxyProcess \<Rightarrow> proxyProcess" where
  "setStart i f p = p\<lparr>starts := (starts p)[i := f (starts p ! i)]\<rparr>"

definition inPhase :: "startPhase \<Rightarrow> nat \<Rightarrow> proxyProcess \<Rightarrow> bool" where
  "inPhase ph i p \<longleftrightarrow> i < length (starts p) \<and> startPhase (starts p ! i) = ph"

definition goTo :: "startPhase \<Rightarrow> nat \<Rightarrow> proxyProcess \<Rightarrow> proxyProcess" where
  "goTo ph i = setStart i (startPhase_update (\<lambda>_. ph))"

definition cancelStart :: "nat option \<Rightarrow> proxyProcess \<Rightarrow> proxyProcess" where
  "cancelStart who p = (case who of None \<Rightarrow> p | Some i \<Rightarrow> setStart i (startCancelled_update (\<lambda>_. True)) p)"

definition closeListener :: "nat option \<Rightarrow> proxyProcess \<Rightarrow> proxyProcess" where
  "closeListener who p = (case who of None \<Rightarrow> p | Some i \<Rightarrow> p\<lparr>openListeners := removeAll i (openListeners p)\<rparr>)"

text \<open>Under the lock: refused to a start whose parent has ended; the one before it is cancelled and its listener closed.\<close>

definition claimStart :: "nat \<Rightarrow> proxyProcess \<Rightarrow> proxyProcess" where
  "claimStart i p =
    (if startParentOver (starts p ! i) then goTo (StartReturned (- 1)) i p
     else (let p = cancelStart (turnCancel p) p; p = closeListener (turnListener p) p
           in goTo StartClaimed i (p\<lparr>turnCancel := Some i, turnListener := None\<rparr>)))"

definition resetCalls :: "bool \<Rightarrow> startCall list" where
  "resetCalls keepDNS = [BeginsNetworkPath] @ (if keepDNS then [] else [ClearsTransient]) @
     [ResetsServerHealth, ResetsFatal, ResetsDarkPaths, ResetsPacing, ResetsCaptchaLockout, BeginsEvidence]"

text \<open>The peer resolved and the port bound, or neither; then the certificate.\<close>

definition bindStart :: "bool \<Rightarrow> bool \<Rightarrow> nat \<Rightarrow> proxyProcess \<Rightarrow> proxyProcess" where
  "bindStart bound cert i p =
    (if \<not> bound then goTo (StartReturned (- 1)) i p
     else (let p = p\<lparr>openListeners := i # openListeners p, turnListener := Some i, addrPublished := Some i\<rparr>
           in goTo (if cert then StartListening else StartReturned (- 1)) i p))"

definition fetchStart :: "prefetchOutcome list \<Rightarrow> nat \<Rightarrow> proxyProcess \<Rightarrow> proxyProcess" where
  "fetchStart outs i p = (case prefetchCode (startOver (starts p ! i)) outs of
     None \<Rightarrow> goTo StartFetched i p
   | Some c \<Rightarrow> goTo (StartReturned c) i (if startOver (starts p ! i) then p else cancelStart (Some i) p))"

text \<open>The groups refuse a context that has ended, and a configuration that is not theirs.\<close>

definition launchStart :: "bool \<Rightarrow> nat \<Rightarrow> proxyProcess \<Rightarrow> proxyProcess" where
  "launchStart ok i p =
    (if ok \<and> \<not> startOver (starts p ! i) then goTo StartLaunched i p
     else goTo (StartReturned (- 1)) i (cancelStart (Some i) p))"

definition publishStart :: "nat \<Rightarrow> proxyProcess \<Rightarrow> proxyProcess" where
  "publishStart i p = goTo StartPublished i (if startOver (starts p ! i) then p else p\<lparr>turnDone := Some i\<rparr>)"

definition endStart :: "startEnd \<Rightarrow> nat \<Rightarrow> proxyProcess \<Rightarrow> proxyProcess" where
  "endStart e i p = (case e of
     FirstStreamReady \<Rightarrow> goTo (StartReturned (startEndCode e)) i p
   | StartContextEnded \<Rightarrow> if startOver (starts p ! i) then goTo (StartReturned (startEndCode e)) i p else p
   | StartTimedOut _ _ _ \<Rightarrow> goTo (StartReturned (startEndCode e)) i (cancelStart (Some i) p))"

text \<open>\<open>StopProxy\<close>: what it takes under the lock, and the cancel; then, when the groups have drained or it has waited enough, the close.\<close>

definition stopTakes :: "proxyProcess \<Rightarrow> proxyProcess" where
  "stopTakes p = (cancelStart (turnCancel p) p)\<lparr>turnCancel := None, turnDone := None, turnListener := None,
     stopsClosing := stopsClosing p @ (case turnListener p of None \<Rightarrow> [] | Some i \<Rightarrow> [i])\<rparr>"

definition stopCloses :: "proxyProcess \<Rightarrow> proxyProcess" where
  "stopCloses p = (case stopsClosing p of [] \<Rightarrow> p | i # is \<Rightarrow> (closeListener (Some i) p)\<lparr>stopsClosing := is\<rparr>)"

definition startStep :: "startOp \<Rightarrow> proxyProcess \<Rightarrow> startCall list \<times> proxyProcess" where
  "startStep q p = (case q of
     StartComes \<Rightarrow> ([], p\<lparr>starts := starts p @ [\<lparr>startParentOver = False, startCancelled = False, startPhase = StartBegun\<rparr>]\<rparr>)
   | StartParentEnds i \<Rightarrow> ([], if i < length (starts p) then setStart i (startParentOver_update (\<lambda>_. True)) p else p)
   | StartClaims i wrapKey \<Rightarrow>
       ([], if \<not> inPhase StartBegun i p then p else if wrapKey then claimStart i p else goTo (StartReturned (- 1)) i p)
   | StartResets i keepDNS \<Rightarrow> if inPhase StartClaimed i p then (resetCalls keepDNS, goTo StartReset i p) else ([], p)
   | StartBinds i bound cert \<Rightarrow> ([], if inPhase StartReset i p then bindStart bound cert i p else p)
   | StartFetches i outs \<Rightarrow> ([], if inPhase StartListening i p then fetchStart outs i p else p)
   | StartLaunches i ok \<Rightarrow> ([], if inPhase StartFetched i p then launchStart ok i p else p)
   | StartPublishes i \<Rightarrow> ([], if inPhase StartLaunched i p then publishStart i p else p)
   | StartEnds i e \<Rightarrow> ([], if inPhase StartPublished i p then endStart e i p else p)
   | ListenerFollows i \<Rightarrow>
       ([], if i < length (starts p) \<and> startOver (starts p ! i) then closeListener (Some i) p else p)
   | StopTakes \<Rightarrow> ([ResetsPathProof], stopTakes p)
   | StopCloses \<Rightarrow> ([], stopCloses p))"

section \<open>What starts and stops keep\<close>

text \<open>A start at work: it has claimed and not returned an error, and its context lives. What it owns while its context lives.\<close>

definition working :: "startPhase \<Rightarrow> bool" where
  "working ph \<longleftrightarrow> ph \<in> {StartClaimed, StartReset, StartListening, StartFetched, StartLaunched, StartPublished, StartReturned 0}"

definition alive :: "proxyProcess \<Rightarrow> nat \<Rightarrow> bool" where
  "alive p i \<longleftrightarrow> i < length (starts p) \<and> \<not> startOver (starts p ! i)"

definition phaseOf :: "proxyProcess \<Rightarrow> nat \<Rightarrow> startPhase" where
  "phaseOf p i = startPhase (starts p ! i)"

definition startHolds :: "(startOp \<times> startCall list) list \<Rightarrow> proxyProcess \<Rightarrow> bool" where
  "startHolds tr p \<longleftrightarrow>
     (\<forall>i. alive p i \<and> (working (phaseOf p i) \<or> i \<in> set (openListeners p) \<or> turnListener p = Some i) \<longrightarrow> turnCancel p = Some i)
     \<and> (\<forall>i. turnCancel p = Some i \<or> turnListener p = Some i \<or> i \<in> set (openListeners p) \<or> i \<in> set (stopsClosing p)
          \<longrightarrow> i < length (starts p))
     \<and> (\<forall>i. alive p i \<and> (phaseOf p i = StartPublished \<or> phaseOf p i = StartReturned 0) \<longrightarrow> turnDone p = Some i)"

lemma startHolds_any: "startHolds tr p \<Longrightarrow> startHolds tr' p"
  unfolding startHolds_def .

lemma startHoldsD:
  assumes "startHolds tr p"
  shows "\<lbrakk>alive p i; working (phaseOf p i) \<or> i \<in> set (openListeners p) \<or> turnListener p = Some i\<rbrakk> \<Longrightarrow> turnCancel p = Some i"
    "turnCancel p = Some i \<or> turnListener p = Some i \<or> i \<in> set (openListeners p) \<or> i \<in> set (stopsClosing p) \<Longrightarrow> i < length (starts p)"
    "\<lbrakk>alive p i; phaseOf p i = StartPublished \<or> phaseOf p i = StartReturned 0\<rbrakk> \<Longrightarrow> turnDone p = Some i"
  using assms unfolding startHolds_def by blast+

lemma startHoldsI:
  assumes "\<And>i. \<lbrakk>alive p i; working (phaseOf p i) \<or> i \<in> set (openListeners p) \<or> turnListener p = Some i\<rbrakk> \<Longrightarrow> turnCancel p = Some i"
    "\<And>i. turnCancel p = Some i \<or> turnListener p = Some i \<or> i \<in> set (openListeners p) \<or> i \<in> set (stopsClosing p) \<Longrightarrow> i < length (starts p)"
    "\<And>i. \<lbrakk>alive p i; phaseOf p i = StartPublished \<or> phaseOf p i = StartReturned 0\<rbrakk> \<Longrightarrow> turnDone p = Some i"
  shows "startHolds tr p"
  using assms unfolding startHolds_def by blast

text \<open>What the parts of a step do to what the invariant reads.\<close>

lemma nth_updated: "xs[i := x] ! j = (if j = i \<and> i < length xs then x else xs ! j)"
  by (cases "i < length xs") (auto simp: nth_list_update list_update_beyond)

lemma alive_fields [simp]:
  "alive (p\<lparr>turnCancel := a\<rparr>) = alive p" "alive (p\<lparr>turnDone := a\<rparr>) = alive p" "alive (p\<lparr>turnListener := a\<rparr>) = alive p"
  "alive (p\<lparr>openListeners := b\<rparr>) = alive p" "alive (p\<lparr>stopsClosing := b\<rparr>) = alive p" "alive (p\<lparr>addrPublished := a\<rparr>) = alive p"
  by (simp_all add: alive_def fun_eq_iff)

lemma phaseOf_fields [simp]:
  "phaseOf (p\<lparr>turnCancel := a\<rparr>) = phaseOf p" "phaseOf (p\<lparr>turnDone := a\<rparr>) = phaseOf p" "phaseOf (p\<lparr>turnListener := a\<rparr>) = phaseOf p"
  "phaseOf (p\<lparr>openListeners := b\<rparr>) = phaseOf p" "phaseOf (p\<lparr>stopsClosing := b\<rparr>) = phaseOf p" "phaseOf (p\<lparr>addrPublished := a\<rparr>) = phaseOf p"
  by (simp_all add: phaseOf_def fun_eq_iff)

lemma goTo_fields [simp]:
  "turnCancel (goTo ph i p) = turnCancel p" "turnDone (goTo ph i p) = turnDone p" "turnListener (goTo ph i p) = turnListener p"
  "openListeners (goTo ph i p) = openListeners p" "stopsClosing (goTo ph i p) = stopsClosing p"
  "length (starts (goTo ph i p)) = length (starts p)" "alive (goTo ph i p) = alive p"
  by (auto simp: goTo_def setStart_def alive_def fun_eq_iff startOver_def nth_updated)

lemma phaseOf_goTo [simp]: "i < length (starts p) \<Longrightarrow> phaseOf (goTo ph i p) j = (if j = i then ph else phaseOf p j)"
  by (simp add: goTo_def setStart_def phaseOf_def)

lemma cancelStart_fields [simp]:
  "turnCancel (cancelStart who p) = turnCancel p" "turnDone (cancelStart who p) = turnDone p"
  "turnListener (cancelStart who p) = turnListener p" "openListeners (cancelStart who p) = openListeners p"
  "stopsClosing (cancelStart who p) = stopsClosing p" "length (starts (cancelStart who p)) = length (starts p)"
  "phaseOf (cancelStart who p) = phaseOf p"
  by (auto simp: cancelStart_def setStart_def phaseOf_def fun_eq_iff nth_updated split: option.splits)

lemma alive_cancelStart [simp]: "alive (cancelStart who p) i \<longleftrightarrow> alive p i \<and> who \<noteq> Some i"
  by (auto simp: cancelStart_def setStart_def alive_def startOver_def nth_updated split: option.splits)

lemma closeListener_fields [simp]:
  "turnCancel (closeListener who p) = turnCancel p" "turnDone (closeListener who p) = turnDone p"
  "turnListener (closeListener who p) = turnListener p" "stopsClosing (closeListener who p) = stopsClosing p"
  "starts (closeListener who p) = starts p" "alive (closeListener who p) = alive p" "phaseOf (closeListener who p) = phaseOf p"
  "i \<in> set (openListeners (closeListener who p)) \<longleftrightarrow> i \<in> set (openListeners p) \<and> who \<noteq> Some i"
  by (auto simp: closeListener_def alive_def phaseOf_def fun_eq_iff split: option.splits)

lemma working_simps [simp]:
  "working StartClaimed" "working StartReset" "working StartListening" "working StartFetched" "working StartLaunched" "working StartPublished"
  "\<not> working StartBegun" "working (StartReturned c) \<longleftrightarrow> c = 0"
  by (simp_all add: working_def)

lemma inPhaseD: "inPhase ph i p \<Longrightarrow> i < length (starts p) \<and> phaseOf p i = ph"
  by (simp add: inPhase_def phaseOf_def)

lemma alive_iff: "i < length (starts p) \<Longrightarrow> startOver (starts p ! i) \<longleftrightarrow> \<not> alive p i"
  by (simp add: alive_def)

lemma prefetchCode_negative: "prefetchCode over outs = Some c \<Longrightarrow> c < 0"
  by (auto simp: prefetchCode_def split: if_splits)

lemma startTimeoutCode_negative: "startTimeoutCode creds heard carried < 0"
  by (simp add: startTimeoutCode_def startVKUnreachable_def startRelaysCarryNothing_def)

text \<open>Each step keeps it.\<close>

lemma goTo_keeps:
  assumes h: "startHolds tr p" and i: "i < length (starts p)"
    and w: "alive p i \<and> working ph \<longrightarrow> turnCancel p = Some i"
    and d: "alive p i \<and> (ph = StartPublished \<or> ph = StartReturned 0) \<longrightarrow> turnDone p = Some i"
  shows "startHolds tr' (goTo ph i p)"
proof (rule startHoldsI)
  fix j assume "alive (goTo ph i p) j"
    "working (phaseOf (goTo ph i p) j) \<or> j \<in> set (openListeners (goTo ph i p)) \<or> turnListener (goTo ph i p) = Some j"
  then show "turnCancel (goTo ph i p) = Some j" using startHoldsD(1) [OF h, of j] w i by (cases "j = i") auto
next
  fix j assume "alive (goTo ph i p) j" "phaseOf (goTo ph i p) j = StartPublished \<or> phaseOf (goTo ph i p) j = StartReturned 0"
  then show "turnDone (goTo ph i p) = Some j" using startHoldsD(3) [OF h, of j] d i by (cases "j = i") auto
qed (use startHoldsD(2) [OF h] in simp)

lemma cancelStart_keeps:
  assumes h: "startHolds tr p"
  shows "startHolds tr' (cancelStart who p)"
  by (rule startHoldsI) (use startHoldsD(1,2,3) [OF h] in simp_all)

lemma close_keeps:
  assumes h: "startHolds tr p"
  shows "startHolds tr' (closeListener who p)"
proof (rule startHoldsI)
  fix j assume "alive (closeListener who p) j"
    "working (phaseOf (closeListener who p) j) \<or> j \<in> set (openListeners (closeListener who p)) \<or> turnListener (closeListener who p) = Some j"
  then show "turnCancel (closeListener who p) = Some j" using startHoldsD(1) [OF h, of j] by auto
next
  fix j assume "turnCancel (closeListener who p) = Some j \<or> turnListener (closeListener who p) = Some j
    \<or> j \<in> set (openListeners (closeListener who p)) \<or> j \<in> set (stopsClosing (closeListener who p))"
  then show "j < length (starts (closeListener who p))" using startHoldsD(2) [OF h, of j] by auto
next
  fix j assume "alive (closeListener who p) j" "phaseOf (closeListener who p) j = StartPublished \<or> phaseOf (closeListener who p) j = StartReturned 0"
  then show "turnDone (closeListener who p) = Some j" using startHoldsD(3) [OF h, of j] by simp
qed

lemma claimStart_keeps:
  assumes h: "startHolds tr p" and i: "inPhase StartBegun i p"
  shows "startHolds tr' (claimStart i p)"
proof (cases "startParentOver (starts p ! i)")
  case True
  then show ?thesis using h inPhaseD [OF i] by (simp add: claimStart_def goTo_keeps)
next
  case False
  let ?p = "closeListener (turnListener p) (cancelStart (turnCancel p) p)"
  have k: "startHolds tr ?p" using close_keeps [OF cancelStart_keeps [OF h]] .
  have n: "alive ?p j \<Longrightarrow> \<not> working (phaseOf ?p j) \<and> j \<notin> set (openListeners ?p)" for j
    using startHoldsD(1) [OF h, of j] by auto
  show ?thesis unfolding claimStart_def Let_def if_not_P [OF False]
    by (rule startHoldsI) (use startHoldsD [OF k] n inPhaseD [OF i] in \<open>auto split: if_splits\<close>)
qed

lemma bindStart_keeps:
  assumes h: "startHolds tr p" and i: "inPhase StartReset i p"
  shows "startHolds tr' (bindStart bound cert i p)"
proof (cases bound)
  case False
  then show ?thesis using h inPhaseD [OF i] by (simp add: bindStart_def goTo_keeps)
next
  case True
  have c: "alive p i \<Longrightarrow> turnCancel p = Some i" using startHoldsD(1) [OF h, of i] inPhaseD [OF i] by simp
  let ?p = "p\<lparr>openListeners := i # openListeners p, turnListener := Some i, addrPublished := Some i\<rparr>"
  have k: "startHolds tr ?p"
    by (rule startHoldsI) (use startHoldsD [OF h] c inPhaseD [OF i] in auto)
  show ?thesis unfolding bindStart_def Let_def using True
    by (simp add: goTo_keeps [OF k] inPhaseD [OF i] c)
qed

lemma fetchStart_keeps:
  assumes h: "startHolds tr p" and i: "inPhase StartListening i p"
  shows "startHolds tr' (fetchStart outs i p)"
proof -
  have c: "alive p i \<Longrightarrow> turnCancel p = Some i" using startHoldsD(1) [OF h, of i] inPhaseD [OF i] by simp
  show ?thesis
  proof (cases "prefetchCode (startOver (starts p ! i)) outs")
    case None
    then show ?thesis using c inPhaseD [OF i] by (simp add: fetchStart_def goTo_keeps [OF h])
  next
    case (Some r)
    have "r \<noteq> 0" using prefetchCode_negative [OF Some] by simp
    then show ?thesis using Some inPhaseD [OF i] by (simp add: fetchStart_def goTo_keeps [OF h] goTo_keeps [OF cancelStart_keeps [OF h]])
  qed
qed

lemma launchStart_keeps:
  assumes h: "startHolds tr p" and i: "inPhase StartFetched i p"
  shows "startHolds tr' (launchStart ok i p)"
proof -
  have c: "alive p i \<Longrightarrow> turnCancel p = Some i" using startHoldsD(1) [OF h, of i] inPhaseD [OF i] by simp
  then show ?thesis using inPhaseD [OF i]
    by (simp add: launchStart_def goTo_keeps [OF h] goTo_keeps [OF cancelStart_keeps [OF h]])
qed

lemma publishStart_keeps:
  assumes h: "startHolds tr p" and i: "inPhase StartLaunched i p"
  shows "startHolds tr' (publishStart i p)"
proof (cases "alive p i")
  case True
  have c: "turnCancel p = Some i" using startHoldsD(1) [OF h True] inPhaseD [OF i] by simp
  have o: "\<lbrakk>alive p j; working (phaseOf p j)\<rbrakk> \<Longrightarrow> j = i" for j using startHoldsD(1) [OF h, of j] c by simp
  have k: "startHolds tr (p\<lparr>turnDone := Some i\<rparr>)"
    by (rule startHoldsI) (use startHoldsD [OF h] o in \<open>auto dest: o\<close>)
  show ?thesis using True c inPhaseD [OF i] by (simp add: publishStart_def alive_iff goTo_keeps [OF k])
next
  case False
  then show ?thesis using inPhaseD [OF i] by (simp add: publishStart_def alive_iff goTo_keeps [OF h])
qed

lemma endStart_keeps:
  assumes h: "startHolds tr p" and i: "inPhase StartPublished i p"
  shows "startHolds tr' (endStart e i p)"
proof -
  have c: "alive p i \<Longrightarrow> turnCancel p = Some i" "alive p i \<Longrightarrow> turnDone p = Some i"
    using startHoldsD(1,3) [OF h, of i] inPhaseD [OF i] by simp_all
  show ?thesis
  proof (cases e)
    case (StartTimedOut a b d)
    have "startTimeoutCode a b d \<noteq> 0" using startTimeoutCode_negative [of a b d] by simp
    then show ?thesis using StartTimedOut inPhaseD [OF i]
      by (simp add: endStart_def startEndCode_def goTo_keeps [OF cancelStart_keeps [OF h]])
  qed (use c inPhaseD [OF i] startHolds_any [OF h] in \<open>simp_all add: endStart_def startEndCode_def goTo_keeps [OF h]\<close>)
qed

lemma stopTakes_keeps:
  assumes h: "startHolds tr p"
  shows "startHolds tr' (stopTakes p)"
proof (rule startHoldsI)
  fix j assume a: "alive (stopTakes p) j"
    "working (phaseOf (stopTakes p) j) \<or> j \<in> set (openListeners (stopTakes p)) \<or> turnListener (stopTakes p) = Some j"
  then show "turnCancel (stopTakes p) = Some j" using startHoldsD(1) [OF h, of j] by (auto simp: stopTakes_def)
next
  fix j assume "turnCancel (stopTakes p) = Some j \<or> turnListener (stopTakes p) = Some j
    \<or> j \<in> set (openListeners (stopTakes p)) \<or> j \<in> set (stopsClosing (stopTakes p))"
  then show "j < length (starts (stopTakes p))" using startHoldsD(2) [OF h, of j] by (auto simp: stopTakes_def split: option.splits)
next
  fix j assume "alive (stopTakes p) j" "phaseOf (stopTakes p) j = StartPublished \<or> phaseOf (stopTakes p) j = StartReturned 0"
  then show "turnDone (stopTakes p) = Some j" using startHoldsD(1) [OF h, of j] by (auto simp: stopTakes_def)
qed

lemma comes_keeps:
  assumes h: "startHolds tr p"
  shows "startHolds tr' (p\<lparr>starts := starts p @ [\<lparr>startParentOver = False, startCancelled = False, startPhase = StartBegun\<rparr>]\<rparr>)"
    (is "startHolds _ ?p")
proof -
  have old: "\<lbrakk>j < length (starts ?p); j \<noteq> length (starts p)\<rbrakk> \<Longrightarrow> alive ?p j = alive p j \<and> phaseOf ?p j = phaseOf p j" for j
    by (simp add: alive_def phaseOf_def nth_append)
  have new: "phaseOf ?p (length (starts p)) = StartBegun" by (simp add: phaseOf_def)
  show ?thesis
  proof (rule startHoldsI)
    fix j assume a: "alive ?p j" "working (phaseOf ?p j) \<or> j \<in> set (openListeners ?p) \<or> turnListener ?p = Some j"
    then have "j < length (starts ?p)" by (simp add: alive_def)
    moreover have "j \<noteq> length (starts p)" using a(2) new startHoldsD(2) [OF h, of j] by auto
    ultimately show "turnCancel ?p = Some j" using a old [of j] startHoldsD(1) [OF h, of j] by simp
  next
    fix j assume a: "alive ?p j" "phaseOf ?p j = StartPublished \<or> phaseOf ?p j = StartReturned 0"
    then have "j < length (starts ?p)" "j \<noteq> length (starts p)" using new by (auto simp: alive_def)
    then show "turnDone ?p = Some j" using a old [of j] startHoldsD(3) [OF h, of j] by simp
  next
    fix j assume "turnCancel ?p = Some j \<or> turnListener ?p = Some j \<or> j \<in> set (openListeners ?p) \<or> j \<in> set (stopsClosing ?p)"
    then show "j < length (starts ?p)" using startHoldsD(2) [OF h, of j] by auto
  qed
qed

lemma parentEnds_keeps:
  assumes h: "startHolds tr p"
  shows "startHolds tr' (setStart i (startParentOver_update (\<lambda>_. True)) p)" (is "startHolds _ ?p")
proof -
  have a: "alive ?p j \<Longrightarrow> alive p j" for j by (auto simp: alive_def startOver_def setStart_def nth_updated split: if_splits)
  have f: "phaseOf ?p j = phaseOf p j" for j by (simp add: phaseOf_def setStart_def nth_updated)
  show ?thesis
    by (rule startHoldsI) (use startHoldsD [OF h] a f in \<open>auto simp: setStart_def\<close>)
qed

lemma stopCloses_keeps:
  assumes h: "startHolds tr p"
  shows "startHolds tr' (stopCloses p)"
proof (cases "stopsClosing p")
  case Nil
  then show ?thesis using startHolds_any [OF h] by (simp add: stopCloses_def)
next
  case (Cons i more)
  have k: "startHolds tr (closeListener (Some i) p)" by (rule close_keeps [OF h])
  have "startHolds tr' ((closeListener (Some i) p)\<lparr>stopsClosing := more\<rparr>)"
  proof (rule startHoldsI)
    fix j let ?p = "(closeListener (Some i) p)\<lparr>stopsClosing := more\<rparr>"
    assume "turnCancel ?p = Some j \<or> turnListener ?p = Some j \<or> j \<in> set (openListeners ?p) \<or> j \<in> set (stopsClosing ?p)"
    then show "j < length (starts ?p)" using startHoldsD(2) [OF k, of j] startHoldsD(2) [OF h, of j] Cons by auto
  qed (use startHoldsD(1,3) [OF k] in simp_all)
  then show ?thesis using Cons by (simp add: stopCloses_def)
qed

lemma startStep_keeps:
  assumes h: "startHolds tr p" and s: "startStep q p = (calls, p')"
  shows "startHolds (tr @ [(q, calls)]) p'"
proof -
  note keep = claimStart_keeps [OF h] bindStart_keeps [OF h] fetchStart_keeps [OF h] launchStart_keeps [OF h] publishStart_keeps [OF h]
    endStart_keeps [OF h] stopTakes_keeps [OF h] stopCloses_keeps [OF h] comes_keeps [OF h] parentEnds_keeps [OF h] close_keeps [OF h]
    startHolds_any [OF h]
  have g: "startHolds tr' (goTo (StartReturned (- 1)) i p)" if "inPhase StartBegun i p" for i tr'
    using inPhaseD [OF that] by (intro goTo_keeps [OF h]) simp_all
  have r: "startHolds tr' (goTo StartReset i p)" if "inPhase StartClaimed i p" for i tr'
    using inPhaseD [OF that] startHoldsD(1) [OF h, of i] by (intro goTo_keeps [OF h]) simp_all
  have "startHolds tr' (snd (startStep q p))" for tr' by (cases q) (auto simp: startStep_def keep g r)
  then show ?thesis using s by simp
qed

interpretation starts: traced startStep startHolds "\<lambda>_. True"
  by unfold_locales (rule startStep_keeps)

lemma newProcess_holds: "startHolds [] newProxyProcess"
  by (simp add: startHolds_def newProxyProcess_def alive_def)

text \<open>
  C23. However starts claim, bind, fetch and launch, are cancelled, return and are stopped, in whatever order their steps come: at most one start
  is at work with its context alive, it is the one the process would cancel, and once its groups are published it is the one whose end a
  stop waits for; after a stop none is. Of the listeners none but its own is open, once those whose context has ended are closed.
\<close>

theorem one_start_is_at_work:
  assumes "traceRun startStep qs newProxyProcess = (tr, p)"
  shows "(\<forall>i. alive p i \<and> working (phaseOf p i) \<longrightarrow> turnCancel p = Some i
      \<and> (phaseOf p i = StartPublished \<or> phaseOf p i = StartReturned 0 \<longrightarrow> turnDone p = Some i))
    \<and> (\<forall>i. \<not> (alive (stopTakes p) i \<and> working (phaseOf (stopTakes p) i)))
    \<and> ((\<forall>i \<in> set (openListeners p). alive p i) \<longrightarrow> (\<forall>i \<in> set (openListeners p). turnCancel p = Some i))"
proof (intro conjI)
  have h: "startHolds tr p" using starts.run_establishes [OF assms newProcess_holds] by simp
  show "\<forall>i. alive p i \<and> working (phaseOf p i) \<longrightarrow> turnCancel p = Some i
      \<and> (phaseOf p i = StartPublished \<or> phaseOf p i = StartReturned 0 \<longrightarrow> turnDone p = Some i)"
    using startHoldsD(1,3) [OF h] by blast
  show "\<forall>i. \<not> (alive (stopTakes p) i \<and> working (phaseOf (stopTakes p) i))"
    using startHoldsD(1) [OF stopTakes_keeps [OF h]] by (force simp: stopTakes_def)
  show "(\<forall>i \<in> set (openListeners p). alive p i) \<longrightarrow> (\<forall>i \<in> set (openListeners p). turnCancel p = Some i)"
    using startHoldsD(1) [OF h] by blast
qed

text \<open>A start runs, the transport is restarted, and the second start comes up.\<close>

definition restartRun :: "startOp list" where
  "restartRun = [StartComes, StartClaims 0 True, StartResets 0 False, StartBinds 0 True True, StartParentEnds 0, StopTakes, StopCloses,
     StartComes, StartClaims 1 True, StartResets 1 True, StartBinds 1 True True, StartFetches 0 [PrefetchOk], StartFetches 1 [PrefetchOk],
     StartLaunches 1 True, StartPublishes 1, StartEnds 1 FirstStreamReady]"

lemma restartRun_ends:
  "case traceRun startStep restartRun newProxyProcess of (tr, p) \<Rightarrow>
    alive p 1 \<and> phaseOf p 1 = StartReturned 0 \<and> phaseOf p 0 = StartReturned (- 1) \<and> openListeners p = [1]"
  by code_simp

lemma one_start_is_at_work_witness:
  "\<exists>tr p. traceRun startStep restartRun newProxyProcess = (tr, p) \<and> phaseOf p 1 = StartReturned 0 \<and> turnCancel p = Some 1
    \<and> turnDone p = Some 1 \<and> \<not> alive (stopTakes p) 1"
proof -
  obtain tr p where t: "traceRun startStep restartRun newProxyProcess = (tr, p)" by fastforce
  have r: "alive p 1" "phaseOf p 1 = StartReturned 0" using restartRun_ends unfolding t by simp_all
  note c = one_start_is_at_work [OF t]
  have a: "turnCancel p = Some 1 \<and> turnDone p = Some 1" using spec [OF conjunct1 [OF c], of 1] r by simp
  have "phaseOf (stopTakes p) 1 = StartReturned 0" using r(2) by (simp add: stopTakes_def)
  then have "\<not> alive (stopTakes p) 1" using spec [OF conjunct1 [OF conjunct2 [OF c]], of 1] by simp
  then show ?thesis using t r(2) a by (intro exI conjI) simp_all
qed

text \<open>
  What does not hold: a start that was cancelled while it resolved its peer still binds, takes the place of the running one's listener and
  publishes its own address over it.
\<close>

lemma late_bind_takes_the_listener:
  "case traceRun startStep [StartComes, StartClaims 0 True, StartResets 0 False, StartParentEnds 0, StopTakes, StartComes, StartClaims 1 True,
      StartResets 1 True, StartBinds 1 True True, StartBinds 0 True True, StartFetches 0 [PrefetchOk]] newProxyProcess of (tr, p) \<Rightarrow>
    alive p 1 \<and> \<not> alive p 0 \<and> turnListener p = Some 0 \<and> addrPublished p = Some 0 \<and> phaseOf p 0 = StartReturned (- 1)"
  by code_simp

text \<open>The codes: only a stream that is ready is success, and each refusal has its own.\<close>

lemma start_codes:
  "startEndCode e = 0 \<longleftrightarrow> e = FirstStreamReady"
  "prefetchCode over outs = Some (- 2) \<longleftrightarrow> \<not> over \<and> (\<exists>e. PrefetchFailed e \<in> set outs \<and> requiresAuth e)"
  "prefetchCode over outs = Some (- 4) \<longleftrightarrow> \<not> over \<and> (\<forall>e. PrefetchFailed e \<in> set outs \<longrightarrow> \<not> requiresAuth e)
     \<and> PrefetchOk \<notin> set outs \<and> (\<exists>e. PrefetchFailed e \<in> set outs \<and> callGone e)"
proof -
  show "startEndCode e = 0 \<longleftrightarrow> e = FirstStreamReady"
    using startTimeoutCode_negative by (cases e) (auto simp: startEndCode_def less_le)
  have b: "(\<exists>x \<in> set outs. case x of PrefetchFailed e \<Rightarrow> P e | PrefetchOk \<Rightarrow> False) \<longleftrightarrow> (\<exists>e. PrefetchFailed e \<in> set outs \<and> P e)" for P
    by (metis (no_types, lifting) prefetchOutcome.case prefetchOutcome.exhaust)
  show "prefetchCode over outs = Some (- 2) \<longleftrightarrow> \<not> over \<and> (\<exists>e. PrefetchFailed e \<in> set outs \<and> requiresAuth e)"
    "prefetchCode over outs = Some (- 4) \<longleftrightarrow> \<not> over \<and> (\<forall>e. PrefetchFailed e \<in> set outs \<longrightarrow> \<not> requiresAuth e)
     \<and> PrefetchOk \<notin> set outs \<and> (\<exists>e. PrefetchFailed e \<in> set outs \<and> callGone e)"
    by (auto simp: prefetchCode_def b)
qed

end
