(* ===== verification/RelayRace.thy ===== *)
theory RelayRace
  imports Errors Traces
begin

text \<open>
  The race of an attempt over its relays (\<open>runWithCreds\<close> of \<open>stream_run_with_creds.go\<close>): the first relay is dialled alone; when it fails, or over
  TCP when its head start has run out, the rest are dialled all at once, and the first to allocate takes the session. The dials run in
  goroutines of their own: that one fails or allocates is a step, and so is each turn of the loop's select. Relays are known by their place
  in the order of the attempt.
\<close>

section \<open>The race\<close>

definition relayHeadStart :: duration where "relayHeadStart = 1200 * millisecond"
declare relayHeadStart_def [go_consts]

datatype candPhase = CandWaits | CandDials | CandFailed | CandWon | CandLost

datatype raceLoop = RaceOn | RaceSession nat | RaceLost goError | RaceLeft

type_synonym relayFailure = "nat \<times> goError \<times> gtime"

record relayRace =
  raceAddrs :: "string list"
  raceOverTCP :: bool
  candidates :: "candPhase list"
  raceFanned :: bool
  headStartRuns :: bool
  headSlot :: bool                 \<comment> \<open>the first dial holds a slot that can be given up\<close>
  connectingQ :: bool
  allocatingQ :: bool
  failureQ :: "relayFailure list"
  winnerQ :: "nat option"
  raceClaimed :: bool
  raceFailures :: "relayFailure list"
  raceLoop :: raceLoop
  allocsOpen :: "nat list"

definition newRelayRace :: "string list \<Rightarrow> bool \<Rightarrow> relayRace" where
  "newRelayRace addrs overTCP = \<lparr>raceAddrs = addrs, raceOverTCP = overTCP,
     candidates = CandDials # replicate (length addrs - 1) CandWaits, raceFanned = (length addrs = 1), headStartRuns = False, headSlot = False,
     connectingQ = False, allocatingQ = False, failureQ = [], winnerQ = None, raceClaimed = False, raceFailures = [], raceLoop = RaceOn,
     allocsOpen = []\<rparr>"

definition fanOut :: "relayRace \<Rightarrow> relayRace" where
  "fanOut r = (if raceFanned r then r
     else r\<lparr>candidates := map (\<lambda>c. if c = CandWaits then CandDials else c) (candidates r), raceFanned := True\<rparr>)"

definition launchedCount :: "relayRace \<Rightarrow> nat" where
  "launchedCount r = length (filter (\<lambda>c. c \<noteq> CandWaits) (candidates r))"

definition candIs :: "candPhase \<Rightarrow> nat \<Rightarrow> relayRace \<Rightarrow> bool" where
  "candIs c i r \<longleftrightarrow> i < length (candidates r) \<and> candidates r ! i = c"

text \<open>A dial that ends: its error goes to the loop; its allocation wins, or is closed if another has won.\<close>

definition candFails :: "nat \<Rightarrow> goError \<Rightarrow> gtime \<Rightarrow> relayRace \<Rightarrow> relayRace" where
  "candFails i e t r = r\<lparr>candidates := (candidates r)[i := CandFailed], failureQ := failureQ r @ [(i, e, t)]\<rparr>"

definition candAllocates :: "nat \<Rightarrow> relayRace \<Rightarrow> relayRace" where
  "candAllocates i r =
    (if raceClaimed r then r\<lparr>candidates := (candidates r)[i := CandLost]\<rparr>
     else r\<lparr>candidates := (candidates r)[i := CandWon], raceClaimed := True, winnerQ := Some i, allocsOpen := i # allocsOpen r\<rparr>)"

text \<open>The turns of the loop.\<close>

definition startHeadStart :: "relayRace \<Rightarrow> relayRace" where
  "startHeadStart r = (if raceFanned r then r else r\<lparr>headStartRuns := True\<rparr>)"

datatype raceCall = GivesSlotUp

definition headStartOver :: "relayRace \<Rightarrow> raceCall list \<times> relayRace" where
  "headStartOver r =
    (let r = r\<lparr>headStartRuns := False\<rparr>
     in if raceFanned r then ([], r) else (if headSlot r then [GivesSlotUp] else [], fanOut r))"

definition raceError :: "relayRace \<Rightarrow> goError" where
  "raceError r = newRaceError (map (\<lambda>(i, e, t). Attempt (raceAddrs r ! i) e t) (raceFailures r))"

definition takeFailure :: "relayFailure \<Rightarrow> relayRace \<Rightarrow> relayRace" where
  "takeFailure f r =
    (let r = r\<lparr>raceFailures := raceFailures r @ [f]\<rparr>
     in if \<not> raceFanned r then fanOut r
        else if length (raceFailures r) = launchedCount r then r\<lparr>raceLoop := RaceLost (raceError r)\<rparr>
        else r)"

text \<open>When all dials have ended the one left behind is closed.\<close>

definition reapRace :: "relayRace \<Rightarrow> relayRace" where
  "reapRace r = (case winnerQ r of None \<Rightarrow> r | Some w \<Rightarrow> r\<lparr>winnerQ := None, allocsOpen := removeAll w (allocsOpen r)\<rparr>)"

datatype raceOp =
    DialFails nat goError gtime | DialAllocates nat | HeadConnecting | HeadAllocating
  | TakesWinner | TakesConnecting | TakesAllocating | HeadStartEnds | TakesFailure | ContextEnds | Reaps

definition raceStep :: "raceOp \<Rightarrow> relayRace \<Rightarrow> raceCall list \<times> relayRace" where
  "raceStep q r = (case q of
     DialFails i e t \<Rightarrow> ([], if candIs CandDials i r then candFails i e t r else r)
   | DialAllocates i \<Rightarrow> ([], if candIs CandDials i r then candAllocates i r else r)
   | HeadConnecting \<Rightarrow> ([], if raceOverTCP r \<and> candIs CandDials 0 r then r\<lparr>connectingQ := True\<rparr> else r)
   | HeadAllocating \<Rightarrow> ([], if raceOverTCP r \<and> candIs CandDials 0 r then r\<lparr>allocatingQ := True\<rparr> else r)
   | TakesWinner \<Rightarrow> ([], case winnerQ r of
       Some w \<Rightarrow> if raceLoop r = RaceOn then r\<lparr>winnerQ := None, raceLoop := RaceSession w\<rparr> else r
     | None \<Rightarrow> r)
   | TakesConnecting \<Rightarrow> ([], if raceLoop r = RaceOn \<and> connectingQ r then startHeadStart (r\<lparr>connectingQ := False\<rparr>) else r)
   | TakesAllocating \<Rightarrow>
       ([], if raceLoop r = RaceOn \<and> allocatingQ r then startHeadStart (r\<lparr>allocatingQ := False, headSlot := True\<rparr>) else r)
   | HeadStartEnds \<Rightarrow> if raceLoop r = RaceOn \<and> headStartRuns r then headStartOver r else ([], r)
   | TakesFailure \<Rightarrow> ([], case failureQ r of
       f # fs \<Rightarrow> if raceLoop r = RaceOn then takeFailure f (r\<lparr>failureQ := fs\<rparr>) else r
     | [] \<Rightarrow> r)
   | ContextEnds \<Rightarrow> ([], if raceLoop r = RaceOn then r\<lparr>raceLoop := RaceLeft\<rparr> else r)
   | Reaps \<Rightarrow> ([], if raceLoop r = RaceLeft \<and> CandDials \<notin> set (candidates r) then reapRace r else r))"

section \<open>What every race keeps\<close>

definition failedAt :: "relayRace \<Rightarrow> nat list" where
  "failedAt r = map fst (raceFailures r @ failureQ r)"

definition shapeHolds :: "relayRace \<Rightarrow> bool" where
  "shapeHolds r \<longleftrightarrow> length (candidates r) = length (raceAddrs r) \<and> 0 < length (raceAddrs r) \<and> \<not> candIs CandWaits 0 r
     \<and> (raceFanned r \<longrightarrow> (\<forall>i. \<not> candIs CandWaits i r))
     \<and> (\<not> raceFanned r \<longrightarrow> 1 < length (raceAddrs r) \<and> (\<forall>i. 0 < i \<and> i < length (raceAddrs r) \<longrightarrow> candIs CandWaits i r))
     \<and> (headStartRuns r \<or> connectingQ r \<or> allocatingQ r \<longrightarrow> raceOverTCP r)
     \<and> (raceFanned r \<longrightarrow> length (raceAddrs r) = 1 \<or> raceOverTCP r \<or> candIs CandFailed 0 r)"

definition failuresHold :: "relayRace \<Rightarrow> bool" where
  "failuresHold r \<longleftrightarrow> distinct (failedAt r) \<and> (\<forall>i. i \<in> set (failedAt r) \<longleftrightarrow> candIs CandFailed i r)
     \<and> (raceLoop r = RaceOn \<longrightarrow>
          (if raceFanned r then length (raceFailures r) < length (raceAddrs r) else raceFailures r = []))
     \<and> (\<forall>e. raceLoop r = RaceLost e \<longrightarrow> length (raceFailures r) = length (raceAddrs r) \<and> e = raceError r)"

definition winnerHolds :: "relayRace \<Rightarrow> bool" where
  "winnerHolds r \<longleftrightarrow> (\<forall>i j. candIs CandWon i r \<and> candIs CandWon j r \<longrightarrow> i = j) \<and> (raceClaimed r \<longleftrightarrow> (\<exists>i. candIs CandWon i r))
     \<and> (\<forall>i. candIs CandLost i r \<longrightarrow> raceClaimed r)
     \<and> (\<forall>w. winnerQ r = Some w \<longrightarrow> candIs CandWon w r \<and> allocsOpen r = [w] \<and> (\<forall>v. raceLoop r \<noteq> RaceSession v))
     \<and> (\<forall>w. raceLoop r = RaceSession w \<longrightarrow> candIs CandWon w r \<and> allocsOpen r = [w])
     \<and> (winnerQ r = None \<and> (\<forall>w. raceLoop r \<noteq> RaceSession w) \<longrightarrow> allocsOpen r = [] \<and> (raceLoop r = RaceOn \<longrightarrow> \<not> raceClaimed r))"

definition raceHolds :: "(raceOp \<times> raceCall list) list \<Rightarrow> relayRace \<Rightarrow> bool" where
  "raceHolds tr r \<longleftrightarrow> shapeHolds r \<and> failuresHold r \<and> winnerHolds r"

lemma raceHolds_any: "raceHolds tr r \<Longrightarrow> raceHolds tr' r"
  unfolding raceHolds_def .

lemma raceHoldsD: "raceHolds tr r \<Longrightarrow> shapeHolds r" "raceHolds tr r \<Longrightarrow> failuresHold r" "raceHolds tr r \<Longrightarrow> winnerHolds r"
  by (simp_all add: raceHolds_def)

lemma raceHoldsI: "\<lbrakk>shapeHolds r; failuresHold r; winnerHolds r\<rbrakk> \<Longrightarrow> raceHolds tr r"
  by (simp add: raceHolds_def)

text \<open>The phases after a step.\<close>

lemma candIs_cong: "candidates r = candidates r' \<Longrightarrow> candIs c i r = candIs c i r'"
  by (simp add: candIs_def)

lemma candIs_put [simp]:
  "i < length (candidates r) \<Longrightarrow> candIs c j (r\<lparr>candidates := (candidates r)[i := x]\<rparr>) \<longleftrightarrow> (if j = i then c = x else candIs c j r)"
  by (auto simp: candIs_def nth_list_update)

lemma candIs_fields [simp]:
  "candIs c i (r\<lparr>raceFanned := b\<rparr>) = candIs c i r" "candIs c i (r\<lparr>headStartRuns := b\<rparr>) = candIs c i r"
  "candIs c i (r\<lparr>headSlot := b\<rparr>) = candIs c i r" "candIs c i (r\<lparr>connectingQ := b\<rparr>) = candIs c i r"
  "candIs c i (r\<lparr>allocatingQ := b\<rparr>) = candIs c i r" "candIs c i (r\<lparr>failureQ := fs\<rparr>) = candIs c i r"
  "candIs c i (r\<lparr>winnerQ := w\<rparr>) = candIs c i r" "candIs c i (r\<lparr>raceClaimed := b\<rparr>) = candIs c i r"
  "candIs c i (r\<lparr>raceFailures := fs\<rparr>) = candIs c i r" "candIs c i (r\<lparr>raceLoop := l\<rparr>) = candIs c i r"
  "candIs c i (r\<lparr>allocsOpen := os\<rparr>) = candIs c i r"
  by (simp_all add: candIs_def)

lemma candIs_fanOut:
  "candIs c i (fanOut r) \<longleftrightarrow> (if raceFanned r then candIs c i r
     else c \<noteq> CandWaits \<and> (candIs c i r \<or> c = CandDials \<and> candIs CandWaits i r))"
  by (cases c) (auto simp: fanOut_def candIs_def split: if_splits)

lemma fanOut_fields [simp]:
  "raceAddrs (fanOut r) = raceAddrs r" "raceOverTCP (fanOut r) = raceOverTCP r" "raceFanned (fanOut r)"
  "headStartRuns (fanOut r) = headStartRuns r" "headSlot (fanOut r) = headSlot r" "connectingQ (fanOut r) = connectingQ r"
  "allocatingQ (fanOut r) = allocatingQ r" "failureQ (fanOut r) = failureQ r" "winnerQ (fanOut r) = winnerQ r"
  "raceClaimed (fanOut r) = raceClaimed r" "raceFailures (fanOut r) = raceFailures r" "raceLoop (fanOut r) = raceLoop r"
  "allocsOpen (fanOut r) = allocsOpen r" "length (candidates (fanOut r)) = length (candidates r)"
  by (simp_all add: fanOut_def)

lemma candIs_unique: "\<lbrakk>candIs c i r; candIs d i r\<rbrakk> \<Longrightarrow> c = d"
  by (simp add: candIs_def)

lemma candIs_less: "candIs c i r \<Longrightarrow> i < length (candidates r)"
  by (simp add: candIs_def)

lemma raceError_cong: "\<lbrakk>raceFailures r = raceFailures r'; raceAddrs r = raceAddrs r'\<rbrakk> \<Longrightarrow> raceError r = raceError r'"
  by (simp add: raceError_def)

text \<open>What a step leaves alone.\<close>

lemma shape_same:
  assumes "shapeHolds r" "raceAddrs r' = raceAddrs r" "raceOverTCP r' = raceOverTCP r" "raceFanned r' = raceFanned r"
    "length (candidates r') = length (candidates r)" "headStartRuns r' \<or> connectingQ r' \<or> allocatingQ r' \<longrightarrow> raceOverTCP r"
    "\<And>j. candIs CandWaits j r' = candIs CandWaits j r" "candIs CandFailed 0 r \<Longrightarrow> candIs CandFailed 0 r'"
  shows "shapeHolds r'"
  using assms(1,6) assms(8) unfolding shapeHolds_def assms(2-5,7) by blast

lemma failures_same:
  assumes "failuresHold r" "failedAt r' = failedAt r" "raceFailures r' = raceFailures r" "raceAddrs r' = raceAddrs r"
    "raceFanned r' = raceFanned r" "raceLoop r' = raceLoop r" "\<And>j. candIs CandFailed j r' = candIs CandFailed j r"
  shows "failuresHold r'"
  using assms(1) unfolding failuresHold_def assms(2-7) raceError_cong [OF assms(3,4)] by blast

lemma winner_same:
  assumes "winnerHolds r" "winnerQ r' = winnerQ r" "raceClaimed r' = raceClaimed r" "allocsOpen r' = allocsOpen r"
    "raceLoop r' = raceLoop r" "\<And>j. candIs CandWon j r' = candIs CandWon j r" "\<And>j. candIs CandLost j r' \<Longrightarrow> candIs CandLost j r \<or> raceClaimed r"
  shows "winnerHolds r'"
  using assms(1) assms(7) unfolding winnerHolds_def assms(2-6) by blast

text \<open>A dial that fails, and one that allocates.\<close>

lemma candIs_fails [simp]:
  "i < length (candidates r) \<Longrightarrow> candIs c j (candFails i e t r) \<longleftrightarrow> (if j = i then c = CandFailed else candIs c j r)"
  by (simp add: candFails_def)

lemma candFails_fields [simp]:
  "raceAddrs (candFails i e t r) = raceAddrs r" "raceOverTCP (candFails i e t r) = raceOverTCP r"
  "raceFanned (candFails i e t r) = raceFanned r" "length (candidates (candFails i e t r)) = length (candidates r)"
  "headStartRuns (candFails i e t r) = headStartRuns r" "connectingQ (candFails i e t r) = connectingQ r"
  "allocatingQ (candFails i e t r) = allocatingQ r" "winnerQ (candFails i e t r) = winnerQ r" "raceClaimed (candFails i e t r) = raceClaimed r"
  "allocsOpen (candFails i e t r) = allocsOpen r" "raceLoop (candFails i e t r) = raceLoop r" "raceFailures (candFails i e t r) = raceFailures r"
  "failedAt (candFails i e t r) = failedAt r @ [i]"
  by (simp_all add: candFails_def failedAt_def)

lemma shape_heads: "shapeHolds r \<Longrightarrow> headStartRuns r \<or> connectingQ r \<or> allocatingQ r \<longrightarrow> raceOverTCP r"
  unfolding shapeHolds_def by blast

lemma dialling:
  assumes h: "raceHolds tr r" and i: "candIs CandDials i r"
  shows "i < length (candidates r)" "i \<notin> set (failedAt r)" "c \<noteq> CandDials \<Longrightarrow> \<not> candIs c i r"
    "\<lbrakk>candIs c j r; c \<noteq> CandDials\<rbrakk> \<Longrightarrow> j \<noteq> i"
  using raceHoldsD(2) [OF h] candIs_unique [OF i] candIs_less [OF i] unfolding failuresHold_def by blast+

lemma fails_keeps:
  assumes h: "raceHolds tr r" and i: "candIs CandDials i r"
  shows "raceHolds tr' (candFails i e t r)"
proof (rule raceHoldsI)
  note d = dialling [OF h i]
  have e: "raceError (candFails i e t r) = raceError r" by (rule raceError_cong) simp_all
  show "shapeHolds (candFails i e t r)"
    by (rule shape_same [OF raceHoldsD(1) [OF h]]) (use d d(4) [of CandFailed 0] shape_heads [OF raceHoldsD(1) [OF h]] in auto)
  show "winnerHolds (candFails i e t r)" by (rule winner_same [OF raceHoldsD(3) [OF h]]) (use d in \<open>auto split: if_splits\<close>)
  have f: "failuresHold r" using raceHoldsD(2) [OF h] .
  show "failuresHold (candFails i e t r)" unfolding failuresHold_def
  proof (intro conjI)
    show "distinct (failedAt (candFails i e t r))" using f d(2) by (simp add: failuresHold_def)
    show "\<forall>j. j \<in> set (failedAt (candFails i e t r)) \<longleftrightarrow> candIs CandFailed j (candFails i e t r)"
      using f d(1) by (simp add: failuresHold_def)
  qed (use f in \<open>simp_all add: failuresHold_def e\<close>)
qed

lemma candIs_allocates [simp]:
  "i < length (candidates r) \<Longrightarrow>
     candIs c j (candAllocates i r) \<longleftrightarrow> (if j = i then c = (if raceClaimed r then CandLost else CandWon) else candIs c j r)"
  by (simp add: candAllocates_def)

lemma candAllocates_fields [simp]:
  "raceAddrs (candAllocates i r) = raceAddrs r" "raceOverTCP (candAllocates i r) = raceOverTCP r"
  "raceFanned (candAllocates i r) = raceFanned r" "length (candidates (candAllocates i r)) = length (candidates r)"
  "headStartRuns (candAllocates i r) = headStartRuns r" "connectingQ (candAllocates i r) = connectingQ r"
  "allocatingQ (candAllocates i r) = allocatingQ r" "raceClaimed (candAllocates i r)" "raceLoop (candAllocates i r) = raceLoop r"
  "raceFailures (candAllocates i r) = raceFailures r" "failedAt (candAllocates i r) = failedAt r"
  "winnerQ (candAllocates i r) = (if raceClaimed r then winnerQ r else Some i)"
  "allocsOpen (candAllocates i r) = (if raceClaimed r then allocsOpen r else i # allocsOpen r)"
  by (simp_all add: candAllocates_def failedAt_def)

lemma allocates_keeps:
  assumes h: "raceHolds tr r" and i: "candIs CandDials i r"
  shows "raceHolds tr' (candAllocates i r)"
proof (rule raceHoldsI)
  note d = dialling [OF h i]
  show "shapeHolds (candAllocates i r)"
    by (rule shape_same [OF raceHoldsD(1) [OF h]]) (use d d(4) [of CandFailed 0] shape_heads [OF raceHoldsD(1) [OF h]] in auto)
  show "failuresHold (candAllocates i r)" by (rule failures_same [OF raceHoldsD(2) [OF h]]) (use d in auto)
  have w: "winnerHolds r" using raceHoldsD(3) [OF h] .
  show "winnerHolds (candAllocates i r)"
  proof (cases "raceClaimed r")
    case True
    show ?thesis by (rule winner_same [OF w]) (use d True in \<open>auto split: if_splits\<close>)
  next
    case False
    have n: "\<not> candIs CandWon j r" for j using w False unfolding winnerHolds_def by blast
    have q: "winnerQ r = None" using w n by (cases "winnerQ r") (auto simp: winnerHolds_def)
    have l: "raceLoop r \<noteq> RaceSession v" for v using w n unfolding winnerHolds_def by blast
    have o: "allocsOpen r = []" using w q l unfolding winnerHolds_def by blast
    show ?thesis unfolding winnerHolds_def using d(1) False n l o by simp
  qed
qed

text \<open>The rest dialled.\<close>

lemma fanOut_shape:
  assumes s: "shapeHolds r" and w: "length (raceAddrs r) = 1 \<or> raceOverTCP r \<or> candIs CandFailed 0 r"
  shows "shapeHolds (fanOut r)"
  using s w unfolding shapeHolds_def by (simp add: candIs_fanOut)

lemma fanOut_winner: "winnerHolds r \<Longrightarrow> winnerHolds (fanOut r)"
  by (rule winner_same) (auto simp: candIs_fanOut split: if_splits)

lemma failedAt_fanOut [simp]: "failedAt (fanOut r) = failedAt r"
  by (simp add: failedAt_def)

lemma launched_all:
  assumes "shapeHolds r" "raceFanned r"
  shows "launchedCount r = length (raceAddrs r)"
proof -
  have "\<forall>c \<in> set (candidates r). c \<noteq> CandWaits" using assms unfolding shapeHolds_def candIs_def by (metis in_set_conv_nth)
  then show ?thesis using assms(1) by (simp add: launchedCount_def shapeHolds_def)
qed

lemma headStart_keeps:
  assumes h: "raceHolds tr r" and l: "raceLoop r = RaceOn" "headStartRuns r"
  shows "raceHolds tr' (snd (headStartOver r))"
proof -
  let ?r = "r\<lparr>headStartRuns := False\<rparr>"
  have s: "shapeHolds ?r" by (rule shape_same [OF raceHoldsD(1) [OF h]]) (use shape_heads [OF raceHoldsD(1) [OF h]] in auto)
  have f: "failuresHold ?r" by (rule failures_same [OF raceHoldsD(2) [OF h]]) (simp_all add: failedAt_def)
  have w: "winnerHolds ?r" by (rule winner_same [OF raceHoldsD(3) [OF h]]) simp_all
  have t: "raceOverTCP r" using shape_heads [OF raceHoldsD(1) [OF h]] l(2) by simp
  show ?thesis
  proof (cases "raceFanned r")
    case True
    then show ?thesis using raceHoldsI [OF s f w] by (simp add: headStartOver_def)
  next
    case False
    have n: "1 < length (raceAddrs r)" "raceFailures r = []"
      using raceHoldsD(1,2) [OF h] False l(1) unfolding shapeHolds_def failuresHold_def by simp_all
    have "raceAddrs r \<noteq> []" using n(1) by auto
    then have "failuresHold (fanOut ?r)"
      using f n l(1) False unfolding failuresHold_def by (simp add: candIs_fanOut)
    then have "raceHolds tr' (fanOut ?r)" using fanOut_shape [OF s] fanOut_winner [OF w] t by (intro raceHoldsI) simp_all
    then show ?thesis using False by (simp add: headStartOver_def Let_def)
  qed
qed

text \<open>A failure taken.\<close>

lemma takeFailure_keeps:
  assumes h: "raceHolds tr r" and l: "raceLoop r = RaceOn" "failureQ r = f # fs"
  shows "raceHolds tr' (takeFailure f (r\<lparr>failureQ := fs\<rparr>))"
proof -
  let ?r = "r\<lparr>failureQ := fs, raceFailures := raceFailures r @ [f]\<rparr>"
  have at: "failedAt ?r = failedAt r" using l(2) by (simp add: failedAt_def)
  have s: "shapeHolds ?r" by (rule shape_same [OF raceHoldsD(1) [OF h]]) (use shape_heads [OF raceHoldsD(1) [OF h]] in auto)
  have w: "winnerHolds ?r" by (rule winner_same [OF raceHoldsD(3) [OF h]]) simp_all
  have f: "failuresHold r" using raceHoldsD(2) [OF h] .
  have d: "distinct (failedAt ?r)" "\<forall>i. i \<in> set (failedAt ?r) \<longleftrightarrow> candIs CandFailed i r" using f unfolding at failuresHold_def by blast+
  show ?thesis
  proof (cases "raceFanned r")
    case False
    have n: "1 < length (raceAddrs r)" "raceFailures r = []"
      using raceHoldsD(1) [OF h] f False l(1) unfolding shapeHolds_def failuresHold_def by simp_all
    have "fst f \<in> set (failedAt r)" using l(2) by (simp add: failedAt_def)
    then have c: "candIs CandFailed (fst f) r" using f unfolding failuresHold_def by blast
    have "fst f = 0"
    proof (rule ccontr)
      assume "fst f \<noteq> 0"
      then have "candIs CandWaits (fst f) r"
        using raceHoldsD(1) [OF h] False candIs_less [OF c] unfolding shapeHolds_def by simp
      then show False using candIs_unique [OF c] by blast
    qed
    then have z: "candIs CandFailed 0 ?r" using c by simp
    have "failuresHold (fanOut ?r)"
      unfolding failuresHold_def using d n l(1) False by (simp add: candIs_fanOut)
    then have "raceHolds tr' (fanOut ?r)" using fanOut_shape [OF s] fanOut_winner [OF w] z by (intro raceHoldsI) simp_all
    then show ?thesis using False by (simp add: takeFailure_def Let_def)
  next
    case True
    have la: "launchedCount ?r = length (raceAddrs r)" using launched_all [OF s] True by simp
    have ll: "length (raceFailures r) < length (raceAddrs r)" using f True l(1) unfolding failuresHold_def by simp
    show ?thesis
    proof (cases "length (raceFailures r) + 1 = length (raceAddrs r)")
      case False
      have "failuresHold ?r" unfolding failuresHold_def using d l(1) True ll False by simp
      then have "raceHolds tr' ?r" by (rule raceHoldsI [OF s _ w])
      then show ?thesis using True False la by (simp add: takeFailure_def Let_def)
    next
      case full: True
      let ?l = "?r\<lparr>raceLoop := RaceLost (raceError ?r)\<rparr>"
      have e: "raceError ?l = raceError ?r" by (rule raceError_cong) simp_all
      have "failuresHold ?l" unfolding failuresHold_def using d full e by (simp add: failedAt_def)
      moreover have "shapeHolds ?l" by (rule shape_same [OF s]) (use shape_heads [OF s] in auto)
      moreover have "winnerHolds ?l"
      proof -
        have all: "candIs CandFailed i r" if i: "i < length (raceAddrs r)" for i
        proof -
          have sub: "set (failedAt ?r) \<subseteq> {..<length (raceAddrs r)}"
            using d(2) candIs_less raceHoldsD(1) [OF h] unfolding shapeHolds_def by fastforce
          have "length (raceAddrs r) \<le> length (failedAt ?r)" using full by (simp add: failedAt_def)
          then have "card {..<length (raceAddrs r)} \<le> card (set (failedAt ?r))" using distinct_card [OF d(1)] by simp
          then have "set (failedAt ?r) = {..<length (raceAddrs r)}" using card_seteq [OF _ sub] by simp
          then show ?thesis using d(2) i by blast
        qed
        have no: "\<not> candIs CandWon i r" for i
          using all [of i] candIs_unique [of CandFailed i r CandWon] candIs_less [of CandWon i r] raceHoldsD(1) [OF h]
          unfolding shapeHolds_def by auto
        have q: "winnerQ r = None" using w no by (cases "winnerQ r") (auto simp: winnerHolds_def)
        then have "allocsOpen r = []" using w l(1) unfolding winnerHolds_def by simp
        then show ?thesis using w no q unfolding winnerHolds_def by auto
      qed
      ultimately have "raceHolds tr' ?l" by (intro raceHoldsI)
      then show ?thesis using True full la by (simp add: takeFailure_def Let_def)
    qed
  qed
qed

text \<open>The other turns.\<close>

lemma flags_keep:
  assumes h: "raceHolds tr r" and eq: "candidates r' = candidates r" "raceAddrs r' = raceAddrs r" "raceOverTCP r' = raceOverTCP r"
    "raceFanned r' = raceFanned r" "failureQ r' = failureQ r" "raceFailures r' = raceFailures r" "raceLoop r' = raceLoop r"
    "winnerQ r' = winnerQ r" "raceClaimed r' = raceClaimed r" "allocsOpen r' = allocsOpen r"
    and t: "headStartRuns r' \<or> connectingQ r' \<or> allocatingQ r' \<longrightarrow> raceOverTCP r"
  shows "raceHolds tr' r'"
proof (rule raceHoldsI)
  have c: "candIs c j r' = candIs c j r" for c j by (rule candIs_cong) (rule eq(1))
  show "shapeHolds r'" by (rule shape_same [OF raceHoldsD(1) [OF h]]) (simp_all add: eq c t)
  show "failuresHold r'" by (rule failures_same [OF raceHoldsD(2) [OF h]]) (simp_all add: eq c failedAt_def)
  show "winnerHolds r'" by (rule winner_same [OF raceHoldsD(3) [OF h]]) (simp_all add: eq c)
qed

lemma takesWinner_keeps:
  assumes h: "raceHolds tr r" and l: "raceLoop r = RaceOn" "winnerQ r = Some w"
  shows "raceHolds tr' (r\<lparr>winnerQ := None, raceLoop := RaceSession w\<rparr>)" (is "raceHolds _ ?r")
proof (rule raceHoldsI)
  show "shapeHolds ?r" by (rule shape_same [OF raceHoldsD(1) [OF h]]) (use shape_heads [OF raceHoldsD(1) [OF h]] in auto)
  show "failuresHold ?r" using raceHoldsD(2) [OF h] unfolding failuresHold_def by (simp add: failedAt_def)
  show "winnerHolds ?r" using raceHoldsD(3) [OF h] l unfolding winnerHolds_def by auto
qed

lemma leaves_keeps:
  assumes h: "raceHolds tr r" and l: "raceLoop r = RaceOn"
  shows "raceHolds tr' (r\<lparr>raceLoop := RaceLeft\<rparr>)" (is "raceHolds _ ?r")
proof (rule raceHoldsI)
  show "shapeHolds ?r" by (rule shape_same [OF raceHoldsD(1) [OF h]]) (use shape_heads [OF raceHoldsD(1) [OF h]] in auto)
  show "failuresHold ?r" using raceHoldsD(2) [OF h] unfolding failuresHold_def by (simp add: failedAt_def)
  show "winnerHolds ?r" using raceHoldsD(3) [OF h] l unfolding winnerHolds_def by auto
qed

lemma reap_keeps:
  assumes h: "raceHolds tr r" and l: "raceLoop r = RaceLeft"
  shows "raceHolds tr' (reapRace r)" "allocsOpen (reapRace r) = []"
proof -
  have w: "winnerHolds r" using raceHoldsD(3) [OF h] .
  have f: "raceError (reapRace r) = raceError r" by (rule raceError_cong) (simp_all add: reapRace_def split: option.splits)
  show o: "allocsOpen (reapRace r) = []" using w l unfolding winnerHolds_def by (cases "winnerQ r") (auto simp: reapRace_def)
  show "raceHolds tr' (reapRace r)"
  proof (rule raceHoldsI)
    show "shapeHolds (reapRace r)"
      by (rule shape_same [OF raceHoldsD(1) [OF h]])
        (use shape_heads [OF raceHoldsD(1) [OF h]] in \<open>auto simp: reapRace_def split: option.splits\<close>)
    show "failuresHold (reapRace r)"
      by (rule failures_same [OF raceHoldsD(2) [OF h]]) (auto simp: reapRace_def failedAt_def split: option.splits)
    show "winnerHolds (reapRace r)" using w l o unfolding winnerHolds_def by (cases "winnerQ r") (auto simp: reapRace_def)
  qed
qed

lemma raceStep_keeps:
  assumes h: "raceHolds tr r" and s: "raceStep q r = (calls, r')"
  shows "raceHolds (tr @ [(q, calls)]) r'"
proof -
  note t = shape_heads [OF raceHoldsD(1) [OF h]]
  note keep = raceHolds_any [OF h] fails_keeps [OF h] allocates_keeps [OF h] headStart_keeps [OF h] takeFailure_keeps [OF h]
    takesWinner_keeps [OF h] leaves_keeps [OF h] reap_keeps(1) [OF h]
  have c: "raceHolds tr' (r\<lparr>connectingQ := True\<rparr>)" "raceHolds tr' (r\<lparr>allocatingQ := True\<rparr>)" if "raceOverTCP r" for tr'
    by (rule flags_keep [OF h]; use that in simp)+
  have d: "raceHolds tr' (startHeadStart (r\<lparr>connectingQ := False\<rparr>))" if "connectingQ r" for tr'
    by (rule flags_keep [OF h]) (use that t in \<open>simp_all add: startHeadStart_def\<close>)
  have e: "raceHolds tr' (startHeadStart (r\<lparr>allocatingQ := False, headSlot := True\<rparr>))" if "allocatingQ r" for tr'
    by (rule flags_keep [OF h]) (use that t in \<open>simp_all add: startHeadStart_def\<close>)
  have "raceHolds tr' (snd (raceStep q r))" for tr'
    by (cases q) (simp_all add: raceStep_def keep c d e split: option.split list.split)
  then show ?thesis using s by simp
qed

interpretation races: traced raceStep raceHolds "\<lambda>_. True"
  by unfold_locales (rule raceStep_keeps)

lemma newRace_holds:
  assumes "addrs \<noteq> []"
  shows "raceHolds [] (newRelayRace addrs overTCP)"
proof (rule raceHoldsI)
  let ?r = "newRelayRace addrs overTCP"
  have c: "candIs c i ?r \<longleftrightarrow> i < length addrs \<and> c = (if i = 0 then CandDials else CandWaits)" for c i
    using assms by (cases i) (auto simp: candIs_def newRelayRace_def)
  show "shapeHolds ?r" using assms unfolding shapeHolds_def c by (auto simp: newRelayRace_def) (cases addrs; simp)+
  show "failuresHold ?r" using assms unfolding failuresHold_def c by (auto simp: newRelayRace_def failedAt_def)
  show "winnerHolds ?r" using assms unfolding winnerHolds_def c by (auto simp: newRelayRace_def)
qed

lemma raceStep_same:
  "raceAddrs (snd (raceStep q r)) = raceAddrs r" "raceOverTCP (snd (raceStep q r)) = raceOverTCP r"
  by (cases q; simp add: raceStep_def headStartOver_def takeFailure_def startHeadStart_def reapRace_def Let_def split: option.split list.split)+

lemma traceRun_race_same:
  "traceRun raceStep qs r = (tr, r') \<Longrightarrow> raceAddrs r' = raceAddrs r \<and> raceOverTCP r' = raceOverTCP r"
proof (induction qs arbitrary: r tr)
  case (Cons q qs)
  obtain calls r1 tr1 where st: "raceStep q r = (calls, r1)" "traceRun raceStep qs r1 = (tr1, r')"
    using Cons.prems by (rule traceRun_Cons)
  then show ?case using Cons.IH [OF st(2)] raceStep_same [of q r] by simp
qed simp

lemma winnerHoldsD:
  assumes "winnerHolds r"
  shows "candIs CandWon i r \<Longrightarrow> raceClaimed r" "candIs CandLost i r \<Longrightarrow> raceClaimed r"
    "\<lbrakk>winnerQ r = None; raceLoop r = RaceOn\<rbrakk> \<Longrightarrow> \<not> raceClaimed r"
proof -
  show "candIs CandWon i r \<Longrightarrow> raceClaimed r" using assms unfolding winnerHolds_def by meson
  show "candIs CandLost i r \<Longrightarrow> raceClaimed r" using assms unfolding winnerHolds_def by meson
  assume "winnerQ r = None" "raceLoop r = RaceOn"
  then show "\<not> raceClaimed r" using assms unfolding winnerHolds_def by (metis raceLoop.distinct(1))
qed

text \<open>While the loop goes on something is dialling or waits to be taken; and a race that is lost has every relay's failure, once.\<close>

lemma race_goes_on:
  assumes h: "raceHolds tr r" and l: "raceLoop r = RaceOn" and n: "\<forall>i. \<not> candIs CandDials i r"
  shows "failureQ r \<noteq> [] \<or> winnerQ r \<noteq> None"
proof (cases "raceClaimed r")
  case True
  then show ?thesis using winnerHoldsD(3) [OF raceHoldsD(3) [OF h] _ l] by blast
next
  case False
  have nw: "\<not> candIs CandWon i r" "\<not> candIs CandLost i r" for i using winnerHoldsD(1,2) [OF raceHoldsD(3) [OF h]] False by blast+
  have ph: "i < length (candidates r) \<Longrightarrow> \<not> candIs CandWaits i r \<Longrightarrow> candIs CandFailed i r" for i
    using nw [of i] spec [OF n, of i] by (cases "candidates r ! i") (auto simp: candIs_def)
  have f: "failuresHold r" using raceHoldsD(2) [OF h] .
  have c: "length (candidates r) = length (raceAddrs r)" "0 < length (raceAddrs r)" "\<not> candIs CandWaits 0 r"
    using raceHoldsD(1) [OF h] unfolding shapeHolds_def by simp_all
  show ?thesis
  proof (cases "raceFanned r")
    case False
    have "candIs CandFailed 0 r" using ph [of 0] c by simp
    then have "0 \<in> set (failedAt r)" using f unfolding failuresHold_def by blast
    moreover have "raceFailures r = []" using f l False unfolding failuresHold_def by simp
    ultimately show ?thesis by (auto simp: failedAt_def)
  next
    case True
    have nt: "\<not> candIs CandWaits i r" for i using raceHoldsD(1) [OF h] True unfolding shapeHolds_def by simp
    have "{..<length (raceAddrs r)} \<subseteq> set (failedAt r)"
    proof
      fix i assume "i \<in> {..<length (raceAddrs r)}"
      then have "candIs CandFailed i r" using ph [OF _ nt] c(1) by simp
      then show "i \<in> set (failedAt r)" using f unfolding failuresHold_def by blast
    qed
    then have "card {..<length (raceAddrs r)} \<le> card (set (failedAt r))" by (rule card_mono [OF finite_set])
    also have "\<dots> \<le> length (failedAt r)" by (rule card_length)
    finally have "length (raceAddrs r) \<le> length (failedAt r)" by simp
    moreover have "length (raceFailures r) < length (raceAddrs r)" using f l True unfolding failuresHold_def by simp
    ultimately show ?thesis by (auto simp: failedAt_def)
  qed
qed

lemma lost_race:
  assumes h: "raceHolds tr r" and l: "raceLoop r = RaceLost e"
  shows "allocsOpen r = []" "distinct (map fst (raceFailures r))" "set (map fst (raceFailures r)) = {..<length (raceAddrs r)}"
    "\<forall>i < length (raceAddrs r). candIs CandFailed i r" "e = raceError r"
proof -
  have f: "failuresHold r" using raceHoldsD(2) [OF h] .
  have c: "length (candidates r) = length (raceAddrs r)" using raceHoldsD(1) [OF h] unfolding shapeHolds_def by simp
  show d: "distinct (map fst (raceFailures r))" using f by (auto simp: failuresHold_def failedAt_def)
  have sub: "set (map fst (raceFailures r)) \<subseteq> {..<length (raceAddrs r)}"
  proof
    fix i assume "i \<in> set (map fst (raceFailures r))"
    then have "i \<in> set (failedAt r)" by (simp add: failedAt_def)
    then have "candIs CandFailed i r" using f unfolding failuresHold_def by blast
    then show "i \<in> {..<length (raceAddrs r)}" using candIs_less c by fastforce
  qed
  have "card (set (map fst (raceFailures r))) = length (raceAddrs r)"
    using distinct_card [OF d] f l unfolding failuresHold_def by simp
  then show all: "set (map fst (raceFailures r)) = {..<length (raceAddrs r)}" using card_seteq [OF _ sub] by simp
  show fa: "\<forall>i < length (raceAddrs r). candIs CandFailed i r"
  proof (intro allI impI)
    fix i assume "i < length (raceAddrs r)"
    then have "i \<in> set (failedAt r)" using all by (auto simp: failedAt_def)
    then show "candIs CandFailed i r" using f unfolding failuresHold_def by blast
  qed
  show "e = raceError r" using f l unfolding failuresHold_def by blast
  have no: "\<not> candIs CandWon i r" for i using fa candIs_unique [of CandFailed i r CandWon] candIs_less [of CandWon i r] c by auto
  have w: "winnerHolds r" using raceHoldsD(3) [OF h] .
  have q: "winnerQ r = None" using w no by (cases "winnerQ r") (auto simp: winnerHolds_def)
  then show "allocsOpen r = []" using w l unfolding winnerHolds_def by simp
qed

text \<open>
  C24. However the dials of an attempt end and the loop of its race turns: while it goes on with no dial left there is something for it to take, so
  it always ends; a session runs on the one allocation open; a race that is lost has the failure of every relay, each once, speaks through them,
  and leaves none open; an attempt that was cancelled leaves none open once its dials have ended and the reaper has run; and no relay but
  the first is dialled over UDP before the first has failed.
\<close>

theorem relay_race_leaves_nothing_behind:
  assumes "traceRun raceStep qs (newRelayRace addrs overTCP) = (tr, r)" "addrs \<noteq> []"
  shows "(raceLoop r = RaceOn \<and> (\<forall>i. \<not> candIs CandDials i r) \<longrightarrow> failureQ r \<noteq> [] \<or> winnerQ r \<noteq> None)
    \<and> (\<forall>w. raceLoop r = RaceSession w \<longrightarrow> w < length addrs \<and> allocsOpen r = [w])
    \<and> (\<forall>e. raceLoop r = RaceLost e \<longrightarrow> allocsOpen r = [] \<and> (\<forall>i < length addrs. candIs CandFailed i r)
        \<and> (\<exists>fs. distinct (map fst fs) \<and> set (map fst fs) = {..<length addrs}
            \<and> e = newRaceError (map (\<lambda>(i, e, t). Attempt (addrs ! i) e t) fs)))
    \<and> (raceLoop r = RaceLeft \<and> CandDials \<notin> set (candidates r) \<longrightarrow> allocsOpen (snd (raceStep Reaps r)) = [])
    \<and> (\<forall>i. 0 < i \<and> i < length addrs \<and> \<not> candIs CandWaits i r \<longrightarrow> overTCP \<or> candIs CandFailed 0 r)"
proof (intro conjI)
  have h: "raceHolds tr r" using races.run_establishes [OF assms(1) newRace_holds [OF assms(2)]] by simp
  have a: "raceAddrs r = addrs" "raceOverTCP r = overTCP" using traceRun_race_same [OF assms(1)] by (simp_all add: newRelayRace_def)
  have c: "length (candidates r) = length addrs" using raceHoldsD(1) [OF h] unfolding shapeHolds_def a by simp
  show "raceLoop r = RaceOn \<and> (\<forall>i. \<not> candIs CandDials i r) \<longrightarrow> failureQ r \<noteq> [] \<or> winnerQ r \<noteq> None"
    using race_goes_on [OF h] by blast
  show "\<forall>w. raceLoop r = RaceSession w \<longrightarrow> w < length addrs \<and> allocsOpen r = [w]"
  proof (intro allI impI)
    fix w assume "raceLoop r = RaceSession w"
    then have "candIs CandWon w r \<and> allocsOpen r = [w]" using raceHoldsD(3) [OF h] unfolding winnerHolds_def by blast
    then show "w < length addrs \<and> allocsOpen r = [w]" using candIs_less [of CandWon w r] c by simp
  qed
  show "raceLoop r = RaceLeft \<and> CandDials \<notin> set (candidates r) \<longrightarrow> allocsOpen (snd (raceStep Reaps r)) = []"
    using reap_keeps(2) [OF h] by (simp add: raceStep_def)
  show "\<forall>i. 0 < i \<and> i < length addrs \<and> \<not> candIs CandWaits i r \<longrightarrow> overTCP \<or> candIs CandFailed 0 r"
    using raceHoldsD(1) [OF h] unfolding shapeHolds_def a by (cases "raceFanned r") auto
  show "\<forall>e. raceLoop r = RaceLost e \<longrightarrow> allocsOpen r = [] \<and> (\<forall>i < length addrs. candIs CandFailed i r)
        \<and> (\<exists>fs. distinct (map fst fs) \<and> set (map fst fs) = {..<length addrs}
            \<and> e = newRaceError (map (\<lambda>(i, e, t). Attempt (addrs ! i) e t) fs))"
  proof (intro allI impI conjI exI [of _ "raceFailures r"])
    fix e assume l: "raceLoop r = RaceLost e"
    note k = lost_race [OF h l]
    show "allocsOpen r = []" by (rule k(1))
    show "distinct (map fst (raceFailures r))" by (rule k(2))
    show "set (map fst (raceFailures r)) = {..<length addrs}" using k(3) a by simp
    show "e = newRaceError (map (\<lambda>(i, e, t). Attempt (addrs ! i) e t) (raceFailures r))" using k(5) a by (simp add: raceError_def)
    fix i assume "i < length addrs"
    then show "candIs CandFailed i r" using k(4) a by simp
  qed
qed

text \<open>Over TCP the first relay is silent past its head start; the second allocates, and the first does so too late.\<close>

definition silentHead :: "raceOp list" where
  "silentHead = [HeadConnecting, TakesConnecting, HeadStartEnds, DialAllocates 1, TakesWinner, DialAllocates 0]"

lemma silentHead_run:
  "case traceRun raceStep silentHead (newRelayRace [''a'', ''b''] True) of (tr, r) \<Rightarrow>
    raceLoop r = RaceSession 1 \<and> candidates r = [CandLost, CandWon]"
  by code_simp

lemma relay_race_leaves_nothing_behind_witness:
  "\<exists>tr r. traceRun raceStep silentHead (newRelayRace [''a'', ''b''] True) = (tr, r) \<and> raceLoop r = RaceSession 1 \<and> allocsOpen r = [1]"
proof -
  obtain tr r where t: "traceRun raceStep silentHead (newRelayRace [''a'', ''b''] True) = (tr, r)" by fastforce
  have l: "raceLoop r = RaceSession 1" using silentHead_run unfolding t by simp
  have "[''a'', ''b''] \<noteq> []" by simp
  from relay_race_leaves_nothing_behind [OF t this] l have "allocsOpen r = [1]" by (elim conjE) simp
  then show ?thesis using t l by (intro exI conjI)
qed

end
