(* ===== verification/Spec2Isabelle.thy ===== *)
theory Spec2Isabelle
  imports ServerHealthProps RelayRestProps OrphansProps WorkerCredsProps RelayLossProps
    RelayJudgeProps RelayMoveProps WrapProps WatchdogProps DarkPathProps ErrorsProps CredentialsProps
    WorkerProps DispatchProps NetGateProps FeedbackProps SilentLoadProps RelayDeafProps
    DnsProps HostMemoryProps VkDialProps RoutesProps ConfigProps ExpertProps Release ConnLinkProps
    TcpWatchProps KeepaliveLoopProps SessionWatchProps SrtpWrapProps SocksProps TunnelManagerProps Pacing ProxyStart RelayRace
begin

text \<open>
  The transport of WgKeyBot for Windows: a verification of the decisions of its proxy.

  The program is a WireGuard client whose packets travel through TURN relays of a telephony service
  (\<open>src/README.md\<close>). A proxy (\<open>src/pkg/proxy\<close>) keeps a number of streams, each on an allocation of one relay under a
  credential shared by a group of streams; a worker per stream dials, runs the session and dials again. What is hard in it
  is not the moving of bytes but the judgement: which relay to try, whom to blame for a failure, when to ask
  the service for a new credential (each question risks a captcha), when to wait and for how long, and
  when to give the tunnel up. These judgements are what is modelled, each operation after the function of the
  source that bears its name.

  The parts and their theories:

    \<^item> \<open>GoBase\<close>, \<open>GoBytes\<close>: the prelude. Times are \<open>int\<close>, nanoseconds since the Unix epoch
      (the zero \<open>time.Time\<close> is \<open>zero_time\<close>, before it), durations saturate in \<open>Sub\<close> as \<open>time.Time.Sub\<close> does; maps are
      association lists; strings are lists of bytes; \<open>go_consts\<close> collects the constants. \<open>GoBase\<close> has the contract
      (\<open>lazy_verdict\<close>) of the verdicts that expire when they are read, and \<open>Traces\<close> the runs of calls in any order
      with the rule by which a run keeps what each call keeps (\<open>traced\<close>).
    \<^item> \<open>ServerHealth\<close>: \<open>turn_server_health.go\<close>, \<open>turn_server_demotion.go\<close>: the strikes, stand-downs and demotions of relays.
    \<^item> \<open>RelayRest\<close>, \<open>RelayRestStore\<close>: \<open>relay_rest.go\<close>, \<open>relay_rest_store.go\<close>: the rests of lossy relays, with the file they
      survive a restart in.
    \<^item> \<open>Orphans\<close>, \<open>OrphansInv\<close>, \<open>OrphansReach\<close>: \<open>orphaned_allocations.go\<close>: the book of allocations live and left behind, its
      invariant and the states it reaches.
    \<^item> \<open>WorkerCreds\<close>: \<open>worker_creds.go\<close>, \<open>outageOrder\<close>, \<open>group_stream_counts.go\<close>: the order in which a stream tries its relays.
    \<^item> \<open>RelayLoss\<close>, \<open>RelayJudge\<close>, \<open>RelayMove\<close>: \<open>relay_loss.go\<close>, \<open>relay_judge.go\<close>, \<open>relay_collapse.go\<close>, \<open>relay_move.go\<close>,
      \<open>relay_sessions.go\<close>: what each relay loses of the packets coming in, the judgement on it, and the moves of sessions.
      The locale \<open>strike_judge\<close> is the contract both judges meet.
    \<^item> \<open>Wrap\<close>: \<open>wrap.go\<close>: the form of a wrapped packet, its keystreams (ChaCha20 and SHA-256 are parameters) and its nonces.
    \<^item> \<open>Watchdog\<close>: \<open>pkg/watchdog\<close> and the tick of \<open>winbridge/tunnel.go\<close>: is the tunnel dead, and what is done about it.
    \<^item> \<open>Keepalive\<close>, \<open>Dispatch\<close>: \<open>keepalive_policy.go\<close>, \<open>dispatch_policy.go\<close>, \<open>stream_queue.go\<close>, \<open>dispatchPacket\<close>: the
      grid of the keepalives, the clocks of a stream, and how a packet finds a stream.
    \<^item> \<open>DarkPath\<close>: \<open>dark_scout.go\<close>, \<open>path_revival.go\<close>, \<open>relay_silence.go\<close>: a path on which no relay is heard, and the one
      worker at a time that scouts it.
    \<^item> \<open>Errors\<close>, \<open>SessionVerdict\<close>: the classification of errors (\<open>worker_group.go\<close>, \<open>stream_run_with_creds.go\<close>,
      \<open>relay_silence.go\<close>, \<open>path_revival.go\<close>, \<open>local_network_failure.go\<close>) and the grade of a session that ended.
    \<^item> \<open>Credentials\<close>: \<open>credentials.go\<close>, \<open>quota_breaker.go\<close>: the cache of credentials and the breaker that pauses minting.
    \<^item> \<open>NetGate\<close>: \<open>network_availability.go\<close>: the gate before new connections.
    \<^item> \<open>Worker\<close>: \<open>runWorker\<close> of \<open>worker_group.go\<close>, \<open>turn_fatal.go\<close>: what a worker does next.
    \<^item> \<open>Feedback\<close>: \<open>downlink_feedback.go\<close>, \<open>feedback_wire.go\<close>: the packets of WGH1 by which the server learns which streams hear it.
    \<^item> \<open>SilentLoad\<close>, \<open>RelayDeaf\<close>: \<open>silent_under_load.go\<close>, \<open>relay_deaf.go\<close>: a stream that falls silent while others are served, and
      a relay whose sessions never hear anything.
    \<^item> The contract (\<open>hedged_race\<close> of \<open>Traces\<close>) of a race over a list of candidates, each started when the one before is late or has
      failed; \<open>Dns\<close>: \<open>dns.go\<close>: the race over resolvers, the cache with its lookups in flight, the query and the reader of replies;
      \<open>HostMemory\<close>, \<open>VkDial\<close>: \<open>vk_host_memory.go\<close>, \<open>vk_dial.go\<close>: the addresses of the service kept over a restart, and the race of dials
      over them.
    \<^item> \<open>Routes\<close>: \<open>winbridge/routing.go\<close>, \<open>bypass.go\<close>: the routes that keep the relays outside the tunnel.
    \<^item> \<open>GoText\<close>: runes, trimming, numbers and base64 of the standard library, as the next parts use them.
    \<^item> \<open>Config\<close>: \<open>winbridge/config.go\<close>, part of \<open>winbridge/import.go\<close>: the configuration read, the text the device is given, the client of
      the control plane; \<open>Expert\<close>: \<open>pkg/expert\<close>, \<open>winbridge/expert.go\<close>: the user's own settings laid over it; \<open>ConnLink\<close>:
      \<open>pkg/connlink\<close>, \<open>PrepareImport\<close>: a token or a whole configuration out of what was pasted; \<open>Release\<close>: \<open>pkg/release\<close>: is there a
      newer version.
    \<^item> \<open>TcpWatch\<close>: \<open>relay_tcp_watch.go\<close>: the stalls of the TCP sockets to the relays, each with the mark it leaves on its streams;
      \<open>WakeProbe\<close>, \<open>KeepaliveLoop\<close>: \<open>wake_probe.go\<close> and the keepalive loop of \<open>turn-client.go\<close>, poll by poll: the probe after a wake,
      the answers it waits for, and when a stream is found dead; \<open>SessionWatch\<close>: \<open>turn_client_net.go\<close>, \<open>turn_permwatch.go\<close>,
      \<open>relay_write_probe.go\<close>, \<open>alloc_check.go\<close>, \<open>session_readiness.go\<close>: what the relay tells of an allocation, and the flag that a
      stream is ready.
    \<^item> \<open>Pacing\<close>: \<open>relay_connect_pacing.go\<close>, \<open>relay_extra.go\<close>, \<open>stream_census.go\<close>: TCP connects spaced in time, the relays of the
      configuration, and which proxy's streams are the running ones.
    \<^item> \<open>RelayRace\<close>: \<open>runWithCreds\<close> of \<open>stream_run_with_creds.go\<close>: the race of an attempt over its relays; \<open>ProxyStart\<close>: \<open>StartProxy\<close> and
      \<open>StopProxy\<close> of \<open>turn-client.go\<close>, step by step, in any interleaving.
    \<^item> \<open>SrtpWrap\<close>: \<open>pkg/proxy/srtpwrap\<close>: the demultiplexing of media and handshake, the deadlines of reads, the packets and the
      sessions of a listener (DTLS, SRTP and the RTP header are parameters). The locale \<open>deadline_conn\<close> is the contract both deadlines meet.
    \<^item> \<open>Socks\<close>: \<open>winbridge/socks.go\<close>: the server's side of RFC 1928, the UDP associations and the life of the connections.
    \<^item> \<open>ProxyLife\<close>: \<open>pkg/proxy/tunnel.go\<close>: the generations of the proxy and the waits for them; \<open>TunnelManager\<close>:
      \<open>winbridge/tunnel.go\<close>, \<open>netwatch.go\<close>, \<open>relay_transport.go\<close>: bringing the tunnel up and down, and the looks at the physical network.

  How the parts meet. A worker passes \<open>NetGate\<close>, takes a credential from \<open>Credentials\<close>, waits its turn in \<open>DarkPath\<close>, orders its
  relays by \<open>WorkerCreds\<close> (which reads \<open>ServerHealth\<close>, \<open>RelayRest\<close> and \<open>Orphans\<close>) and dials. When the attempt ends,
  \<open>SessionVerdict\<close> grades it into \<open>ServerHealth\<close>, and \<open>Worker\<close> composes \<open>Errors\<close>, \<open>Credentials\<close>, \<open>Orphans\<close>, \<open>WorkerCreds\<close> and \<open>DarkPath\<close>
  into its next step, over one state that holds the records of all of them. The judge of \<open>RelayMove\<close> reads \<open>RelayLoss\<close>, writes
  \<open>RelayRest\<close> and moves sessions; so does \<open>RelayDeaf\<close>, with the witnesses it asks for; a network lost reaches \<open>Orphans\<close> through
  \<open>NetGate\<close>. A dial of \<open>VkDial\<close> asks \<open>HostMemory\<close> and the cache of \<open>Dns\<close> for addresses and writes to both which one connected. An
  import of \<open>ConnLink\<close> is judged by the reader of \<open>Config\<close>, and \<open>Expert\<close> changes what that reader found. \<open>TunnelManager\<close> starts a generation of \<open>ProxyLife\<close>, waits for the code that \<open>SessionVerdict\<close>
  grades a start with, puts the server of \<open>Socks\<close> on the device, and tells \<open>NetGate\<close> whether there is a network; its wake of the streams
  is the wake that \<open>WakeProbe\<close> answers in the loop of \<open>KeepaliveLoop\<close>, and what \<open>TcpWatch\<close>, \<open>SessionWatch\<close> and that loop find
  ends the session that \<open>SessionVerdict\<close> grades.

  What the theorems show (the theories named \<open>\<dots>Props\<close>):

    \<^item> blame is earned: a stand-down takes three spaced failures, a rest two bad windows, and what ended with
      the machine's own network, a sleep or a cancellation costs no relay anything;
    \<^item> books balance: the ghosts counted are the allocations stamped, each once; the windows account for every counter once;
      a saved rest is the rest found after a restart; rests double up to four hours and no file prolongs them;
    \<^item> credentials are spared: a race asks for new ones exactly when a relay does, a slot is expired only for its own
      credential's refusal, a group mints at most one more than it was made to, and minting pauses only for two fresh refusals;
    \<^item> workers come back, back off, and dial a dark path one at a time, in turn and spaced; a closed gate lets one probe
      through at a time, a minute apart;
    \<^item> packets go to the best stream there is, wrapped packets read back as they were and no nonce is used twice;
    \<^item> a dead tunnel is restarted at most twice and then given up, within 35 minutes;
    \<^item> a stream is convicted of silence, and a relay of deafness, only while others demonstrably hear;
    \<^item> a socket is stalled after two silent samples and its marks go with it; a probe is answered only by what was heard after it, and
      a stream found dead was silent for as long as that takes; the ready flag is the claim of a session that lives;
    \<^item> a deadline that has passed wakes every read and closes no channel twice; the handshake and the session get exactly their
      datagrams, media reads back as it was written, and a source has one session;
    \<^item> what a connect brought up its failure or the disconnect takes down, one generation of the proxy is alive at a time, and the
      streams are woken exactly when the network moved or came back;
    \<^item> connects to a relay are spaced by the workers' stagger, configured relays join the link's once each, and a proxy that claims or ends late
      takes nothing from the one that runs;
    \<^item> the race of an attempt always ends and leaves no allocation open but its session's, and of interleaved starts one at most is at work;
    \<^item> a SOCKS client is served what it asked for, and no connection outlives its association;
    \<^item> a race is lost only when every candidate has lost; no reply of a resolver, whatever its bytes, makes the reader panic, and the
      cache never answers with an empty list;
    \<^item> no route round the tunnel leads to its own resolver, and none is left behind;
    \<^item> what an import keeps can bring a tunnel up; keys, links, tokens and resolvers mean on both sides the same, and every number of
      a configuration is within its bounds.

  Conventions. An operation takes the record of its component and returns it updated; what it reads of the world (the clock, a
  random draw, the outcome of a dial, an error, the end of a context) is an argument. A lock held over an operation makes it
  one step; where a function waits in a loop, the model is one look of the loop (\<open>waitForNetworkPermit\<close>, \<open>parkPoll\<close>,
  \<open>revivalLook\<close>, \<open>holdTurn\<close>) and the runs of \<open>Traces\<close> interleave the looks in any order. All functions are total: no fuel is
  used. The 64-bit counters that are compared for order or identity are words; those only ever counted up from zero
  and read as statistics are left out with the log. Rates are rationals where the code has \<open>float64\<close>.

  Not modelled, and why: the sockets, the TURN client, DTLS and SRTP, the WireGuard device, the HTTP and TLS exchanges
  with the service, the captcha solver and the user interface (calls of the system or of a library, or drawing); the goroutines
  and timers around the operations (their interleavings are the runs); log lines and the counters only they read. Of what
  decides something of its own, these files are still outside: \<open>slider_captcha.go\<close>, \<open>vk_captcha.go\<close> and \<open>vk.go\<close>, whose steps follow pages of
  the service, and the tray (\<open>tray/\<close>). Parameters of the model stand for zlib, \<open>encoding/json\<close>, \<open>url.Parse\<close>, DTLS, SRTP,
  ChaCha20 and SHA-256, and an address the system's parser has read is an argument.
\<close>

end
